(* ===== verification/Prelude.thy ===== *)
theory Prelude
  imports Main "HOL-Library.Word" "HOL-Library.List_Lexorder" "HOL-Library.Char_ord"
    "HOL-Library.Sublist"
begin

text \<open>
  Shared base of the development: bytes and byte strings, the result type of fallible code,
  slices of a byte string with the failure cases of Rust's indexing, the scanning loop that
  the lexer and the parsers of timestamps share, and the list lemmas several components use.

  A Rust \<open>str\<close> is a byte sequence (its UTF-8 encoding), so text and raw keys have the same
  type here: a list of HOL characters, one per byte.  Byte strings are ordered as Rust
  orders slices, lexicographically with a proper prefix first (\<open>List_Lexorder\<close>).
\<close>

named_theorems slice_simps \<open>facts about slices, scans and character boundaries\<close>

type_synonym byte = char
type_synonym bytes = "char list"

section \<open>Results of fallible code\<close>

text \<open>\<open>Result<T, E>\<close> is \<open>'e + 'a\<close>: \<open>Inl\<close> is \<open>Err\<close>, \<open>Inr\<close> is \<open>Ok\<close>.\<close>

definition bind_result :: "'e + 'a \<Rightarrow> ('a \<Rightarrow> 'e + 'b) \<Rightarrow> 'e + 'b" where
  "bind_result r f = (case r of Inl e \<Rightarrow> Inl e | Inr a \<Rightarrow> f a)"

lemma bind_result_simps [simp]:
  "bind_result (Inl e) f = Inl e"
  "bind_result (Inr a) f = f a"
  by (simp_all add: bind_result_def)

lemma bind_result_Inr_iff:
  "bind_result r f = Inr b \<longleftrightarrow> (\<exists>a. r = Inr a \<and> f a = Inr b)"
  by (cases r) auto

lemma bind_result_Inl_iff:
  "bind_result r f = Inl e \<longleftrightarrow> r = Inl e \<or> (\<exists>a. r = Inr a \<and> f a = Inl e)"
  by (cases r) auto

section \<open>ASCII classes of a byte\<close>

definition byte_val :: "byte \<Rightarrow> nat" where
  "byte_val c = of_char c"

definition is_ascii_digit :: "byte \<Rightarrow> bool" where
  "is_ascii_digit c \<longleftrightarrow> CHR ''0'' \<le> c \<and> c \<le> CHR ''9''"

definition is_ascii_lowercase :: "byte \<Rightarrow> bool" where
  "is_ascii_lowercase c \<longleftrightarrow> CHR ''a'' \<le> c \<and> c \<le> CHR ''z''"

definition is_ascii_uppercase :: "byte \<Rightarrow> bool" where
  "is_ascii_uppercase c \<longleftrightarrow> CHR ''A'' \<le> c \<and> c \<le> CHR ''Z''"

definition is_ascii_alphabetic :: "byte \<Rightarrow> bool" where
  "is_ascii_alphabetic c \<longleftrightarrow> is_ascii_lowercase c \<or> is_ascii_uppercase c"

definition is_ascii_alphanumeric :: "byte \<Rightarrow> bool" where
  "is_ascii_alphanumeric c \<longleftrightarrow> is_ascii_alphabetic c \<or> is_ascii_digit c"

text \<open>Space, tab, line feed, form feed, carriage return: not the vertical tab.\<close>

definition is_ascii_whitespace :: "byte \<Rightarrow> bool" where
  "is_ascii_whitespace c \<longleftrightarrow>
     c = CHR '' '' \<or> c = CHR 0x09 \<or> c = CHR 0x0A \<or> c = CHR 0x0C \<or> c = CHR 0x0D"

definition ascii_upper :: "byte \<Rightarrow> byte" where
  "ascii_upper c = (if is_ascii_lowercase c then char_of (byte_val c - 32) else c)"

definition ascii_lower :: "byte \<Rightarrow> byte" where
  "ascii_lower c = (if is_ascii_uppercase c then char_of (byte_val c + 32) else c)"

definition is_ascii :: "byte \<Rightarrow> bool" where
  "is_ascii c \<longleftrightarrow> byte_val c < 128"

lemmas ascii_class_defs =
  is_ascii_digit_def is_ascii_lowercase_def is_ascii_uppercase_def is_ascii_alphabetic_def
  is_ascii_alphanumeric_def

lemma byte_val_less_eq: "c \<le> d \<longleftrightarrow> byte_val c \<le> byte_val d"
  by (simp add: byte_val_def less_eq_char_def)

lemma byte_val_less: "c < d \<longleftrightarrow> byte_val c < byte_val d"
  by (simp add: byte_val_def less_char_def)

lemma byte_val_bound [simp]: "byte_val c < 256"
  by (simp add: byte_val_def)

lemma byte_val_inject [simp]: "byte_val c = byte_val d \<longleftrightarrow> c = d"
  by (simp add: byte_val_def)

lemma char_of_byte_val [simp]: "char_of (byte_val c) = c"
  by (simp add: byte_val_def)

lemma byte_val_char_of: "byte_val (char_of (n :: nat)) = n mod 256"
  by (simp add: byte_val_def)

section \<open>UTF-8 structure of text\<close>

text \<open>
  \<open>is_cont\<close> is a continuation byte; \<open>utf8_len\<close> the length that a lead byte announces (0 for a
  byte that starts no character).  \<open>utf8_char\<close> checks one well-formed sequence at the head
  of a byte string (the ranges of Unicode's table of well-formed sequences: no overlong
  forms, no surrogates, nothing above U+10FFFF) and \<open>utf8_valid\<close> is the invariant of
  every \<open>str\<close>.
\<close>

definition is_cont :: "byte \<Rightarrow> bool" where
  "is_cont c \<longleftrightarrow> 128 \<le> byte_val c \<and> byte_val c < 192"

definition utf8_len :: "byte \<Rightarrow> nat" where
  "utf8_len c =
     (let v = byte_val c in
      if v < 128 then 1 else if v < 194 then 0 else if v < 224 then 2
      else if v < 240 then 3 else if v < 245 then 4 else 0)"

definition second_byte_ok :: "byte \<Rightarrow> byte \<Rightarrow> bool" where
  "second_byte_ok c d \<longleftrightarrow>
     is_cont d \<and>
     (byte_val c = 224 \<longrightarrow> 160 \<le> byte_val d) \<and>
     (byte_val c = 237 \<longrightarrow> byte_val d < 160) \<and>
     (byte_val c = 240 \<longrightarrow> 144 \<le> byte_val d) \<and>
     (byte_val c = 244 \<longrightarrow> byte_val d < 144)"

definition utf8_char :: "bytes \<Rightarrow> nat" where
  "utf8_char s =
     (case s of [] \<Rightarrow> 0
      | c # r \<Rightarrow>
        (let n = utf8_len c in
         if n \<le> 1 then n
         else if length r < n - 1 then 0
         else if second_byte_ok c (hd r) \<and> list_all is_cont (take (n - 2) (tl r)) then n
         else 0))"

lemma utf8_char_le: "utf8_char s \<le> length s"
  by (auto simp: utf8_char_def Let_def split: list.splits)

function utf8_valid :: "bytes \<Rightarrow> bool" where
  "utf8_valid s =
     (if s = [] then True
      else if utf8_char s = 0 then False
      else utf8_valid (drop (utf8_char s) s))"
  by pat_completeness auto
termination
  by (relation "measure length") auto

declare utf8_valid.simps [simp del]

lemma utf8_valid_Nil [simp]: "utf8_valid []"
  by (simp add: utf8_valid.simps)

section \<open>Slices\<close>

text \<open>
  \<open>is_char_boundary s i\<close> is Rust's: the start, the end, or a byte that is not a
  continuation.  \<open>str_get s i j\<close> is \<open>s.get(i..j)\<close>: \<open>None\<close> outside the string, for a
  reversed range, or when an end is inside a character.  \<open>&s[i..j]\<close> panics exactly where
  \<open>s.get(i..j)\<close> is \<open>None\<close>.
\<close>

definition is_char_boundary :: "bytes \<Rightarrow> nat \<Rightarrow> bool" where
  "is_char_boundary s i \<longleftrightarrow> i = 0 \<or> i = length s \<or> (i < length s \<and> \<not> is_cont (s ! i))"

definition substr :: "'a list \<Rightarrow> nat \<Rightarrow> nat \<Rightarrow> 'a list" where
  "substr s i j = take (j - i) (drop i s)"

definition str_get :: "bytes \<Rightarrow> nat \<Rightarrow> nat \<Rightarrow> bytes option" where
  "str_get s i j =
     (if i \<le> j \<and> j \<le> length s \<and> is_char_boundary s i \<and> is_char_boundary s j
      then Some (substr s i j) else None)"

text \<open>\<open>while i < b.len() && p(b[i]) { i += 1 }\<close>: the index where the scan stops.\<close>

function scan_while :: "('a \<Rightarrow> bool) \<Rightarrow> 'a list \<Rightarrow> nat \<Rightarrow> nat" where
  "scan_while p b i = (if i < length b \<and> p (b ! i) then scan_while p b (Suc i) else i)"
  by pat_completeness auto
termination
  by (relation "measure (\<lambda>(p, b, i). length b - i)") auto

declare scan_while.simps [simp del]

lemma scan_while_ge [slice_simps]: "i \<le> scan_while p b i"
proof (induction p b i rule: scan_while.induct)
  case (1 p b i)
  then show ?case by (subst scan_while.simps) (auto dest: Suc_leD)
qed

lemma scan_while_le [slice_simps]: "i \<le> length b \<Longrightarrow> scan_while p b i \<le> length b"
proof (induction p b i rule: scan_while.induct)
  case (1 p b i)
  then show ?case by (subst scan_while.simps) auto
qed

lemma scan_while_stop: "scan_while p b i < length b \<Longrightarrow> \<not> p (b ! scan_while p b i)"
proof (induction p b i rule: scan_while.induct)
  case (1 p b i)
  show ?case
  proof (cases "i < length b \<and> p (b ! i)")
    case True
    with 1 show ?thesis by (simp add: scan_while.simps [of p b i])
  next
    case False
    with 1 show ?thesis by (auto simp: scan_while.simps [of p b i])
  qed
qed

lemma scan_while_holds:
  "i \<le> k \<Longrightarrow> k < scan_while p b i \<Longrightarrow> p (b ! k)"
proof (induction p b i rule: scan_while.induct)
  case (1 p b i)
  show ?case
  proof (cases "i < length b \<and> p (b ! i)")
    case True
    with 1 show ?thesis
      by (cases "i = k") (auto simp: scan_while.simps [of p b i])
  next
    case False
    with 1 show ?thesis by (auto simp: scan_while.simps [of p b i])
  qed
qed

lemma scan_while_takeWhile:
  "i \<le> length b \<Longrightarrow> scan_while p b i = i + length (takeWhile p (drop i b))"
proof (induction p b i rule: scan_while.induct)
  case (1 p b i)
  show ?case
  proof (cases "i < length b \<and> p (b ! i)")
    case True
    with 1 have "scan_while p b (Suc i) = Suc i + length (takeWhile p (drop (Suc i) b))"
      by simp
    moreover from True have "drop i b = b ! i # drop (Suc i) b"
      by (simp add: Cons_nth_drop_Suc)
    ultimately show ?thesis using True by (simp add: scan_while.simps [of p b i])
  next
    case False
    then show ?thesis
      by (cases "i < length b") (auto simp: scan_while.simps [of p b i] simp flip: Cons_nth_drop_Suc)
  qed
qed

lemma length_substr [simp]: "j \<le> length s \<Longrightarrow> length (substr s i j) = j - i"
  by (simp add: substr_def)

section \<open>Character boundaries of valid text\<close>

lemma utf8_valid_step: "utf8_valid s \<Longrightarrow> s \<noteq> [] \<Longrightarrow> 0 < utf8_char s \<and> utf8_valid (drop (utf8_char s) s)"
  by (subst (asm) utf8_valid.simps) (auto split: if_splits)

lemma utf8_char_head: "0 < utf8_char (c # r) \<Longrightarrow> \<not> is_cont c"
  by (auto simp: utf8_char_def Let_def utf8_len_def is_cont_def split: if_splits)

lemma utf8_char_ascii: "is_ascii c \<Longrightarrow> utf8_char (c # r) = 1"
  by (simp add: utf8_char_def Let_def utf8_len_def is_ascii_def)

lemma utf8_char_tail_cont:
  assumes "0 < k" "k < utf8_char s"
  shows "is_cont (s ! k)"
proof (cases s)
  case Nil
  with assms show ?thesis by (simp add: utf8_char_def)
next
  case (Cons c r)
  let ?n = "utf8_len c"
  have n: "utf8_char s = ?n" and ok: "second_byte_ok c (hd r)"
    and rest: "list_all is_cont (take (?n - 2) (tl r))" and len: "?n - 1 \<le> length r"
    using assms Cons by (auto simp: utf8_char_def Let_def split: if_splits)
  show ?thesis
  proof (cases "k = 1")
    case True
    have "r \<noteq> []" using len assms n True by auto
    then show ?thesis using True Cons ok by (simp add: second_byte_ok_def hd_conv_nth)
  next
    case False
    then obtain j where k: "k = Suc (Suc j)" using assms(1) by (cases k; cases "k - 1") auto
    have "j < length (take (?n - 2) (tl r))" using assms n k len by auto
    then have "is_cont (take (?n - 2) (tl r) ! j)" using rest by (simp add: list_all_length)
    moreover have "take (?n - 2) (tl r) ! j = s ! k"
      using assms n k len Cons by (simp add: nth_tl)
    ultimately show ?thesis by simp
  qed
qed

lemma ascii_not_cont: "is_ascii c \<Longrightarrow> \<not> is_cont c"
  by (simp add: is_ascii_def is_cont_def)

text \<open>In valid text an index is a character boundary iff the rest is valid text.\<close>

lemma utf8_valid_drop:
  "utf8_valid s \<Longrightarrow> k < length s \<Longrightarrow> \<not> is_cont (s ! k) \<Longrightarrow> utf8_valid (drop k s)"
proof (induction s arbitrary: k rule: utf8_valid.induct)
  case (1 s)
  from "1.prems" have ne: "s \<noteq> []" by auto
  from utf8_valid_step [OF "1.prems"(1) ne]
  have pos: "utf8_char s \<noteq> 0" and v: "utf8_valid (drop (utf8_char s) s)" by auto
  show ?case
  proof (cases "k < utf8_char s")
    case True
    then have "k = 0" using utf8_char_tail_cont [of k s] "1.prems"(3) by auto
    with "1.prems" show ?thesis by simp
  next
    case False
    then have eq: "s ! k = drop (utf8_char s) s ! (k - utf8_char s)"
      and d: "drop k s = drop (k - utf8_char s) (drop (utf8_char s) s)"
      using "1.prems"(2) by simp_all
    have "\<not> is_cont (drop (utf8_char s) s ! (k - utf8_char s))"
      using "1.prems"(3) unfolding eq .
    moreover have "k - utf8_char s < length (drop (utf8_char s) s)"
      using False "1.prems"(2) by simp
    ultimately have "utf8_valid (drop (k - utf8_char s) (drop (utf8_char s) s))"
      using "1.IH" [OF ne pos v] by blast
    then show ?thesis unfolding d .
  qed
qed

lemma valid_drop_boundary:
  "utf8_valid (drop i s) \<Longrightarrow> i \<le> length s \<Longrightarrow> is_char_boundary s i"
proof (cases "i < length s")
  case True
  assume v: "utf8_valid (drop i s)"
  from True have d: "drop i s = s ! i # drop (Suc i) s" by (simp add: Cons_nth_drop_Suc)
  from v True have "0 < utf8_char (drop i s)" using utf8_valid_step [of "drop i s"] by simp
  then have "\<not> is_cont (s ! i)" unfolding d by (rule utf8_char_head)
  with True show ?thesis by (simp add: is_char_boundary_def)
qed (simp add: is_char_boundary_def)

lemma boundary_valid_drop:
  assumes "utf8_valid s" "is_char_boundary s i"
  shows "utf8_valid (drop i s)"
  using assms utf8_valid_drop [of s i] by (auto simp: is_char_boundary_def)

text \<open>Both ends of an ASCII byte are boundaries.\<close>

lemma ascii_boundaries:
  assumes v: "utf8_valid s" and i: "i < length s" "is_ascii (s ! i)"
  shows "is_char_boundary s i" and "is_char_boundary s (Suc i)"
proof -
  from i show "is_char_boundary s i" by (auto simp: is_char_boundary_def ascii_not_cont)
  with v have vi: "utf8_valid (drop i s)" by (rule boundary_valid_drop)
  have d: "drop i s = s ! i # drop (Suc i) s" using i by (simp add: Cons_nth_drop_Suc)
  have "utf8_valid (drop (Suc i) s)"
    using utf8_valid_step [OF vi] i utf8_char_ascii [OF i(2), of "drop (Suc i) s"] by (simp add: d)
  then show "is_char_boundary s (Suc i)" by (rule valid_drop_boundary) (use i in simp)
qed

lemma next_char_boundary:
  assumes v: "utf8_valid s" and i: "i < length s" "is_char_boundary s i"
  shows "0 < utf8_char (drop i s)" and "i + utf8_char (drop i s) \<le> length s"
    and "is_char_boundary s (i + utf8_char (drop i s))"
proof -
  from v i(2) have vi: "utf8_valid (drop i s)" by (rule boundary_valid_drop)
  have ne: "drop i s \<noteq> []" using i by simp
  from utf8_valid_step [OF vi ne] show "0 < utf8_char (drop i s)" by simp
  have "utf8_char (drop i s) \<le> length s - i" using utf8_char_le [of "drop i s"] by simp
  then show le: "i + utf8_char (drop i s) \<le> length s" using i by simp
  from utf8_valid_step [OF vi ne]
  have "utf8_valid (drop (i + utf8_char (drop i s)) s)" by (simp add: add.commute)
  then show "is_char_boundary s (i + utf8_char (drop i s))" using le by (rule valid_drop_boundary)
qed

lemma boundary_end [simp]: "is_char_boundary s (length s)" and boundary_start [simp]: "is_char_boundary s 0"
  by (simp_all add: is_char_boundary_def)

lemma str_get_total:
  "is_char_boundary s i \<Longrightarrow> is_char_boundary s j \<Longrightarrow> i \<le> j \<Longrightarrow> j \<le> length s \<Longrightarrow>
   str_get s i j = Some (substr s i j)"
  by (simp add: str_get_def)

lemma scan_ascii_boundary:
  assumes v: "utf8_valid s" and b: "is_char_boundary s i" "i \<le> length s"
    and p: "\<And>c. p c \<Longrightarrow> is_ascii c"
  shows "is_char_boundary s (scan_while p s i)"
proof (cases "scan_while p s i = i")
  case True
  with b show ?thesis by simp
next
  case False
  then obtain k where k: "scan_while p s i = Suc k" "i \<le> k"
    using scan_while_ge [of i p s] by (cases "scan_while p s i") auto
  have "k < length s" using scan_while_le [OF b(2), of p] k by simp
  moreover have "is_ascii (s ! k)" using scan_while_holds [of i k p s] k p by simp
  ultimately show ?thesis using ascii_boundaries(2) [OF v] k(1) by simp
qed

lemma scan_until_ascii_boundary:
  assumes v: "utf8_valid s" and i: "i \<le> length s" and a: "is_ascii a"
  shows "is_char_boundary s (scan_while (\<lambda>c. c \<noteq> a) s i)"
proof (cases "scan_while (\<lambda>c. c \<noteq> a) s i < length s")
  case True
  then have "s ! scan_while (\<lambda>c. c \<noteq> a) s i = a" using scan_while_stop by fastforce
  with True a v show ?thesis by (auto intro: ascii_boundaries(1))
next
  case False
  then have "scan_while (\<lambda>c. c \<noteq> a) s i = length s"
    using scan_while_le [OF i, of "\<lambda>c. c \<noteq> a"] by simp
  then show ?thesis by simp
qed

section \<open>Reading bytes as text\<close>

text \<open>
  \<open>String::from_utf8_lossy\<close>: every maximal ill-formed piece becomes U+FFFD.  \<open>bad_len\<close> is the
  length of such a piece: the longest start of a well-formed sequence, at least one byte.
\<close>

definition bad_len :: "bytes \<Rightarrow> nat" where
  "bad_len s =
     (case s of [] \<Rightarrow> 1
      | c # r \<Rightarrow>
          if utf8_len c \<le> 1 \<or> r = [] \<or> \<not> second_byte_ok c (hd r) then 1
          else if length r < 2 \<or> \<not> is_cont (r ! 1) then 2
          else 3)"

function from_utf8_lossy :: "bytes \<Rightarrow> bytes" where
  "from_utf8_lossy s =
     (if s = [] then []
      else if 0 < utf8_char s then take (utf8_char s) s @ from_utf8_lossy (drop (utf8_char s) s)
      else [CHR 0xEF, CHR 0xBF, CHR 0xBD] @ from_utf8_lossy (drop (bad_len s) s))"
  by pat_completeness auto
termination
  by (relation "measure length") (auto simp: bad_len_def split: list.splits)

declare from_utf8_lossy.simps [simp del]

lemma from_utf8_lossy_valid [simp]: "utf8_valid s \<Longrightarrow> from_utf8_lossy s = s"
proof (induction s rule: utf8_valid.induct)
  case (1 s)
  then show ?case
    using utf8_valid_step [of s] by (cases "s = []") (simp_all add: from_utf8_lossy.simps)
qed

section \<open>Sums with a prefix: ordered byte strings\<close>

lemma prefix_less_eq: "prefix (p :: bytes) x \<Longrightarrow> p \<le> x"
  by (induction p arbitrary: x) (auto simp: prefix_def Cons_le_Cons)

lemma append_less_append_iff [simp]: "(p @ x :: bytes) < p @ y \<longleftrightarrow> x < y"
  by (induction p) auto

lemma append_le_append_iff [simp]: "(p @ x :: bytes) \<le> p @ y \<longleftrightarrow> x \<le> y"
  by (induction p) (auto simp: Cons_le_Cons)

end
