(* ===== verification/Float64.thy ===== *)
theory Float64
  imports Prelude
begin

text \<open>
  Rust's \<open>f64\<close>: the IEEE 754 binary64 bit pattern, with the comparisons, conversions and the
  decimal parser of the standard library that the sources use.  A finite value is the integer
  \<open>f64_scaled\<close> times \<open>2 ^ -1074\<close>, so every comparison is a comparison of integers and every
  definition here computes.
\<close>

unbundle bit_operations_syntax

section \<open>Bit patterns and values\<close>

datatype f64 = F64 (to_bits: "64 word")

text \<open>Sign bit, magnitude bits (exponent and fraction), biased exponent, fraction.\<close>

definition f64_sign :: "f64 \<Rightarrow> bool" where
  "f64_sign x = bit (to_bits x) 63"

definition f64_mag :: "f64 \<Rightarrow> nat" where
  "f64_mag x = unat (take_bit 63 (to_bits x))"

definition f64_exp :: "f64 \<Rightarrow> nat" where
  "f64_exp x = f64_mag x div 2 ^ 52"

definition f64_frac :: "f64 \<Rightarrow> nat" where
  "f64_frac x = f64_mag x mod 2 ^ 52"

text \<open>The magnitude pattern of infinity; larger magnitudes are NaNs.\<close>

definition inf_mag :: nat where
  "inf_mag = 2047 * 2 ^ 52"

definition is_nan :: "f64 \<Rightarrow> bool" where
  "is_nan x \<longleftrightarrow> inf_mag < f64_mag x"

definition is_finite :: "f64 \<Rightarrow> bool" where
  "is_finite x \<longleftrightarrow> f64_mag x < inf_mag"

text \<open>The magnitude in units of \<open>2 ^ -1074\<close>, from a magnitude pattern.\<close>

definition mag_scaled :: "nat \<Rightarrow> nat" where
  "mag_scaled m =
     (let e = m div 2 ^ 52; f = m mod 2 ^ 52 in
      if e = 0 then f else (2 ^ 52 + f) * 2 ^ (e - 1))"

definition f64_scaled :: "f64 \<Rightarrow> int" where
  "f64_scaled x = (if f64_sign x then - int (mag_scaled (f64_mag x)) else int (mag_scaled (f64_mag x)))"

text \<open>The sign-magnitude rank; both zeros have rank 0.\<close>

definition f64_rank :: "f64 \<Rightarrow> int" where
  "f64_rank x = (if f64_sign x then - int (f64_mag x) else int (f64_mag x))"

section \<open>Comparisons\<close>

definition f64_lt :: "f64 \<Rightarrow> f64 \<Rightarrow> bool" where
  "f64_lt x y \<longleftrightarrow> \<not> is_nan x \<and> \<not> is_nan y \<and> f64_rank x < f64_rank y"

definition f64_le :: "f64 \<Rightarrow> f64 \<Rightarrow> bool" where
  "f64_le x y \<longleftrightarrow> \<not> is_nan x \<and> \<not> is_nan y \<and> f64_rank x \<le> f64_rank y"

definition f64_eq :: "f64 \<Rightarrow> f64 \<Rightarrow> bool" where
  "f64_eq x y \<longleftrightarrow> \<not> is_nan x \<and> \<not> is_nan y \<and> f64_rank x = f64_rank y"

definition f64_zero :: f64 where "f64_zero = F64 0"
definition f64_neg_zero :: f64 where "f64_neg_zero = F64 0x8000000000000000"
definition f64_infinity :: f64 where "f64_infinity = F64 0x7FF0000000000000"
definition f64_neg_infinity :: f64 where "f64_neg_infinity = F64 0xFFF0000000000000"

lemma mag_scaled_Suc: "mag_scaled m < mag_scaled (Suc m)"
proof -
  let ?e = "m div 2 ^ 52" and ?f = "m mod 2 ^ 52"
  show ?thesis
  proof (cases "Suc ?f = 2 ^ 52")
    case True
    then have "Suc m div 2 ^ 52 = Suc ?e" "Suc m mod 2 ^ 52 = 0"
      by (simp_all add: div_Suc mod_Suc)
    with True show ?thesis
      by (cases ?e) (auto simp: mag_scaled_def Let_def)
  next
    case False
    then have "Suc m div 2 ^ 52 = ?e" "Suc m mod 2 ^ 52 = Suc ?f"
      by (simp_all add: div_Suc mod_Suc)
    then show ?thesis by (simp add: mag_scaled_def Let_def)
  qed
qed

lemma mag_scaled_mono_iff: "mag_scaled m < mag_scaled n \<longleftrightarrow> m < n"
  using strict_mono_Suc_iff [of mag_scaled] mag_scaled_Suc by (simp add: strict_mono_less)

lemma mag_scaled_le_iff: "mag_scaled m \<le> mag_scaled n \<longleftrightarrow> m \<le> n"
  by (metis mag_scaled_mono_iff not_less)

lemma mag_scaled_0 [simp]: "mag_scaled 0 = 0"
  by (simp add: mag_scaled_def)

lemma mag_scaled_eq_iff: "mag_scaled m = mag_scaled n \<longleftrightarrow> m = n"
  by (metis mag_scaled_le_iff order_antisym order_refl)

text \<open>The rank orders floats exactly as their values.\<close>

lemma f64_rank_less_scaled: "f64_rank x < f64_rank y \<longleftrightarrow> f64_scaled x < f64_scaled y"
proof -
  have z: "0 < mag_scaled m \<longleftrightarrow> 0 < m" for m
    using mag_scaled_mono_iff [of 0 m] by simp
  have z': "mag_scaled m = 0 \<longleftrightarrow> m = 0" for m
    using mag_scaled_eq_iff [of m 0] by simp
  show ?thesis
    by (cases "f64_sign x"; cases "f64_sign y")
      (use z [of "f64_mag x"] z [of "f64_mag y"] z' [of "f64_mag x"] z' [of "f64_mag y"] in
        \<open>auto simp: f64_rank_def f64_scaled_def mag_scaled_mono_iff\<close>)
qed

lemma f64_lt_irrefl [simp]: "\<not> f64_lt x x"
  by (simp add: f64_lt_def)

lemma f64_le_trans: "f64_le x y \<Longrightarrow> f64_le y z \<Longrightarrow> f64_le x z"
  by (auto simp: f64_le_def)

lemma f64_not_lt: "\<not> is_nan x \<Longrightarrow> \<not> is_nan y \<Longrightarrow> \<not> f64_lt x y \<longleftrightarrow> f64_le y x"
  by (auto simp: f64_lt_def f64_le_def)

section \<open>Whole numbers and the cast to usize\<close>

definition usize_max :: nat where
  "usize_max = 2 ^ 64 - 1"

text \<open>\<open>n.fract() != 0.0\<close>: also true of infinities and NaNs, whose fraction is NaN.\<close>

definition has_fract :: "f64 \<Rightarrow> bool" where
  "has_fract x \<longleftrightarrow> \<not> is_finite x \<or> mag_scaled (f64_mag x) mod 2 ^ 1074 \<noteq> 0"

text \<open>\<open>n as usize\<close> (64-bit): truncation that saturates; NaN gives 0.\<close>

definition f64_to_usize :: "f64 \<Rightarrow> nat" where
  "f64_to_usize x =
     (if is_nan x \<or> f64_sign x then 0
      else if \<not> is_finite x then usize_max
      else min usize_max (mag_scaled (f64_mag x) div 2 ^ 1074))"

lemma f64_to_usize_le: "f64_to_usize x \<le> usize_max"
  by (simp add: f64_to_usize_def)

section \<open>Rounding a rational to the nearest float\<close>

text \<open>
  \<open>bit_length\<close> of a number, the quotient rounded to the nearest integer with ties to even,
  and the binary64 pattern nearest to \<open>n / d\<close>: \<open>k\<close> is the exponent of the last place.  A
  mantissa that rounds up to the next power of two carries into the exponent field, and a
  pattern at or above infinity's is infinity.
\<close>

function bit_length :: "nat \<Rightarrow> nat" where
  "bit_length n = (if n = 0 then 0 else Suc (bit_length (n div 2)))"
  by pat_completeness auto
termination
  by (relation "measure id") auto

declare bit_length.simps [simp del]

definition div_half_even :: "nat \<Rightarrow> nat \<Rightarrow> nat" where
  "div_half_even n d =
     (let q = n div d; r = n mod d in
      if 2 * r < d then q else if d < 2 * r then Suc q
      else if even q then q else Suc q)"

definition ratio_log2 :: "nat \<Rightarrow> nat \<Rightarrow> int" where
  "ratio_log2 n d =
     (let l = int (bit_length n) - int (bit_length d);
          n' = (if l < 0 then n * 2 ^ nat (- l) else n);
          d' = (if l < 0 then d else d * 2 ^ nat l)
      in if d' \<le> n' then l else l - 1)"

definition round_mag :: "nat \<Rightarrow> nat \<Rightarrow> nat" where
  "round_mag n d =
     (if n = 0 then 0
      else let e = max (- 1022) (ratio_log2 n d); k = e - 52;
               m = (if k < 0 then div_half_even (n * 2 ^ nat (- k)) d
                    else div_half_even n (d * 2 ^ nat k))
           in min inf_mag (nat (e + 1022) * 2 ^ 52 + m))"

definition f64_of_ratio :: "bool \<Rightarrow> nat \<Rightarrow> nat \<Rightarrow> f64" where
  "f64_of_ratio neg n d =
     F64 ((if neg then 0x8000000000000000 else 0) OR of_nat (round_mag n d))"

text \<open>\<open>n as f64\<close> for an unsigned and for a signed integer.\<close>

definition f64_of_nat :: "nat \<Rightarrow> f64" where
  "f64_of_nat n = f64_of_ratio False n 1"

definition f64_of_int :: "int \<Rightarrow> f64" where
  "f64_of_int i = f64_of_ratio (i < 0) (nat \<bar>i\<bar>) 1"

section \<open>Arithmetic\<close>

text \<open>
  Addition, subtraction, multiplication and division: the nearest float to the exact result,
  with the IEEE rules for NaNs, infinities and signed zeros (every NaN result is the quiet
  NaN; the sources never look at a NaN's payload).
\<close>

definition f64_nan :: f64 where "f64_nan = F64 0x7FF8000000000000"

definition signed_inf :: "bool \<Rightarrow> f64" where
  "signed_inf neg = (if neg then f64_neg_infinity else f64_infinity)"

definition f64_neg :: "f64 \<Rightarrow> f64" where
  "f64_neg x = F64 (to_bits x XOR 0x8000000000000000)"

definition f64_add :: "f64 \<Rightarrow> f64 \<Rightarrow> f64" where
  "f64_add x y =
     (if is_nan x \<or> is_nan y then f64_nan
      else if \<not> is_finite x then (if \<not> is_finite y \<and> f64_sign x \<noteq> f64_sign y then f64_nan else x)
      else if \<not> is_finite y then y
      else let s = f64_scaled x + f64_scaled y in
           if s = 0 then (if f64_sign x \<and> f64_sign y then f64_neg_zero else f64_zero)
           else f64_of_ratio (s < 0) (nat \<bar>s\<bar>) (2 ^ 1074))"

definition f64_sub :: "f64 \<Rightarrow> f64 \<Rightarrow> f64" where
  "f64_sub x y = f64_add x (f64_neg y)"

definition f64_mul :: "f64 \<Rightarrow> f64 \<Rightarrow> f64" where
  "f64_mul x y =
     (let neg = (f64_sign x \<noteq> f64_sign y); m = mag_scaled (f64_mag x); n = mag_scaled (f64_mag y) in
      if is_nan x \<or> is_nan y then f64_nan
      else if \<not> is_finite x \<or> \<not> is_finite y then (if m = 0 \<or> n = 0 then f64_nan else signed_inf neg)
      else f64_of_ratio neg (m * n) (2 ^ 2148))"

definition f64_div :: "f64 \<Rightarrow> f64 \<Rightarrow> f64" where
  "f64_div x y =
     (let neg = (f64_sign x \<noteq> f64_sign y); m = mag_scaled (f64_mag x); n = mag_scaled (f64_mag y) in
      if is_nan x \<or> is_nan y then f64_nan
      else if \<not> is_finite x then (if \<not> is_finite y then f64_nan else signed_inf neg)
      else if \<not> is_finite y then f64_of_ratio neg 0 1
      else if n = 0 then (if m = 0 then f64_nan else signed_inf neg)
      else f64_of_ratio neg m n)"

text \<open>\<open>x.clamp(lo, hi)\<close>, and \<open>x.round()\<close>: halves away from zero.\<close>

definition f64_clamp :: "f64 \<Rightarrow> f64 \<Rightarrow> f64 \<Rightarrow> f64" where
  "f64_clamp x lo hi = (if f64_lt x lo then lo else if f64_lt hi x then hi else x)"

definition f64_round :: "f64 \<Rightarrow> f64" where
  "f64_round x =
     (if \<not> is_finite x \<or> \<not> has_fract x then x
      else f64_of_ratio (f64_sign x) ((2 * mag_scaled (f64_mag x) + 2 ^ 1074) div 2 ^ 1075) 1)"

section \<open>Parsing a decimal\<close>

text \<open>
  \<open>str::parse::<f64>\<close> on the decimal grammar: an optional sign, digits with an optional
  point and at least one digit, an optional exponent with at least one digit, and nothing
  after it.  The result is the nearest float.  (The words for infinity and NaN, which the
  standard parser also takes, start with a letter; the lexer never passes one.)
\<close>

definition digit_val :: "byte \<Rightarrow> nat" where
  "digit_val c = byte_val c - 48"

definition digits_val :: "bytes \<Rightarrow> nat" where
  "digits_val ds = foldl (\<lambda>n c. 10 * n + digit_val c) 0 ds"

definition split_sign :: "bytes \<Rightarrow> bool \<times> bytes" where
  "split_sign s =
     (case s of [] \<Rightarrow> (False, [])
      | c # r \<Rightarrow> if c = CHR ''-'' then (True, r) else if c = CHR ''+'' then (False, r) else (False, s))"

definition parse_exponent :: "bytes \<Rightarrow> int option" where
  "parse_exponent s =
     (case s of [] \<Rightarrow> Some 0
      | c # r \<Rightarrow>
        (if c = CHR ''e'' \<or> c = CHR ''E'' then
           (case split_sign r of (neg, ds) \<Rightarrow>
              if ds \<noteq> [] \<and> list_all is_ascii_digit ds
              then Some (if neg then - int (digits_val ds) else int (digits_val ds)) else None)
         else None))"

definition parse_f64 :: "bytes \<Rightarrow> f64 option" where
  "parse_f64 s =
     (case split_sign s of (neg, r) \<Rightarrow>
        let ip = takeWhile is_ascii_digit r;
            r1 = dropWhile is_ascii_digit r;
            has_point = (r1 \<noteq> [] \<and> hd r1 = CHR ''.'');
            fp = (if has_point then takeWhile is_ascii_digit (tl r1) else []);
            r2 = (if has_point then dropWhile is_ascii_digit (tl r1) else r1)
        in if ip @ fp = [] then None
           else case parse_exponent r2 of None \<Rightarrow> None
             | Some e \<Rightarrow>
               (let k = e - int (length fp); n = digits_val (ip @ fp) in
                Some (if 0 \<le> k then f64_of_ratio neg (n * 10 ^ nat k) 1
                      else f64_of_ratio neg n (10 ^ nat (- k)))))"

section \<open>Exact integers\<close>

lemma bit_length_bounds: "0 < n \<Longrightarrow> 2 ^ (bit_length n - 1) \<le> n \<and> n < 2 ^ bit_length n \<and> 0 < bit_length n"
proof (induction n rule: bit_length.induct)
  case (1 n)
  show ?case
  proof (cases "n div 2 = 0")
    case True
    with "1.prems" have "n = 1" by auto
    then show ?thesis by (simp add: bit_length.simps)
  next
    case False
    with "1.IH" have "2 ^ (bit_length (n div 2) - 1) \<le> n div 2" "n div 2 < 2 ^ bit_length (n div 2)"
      "0 < bit_length (n div 2)" by auto
    moreover from this obtain k where k: "bit_length (n div 2) = Suc k" by (cases "bit_length (n div 2)") auto
    ultimately have "2 ^ k \<le> n div 2" "n div 2 < 2 * 2 ^ k" by simp_all
    then have "2 * 2 ^ k \<le> n" "n < 2 * (2 * 2 ^ k)" by linarith+
    then show ?thesis using "1.prems" by (simp add: bit_length.simps [of n] k)
  qed
qed

lemma bit_length_le: "n < 2 ^ k \<Longrightarrow> bit_length n \<le> k"
proof (cases "n = 0")
  case False
  assume "n < 2 ^ k"
  with bit_length_bounds [of n] False have "(2::nat) ^ (bit_length n - 1) < 2 ^ k" by linarith
  then have "bit_length n - 1 < k" by simp
  with bit_length_bounds [of n] False show ?thesis by simp
qed (simp add: bit_length.simps)

lemma div_half_even_1 [simp]: "div_half_even n 1 = n"
  by (simp add: div_half_even_def)

lemma round_mag_exact:
  assumes "0 < n" "n < 2 ^ 53"
  shows "round_mag n 1 = (bit_length n + 1021) * 2 ^ 52 + n * 2 ^ (53 - bit_length n)"
proof -
  let ?b = "bit_length n"
  have b: "0 < ?b" "?b \<le> 53" "2 ^ (?b - 1) \<le> n" "n < 2 ^ ?b"
    using bit_length_bounds [OF assms(1)] bit_length_le [OF assms(2)] by auto
  have one: "bit_length (Suc 0) = Suc 0" by (simp add: bit_length.simps)
  have l: "ratio_log2 n 1 = int ?b - 1"
    using b by (simp add: ratio_log2_def Let_def one nat_diff_distrib)
  have "n * 2 ^ (53 - ?b) < 2 ^ ?b * 2 ^ (53 - ?b)"
    using b by simp
  then have m: "n * 2 ^ (53 - ?b) < 2 ^ 53"
    using b by (simp flip: power_add)
  have bound: "(?b + 1021) * 2 ^ 52 + n * 2 ^ (53 - ?b) \<le> inf_mag"
    using m b(2) by (simp add: inf_mag_def)
  have k: "max (- 1022) (int ?b - 1) = int ?b - 1" by simp
  have e: "nat (int ?b - 1 + 1022) = ?b + 1021" using b by simp
  show ?thesis
  proof (cases "?b = 53")
    case True
    then show ?thesis using assms bound by (simp add: round_mag_def l Let_def del: One_nat_def)
  next
    case False
    then have "int ?b - 1 - 52 < 0" "nat (- (int ?b - 1 - 52)) = 53 - ?b" using b by auto
    then show ?thesis using assms bound k e by (simp add: round_mag_def l Let_def del: One_nat_def)
  qed
qed

lemma mag_scaled_exact:
  assumes "0 < n" "n < 2 ^ 53"
  shows "mag_scaled (round_mag n 1) = n * 2 ^ 1074" and "round_mag n 1 < inf_mag"
proof -
  let ?b = "bit_length n" and ?m = "n * 2 ^ (53 - bit_length n)"
  have b: "0 < ?b" "?b \<le> 53" "2 ^ (?b - 1) \<le> n" "n < 2 ^ ?b"
    using bit_length_bounds [OF assms(1)] bit_length_le [OF assms(2)] by auto
  have "2 ^ (?b - 1) * 2 ^ (53 - ?b) \<le> ?m" "?m < 2 ^ ?b * 2 ^ (53 - ?b)"
    using b by simp_all
  then have "2 ^ 52 \<le> ?m" "?m < 2 ^ 53" using b by (simp_all flip: power_add)
  then obtain f where f: "?m = 2 ^ 52 + f" "f < 2 ^ 52"
    using le_Suc_ex [of "2 ^ 52" ?m] by auto
  have r: "round_mag n 1 = (?b + 1022) * 2 ^ 52 + f"
    using round_mag_exact [OF assms] f by (simp add: algebra_simps)
  have d: "round_mag n 1 div 2 ^ 52 = ?b + 1022" "round_mag n 1 mod 2 ^ 52 = f"
    unfolding r using f(2) by (simp_all only: div_mult_self3 mod_mult_self3) simp_all
  have "mag_scaled (round_mag n 1) = ?m * 2 ^ (?b + 1021)"
    unfolding mag_scaled_def Let_def d f by simp
  also have "\<dots> = n * 2 ^ 1074" using b by (simp add: mult.assoc flip: power_add)
  finally show "mag_scaled (round_mag n 1) = n * 2 ^ 1074" .
  show "round_mag n 1 < inf_mag" unfolding r inf_mag_def using b(2) f(2) by simp
qed

lemma f64_of_nat_fields:
  "round_mag n 1 \<le> inf_mag"
  "f64_mag (f64_of_nat n) = round_mag n 1" "\<not> f64_sign (f64_of_nat n)"
proof -
  show le: "round_mag n 1 \<le> inf_mag" by (auto simp: round_mag_def Let_def)
  then have lt: "round_mag n 1 < 2 ^ 63" by (simp add: inf_mag_def)
  have "unat (take_bit 63 (word_of_nat (round_mag n 1) :: 64 word)) = round_mag n 1"
    using lt by (simp only: unsigned_take_bit_eq unsigned_of_nat take_bit_take_bit) (simp add: take_bit_nat_eq_self)
  then show "f64_mag (f64_of_nat n) = round_mag n 1"
    by (simp add: f64_mag_def f64_of_nat_def f64_of_ratio_def)
  have "unat (word_of_nat (round_mag n 1) :: 64 word) = round_mag n 1"
    using lt by (simp only: unsigned_of_nat) (simp add: take_bit_nat_eq_self)
  then have "bit (word_of_nat (round_mag n 1) :: 64 word) 63 = bit (round_mag n 1) 63"
    using bit_unsigned_iff [of "word_of_nat (round_mag n 1) :: 64 word" 63, where 'a = nat] by simp
  also have "\<dots> = False" using lt by (simp add: bit_iff_odd)
  finally have "\<not> bit (word_of_nat (round_mag n 1) :: 64 word) 63" by simp
  then show "\<not> f64_sign (f64_of_nat n)"
    by (simp add: f64_sign_def f64_of_nat_def f64_of_ratio_def)
qed

lemma round_mag_2_53: "round_mag (2 ^ 53) 1 = 1076 * 2 ^ 52"
  by (simp add: round_mag_def ratio_log2_def bit_length.simps div_half_even_def Let_def inf_mag_def)

lemma mag_scaled_of_nat:
  assumes "n \<le> 2 ^ 53"
  shows "mag_scaled (round_mag n 1) = n * 2 ^ 1074 \<and> round_mag n 1 < inf_mag"
proof -
  consider "n = 0" | "0 < n" "n < 2 ^ 53" | "n = 2 ^ 53" using assms by fastforce
  then show ?thesis
  proof cases
    case 1
    then show ?thesis by (simp add: round_mag_def inf_mag_def)
  next
    case 2
    then show ?thesis using mag_scaled_exact by blast
  next
    case 3
    then show ?thesis unfolding 3 round_mag_2_53 by (simp add: mag_scaled_def inf_mag_def Let_def)
  qed
qed

text \<open>Whole numbers up to \<open>2 ^ 53\<close> survive the passage through a float.\<close>

lemma f64_of_nat_whole:
  assumes "n \<le> 2 ^ 53"
  shows "\<not> f64_lt (f64_of_nat n) f64_zero" "\<not> has_fract (f64_of_nat n)"
    "f64_to_usize (f64_of_nat n) = n" "is_finite (f64_of_nat n)" "\<not> is_nan (f64_of_nat n)"
proof -
  note ms = mag_scaled_of_nat [OF assms]
  show fin: "is_finite (f64_of_nat n)" using ms by (simp add: is_finite_def f64_of_nat_fields)
  then show nan: "\<not> is_nan (f64_of_nat n)" by (simp add: is_finite_def is_nan_def)
  show "\<not> f64_lt (f64_of_nat n) f64_zero"
    by (simp add: f64_lt_def f64_rank_def f64_of_nat_fields) (simp add: f64_zero_def f64_sign_def f64_mag_def)
  show "\<not> has_fract (f64_of_nat n)" using ms fin
    by (simp add: has_fract_def f64_of_nat_fields)
  have "n \<le> usize_max" using assms by (simp add: usize_max_def)
  then show "f64_to_usize (f64_of_nat n) = n" using ms fin nan
    by (simp add: f64_to_usize_def f64_of_nat_fields)
qed
end
