(* ===== verification/Lexer.thy ===== *)
theory Lexer
  imports Float64
begin

text \<open>
  The RRQL lexer, \<open>crates/rro-ql/src/lexer.rs\<close>, over the bytes of the source text, and the
  rendering of an error's source line, \<open>crates/rro-ql/src/error.rs\<close>.

  A byte index that cuts a character makes Rust's slicing panic.  The lexer takes such slices
  in four places, so a lexer step has an outcome \<open>StepPanic\<close> beside \<open>Skip\<close>, \<open>Emit\<close> and
  \<open>StepErr\<close>, and that it is never reached on UTF-8 text is a theorem.  Messages are
  constructors of \<open>lex_msg\<close> that carry what the formatted text would show.
\<close>

section \<open>Tokens\<close>

datatype token_kind =
    TIdent bytes | TStr bytes | TNum f64 | TBool bool | TNull
  | TSelect | TFrom | TWhere | TLimit | TAnd | TOr | TNot | TIn | TIs | TExists
  | TInside | TRadius | TBoxKw | TDefine | TRemove | TIndex | TAlias | TCollection
  | TField | TType | TOn | TFor | TUpdate | TDelete | TSet | TContent | TPayload
  | TRelate | TTraverse | TDepth | TLive | TSince | TInfo
  | TArrowOut | TArrowIn | TArrowBoth
  | TComma | TLParen | TRParen | TStar | TEq | TNeq | TLt | TLte | TGt | TGte
  | TEof

record token =
  tok_kind :: token_kind
  tok_span :: "nat \<times> nat"

datatype lex_msg =
    UnterminatedString | UnterminatedIdent | NotANumber bytes | UnexpectedChar byte

record lex_error =
  lex_message :: lex_msg
  lex_span :: "nat \<times> nat"

datatype lex_fail = LexErr lex_error | LexPanic

definition mk_tok :: "token_kind \<Rightarrow> nat \<Rightarrow> nat \<Rightarrow> token" where
  "mk_tok k s e = \<lparr>tok_kind = k, tok_span = (s, e)\<rparr>"

definition mk_lex_err :: "lex_msg \<Rightarrow> nat \<Rightarrow> nat \<Rightarrow> lex_error" where
  "mk_lex_err m s e = \<lparr>lex_message = m, lex_span = (s, e)\<rparr>"

lemma mk_tok_simps [simp]:
  "tok_kind (mk_tok k s e) = k" "tok_span (mk_tok k s e) = (s, e)"
  by (simp_all add: mk_tok_def)

lemma mk_lex_err_simps [simp]:
  "lex_message (mk_lex_err m s e) = m" "lex_span (mk_lex_err m s e) = (s, e)"
  by (simp_all add: mk_lex_err_def)

definition keyword_table :: "(bytes \<times> token_kind) list" where
  "keyword_table =
     [(''SELECT'', TSelect), (''FROM'', TFrom), (''WHERE'', TWhere), (''LIMIT'', TLimit),
      (''AND'', TAnd), (''OR'', TOr), (''NOT'', TNot), (''IN'', TIn), (''IS'', TIs),
      (''EXISTS'', TExists), (''INSIDE'', TInside), (''RADIUS'', TRadius), (''BOX'', TBoxKw),
      (''DEFINE'', TDefine), (''REMOVE'', TRemove), (''INDEX'', TIndex), (''ALIAS'', TAlias),
      (''COLLECTION'', TCollection), (''FIELD'', TField), (''TYPE'', TType), (''ON'', TOn),
      (''FOR'', TFor), (''UPDATE'', TUpdate), (''DELETE'', TDelete), (''SET'', TSet),
      (''CONTENT'', TContent), (''PAYLOAD'', TPayload), (''RELATE'', TRelate),
      (''TRAVERSE'', TTraverse), (''DEPTH'', TDepth), (''LIVE'', TLive), (''SINCE'', TSince),
      (''INFO'', TInfo), (''TRUE'', TBool True), (''FALSE'', TBool False), (''NULL'', TNull)]"

definition word_kind :: "bytes \<Rightarrow> token_kind" where
  "word_kind w =
     (case map_of keyword_table (map ascii_upper w) of Some k \<Rightarrow> k | None \<Rightarrow> TIdent w)"

section \<open>One step of the main loop\<close>

datatype lex_out = Skip nat | Emit token nat | StepErr lex_error | StepPanic

text \<open>Arrows before operators, longest first; then the two-byte operators.\<close>

definition lex_arrow :: "bytes \<Rightarrow> nat \<Rightarrow> (token_kind \<times> nat) option" where
  "lex_arrow src i =
     (if str_get src i (i + 3) = Some ''<->'' then Some (TArrowBoth, i + 3)
      else if str_get src i (i + 2) = Some ''->'' then Some (TArrowOut, i + 2)
      else if str_get src i (i + 2) = Some ''<-'' then Some (TArrowIn, i + 2)
      else None)"

definition lex_op2 :: "bytes \<Rightarrow> nat \<Rightarrow> (token_kind \<times> nat) option" where
  "lex_op2 src i =
     (if str_get src i (i + 2) = Some ''!='' then Some (TNeq, i + 2)
      else if str_get src i (i + 2) = Some ''<='' then Some (TLte, i + 2)
      else if str_get src i (i + 2) = Some ''>='' then Some (TGte, i + 2)
      else None)"

definition lex_punct :: "byte \<Rightarrow> token_kind option" where
  "lex_punct c =
     map_of [(CHR '','', TComma), (CHR ''('', TLParen), (CHR '')'', TRParen),
             (CHR ''*'', TStar), (CHR ''='', TEq), (CHR ''<'', TLt), (CHR ''>'', TGt)] c"

text \<open>
  The body of a quoted string from index \<open>i\<close>: \<open>Inr (s, j)\<close> is the contents and the index
  after the closing quote, \<open>Inl True\<close> an unterminated string, \<open>Inl False\<close> a panic of
  \<open>src[i..]\<close>.  Only the quote and the backslash can be escaped.
\<close>

definition is_escape :: "bytes \<Rightarrow> byte \<Rightarrow> nat \<Rightarrow> bool" where
  "is_escape src quote i \<longleftrightarrow>
     src ! i = CHR 0x5C \<and> Suc i < length src \<and>
     (src ! Suc i = quote \<or> src ! Suc i = CHR 0x5C)"

function lex_str_body :: "bytes \<Rightarrow> byte \<Rightarrow> nat \<Rightarrow> bytes \<Rightarrow> bool + (bytes \<times> nat)" where
  "lex_str_body src quote i acc =
     (if length src \<le> i then Inl True
      else if is_escape src quote i
      then lex_str_body src quote (i + 2) (acc @ [src ! Suc i])
      else if src ! i = quote then Inr (acc, Suc i)
      else if \<not> is_char_boundary src i \<or> utf8_char (drop i src) = 0 then Inl False
      else lex_str_body src quote (i + utf8_char (drop i src))
             (acc @ take (utf8_char (drop i src)) (drop i src)))"
  by pat_completeness auto
termination
  by (relation "measure (\<lambda>(src, q, i, acc). length src - i)") auto

declare lex_str_body.simps [simp del]

definition lex_string :: "bytes \<Rightarrow> nat \<Rightarrow> lex_out" where
  "lex_string src start =
     (case lex_str_body src (src ! start) (Suc start) [] of
        Inl True \<Rightarrow> StepErr (mk_lex_err UnterminatedString start (length src))
      | Inl False \<Rightarrow> StepPanic
      | Inr (s, i) \<Rightarrow> Emit (mk_tok (TStr s) start i) i)"

definition lex_backtick :: "bytes \<Rightarrow> nat \<Rightarrow> lex_out" where
  "lex_backtick src start =
     (let i = scan_while (\<lambda>c. c \<noteq> CHR 0x60) src (Suc start) in
      if length src \<le> i then StepErr (mk_lex_err UnterminatedIdent start (length src))
      else case str_get src (Suc start) i of
             None \<Rightarrow> StepPanic
           | Some name \<Rightarrow> Emit (mk_tok (TIdent name) start (Suc i)) (Suc i))"

text \<open>The extent of a number: digits and points, then an optional exponent.\<close>

definition number_end :: "bytes \<Rightarrow> nat \<Rightarrow> nat" where
  "number_end src start =
     (let i = scan_while (\<lambda>c. is_ascii_digit c \<or> c = CHR ''.'') src (Suc start) in
      if i < length src \<and> (src ! i = CHR ''e'' \<or> src ! i = CHR ''E'')
      then scan_while is_ascii_digit src
             (if Suc i < length src \<and> (src ! Suc i = CHR ''+'' \<or> src ! Suc i = CHR ''-'')
              then Suc (Suc i) else Suc i)
      else i)"

definition lex_number :: "bytes \<Rightarrow> nat \<Rightarrow> lex_out" where
  "lex_number src start =
     (let i = number_end src start in
      case str_get src start i of
        None \<Rightarrow> StepPanic
      | Some txt \<Rightarrow>
          (case parse_f64 txt of
             None \<Rightarrow> StepErr (mk_lex_err (NotANumber txt) start i)
           | Some n \<Rightarrow> Emit (mk_tok (TNum n) start i) i))"

definition is_word_byte :: "byte \<Rightarrow> bool" where
  "is_word_byte c \<longleftrightarrow> is_ascii_alphanumeric c \<or> c = CHR ''_'' \<or> c = CHR ''.''"

definition lex_word :: "bytes \<Rightarrow> nat \<Rightarrow> lex_out" where
  "lex_word src start =
     (let i = scan_while is_word_byte src start in
      case str_get src start i of
        None \<Rightarrow> StepPanic
      | Some w \<Rightarrow> Emit (mk_tok (word_kind w) start i) i)"

text \<open>\<open>(b as char).len_utf8()\<close>: a byte read as Latin-1 needs one or two bytes.\<close>

definition latin1_len :: "byte \<Rightarrow> nat" where
  "latin1_len c = (if byte_val c < 128 then 1 else 2)"

definition lex_step :: "bytes \<Rightarrow> nat \<Rightarrow> lex_out" where
  "lex_step src i =
     (let c = src ! i in
      if is_ascii_whitespace c then Skip (Suc i)
      else if c = CHR ''-'' \<and> Suc i < length src \<and> src ! Suc i = CHR ''-''
      then Skip (scan_while (\<lambda>c. c \<noteq> CHR 0x0A) src i)
      else case lex_arrow src i of
        Some (k, j) \<Rightarrow> Emit (mk_tok k i j) j
      | None \<Rightarrow>
      (case lex_op2 src i of
        Some (k, j) \<Rightarrow> Emit (mk_tok k i j) j
      | None \<Rightarrow>
      (case lex_punct c of
        Some k \<Rightarrow> Emit (mk_tok k i (Suc i)) (Suc i)
      | None \<Rightarrow>
        if c = CHR 0x27 \<or> c = CHR 0x22 then lex_string src i
        else if c = CHR 0x60 then lex_backtick src i
        else if is_ascii_digit c \<or>
                (c = CHR ''-'' \<and> Suc i < length src \<and> is_ascii_digit (src ! Suc i))
        then lex_number src i
        else if is_ascii_alphabetic c \<or> c = CHR ''_'' then lex_word src i
        else StepErr (mk_lex_err (UnexpectedChar c) i (i + latin1_len c)))))"

section \<open>Every step advances\<close>

lemma lex_str_body_eqs:
  "length src \<le> i \<Longrightarrow> lex_str_body src q i acc = Inl True"
  "i < length src \<Longrightarrow> is_escape src q i \<Longrightarrow>
     lex_str_body src q i acc = lex_str_body src q (i + 2) (acc @ [src ! Suc i])"
  "i < length src \<Longrightarrow> \<not> is_escape src q i \<Longrightarrow> src ! i = q \<Longrightarrow>
     lex_str_body src q i acc = Inr (acc, Suc i)"
  "i < length src \<Longrightarrow> \<not> is_escape src q i \<Longrightarrow> src ! i \<noteq> q \<Longrightarrow>
     \<not> is_char_boundary src i \<or> utf8_char (drop i src) = 0 \<Longrightarrow>
     lex_str_body src q i acc = Inl False"
  "i < length src \<Longrightarrow> \<not> is_escape src q i \<Longrightarrow> src ! i \<noteq> q \<Longrightarrow>
     is_char_boundary src i \<Longrightarrow> 0 < utf8_char (drop i src) \<Longrightarrow>
     lex_str_body src q i acc =
       lex_str_body src q (i + utf8_char (drop i src))
         (acc @ take (utf8_char (drop i src)) (drop i src))"
  by (simp_all add: lex_str_body.simps [of src q i acc])

text \<open>Case analysis of one turn of the string loop.\<close>

lemma lex_str_body_cases:
  obtains (finish) "length src \<le> i"
  | (esc) "i < length src" "is_escape src q i"
  | (close) "i < length src" "\<not> is_escape src q i" "src ! i = q"
  | (bad) "i < length src" "\<not> is_escape src q i" "src ! i \<noteq> q"
      "\<not> is_char_boundary src i \<or> utf8_char (drop i src) = 0"
  | (char) "i < length src" "\<not> is_escape src q i" "src ! i \<noteq> q"
      "is_char_boundary src i" "0 < utf8_char (drop i src)"
  by (cases "length src \<le> i") (auto simp: not_le)

lemma lex_str_body_advances: "lex_str_body src q i acc = Inr (s, j) \<Longrightarrow> i < j \<and> j \<le> length src"
proof (induction src q i acc rule: lex_str_body.induct)
  case (1 src q i acc)
  show ?case
    by (rule lex_str_body_cases [where src = src and i = i and q = q])
      (use "1.prems" "1.IH" in \<open>auto simp: lex_str_body_eqs\<close>)
qed

lemma scan_while_step: "i < length b \<Longrightarrow> p (b ! i) \<Longrightarrow> i < scan_while p b i"
  by (subst scan_while.simps) (auto intro: less_le_trans [OF lessI scan_while_ge])

lemma number_end_bounds: "i < length src \<Longrightarrow> i < number_end src i \<and> number_end src i \<le> length src"
proof -
  assume i: "i < length src"
  let ?p = "\<lambda>c. is_ascii_digit c \<or> c = CHR ''.''"
  let ?j = "scan_while ?p src (Suc i)"
  have j: "Suc i \<le> ?j" "?j \<le> length src"
    using i scan_while_ge [of "Suc i" ?p src] scan_while_le [of "Suc i" src ?p] by simp_all
  have "k \<le> length src \<Longrightarrow> ?j \<le> k \<Longrightarrow>
      i < scan_while is_ascii_digit src k \<and> scan_while is_ascii_digit src k \<le> length src" for k
    using j scan_while_ge [of k is_ascii_digit src] scan_while_le [of k src] by auto
  with j show ?thesis by (auto simp: number_end_def Let_def)
qed

lemma str_get_Some_length: "str_get src i j = Some t \<Longrightarrow> j \<le> length src \<and> i \<le> j"
  by (auto simp: str_get_def split: if_splits)

lemma lex_arrow_bounds: "lex_arrow src i = Some (k, j) \<Longrightarrow> i < j \<and> j \<le> length src"
  by (auto simp: lex_arrow_def split: if_splits dest: str_get_Some_length)

lemma lex_op2_bounds: "lex_op2 src i = Some (k, j) \<Longrightarrow> i < j \<and> j \<le> length src"
  by (auto simp: lex_op2_def split: if_splits dest: str_get_Some_length)

lemma lex_string_advances:
  "i < length src \<Longrightarrow> lex_string src i = Emit t j \<Longrightarrow> i < j \<and> j \<le> length src"
  by (auto simp: lex_string_def split: sum.splits bool.splits prod.splits
      dest!: lex_str_body_advances)

lemma lex_backtick_advances:
  "i < length src \<Longrightarrow> lex_backtick src i = Emit t j \<Longrightarrow> i < j \<and> j \<le> length src"
  using scan_while_ge [of "Suc i" "\<lambda>c. c \<noteq> CHR 0x60" src]
  by (auto simp: lex_backtick_def Let_def split: if_splits option.splits)

lemma lex_number_advances:
  "i < length src \<Longrightarrow> lex_number src i = Emit t j \<Longrightarrow> i < j \<and> j \<le> length src"
  using number_end_bounds [of i src]
  by (auto simp: lex_number_def Let_def split: option.splits)

lemma lex_word_advances:
  assumes "i < length src" "is_word_byte (src ! i)" "lex_word src i = Emit t j"
  shows "i < j \<and> j \<le> length src"
  using assms scan_while_step [of i src is_word_byte] scan_while_le [of i src is_word_byte]
  by (auto simp: lex_word_def Let_def split: option.splits)

lemma word_start_is_word_byte:
  "is_ascii_alphabetic c \<or> c = CHR ''_'' \<Longrightarrow> is_word_byte c"
  by (auto simp: is_word_byte_def is_ascii_alphanumeric_def)

lemmas lex_branch_advances =
  lex_arrow_bounds lex_op2_bounds lex_string_advances lex_backtick_advances lex_number_advances

lemma not_emit_skip [simp]:
  "lex_string src i \<noteq> Skip j" "lex_backtick src i \<noteq> Skip j"
  "lex_number src i \<noteq> Skip j" "lex_word src i \<noteq> Skip j"
  by (auto simp: lex_string_def lex_backtick_def lex_number_def lex_word_def Let_def
      split: sum.splits bool.splits option.splits)

lemma lex_step_skip: "i < length src \<Longrightarrow> lex_step src i = Skip j \<Longrightarrow> i < j \<and> j \<le> length src"
  using scan_while_step [of i src "\<lambda>c. c \<noteq> CHR 0x0A"] scan_while_le [of i src "\<lambda>c. c \<noteq> CHR 0x0A"]
  by (auto simp: lex_step_def Let_def split: if_splits option.splits)

lemma lex_step_emit:
  assumes "i < length src" "lex_step src i = Emit t j"
  shows "i < j \<and> j \<le> length src"
proof -
  have w: "lex_word src i = Emit t j \<Longrightarrow> is_ascii_alphabetic (src ! i) \<or> src ! i = CHR ''_'' \<Longrightarrow>
      i < j \<and> j \<le> length src"
    using lex_word_advances [OF assms(1) word_start_is_word_byte] by simp
  show ?thesis using assms
    by (auto simp: lex_step_def Let_def simp del: not_less
        split: if_splits option.splits dest: lex_branch_advances w)
qed

section \<open>The main loop\<close>

function lex_from :: "bytes \<Rightarrow> nat \<Rightarrow> token list \<Rightarrow> lex_fail + token list" where
  "lex_from src i out =
     (if i < length src then
        (case lex_step src i of
           Skip j \<Rightarrow> lex_from src j out
         | Emit t j \<Rightarrow> lex_from src j (out @ [t])
         | StepErr e \<Rightarrow> Inl (LexErr e)
         | StepPanic \<Rightarrow> Inl LexPanic)
      else Inr (out @ [mk_tok TEof (length src) (length src)]))"
  by pat_completeness auto
termination
  by (relation "measure (\<lambda>(src, i, out). length src - i)")
    (auto dest: lex_step_skip lex_step_emit)

declare lex_from.simps [simp del]

definition lex :: "bytes \<Rightarrow> lex_fail + token list" where
  "lex src = lex_from src 0 []"

end
