(* ===== verification/LexerSafe.thy ===== *)
theory LexerSafe
  imports Lexer
begin

text \<open>
  What the lexer guarantees on any UTF-8 text: it never panics, and every token's span is a
  non-empty range of the text that starts and ends on a character boundary, in source order.
  An error's span has the same property except for an unexpected character, whose end is
  computed from the length of its first byte read as a Latin-1 character.

  \<open>caret\<close> is \<open>QlError::caret\<close> of \<open>crates/rro-ql/src/error.rs\<close>: the line that holds a span.
\<close>

section \<open>The steps stay on character boundaries\<close>

lemma lex_str_body_safe:
  assumes "utf8_valid src" "is_ascii q"
  shows "is_char_boundary src i \<Longrightarrow>
    (case lex_str_body src q i acc of
       Inl unterminated \<Rightarrow> unterminated
     | Inr (s, j) \<Rightarrow> is_char_boundary src j)"
  using assms
proof (induction src q i acc rule: lex_str_body.induct)
  case (1 src q i acc)
  note v = "1.prems"(2) and b = "1.prems"(1) and q = "1.prems"(3)
  show ?case
  proof (rule lex_str_body_cases [where src = src and i = i and q = q])
    assume "length src \<le> i"
    then show ?thesis by (simp add: lex_str_body_eqs)
  next
    assume i: "i < length src" and esc: "is_escape src q i"
    then have "Suc i < length src" "is_ascii (src ! Suc i)"
      using q by (auto simp: is_escape_def is_ascii_def byte_val_def)
    then have "is_char_boundary src (i + 2)" using ascii_boundaries(2) [OF v] by force
    with i esc v q "1.IH"(1) show ?thesis by (simp add: lex_str_body_eqs)
  next
    assume i: "i < length src" and c: "\<not> is_escape src q i" "src ! i = q"
    with q have "is_char_boundary src (Suc i)" using ascii_boundaries(2) [OF v] by force
    with i c show ?thesis by (simp add: lex_str_body_eqs)
  next
    assume i: "i < length src" and "\<not> is_char_boundary src i \<or> utf8_char (drop i src) = 0"
    with b v next_char_boundary(1) [OF v i b] show ?thesis by simp
  next
    assume i: "i < length src" and c: "\<not> is_escape src q i" "src ! i \<noteq> q"
      and bd: "is_char_boundary src i" "0 < utf8_char (drop i src)"
    have "is_char_boundary src (i + utf8_char (drop i src))" by (rule next_char_boundary [OF v i b])
    with i c bd v q "1.IH"(2) show ?thesis by (simp add: lex_str_body_eqs)
  qed
qed

lemma number_end_boundary:
  assumes v: "utf8_valid src" and i: "i < length src"
    and a: "is_ascii (src ! i)"
  shows "is_char_boundary src (number_end src i)"
proof -
  let ?p = "\<lambda>c. is_ascii_digit c \<or> c = CHR ''.''"
  let ?j = "scan_while ?p src (Suc i)"
  have digit: "is_ascii_digit c \<Longrightarrow> is_ascii c" for c
    by (auto simp: is_ascii_digit_def byte_val_less_eq is_ascii_def byte_val_def)
  have p: "?p c \<Longrightarrow> is_ascii c" for c
    using digit by (auto simp: is_ascii_def byte_val_def)
  have j: "is_char_boundary src ?j" "?j \<le> length src"
    using scan_ascii_boundary [OF v ascii_boundaries(2) [OF v i a] _ p, of ?p]
      scan_while_le [of "Suc i" src ?p] i by simp_all
  have sign: "c = CHR ''e'' \<or> c = CHR ''E'' \<or> c = CHR ''+'' \<or> c = CHR ''-'' \<Longrightarrow> is_ascii c" for c
    by (auto simp: is_ascii_def byte_val_def)
  have scan: "is_char_boundary src (scan_while is_ascii_digit src (Suc k))"
    if "k < length src" "is_ascii (src ! k)" for k
    by (rule scan_ascii_boundary [OF v ascii_boundaries(2) [OF v that]]) (use that digit in auto)
  define m where "m = ?j"
  have "is_char_boundary src
      (if m < length src \<and> (src ! m = CHR ''e'' \<or> src ! m = CHR ''E'')
       then scan_while is_ascii_digit src
             (if Suc m < length src \<and> (src ! Suc m = CHR ''+'' \<or> src ! Suc m = CHR ''-'')
              then Suc (Suc m) else Suc m)
       else m)"
    using j(1) sign [of "src ! m"] sign [of "src ! Suc m"]
    by (auto intro!: scan simp flip: m_def)
  then show ?thesis unfolding number_end_def Let_def m_def .
qed

text \<open>What a step guarantees from a boundary inside the text.\<close>

definition step_ok :: "bytes \<Rightarrow> nat \<Rightarrow> lex_out \<Rightarrow> bool" where
  "step_ok src i out =
     (case out of
        Skip j \<Rightarrow> is_char_boundary src j
      | Emit t j \<Rightarrow> tok_span t = (i, j) \<and> is_char_boundary src j
      | StepErr e \<Rightarrow>
          (case lex_span e of (s, f) \<Rightarrow> s = i \<and>
             (case lex_message e of
                UnexpectedChar c \<Rightarrow> c = src ! i \<and> f = i + latin1_len c
              | _ \<Rightarrow> is_char_boundary src f \<and> i \<le> f \<and> f \<le> length src))
      | StepPanic \<Rightarrow> False)"

lemma str_get_boundary: "str_get src i j = Some t \<Longrightarrow> is_char_boundary src j"
  by (auto simp: str_get_def split: if_splits)

lemma lex_arrow_boundary: "lex_arrow src i = Some (k, j) \<Longrightarrow> is_char_boundary src j"
  by (auto simp: lex_arrow_def split: if_splits dest: str_get_boundary)

lemma lex_op2_boundary: "lex_op2 src i = Some (k, j) \<Longrightarrow> is_char_boundary src j"
  by (auto simp: lex_op2_def split: if_splits dest: str_get_boundary)

lemma lex_string_ok:
  assumes v: "utf8_valid src" and i: "i < length src" and q: "is_ascii (src ! i)"
  shows "step_ok src i (lex_string src i)"
proof -
  have "case lex_str_body src (src ! i) (Suc i) [] of
       Inl unterminated \<Rightarrow> unterminated | Inr (s, j) \<Rightarrow> is_char_boundary src j"
    by (rule lex_str_body_safe [OF v q ascii_boundaries(2) [OF v i q]])
  then show ?thesis using i
    by (auto simp: lex_string_def step_ok_def split: sum.splits bool.splits)
qed

lemma lex_backtick_ok:
  assumes v: "utf8_valid src" and i: "i < length src" "src ! i = CHR 0x60"
  shows "step_ok src i (lex_backtick src i)"
proof -
  let ?j = "scan_while (\<lambda>c. c \<noteq> CHR 0x60) src (Suc i)"
  have a: "is_ascii (CHR 0x60)" by (simp add: is_ascii_def byte_val_def)
  have bi: "is_char_boundary src (Suc i)" using ascii_boundaries(2) [OF v i(1)] i a by simp
  have bj: "is_char_boundary src ?j" by (rule scan_until_ascii_boundary [OF v _ a]) (use i in simp)
  have le: "Suc i \<le> ?j" "?j \<le> length src"
    using scan_while_ge [of "Suc i" "\<lambda>c. c \<noteq> CHR 0x60" src]
      scan_while_le [of "Suc i" src "\<lambda>c. c \<noteq> CHR 0x60"] i by simp_all
  have "is_char_boundary src (Suc ?j)" if "?j < length src"
    using ascii_boundaries(2) [OF v that] scan_while_stop [OF that] a by simp
  then show ?thesis using le bj str_get_total [OF bi bj]
    by (auto simp: lex_backtick_def Let_def step_ok_def)
qed

lemma lex_number_ok:
  assumes v: "utf8_valid src" and i: "i < length src" and a: "is_ascii (src ! i)"
  shows "step_ok src i (lex_number src i)"
proof -
  have "str_get src i (number_end src i) = Some (substr src i (number_end src i))"
    using number_end_bounds [OF i] ascii_boundaries(1) [OF v i a] number_end_boundary [OF v i a]
    by (simp add: str_get_total)
  then show ?thesis
    using number_end_bounds [OF i] number_end_boundary [OF v i a]
    by (auto simp: lex_number_def Let_def step_ok_def split: option.splits)
qed

lemma is_word_byte_ascii: "is_word_byte c \<Longrightarrow> is_ascii c"
  by (auto simp: is_word_byte_def ascii_class_defs byte_val_less_eq is_ascii_def byte_val_def)

lemma lex_word_ok:
  assumes v: "utf8_valid src" and i: "i < length src" and b: "is_char_boundary src i"
  shows "step_ok src i (lex_word src i)"
proof -
  have "is_char_boundary src (scan_while is_word_byte src i)"
    by (rule scan_ascii_boundary [OF v b]) (use i is_word_byte_ascii in auto)
  then show ?thesis
    using b i scan_while_ge [of i is_word_byte src] scan_while_le [of i src is_word_byte]
    by (auto simp: lex_word_def Let_def step_ok_def str_get_total)
qed

lemma step_ok_if:
  "(b \<Longrightarrow> step_ok src i x) \<Longrightarrow> (\<not> b \<Longrightarrow> step_ok src i y) \<Longrightarrow> step_ok src i (if b then x else y)"
  by simp

lemma step_ok_case:
  "(\<And>k j. m = Some (k, j) \<Longrightarrow> step_ok src i (f k j)) \<Longrightarrow> (m = None \<Longrightarrow> step_ok src i y) \<Longrightarrow>
   step_ok src i (case m of Some (k, j) \<Rightarrow> f k j | None \<Rightarrow> y)"
  by (auto split: option.splits)

lemma lex_step_safe:
  assumes v: "utf8_valid src" and i: "i < length src" and b: "is_char_boundary src i"
  shows "step_ok src i (lex_step src i)"
proof -
  let ?c = "src ! i"
  have ws: "is_ascii_whitespace ?c \<Longrightarrow> is_ascii ?c"
    by (auto simp: is_ascii_whitespace_def is_ascii_def byte_val_def)
  have digit: "is_ascii_digit ?c \<Longrightarrow> is_ascii ?c"
    by (auto simp: is_ascii_digit_def byte_val_less_eq is_ascii_def byte_val_def)
  have lit: "?c \<in> {CHR ''-'', CHR 0x27, CHR 0x22} \<Longrightarrow> is_ascii ?c"
    by (auto simp: is_ascii_def byte_val_def)
  have punct: "lex_punct ?c = Some k \<Longrightarrow> is_ascii ?c" for k
    by (auto simp: lex_punct_def is_ascii_def byte_val_def split: if_splits)
  have nl: "is_char_boundary src (scan_while (\<lambda>c. c \<noteq> CHR 0x0A) src i)"
    by (rule scan_until_ascii_boundary [OF v]) (use i in \<open>auto simp: is_ascii_def byte_val_def\<close>)
  have suc: "is_ascii ?c \<Longrightarrow> is_char_boundary src (Suc i)"
    by (rule ascii_boundaries(2) [OF v i])
  have err: "step_ok src i (StepErr (mk_lex_err (UnexpectedChar ?c) i (i + latin1_len ?c)))"
    by (simp add: step_ok_def)
  have emit: "step_ok src i (Emit (mk_tok k i j) j)" if "is_char_boundary src j" for j k
    using that by (simp add: step_ok_def)
  have skip: "step_ok src i (Skip j)" if "is_char_boundary src j" for j
    using that by (simp add: step_ok_def)
  show ?thesis
    unfolding lex_step_def Let_def
  proof (intro step_ok_if step_ok_case)
    assume "is_ascii_whitespace ?c"
    then show "step_ok src i (Skip (Suc i))" by (intro skip suc ws)
  next
    show "step_ok src i (Skip (scan_while (\<lambda>c. c \<noteq> CHR 0x0A) src i))" by (intro skip nl)
  next
    fix k j assume "lex_arrow src i = Some (k, j)"
    then show "step_ok src i (Emit (mk_tok k i j) j)" by (intro emit lex_arrow_boundary)
  next
    fix k j assume "lex_op2 src i = Some (k, j)"
    then show "step_ok src i (Emit (mk_tok k i j) j)" by (intro emit lex_op2_boundary)
  next
    show "step_ok src i (case lex_punct ?c of
          Some k \<Rightarrow> Emit (mk_tok k i (Suc i)) (Suc i)
        | None \<Rightarrow>
          if ?c = CHR 0x27 \<or> ?c = CHR 0x22 then lex_string src i
          else if ?c = CHR 0x60 then lex_backtick src i
          else if is_ascii_digit ?c \<or>
                  (?c = CHR ''-'' \<and> Suc i < length src \<and> is_ascii_digit (src ! Suc i))
          then lex_number src i
          else if is_ascii_alphabetic ?c \<or> ?c = CHR ''_'' then lex_word src i
          else StepErr (mk_lex_err (UnexpectedChar ?c) i (i + latin1_len ?c)))"
    proof (cases "lex_punct ?c")
      case (Some k)
      then show ?thesis using emit suc punct by simp
    next
      case None
      then show ?thesis
        unfolding None option.case
        by (intro step_ok_if lex_string_ok lex_backtick_ok lex_number_ok lex_word_ok v i b err)
          (use lit digit in auto)
    qed
  qed
qed

section \<open>The whole run\<close>

text \<open>Token spans in a text: non-empty, on boundaries, each after the one before.\<close>

definition span_ok :: "bytes \<Rightarrow> nat \<times> nat \<Rightarrow> bool" where
  "span_ok src sp =
     (fst sp \<le> snd sp \<and> snd sp \<le> length src \<and>
      is_char_boundary src (fst sp) \<and> is_char_boundary src (snd sp))"

fun spans_from :: "bytes \<Rightarrow> nat \<Rightarrow> token list \<Rightarrow> bool" where
  "spans_from src i [] = True"
| "spans_from src i (t # ts) =
     (i \<le> fst (tok_span t) \<and> span_ok src (tok_span t) \<and> spans_from src (snd (tok_span t)) ts)"

definition next_free :: "nat \<Rightarrow> token list \<Rightarrow> nat" where
  "next_free i ts = (if ts = [] then i else snd (tok_span (last ts)))"

lemma spans_from_snoc:
  "spans_from src i (ts @ [t]) \<longleftrightarrow>
     spans_from src i ts \<and> next_free i ts \<le> fst (tok_span t) \<and> span_ok src (tok_span t)"
  by (induction ts arbitrary: i) (auto simp: next_free_def)

lemma spans_from_mem: "spans_from src i ts \<Longrightarrow> t \<in> set ts \<Longrightarrow> span_ok src (tok_span t)"
  by (induction ts arbitrary: i) auto

lemma next_free_snoc [simp]: "next_free i (ts @ [t]) = snd (tok_span t)"
  by (simp add: next_free_def)

lemma lex_from_safe:
  assumes "utf8_valid src"
  shows "is_char_boundary src i \<Longrightarrow> i \<le> length src \<Longrightarrow>
     spans_from src 0 out \<Longrightarrow> next_free 0 out \<le> i \<Longrightarrow>
     (case lex_from src i out of
        Inl LexPanic \<Rightarrow> False
      | Inl (LexErr e) \<Rightarrow> (\<exists>k < length src. is_char_boundary src k \<and> step_ok src k (StepErr e))
      | Inr ts \<Rightarrow> spans_from src 0 ts \<and> ts \<noteq> [] \<and> tok_kind (last ts) = TEof)"
  using assms
proof (induction src i out rule: lex_from.induct)
  case (1 src i out)
  note v = "1.prems"(5)
  show ?case
  proof (cases "i < length src")
    case False
    with "1.prems" have "i = length src" by simp
    with "1.prems" show ?thesis
      unfolding lex_from.simps [of src i out] by (simp add: spans_from_snoc span_ok_def)
  next
    case True
    have ok: "step_ok src i (lex_step src i)" by (rule lex_step_safe [OF v True "1.prems"(1)])
    show ?thesis
    proof (cases "lex_step src i")
      case (Skip j)
      with ok have "is_char_boundary src j" by (simp add: step_ok_def)
      with "1.IH"(1) [OF True Skip] "1.prems" lex_step_skip [OF True Skip] True Skip
      show ?thesis by (simp add: lex_from.simps [of src i out])
    next
      case (Emit t j)
      with ok have t: "is_char_boundary src j" "tok_span t = (i, j)" by (simp_all add: step_ok_def)
      with "1.IH"(2) [OF True Emit] "1.prems" lex_step_emit [OF True Emit] True Emit
      show ?thesis
        by (simp add: lex_from.simps [of src i out] spans_from_snoc span_ok_def)
    next
      case (StepErr e)
      with ok True "1.prems"(1) show ?thesis by (auto simp: lex_from.simps [of src i out])
    next
      case StepPanic
      with ok show ?thesis by (simp add: step_ok_def)
    qed
  qed
qed

lemma lex_safe:
  assumes "utf8_valid src"
  shows "case lex src of
        Inl LexPanic \<Rightarrow> False
      | Inl (LexErr e) \<Rightarrow> (\<exists>k < length src. is_char_boundary src k \<and> step_ok src k (StepErr e))
      | Inr ts \<Rightarrow> spans_from src 0 ts \<and> ts \<noteq> [] \<and> tok_kind (last ts) = TEof"
  unfolding lex_def by (rule lex_from_safe [OF assms]) (simp_all add: next_free_def)

section \<open>Rendering an error against its source\<close>

text \<open>\<open>None\<close> is a panic of one of the slices; else the line, the padding, the marker width.\<close>

definition find_nl :: "bytes \<Rightarrow> nat option" where
  "find_nl s =
     (let i = scan_while (\<lambda>c. c \<noteq> CHR 0x0A) s 0 in if i < length s then Some i else None)"

definition rfind_nl :: "bytes \<Rightarrow> nat option" where
  "rfind_nl s = map_option (\<lambda>i. length s - Suc i) (find_nl (rev s))"

definition caret :: "nat \<times> nat \<Rightarrow> bytes \<Rightarrow> (bytes \<times> nat \<times> nat) option" where
  "caret sp src =
     (let s = min (fst sp) (length src); e = max s (min (snd sp) (length src)) in
      case str_get src 0 s of None \<Rightarrow> None
      | Some before \<Rightarrow>
        (case str_get src e (length src) of None \<Rightarrow> None
         | Some after \<Rightarrow>
           (let line_start = (case rfind_nl before of None \<Rightarrow> 0 | Some i \<Rightarrow> i + 1);
                line_end = (case find_nl after of None \<Rightarrow> length src | Some i \<Rightarrow> e + i)
            in case str_get src line_start line_end of None \<Rightarrow> None
               | Some line \<Rightarrow> Some (line, s - line_start, max 1 (e - s)))))"

lemma find_nl_Some: "find_nl s = Some i \<Longrightarrow> i < length s \<and> s ! i = CHR 0x0A"
  using scan_while_stop [of "\<lambda>c. c \<noteq> CHR 0x0A" s 0] by (auto simp: find_nl_def Let_def split: if_splits)

lemma rfind_nl_Some: "rfind_nl s = Some i \<Longrightarrow> i < length s \<and> s ! i = CHR 0x0A"
  by (auto simp: rfind_nl_def rev_nth dest!: find_nl_Some)

lemma newline_boundaries:
  assumes "utf8_valid src" "i < length src" "src ! i = CHR 0x0A"
  shows "is_char_boundary src i" "is_char_boundary src (Suc i)"
  using ascii_boundaries [OF assms(1,2)] assms(3) by (simp_all add: is_ascii_def byte_val_def)

text \<open>On valid text the rendering fails only where the clamped end cuts a character.\<close>

lemma caret_total:
  assumes v: "utf8_valid src" and s: "is_char_boundary src (fst sp)" "fst sp \<le> length src"
    and le: "fst sp \<le> snd sp"
  shows "caret sp src = None \<longleftrightarrow> \<not> is_char_boundary src (min (snd sp) (length src))"
proof (cases "is_char_boundary src (min (snd sp) (length src))")
  case False
  then show ?thesis using le s by (simp add: caret_def Let_def str_get_def max_def min_def)
next
  case True
  let ?s = "fst sp" and ?e = "min (snd sp) (length src)"
  let ?ls = "case rfind_nl (substr src 0 ?s) of None \<Rightarrow> 0 | Some i \<Rightarrow> i + 1"
  let ?le = "case find_nl (substr src ?e (length src)) of None \<Rightarrow> length src | Some i \<Rightarrow> ?e + i"
  have e: "?s \<le> ?e" "?e \<le> length src" using s le by auto
  have ls: "is_char_boundary src ?ls \<and> ?ls \<le> ?s"
    using newline_boundaries(2) [OF v] s(2)
    by (auto simp: substr_def split: option.splits dest!: rfind_nl_Some)
  have le: "is_char_boundary src ?le \<and> ?e \<le> ?le \<and> ?le \<le> length src"
    using newline_boundaries(1) [OF v] e(2)
    by (auto simp: substr_def split: option.splits dest!: find_nl_Some)
  have m: "max ?s ?e = ?e" "min ?s (length src) = ?s" using e s(2) by simp_all
  have "str_get src ?ls ?le \<noteq> None" using ls le e by (auto simp: str_get_def)
  then show ?thesis
    unfolding caret_def Let_def m using True s e by (auto simp: str_get_total)
qed

text \<open>The end of an unexpected character is inside it exactly for three and four bytes.\<close>

lemma latin1_end_boundary:
  assumes v: "utf8_valid src" and k: "k < length src" "is_char_boundary src k"
  shows "is_char_boundary src (min (k + latin1_len (src ! k)) (length src)) \<longleftrightarrow>
         byte_val (src ! k) < 224"
proof -
  let ?c = "src ! k" and ?n = "utf8_char (drop k src)"
  have d: "drop k src = ?c # drop (Suc k) src" using k by (simp add: Cons_nth_drop_Suc)
  note nb = next_char_boundary [OF v k]
  have n: "?n = utf8_len ?c" using nb(1) by (simp add: d utf8_char_def Let_def split: if_splits)
  consider (one) "byte_val ?c < 128" "?n = 1" | (two) "128 \<le> byte_val ?c" "byte_val ?c < 224" "?n = 2"
    | (more) "224 \<le> byte_val ?c" "3 \<le> ?n"
    using nb(1) unfolding n by (auto simp: utf8_len_def Let_def split: if_splits)
  then show ?thesis
  proof cases
    case one
    with nb show ?thesis by (simp add: latin1_len_def)
  next
    case two
    with nb show ?thesis by (simp add: latin1_len_def)
  next
    case more
    then have "is_cont (drop k src ! 2)" by (intro utf8_char_tail_cont) auto
    then have "\<not> is_char_boundary src (k + 2)" using nb(2) more
      by (auto simp: is_char_boundary_def)
    with more nb(2) show ?thesis by (simp add: latin1_len_def min_def)
  qed
qed

text \<open>A lexer error can be rendered unless its end cuts a character.\<close>

lemma step_err_caret:
  assumes v: "utf8_valid src" and k: "k < length src" "is_char_boundary src k"
    and ok: "step_ok src k (StepErr e)"
  shows "caret (lex_span e) src = None \<longleftrightarrow>
         (\<exists>c. lex_message e = UnexpectedChar c \<and> 224 \<le> byte_val c)"
proof -
  obtain f where sp: "lex_span e = (k, f)" using ok by (auto simp: step_ok_def split: prod.splits)
  have kf: "k \<le> f" using ok sp by (auto simp: step_ok_def split: lex_msg.splits)
  have iff: "caret (lex_span e) src = None \<longleftrightarrow> \<not> is_char_boundary src (min f (length src))"
    using caret_total [OF v, of "lex_span e"] k kf sp by simp
  show ?thesis
  proof (cases "\<exists>c. lex_message e = UnexpectedChar c")
    case True
    with ok sp have "lex_message e = UnexpectedChar (src ! k)" "f = k + latin1_len (src ! k)"
      by (auto simp: step_ok_def)
    with iff latin1_end_boundary [OF v k] show ?thesis by auto
  next
    case False
    with ok sp have "is_char_boundary src f" "f \<le> length src"
      by (auto simp: step_ok_def split: lex_msg.splits)
    with iff False show ?thesis by (auto simp: min_def)
  qed
qed

section \<open>The properties\<close>

text \<open>C19: on every UTF-8 text the lexer returns tokens or an error; none of its slices of
  the source panics.\<close>

theorem lex_never_panics:
  assumes "utf8_valid src"
  shows "lex src \<noteq> Inl LexPanic"
  using lex_safe [OF assms] by auto

theorem lex_never_panics_witness:
  "utf8_valid [CHR 0xE4, CHR 0xB8, CHR 0x96] \<and> lex [CHR 0xE4, CHR 0xB8, CHR 0x96] \<noteq> Inl LexPanic"
proof -
  have "utf8_valid [CHR 0xE4, CHR 0xB8, CHR 0x96]" by code_simp
  then show ?thesis using lex_never_panics by blast
qed

text \<open>C33: the tokens of a text end with the end-of-input token, and their spans are ranges
  of the text on character boundaries, in source order and without overlap, so that slicing
  the source with any span of a token succeeds.\<close>

theorem lex_spans:
  assumes "utf8_valid src" "lex src = Inr ts"
  shows "spans_from src 0 ts \<and> tok_kind (last ts) = TEof \<and>
         (\<forall>t \<in> set ts. str_get src (fst (tok_span t)) (snd (tok_span t)) \<noteq> None)"
proof -
  have "str_get src (fst (tok_span t)) (snd (tok_span t)) \<noteq> None"
    if "spans_from src 0 ts" "t \<in> set ts" for t
    using spans_from_mem [OF that] by (simp add: span_ok_def str_get_def)
  then show ?thesis using lex_safe [OF assms(1)] assms(2) by auto
qed

theorem lex_spans_witness:
  "spans_from ''a IS EXISTS'' 0 [mk_tok (TIdent ''a'') 0 1, mk_tok TIs 2 4, mk_tok TExists 5 11, mk_tok TEof 11 11]"
proof -
  have "utf8_valid ''a IS EXISTS''" by code_simp
  moreover have "lex ''a IS EXISTS'' =
      Inr [mk_tok (TIdent ''a'') 0 1, mk_tok TIs 2 4, mk_tok TExists 5 11, mk_tok TEof 11 11]"
    by code_simp
  ultimately show ?thesis using lex_spans by blast
qed

text \<open>Rendering a lexer error against its source panics exactly when the error is an
  unexpected character whose first byte starts a sequence of three or four bytes: its span
  ends two bytes in, inside the character.\<close>

lemma lex_error_caret:
  assumes "utf8_valid src" "lex src = Inl (LexErr e)"
  shows "caret (lex_span e) src = None \<longleftrightarrow>
         (\<exists>c. lex_message e = UnexpectedChar c \<and> 224 \<le> byte_val c)"
proof -
  from lex_safe [OF assms(1)] assms(2) obtain k where
    "k < length src" "is_char_boundary src k" "step_ok src k (StepErr e)" by auto
  then show ?thesis by (rule step_err_caret [OF assms(1)])
qed

lemma lex_error_caret_witness:
  "lex [CHR 0xE4, CHR 0xB8, CHR 0x96] = Inl (LexErr (mk_lex_err (UnexpectedChar (CHR 0xE4)) 0 2)) \<and>
   caret (0, 2) [CHR 0xE4, CHR 0xB8, CHR 0x96] = None"
proof -
  have v: "utf8_valid [CHR 0xE4, CHR 0xB8, CHR 0x96]" by code_simp
  have l: "lex [CHR 0xE4, CHR 0xB8, CHR 0x96] = Inl (LexErr (mk_lex_err (UnexpectedChar (CHR 0xE4)) 0 2))"
    by code_simp
  have "224 \<le> byte_val (CHR 0xE4)" by (simp add: byte_val_def)
  with lex_error_caret [OF v l] l show ?thesis by simp
qed

end
