(* ===== verification/Ast.thy ===== *)
theory Ast
  imports Lexer
begin

text \<open>
  The RRQL abstract syntax, \<open>crates/rro-ql/src/ast.rs\<close>, constructor for constructor, with the
  operations the source gives it: the type keywords, the statement keyword and the
  read/write classification that a read-only surface gates on.
\<close>

datatype ql_value = VStr bytes | VNum f64 | VBool bool | VNull

datatype cmp_op = CGt | CGte | CLt | CLte

datatype expr =
    EEq bytes ql_value
  | ENeq bytes ql_value
  | EIn bytes "ql_value list"
  | ECmp bytes cmp_op f64
  | EExists bytes
  | EGeoRadius bytes f64 f64 f64
  | EGeoBox bytes f64 f64 f64 f64
  | EAnd expr expr
  | EOr expr expr
  | ENot expr

record select =
  sel_from :: "bytes option"
  sel_where :: "expr option"
  sel_limit :: "nat option"

definition select_default :: select where
  "select_default = \<lparr>sel_from = None, sel_where = None, sel_limit = None\<rparr>"

datatype field_type = FString | FInt | FFloat | FBool | FDatetime | FUuid

definition field_type_parse :: "bytes \<Rightarrow> field_type option" where
  "field_type_parse s =
     map_of [(''string'', FString), (''int'', FInt), (''integer'', FInt), (''float'', FFloat),
             (''number'', FFloat), (''decimal'', FFloat), (''bool'', FBool), (''boolean'', FBool),
             (''datetime'', FDatetime), (''uuid'', FUuid)] (map ascii_lower s)"

fun field_type_as_str :: "field_type \<Rightarrow> bytes" where
  "field_type_as_str FString = ''string''"
| "field_type_as_str FInt = ''int''"
| "field_type_as_str FFloat = ''float''"
| "field_type_as_str FBool = ''bool''"
| "field_type_as_str FDatetime = ''datetime''"
| "field_type_as_str FUuid = ''uuid''"

lemma field_type_parse_as_str [simp]: "field_type_parse (field_type_as_str t) = Some t"
  by (cases t) (simp_all add: field_type_parse_def ascii_lower_def is_ascii_uppercase_def less_eq_char_def)

datatype define_stmt = DIndex bytes | DAlias bytes bytes | DField bytes bytes field_type

datatype remove_stmt = RmAlias bytes | RmCollection bytes | RmField bytes bytes

record update_stmt =
  upd_id :: bytes
  upd_set :: "(bytes \<times> ql_value) list"
  upd_replace :: bool

record delete_stmt =
  del_id :: bytes
  del_payload_only :: bool
  del_keys :: "bytes list"

record relate_stmt =
  rel_from :: bytes
  rel_verb :: bytes
  rel_to :: bytes

datatype direction = DirOut | DirIn | DirBoth

record traverse_stmt =
  trv_start :: "bytes list"
  trv_verbs :: "bytes list"
  trv_dir :: direction
  trv_depth :: "nat option"
  trv_limit :: "nat option"

record live_stmt =
  live_since :: "nat option"

datatype statement =
    SSelect select
  | SDefine define_stmt
  | SRemove remove_stmt
  | SUpdate update_stmt
  | SDelete delete_stmt
  | SRelate relate_stmt
  | STraverse traverse_stmt
  | SLive live_stmt
  | SInfo

fun keyword :: "statement \<Rightarrow> bytes" where
  "keyword (SSelect _) = ''SELECT''"
| "keyword (SDefine _) = ''DEFINE''"
| "keyword (SRemove _) = ''REMOVE''"
| "keyword (SUpdate _) = ''UPDATE''"
| "keyword (SDelete _) = ''DELETE''"
| "keyword (SRelate _) = ''RELATE''"
| "keyword (STraverse _) = ''TRAVERSE''"
| "keyword (SLive _) = ''LIVE''"
| "keyword SInfo = ''INFO''"

fun is_write :: "statement \<Rightarrow> bool" where
  "is_write (SDefine _) = True"
| "is_write (SRemove _) = True"
| "is_write (SUpdate _) = True"
| "is_write (SDelete _) = True"
| "is_write (SRelate _) = True"
| "is_write _ = False"

end
