(* ===== verification/Parser.thy ===== *)
theory Parser
  imports Ast
begin

text \<open>
  The recursive-descent parser, \<open>crates/rro-ql/src/parser.rs\<close>.  A parser is the token list
  and a position, as in the source; a method is a function from the parser to a failure or
  a result and the advanced parser.  The mutually recursive expression methods and the comma
  loops take fuel; \<open>parse\<close> supplies enough for every input (theory \<open>ParserProps\<close>).
\<close>

section \<open>Parser state and errors\<close>

record parser =
  tokens :: "token list"
  pos :: nat

datatype ql_msg =
    MLex lex_msg
  | MExpected token_kind token_kind
  | MTrailing token_kind
  | MExpIdent token_kind
  | MExpNumber token_kind
  | MExpValue token_kind
  | MExpStatement token_kind
  | MExpArrow token_kind
  | MNotWhole f64
  | MUnknownType bytes
  | MDefine token_kind
  | MRemove token_kind
  | MExpRecordId token_kind
  | MInside token_kind
  | MExpComparison bytes token_kind
  | MUnsupported bytes
  | MWriteNotQuery bytes

record ql_error =
  ql_message :: ql_msg
  ql_span :: "nat \<times> nat"

datatype ql_fail = QlErr ql_error | QlPanic | QlFuel

type_synonym 'a pm = "parser \<Rightarrow> ql_fail + ('a \<times> parser)"

definition ql_err :: "ql_msg \<Rightarrow> nat \<times> nat \<Rightarrow> ql_fail" where
  "ql_err m sp = QlErr \<lparr>ql_message = m, ql_span = sp\<rparr>"

definition retP :: "'a \<Rightarrow> 'a pm" where
  "retP a p = Inr (a, p)"

definition bindP :: "'a pm \<Rightarrow> ('a \<Rightarrow> 'b pm) \<Rightarrow> 'b pm" where
  "bindP m f p = (case m p of Inl e \<Rightarrow> Inl e | Inr (a, p') \<Rightarrow> f a p')"

definition here :: "parser \<Rightarrow> token" where
  "here p = tokens p ! min (pos p) (length (tokens p) - 1)"

definition peek :: "parser \<Rightarrow> token_kind" where
  "peek p = tok_kind (here p)"

definition span_of :: "parser \<Rightarrow> nat \<times> nat" where
  "span_of p = tok_span (here p)"

definition bump :: "parser \<Rightarrow> token_kind \<times> parser" where
  "bump p =
     (tok_kind (here p),
      if pos p < length (tokens p) - 1 then p\<lparr>pos := pos p + 1\<rparr> else p)"

definition eat :: "token_kind \<Rightarrow> parser \<Rightarrow> bool \<times> parser" where
  "eat want p = (if peek p = want then (True, snd (bump p)) else (False, p))"

text \<open>\<open>if self.eat(want) { a } else { b }\<close>, the shape of every use of \<open>eat\<close> as a guard.\<close>

definition if_eat :: "token_kind \<Rightarrow> 'a pm \<Rightarrow> 'a pm \<Rightarrow> 'a pm" where
  "if_eat want a b p = (case eat want p of (True, p') \<Rightarrow> a p' | (False, p') \<Rightarrow> b p')"

definition expect :: "token_kind \<Rightarrow> unit pm" where
  "expect want p =
     (case eat want p of
        (True, p') \<Rightarrow> Inr ((), p')
      | (False, p') \<Rightarrow> Inl (ql_err (MExpected want (peek p')) (span_of p')))"

definition expect_eof :: "parser \<Rightarrow> ql_fail + unit" where
  "expect_eof p =
     (if peek p = TEof then Inr () else Inl (ql_err (MTrailing (peek p)) (span_of p)))"

text \<open>\<open>let span = self.span(); match self.bump() { .. }\<close>: take one token or fail at it.\<close>

definition take_token :: "(token_kind \<Rightarrow> 'a option) \<Rightarrow> (token_kind \<Rightarrow> ql_msg) \<Rightarrow> 'a pm" where
  "take_token pick msg p =
     (case bump p of (k, p') \<Rightarrow>
        (case pick k of Some a \<Rightarrow> Inr (a, p') | None \<Rightarrow> Inl (ql_err (msg k) (span_of p))))"

definition pick_ident :: "token_kind \<Rightarrow> bytes option" where
  "pick_ident k = (case k of TIdent s \<Rightarrow> Some s | _ \<Rightarrow> None)"

definition pick_number :: "token_kind \<Rightarrow> f64 option" where
  "pick_number k = (case k of TNum n \<Rightarrow> Some n | _ \<Rightarrow> None)"

definition pick_value :: "token_kind \<Rightarrow> ql_value option" where
  "pick_value k =
     (case k of TStr s \<Rightarrow> Some (VStr s) | TNum n \<Rightarrow> Some (VNum n) | TBool b \<Rightarrow> Some (VBool b)
      | TNull \<Rightarrow> Some VNull | _ \<Rightarrow> None)"

definition pick_record_id :: "token_kind \<Rightarrow> bytes option" where
  "pick_record_id k = (case k of TIdent s \<Rightarrow> Some s | TStr s \<Rightarrow> Some s | _ \<Rightarrow> None)"

definition pick_arrow :: "token_kind \<Rightarrow> direction option" where
  "pick_arrow k =
     (case k of TArrowOut \<Rightarrow> Some DirOut | TArrowIn \<Rightarrow> Some DirIn | TArrowBoth \<Rightarrow> Some DirBoth
      | _ \<Rightarrow> None)"

definition p_ident :: "bytes pm" where
  "p_ident = take_token pick_ident MExpIdent"

definition p_number :: "f64 pm" where
  "p_number = take_token pick_number MExpNumber"

definition p_value :: "ql_value pm" where
  "p_value = take_token pick_value MExpValue"

definition p_record_id :: "bytes pm" where
  "p_record_id = take_token pick_record_id MExpRecordId"

text \<open>A non-negative whole number; the cast to \<open>usize\<close> saturates.\<close>

definition whole_number :: "nat pm" where
  "whole_number p =
     bindP p_number (\<lambda>n.
       if f64_lt n f64_zero \<or> has_fract n
       then (\<lambda>_. Inl (ql_err (MNotWhole n) (span_of p)))
       else retP (f64_to_usize n)) p"

section \<open>Comma loops\<close>

text \<open>
  \<open>p_list\<close>: push an item; on a comma go on, else expect the closing parenthesis (\<open>IN\<close> lists
  and \<open>DELETE PAYLOAD\<close> keys).  \<open>p_sep\<close>: push an item; stop when there is no comma (\<open>SET\<close>
  pairs and \<open>TRAVERSE\<close> starts).
\<close>

fun p_list :: "'a pm \<Rightarrow> nat \<Rightarrow> 'a list \<Rightarrow> 'a list pm" where
  "p_list item 0 acc p = Inl QlFuel"
| "p_list item (Suc n) acc p =
     bindP item (\<lambda>a.
       if_eat TComma (p_list item n (acc @ [a]))
         (bindP (expect TRParen) (\<lambda>_. retP (acc @ [a])))) p"

fun p_sep :: "'a pm \<Rightarrow> nat \<Rightarrow> 'a list \<Rightarrow> 'a list pm" where
  "p_sep item 0 acc p = Inl QlFuel"
| "p_sep item (Suc n) acc p =
     bindP item (\<lambda>a. if_eat TComma (p_sep item n (acc @ [a])) (retP (acc @ [a]))) p"

section \<open>Expressions\<close>

text \<open>The part of \<open>primary\<close> after a key, none of which recurses.\<close>

definition p_comparison :: "bytes \<Rightarrow> expr pm" where
  "p_comparison key p =
     (case bump p of (k, p') \<Rightarrow>
       (case k of
          TEq \<Rightarrow> bindP p_value (\<lambda>v. retP (EEq key v)) p'
        | TNeq \<Rightarrow> bindP p_value (\<lambda>v. retP (ENeq key v)) p'
        | TGt \<Rightarrow> bindP p_number (\<lambda>n. retP (ECmp key CGt n)) p'
        | TGte \<Rightarrow> bindP p_number (\<lambda>n. retP (ECmp key CGte n)) p'
        | TLt \<Rightarrow> bindP p_number (\<lambda>n. retP (ECmp key CLt n)) p'
        | TLte \<Rightarrow> bindP p_number (\<lambda>n. retP (ECmp key CLte n)) p'
        | _ \<Rightarrow> Inl (ql_err (MExpComparison key k) (span_of p))))"

definition p_inside :: "bytes \<Rightarrow> expr pm" where
  "p_inside key =
     if_eat TRadius
       (bindP (expect TLParen) (\<lambda>_. bindP p_number (\<lambda>lat. bindP (expect TComma) (\<lambda>_.
        bindP p_number (\<lambda>lon. bindP (expect TComma) (\<lambda>_. bindP p_number (\<lambda>radius.
        bindP (expect TRParen) (\<lambda>_. retP (EGeoRadius key lat lon radius)))))))))
       (if_eat TBoxKw
         (bindP (expect TLParen) (\<lambda>_. bindP p_number (\<lambda>lat_min. bindP (expect TComma) (\<lambda>_.
          bindP p_number (\<lambda>lon_min. bindP (expect TComma) (\<lambda>_. bindP p_number (\<lambda>lat_max.
          bindP (expect TComma) (\<lambda>_. bindP p_number (\<lambda>lon_max. bindP (expect TRParen) (\<lambda>_.
          retP (EGeoBox key lat_min lon_min lat_max lon_max)))))))))))
         (\<lambda>p. Inl (ql_err (MInside (peek p)) (span_of p))))"

definition p_key_rest :: "nat \<Rightarrow> bytes \<Rightarrow> expr pm" where
  "p_key_rest n key =
     if_eat TIs (bindP (expect TExists) (\<lambda>_. retP (EExists key)))
       (if_eat TIn
         (bindP (expect TLParen) (\<lambda>_.
            if_eat TRParen (retP (EIn key [])) (bindP (p_list p_value n []) (\<lambda>vs. retP (EIn key vs)))))
         (if_eat TInside (p_inside key) (p_comparison key)))"

text \<open>
  \<open>expr\<close>, \<open>and_expr\<close>, their loops, \<open>unary\<close> and \<open>primary\<close>.  A loop turn reads
  \<open>while self.eat(op) { rhs; lhs = node(lhs, rhs) }\<close>.
\<close>

fun p_expr :: "nat \<Rightarrow> expr pm"
  and p_or_loop :: "nat \<Rightarrow> expr \<Rightarrow> expr pm"
  and p_and :: "nat \<Rightarrow> expr pm"
  and p_and_loop :: "nat \<Rightarrow> expr \<Rightarrow> expr pm"
  and p_unary :: "nat \<Rightarrow> expr pm"
  and p_primary :: "nat \<Rightarrow> expr pm"
where
  "p_expr 0 p = Inl QlFuel"
| "p_expr (Suc n) p = bindP (p_and n) (\<lambda>lhs. p_or_loop n lhs) p"
| "p_or_loop 0 lhs p = Inl QlFuel"
| "p_or_loop (Suc n) lhs p =
     if_eat TOr (bindP (p_and n) (\<lambda>rhs. p_or_loop n (EOr lhs rhs))) (retP lhs) p"
| "p_and 0 p = Inl QlFuel"
| "p_and (Suc n) p = bindP (p_unary n) (\<lambda>lhs. p_and_loop n lhs) p"
| "p_and_loop 0 lhs p = Inl QlFuel"
| "p_and_loop (Suc n) lhs p =
     if_eat TAnd (bindP (p_unary n) (\<lambda>rhs. p_and_loop n (EAnd lhs rhs))) (retP lhs) p"
| "p_unary 0 p = Inl QlFuel"
| "p_unary (Suc n) p = if_eat TNot (bindP (p_unary n) (\<lambda>e. retP (ENot e))) (p_primary n) p"
| "p_primary 0 p = Inl QlFuel"
| "p_primary (Suc n) p =
     if_eat TLParen (bindP (p_expr n) (\<lambda>e. bindP (expect TRParen) (\<lambda>_. retP e)))
       (if_eat TExists
         (bindP (expect TLParen) (\<lambda>_. bindP p_ident (\<lambda>key. bindP (expect TRParen) (\<lambda>_.
            retP (EExists key)))))
         (bindP p_ident (\<lambda>key. p_key_rest n key))) p"

section \<open>Statements\<close>

definition p_select :: "nat \<Rightarrow> select pm" where
  "p_select n =
     bindP (expect TStar) (\<lambda>_.
     bindP (if_eat TFrom (bindP p_ident (\<lambda>c. retP (Some c))) (retP None)) (\<lambda>from.
     bindP (if_eat TWhere (bindP (p_expr n) (\<lambda>e. retP (Some e))) (retP None)) (\<lambda>wh.
     bindP (if_eat TLimit (bindP whole_number (\<lambda>l. retP (Some l))) (retP None)) (\<lambda>lim.
     retP \<lparr>sel_from = from, sel_where = wh, sel_limit = lim\<rparr>))))"

definition p_field_type :: "field_type pm" where
  "p_field_type p =
     bindP p_ident (\<lambda>name.
       case field_type_parse name of
         Some ty \<Rightarrow> retP ty
       | None \<Rightarrow> (\<lambda>_. Inl (ql_err (MUnknownType name) (span_of p)))) p"

definition p_define :: "define_stmt pm" where
  "p_define =
     if_eat TIndex (bindP (expect TOn) (\<lambda>_. bindP p_ident (\<lambda>f. retP (DIndex f))))
     (if_eat TAlias
       (bindP p_ident (\<lambda>a. bindP (expect TFor) (\<lambda>_. bindP p_ident (\<lambda>c. retP (DAlias a c)))))
     (if_eat TField
       (bindP p_ident (\<lambda>f. bindP (expect TOn) (\<lambda>_. bindP p_ident (\<lambda>c. bindP (expect TType) (\<lambda>_.
        bindP p_field_type (\<lambda>ty. retP (DField f c ty)))))))
     (\<lambda>p. Inl (ql_err (MDefine (peek p)) (span_of p)))))"

definition p_remove :: "remove_stmt pm" where
  "p_remove =
     if_eat TAlias (bindP p_ident (\<lambda>a. retP (RmAlias a)))
     (if_eat TCollection (bindP p_ident (\<lambda>c. retP (RmCollection c)))
     (if_eat TField
       (bindP p_ident (\<lambda>f. bindP (expect TOn) (\<lambda>_. bindP p_ident (\<lambda>c. retP (RmField f c)))))
     (\<lambda>p. Inl (ql_err (MRemove (peek p)) (span_of p)))))"

definition p_pair :: "(bytes \<times> ql_value) pm" where
  "p_pair =
     bindP p_ident (\<lambda>key. bindP (expect TEq) (\<lambda>_. bindP p_value (\<lambda>v. retP (key, v))))"

definition p_update :: "nat \<Rightarrow> update_stmt pm" where
  "p_update n =
     bindP p_record_id (\<lambda>rid.
     bindP (if_eat TContent (bindP (expect TSet) (\<lambda>_. retP True))
                            (bindP (expect TSet) (\<lambda>_. retP False))) (\<lambda>replace.
     bindP (p_sep p_pair n []) (\<lambda>pairs.
     retP \<lparr>upd_id = rid, upd_set = pairs, upd_replace = replace\<rparr>)))"

definition p_delete :: "nat \<Rightarrow> delete_stmt pm" where
  "p_delete n =
     bindP (if_eat TPayload (retP True) (retP False)) (\<lambda>payload_only.
     bindP p_record_id (\<lambda>rid.
     bindP (if payload_only then if_eat TLParen (p_list p_ident n []) (retP []) else retP []) (\<lambda>ks.
     retP \<lparr>del_id = rid, del_payload_only = payload_only, del_keys = ks\<rparr>)))"

definition p_relate :: "relate_stmt pm" where
  "p_relate =
     bindP p_record_id (\<lambda>from. bindP (expect TArrowOut) (\<lambda>_. bindP p_ident (\<lambda>verb.
     bindP (expect TArrowOut) (\<lambda>_. bindP p_record_id (\<lambda>to.
     retP \<lparr>rel_from = from, rel_verb = verb, rel_to = to\<rparr>)))))"

text \<open>\<open>if let Ident(_) = self.peek()\<close>: one verb, whose closing arrow is optional.\<close>

definition p_verbs :: "bytes list pm" where
  "p_verbs p =
     (case pick_ident (peek p) of
        None \<Rightarrow> retP [] p
      | Some _ \<Rightarrow>
          bindP p_ident (\<lambda>v.
            if_eat TArrowOut (retP [v]) (if_eat TArrowIn (retP [v])
              (if_eat TArrowBoth (retP [v]) (retP [v])))) p)"

definition p_traverse :: "nat \<Rightarrow> traverse_stmt pm" where
  "p_traverse n =
     bindP (p_sep p_record_id n []) (\<lambda>start.
     bindP (take_token pick_arrow MExpArrow) (\<lambda>dir.
     bindP p_verbs (\<lambda>verbs.
     bindP (if_eat TDepth (bindP whole_number (\<lambda>d. retP (Some d))) (retP None)) (\<lambda>depth.
     bindP (if_eat TLimit (bindP whole_number (\<lambda>l. retP (Some l))) (retP None)) (\<lambda>limit.
     retP \<lparr>trv_start = start, trv_verbs = verbs, trv_dir = dir, trv_depth = depth,
           trv_limit = limit\<rparr>)))))"

definition p_live :: "live_stmt pm" where
  "p_live =
     bindP (if_eat TSince (bindP whole_number (\<lambda>s. retP (Some s))) (retP None)) (\<lambda>since.
     retP \<lparr>live_since = since\<rparr>)"

definition p_statement :: "nat \<Rightarrow> statement pm" where
  "p_statement n =
     if_eat TSelect (bindP (p_select n) (\<lambda>s. retP (SSelect s)))
     (if_eat TDefine (bindP p_define (\<lambda>d. retP (SDefine d)))
     (if_eat TRemove (bindP p_remove (\<lambda>r. retP (SRemove r)))
     (if_eat TUpdate (bindP (p_update n) (\<lambda>u. retP (SUpdate u)))
     (if_eat TDelete (bindP (p_delete n) (\<lambda>d. retP (SDelete d)))
     (if_eat TRelate (bindP p_relate (\<lambda>r. retP (SRelate r)))
     (if_eat TTraverse (bindP (p_traverse n) (\<lambda>t. retP (STraverse t)))
     (if_eat TLive (bindP p_live (\<lambda>l. retP (SLive l)))
     (if_eat TInfo (retP SInfo)
     (\<lambda>p. Inl (ql_err (MExpStatement (peek p)) (span_of p)))))))))))"

text \<open>The fuel for a token list: six calls per token, and the entry calls.\<close>

definition parse_fuel :: "token list \<Rightarrow> nat" where
  "parse_fuel ts = 6 * length ts + 4"

definition parse_tokens :: "token list \<Rightarrow> ql_fail + statement" where
  "parse_tokens ts =
     bind_result (p_statement (parse_fuel ts) \<lparr>tokens = ts, pos = 0\<rparr>) (\<lambda>(stmt, p).
       bind_result (expect_eof p) (\<lambda>_. Inr stmt))"

definition parse :: "bytes \<Rightarrow> ql_fail + statement" where
  "parse src =
     (case lex src of
        Inl LexPanic \<Rightarrow> Inl QlPanic
      | Inl (LexErr e) \<Rightarrow> Inl (ql_err (MLex (lex_message e)) (lex_span e))
      | Inr ts \<Rightarrow> parse_tokens ts)"

end
