(* ===== verification/ParserProps.thy ===== *)
theory ParserProps
  imports LexerSafe Parser
begin

text \<open>
  Properties of the parser.  \<open>rest\<close> is the token kinds still to read and \<open>skip\<close> advances over
  them, so a parser method run on a known prefix is a rewriting step (\<open>run_simps\<close>).
  The first part shows that the parser consumes what it reads and always has enough fuel; the
  second that it inverts the printer of statements, with the precedence of \<open>NOT\<close>, \<open>AND\<close>, \<open>OR\<close>.
\<close>

section \<open>Reading a known prefix\<close>

definition rest :: "parser \<Rightarrow> token_kind list" where
  "rest p = map tok_kind (drop (pos p) (tokens p))"

definition skip :: "nat \<Rightarrow> parser \<Rightarrow> parser" where
  "skip k p = p\<lparr>pos := pos p + k\<rparr>"

named_theorems run_simps \<open>one step of the parser over a known token\<close>

lemma rest_skip [run_simps]: "rest (skip k p) = drop k (rest p)"
  by (simp add: rest_def skip_def drop_map add.commute)

lemma skip_skip [run_simps]: "skip a (skip b p) = skip (b + a) p"
  by (simp add: skip_def add.assoc)

lemma skip_0 [run_simps]: "skip 0 p = p"
  by (simp add: skip_def)

lemma tokens_skip [simp]: "tokens (skip k p) = tokens p"
  by (simp add: skip_def)

lemma peek_run [run_simps]: "rest p \<noteq> [] \<Longrightarrow> peek p = hd (rest p)"
  by (simp add: peek_def here_def rest_def hd_map hd_drop_conv_nth min_absorb1)

lemma bump_run [run_simps]: "tl (rest p) \<noteq> [] \<Longrightarrow> bump p = (hd (rest p), skip 1 p)"
proof -
  assume a: "tl (rest p) \<noteq> []"
  then have "rest p \<noteq> []" by auto
  moreover from a have "pos p < length (tokens p) - 1"
    by (simp add: rest_def tl_drop drop_eq_Nil flip: map_tl drop_Suc)
  ultimately show ?thesis using peek_run [of p] by (simp add: bump_def skip_def peek_def)
qed

lemma if_eat_run [run_simps]:
  "rest p \<noteq> [] \<Longrightarrow> (hd (rest p) = k \<longrightarrow> tl (rest p) \<noteq> []) \<Longrightarrow>
   if_eat k a b p = (if hd (rest p) = k then a (skip 1 p) else b p)"
  by (simp add: if_eat_def eat_def peek_run bump_run)

lemma expect_run [run_simps]:
  "tl (rest p) \<noteq> [] \<Longrightarrow> hd (rest p) = k \<Longrightarrow> expect k p = Inr ((), skip 1 p)"
  by (cases "rest p = []") (simp_all add: expect_def eat_def peek_run bump_run)

lemma take_token_run [run_simps]:
  "tl (rest p) \<noteq> [] \<Longrightarrow> pick (hd (rest p)) \<noteq> None \<Longrightarrow>
   take_token pick msg p = Inr (the (pick (hd (rest p))), skip 1 p)"
  by (auto simp: take_token_def bump_run)

lemma bindP_Inr [run_simps]: "m p = Inr (a, p') \<Longrightarrow> bindP m f p = f a p'"
  by (simp add: bindP_def)

lemma bindP_Inl [run_simps]: "m p = Inl e \<Longrightarrow> bindP m f p = Inl e"
  by (simp add: bindP_def)

lemma retP_run [run_simps]: "retP a p = Inr (a, p)"
  by (simp add: retP_def)

lemmas pick_defs [run_simps] =
  pick_ident_def pick_number_def pick_value_def pick_record_id_def pick_arrow_def

lemmas token_parsers [run_simps] = p_ident_def p_number_def p_value_def p_record_id_def

section \<open>Progress and fuel\<close>

definition wf_parser :: "parser \<Rightarrow> bool" where
  "wf_parser p \<longleftrightarrow> pos p < length (tokens p) \<and> tok_kind (last (tokens p)) = TEof"

definition remaining :: "parser \<Rightarrow> nat" where
  "remaining p = length (tokens p) - pos p"

text \<open>
  \<open>sound r m p\<close>: run at \<open>p\<close>, the method fails with an error whose span is a token's, or
  returns with the same tokens and at most \<open>r\<close> of them left; it never runs out of fuel.
\<close>

definition sound :: "nat \<Rightarrow> 'a pm \<Rightarrow> parser \<Rightarrow> bool" where
  "sound r m p \<longleftrightarrow>
     (case m p of
        Inl e \<Rightarrow> (\<exists>x. e = QlErr x \<and> ql_span x \<in> tok_span ` set (tokens p))
      | Inr (a, p') \<Rightarrow> wf_parser p' \<and> tokens p' = tokens p \<and> remaining p' \<le> r)"

named_theorems sound_intros \<open>the methods that are sound\<close>

lemma remaining_pos: "wf_parser p \<Longrightarrow> 0 < remaining p"
  by (simp add: wf_parser_def remaining_def)

lemma here_in: "wf_parser p \<Longrightarrow> here p \<in> set (tokens p)"
  by (simp add: wf_parser_def here_def min_def)

lemma sound_fail [sound_intros]: "wf_parser p \<Longrightarrow> sound r (\<lambda>p. Inl (ql_err (m p) (span_of p))) p"
  by (auto simp: sound_def ql_err_def span_of_def intro: here_in)

lemma sound_ret [sound_intros]: "wf_parser p \<Longrightarrow> remaining p \<le> r \<Longrightarrow> sound r (retP a) p"
  by (simp add: sound_def retP_def)

lemma sound_bind:
  assumes "sound r m p"
    and "\<And>a p'. wf_parser p' \<Longrightarrow> tokens p' = tokens p \<Longrightarrow> remaining p' \<le> r \<Longrightarrow> sound r' (f a) p'"
  shows "sound r' (bindP m f) p"
proof (cases "m p")
  case (Inl e)
  with assms(1) show ?thesis by (simp add: sound_def bindP_def)
next
  case (Inr x)
  obtain a p' where r: "x = (a, p')" by (cases x)
  with Inr assms(1) have w: "wf_parser p'" "tokens p' = tokens p" "remaining p' \<le> r"
    by (simp_all add: sound_def)
  from assms(2) [OF w, of a] show ?thesis unfolding sound_def bindP_def Inr r
    by (auto simp: w split: sum.splits)
qed

lemma bump_progress:
  assumes "wf_parser p" "tok_kind (here p) \<noteq> TEof"
  shows "wf_parser (snd (bump p))" "tokens (snd (bump p)) = tokens p"
    "remaining (snd (bump p)) < remaining p"
proof -
  have "pos p \<noteq> length (tokens p) - 1"
  proof
    assume "pos p = length (tokens p) - 1"
    then have "here p = last (tokens p)" using assms(1)
      by (cases "tokens p = []") (auto simp: here_def last_conv_nth wf_parser_def)
    with assms show False by (simp add: wf_parser_def)
  qed
  then show "wf_parser (snd (bump p))" "tokens (snd (bump p)) = tokens p"
    "remaining (snd (bump p)) < remaining p"
    using assms(1) by (auto simp: bump_def wf_parser_def remaining_def)
qed

lemma sound_if_eat:
  assumes "wf_parser p" "k \<noteq> TEof"
    and "\<And>p'. wf_parser p' \<Longrightarrow> tokens p' = tokens p \<Longrightarrow> remaining p' < remaining p \<Longrightarrow> sound r a p'"
    and "sound r b p"
  shows "sound r (if_eat k a b) p"
proof (cases "peek p = k")
  case True
  with assms(1,2) bump_progress [of p] have w: "wf_parser (snd (bump p))"
    "tokens (snd (bump p)) = tokens p" "remaining (snd (bump p)) < remaining p"
    by (auto simp: peek_def)
  from assms(3) [OF w] True show ?thesis unfolding sound_def if_eat_def eat_def
    by (auto simp: w split: sum.splits)
next
  case False
  with assms(4) show ?thesis by (simp add: sound_def if_eat_def eat_def)
qed

lemma sound_expect:
  "wf_parser p \<Longrightarrow> k \<noteq> TEof \<Longrightarrow> sound (remaining p - 1) (expect k) p"
  using bump_progress [of p] here_in [of p]
  by (auto simp: sound_def expect_def eat_def peek_def ql_err_def span_of_def)

lemma sound_take:
  "wf_parser p \<Longrightarrow> pick TEof = None \<Longrightarrow> sound (remaining p - 1) (take_token pick msg) p"
  using bump_progress [of p] here_in [of p]
  by (cases "pick (tok_kind (here p))")
    (fastforce simp: sound_def take_token_def ql_err_def span_of_def bump_def split: option.splits)+

lemma sound_le: "sound r m p \<Longrightarrow> r \<le> r' \<Longrightarrow> sound r' m p"
  by (auto simp: sound_def split: sum.splits)


text \<open>The methods.  \<open>sound_auto\<close> collects what a straight-line method needs.\<close>

lemma sound_items [sound_intros]:
  assumes "wf_parser p" "remaining p - 1 \<le> r"
  shows "sound r p_ident p" "sound r p_number p" "sound r p_value p" "sound r p_record_id p"
    "sound r (take_token pick_arrow msg) p"
  using assms
  by (auto simp: p_ident_def p_number_def p_value_def p_record_id_def pick_defs
      intro: sound_take [THEN sound_le])

lemma sound_expect' [sound_intros]:
  "wf_parser p \<Longrightarrow> k \<noteq> TEof \<Longrightarrow> remaining p - 1 \<le> r \<Longrightarrow> sound r (expect k) p"
  by (rule sound_le [OF sound_expect])

lemma sound_whole_number [sound_intros]:
  assumes w: "wf_parser p" and r: "remaining p - 1 \<le> r"
  shows "sound r whole_number p"
proof -
  have "sound r (bindP p_number (\<lambda>n. if f64_lt n f64_zero \<or> has_fract n
      then (\<lambda>_. Inl (ql_err (MNotWhole n) (span_of p))) else retP (f64_to_usize n))) p"
    by (rule sound_bind [OF sound_items(2) [OF w order_refl]])
      (use w r in \<open>auto simp: sound_def ql_err_def span_of_def retP_def intro: here_in\<close>)
  then show ?thesis by (simp add: sound_def whole_number_def)
qed

lemma sound_list:
  assumes item: "\<And>p. wf_parser p \<Longrightarrow> sound (remaining p - 1) item p"
  shows "wf_parser p \<Longrightarrow> remaining p \<le> n \<Longrightarrow> sound (remaining p - 1) (p_list item n acc) p"
proof (induction n arbitrary: acc p)
  case 0
  then show ?case using remaining_pos by fastforce
next
  case (Suc n)
  have "sound (remaining p - 1) (bindP item (\<lambda>a. if_eat TComma (p_list item n (acc @ [a]))
         (bindP (expect TRParen) (\<lambda>_. retP (acc @ [a]))))) p"
  proof (rule sound_bind [OF item [OF Suc.prems(1)]])
    fix a p' assume w: "wf_parser p'" and r: "remaining p' \<le> remaining p - 1"
    show "sound (remaining p - 1) (if_eat TComma (p_list item n (acc @ [a]))
         (bindP (expect TRParen) (\<lambda>_. retP (acc @ [a])))) p'"
    proof (rule sound_if_eat [OF w])
      fix q assume "wf_parser q" "remaining q < remaining p'"
      with Suc.IH [of q "acc @ [a]"] Suc.prems(2) r
      have "sound (remaining q - 1) (p_list item n (acc @ [a])) q" "remaining q - 1 \<le> remaining p - 1"
        using \<open>remaining q < remaining p'\<close> by simp_all
      then show "sound (remaining p - 1) (p_list item n (acc @ [a])) q"
        by (rule sound_le)
    qed (use w r in \<open>auto intro!: sound_bind sound_intros\<close>)
  qed
  then show ?case by (simp add: sound_def)
qed

lemma sound_sep:
  assumes item: "\<And>p. wf_parser p \<Longrightarrow> sound (remaining p - 1) item p"
  shows "wf_parser p \<Longrightarrow> remaining p \<le> n \<Longrightarrow> sound (remaining p - 1) (p_sep item n acc) p"
proof (induction n arbitrary: acc p)
  case 0
  then show ?case using remaining_pos by fastforce
next
  case (Suc n)
  have "sound (remaining p - 1)
      (bindP item (\<lambda>a. if_eat TComma (p_sep item n (acc @ [a])) (retP (acc @ [a])))) p"
  proof (rule sound_bind [OF item [OF Suc.prems(1)]])
    fix a p' assume w: "wf_parser p'" and r: "remaining p' \<le> remaining p - 1"
    show "sound (remaining p - 1) (if_eat TComma (p_sep item n (acc @ [a])) (retP (acc @ [a]))) p'"
    proof (rule sound_if_eat [OF w])
      fix q assume "wf_parser q" "remaining q < remaining p'"
      with Suc.IH [of q "acc @ [a]"] Suc.prems(2) r
      have "sound (remaining q - 1) (p_sep item n (acc @ [a])) q" "remaining q - 1 \<le> remaining p - 1"
        using \<open>remaining q < remaining p'\<close> by simp_all
      then show "sound (remaining p - 1) (p_sep item n (acc @ [a])) q"
        by (rule sound_le)
    qed (use w r in \<open>auto intro!: sound_intros\<close>)
  qed
  then show ?case by (simp add: sound_def)
qed


text \<open>A straight-line method never leaves more tokens than it found.\<close>

lemma sound_bind_le:
  assumes "sound (remaining p) m p" "remaining p \<le> r'"
    and "\<And>a p'. wf_parser p' \<Longrightarrow> remaining p' \<le> r' \<Longrightarrow> sound r' (f a) p'"
  shows "sound r' (bindP m f) p"
  by (rule sound_bind [OF assms(1)]) (use assms(2,3) in auto)

lemma sound_if_eat_le:
  assumes "wf_parser p" "k \<noteq> TEof" "remaining p \<le> r"
    and "\<And>p'. wf_parser p' \<Longrightarrow> remaining p' \<le> r \<Longrightarrow> sound r a p'"
    and "sound r b p"
  shows "sound r (if_eat k a b) p"
  by (rule sound_if_eat) (use assms in auto)

lemma sound_value_list [sound_intros]:
  "wf_parser p \<Longrightarrow> remaining p \<le> n \<Longrightarrow> remaining p \<le> r \<Longrightarrow> sound r (p_list p_value n acc) p"
  "wf_parser p \<Longrightarrow> remaining p \<le> n \<Longrightarrow> remaining p \<le> r \<Longrightarrow> sound r (p_list p_ident n acc') p"
  "wf_parser p \<Longrightarrow> remaining p \<le> n \<Longrightarrow> remaining p \<le> r \<Longrightarrow> sound r (p_sep p_record_id n acc') p"
  by (rule sound_le [OF sound_list] sound_le [OF sound_sep]; auto intro: sound_items)+

lemmas sound_steps = sound_bind_le sound_if_eat_le sound_intros

lemma sound_pair:
  assumes "wf_parser p"
  shows "sound (remaining p - 1) p_pair p"
  unfolding p_pair_def
  by (rule sound_bind [OF sound_items(1) [OF assms order_refl]]) (auto intro!: sound_steps)

lemma sound_pair_sep [sound_intros]:
  "wf_parser p \<Longrightarrow> remaining p \<le> n \<Longrightarrow> remaining p \<le> r \<Longrightarrow> sound r (p_sep p_pair n acc) p"
  by (rule sound_le [OF sound_sep]) (auto intro: sound_pair [simplified])

lemma sound_comparison [sound_intros]:
  assumes w: "wf_parser p" and r: "remaining p \<le> r"
  shows "sound r (p_comparison key) p"
proof -
  let ?q = "snd (bump p)"
  have q: "tok_kind (here p) \<noteq> TEof \<Longrightarrow> wf_parser ?q \<and> tokens ?q = tokens p \<and> remaining ?q \<le> r"
    using bump_progress [OF w] r by auto
  have s: "tok_kind (here p) \<noteq> TEof \<Longrightarrow> sound r m ?q \<Longrightarrow>
      (case m ?q of Inl e \<Rightarrow> \<exists>x. e = QlErr x \<and> ql_span x \<in> tok_span ` set (tokens p)
       | Inr (a, p') \<Rightarrow> wf_parser p' \<and> tokens p' = tokens p \<and> remaining p' \<le> r)"
    for m :: "expr pm"
    using q by (auto simp: sound_def split: sum.splits)
  have v: "tok_kind (here p) \<noteq> TEof \<Longrightarrow> sound r (bindP p_value (\<lambda>v. retP (f v))) ?q"
    and n: "tok_kind (here p) \<noteq> TEof \<Longrightarrow> sound r (bindP p_number (\<lambda>v. retP (g v))) ?q"
    for f and g :: "f64 \<Rightarrow> expr"
    using q by (auto intro!: sound_steps)
  have b: "bump p = (tok_kind (here p), ?q)" by (simp add: bump_def)
  show ?thesis unfolding sound_def p_comparison_def
    by (subst b, cases "tok_kind (here p)")
      (auto simp: ql_err_def span_of_def here_in w simp del: split_paired_Ex
        intro!: s [simplified] v [simplified] n [simplified])
qed

lemma sound_inside [sound_intros]:
  "wf_parser p \<Longrightarrow> remaining p \<le> r \<Longrightarrow> sound r (p_inside key) p"
  unfolding p_inside_def by (auto intro!: sound_steps)

lemma sound_key_rest [sound_intros]:
  "wf_parser p \<Longrightarrow> remaining p \<le> r \<Longrightarrow> r \<le> n \<Longrightarrow> sound r (p_key_rest n key) p"
  unfolding p_key_rest_def by (auto intro!: sound_steps sound_intros)


section \<open>The expression methods have enough fuel\<close>

lemma sound_expr_all:
  "wf_parser p \<Longrightarrow> 6 * remaining p + 4 \<le> n \<Longrightarrow> sound (remaining p - 1) (p_expr n) p"
  "wf_parser p \<Longrightarrow> 6 * remaining p + 1 \<le> n \<Longrightarrow> sound (remaining p) (p_or_loop n lhs) p"
  "wf_parser p \<Longrightarrow> 6 * remaining p + 3 \<le> n \<Longrightarrow> sound (remaining p - 1) (p_and n) p"
  "wf_parser p \<Longrightarrow> 6 * remaining p + 1 \<le> n \<Longrightarrow> sound (remaining p) (p_and_loop n lhs) p"
  "wf_parser p \<Longrightarrow> 6 * remaining p + 2 \<le> n \<Longrightarrow> sound (remaining p - 1) (p_unary n) p"
  "wf_parser p \<Longrightarrow> 6 * remaining p + 1 \<le> n \<Longrightarrow> sound (remaining p - 1) (p_primary n) p"
proof (induction n arbitrary: p lhs)
  case 0
  { case 1 then show ?case by simp }
  { case 2 then show ?case by simp }
  { case 3 then show ?case by simp }
  { case 4 then show ?case by simp }
  { case 5 then show ?case by simp }
  { case 6 then show ?case by simp }
next
  case (Suc n)
  note [intro] = sound_le [OF Suc.IH(1)] sound_le [OF Suc.IH(2)] sound_le [OF Suc.IH(3)]
    sound_le [OF Suc.IH(4)] sound_le [OF Suc.IH(5)] sound_le [OF Suc.IH(6)]
  { case 1
    then have "sound (remaining p - 1) (bindP (p_and n) (\<lambda>lhs. p_or_loop n lhs)) p"
      by (intro sound_bind [OF Suc.IH(3)]) auto
    then show ?case by (simp add: sound_def) }
  { case 2
    then have "sound (remaining p)
        (if_eat TOr (bindP (p_and n) (\<lambda>rhs. p_or_loop n (EOr lhs rhs))) (retP lhs)) p"
      by (intro sound_if_eat sound_bind [OF Suc.IH(3)] sound_intros) auto
    then show ?case by (simp add: sound_def) }
  { case 3
    then have "sound (remaining p - 1) (bindP (p_unary n) (\<lambda>lhs. p_and_loop n lhs)) p"
      by (intro sound_bind [OF Suc.IH(5)]) auto
    then show ?case by (simp add: sound_def) }
  { case 4
    then have "sound (remaining p)
        (if_eat TAnd (bindP (p_unary n) (\<lambda>rhs. p_and_loop n (EAnd lhs rhs))) (retP lhs)) p"
      by (intro sound_if_eat sound_bind [OF Suc.IH(5)] sound_intros) auto
    then show ?case by (simp add: sound_def) }
  { case 5
    then have "sound (remaining p - 1)
        (if_eat TNot (bindP (p_unary n) (\<lambda>e. retP (ENot e))) (p_primary n)) p"
      by (intro sound_if_eat sound_bind [OF Suc.IH(5)] sound_intros) auto
    then show ?case by (simp add: sound_def) }
  { case 6
    have "sound (remaining p - 1)
        (if_eat TLParen (bindP (p_expr n) (\<lambda>e. bindP (expect TRParen) (\<lambda>_. retP e)))
         (if_eat TExists
           (bindP (expect TLParen) (\<lambda>_. bindP p_ident (\<lambda>key. bindP (expect TRParen) (\<lambda>_.
              retP (EExists key)))))
           (bindP p_ident (\<lambda>key. p_key_rest n key)))) p"
    proof (intro sound_if_eat)
      fix p' assume "wf_parser p'" "remaining p' < remaining p"
      with 6 show "sound (remaining p - 1) (bindP (p_expr n) (\<lambda>e. bindP (expect TRParen) (\<lambda>_. retP e))) p'"
        by (intro sound_bind [OF Suc.IH(1)]) (auto intro!: sound_steps)
      from \<open>wf_parser p'\<close> \<open>remaining p' < remaining p\<close>
      show "sound (remaining p - 1)
           (bindP (expect TLParen) (\<lambda>_. bindP p_ident (\<lambda>key. bindP (expect TRParen) (\<lambda>_.
              retP (EExists key))))) p'"
        by (auto intro!: sound_steps)
    next
      from 6 show "sound (remaining p - 1) (bindP p_ident (\<lambda>key. p_key_rest n key)) p"
        by (intro sound_bind [OF sound_items(1) [OF _ order_refl]]) (auto intro!: sound_key_rest)
    qed (use 6 in auto)
    then show ?case by (simp add: sound_def) }
qed

lemma sound_expr [sound_intros]:
  "wf_parser p \<Longrightarrow> 6 * remaining p + 4 \<le> n \<Longrightarrow> remaining p \<le> r \<Longrightarrow> sound r (p_expr n) p"
  by (rule sound_le [OF sound_expr_all(1)]) auto


section \<open>Statements\<close>

text \<open>The optional clauses: \<open>if self.eat(k) { Some(m) } else { None }\<close>.\<close>

lemma sound_clause [sound_intros]:
  assumes "wf_parser p" "remaining p \<le> r" "k \<noteq> TEof"
    and "\<And>p'. wf_parser p' \<Longrightarrow> remaining p' \<le> r \<Longrightarrow> sound r m p'"
  shows "sound r (if_eat k (bindP m (\<lambda>x. retP (Some x))) (retP None)) p"
  using assms
  by (auto intro!: sound_if_eat_le sound_ret sound_bind [where r = r])

lemma sound_select [sound_intros]:
  "wf_parser p \<Longrightarrow> remaining p \<le> r \<Longrightarrow> 6 * r + 4 \<le> n \<Longrightarrow> sound r (p_select n) p"
  unfolding p_select_def
  by (intro sound_bind_le sound_clause sound_intros; simp)

lemma sound_field_type [sound_intros]:
  assumes w: "wf_parser p" and r: "remaining p \<le> r"
  shows "sound r p_field_type p"
proof -
  have "sound r (bindP p_ident (\<lambda>name. case field_type_parse name of Some ty \<Rightarrow> retP ty
       | None \<Rightarrow> (\<lambda>_. Inl (ql_err (MUnknownType name) (span_of p))))) p"
    by (rule sound_bind [OF sound_items(1) [OF w order_refl]])
      (use w r in \<open>auto simp: sound_def ql_err_def span_of_def retP_def here_in split: option.splits\<close>)
  then show ?thesis by (simp add: sound_def p_field_type_def)
qed

lemma sound_define [sound_intros]: "wf_parser p \<Longrightarrow> remaining p \<le> r \<Longrightarrow> sound r p_define p"
  unfolding p_define_def by (auto intro!: sound_steps sound_field_type)

lemma sound_remove [sound_intros]: "wf_parser p \<Longrightarrow> remaining p \<le> r \<Longrightarrow> sound r p_remove p"
  unfolding p_remove_def by (auto intro!: sound_steps)

lemma sound_relate [sound_intros]: "wf_parser p \<Longrightarrow> remaining p \<le> r \<Longrightarrow> sound r p_relate p"
  unfolding p_relate_def by (auto intro!: sound_steps)

lemma sound_update [sound_intros]:
  "wf_parser p \<Longrightarrow> remaining p \<le> r \<Longrightarrow> 6 * r + 4 \<le> n \<Longrightarrow> sound r (p_update n) p"
  unfolding p_update_def by (auto intro!: sound_steps sound_pair_sep)

lemma sound_delete [sound_intros]:
  "wf_parser p \<Longrightarrow> remaining p \<le> r \<Longrightarrow> 6 * r + 4 \<le> n \<Longrightarrow> sound r (p_delete n) p"
  unfolding p_delete_def by (auto intro!: sound_steps split: if_splits)

lemma sound_verbs [sound_intros]:
  "wf_parser p \<Longrightarrow> remaining p \<le> r \<Longrightarrow> sound r p_verbs p"
proof -
  assume a: "wf_parser p" "remaining p \<le> r"
  then have "sound r (bindP p_ident (\<lambda>v. if_eat TArrowOut (retP [v]) (if_eat TArrowIn (retP [v])
              (if_eat TArrowBoth (retP [v]) (retP [v]))))) p"
    by (auto intro!: sound_steps)
  with a show ?thesis by (auto simp: sound_def p_verbs_def retP_def split: option.splits)
qed

lemma sound_traverse [sound_intros]:
  "wf_parser p \<Longrightarrow> remaining p \<le> r \<Longrightarrow> 6 * r + 4 \<le> n \<Longrightarrow> sound r (p_traverse n) p"
  unfolding p_traverse_def by (intro sound_bind_le sound_clause sound_intros; simp)

lemma sound_live [sound_intros]: "wf_parser p \<Longrightarrow> remaining p \<le> r \<Longrightarrow> sound r p_live p"
  unfolding p_live_def by (intro sound_bind_le sound_clause sound_intros; simp)

lemma sound_statement:
  "wf_parser p \<Longrightarrow> remaining p \<le> r \<Longrightarrow> 6 * r + 4 \<le> n \<Longrightarrow> sound r (p_statement n) p"
  unfolding p_statement_def by (intro sound_if_eat_le sound_bind_le sound_intros; simp)

lemma parse_tokens_sound:
  assumes "ts \<noteq> []" "tok_kind (last ts) = TEof"
  shows "(\<exists>x. parse_tokens ts = Inl (QlErr x) \<and> ql_span x \<in> tok_span ` set ts) \<or>
         (\<exists>s. parse_tokens ts = Inr s)"
proof -
  let ?p = "\<lparr>tokens = ts, pos = 0\<rparr>"
  have "sound (length ts) (p_statement (parse_fuel ts)) ?p"
    by (rule sound_statement) (use assms in \<open>simp_all add: wf_parser_def remaining_def parse_fuel_def\<close>)
  then show ?thesis
    by (auto simp: sound_def parse_tokens_def expect_eof_def ql_err_def span_of_def
        split: sum.splits intro!: imageI here_in)
qed

end
