(* ===== verification/ParserRoundTrip.thy ===== *)
theory ParserRoundTrip
  imports ParserProps
begin

text \<open>
  The parser inverts a printer of statements.  The printer parenthesises by precedence:
  level 0 is an operand of nothing, level 1 of \<open>AND\<close>, level 2 of \<open>NOT\<close> or the right of
  \<open>AND\<close>.  Comma loops share one contract, the locale \<open>token_item\<close>.
\<close>

section \<open>Comma-separated items\<close>

fun comma_sep :: "('a \<Rightarrow> token_kind list) \<Rightarrow> 'a list \<Rightarrow> token_kind list" where
  "comma_sep f [] = []"
| "comma_sep f [a] = f a"
| "comma_sep f (a # b # r) = f a @ TComma # comma_sep f (b # r)"

text \<open>\<open>yields m p a k\<close>: the method returns \<open>a\<close> after \<open>k\<close> tokens, unless its fuel is out.\<close>

definition yields :: "'a pm \<Rightarrow> parser \<Rightarrow> 'a \<Rightarrow> nat \<Rightarrow> bool" where
  "yields m p a k \<longleftrightarrow> m p = Inl QlFuel \<or> m p = Inr (a, skip k p)"

lemma yields_bind:
  "yields m p a k \<Longrightarrow> yields (f a) (skip k p) b l \<Longrightarrow> yields (bindP m f) p b (k + l)"
  by (auto simp: yields_def run_simps)

locale token_item =
  fixes item :: "'a pm" and itoks :: "'a \<Rightarrow> token_kind list"
  assumes item_run: "\<And>p a ks. rest p = itoks a @ ks \<Longrightarrow> ks \<noteq> [] \<Longrightarrow>
      item p = Inr (a, skip (length (itoks a)) p)"
begin

lemma list_run:
  "as \<noteq> [] \<Longrightarrow> rest p = comma_sep itoks as @ TRParen # ks \<Longrightarrow> ks \<noteq> [] \<Longrightarrow>
   yields (p_list item n acc) p (acc @ as) (length (comma_sep itoks as) + 1)"
proof (induction as arbitrary: n acc p rule: induct_list012)
  case (2 a)
  then show ?case using item_run [of p a]
    by (cases n) (simp_all add: yields_def run_simps)
next
  case (3 a b r)
  show ?case
  proof (cases n)
    case 0
    then show ?thesis by (simp add: yields_def)
  next
    case (Suc m)
    have i: "item p = Inr (a, skip (length (itoks a)) p)"
      using "3.prems" by (intro item_run [of p a "TComma # comma_sep itoks (b # r) @ TRParen # ks"]) simp_all
    show ?thesis
      using "3.IH"(2) [of "skip (Suc (length (itoks a))) p" m "acc @ [a]"] "3.prems" Suc
      by (simp add: yields_def i run_simps)
  qed
qed simp

lemma sep_run:
  "as \<noteq> [] \<Longrightarrow> rest p = comma_sep itoks as @ ks \<Longrightarrow> ks \<noteq> [] \<Longrightarrow> hd ks \<noteq> TComma \<Longrightarrow>
   yields (p_sep item n acc) p (acc @ as) (length (comma_sep itoks as))"
proof (induction as arbitrary: n acc p rule: induct_list012)
  case (2 a)
  then show ?case using item_run [of p a]
    by (cases n) (simp_all add: yields_def run_simps)
next
  case (3 a b r)
  show ?case
  proof (cases n)
    case 0
    then show ?thesis by (simp add: yields_def)
  next
    case (Suc m)
    have i: "item p = Inr (a, skip (length (itoks a)) p)"
      using "3.prems" by (intro item_run [of p a "TComma # comma_sep itoks (b # r) @ ks"]) simp_all
    show ?thesis
      using "3.IH"(2) [of "skip (Suc (length (itoks a))) p" m "acc @ [a]"] "3.prems" Suc
      by (simp add: yields_def i run_simps)
  qed
qed simp

end

fun value_tok :: "ql_value \<Rightarrow> token_kind" where
  "value_tok (VStr s) = TStr s"
| "value_tok (VNum n) = TNum n"
| "value_tok (VBool b) = TBool b"
| "value_tok VNull = TNull"

fun op_tok :: "cmp_op \<Rightarrow> token_kind" where
  "op_tok CGt = TGt" | "op_tok CGte = TGte" | "op_tok CLt = TLt" | "op_tok CLte = TLte"

definition pair_toks :: "bytes \<times> ql_value \<Rightarrow> token_kind list" where
  "pair_toks kv = [TIdent (fst kv), TEq, value_tok (snd kv)]"

lemma pick_value_tok [simp]: "pick_value (value_tok v) = Some v"
  by (cases v) (simp_all add: pick_value_def)

interpretation value_items: token_item p_value "\<lambda>v. [value_tok v]"
  by unfold_locales (simp add: p_value_def take_token_run)

interpretation idents: token_item p_ident "\<lambda>s. [TIdent s]"
  by unfold_locales (simp add: run_simps)

interpretation record_ids: token_item p_record_id "\<lambda>s. [TStr s]"
  by unfold_locales (simp add: run_simps)

interpretation pairs: token_item p_pair pair_toks
proof
  fix p kv ks assume r: "rest p = pair_toks kv @ ks" "ks \<noteq> ([] :: token_kind list)"
  have "p_value (skip 2 p) = Inr (snd kv, skip 3 p)"
    using r value_items.item_run [of "skip 2 p" "snd kv" ks] by (simp add: pair_toks_def run_simps)
  with r show "p_pair p = Inr (kv, skip (length (pair_toks kv)) p)"
    by (simp add: p_pair_def pair_toks_def run_simps numeral_2_eq_2 numeral_3_eq_3 del: p_value_def)
qed


section \<open>The printer of expressions\<close>

fun expr_toks :: "nat \<Rightarrow> expr \<Rightarrow> token_kind list" where
  "expr_toks l (EEq k v) = [TIdent k, TEq, value_tok v]"
| "expr_toks l (ENeq k v) = [TIdent k, TNeq, value_tok v]"
| "expr_toks l (EIn k vs) = TIdent k # TIn # TLParen # comma_sep (\<lambda>v. [value_tok v]) vs @ [TRParen]"
| "expr_toks l (ECmp k c n) = [TIdent k, op_tok c, TNum n]"
| "expr_toks l (EExists k) = [TExists, TLParen, TIdent k, TRParen]"
| "expr_toks l (EGeoRadius k a b r) =
     [TIdent k, TInside, TRadius, TLParen, TNum a, TComma, TNum b, TComma, TNum r, TRParen]"
| "expr_toks l (EGeoBox k a b c d) =
     [TIdent k, TInside, TBoxKw, TLParen, TNum a, TComma, TNum b, TComma, TNum c, TComma, TNum d, TRParen]"
| "expr_toks l (EAnd a b) =
     (if 1 < l then [TLParen] else []) @ expr_toks 1 a @ TAnd # expr_toks 2 b @ (if 1 < l then [TRParen] else [])"
| "expr_toks l (EOr a b) =
     (if 0 < l then [TLParen] else []) @ expr_toks 0 a @ TOr # expr_toks 1 b @ (if 0 < l then [TRParen] else [])"
| "expr_toks l (ENot e) = TNot # expr_toks 2 e"

lemma expr_toks_ne [simp]: "expr_toks l e \<noteq> []"
  by (cases e) auto

text \<open>
  What each level of the grammar does on the tokens of \<open>e\<close>: \<open>unary\<close> returns it, and
  \<open>and_expr\<close> and \<open>expr\<close> reach their loops with \<open>e\<close> as the left operand.
\<close>

definition unary_reads :: "expr \<Rightarrow> bool" where
  "unary_reads e \<longleftrightarrow> (\<forall>n p ks. rest p = expr_toks 2 e @ ks \<longrightarrow> ks \<noteq> [] \<longrightarrow>
     yields (p_unary n) p e (length (expr_toks 2 e)))"

definition and_reads :: "expr \<Rightarrow> bool" where
  "and_reads e \<longleftrightarrow> (\<forall>n p ks. rest p = expr_toks 1 e @ ks \<longrightarrow> ks \<noteq> [] \<longrightarrow>
     p_and n p = Inl QlFuel \<or>
     (\<exists>m. p_and n p = p_and_loop m e (skip (length (expr_toks 1 e)) p)))"

definition or_reads :: "expr \<Rightarrow> bool" where
  "or_reads e \<longleftrightarrow> (\<forall>n p ks. rest p = expr_toks 0 e @ ks \<longrightarrow> ks \<noteq> [] \<longrightarrow> hd ks \<noteq> TAnd \<longrightarrow>
     p_expr n p = Inl QlFuel \<or>
     (\<exists>m. p_expr n p = p_or_loop m e (skip (length (expr_toks 0 e)) p)))"

lemma and_loop_stops:
  "rest p \<noteq> [] \<Longrightarrow> hd (rest p) \<noteq> TAnd \<Longrightarrow> p_and_loop m e p = Inl QlFuel \<or> p_and_loop m e p = Inr (e, p)"
  by (cases m) (simp_all add: run_simps)

lemma or_loop_stops:
  "rest p \<noteq> [] \<Longrightarrow> hd (rest p) \<noteq> TOr \<Longrightarrow> p_or_loop m e p = Inl QlFuel \<or> p_or_loop m e p = Inr (e, p)"
  by (cases m) (simp_all add: run_simps)

lemma and_reads_whole:
  assumes "and_reads e" "rest p = expr_toks 1 e @ ks" "ks \<noteq> []" "hd ks \<noteq> TAnd"
  shows "yields (p_and n) p e (length (expr_toks 1 e))"
proof -
  have "rest (skip (length (expr_toks 1 e)) p) = ks" using assms(2) by (simp add: run_simps)
  with and_loop_stops [of "skip (length (expr_toks 1 e)) p" _ e] assms
  show ?thesis unfolding and_reads_def yields_def by metis
qed

lemma or_reads_whole:
  assumes "or_reads e" "rest p = expr_toks 0 e @ ks" "ks \<noteq> []" "hd ks \<noteq> TAnd" "hd ks \<noteq> TOr"
  shows "yields (p_expr n) p e (length (expr_toks 0 e))"
proof -
  have "rest (skip (length (expr_toks 0 e)) p) = ks" using assms(2) by (simp add: run_simps)
  with or_loop_stops [of "skip (length (expr_toks 0 e)) p" _ e] assms
  show ?thesis unfolding or_reads_def yields_def by metis
qed

lemma and_reads_unary:
  assumes "unary_reads e" "expr_toks 1 e = expr_toks 2 e"
  shows "and_reads e"
  unfolding and_reads_def
proof (intro allI impI)
  fix n p ks assume r: "rest p = expr_toks 1 e @ ks" "ks \<noteq> ([] :: token_kind list)"
  show "p_and n p = Inl QlFuel \<or> (\<exists>m. p_and n p = p_and_loop m e (skip (length (expr_toks 1 e)) p))"
  proof (cases n)
    case (Suc m)
    have "yields (p_unary m) p e (length (expr_toks 2 e))"
      using assms r by (simp add: unary_reads_def)
    then show ?thesis using Suc assms(2) by (auto simp: yields_def bindP_def)
  qed simp
qed

lemma or_reads_and:
  assumes "and_reads e" "expr_toks 0 e = expr_toks 1 e"
  shows "or_reads e"
  unfolding or_reads_def
proof (intro allI impI)
  fix n p ks assume r: "rest p = expr_toks 0 e @ ks" "ks \<noteq> ([] :: token_kind list)" "hd ks \<noteq> TAnd"
  show "p_expr n p = Inl QlFuel \<or> (\<exists>m. p_expr n p = p_or_loop m e (skip (length (expr_toks 0 e)) p))"
  proof (cases n)
    case (Suc m)
    have "yields (p_and m) p e (length (expr_toks 1 e))"
      using assms r by (intro and_reads_whole [of e p ks]) simp_all
    then show ?thesis using Suc assms(2) by (auto simp: yields_def bindP_def)
  qed simp
qed

text \<open>An expression in parentheses is a primary.\<close>

lemma unary_reads_paren:
  assumes "or_reads e" "expr_toks 2 e = TLParen # expr_toks 0 e @ [TRParen]"
  shows "unary_reads e"
  unfolding unary_reads_def
proof (intro allI impI)
  fix n p ks assume r: "rest p = expr_toks 2 e @ ks" "ks \<noteq> ([] :: token_kind list)"
  show "yields (p_unary n) p e (length (expr_toks 2 e))"
  proof (cases n)
    case (Suc m)
    show ?thesis
    proof (cases m)
      case 0
      with Suc r assms(2) show ?thesis by (simp add: yields_def run_simps)
    next
      case (Suc l)
      have "yields (p_expr l) (skip 1 p) e (length (expr_toks 0 e))"
        using r assms by (intro or_reads_whole [of e _ "TRParen # ks"]) (simp_all add: run_simps)
      with \<open>n = Suc m\<close> Suc r assms(2) show ?thesis
        by (auto simp: yields_def run_simps)
    qed
  qed (simp add: yields_def)
qed


text \<open>An expression that starts with a key, and the other atoms.\<close>

lemma unary_reads_key:
  assumes toks: "expr_toks 2 e = TIdent k # ts" and ne: "ts \<noteq> []"
    and rest: "\<And>n p ks. rest p = ts @ ks \<Longrightarrow> ks \<noteq> [] \<Longrightarrow> yields (p_key_rest n k) p e (length ts)"
  shows "unary_reads e"
  unfolding unary_reads_def
proof (intro allI impI)
  fix n p ks assume r: "rest p = expr_toks 2 e @ ks" "ks \<noteq> ([] :: token_kind list)"
  show "yields (p_unary n) p e (length (expr_toks 2 e))"
  proof (cases n)
    case (Suc m)
    show ?thesis
    proof (cases m)
      case 0
      with Suc r toks show ?thesis by (simp add: yields_def run_simps)
    next
      case (Suc l)
      have "yields (p_key_rest l k) (skip 1 p) e (length ts)"
        using r toks by (intro rest [of _ ks]) (simp_all add: run_simps)
      with \<open>n = Suc m\<close> Suc r toks ne show ?thesis
        by (auto simp: yields_def run_simps)
    qed
  qed (simp add: yields_def)
qed

lemma value_run:
  "rest p = value_tok v # ks \<Longrightarrow> ks \<noteq> [] \<Longrightarrow> p_value p = Inr (v, skip 1 p)"
  using value_items.item_run [of p v ks] by simp

lemmas key_run = p_key_rest_def p_comparison_def p_inside_def run_simps

lemma atoms_read:
  "unary_reads (EEq k v)" "unary_reads (ENeq k v)" "unary_reads (ECmp k c n)"
  "unary_reads (EGeoRadius k x y z)" "unary_reads (EGeoBox k x y z w)"
proof -
  show "unary_reads (EEq k v)" "unary_reads (ENeq k v)"
    by (rule unary_reads_key, simp, simp,
        simp add: yields_def key_run value_run del: p_value_def)+
  show "unary_reads (ECmp k c n)"
    by (rule unary_reads_key, simp, simp, cases c) (simp_all add: yields_def key_run)
  show "unary_reads (EGeoRadius k x y z)" "unary_reads (EGeoBox k x y z w)"
    by (rule unary_reads_key, simp, simp, simp add: yields_def key_run)+
qed

lemma in_reads: "unary_reads (EIn k vs)"
proof (rule unary_reads_key)
  let ?ts = "TIn # TLParen # comma_sep (\<lambda>v. [value_tok v]) vs @ [TRParen]"
  fix n p ks assume r: "rest p = ?ts @ ks" "ks \<noteq> ([] :: token_kind list)"
  show "yields (p_key_rest n k) p (EIn k vs) (length ?ts)"
  proof (cases vs)
    case Nil
    with r show ?thesis by (simp add: yields_def key_run)
  next
    case (Cons v us)
    have l: "yields (p_list p_value n []) (skip 2 p) vs (length (comma_sep (\<lambda>v. [value_tok v]) vs) + 1)"
      using r Cons value_items.list_run [of vs "skip 2 p" ks n "[]"] by (simp add: run_simps)
    have h: "hd (comma_sep (\<lambda>v. [value_tok v]) vs) \<noteq> TRParen"
      "comma_sep (\<lambda>v. [value_tok v]) vs \<noteq> []"
      using Cons by (cases us; cases v; simp)+
    with h r l show ?thesis
      by (auto simp: yields_def key_run numeral_2_eq_2 hd_append simp del: p_value_def)
  qed
qed simp_all

lemma exists_reads: "unary_reads (EExists k)"
  unfolding unary_reads_def
proof (intro allI impI)
  fix n p ks assume "rest p = expr_toks 2 (EExists k) @ ks" "ks \<noteq> ([] :: token_kind list)"
  then show "yields (p_unary n) p (EExists k) (length (expr_toks 2 (EExists k)))"
    by (cases n; cases "n - 1") (simp_all add: yields_def run_simps)
qed

lemma not_reads:
  assumes "unary_reads e"
  shows "unary_reads (ENot e)"
  unfolding unary_reads_def
proof (intro allI impI)
  fix n p ks assume r: "rest p = expr_toks 2 (ENot e) @ ks" "ks \<noteq> ([] :: token_kind list)"
  show "yields (p_unary n) p (ENot e) (length (expr_toks 2 (ENot e)))"
  proof (cases n)
    case (Suc m)
    have "yields (p_unary m) (skip 1 p) e (length (expr_toks 2 e))"
      using assms r by (simp add: unary_reads_def run_simps)
    with r Suc show ?thesis by (auto simp: yields_def run_simps)
  qed (simp add: yields_def)
qed

lemma and_reads_and:
  assumes "and_reads a" "unary_reads b"
  shows "and_reads (EAnd a b)"
  unfolding and_reads_def
proof (intro allI impI)
  fix n p ks assume r: "rest p = expr_toks 1 (EAnd a b) @ ks" "ks \<noteq> ([] :: token_kind list)"
  let ?l = "length (expr_toks 1 a)" and ?q = "skip (length (expr_toks 1 (EAnd a b))) p"
  have "p_and n p = Inl QlFuel \<or> (\<exists>m. p_and n p = p_and_loop m a (skip ?l p))"
    using assms(1) r unfolding and_reads_def by (elim allE [of _ n] allE [of _ p]) simp
  moreover have "p_and_loop m a (skip ?l p) = Inl QlFuel \<or>
      (\<exists>m'. p_and_loop m a (skip ?l p) = p_and_loop m' (EAnd a b) ?q)" for m
  proof (cases m)
    case (Suc l)
    have "yields (p_unary l) (skip (Suc ?l) p) b (length (expr_toks 2 b))"
      using assms(2) r by (simp add: unary_reads_def run_simps)
    with r Suc show ?thesis by (auto simp: yields_def run_simps)
  qed simp
  ultimately show "p_and n p = Inl QlFuel \<or> (\<exists>m. p_and n p = p_and_loop m (EAnd a b) ?q)"
    by metis
qed

lemma or_reads_or:
  assumes "or_reads a" "and_reads b"
  shows "or_reads (EOr a b)"
  unfolding or_reads_def
proof (intro allI impI)
  fix n p ks assume r: "rest p = expr_toks 0 (EOr a b) @ ks" "ks \<noteq> ([] :: token_kind list)" "hd ks \<noteq> TAnd"
  let ?l = "length (expr_toks 0 a)" and ?q = "skip (length (expr_toks 0 (EOr a b))) p"
  have "p_expr n p = Inl QlFuel \<or> (\<exists>m. p_expr n p = p_or_loop m a (skip ?l p))"
    using assms(1) r unfolding or_reads_def by (elim allE [of _ n] allE [of _ p]) simp
  moreover have "p_or_loop m a (skip ?l p) = Inl QlFuel \<or>
      (\<exists>m'. p_or_loop m a (skip ?l p) = p_or_loop m' (EOr a b) ?q)" for m
  proof (cases m)
    case (Suc l)
    have "yields (p_and l) (skip (Suc ?l) p) b (length (expr_toks 1 b))"
      using r by (intro and_reads_whole [OF assms(2), of _ ks]) (simp_all add: run_simps)
    with r Suc show ?thesis by (auto simp: yields_def run_simps)
  qed simp
  ultimately show "p_expr n p = Inl QlFuel \<or> (\<exists>m. p_expr n p = p_or_loop m (EOr a b) ?q)"
    by metis
qed

lemma expr_reads: "unary_reads e \<and> and_reads e \<and> or_reads e"
proof (induction e)
  case (EAnd a b)
  then have a: "and_reads (EAnd a b)" by (simp add: and_reads_and)
  then have r: "or_reads (EAnd a b)" by (rule or_reads_and) simp
  then have "unary_reads (EAnd a b)" by (rule unary_reads_paren) simp
  with a r show ?case by simp
next
  case (EOr a b)
  then have r: "or_reads (EOr a b)" by (simp add: or_reads_or)
  then have u: "unary_reads (EOr a b)" by (rule unary_reads_paren) simp
  then have "and_reads (EOr a b)" by (rule and_reads_unary) simp
  with r u show ?case by simp
qed (auto intro!: atoms_read in_reads exists_reads not_reads and_reads_unary or_reads_and)

lemma expr_run:
  "rest p = expr_toks 0 e @ ks \<Longrightarrow> ks \<noteq> [] \<Longrightarrow> hd ks \<noteq> TAnd \<Longrightarrow> hd ks \<noteq> TOr \<Longrightarrow>
   yields (p_expr n) p e (length (expr_toks 0 e))"
  using expr_reads [of e] by (intro or_reads_whole) auto


section \<open>The printer of statements\<close>

definition clause :: "token_kind \<Rightarrow> ('a \<Rightarrow> token_kind list) \<Rightarrow> 'a option \<Rightarrow> token_kind list" where
  "clause k f x = (case x of None \<Rightarrow> [] | Some a \<Rightarrow> k # f a)"

definition nat_toks :: "nat \<Rightarrow> token_kind list" where
  "nat_toks n = [TNum (f64_of_nat n)]"

fun arrow_tok :: "direction \<Rightarrow> token_kind" where
  "arrow_tok DirOut = TArrowOut" | "arrow_tok DirIn = TArrowIn" | "arrow_tok DirBoth = TArrowBoth"

fun define_toks :: "define_stmt \<Rightarrow> token_kind list" where
  "define_toks (DIndex f) = [TIndex, TOn, TIdent f]"
| "define_toks (DAlias a c) = [TAlias, TIdent a, TFor, TIdent c]"
| "define_toks (DField f c ty) =
     [TField, TIdent f, TOn, TIdent c, TType, TIdent (field_type_as_str ty)]"

fun remove_toks :: "remove_stmt \<Rightarrow> token_kind list" where
  "remove_toks (RmAlias a) = [TAlias, TIdent a]"
| "remove_toks (RmCollection c) = [TCollection, TIdent c]"
| "remove_toks (RmField f c) = [TField, TIdent f, TOn, TIdent c]"

fun stmt_toks :: "statement \<Rightarrow> token_kind list" where
  "stmt_toks (SSelect s) =
     TSelect # TStar # clause TFrom (\<lambda>c. [TIdent c]) (sel_from s) @
       clause TWhere (expr_toks 0) (sel_where s) @ clause TLimit nat_toks (sel_limit s)"
| "stmt_toks (SDefine d) = TDefine # define_toks d"
| "stmt_toks (SRemove r) = TRemove # remove_toks r"
| "stmt_toks (SUpdate u) =
     TUpdate # TStr (upd_id u) # (if upd_replace u then [TContent] else []) @
       TSet # comma_sep pair_toks (upd_set u)"
| "stmt_toks (SDelete d) =
     TDelete # (if del_payload_only d then [TPayload] else []) @ TStr (del_id d) #
       (if del_keys d = [] then [] else TLParen # comma_sep (\<lambda>s. [TIdent s]) (del_keys d) @ [TRParen])"
| "stmt_toks (SRelate r) =
     [TRelate, TStr (rel_from r), TArrowOut, TIdent (rel_verb r), TArrowOut, TStr (rel_to r)]"
| "stmt_toks (STraverse t) =
     TTraverse # comma_sep (\<lambda>s. [TStr s]) (trv_start t) @ arrow_tok (trv_dir t) #
       map TIdent (trv_verbs t) @
       clause TDepth nat_toks (trv_depth t) @ clause TLimit nat_toks (trv_limit t)"
| "stmt_toks (SLive l) = TLive # clause TSince nat_toks (live_since l)"
| "stmt_toks SInfo = [TInfo]"

text \<open>
  The statements the grammar can produce: an \<open>UPDATE\<close> sets something, keys belong to
  \<open>DELETE PAYLOAD\<close>, a traversal has a start and at most one verb, and a whole number is one
  that a float holds exactly.
\<close>

definition whole :: "nat option \<Rightarrow> bool" where
  "whole x \<longleftrightarrow> (case x of None \<Rightarrow> True | Some n \<Rightarrow> n \<le> 2 ^ 53)"

fun grammatical :: "statement \<Rightarrow> bool" where
  "grammatical (SSelect s) = whole (sel_limit s)"
| "grammatical (SUpdate u) = (upd_set u \<noteq> [])"
| "grammatical (SDelete d) = (del_keys d = [] \<or> del_payload_only d)"
| "grammatical (STraverse t) =
     (trv_start t \<noteq> [] \<and> length (trv_verbs t) \<le> 1 \<and> whole (trv_depth t) \<and> whole (trv_limit t))"
| "grammatical (SLive l) = whole (live_since l)"
| "grammatical _ = True"

lemma number_clause_run:
  assumes "rest p = clause k nat_toks x @ ks" "ks \<noteq> []" "hd ks \<noteq> k" "whole x"
  shows "if_eat k (bindP whole_number (\<lambda>n. retP (Some n))) (retP None) p
         = Inr (x, skip (length (clause k nat_toks x)) p)"
proof (cases x)
  case None
  with assms show ?thesis by (simp add: clause_def run_simps)
next
  case (Some n)
  then have r: "rest p = k # TNum (f64_of_nat n) # ks" and n: "n \<le> 2 ^ 53"
    using assms by (simp_all add: clause_def nat_toks_def whole_def)
  have "whole_number (skip 1 p) = Inr (n, skip 2 p)"
    using r assms(2) f64_of_nat_whole [OF n] by (simp add: whole_number_def run_simps numeral_2_eq_2)
  with r assms(2) Some show ?thesis by (simp add: clause_def nat_toks_def run_simps numeral_2_eq_2)
qed


lemma select_run:
  assumes r: "rest p = tl (stmt_toks (SSelect s)) @ [TEof]" and g: "grammatical (SSelect s)"
  shows "yields (p_select n) p s (length (tl (stmt_toks (SSelect s))))"
proof -
  let ?f = "clause TFrom (\<lambda>c. [TIdent c]) (sel_from s)"
  let ?w = "clause TWhere (expr_toks 0) (sel_where s)"
  let ?l = "clause TLimit nat_toks (sel_limit s)"
  let ?p1 = "skip 1 p" and ?p2 = "skip (1 + length ?f) p" and ?p3 = "skip (1 + length ?f + length ?w) p"
  have f: "if_eat TFrom (bindP p_ident (\<lambda>c. retP (Some c))) (retP None) ?p1
      = Inr (sel_from s, ?p2)"
    using r by (cases "sel_from s"; cases "sel_where s"; cases "sel_limit s")
      (simp_all add: clause_def nat_toks_def run_simps numeral_3_eq_3)
  have w: "yields (if_eat TWhere (bindP (p_expr n) (\<lambda>e. retP (Some e))) (retP None))
      ?p2 (sel_where s) (length ?w)"
  proof (cases "sel_where s")
    case None
    with r show ?thesis
      by (cases "sel_limit s") (simp_all add: clause_def nat_toks_def run_simps yields_def)
  next
    case (Some e)
    have "yields (p_expr n) (skip (2 + length ?f) p) e (length (expr_toks 0 e))"
      by (rule expr_run [where ks = "?l @ [TEof]"])
        (use r Some in \<open>cases "sel_limit s"; simp add: clause_def nat_toks_def run_simps\<close>)+
    with r Some show ?thesis
      by (auto simp: clause_def run_simps yields_def numeral_2_eq_2)
  qed
  have l: "if_eat TLimit (bindP whole_number (\<lambda>l. retP (Some l))) (retP None) ?p3
      = Inr (sel_limit s, skip (1 + length ?f + length ?w + length ?l) p)"
    using number_clause_run [of ?p3 TLimit "sel_limit s" "[TEof]"] r g by (simp add: run_simps)
  have e: "expect TStar p = Inr ((), ?p1)"
    using r by (simp add: run_simps)
  show ?thesis
    using w unfolding p_select_def yields_def
    by (elim disjE) (simp_all add: bindP_Inr bindP_Inl e f [simplified] l [simplified] retP_def skip_skip add.assoc)
qed

lemma define_run:
  assumes r: "rest p = define_toks d @ [TEof]"
  shows "p_define p = Inr (d, skip (length (define_toks d)) p)"
proof (cases d)
  case (DField f c ty)
  with r have "p_field_type (skip 5 p) = Inr (ty, skip 6 p)"
    by (simp add: p_field_type_def run_simps)
  with r DField show ?thesis by (simp add: p_define_def run_simps eval_nat_numeral)
qed (use r in \<open>simp_all add: p_define_def run_simps\<close>)

lemma remove_run:
  "rest p = remove_toks r @ [TEof] \<Longrightarrow> p_remove p = Inr (r, skip (length (remove_toks r)) p)"
  by (cases r) (simp_all add: p_remove_def run_simps)

lemma update_run:
  assumes r: "rest p = tl (stmt_toks (SUpdate u)) @ [TEof]" and g: "grammatical (SUpdate u)"
  shows "yields (p_update n) p u (length (tl (stmt_toks (SUpdate u))))"
proof -
  have "yields (p_sep p_pair n []) (skip (if upd_replace u then 3 else 2) p) (upd_set u)
      (length (comma_sep pair_toks (upd_set u)))"
    using r g pairs.sep_run [of "upd_set u" _ "[TEof]" n "[]"] by (simp add: run_simps)
  with r show ?thesis
    by (auto simp: p_update_def yields_def run_simps eval_nat_numeral split: if_splits)
qed

lemma delete_run:
  assumes r: "rest p = tl (stmt_toks (SDelete d)) @ [TEof]" and g: "grammatical (SDelete d)"
  shows "yields (p_delete n) p d (length (tl (stmt_toks (SDelete d))))"
proof (cases "del_keys d = []")
  case True
  with r show ?thesis by (auto simp: p_delete_def yields_def run_simps split: if_splits)
next
  case False
  have "yields (p_list p_ident n []) (skip 3 p) (del_keys d)
      (length (comma_sep (\<lambda>s. [TIdent s]) (del_keys d)) + 1)"
    using r g False idents.list_run [of "del_keys d" _ "[TEof]" n "[]"]
    by (simp add: run_simps eval_nat_numeral)
  with r g False show ?thesis
    by (auto simp: p_delete_def yields_def run_simps eval_nat_numeral split: if_splits)
qed


lemma relate_run:
  "rest p = tl (stmt_toks (SRelate s)) @ [TEof] \<Longrightarrow>
   p_relate p = Inr (s, skip (length (tl (stmt_toks (SRelate s)))) p)"
  by (simp add: p_relate_def run_simps)

lemma verbs_run:
  assumes "rest p = map TIdent vs @ ks" "length vs \<le> 1" "ks \<noteq> []"
    "pick_ident (hd ks) = None" "hd ks \<notin> {TArrowOut, TArrowIn, TArrowBoth}"
  shows "p_verbs p = Inr (vs, skip (length vs) p)"
proof (cases vs)
  case Nil
  with assms show ?thesis by (simp add: p_verbs_def run_simps)
next
  case (Cons v us)
  with assms have "us = []" by simp
  with Cons assms show ?thesis
    by (simp add: p_verbs_def peek_run if_eat_run take_token_run bindP_Inr retP_def p_ident_def
        pick_ident_def rest_skip)
qed

lemma traverse_run:
  assumes r: "rest p = tl (stmt_toks (STraverse t)) @ [TEof]" and g: "grammatical (STraverse t)"
  shows "yields (p_traverse n) p t (length (tl (stmt_toks (STraverse t))))"
proof -
  let ?s = "comma_sep (\<lambda>s. [TStr s]) (trv_start t)"
  let ?d = "clause TDepth nat_toks (trv_depth t)" and ?l = "clause TLimit nat_toks (trv_limit t)"
  let ?a = "length ?s" and ?v = "length (trv_verbs t)"
  have hd: "hd (?d @ ?l @ [TEof]) \<in> {TDepth, TLimit, TEof}" "hd (?l @ [TEof]) \<in> {TLimit, TEof}"
    by (auto simp: clause_def split: option.splits)
  have s: "yields (p_sep p_record_id n []) p (trv_start t) ?a"
    using record_ids.sep_run [of "trv_start t" p "arrow_tok (trv_dir t) # map TIdent (trv_verbs t) @ ?d @ ?l @ [TEof]" n "[]"] r g
    by (cases "trv_dir t") simp_all
  have a: "take_token pick_arrow MExpArrow (skip ?a p) = Inr (trv_dir t, skip (Suc ?a) p)"
    using r by (cases "trv_dir t") (simp_all add: take_token_run rest_skip pick_arrow_def skip_skip)
  have v: "p_verbs (skip (Suc ?a) p) = Inr (trv_verbs t, skip (Suc (?a + ?v)) p)"
    using verbs_run [of "skip (Suc ?a) p" "trv_verbs t" "?d @ ?l @ [TEof]"] r g hd(1)
    by (auto simp: run_simps)
  have d: "if_eat TDepth (bindP whole_number (\<lambda>l. retP (Some l))) (retP None) (skip (Suc (?a + ?v)) p)
      = Inr (trv_depth t, skip (Suc (?a + ?v + length ?d)) p)"
    using number_clause_run [of "skip (Suc (?a + ?v)) p" TDepth "trv_depth t" "?l @ [TEof]"] r g hd(2)
    by (auto simp: run_simps)
  have l: "if_eat TLimit (bindP whole_number (\<lambda>l. retP (Some l))) (retP None)
      (skip (Suc (?a + ?v + length ?d)) p)
      = Inr (trv_limit t, skip (Suc (?a + ?v + length ?d + length ?l)) p)"
    using number_clause_run [of "skip (Suc (?a + ?v + length ?d)) p" TLimit "trv_limit t" "[TEof]"] r g
    by (auto simp: run_simps)
  show ?thesis
    using s unfolding p_traverse_def yields_def
    by (elim disjE) (simp_all add: bindP_Inr bindP_Inl a v d [simplified add.assoc]
      l [simplified add.assoc] retP_def add.assoc)
qed

lemma live_run:
  assumes r: "rest p = tl (stmt_toks (SLive s)) @ [TEof]" and g: "grammatical (SLive s)"
  shows "p_live p = Inr (s, skip (length (tl (stmt_toks (SLive s)))) p)"
  using number_clause_run [of p TSince "live_since s" "[TEof]"] r g
  by (simp add: p_live_def bindP_Inr retP_def)

lemma statement_run:
  assumes r: "rest p = stmt_toks s @ [TEof]" and g: "grammatical s"
  shows "yields (p_statement n) p s (length (stmt_toks s))"
proof -
  have h: "rest p \<noteq> []" "hd (rest p) = hd (stmt_toks s)" "tl (rest p) \<noteq> []"
    "rest (skip 1 p) = tl (stmt_toks s) @ [TEof]"
    using r by (cases s; simp add: rest_skip)+
  show ?thesis
  proof (cases s)
    case (SSelect x)
    with select_run [of "skip 1 p" x n] g h show ?thesis
      by (auto simp: p_statement_def yields_def if_eat_run bindP_Inr bindP_Inl retP_def skip_skip)
  next
    case (SDefine x)
    with define_run [of "skip 1 p" x] g h show ?thesis
      by (auto simp: p_statement_def yields_def if_eat_run bindP_Inr bindP_Inl retP_def skip_skip)
  next
    case (SRemove x)
    with remove_run [of "skip 1 p" x] g h show ?thesis
      by (auto simp: p_statement_def yields_def if_eat_run bindP_Inr bindP_Inl retP_def skip_skip)
  next
    case (SUpdate x)
    with update_run [of "skip 1 p" x n] g h show ?thesis
      by (auto simp: p_statement_def yields_def if_eat_run bindP_Inr bindP_Inl retP_def skip_skip)
  next
    case (SDelete x)
    with delete_run [of "skip 1 p" x n] g h show ?thesis
      by (auto simp: p_statement_def yields_def if_eat_run bindP_Inr bindP_Inl retP_def skip_skip)
  next
    case (SRelate x)
    with relate_run [of "skip 1 p" x] g h show ?thesis
      by (auto simp: p_statement_def yields_def if_eat_run bindP_Inr bindP_Inl retP_def skip_skip)
  next
    case (STraverse x)
    with traverse_run [of "skip 1 p" x n] g h show ?thesis
      by (auto simp: p_statement_def yields_def if_eat_run bindP_Inr bindP_Inl retP_def skip_skip)
  next
    case (SLive x)
    with live_run [of "skip 1 p" x] g h show ?thesis
      by (auto simp: p_statement_def yields_def if_eat_run bindP_Inr bindP_Inl retP_def skip_skip)
  next
    case SInfo
    with h show ?thesis
      by (auto simp: p_statement_def yields_def if_eat_run bindP_Inr bindP_Inl retP_def skip_skip)
  qed
qed

section \<open>The parser's contract\<close>

text \<open>C28: on UTF-8 text the parser always returns a statement or an error (the fuel of the
  model is enough and no slice panics), and the error's caret rendering fails only for the
  lexer's report of a character of three or four bytes.\<close>

theorem parse_total:
  assumes "utf8_valid src"
  shows "parse src \<noteq> Inl QlPanic \<and> parse src \<noteq> Inl QlFuel \<and>
    (\<forall>e. parse src = Inl (QlErr e) \<and> caret (ql_span e) src = None \<longrightarrow>
       (\<exists>c. ql_message e = MLex (UnexpectedChar c) \<and> 224 \<le> byte_val c))"
proof (cases "lex src")
  case (Inl f)
  then obtain e where f: "f = LexErr e" using lex_safe [OF assms] by (cases f) auto
  from lex_safe [OF assms] Inl f obtain k where
    k: "k < length src" "is_char_boundary src k" and ok: "step_ok src k (StepErr e)" by auto
  have "caret (lex_span e) src = None \<Longrightarrow> \<exists>c. lex_message e = UnexpectedChar c \<and> 224 \<le> byte_val c"
    by (rule step_err_caret [THEN iffD1, OF assms k ok])
  with Inl f show ?thesis by (auto simp: parse_def ql_err_def)
next
  case (Inr ts)
  with lex_safe [OF assms] have ts: "spans_from src 0 ts" "ts \<noteq> []" "tok_kind (last ts) = TEof" by auto
  have "caret sp src \<noteq> None" if "sp \<in> tok_span ` set ts" for sp
  proof -
    from that spans_from_mem [OF ts(1)] have "span_ok src sp" by auto
    then show ?thesis using caret_total [OF assms, of sp] by (auto simp: span_ok_def min_def)
  qed
  then show ?thesis using parse_tokens_sound [OF ts(2,3)] Inr by (fastforce simp: parse_def)
qed

theorem parse_total_witness:
  "parse ''SELECT * WHERE'' \<noteq> Inl QlFuel \<and> parse ''SELECT * WHERE'' \<noteq> Inl QlPanic"
proof -
  have "utf8_valid ''SELECT * WHERE''" by code_simp
  then show ?thesis using parse_total by blast
qed

text \<open>C13: the parser inverts the printer: the tokens of a statement, whatever their spans,
  parse to that statement, with \<open>NOT\<close> binding tighter than \<open>AND\<close> and \<open>AND\<close> than \<open>OR\<close>, both
  associating to the left.\<close>

theorem parse_print:
  assumes "grammatical s" "map tok_kind ts = stmt_toks s @ [TEof]"
  shows "parse_tokens ts = Inr s"
proof -
  let ?p = "\<lparr>tokens = ts, pos = 0\<rparr>"
  have ne: "ts \<noteq> []" using assms(2) by auto
  have last: "tok_kind (last ts) = TEof"
    using assms(2) ne by (metis last_map last_snoc)
  have r: "rest ?p = stmt_toks s @ [TEof]" using assms(2) by (simp add: rest_def)
  have "parse_tokens ts \<noteq> Inl QlFuel" using parse_tokens_sound [OF ne last] by auto
  moreover have "yields (p_statement (parse_fuel ts)) ?p s (length (stmt_toks s))"
    by (rule statement_run [OF r assms(1)])
  moreover have "expect_eof (skip (length (stmt_toks s)) ?p) = Inr ()"
    using r by (simp add: expect_eof_def peek_run rest_skip)
  ultimately show ?thesis by (auto simp: parse_tokens_def yields_def)
qed

theorem parse_print_witness:
  "parse_tokens (map (\<lambda>k. mk_tok k 0 0)
     [TSelect, TStar, TWhere, TNot, TIdent ''a'', TEq, TNull, TAnd, TLParen, TExists, TLParen, TIdent ''b'',
      TRParen, TOr, TIdent ''c'', TGt, TNum f64_zero, TRParen, TEof])
   = Inr (SSelect \<lparr>sel_from = None,
        sel_where = Some (EAnd (ENot (EEq ''a'' VNull)) (EOr (EExists ''b'') (ECmp ''c'' CGt f64_zero))),
        sel_limit = None\<rparr>)"
  by (rule parse_print) (simp_all add: whole_def clause_def o_def)

end
