(* ===== verification/Json.thy ===== *)
theory Json
  imports Float64
begin

text \<open>
  \<open>serde_json\<close> values as the sources use them: a number is a non-negative integer, a negative
  integer or a float, and equality compares numbers of different representation as different
  (so \<open>2020\<close> and \<open>2020.0\<close> are not equal).  An object is the key-sorted field list of its
  \<open>BTreeMap\<close>, and so is a record's metadata.
\<close>

datatype number = PosInt "64 word" | NegInt "64 word" | Float f64

datatype json =
    JNull
  | JBool bool
  | JNum number
  | JStr bytes
  | JArr "json list"
  | JObj "(bytes \<times> json) list"

type_synonym metadata = "(bytes \<times> json) list"

fun number_eq :: "number \<Rightarrow> number \<Rightarrow> bool" where
  "number_eq (PosInt a) (PosInt b) = (a = b)"
| "number_eq (NegInt a) (NegInt b) = (a = b)"
| "number_eq (Float a) (Float b) = f64_eq a b"
| "number_eq _ _ = False"

text \<open>\<open>Value::eq\<close>: structural, with the equality of numbers above.\<close>

fun json_eq :: "json \<Rightarrow> json \<Rightarrow> bool"
  and jsons_eq :: "json list \<Rightarrow> json list \<Rightarrow> bool"
  and fields_eq :: "(bytes \<times> json) list \<Rightarrow> (bytes \<times> json) list \<Rightarrow> bool"
where
  "json_eq JNull w = (w = JNull)"
| "json_eq (JBool a) w = (w = JBool a)"
| "json_eq (JNum a) w = (case w of JNum b \<Rightarrow> number_eq a b | _ \<Rightarrow> False)"
| "json_eq (JStr a) w = (w = JStr a)"
| "json_eq (JArr a) w = (case w of JArr b \<Rightarrow> jsons_eq a b | _ \<Rightarrow> False)"
| "json_eq (JObj a) w = (case w of JObj b \<Rightarrow> fields_eq a b | _ \<Rightarrow> False)"
| "jsons_eq [] ys = (ys = [])"
| "jsons_eq (x # xs) ys = (case ys of [] \<Rightarrow> False | y # r \<Rightarrow> json_eq x y \<and> jsons_eq xs r)"
| "fields_eq [] ys = (ys = [])"
| "fields_eq ((k, x) # xs) ys =
     (case ys of [] \<Rightarrow> False | (k', y) # r \<Rightarrow> k = k' \<and> json_eq x y \<and> fields_eq xs r)"

definition as_f64 :: "json \<Rightarrow> f64 option" where
  "as_f64 v =
     (case v of
        JNum (PosInt a) \<Rightarrow> Some (f64_of_nat (unat a))
      | JNum (NegInt a) \<Rightarrow> Some (f64_of_int (sint a))
      | JNum (Float x) \<Rightarrow> Some x
      | _ \<Rightarrow> None)"

definition as_str :: "json \<Rightarrow> bytes option" where
  "as_str v = (case v of JStr s \<Rightarrow> Some s | _ \<Rightarrow> None)"

text \<open>\<open>value.get(key)\<close>: a field of an object.\<close>

definition json_get :: "bytes \<Rightarrow> json \<Rightarrow> json option" where
  "json_get k v = (case v of JObj fs \<Rightarrow> map_of fs k | _ \<Rightarrow> None)"

text \<open>\<open>Number::from_f64\<close> refuses infinities and NaNs, so every stored float is finite.\<close>

definition number_from_f64 :: "f64 \<Rightarrow> number option" where
  "number_from_f64 x = (if is_finite x then Some (Float x) else None)"

definition is_number :: "json \<Rightarrow> bool" where
  "is_number v = (case v of JNum _ \<Rightarrow> True | _ \<Rightarrow> False)"

text \<open>Equality is reflexive on values without NaN.\<close>

fun number_ok :: "number \<Rightarrow> bool" where
  "number_ok (Float x) = (\<not> is_nan x)"
| "number_ok _ = True"

fun json_ok :: "json \<Rightarrow> bool" where
  "json_ok (JNum n) = number_ok n"
| "json_ok (JArr vs) = list_all json_ok vs"
| "json_ok (JObj fs) = list_all (\<lambda>kv. json_ok (snd kv)) fs"
| "json_ok _ = True"

lemma number_eq_refl: "number_ok n \<Longrightarrow> number_eq n n"
  by (cases n) (simp_all add: f64_eq_def)

lemma jsons_eq_refl: "(\<And>v. v \<in> set vs \<Longrightarrow> json_eq v v) \<Longrightarrow> jsons_eq vs vs"
  by (induction vs) simp_all

lemma fields_eq_refl: "\<forall>kv \<in> set fs. json_eq (snd kv) (snd kv) \<Longrightarrow> fields_eq fs fs"
  by (induction fs) auto

lemma json_eq_refl: "json_ok v \<Longrightarrow> json_eq v v"
proof (induction v)
  case (JArr vs)
  then show ?case by (simp add: jsons_eq_refl list_all_iff)
next
  case (JObj fs)
  have "json_eq (snd kv) (snd kv)" if "kv \<in> set fs" for kv
    using JObj.IH [of kv "snd kv"] that JObj.prems by (auto simp: list_all_iff prod_set_defs)
  then show ?case by (simp add: fields_eq_refl)
qed (simp_all add: number_eq_refl)

lemma number_eq_sym: "number_eq a b = number_eq b a"
  by (cases a; cases b) (auto simp: f64_eq_def)

end
