(* ===== verification/Time.thy ===== *)
theory Time
  imports Float64
begin

text \<open>
  Timestamps and UUIDs, \<open>crates/rro-core/src/time.rs\<close>.  All arithmetic stays far inside
  \<open>i64\<close> (four-digit years), so numbers are integers here.  The calendar arithmetic is shown
  to count days: the epoch is day 0 and the day after a date has the next number.
\<close>

section \<open>Days from the civil date\<close>

text \<open>Rust's integer division truncates toward zero.\<close>

definition trunc_div :: "int \<Rightarrow> int \<Rightarrow> int" where
  "trunc_div x y = (if (x < 0) = (y < 0) then \<bar>x\<bar> div \<bar>y\<bar> else - (\<bar>x\<bar> div \<bar>y\<bar>))"

definition days_from_civil :: "int \<Rightarrow> int \<Rightarrow> int \<Rightarrow> int" where
  "days_from_civil y m d =
     (let y_adj = (if m \<le> 2 then y - 1 else y);
          era = trunc_div (if y_adj \<ge> 0 then y_adj else y_adj - 399) 400;
          yoe = y_adj - era * 400;
          mp = (m + 9) mod 12;
          doy = (153 * mp + 2) div 5 + d - 1;
          doe = yoe * 365 + yoe div 4 - yoe div 100 + doy
      in era * 146097 + doe - 719468)"

section \<open>RFC 3339\<close>

definition num_at :: "bytes \<Rightarrow> nat \<Rightarrow> nat \<Rightarrow> int option" where
  "num_at b i j =
     (if i < j \<and> j \<le> length b \<and> list_all is_ascii_digit (substr b i j)
      then Some (int (digits_val (substr b i j))) else None)"

definition sep_at :: "bytes \<Rightarrow> nat \<Rightarrow> byte \<Rightarrow> bool" where
  "sep_at b i c \<longleftrightarrow> i < length b \<and> b ! i = c"

text \<open>
  The optional fraction from index 19: the index after it and its milliseconds (the digits
  padded on the right to three, then cut to three).
\<close>

definition fraction_at :: "bytes \<Rightarrow> (nat \<times> int) option" where
  "fraction_at b =
     (if sep_at b 19 (CHR ''.'') then
        (let i = scan_while is_ascii_digit b 20 in
         if i = 20 then None
         else let frac = substr b 20 i;
                  padded = frac @ replicate (3 - length frac) (CHR ''0'')
              in Some (i, int (digits_val (take 3 padded))))
      else Some (19, 0))"

definition offset_at :: "bytes \<Rightarrow> nat \<Rightarrow> int option" where
  "offset_at b i =
     (if (sep_at b i (CHR ''Z'') \<or> sep_at b i (CHR ''z'')) \<and> i + 1 = length b then Some 0
      else if sep_at b i (CHR ''+'') \<or> sep_at b i (CHR ''-'') then
        (if length b \<noteq> i + 6 \<or> b ! (i + 3) \<noteq> CHR '':'' then None
         else case num_at b (i + 1) (i + 3) of None \<Rightarrow> None
           | Some oh \<Rightarrow> (case num_at b (i + 4) (i + 6) of None \<Rightarrow> None
             | Some om \<Rightarrow>
                 if oh > 23 \<or> om > 59 then None
                 else Some (if b ! i = CHR ''-'' then - (oh * 60 + om) else oh * 60 + om)))
      else None)"

definition rfc3339_to_epoch_ms :: "bytes \<Rightarrow> int option" where
  "rfc3339_to_epoch_ms b =
     (if length b < 20 then None
      else Option.bind (num_at b 0 4) (\<lambda>year.
        if \<not> sep_at b 4 (CHR ''-'') then None
        else Option.bind (num_at b 5 7) (\<lambda>month.
        if \<not> sep_at b 7 (CHR ''-'') then None
        else Option.bind (num_at b 8 10) (\<lambda>day.
        if \<not> (sep_at b 10 (CHR ''T'') \<or> sep_at b 10 (CHR ''t'') \<or> sep_at b 10 (CHR '' '')) then None
        else Option.bind (num_at b 11 13) (\<lambda>hour.
        if \<not> sep_at b 13 (CHR '':'') then None
        else Option.bind (num_at b 14 16) (\<lambda>minute.
        if \<not> sep_at b 16 (CHR '':'') then None
        else Option.bind (num_at b 17 19) (\<lambda>second.
        if \<not> (1 \<le> month \<and> month \<le> 12) \<or> \<not> (1 \<le> day \<and> day \<le> 31) \<or> hour > 23 \<or> minute > 59 \<or> second > 60
        then None
        else Option.bind (fraction_at b) (\<lambda>(i, millis).
        Option.bind (offset_at b i) (\<lambda>offset_min.
          Some ((days_from_civil year month day * 86400 + hour * 3600 + minute * 60 + second
                 - offset_min * 60) * 1000 + millis))))))))))"

section \<open>UUIDs\<close>

definition hex_val :: "byte \<Rightarrow> nat option" where
  "hex_val c =
     (if is_ascii_digit c then Some (byte_val c - 48)
      else if CHR ''a'' \<le> c \<and> c \<le> CHR ''f'' then Some (byte_val c - 97 + 10)
      else if CHR ''A'' \<le> c \<and> c \<le> CHR ''F'' then Some (byte_val c - 65 + 10)
      else None)"

text \<open>The nibble loop: \<open>hi\<close> is the pending high nibble.\<close>

fun uuid_loop :: "nat \<Rightarrow> bytes \<Rightarrow> nat option \<Rightarrow> bytes \<Rightarrow> bytes option" where
  "uuid_loop i [] hi out = Some out"
| "uuid_loop i (c # r) hi out =
     (if i = 8 \<or> i = 13 \<or> i = 18 \<or> i = 23 then uuid_loop (Suc i) r hi out
      else case hex_val c of None \<Rightarrow> None
        | Some nibble \<Rightarrow>
            (case hi of None \<Rightarrow> uuid_loop (Suc i) r (Some nibble) out
             | Some h \<Rightarrow> uuid_loop (Suc i) r None (out @ [char_of (h * 16 + nibble)])))"

definition parse_uuid_bytes :: "bytes \<Rightarrow> bytes option" where
  "parse_uuid_bytes b =
     (if length b \<noteq> 36 \<or> b ! 8 \<noteq> CHR ''-'' \<or> b ! 13 \<noteq> CHR ''-'' \<or> b ! 18 \<noteq> CHR ''-'' \<or>
         b ! 23 \<noteq> CHR ''-'' then None
      else uuid_loop 0 b None [])"

section \<open>Counting days\<close>

definition leap_year :: "int \<Rightarrow> bool" where
  "leap_year y \<longleftrightarrow> 4 dvd y \<and> (\<not> 100 dvd y \<or> 400 dvd y)"

definition month_days :: "int \<Rightarrow> int \<Rightarrow> int" where
  "month_days y m =
     (if m = 2 then (if leap_year y then 29 else 28) else if m \<in> {4, 6, 9, 11} then 30 else 31)"

definition valid_date :: "int \<times> int \<times> int \<Rightarrow> bool" where
  "valid_date = (\<lambda>(y, m, d). 0 \<le> y \<and> 1 \<le> m \<and> m \<le> 12 \<and> 1 \<le> d \<and> d \<le> month_days y m)"

definition next_date :: "int \<times> int \<times> int \<Rightarrow> int \<times> int \<times> int" where
  "next_date = (\<lambda>(y, m, d).
     if d < month_days y m then (y, m, d + 1)
     else if m < 12 then (y, m + 1, 1) else (y + 1, 1, 1))"

lemma trunc_div_400: "trunc_div (if y \<ge> 0 then y else y - 399) 400 = y div 400"
proof (cases "0 \<le> y")
  case True
  then show ?thesis by (cases "y = 0") (simp_all add: trunc_div_def)
next
  case False
  then have "trunc_div (y - 399) 400 = - ((399 - y) div 400)"
    by (simp add: trunc_div_def)
  also have "(399 - y) div 400 = - (y div 400)"
    by (rule int_div_pos_eq [where r = "399 - y mod 400"]) (simp_all add: minus_mod_eq_mult_div [symmetric])
  finally show ?thesis using False by simp
qed

text \<open>The days before March of a year, without eras.\<close>

definition march_days :: "int \<Rightarrow> int" where
  "march_days y = 365 * y + y div 4 - y div 100 + y div 400"

lemma days_from_civil_march:
  "days_from_civil y m d =
     march_days (if m \<le> 2 then y - 1 else y) + (153 * ((m + 9) mod 12) + 2) div 5 + d - 719469"
proof -
  have e: "(x - k * 400) div 4 = x div 4 - 100 * k" "(x - k * 400) div 100 = x div 100 - 4 * k"
    for x k :: int
    using div_mult_self1 [of 4 x "- (100 * k)"] div_mult_self1 [of 100 x "- (4 * k)"]
    by (simp_all add: algebra_simps)
  show ?thesis
    unfolding days_from_civil_def Let_def trunc_div_400 e march_days_def by simp
qed

lemma div_step: "0 < n \<Longrightarrow> y div n - (y - 1) div n = (if n dvd y then 1 else 0)" for y n :: int
proof (cases "n dvd y")
  case True
  assume n: "0 < n"
  from True obtain k where y: "y = n * k" by blast
  have "(y - 1) div n = k - 1"
    by (rule int_div_pos_eq [where r = "n - 1"]) (use n in \<open>simp_all add: y algebra_simps\<close>)
  with True n y show ?thesis by simp
next
  case False
  assume n: "0 < n"
  then have "0 \<le> y mod n" "y mod n < n" "y mod n \<noteq> 0" using False by (auto simp: dvd_eq_mod_eq_0)
  moreover have "(y - 1) div n = y div n"
    by (rule int_div_pos_eq [where r = "y mod n - 1"])
      (use calculation in \<open>simp_all add: minus_mod_eq_mult_div [symmetric]\<close>)
  ultimately show ?thesis using False by simp
qed

lemma march_days_step: "march_days y = march_days (y - 1) + (if leap_year y then 366 else 365)"
proof -
  let ?b = "\<lambda>n :: int. if n dvd y then 1 else 0 :: int"
  have "y div 4 - (y - 1) div 4 = ?b 4" "y div 100 - (y - 1) div 100 = ?b 100"
    "y div 400 - (y - 1) div 400 = ?b 400"
    using div_step by simp_all
  moreover have "march_days y = march_days (y - 1) + 365 + (y div 4 - (y - 1) div 4)
      - (y div 100 - (y - 1) div 100) + (y div 400 - (y - 1) div 400)"
    by (simp add: march_days_def)
  ultimately have "march_days y = march_days (y - 1) + 365 + ?b 4 - ?b 100 + ?b 400"
    by (simp only:)
  moreover have "100 dvd y \<Longrightarrow> 4 dvd y" "400 dvd y \<Longrightarrow> 100 dvd y"
    using dvd_trans [of 4 100 y] dvd_trans [of 100 400 y] by simp_all
  ultimately show ?thesis
    by (cases "4 dvd y"; cases "100 dvd y"; cases "400 dvd y") (simp_all only: leap_year_def if_True if_False simp_thms)
qed

text \<open>The day after a date has the next number; the epoch is day 0.\<close>

lemma days_next:
  assumes "valid_date (y, m, d)"
  shows "(case next_date (y, m, d) of (y', m', d') \<Rightarrow> days_from_civil y' m' d')
         = days_from_civil y m d + 1"
proof (cases "d < month_days y m")
  case True
  then show ?thesis by (simp add: next_date_def days_from_civil_march)
next
  case False
  have "1 \<le> m" "m \<le> 12" and d: "d = month_days y m"
    using assms False by (auto simp: valid_date_def)
  then have m: "m \<in> {1, 2, 3, 4, 5, 6, 7, 8, 9, 10, 11, 12}" unfolding insert_iff empty_iff by presburger
  show ?thesis using m march_days_step [of y]
    by (elim insertE emptyE) (simp_all add: next_date_def days_from_civil_march d month_days_def)
qed

text \<open>
  A calendar by counting: the days of the years between 1970 and the year, of the months before the
  month, and of the month before the day.
\<close>

definition year_days :: "int \<Rightarrow> int" where
  "year_days y = (if leap_year y then 366 else 365)"

definition years_from_1970 :: "int \<Rightarrow> int" where
  "years_from_1970 y = sum_list (map year_days [1970..y - 1]) - sum_list (map year_days [y..1969])"

definition elapsed_days :: "int \<Rightarrow> int \<Rightarrow> int \<Rightarrow> int" where
  "elapsed_days y m d = years_from_1970 y + sum_list (map (month_days y) [1..m - 1]) + (d - 1)"

lemma years_step: "years_from_1970 (y + 1) = years_from_1970 y + year_days y"
proof (cases "1970 \<le> y")
  case True
  then show ?thesis by (simp add: years_from_1970_def upto_rec2)
next
  case False
  then show ?thesis by (simp add: years_from_1970_def upto_rec1)
qed

lemma new_year: "days_from_civil y 1 1 = years_from_1970 y"
proof -
  have step: "days_from_civil (y + 1) 1 1 = days_from_civil y 1 1 + year_days y" for y
    using march_days_step [of y] by (simp add: days_from_civil_march year_days_def)
  have base: "days_from_civil 1970 1 1 = years_from_1970 1970"
    by (simp add: days_from_civil_march march_days_def years_from_1970_def)
  show ?thesis
  proof (cases "1970 \<le> y")
    case True
    then show ?thesis by (induction y rule: int_ge_induct) (simp_all add: base step years_step)
  next
    case False
    then have "y \<le> 1970" by simp
    then show ?thesis
    proof (induction y rule: int_le_induct)
      case (step i)
      then show ?case using \<open>\<And>y. days_from_civil (y + 1) 1 1 = days_from_civil y 1 1 + year_days y\<close> [of "i - 1"] years_step [of "i - 1"] by simp
    qed (rule base)
  qed
qed

lemma days_counted:
  assumes "1 \<le> m" "m \<le> 12"
  shows "days_from_civil y m d = elapsed_days y m d"
proof -
  have m: "m \<in> {1, 2, 3, 4, 5, 6, 7, 8, 9, 10, 11, 12}" using assms unfolding insert_iff empty_iff by presburger
  have "days_from_civil y m d = days_from_civil y 1 1 + sum_list (map (month_days y) [1..m - 1]) + (d - 1)"
    using m march_days_step [of y] by (elim insertE emptyE) (simp_all add: days_from_civil_march month_days_def upto.simps)
  then show ?thesis by (simp add: elapsed_days_def new_year)
qed


section \<open>Printing a timestamp\<close>

definition digit_char :: "nat \<Rightarrow> byte" where
  "digit_char n = char_of (48 + n mod 10)"

definition two_digits :: "nat \<Rightarrow> bytes" where
  "two_digits n = [digit_char (n div 10), digit_char n]"

definition three_digits :: "nat \<Rightarrow> bytes" where
  "three_digits n = digit_char (n div 100) # two_digits n"

definition four_digits :: "nat \<Rightarrow> bytes" where
  "four_digits n = digit_char (n div 1000) # three_digits n"

text \<open>A civil time and its offset from UTC, in the fields of the format.\<close>

record civil =
  cv_year :: nat
  cv_month :: nat
  cv_day :: nat
  cv_hour :: nat
  cv_minute :: nat
  cv_second :: nat
  cv_millis :: nat
  cv_west :: bool
  cv_off_hour :: nat
  cv_off_minute :: nat

definition print_rfc3339 :: "civil \<Rightarrow> bytes" where
  "print_rfc3339 c =
     four_digits (cv_year c) @ CHR ''-'' # two_digits (cv_month c) @ CHR ''-'' # two_digits (cv_day c) @
     CHR ''T'' # two_digits (cv_hour c) @ CHR '':'' # two_digits (cv_minute c) @ CHR '':'' #
     two_digits (cv_second c) @ CHR ''.'' # three_digits (cv_millis c) @
     (if cv_west c then CHR ''-'' else CHR ''+'') # two_digits (cv_off_hour c) @ CHR '':'' #
     two_digits (cv_off_minute c)"

text \<open>The fields are a calendar date, a time of day without leap seconds and an offset below a day.\<close>

definition civil_ok :: "civil \<Rightarrow> bool" where
  "civil_ok c \<longleftrightarrow> valid_date (int (cv_year c), int (cv_month c), int (cv_day c)) \<and> cv_year c \<le> 9999 \<and>
     cv_hour c \<le> 23 \<and> cv_minute c \<le> 59 \<and> cv_second c \<le> 59 \<and>
     cv_millis c \<le> 999 \<and> cv_off_hour c \<le> 23 \<and> cv_off_minute c \<le> 59"

lemma civil_ok_fields:
  assumes "civil_ok c"
  shows "cv_year c \<le> 9999" "1 \<le> cv_month c" "cv_month c \<le> 12" "1 \<le> cv_day c" "cv_day c \<le> 31" "cv_hour c \<le> 23"
    "cv_minute c \<le> 59" "cv_second c \<le> 59" "cv_millis c \<le> 999" "cv_off_hour c \<le> 23" "cv_off_minute c \<le> 59"
  using assms by (auto simp: civil_ok_def valid_date_def month_days_def split: if_splits)

definition civil_epoch_ms :: "civil \<Rightarrow> int" where
  "civil_epoch_ms c =
     ((elapsed_days (int (cv_year c)) (int (cv_month c)) (int (cv_day c)) * 86400
       + int (cv_hour c) * 3600 + int (cv_minute c) * 60 + int (cv_second c)
       - (if cv_west c then - 1 else 1) * int (cv_off_hour c * 60 + cv_off_minute c) * 60) * 1000
      + int (cv_millis c))"

lemma digit_char_val: "digit_val (digit_char n) = n mod 10"
  by (simp add: digit_val_def digit_char_def byte_val_char_of)

lemma digit_char_digit [simp]: "is_ascii_digit (digit_char n)"
  by (simp add: is_ascii_digit_def byte_val_less_eq digit_char_def byte_val_char_of)
    (simp add: byte_val_def)

lemma digits_val_fixed [simp]:
  "n \<le> 99 \<Longrightarrow> digits_val (two_digits n) = n"
  "n \<le> 999 \<Longrightarrow> digits_val (three_digits n) = n"
  "n \<le> 9999 \<Longrightarrow> digits_val (four_digits n) = n"
proof -
  have "10 * (m div 10) + m mod 10 = m" for m :: nat by simp
  note split = this [of n] this [of "n div 10"] this [of "n div 100"]
  show "n \<le> 99 \<Longrightarrow> digits_val (two_digits n) = n" "n \<le> 999 \<Longrightarrow> digits_val (three_digits n) = n"
    "n \<le> 9999 \<Longrightarrow> digits_val (four_digits n) = n"
    using split
    by (simp_all add: digits_val_def two_digits_def three_digits_def four_digits_def digit_char_val
        flip: div_mult2_eq)
qed

lemma digits_all [simp]:
  "list_all is_ascii_digit (two_digits n)" "list_all is_ascii_digit (three_digits n)"
  "list_all is_ascii_digit (four_digits n)"
  by (simp_all add: two_digits_def three_digits_def four_digits_def)

lemma digits_length [simp]:
  "length (two_digits n) = 2" "length (three_digits n) = 3" "length (four_digits n) = 4"
  by (simp_all add: two_digits_def three_digits_def four_digits_def)

text \<open>A number, or a separator, at a known place of a printed timestamp.\<close>

lemma num_at_append:
  "ds \<noteq> [] \<Longrightarrow> list_all is_ascii_digit ds \<Longrightarrow> length p = i \<Longrightarrow> i + length ds = j \<Longrightarrow>
   num_at (p @ ds @ q) i j = Some (int (digits_val ds))"
  by (auto simp: num_at_def substr_def)

lemma sep_at_append: "length p = i \<Longrightarrow> sep_at (p @ c # q) i d \<longleftrightarrow> c = d"
  by (auto simp: sep_at_def nth_append)


lemma print_length: "length (print_rfc3339 c) = 29"
  by (simp add: print_rfc3339_def)

lemma print_nums:
  assumes "civil_ok c"
  defines "b \<equiv> print_rfc3339 c"
  shows "num_at b 0 4 = Some (int (cv_year c))" "num_at b 5 7 = Some (int (cv_month c))"
    "num_at b 8 10 = Some (int (cv_day c))" "num_at b 11 13 = Some (int (cv_hour c))"
    "num_at b 14 16 = Some (int (cv_minute c))" "num_at b 17 19 = Some (int (cv_second c))"
    "num_at b 24 26 = Some (int (cv_off_hour c))" "num_at b 27 29 = Some (int (cv_off_minute c))"
  using civil_ok_fields [OF assms(1)] unfolding b_def
  by (simp_all add: num_at_def print_length)
    (simp_all add: print_rfc3339_def substr_def)

lemma print_bytes:
  fixes c :: civil
  defines "b \<equiv> print_rfc3339 c"
  shows "sep_at b 4 (CHR ''-'')" "sep_at b 7 (CHR ''-'')" "sep_at b 10 (CHR ''T'')"
    "sep_at b 13 (CHR '':'')" "sep_at b 16 (CHR '':'')" "sep_at b 19 (CHR ''.'')"
    "b ! 23 = (if cv_west c then CHR ''-'' else CHR ''+'')" "b ! 26 = CHR '':''"
    "drop 20 b = three_digits (cv_millis c) @ (if cv_west c then CHR ''-'' else CHR ''+'') #
       two_digits (cv_off_hour c) @ CHR '':'' # two_digits (cv_off_minute c)"
  unfolding b_def sep_at_def
  by (simp_all add: print_rfc3339_def four_digits_def three_digits_def two_digits_def)

lemma print_fraction:
  assumes "civil_ok c"
  shows "fraction_at (print_rfc3339 c) = Some (23, int (cv_millis c))"
proof -
  let ?b = "print_rfc3339 c"
  have "takeWhile is_ascii_digit (drop 20 ?b) = three_digits (cv_millis c)"
    using digits_all(2) [of "cv_millis c"]
    by (subst print_bytes(9))
      (auto simp: takeWhile_append2 list_all_iff is_ascii_digit_def less_eq_char_def)
  then have s: "scan_while is_ascii_digit ?b 20 = 23"
    by (simp add: scan_while_takeWhile print_length)
  have "substr ?b 20 23 = three_digits (cv_millis c)"
    by (simp add: substr_def print_bytes(9))
  with s civil_ok_fields [OF assms] show ?thesis
    by (simp add: fraction_at_def print_bytes(6) Let_def)
qed

lemma print_offset:
  assumes "civil_ok c"
  shows "offset_at (print_rfc3339 c) 23 =
    Some ((if cv_west c then - 1 else 1) * int (cv_off_hour c * 60 + cv_off_minute c))"
  using civil_ok_fields [OF assms] print_nums(7,8) [OF assms] print_bytes(7,8) [of c]
  by (simp add: offset_at_def sep_at_def print_length)

lemma rfc3339_print:
  assumes "civil_ok c"
  shows "rfc3339_to_epoch_ms (print_rfc3339 c) = Some (civil_epoch_ms c)"
  using assms civil_ok_fields [OF assms]
  by (simp add: rfc3339_to_epoch_ms_def print_nums print_bytes print_length print_fraction print_offset)
    (simp add: days_counted civil_epoch_ms_def algebra_simps)

text \<open>C32: the parser inverts the printer of timestamps: a civil time with milliseconds and an
  offset from UTC reads back as its epoch milliseconds, where the days since 1970 are counted year by
  year and month by month of the Gregorian calendar.\<close>

theorem rfc3339_round_trip:
  assumes "civil_ok c"
  shows "rfc3339_to_epoch_ms (print_rfc3339 c) = Some (civil_epoch_ms c)"
  by (rule rfc3339_print [OF assms])

theorem rfc3339_round_trip_witness:
  "rfc3339_to_epoch_ms ''2026-07-16T04:30:00.250+02:30'' = Some 1784167200250"
proof -
  let ?c = "\<lparr>cv_year = 2026, cv_month = 7, cv_day = 16, cv_hour = 4, cv_minute = 30, cv_second = 0,
     cv_millis = 250, cv_west = False, cv_off_hour = 2, cv_off_minute = 30\<rparr>"
  have "print_rfc3339 ?c = ''2026-07-16T04:30:00.250+02:30''" by code_simp
  moreover have "civil_epoch_ms ?c = 1784167200250" by code_simp
  moreover have "civil_ok ?c" by code_simp
  ultimately show ?thesis using rfc3339_round_trip by metis
qed

text \<open>The day of a month and the second 60 are not checked against the calendar: the text of a date
  that does not exist reads as a later one.\<close>

lemma impossible_dates_accepted:
  "rfc3339_to_epoch_ms ''2023-02-30T00:00:00Z'' = rfc3339_to_epoch_ms ''2023-03-02T00:00:00Z'' \<and>
   rfc3339_to_epoch_ms ''2023-03-01T12:34:60Z'' = rfc3339_to_epoch_ms ''2023-03-01T12:35:00Z'' \<and>
   rfc3339_to_epoch_ms ''2023-02-30T00:00:00Z'' \<noteq> None"
  by (intro conjI) code_simp+

definition midnight :: "int \<times> int \<times> int \<Rightarrow> bytes" where
  "midnight = (\<lambda>(y, m, d). print_rfc3339
     \<lparr>cv_year = nat y, cv_month = nat m, cv_day = nat d, cv_hour = 0, cv_minute = 0, cv_second = 0,
      cv_millis = 0, cv_west = False, cv_off_hour = 0, cv_off_minute = 0\<rparr>)"

lemma midnight_ms:
  assumes "valid_date (y, m, d)" "y \<le> 9999"
  shows "rfc3339_to_epoch_ms (midnight (y, m, d)) = Some (days_from_civil y m d * 86400000)"
proof -
  have "month_days y m \<le> 31" by (simp add: month_days_def)
  with assms have c: "0 \<le> y" "nat y \<le> 9999" "1 \<le> m" "m \<le> 12" "1 \<le> d" "d \<le> 31"
    by (auto simp: valid_date_def)
  then have ok: "civil_ok \<lparr>cv_year = nat y, cv_month = nat m, cv_day = nat d, cv_hour = 0, cv_minute = 0,
      cv_second = 0, cv_millis = 0, cv_west = False, cv_off_hour = 0, cv_off_minute = 0\<rparr>"
    using assms by (auto simp: civil_ok_def)
  show ?thesis using rfc3339_print [OF ok] c by (simp add: midnight_def civil_epoch_ms_def days_counted)
qed

lemma next_date_valid: "valid_date x \<Longrightarrow> valid_date (next_date x)"
  by (auto simp: valid_date_def next_date_def month_days_def split: if_splits)

text \<open>The calendar: midnight of 1970-01-01 is 0, and midnight of the next Gregorian date
  is 86400000 milliseconds later, for every date of the years 0 to 9998.\<close>

lemma next_day_ms:
  assumes "valid_date (y, m, d)" "y \<le> 9998" "rfc3339_to_epoch_ms (midnight (y, m, d)) = Some t"
  shows "rfc3339_to_epoch_ms (midnight (1970, 1, 1)) = Some 0 \<and>
         rfc3339_to_epoch_ms (midnight (next_date (y, m, d))) = Some (t + 86400000)"
proof
  have "valid_date (1970, 1, 1)" by (simp add: valid_date_def month_days_def)
  then show "rfc3339_to_epoch_ms (midnight (1970, 1, 1)) = Some 0"
    by (simp add: midnight_ms days_from_civil_march march_days_def)
  obtain y' m' d' where n: "next_date (y, m, d) = (y', m', d')" by (cases "next_date (y, m, d)")
  then have "valid_date (y', m', d')" "y' \<le> 9999"
    using next_date_valid [OF assms(1)] assms(2) by (auto simp: next_date_def split: if_splits)
  then show "rfc3339_to_epoch_ms (midnight (next_date (y, m, d))) = Some (t + 86400000)"
    using midnight_ms [of y m d] days_next [OF assms(1)] assms by (simp add: n midnight_ms)
qed

lemma next_day_ms_witness:
  "rfc3339_to_epoch_ms (midnight (next_date (2024, 2, 28))) = Some (1709078400000 + 86400000)"
proof -
  have v: "valid_date (2024, 2, 28)" by (simp add: valid_date_def month_days_def)
  have "days_from_civil 2024 2 28 = 19781" by (simp add: days_from_civil_march march_days_def)
  then have "rfc3339_to_epoch_ms (midnight (2024, 2, 28)) = Some 1709078400000"
    using midnight_ms [OF v] by simp
  then show ?thesis using next_day_ms [OF v] by simp
qed

section \<open>Range of the result\<close>

lemma digits_val_bound: "list_all is_ascii_digit ds \<Longrightarrow> digits_val ds < 10 ^ length ds"
proof (induction ds rule: rev_induct)
  case (snoc c ds)
  have "digit_val c \<le> 9" using snoc.prems 
  proof -
    have "byte_val c \<le> byte_val (CHR ''9'')" using snoc.prems by (simp add: is_ascii_digit_def byte_val_less_eq)
    moreover have "byte_val (CHR ''9'') = 57" by (simp add: byte_val_def)
    ultimately show ?thesis by (simp add: digit_val_def)
  qed
  with snoc show ?case by (simp add: digits_val_def)
qed (simp add: digits_val_def)

lemma num_at_bound:
  assumes "num_at b i j = Some n"
  shows "0 \<le> n" "n < 10 ^ (j - i)"
proof -
  have "list_all is_ascii_digit (substr b i j)" "length (substr b i j) = j - i" "n = int (digits_val (substr b i j))"
    using assms by (auto simp: num_at_def length_substr split: if_splits)
  with digits_val_bound [of "substr b i j"] show "0 \<le> n" "n < 10 ^ (j - i)" by simp_all
qed

lemma fraction_bound:
  assumes "fraction_at b = Some (i, ms)"
  shows "0 \<le> ms" "ms < 1000"
proof -
  show "0 \<le> ms" using assms by (auto simp: fraction_at_def Let_def split: if_splits)
  show "ms < 1000"
  proof (cases "sep_at b 19 (CHR ''.'')")
    case True
    let ?i = "scan_while is_ascii_digit b 20"
    let ?p = "substr b 20 ?i @ replicate (3 - length (substr b 20 ?i)) (CHR ''0'')"
    have ms: "ms = int (digits_val (take 3 ?p))" using assms True by (auto simp: fraction_at_def Let_def split: if_splits)
    have "list_all is_ascii_digit (substr b 20 ?i)"
      unfolding list_all_length
    proof (intro allI impI)
      fix k assume "k < length (substr b 20 ?i)"
      then have "20 + k < ?i" "substr b 20 ?i ! k = b ! (20 + k)" by (auto simp: substr_def)
      then show "is_ascii_digit (substr b 20 ?i ! k)" using scan_while_holds [of 20 "20 + k" is_ascii_digit b] by simp
    qed
    moreover have "is_ascii_digit (CHR ''0'')" by code_simp
    then have "list_all is_ascii_digit (replicate n (CHR ''0''))" for n by (induction n) simp_all
    ultimately have "list_all is_ascii_digit ?p" by (simp only: list_all_append simp_thms)
    then have "list_all is_ascii_digit (take 3 ?p)" unfolding list_all_iff by (blast dest: in_set_takeD)
    then have "digits_val (take 3 ?p) < 10 ^ length (take 3 ?p)" by (rule digits_val_bound)
    also have "\<dots> \<le> 10 ^ 3" by (rule power_increasing) simp_all
    finally show ?thesis by (simp add: ms)
  qed (use assms in \<open>auto simp: fraction_at_def\<close>)
qed

lemma offset_bound: "offset_at b i = Some n \<Longrightarrow> - 1440 < n \<and> n < 1440"
  using num_at_bound by (auto simp: offset_at_def split: if_splits option.splits) (smt (verit))+

lemma days_bound:
  assumes "0 \<le> y" "y < 10000" "1 \<le> m" "m \<le> 12" "1 \<le> d" "d \<le> 31"
  shows "- 800000 < days_from_civil y m d" "days_from_civil y m d < 4000000"
proof -
  let ?y = "if m \<le> 2 then y - 1 else y"
  have y: "- 1 \<le> ?y" "?y < 10000" using assms by auto
  have "(m + 9) mod 12 \<le> 11" "0 \<le> (m + 9) mod 12" by simp_all
  then have k: "0 \<le> (153 * ((m + 9) mod 12) + 2) div 5" "(153 * ((m + 9) mod 12) + 2) div 5 \<le> 337" by linarith+
  show "- 800000 < days_from_civil y m d" "days_from_civil y m d < 4000000"
    unfolding days_from_civil_march march_days_def using y k assms by linarith+
qed

text \<open>Every instant the parser returns is far inside 64 bits.\<close>

lemma rfc3339_bounds:
  assumes "rfc3339_to_epoch_ms b = Some t"
  shows "- (2 ^ 63) \<le> t" "t < 2 ^ 63"
proof -
  obtain y m d h mi s i ms off where n: "num_at b 0 4 = Some y" "num_at b 11 13 = Some h" "num_at b 14 16 = Some mi"
      "num_at b 17 19 = Some s" and r: "1 \<le> m" "m \<le> 12" "1 \<le> d" "d \<le> 31" "h \<le> 23" "mi \<le> 59" "s \<le> 60"
    and f: "fraction_at b = Some (i, ms)" and o: "offset_at b i = Some off"
    and t: "t = (days_from_civil y m d * 86400 + h * 3600 + mi * 60 + s - off * 60) * 1000 + ms"
    using assms by (auto simp: rfc3339_to_epoch_ms_def bind_eq_Some_conv split: if_splits)
  have "0 \<le> y" "y < 10000" using num_at_bound [OF n(1)] by simp_all
  from days_bound [OF this r(1-4)] num_at_bound(1) [OF n(2)] num_at_bound(1) [OF n(3)] num_at_bound(1) [OF n(4)]
    offset_bound [OF o] fraction_bound [OF f] r(5-7)
  have "- (10 ^ 15) < t" "t < 10 ^ 15" unfolding t by simp_all
  then show "- (2 ^ 63) \<le> t" "t < 2 ^ 63" by simp_all
qed

end
