(* ===== verification/Query.thy ===== *)
theory Query
  imports Json Time
begin

text \<open>
  The typed query contract, \<open>crates/rro-core/src/query.rs\<close>, with the point extraction of
  \<open>crates/rro-core/src/geo.rs\<close>: conditions over a record's metadata, the flat filter of
  \<open>must\<close>, \<open>should\<close>, \<open>must_not\<close>, and the request that carries it.

  The great-circle distance uses the platform's trigonometric functions, so it is a parameter
  (\<open>hav lat1 lon1 lat2 lon2\<close>, in metres) of every definition that tests a radius.
\<close>

type_synonym haversine = "f64 \<Rightarrow> f64 \<Rightarrow> f64 \<Rightarrow> f64 \<Rightarrow> f64"

definition point_of :: "json \<Rightarrow> (f64 \<times> f64) option" where
  "point_of v =
     Option.bind (Option.bind (json_get ''lat'' v) as_f64) (\<lambda>lat.
     Option.bind (Option.bind (json_get ''lon'' v) as_f64) (\<lambda>lon.
       if \<not> (f64_le (f64_of_int (- 90)) lat \<and> f64_le lat (f64_of_int 90)) \<or>
          \<not> (f64_le (f64_of_int (- 180)) lon \<and> f64_le lon (f64_of_int 180))
       then None else Some (lat, lon)))"

section \<open>Conditions\<close>

datatype condition =
    CEq (cond_key: bytes) json
  | CAny (cond_key: bytes) "json list"
  | CRange (cond_key: bytes) (cr_gt: "f64 option") (cr_gte: "f64 option")
      (cr_lt: "f64 option") (cr_lte: "f64 option")
  | CDateRange (cond_key: bytes) (cd_gt: "bytes option") (cd_gte: "bytes option")
      (cd_lt: "bytes option") (cd_lte: "bytes option")
  | CGeoRadius (cond_key: bytes) f64 f64 f64
  | CGeoBox (cond_key: bytes) f64 f64 f64 f64
  | CExists (cond_key: bytes)

text \<open>\<open>bound.map(|b| test).unwrap_or(true)\<close>.\<close>

definition open_or :: "'b option \<Rightarrow> ('b \<Rightarrow> bool) \<Rightarrow> bool" where
  "open_or b test = (case b of None \<Rightarrow> True | Some x \<Rightarrow> test x)"

lemma open_or_simps [simp]: "open_or None t" "open_or (Some x) t = t x"
  by (simp_all add: open_or_def)

definition range_holds ::
  "f64 option \<Rightarrow> f64 option \<Rightarrow> f64 option \<Rightarrow> f64 option \<Rightarrow> f64 \<Rightarrow> bool" where
  "range_holds gt gte lt lte x \<longleftrightarrow>
     open_or gt (\<lambda>b. f64_lt b x) \<and> open_or gte (\<lambda>b. f64_le b x) \<and>
     open_or lt (\<lambda>b. f64_lt x b) \<and> open_or lte (\<lambda>b. f64_le x b)"

definition ms_range_holds ::
  "int option \<Rightarrow> int option \<Rightarrow> int option \<Rightarrow> int option \<Rightarrow> int \<Rightarrow> bool" where
  "ms_range_holds gt gte lt lte x \<longleftrightarrow>
     open_or gt (\<lambda>b. b < x) \<and> open_or gte (\<lambda>b. b \<le> x) \<and>
     open_or lt (\<lambda>b. x < b) \<and> open_or lte (\<lambda>b. x \<le> b)"

definition cond_matches :: "haversine \<Rightarrow> condition \<Rightarrow> metadata \<Rightarrow> bool" where
  "cond_matches hav c m =
     (case c of
        CEq key v \<Rightarrow> (case map_of m key of None \<Rightarrow> False | Some w \<Rightarrow> json_eq w v)
      | CAny key vs \<Rightarrow>
          (case map_of m key of None \<Rightarrow> False | Some w \<Rightarrow> list_ex (\<lambda>v. json_eq v w) vs)
      | CRange key gt gte lt lte \<Rightarrow>
          (case Option.bind (map_of m key) as_f64 of
             None \<Rightarrow> False | Some x \<Rightarrow> range_holds gt gte lt lte x)
      | CDateRange key gt gte lt lte \<Rightarrow>
          (let parse = (\<lambda>b. Option.bind b rfc3339_to_epoch_ms) in
           case Option.bind (Option.bind (map_of m key) as_str) rfc3339_to_epoch_ms of
             None \<Rightarrow> False
           | Some x \<Rightarrow> ms_range_holds (parse gt) (parse gte) (parse lt) (parse lte) x)
      | CGeoRadius key lat lon radius \<Rightarrow>
          (case Option.bind (map_of m key) point_of of
             None \<Rightarrow> False | Some (plat, plon) \<Rightarrow> f64_le (hav lat lon plat plon) radius)
      | CGeoBox key lat_min lon_min lat_max lon_max \<Rightarrow>
          (case Option.bind (map_of m key) point_of of
             None \<Rightarrow> False
           | Some (plat, plon) \<Rightarrow>
               f64_le lat_min plat \<and> f64_le plat lat_max \<and> f64_le lon_min plon \<and> f64_le plon lon_max)
      | CExists key \<Rightarrow> map_of m key \<noteq> None)"

lemma cond_matches_simps [simp]:
  "cond_matches hav (CEq k v) m \<longleftrightarrow> (\<exists>w. map_of m k = Some w \<and> json_eq w v)"
  "cond_matches hav (CAny k vs) m \<longleftrightarrow> (\<exists>w. map_of m k = Some w \<and> (\<exists>v \<in> set vs. json_eq v w))"
  "cond_matches hav (CRange k gt gte lt lte) m \<longleftrightarrow>
     (\<exists>x. Option.bind (map_of m k) as_f64 = Some x \<and> range_holds gt gte lt lte x)"
  "cond_matches hav (CDateRange k dgt dgte dlt dlte) m \<longleftrightarrow>
     (\<exists>t. Option.bind (Option.bind (map_of m k) as_str) rfc3339_to_epoch_ms = Some t \<and>
        ms_range_holds (Option.bind dgt rfc3339_to_epoch_ms) (Option.bind dgte rfc3339_to_epoch_ms)
          (Option.bind dlt rfc3339_to_epoch_ms) (Option.bind dlte rfc3339_to_epoch_ms) t)"
  "cond_matches hav (CGeoRadius k lat lon r) m \<longleftrightarrow>
     (\<exists>p. Option.bind (map_of m k) point_of = Some p \<and> f64_le (hav lat lon (fst p) (snd p)) r)"
  "cond_matches hav (CGeoBox k b1 b2 b3 b4) m \<longleftrightarrow>
     (\<exists>p. Option.bind (map_of m k) point_of = Some p \<and>
        f64_le b1 (fst p) \<and> f64_le (fst p) b3 \<and> f64_le b2 (snd p) \<and> f64_le (snd p) b4)"
  "cond_matches hav (CExists k) m \<longleftrightarrow> map_of m k \<noteq> None"
  by (auto simp: cond_matches_def list_ex_iff Let_def split: option.splits prod.splits)

section \<open>Filters\<close>

record filter_dsl =
  f_must :: "condition list"
  f_should :: "condition list"
  f_must_not :: "condition list"

definition filter_default :: filter_dsl where
  "filter_default = \<lparr>f_must = [], f_should = [], f_must_not = []\<rparr>"

definition filter_is_empty :: "filter_dsl \<Rightarrow> bool" where
  "filter_is_empty f \<longleftrightarrow> f_must f = [] \<and> f_should f = [] \<and> f_must_not f = []"

definition filter_matches :: "haversine \<Rightarrow> filter_dsl \<Rightarrow> metadata \<Rightarrow> bool" where
  "filter_matches hav f m \<longleftrightarrow>
     list_all (\<lambda>c. cond_matches hav c m) (f_must f) \<and>
     (f_should f = [] \<or> list_ex (\<lambda>c. cond_matches hav c m) (f_should f)) \<and>
     \<not> list_ex (\<lambda>c. cond_matches hav c m) (f_must_not f)"

definition filter_keys :: "filter_dsl \<Rightarrow> bytes list" where
  "filter_keys f = map cond_key (f_must f @ f_should f @ f_must_not f)"

section \<open>The request\<close>

datatype fusion_mode = Rrf | Dbsf

record hybrid_weights =
  hw_dense :: "32 word"
  hw_lexical :: "32 word"

definition f32_one :: "32 word" where
  "f32_one = 0x3F800000"

definition hybrid_weights_default :: hybrid_weights where
  "hybrid_weights_default = \<lparr>hw_dense = f32_one, hw_lexical = f32_one\<rparr>"

definition weights_as_slice :: "hybrid_weights \<Rightarrow> 32 word list" where
  "weights_as_slice w = [hw_dense w, hw_lexical w]"

datatype estate_query = EstateQuery
  (q_text: "bytes option") (q_vector: "32 word list option")
  (q_sparse: "(32 word \<times> 32 word) list option") (q_using: "bytes option")
  (q_collection: "bytes option") (q_multi: "32 word list list option") (q_top_k: nat)
  (q_filter: metadata) (q_dsl: "filter_dsl option") (q_scope: "bytes list option")
  (q_score_threshold: "32 word option") (q_with_payload: bool) (q_offset: nat)
  (q_with_vectors: bool) (q_highlight: bool) (q_prefetch: "(estate_query \<times> nat) list")
  (q_fusion: hybrid_weights) (q_fusion_mode: fusion_mode)

text \<open>\<open>EstateQuery { top_k, collection, dsl, ..Default::default() }\<close>.\<close>

definition query_of :: "nat \<Rightarrow> bytes option \<Rightarrow> filter_dsl option \<Rightarrow> estate_query" where
  "query_of k coll dsl =
     EstateQuery None None None None coll None k [] dsl None None True 0 False False []
       hybrid_weights_default Rrf"

text \<open>The typed clauses, then one equality per legacy pair.\<close>

definition effective_filter :: "estate_query \<Rightarrow> filter_dsl" where
  "effective_filter q =
     (let dsl = (case q_dsl q of None \<Rightarrow> filter_default | Some f \<Rightarrow> f) in
      dsl\<lparr>f_must := f_must dsl @ map (\<lambda>kv. CEq (fst kv) (snd kv)) (q_filter q)\<rparr>)"

lemma effective_filter_matches:
  "filter_matches hav (effective_filter q) m \<longleftrightarrow>
     (case q_dsl q of None \<Rightarrow> True | Some f \<Rightarrow> filter_matches hav f m) \<and>
     (\<forall>kv \<in> set (q_filter q). \<exists>w. map_of m (fst kv) = Some w \<and> json_eq w (snd kv))"
  by (cases "q_dsl q")
    (auto simp: effective_filter_def filter_matches_def filter_default_def list_all_iff ball_Un)

end
