(* ===== verification/Lower.thy ===== *)
theory Lower
  imports Query ParserRoundTrip
begin

text \<open>
  Lowering a parsed \<open>SELECT\<close> to the typed query, \<open>crates/rro-ql/src/lower.rs\<close> and
  \<open>Value::to_json\<close> of \<open>ast.rs\<close>, and \<open>parse_query\<close> of \<open>lib.rs\<close>.  The expression tree has a
  reference semantics (\<open>eval_expr\<close>); the properties relate the flat filter that lowering
  builds to it, and say exactly which trees are accepted and what the filter then means.
\<close>

section \<open>The lowering\<close>

definition default_limit :: nat where
  "default_limit = 10"

definition value_to_json :: "ql_value \<Rightarrow> json" where
  "value_to_json v =
     (case v of
        VStr s \<Rightarrow> JStr s
      | VNum n \<Rightarrow> (case number_from_f64 n of None \<Rightarrow> JNull | Some x \<Rightarrow> JNum x)
      | VBool b \<Rightarrow> JBool b
      | VNull \<Rightarrow> JNull)"

datatype slot = Must | Should | MustNot

definition unsupported :: "bytes \<Rightarrow> ql_fail" where
  "unsupported what = ql_err (MUnsupported what) (0, 0)"

fun leaf_condition :: "expr \<Rightarrow> ql_fail + condition" where
  "leaf_condition (EEq k v) = Inr (CEq k (value_to_json v))"
| "leaf_condition (ENeq k v) = Inl (unsupported ''!='')"
| "leaf_condition (EIn k vs) = Inr (CAny k (map value_to_json vs))"
| "leaf_condition (ECmp k c n) =
     Inr (case c of
            CGt \<Rightarrow> CRange k (Some n) None None None
          | CGte \<Rightarrow> CRange k None (Some n) None None
          | CLt \<Rightarrow> CRange k None None (Some n) None
          | CLte \<Rightarrow> CRange k None None None (Some n))"
| "leaf_condition (EExists k) = Inr (CExists k)"
| "leaf_condition (EGeoRadius k lat lon r) = Inr (CGeoRadius k lat lon r)"
| "leaf_condition (EGeoBox k a b c d) = Inr (CGeoBox k a b c d)"
| "leaf_condition _ = Inl (unsupported ''a compound expression where a condition was expected'')"

definition push :: "slot \<Rightarrow> condition \<Rightarrow> filter_dsl \<Rightarrow> filter_dsl" where
  "push sl c f =
     (case sl of
        Must \<Rightarrow> f\<lparr>f_must := f_must f @ [c]\<rparr>
      | Should \<Rightarrow> f\<lparr>f_should := f_should f @ [c]\<rparr>
      | MustNot \<Rightarrow> f\<lparr>f_must_not := f_must_not f @ [c]\<rparr>)"

definition is_compound :: "expr \<Rightarrow> bool" where
  "is_compound e = (case e of EAnd _ _ \<Rightarrow> True | EOr _ _ \<Rightarrow> True | ENot _ \<Rightarrow> True | _ \<Rightarrow> False)"

text \<open>The leaf arm of \<open>lower_expr\<close>, and the function itself (the filter is threaded).\<close>

definition lower_leaf :: "expr \<Rightarrow> filter_dsl \<Rightarrow> slot \<Rightarrow> ql_fail + filter_dsl" where
  "lower_leaf e f sl = bind_result (leaf_condition e) (\<lambda>c. Inr (push sl c f))"

fun lower_expr :: "expr \<Rightarrow> filter_dsl \<Rightarrow> slot \<Rightarrow> ql_fail + filter_dsl" where
  "lower_expr (EAnd l r) f sl =
     (if sl \<noteq> Must then Inl (unsupported ''AND nested inside OR or NOT'')
      else bind_result (lower_expr l f Must) (\<lambda>f. lower_expr r f Must))"
| "lower_expr (EOr l r) f sl =
     (case sl of
        Must \<Rightarrow>
          if f_must f \<noteq> [] \<or> f_must_not f \<noteq> [] then Inl (unsupported ''OR combined with other clauses'')
          else bind_result (lower_expr l f Should) (\<lambda>f. lower_expr r f Should)
      | Should \<Rightarrow> bind_result (lower_expr l f Should) (\<lambda>f. lower_expr r f Should)
      | MustNot \<Rightarrow> Inl (unsupported ''OR inside NOT''))"
| "lower_expr (ENot e) f sl =
     (if sl \<noteq> Must then Inl (unsupported ''NOT nested inside OR'')
      else if is_compound e then Inl (unsupported ''NOT applied to a compound expression'')
      else lower_expr e f MustNot)"
| "lower_expr e f sl = lower_leaf e f sl"

definition lower_select :: "select \<Rightarrow> ql_fail + estate_query" where
  "lower_select s =
     (let k = (case sel_limit s of None \<Rightarrow> default_limit | Some n \<Rightarrow> n) in
      case sel_where s of
        None \<Rightarrow> Inr (query_of k (sel_from s) None)
      | Some e \<Rightarrow>
          bind_result (lower_expr e filter_default Must) (\<lambda>f. Inr (query_of k (sel_from s) (Some f))))"

definition parse_query :: "bytes \<Rightarrow> ql_fail + estate_query" where
  "parse_query src =
     bind_result (parse src) (\<lambda>stmt.
       case stmt of
         SSelect s \<Rightarrow> lower_select s
       | other \<Rightarrow> Inl (ql_err (MWriteNotQuery (keyword other)) (0, 0)))"

section \<open>What an expression means\<close>

text \<open>
  The reference semantics: a leaf is its comparison on the record's field, and the
  connectives are Boolean.  \<open>!=\<close> is the negation of \<open>=\<close>.
\<close>

fun eval_expr :: "haversine \<Rightarrow> metadata \<Rightarrow> expr \<Rightarrow> bool" where
  "eval_expr hav m (EAnd l r) = (eval_expr hav m l \<and> eval_expr hav m r)"
| "eval_expr hav m (EOr l r) = (eval_expr hav m l \<or> eval_expr hav m r)"
| "eval_expr hav m (ENot e) = (\<not> eval_expr hav m e)"
| "eval_expr hav m (ENeq k v) =
     (\<not> (case map_of m k of None \<Rightarrow> False | Some w \<Rightarrow> json_eq w (value_to_json v)))"
| "eval_expr hav m (EEq k v) = (case map_of m k of None \<Rightarrow> False | Some w \<Rightarrow> json_eq w (value_to_json v))"
| "eval_expr hav m (EIn k vs) =
     (case map_of m k of None \<Rightarrow> False | Some w \<Rightarrow> \<exists>v \<in> set vs. json_eq (value_to_json v) w)"
| "eval_expr hav m (ECmp k c n) =
     (case Option.bind (map_of m k) as_f64 of
        None \<Rightarrow> False
      | Some x \<Rightarrow> (case c of CGt \<Rightarrow> f64_lt n x | CGte \<Rightarrow> f64_le n x | CLt \<Rightarrow> f64_lt x n | CLte \<Rightarrow> f64_le x n))"
| "eval_expr hav m (EExists k) = (map_of m k \<noteq> None)"
| "eval_expr hav m (EGeoRadius k lat lon r) =
     (case Option.bind (map_of m k) point_of of
        None \<Rightarrow> False | Some (plat, plon) \<Rightarrow> f64_le (hav lat lon plat plon) r)"
| "eval_expr hav m (EGeoBox k lat_min lon_min lat_max lon_max) =
     (case Option.bind (map_of m k) point_of of
        None \<Rightarrow> False
      | Some (plat, plon) \<Rightarrow>
          f64_le lat_min plat \<and> f64_le plat lat_max \<and> f64_le lon_min plon \<and> f64_le plon lon_max)"

lemma leaf_condition_meaning:
  "leaf_condition e = Inr c \<Longrightarrow> cond_matches hav c m = eval_expr hav m e"
  by (cases e) (auto simp: range_holds_def split: option.splits cmp_op.splits)

section \<open>The shape of an accepted expression\<close>

text \<open>
  The conjuncts of an expression, split at the ANDs outside every other connective; the
  alternatives of an OR likewise.
\<close>

fun conjuncts :: "expr \<Rightarrow> expr list" where
  "conjuncts (EAnd l r) = conjuncts l @ conjuncts r"
| "conjuncts e = [e]"

fun disjuncts :: "expr \<Rightarrow> expr list" where
  "disjuncts (EOr l r) = disjuncts l @ disjuncts r"
| "disjuncts e = [e]"

fun is_or :: "expr \<Rightarrow> bool" where
  "is_or (EOr l r) = True"
| "is_or e = False"

text \<open>A leaf with a condition; a literal is one, or the negation of one.\<close>

definition is_leaf :: "expr \<Rightarrow> bool" where
  "is_leaf e = (case e of EAnd _ _ \<Rightarrow> False | EOr _ _ \<Rightarrow> False | ENot _ \<Rightarrow> False | ENeq _ _ \<Rightarrow> False | _ \<Rightarrow> True)"

definition is_literal :: "expr \<Rightarrow> bool" where
  "is_literal e = (is_leaf e \<or> (case e of ENot x \<Rightarrow> is_leaf x | _ \<Rightarrow> False))"

lemma leaf_condition_iff: "(\<exists>c. leaf_condition e = Inr c) \<longleftrightarrow> is_leaf e"
  by (cases e) (auto simp: is_leaf_def)

definition cond_of :: "expr \<Rightarrow> condition" where
  "cond_of e = (case leaf_condition e of Inl _ \<Rightarrow> CExists [] | Inr c \<Rightarrow> c)"

lemma leaf_condition_leaf: "is_leaf e \<Longrightarrow> leaf_condition e = Inr (cond_of e)"
  by (cases e) (simp_all add: is_leaf_def cond_of_def)

lemma leaf_condition_not_leaf: "\<not> is_leaf e \<Longrightarrow> \<exists>x. leaf_condition e = Inl x"
  by (cases e) (simp_all add: is_leaf_def)

lemma cond_of_meaning [simp]: "is_leaf e \<Longrightarrow> cond_matches hav (cond_of e) m = eval_expr hav m e"
  by (rule leaf_condition_meaning) (rule leaf_condition_leaf)

text \<open>What one accepted conjunct adds to the filter.\<close>

definition add_conjunct :: "expr \<Rightarrow> filter_dsl \<Rightarrow> filter_dsl" where
  "add_conjunct x f =
     (if is_or x then f\<lparr>f_should := f_should f @ map cond_of (disjuncts x)\<rparr>
      else case x of ENot y \<Rightarrow> push MustNot (cond_of y) f | _ \<Rightarrow> push Must (cond_of x) f)"

definition blocked :: "filter_dsl \<Rightarrow> bool" where
  "blocked f \<longleftrightarrow> f_must f \<noteq> [] \<or> f_must_not f \<noteq> []"

lemma lower_should:
  "list_all is_leaf (disjuncts e) \<Longrightarrow>
   lower_expr e f Should = Inr (f\<lparr>f_should := f_should f @ map cond_of (disjuncts e)\<rparr>)"
  by (induction e arbitrary: f) (simp_all add: lower_leaf_def push_def is_leaf_def cond_of_def)

lemma lower_should_refuses:
  "\<not> list_all is_leaf (disjuncts e) \<Longrightarrow> \<exists>x. lower_expr e f Should = Inl x"
proof (induction e arbitrary: f)
  case (EOr l r)
  show ?case
  proof (cases "list_all is_leaf (disjuncts l)")
    case True
    with EOr.prems EOr.IH(2) show ?thesis by (simp add: lower_should)
  next
    case False
    with EOr.IH(1) [of f] show ?thesis by auto
  qed
qed (auto simp: lower_leaf_def is_leaf_def)

definition accepts :: "filter_dsl \<Rightarrow> expr \<Rightarrow> bool" where
  "accepts f x \<longleftrightarrow> is_literal x \<or> (is_or x \<and> list_all is_leaf (disjuncts x) \<and> \<not> blocked f)"

definition is_and :: "expr \<Rightarrow> bool" where
  "is_and e = (case e of EAnd _ _ \<Rightarrow> True | _ \<Rightarrow> False)"

lemma lower_conjunct:
  "\<not> is_and x \<Longrightarrow> accepts f x \<Longrightarrow> lower_expr x f Must = Inr (add_conjunct x f)"
proof (cases x)
  case (EOr l r)
  assume "accepts f x"
  with EOr show ?thesis
    by (simp add: accepts_def is_literal_def is_leaf_def blocked_def add_conjunct_def lower_should)
next
  case (ENot y)
  assume "accepts f x"
  with ENot show ?thesis
    by (cases y) (simp_all add: accepts_def is_literal_def is_leaf_def add_conjunct_def lower_leaf_def
        is_compound_def cond_of_def)
qed (simp_all add: accepts_def is_literal_def is_leaf_def add_conjunct_def lower_leaf_def cond_of_def
    is_and_def)

lemma lower_conjunct_refuses:
  "\<not> is_and x \<Longrightarrow> \<not> accepts f x \<Longrightarrow> \<exists>e. lower_expr x f Must = Inl e"
proof (cases x)
  case (EOr l r)
  assume "\<not> accepts f x"
  with EOr show ?thesis using lower_should [of l f] lower_should_refuses [of l f] lower_should_refuses [of r]
    by (cases "list_all is_leaf (disjuncts l)") (auto simp: accepts_def blocked_def)
next
  case (ENot y)
  assume "\<not> accepts f x"
  with ENot show ?thesis
    by (cases y) (simp_all add: accepts_def is_literal_def is_leaf_def lower_leaf_def is_compound_def)
qed (simp_all add: accepts_def is_literal_def is_leaf_def lower_leaf_def is_and_def)

text \<open>A conjunction is lowered conjunct by conjunct.\<close>

fun lower_all :: "expr list \<Rightarrow> filter_dsl \<Rightarrow> ql_fail + filter_dsl" where
  "lower_all [] f = Inr f"
| "lower_all (x # xs) f = bind_result (lower_expr x f Must) (lower_all xs)"

lemma bind_result_assoc: "bind_result (bind_result r g) h = bind_result r (\<lambda>a. bind_result (g a) h)"
  by (cases r) simp_all

lemma bind_result_Inr_right [simp]: "bind_result r Inr = r"
  by (cases r) simp_all

lemma lower_all_Nil [simp]: "lower_all [] = Inr"
  by (rule ext) simp

lemma lower_all_append: "lower_all (xs @ ys) f = bind_result (lower_all xs f) (lower_all ys)"
proof (induction xs arbitrary: f)
  case (Cons x xs)
  then show ?case by (cases "lower_expr x f Must") simp_all
qed simp

lemma lower_conjuncts: "lower_expr e f Must = lower_all (conjuncts e) f"
proof (induction e arbitrary: f)
  case (EAnd l r)
  then have "(\<lambda>f. lower_expr r f Must) = lower_all (conjuncts r)" by (intro ext) simp
  with EAnd show ?case by (simp add: lower_all_append)
qed simp_all

lemma conjuncts_not_and: "x \<in> set (conjuncts e) \<Longrightarrow> \<not> is_and x"
  by (induction e) (auto simp: is_and_def)

text \<open>An accepted list of conjuncts: the filter it builds, and which lists those are.\<close>

definition lits_first_last :: "expr list \<Rightarrow> filter_dsl \<Rightarrow> bool" where
  "lits_first_last xs f \<longleftrightarrow>
     (\<exists>ors lits. xs = ors @ lits \<and> (blocked f \<longrightarrow> ors = []) \<and>
        list_all (\<lambda>x. is_or x \<and> list_all is_leaf (disjuncts x)) ors \<and> list_all is_literal lits)"

lemma literal_not_or: "is_literal x \<Longrightarrow> \<not> is_or x"
  by (cases x) (simp_all add: is_literal_def is_leaf_def)

lemma blocked_add: "is_literal x \<Longrightarrow> blocked (add_conjunct x f)"
  by (cases x) (simp_all add: blocked_def add_conjunct_def push_def is_literal_def is_leaf_def)

lemma blocked_add_or: "is_or x \<Longrightarrow> blocked (add_conjunct x f) = blocked f"
  by (simp add: blocked_def add_conjunct_def)

lemma lits_first_last_Cons:
  "lits_first_last (x # xs) f \<longleftrightarrow> accepts f x \<and> lits_first_last xs (add_conjunct x f)"
  (is "?l \<longleftrightarrow> ?r")
proof
  assume ?l
  then obtain ors lits where s: "x # xs = ors @ lits" "blocked f \<longrightarrow> ors = []"
    "list_all (\<lambda>x. is_or x \<and> list_all is_leaf (disjuncts x)) ors" "list_all is_literal lits"
    by (auto simp: lits_first_last_def)
  show ?r
  proof (cases ors)
    case Nil
    with s have "accepts f x" "xs = [] @ xs" "list_all is_literal xs" by (auto simp: accepts_def)
    then show ?thesis unfolding lits_first_last_def by fastforce
  next
    case (Cons o' os)
    with s show ?thesis by (auto simp: accepts_def lits_first_last_def blocked_add_or)
  qed
next
  assume r: ?r
  then obtain ors lits where s: "xs = ors @ lits" "blocked (add_conjunct x f) \<longrightarrow> ors = []"
    "list_all (\<lambda>x. is_or x \<and> list_all is_leaf (disjuncts x)) ors" "list_all is_literal lits"
    by (auto simp: lits_first_last_def)
  show ?l
  proof (cases "is_literal x")
    case True
    with s have "x # xs = [] @ (x # lits)" "list_all is_literal (x # lits)" by (auto simp: blocked_add)
    then show ?thesis unfolding lits_first_last_def by fastforce
  next
    case False
    with r s have "x # xs = (x # ors) @ lits" "\<not> blocked f"
      "list_all (\<lambda>x. is_or x \<and> list_all is_leaf (disjuncts x)) (x # ors)"
      by (auto simp: accepts_def)
    with s(4) show ?thesis unfolding lits_first_last_def by blast
  qed
qed

lemma lower_all_iff:
  "\<forall>x \<in> set xs. \<not> is_and x \<Longrightarrow>
   (lits_first_last xs f \<longrightarrow> lower_all xs f = Inr (fold add_conjunct xs f)) \<and>
   (\<not> lits_first_last xs f \<longrightarrow> (\<exists>e. lower_all xs f = Inl e))"
proof (induction xs arbitrary: f)
  case Nil
  then show ?case by (simp add: lits_first_last_def)
next
  case (Cons x xs)
  show ?case
  proof (cases "accepts f x")
    case True
    with Cons.prems have "lower_expr x f Must = Inr (add_conjunct x f)" by (simp add: lower_conjunct)
    with Cons.IH [of "add_conjunct x f"] Cons.prems True show ?thesis by (simp add: lits_first_last_Cons)
  next
    case False
    with Cons.prems lower_conjunct_refuses [of x f] show ?thesis by (auto simp: lits_first_last_Cons)
  qed
qed


section \<open>What the filter means\<close>

definition or_part :: "expr \<Rightarrow> expr list" where
  "or_part e = filter is_or (conjuncts e)"

definition literal_part :: "expr \<Rightarrow> expr list" where
  "literal_part e = filter (\<lambda>x. \<not> is_or x) (conjuncts e)"

lemma eval_conjuncts: "eval_expr hav m e \<longleftrightarrow> (\<forall>x \<in> set (conjuncts e). eval_expr hav m x)"
  by (induction e) auto

lemma eval_disjuncts: "eval_expr hav m e \<longleftrightarrow> (\<exists>x \<in> set (disjuncts e). eval_expr hav m x)"
  by (induction e) auto

lemma disjuncts_ne [simp]: "disjuncts e \<noteq> []"
  by (induction e) simp_all

lemma filter_matches_or:
  assumes "is_or x" "list_all is_leaf (disjuncts x)"
  shows "f_must (add_conjunct x f) = f_must f" "f_must_not (add_conjunct x f) = f_must_not f"
    "f_should (add_conjunct x f) = f_should f @ map cond_of (disjuncts x)"
    "(\<exists>c \<in> cond_of ` set (disjuncts x). cond_matches hav c m) \<longleftrightarrow> eval_expr hav m x"
  using assms
  by (simp_all add: add_conjunct_def eval_disjuncts [of hav m x] list_all_iff)

lemma add_literal:
  "is_literal x \<Longrightarrow>
   (is_leaf x \<and> add_conjunct x f = push Must (cond_of x) f) \<or>
   (\<exists>y. x = ENot y \<and> is_leaf y \<and> add_conjunct x f = push MustNot (cond_of y) f)"
  by (cases x) (simp_all add: is_literal_def is_leaf_def add_conjunct_def)

lemma filter_matches_literal:
  "is_literal x \<Longrightarrow>
   filter_matches hav (add_conjunct x f) m \<longleftrightarrow> filter_matches hav f m \<and> eval_expr hav m x"
  using add_literal [of x f] by (auto simp: push_def filter_matches_def)

lemma fold_literals:
  "list_all is_literal xs \<Longrightarrow>
   filter_matches hav (fold add_conjunct xs f) m \<longleftrightarrow>
     filter_matches hav f m \<and> (\<forall>x \<in> set xs. eval_expr hav m x)"
  by (induction xs arbitrary: f) (auto simp: filter_matches_literal)

lemma fold_ors:
  "list_all (\<lambda>x. is_or x \<and> list_all is_leaf (disjuncts x)) xs \<Longrightarrow>
   f_must (fold add_conjunct xs f) = f_must f \<and> f_must_not (fold add_conjunct xs f) = f_must_not f \<and>
   f_should (fold add_conjunct xs f) = f_should f @ concat (map (\<lambda>x. map cond_of (disjuncts x)) xs)"
  by (induction xs arbitrary: f) (auto simp: filter_matches_or)

lemma fold_ors_matches:
  assumes "list_all (\<lambda>x. is_or x \<and> list_all is_leaf (disjuncts x)) xs"
  shows "filter_matches hav (fold add_conjunct xs filter_default) m \<longleftrightarrow>
     xs = [] \<or> (\<exists>x \<in> set xs. eval_expr hav m x)"
proof -
  have "(\<exists>c \<in> set (concat (map (\<lambda>x. map cond_of (disjuncts x)) xs)). cond_matches hav c m)
      \<longleftrightarrow> (\<exists>x \<in> set xs. eval_expr hav m x)"
    using assms filter_matches_or(4) [where hav = hav and m = m] by (fastforce simp: list_all_iff)
  with fold_ors [OF assms, of filter_default] show ?thesis
    by (cases xs) (auto simp: filter_matches_def filter_default_def list_ex_iff)
qed

lemma lower_meaning:
  assumes "lower_expr e filter_default Must = Inr f"
  shows "filter_matches hav f m \<longleftrightarrow>
     (\<forall>x \<in> set (literal_part e). eval_expr hav m x) \<and>
     (or_part e = [] \<or> (\<exists>x \<in> set (or_part e). eval_expr hav m x))"
proof -
  have l: "lower_all (conjuncts e) filter_default = Inr f" using assms by (simp add: lower_conjuncts)
  have na: "\<forall>x \<in> set (conjuncts e). \<not> is_and x" using conjuncts_not_and by blast
  from lower_all_iff [OF na, of filter_default] l
  have s: "lits_first_last (conjuncts e) filter_default" and f: "f = fold add_conjunct (conjuncts e) filter_default"
    by (metis Inl_Inr_False sum.inject(2))+
  from s obtain ors lits where c: "conjuncts e = ors @ lits"
    and os: "list_all (\<lambda>x. is_or x \<and> list_all is_leaf (disjuncts x)) ors" and i: "list_all is_literal lits"
    by (auto simp: lits_first_last_def)
  have "or_part e = ors" "literal_part e = lits"
    using os i literal_not_or by (auto simp: or_part_def literal_part_def c list_all_iff filter_id_conv filter_empty_conv)
  then show ?thesis using fold_ors_matches [OF os, of hav m] fold_literals [OF i, of hav _ m]
    by (auto simp: f c)
qed


text \<open>
  The expressions lowering accepts: conjunctions whose \<open>OR\<close>s, of leaves only, come before
  every other conjunct, each of which is a literal.
\<close>

definition expressible :: "expr \<Rightarrow> bool" where
  "expressible e \<longleftrightarrow>
     (\<exists>ors lits. conjuncts e = ors @ lits \<and>
        list_all (\<lambda>x. is_or x \<and> list_all is_leaf (disjuncts x)) ors \<and> list_all is_literal lits)"

section \<open>The properties\<close>

lemma lower_accepts_iff: "(\<exists>f. lower_expr e filter_default Must = Inr f) \<longleftrightarrow> expressible e"
proof -
  have na: "\<forall>x \<in> set (conjuncts e). \<not> is_and x" using conjuncts_not_and by blast
  have "lits_first_last (conjuncts e) filter_default \<longleftrightarrow> expressible e"
    by (simp add: lits_first_last_def expressible_def blocked_def filter_default_def)
  then show ?thesis using lower_all_iff [OF na, of filter_default] unfolding lower_conjuncts
    by (metis Inl_Inr_False)
qed

text \<open>Lowering accepts exactly the conjunctions whose ORs, each of plain conditions, all
  come before the other conjuncts, and those are conditions or negated conditions.  Every
  other \<open>WHERE\<close> is refused, and \<open>SELECT\<close> keeps its collection and limit (10 by default).\<close>

lemma lower_accepts:
  "(\<exists>q. lower_select \<lparr>sel_from = c, sel_where = Some e, sel_limit = l\<rparr> = Inr q) \<longleftrightarrow> expressible e"
  unfolding lower_accepts_iff [symmetric]
  by (auto simp: lower_select_def Let_def bind_result_Inr_iff)

text \<open>C14: what an accepted \<open>WHERE\<close> selects: its literals all hold and, when it has ORs, some
  alternative of some OR holds.  So with at most one OR the filter selects exactly the records
  the expression is true of.\<close>

theorem lower_select_meaning:
  assumes "lower_select \<lparr>sel_from = c, sel_where = Some e, sel_limit = l\<rparr> = Inr q"
  shows "q_collection q = c \<and> q_top_k q = (case l of None \<Rightarrow> 10 | Some n \<Rightarrow> n) \<and>
    (\<exists>f. q_dsl q = Some f \<and>
       (filter_matches hav f m \<longleftrightarrow>
          (\<forall>x \<in> set (literal_part e). eval_expr hav m x) \<and>
          (or_part e = [] \<or> (\<exists>x \<in> set (or_part e). eval_expr hav m x))) \<and>
       (length (or_part e) \<le> 1 \<longrightarrow> (filter_matches hav f m \<longleftrightarrow> eval_expr hav m e)))"
proof -
  obtain f where f: "lower_expr e filter_default Must = Inr f"
    and q: "q = query_of (case l of None \<Rightarrow> default_limit | Some n \<Rightarrow> n) c (Some f)"
    using assms by (auto simp: lower_select_def Let_def bind_result_Inr_iff)
  have ev: "eval_expr hav m e \<longleftrightarrow>
      (\<forall>x \<in> set (literal_part e). eval_expr hav m x) \<and> (\<forall>x \<in> set (or_part e). eval_expr hav m x)"
    using eval_conjuncts [of hav m e] by (auto simp: literal_part_def or_part_def)
  have "length (or_part e) \<le> 1 \<Longrightarrow> or_part e = [] \<or> (\<exists>x. or_part e = [x])"
    by (cases "or_part e"; cases "tl (or_part e)") auto
  with lower_meaning [OF f, of hav m] ev show ?thesis
    by (auto simp: q query_of_def default_limit_def split: option.splits)
qed

theorem lower_select_meaning_witness:
  "\<exists>q f. lower_select \<lparr>sel_from = None,
       sel_where = Some (EAnd (EOr (EExists ''a'') (EExists ''b'')) (ENot (EExists ''c''))),
       sel_limit = None\<rparr> = Inr q
     \<and> q_dsl q = Some f \<and> \<not> filter_matches (\<lambda>_ _ _ _. f64_zero) f [(''a'', JNull), (''c'', JNull)]" (is "\<exists>q f. ?l = Inr q \<and> _")
proof -
  let ?f = "\<lparr>f_must = [], f_should = [CExists ''a'', CExists ''b''], f_must_not = [CExists ''c'']\<rparr>"
  have q: "?l = Inr (query_of default_limit None (Some ?f))"
    by (simp add: lower_select_def lower_leaf_def is_compound_def filter_default_def push_def)
  from lower_select_meaning [OF q, of "\<lambda>_ _ _ _. f64_zero" "[(''a'', JNull), (''c'', JNull)]"] q
  show ?thesis by (auto simp: or_part_def)
qed

text \<open>Two ORs in a conjunction are accepted and merged into one: the query
  \<open>(a IS EXISTS OR b IS EXISTS) AND (c IS EXISTS OR d IS EXISTS)\<close> lowers without an error to a
  filter that selects a record with the field \<open>a\<close> alone, of which the expression is false.\<close>

lemma lower_merges_ors:
  "\<exists>stmt q f. parse ''SELECT * WHERE (a IS EXISTS OR b IS EXISTS) AND (c IS EXISTS OR d IS EXISTS)'' = Inr (SSelect stmt) \<and>
     lower_select stmt = Inr q \<and> q_dsl q = Some f \<and>
     filter_matches hav f [(''a'', JNull)] \<and> \<not> eval_expr hav [(''a'', JNull)] (the (sel_where stmt))"
proof -
  have "parse ''SELECT * WHERE (a IS EXISTS OR b IS EXISTS) AND (c IS EXISTS OR d IS EXISTS)'' =
    Inr (SSelect \<lparr>sel_from = None, sel_where =
      Some (EAnd (EOr (EExists ''a'') (EExists ''b'')) (EOr (EExists ''c'') (EExists ''d''))),
      sel_limit = None\<rparr>)"
    by code_simp
  moreover have "lower_select \<lparr>sel_from = None, sel_where =
      Some (EAnd (EOr (EExists ''a'') (EExists ''b'')) (EOr (EExists ''c'') (EExists ''d''))),
      sel_limit = None\<rparr> = Inr (query_of default_limit None (Some
        \<lparr>f_must = [], f_should = map CExists [''a'', ''b'', ''c'', ''d''], f_must_not = []\<rparr>))"
    by (simp add: lower_select_def lower_leaf_def filter_default_def push_def)
  moreover have "filter_matches hav
      \<lparr>f_must = [], f_should = map CExists [''a'', ''b'', ''c'', ''d''], f_must_not = []\<rparr> [(''a'', JNull)]"
    by (simp add: filter_matches_def)
  ultimately show ?thesis
    by (intro exI conjI) (assumption | simp add: query_of_def)+
qed

end
