(* ===== verification/Bytes.thy ===== *)
theory Bytes
  imports Float64
begin

text \<open>
  Fixed-width integers as bytes, big-endian (the keys of the store, whose byte order must be
  the numeric order) and little-endian (the stored values), and what an order-preserving
  encoding of a key segment gives to the rows that carry it: the locale \<open>sortable_codec\<close>.
\<close>

unbundle bit_operations_syntax

section \<open>Big-endian and little-endian\<close>

fun be_bytes :: "nat \<Rightarrow> nat \<Rightarrow> bytes" where
  "be_bytes 0 v = []"
| "be_bytes (Suc n) v = char_of (v div 256 ^ n) # be_bytes n v"

definition of_be :: "bytes \<Rightarrow> nat" where
  "of_be b = foldl (\<lambda>a c. a * 256 + byte_val c) 0 b"

definition le_bytes :: "nat \<Rightarrow> nat \<Rightarrow> bytes" where
  "le_bytes n v = rev (be_bytes n v)"

definition of_le :: "bytes \<Rightarrow> nat" where
  "of_le b = of_be (rev b)"

lemma length_be_bytes [simp]: "length (be_bytes n v) = n"
  by (induction n) simp_all

lemma length_le_bytes [simp]: "length (le_bytes n v) = n"
  by (simp add: le_bytes_def)

lemma foldl_be_bytes:
  "foldl (\<lambda>a c. a * 256 + byte_val c) k (be_bytes n v) = k * 256 ^ n + v mod 256 ^ n"
proof (induction n arbitrary: k)
  case (Suc n)
  have "v mod (256 ^ n * 256) = v mod 256 ^ n + 256 ^ n * (v div 256 ^ n mod 256)"
    by (simp add: mod_mult2_eq)
  with Suc show ?case by (simp add: byte_val_char_of algebra_simps)
qed simp

lemma of_be_bytes: "of_be (be_bytes n v) = v mod 256 ^ n"
  by (simp add: of_be_def foldl_be_bytes)

lemma of_be_bytes_id [simp]: "v < 256 ^ n \<Longrightarrow> of_be (be_bytes n v) = v"
  by (simp add: of_be_bytes)

lemma of_le_bytes [simp]: "v < 256 ^ n \<Longrightarrow> of_le (le_bytes n v) = v"
  by (simp add: of_le_def le_bytes_def)

text \<open>Lexicographic order of fixed-width big-endian numbers is numeric order.\<close>

lemma be_bytes_less_mod: "be_bytes n v < be_bytes n w \<longleftrightarrow> v mod 256 ^ n < w mod 256 ^ n"
proof (induction n)
  case (Suc n)
  have d: "x mod (256 ^ n * 256) = 256 ^ n * (x div 256 ^ n mod 256) + x mod 256 ^ n" for x :: nat
    by (simp add: mod_mult2_eq)
  have lt: "x mod 256 ^ n < 256 ^ n" for x :: nat by simp
  have m: "256 ^ n * a + b < 256 ^ n * c + d \<longleftrightarrow> a < c \<or> a = c \<and> b < d"
    if "b < 256 ^ n" "d < 256 ^ n" for a b c d :: nat
  proof -
    have *: "256 ^ n * a + b < 256 ^ n * c + d" if "a < c" "b < 256 ^ n" for a b c d :: nat
    proof -
      have "256 ^ n * a + b < 256 ^ n * Suc a" using that(2) by simp
      also have "\<dots> \<le> 256 ^ n * c" using that(1) by (intro mult_le_mono2) simp
      finally show ?thesis by simp
    qed
    from * [of a c b d] * [of c a d b] that show ?thesis by (cases a c rule: linorder_cases) auto
  qed
  note dv = d [of v] and dw = d [of w]
  show ?case
    unfolding power_Suc mult.commute [of 256 "256 ^ n"] dv dw
    using Suc m [OF lt lt, of "v div 256 ^ n mod 256" v "w div 256 ^ n mod 256" w]
    by (simp add: byte_val_less byte_val_char_of flip: byte_val_inject)
qed simp

lemma be_bytes_less: "v < 256 ^ n \<Longrightarrow> w < 256 ^ n \<Longrightarrow> be_bytes n v < be_bytes n w \<longleftrightarrow> v < w"
  by (simp add: be_bytes_less_mod)

lemma be_bytes_inject: "v < 256 ^ n \<Longrightarrow> w < 256 ^ n \<Longrightarrow> be_bytes n v = be_bytes n w \<longleftrightarrow> v = w"
  by (metis of_be_bytes_id)

lemma unat_of_nat64: "n < 2 ^ 64 \<Longrightarrow> unat (of_nat n :: 64 word) = n"
  by (simp add: unsigned_of_nat take_bit_nat_eq_self)

lemma unat64_bound [simp]: "unat (x :: 64 word) < 256 ^ 8"
  using unsigned_less [of x, where 'a = nat] by simp

section \<open>Bits of a 64-bit pattern\<close>

lemma unat_sign_mag: "unat w = (if bit w 63 then 2 ^ 63 else 0) + unat (take_bit 63 w)" for w :: "64 word"
proof -
  have b: "bit w 63 \<longleftrightarrow> odd (unat w div 2 ^ 63)"
    using bit_unsigned_iff [of w 63, where 'a = nat] by (simp add: bit_iff_odd)
  have lt: "unat w < 2 ^ 64" using unsigned_less [of w, where 'a = nat] by simp
  then have "unat w div 2 ^ 63 < 2" by (simp add: div_less_iff_less_mult)
  then have q: "unat w div 2 ^ 63 = (if bit w 63 then 1 else 0)" unfolding b
    by (cases "unat w div 2 ^ 63") (auto simp: less_Suc_eq numeral_2_eq_2)
  have m: "unat (take_bit 63 w) = unat w mod 2 ^ 63"
    by (simp only: unsigned_take_bit_eq) (simp add: take_bit_eq_mod)
  have "unat w = unat w div 2 ^ 63 * 2 ^ 63 + unat w mod 2 ^ 63"
    by (rule div_mult_mod_eq [symmetric])
  then show ?thesis unfolding q m by (cases "bit w 63") (simp_all only: if_True if_False mult_1 mult_zero_left simp_thms)
qed

lemma unat_take63 [simp]: "unat (take_bit 63 w) < 2 ^ 63" for w :: "64 word"
  by (simp only: unsigned_take_bit_eq) (simp add: take_bit_eq_mod)

text \<open>\<open>!bits\<close>, \<open>bits | 1 << 63\<close> and \<open>bits ^ 1 << 63\<close> on the value.\<close>

lemma unat_not: "unat (NOT w) = 2 ^ 64 - 1 - unat w" for w :: "64 word"
proof -
  have lt: "unat w < 2 ^ 64" using unsigned_less [of w, where 'a = nat] by simp
  have "uint (NOT w) = take_bit 64 (NOT (uint w))" by (simp add: unsigned_not_eq)
  also have "\<dots> = (- uint w - 1) mod 2 ^ 64" by (simp add: take_bit_eq_mod not_int_def)
  also have "\<dots> = 2 ^ 64 - 1 - uint w"
  proof -
    have "(- uint w - 1) mod 2 ^ 64 = (- uint w - 1 + 2 ^ 64) mod 2 ^ 64"
      by (rule mod_add_self2 [symmetric])
    also have "\<dots> = - uint w - 1 + 2 ^ 64"
    proof (rule mod_pos_pos_trivial)
      have "0 \<le> uint w" "uint w < 2 ^ 64" using unsigned_less [of w, where 'a = int] by simp_all
      then show "0 \<le> - uint w - 1 + 2 ^ 64" "- uint w - 1 + 2 ^ 64 < 2 ^ 64" by linarith+
    qed
    finally show ?thesis by simp
  qed
  finally have "int (unat (NOT w)) = 2 ^ 64 - 1 - int (unat w)" by simp
  with lt show ?thesis by (intro of_nat_eq_iff [where 'a = int, THEN iffD1]) (simp add: of_nat_diff)
qed

lemma unat_set63: "\<not> bit w 63 \<Longrightarrow> unat (w OR push_bit 63 1) = unat w + 2 ^ 63" for w :: "64 word"
proof -
  assume b: "\<not> bit w 63"
  have lt: "unat w < 2 ^ 63" using unat_sign_mag [of w] b unat_take63 [of w] by (simp only: if_False)
  have "w OR push_bit 63 1 = w + 2 ^ 63" using b by (simp only: set_bit_eq_or [symmetric] set_bit_eq) simp
  also have "unat \<dots> = unat w + 2 ^ 63"
    using lt by (simp add: unat_word_ariths)
  finally show ?thesis .
qed


lemma sint_eq: "sint w = int (unat (take_bit 63 w)) - (if bit w 63 then 2 ^ 63 else 0)" for w :: "64 word"
proof -
  have "sint w = take_bit 64 (uint w) - 2 ^ 64 * of_bool (bit w 63)"
    by (simp add: sint_uint signed_take_bit_eq_take_bit_minus bit_uint_iff)
  also have "take_bit 64 (uint w) = int (unat w)"
    using unsigned_less [of w, where 'a = int] by (simp add: take_bit_int_eq_self_iff)
  finally show ?thesis by (subst (asm) unat_sign_mag) simp
qed

lemma unat_flip63: "int (unat (w XOR push_bit 63 1)) = sint w + 2 ^ 63" for w :: "64 word"
proof (cases "bit w 63")
  case False
  then have "w XOR push_bit 63 1 = w OR push_bit 63 1"
    by (simp only: flip_bit_eq_xor [symmetric] set_bit_eq_or [symmetric] flip_bit_eq_if) simp
  with False unat_set63 [OF False] unat_sign_mag [of w] show ?thesis by (simp add: sint_eq)
next
  case True
  then have "w XOR push_bit 63 1 = w - 2 ^ 63"
    by (simp only: flip_bit_eq_xor [symmetric] flip_bit_eq_if if_True) (simp add: unset_bit_eq)
  also have "\<dots> = take_bit 63 w"
  proof -
    have "w = word_of_nat (unat w)" by simp
    also have "\<dots> = word_of_nat (2 ^ 63 + unat (take_bit 63 w))" by (subst unat_sign_mag) (use True in simp)
    also have "\<dots> = 2 ^ 63 + take_bit 63 w" by simp
    finally have "w = 2 ^ 63 + take_bit 63 w" .
    then show ?thesis by (metis add_diff_cancel_left')
  qed
  finally show ?thesis using True by (simp add: sint_eq)
qed

section \<open>Order-preserving encodings of a key segment\<close>

lemma same_length_less:
  "length a = length b \<Longrightarrow> a @ r < b @ s \<longleftrightarrow> a < b \<or> a = b \<and> r < s" for a b r s :: bytes
  by (induction a b rule: list_induct2) auto

lemma same_length_le_append:
  "length a = length b \<Longrightarrow> a \<le> b @ s \<longleftrightarrow> a \<le> b" for a b s :: bytes
  by (induction a b rule: list_induct2) (auto simp: Cons_le_Cons)

locale sortable_codec =
  fixes enc :: "'a \<Rightarrow> bytes" and dec :: "bytes \<Rightarrow> 'a" and below :: "'a \<Rightarrow> 'a \<Rightarrow> bool" and width :: nat
  assumes enc_length: "length (enc x) = width"
    and enc_less: "enc x < enc y \<longleftrightarrow> below x y"
    and dec_enc: "dec (enc x) = x"
begin

lemma enc_inject: "enc x = enc y \<longleftrightarrow> x = y"
  by (metis dec_enc)

lemma enc_le: "enc x \<le> enc y \<longleftrightarrow> \<not> below y x"
  by (simp add: not_less [symmetric] enc_less del: not_less)

lemma below_linear: "below x y \<or> x = y \<or> below y x"
  by (metis enc_inject enc_less linorder_less_linear)

lemma below_trans: "below x y \<Longrightarrow> below y z \<Longrightarrow> below x z"
  by (metis enc_less less_trans)

lemma value_less: "enc x @ r < enc y @ s \<longleftrightarrow> below x y \<or> x = y \<and> r < s"
  by (simp add: same_length_less enc_length enc_less enc_inject)

text \<open>Rows under one prefix sort by the value, then by what follows it.\<close>

lemma row_less: "p @ enc x @ r < p @ enc y @ s \<longleftrightarrow> below x y \<or> x = y \<and> r < s"
  by (simp add: value_less)

text \<open>A scan from the encoded bound starts at the first row whose value is not below it.\<close>

lemma from_bound: "p @ enc lo \<le> p @ enc x @ r \<longleftrightarrow> \<not> below x lo"
  by (simp add: same_length_le_append enc_length enc_le)

lemma dec_row: "dec (take width (enc x @ r)) = x"
  by (simp add: enc_length dec_enc)

end

end
