(* ===== verification/Geo.thy ===== *)
theory Geo
  imports Query Bytes
begin

text \<open>
  The Z-order code of a point, \<open>crates/rro-core/src/geo.rs\<close>: each coordinate is quantized to
  26 bits and the bits are interleaved.  One range of codes covers a box because the code is
  monotone in each coordinate.
\<close>

unbundle bit_operations_syntax

definition geo_bits :: nat where
  "geo_bits = 26"

definition quantize :: "f64 \<Rightarrow> f64 \<Rightarrow> f64 \<Rightarrow> nat" where
  "quantize x lo hi =
     (let t = f64_clamp (f64_div (f64_sub x lo) (f64_sub hi lo)) (f64_of_nat 0) (f64_of_nat 1) in
      f64_to_usize (f64_round (f64_mul t (f64_of_nat (2 ^ geo_bits - 1)))))"

definition interleave_step :: "64 word \<Rightarrow> 64 word \<Rightarrow> nat \<Rightarrow> 64 word \<Rightarrow> 64 word" where
  "interleave_step a b i out =
     (out OR push_bit (2 * i) (drop_bit i a AND 1)) OR push_bit (2 * i + 1) (drop_bit i b AND 1)"

definition interleave :: "64 word \<Rightarrow> 64 word \<Rightarrow> 64 word" where
  "interleave a b = fold (interleave_step a b) [0..<geo_bits] 0"

definition morton :: "f64 \<Rightarrow> f64 \<Rightarrow> 64 word" where
  "morton lat lon =
     interleave (of_nat (quantize lat (f64_of_int (- 90)) (f64_of_int 90)))
                (of_nat (quantize lon (f64_of_int (- 180)) (f64_of_int 180)))"

section \<open>Interleaving\<close>

text \<open>\<open>spread a\<close>: the bits of \<open>a\<close> moved to the even places.\<close>

function spread :: "nat \<Rightarrow> nat" where
  "spread a = (if a = 0 then 0 else a mod 2 + 4 * spread (a div 2))"
  by pat_completeness auto
termination
  by (relation "measure id") auto

declare spread.simps [simp del]

lemma spread_0 [simp]: "spread 0 = 0"
  by (simp add: spread.simps)

lemma spread_step: "spread a = a mod 2 + 4 * spread (a div 2)"
  by (cases "a = 0") (simp_all add: spread.simps [of a])

lemma spread_less: "a < b \<Longrightarrow> spread a < spread b"
proof (induction b arbitrary: a rule: less_induct)
  case (less b)
  have "a div 2 \<le> b div 2" using less.prems by (simp add: div_le_mono)
  then consider "a div 2 = b div 2" | "a div 2 < b div 2" by linarith
  then show ?case
  proof cases
    case 1
    with less.prems have "a mod 2 < b mod 2" by (metis div_mult_mod_eq nat_add_left_cancel_less)
    with 1 show ?thesis by (simp add: spread_step [of a] spread_step [of b])
  next
    case 2
    with less have "spread (a div 2) < spread (b div 2)" by simp
    then have "a mod 2 + 4 * spread (a div 2) < b mod 2 + 4 * spread (b div 2)" by simp
    then show ?thesis by (simp add: spread_step [of a] spread_step [of b])
  qed
qed

lemma spread_le: "a \<le> b \<Longrightarrow> spread a \<le> spread b"
  using spread_less [of a b] by (cases "a = b") auto

text \<open>A number whose even bits are those of \<open>a\<close> and whose odd bits are those of \<open>b\<close>.\<close>

definition interleaves :: "nat \<Rightarrow> nat \<Rightarrow> nat \<Rightarrow> bool" where
  "interleaves w a b \<longleftrightarrow> (\<forall>k. bit w k \<longleftrightarrow> (if even k then bit a (k div 2) else bit b (k div 2)))"

lemma interleaves_div:
  assumes "interleaves w a b"
  shows "interleaves (w div 4) (a div 2) (b div 2)"
  unfolding interleaves_def
proof
  fix k
  have "bit (w div 4) k = bit w (k + 2)"
    using bit_drop_bit_eq [of 2 w] by (simp add: drop_bit_eq_div fun_eq_iff add.commute)
  also have "\<dots> = (if even k then bit a (Suc (k div 2)) else bit b (Suc (k div 2)))"
    using assms by (simp add: interleaves_def)
  finally show "bit (w div 4) k = (if even k then bit (a div 2) (k div 2) else bit (b div 2) (k div 2))"
    by (simp only: bit_Suc)
qed

lemma interleaves_mod:
  assumes "interleaves w a b"
  shows "w mod 4 = a mod 2 + 2 * (b mod 2)"
proof -
  have "bit w 0 = bit a 0" using assms [unfolded interleaves_def, rule_format, of 0] by simp
  moreover have "bit w (Suc 0) = bit b 0" using assms [unfolded interleaves_def, rule_format, of 1] by simp
  ultimately have "odd w = odd a" "odd (w div 2) = odd b" by (simp_all only: bit_0 bit_Suc)
  then have "w mod 2 = a mod 2" "w div 2 mod 2 = b mod 2" by (simp_all add: mod2_eq_if)
  then show ?thesis using mod_mult2_eq [of w 2 2] by simp
qed

lemma interleaves_spread: "interleaves w a b \<Longrightarrow> w = spread a + 2 * spread b"
proof (induction "a + b" arbitrary: w a b rule: less_induct)
  case less
  show ?case
  proof (cases "a + b = 0")
    case True
    with less.prems have "w = 0" by (intro bit_eqI) (simp add: interleaves_def)
    with True show ?thesis by simp
  next
    case False
    have "w div 4 = spread (a div 2) + 2 * spread (b div 2)"
      by (rule less.hyps [OF _ interleaves_div [OF less.prems]]) (use False in auto)
    moreover have "w mod 4 = a mod 2 + 2 * (b mod 2)" using less.prems by (rule interleaves_mod)
    moreover have "w = 4 * (w div 4) + w mod 4" by (rule mult_div_mod_eq [symmetric])
    ultimately have "w = 4 * (spread (a div 2) + 2 * spread (b div 2)) + (a mod 2 + 2 * (b mod 2))"
      by presburger
    then show ?thesis unfolding spread_step [of a] spread_step [of b] by (simp only: ac_simps distrib_left)
  qed
qed

lemma bit_interleave_step:
  assumes "i < 26"
  shows "bit (interleave_step a b i out) k \<longleftrightarrow>
     bit out k \<or> k = 2 * i \<and> bit a i \<or> k = 2 * i + 1 \<and> bit b i"
proof -
  have "bit (drop_bit i x AND 1) n \<longleftrightarrow> n = 0 \<and> bit x i" for x :: "64 word" and n
    by (auto simp only: bit_and_iff bit_1_iff bit_drop_bit_eq comp_def add_0_right)
  then show ?thesis using assms
    by (auto simp only: interleave_step_def bit_or_iff bit_push_bit_iff possible_bit_word) auto
qed

lemma bit_fold_interleave:
  "n \<le> 26 \<Longrightarrow> bit (fold (interleave_step a b) [0..<n] 0) k \<longleftrightarrow>
     k < 2 * n \<and> (if even k then bit a (k div 2) else bit b (k div 2))"
proof (induction n)
  case (Suc n)
  then show ?case
    by (cases "k = 2 * n"; cases "k = 2 * n + 1") (auto simp: bit_interleave_step)
qed simp

lemma interleave_interleaves:
  assumes "a < 2 ^ 26" "b < 2 ^ 26"
  shows "interleaves (unat (interleave (of_nat a) (of_nat b))) a b"
proof (unfold interleaves_def, rule allI)
  fix k
  have bit: "bit (of_nat x :: 64 word) n = bit x n" "26 \<le> n \<Longrightarrow> \<not> bit x n" if "x < 2 ^ 26" for x n
  proof -
    show b: "26 \<le> n \<Longrightarrow> \<not> bit x n"
      using that power_increasing [of 26 n "2 :: nat"] by (simp add: bit_iff_odd)
    have "unat (of_nat x :: 64 word) = x" using that
      by (simp only: unsigned_of_nat) (simp add: take_bit_nat_eq_self)
    then show "bit (of_nat x :: 64 word) n = bit x n"
      using bit_unsigned_iff [of "of_nat x :: 64 word" n, where 'a = nat] by simp
  qed
  have "bit (unat (interleave (of_nat a) (of_nat b))) k
      \<longleftrightarrow> bit (interleave (of_nat a) (of_nat b)) k"
    by (simp add: bit_unsigned_iff)
  also have "\<dots> \<longleftrightarrow> k < 52 \<and> (if even k then bit a (k div 2) else bit b (k div 2))"
    by (simp add: interleave_def geo_bits_def bit_fold_interleave bit(1) [OF assms(1)] bit(1) [OF assms(2)])
  also have "\<dots> \<longleftrightarrow> (if even k then bit a (k div 2) else bit b (k div 2))"
    using bit(2) [OF assms(1), of "k div 2"] bit(2) [OF assms(2), of "k div 2"]
    by (cases "k < 52") (auto simp: not_less less_eq_div_iff_mult_less_eq)
  finally show "bit (unat (interleave (of_nat a) (of_nat b))) k =
      (if even k then bit a (k div 2) else bit b (k div 2))" .
qed

lemma unat_interleave:
  "a < 2 ^ 26 \<Longrightarrow> b < 2 ^ 26 \<Longrightarrow>
   unat (interleave (of_nat a) (of_nat b)) = spread a + 2 * spread b"
  by (rule interleaves_spread) (rule interleave_interleaves)

lemma interleaves_bits: "interleaves w a b \<Longrightarrow> bit a k = bit w (2 * k) \<and> bit b k = bit w (2 * k + 1)"
  by (simp add: interleaves_def)

text \<open>C35: the interleaving of two 26-bit coordinates is monotone in each, and no two pairs of
  coordinates share a code, so the codes of a box's points lie between its corners' codes.\<close>

theorem interleave_monotone:
  assumes "a < 2 ^ 26" "b < 2 ^ 26" "a' < 2 ^ 26" "b' < 2 ^ 26"
  shows "(a \<le> a' \<and> b \<le> b' \<longrightarrow>
          unat (interleave (of_nat a) (of_nat b)) \<le> unat (interleave (of_nat a') (of_nat b'))) \<and>
         (interleave (of_nat a) (of_nat b) = interleave (of_nat a') (of_nat b') \<longrightarrow> a = a' \<and> b = b')"
proof
  show "a \<le> a' \<and> b \<le> b' \<longrightarrow>
      unat (interleave (of_nat a) (of_nat b)) \<le> unat (interleave (of_nat a') (of_nat b'))"
    using assms spread_le [of a a'] spread_le [of b b'] by (auto simp: unat_interleave)
  show "interleave (of_nat a) (of_nat b) = interleave (of_nat a') (of_nat b') \<longrightarrow> a = a' \<and> b = b'"
  proof
    assume e: "interleave (of_nat a) (of_nat b) = interleave (of_nat a') (of_nat b')"
    let ?w = "interleave (of_nat a) (of_nat b)"
    have "interleaves (unat ?w) a b" by (rule interleave_interleaves [OF assms(1,2)])
    moreover have "interleaves (unat ?w) a' b'"
      unfolding e by (rule interleave_interleaves [OF assms(3,4)])
    ultimately have "bit a k = bit a' k" "bit b k = bit b' k" for k
      using interleaves_bits [of "unat ?w"] by blast+
    then show "a = a' \<and> b = b'" by (simp add: bit_eq_iff)
  qed
qed

theorem interleave_monotone_witness:
  "unat (interleave (of_nat 3) (of_nat 5)) \<le> unat (interleave (of_nat 4) (of_nat 5))"
  using interleave_monotone [of 3 5 4 5] by simp

end
