(* ===== verification/Keys.thy ===== *)
theory Keys
  imports Geo
begin

text \<open>
  The estate's physical layout, \<open>crates/connxism/src/keys.rs\<close>: the column families, the keys of
  their rows, the order-preserving encodings of index values and the stored form of vectors.
  The text of a JSON value that is neither a number, a string, a Boolean nor a point is a
  parameter (\<open>json_text\<close>, the serializer's compact form).
\<close>

unbundle bit_operations_syntax

section \<open>Column families and compound keys\<close>

datatype cf =
    CfMeta | CfNodes | CfConns | CfDocs | CfVecs | CfTerms | CfTags | CfTrends | CfRels | CfFeed
  | CfPidx | CfSparse | CfNvecs | CfMvecs | CfColl | CfTdf | CfGraph

definition column_families :: "cf list" where
  "column_families =
     [CfMeta, CfNodes, CfConns, CfDocs, CfVecs, CfTerms, CfTags, CfTrends, CfRels, CfFeed,
      CfPidx, CfSparse, CfNvecs, CfMvecs, CfColl, CfTdf, CfGraph]"

definition max_key_len :: nat where
  "max_key_len = 65536"

definition key_too_long :: "bytes \<Rightarrow> bool" where
  "key_too_long k \<longleftrightarrow> max_key_len < length k"

definition SEP :: byte where
  "SEP = CHR 0x00"

definition compound :: "bytes \<Rightarrow> bytes \<Rightarrow> bytes" where
  "compound a b = a @ [SEP] @ b"

definition key_prefix :: "bytes \<Rightarrow> bytes" where
  "key_prefix a = a @ [SEP]"

definition tag_key :: "bytes \<Rightarrow> bytes \<Rightarrow> bytes" where
  "tag_key tag doc_id = compound tag doc_id"

definition tag_prefix :: "bytes \<Rightarrow> bytes" where
  "tag_prefix tag = key_prefix tag"

definition term_key :: "bytes \<Rightarrow> bytes \<Rightarrow> bytes" where
  "term_key tm doc_id = compound tm doc_id"

definition term_prefix :: "bytes \<Rightarrow> bytes" where
  "term_prefix tm = key_prefix tm"

definition coll_key :: "bytes \<Rightarrow> bytes \<Rightarrow> bytes" where
  "coll_key collection doc_id = compound collection doc_id"

definition coll_prefix :: "bytes \<Rightarrow> bytes" where
  "coll_prefix collection = key_prefix collection"

definition nvec_key :: "bytes \<Rightarrow> bytes \<Rightarrow> bytes" where
  "nvec_key space doc_id = compound space doc_id"

definition nvec_prefix :: "bytes \<Rightarrow> bytes" where
  "nvec_prefix space = key_prefix space"

definition u64_be :: "64 word \<Rightarrow> bytes" where
  "u64_be w = be_bytes 8 (unat w)"

definition of_u64_be :: "bytes \<Rightarrow> 64 word" where
  "of_u64_be b = of_nat (of_be b)"

definition u32_be :: "32 word \<Rightarrow> bytes" where
  "u32_be w = be_bytes 4 (unat w)"

definition trend_key :: "bytes \<Rightarrow> 64 word \<Rightarrow> bytes" where
  "trend_key metric at_ns = metric @ [SEP] @ u64_be at_ns"

definition trend_prefix :: "bytes \<Rightarrow> bytes" where
  "trend_prefix metric = metric @ [SEP]"

definition sparse_key :: "32 word \<Rightarrow> bytes \<Rightarrow> bytes" where
  "sparse_key dim doc_id = u32_be dim @ [SEP] @ doc_id"

definition sparse_prefix :: "32 word \<Rightarrow> bytes" where
  "sparse_prefix dim = u32_be dim @ [SEP]"

definition split_compound :: "bytes \<Rightarrow> (bytes \<times> bytes) option" where
  "split_compound key =
     (let pos = scan_while (\<lambda>c. c \<noteq> SEP) key 0 in
      if pos < length key then Some (take pos key, drop (pos + 1) key) else None)"

definition REL_OUT :: byte where "REL_OUT = CHR ''o''"
definition REL_IN :: byte where "REL_IN = CHR ''i''"

definition rel_key :: "byte \<Rightarrow> bytes \<Rightarrow> bytes \<Rightarrow> bytes \<Rightarrow> bytes" where
  "rel_key dir anchor verb other = [dir] @ anchor @ [SEP] @ verb @ [SEP] @ other"

definition rel_prefix :: "byte \<Rightarrow> bytes \<Rightarrow> bytes" where
  "rel_prefix dir anchor = [dir] @ anchor @ [SEP]"

definition rel_verb_prefix :: "byte \<Rightarrow> bytes \<Rightarrow> bytes \<Rightarrow> bytes" where
  "rel_verb_prefix dir anchor verb = [dir] @ anchor @ [SEP] @ verb @ [SEP]"

definition rel_suffix :: "bytes \<Rightarrow> nat \<Rightarrow> (bytes \<times> bytes) option" where
  "rel_suffix key prefix_len =
     (if length key < prefix_len then None
      else map_option (\<lambda>(verb, other). (from_utf8_lossy verb, from_utf8_lossy other))
             (split_compound (drop prefix_len key)))"

section \<open>Order-preserving encodings\<close>

definition encode_i64_sortable :: "64 word \<Rightarrow> bytes" where
  "encode_i64_sortable x = u64_be (x XOR push_bit 63 1)"

definition decode_i64_sortable :: "bytes \<Rightarrow> 64 word" where
  "decode_i64_sortable b = of_u64_be b XOR push_bit 63 1"

definition encode_f64_sortable :: "f64 \<Rightarrow> bytes" where
  "encode_f64_sortable x =
     (let bits = to_bits x;
          mapped = (if bits AND push_bit 63 1 \<noteq> 0 then NOT bits else bits OR push_bit 63 1)
      in u64_be mapped)"

definition decode_f64_sortable :: "bytes \<Rightarrow> f64" where
  "decode_f64_sortable b =
     (let mapped = of_u64_be b;
          bits = (if mapped AND push_bit 63 1 \<noteq> 0 then mapped AND NOT (push_bit 63 1) else NOT mapped)
      in F64 bits)"

section \<open>Payload-index rows\<close>

definition PIDX_NUM :: byte where "PIDX_NUM = CHR ''n''"
definition PIDX_STR :: byte where "PIDX_STR = CHR ''s''"
definition PIDX_BOOL :: byte where "PIDX_BOOL = CHR ''b''"
definition PIDX_OTHER :: byte where "PIDX_OTHER = CHR ''o''"
definition PIDX_DT :: byte where "PIDX_DT = CHR ''d''"
definition PIDX_UUID :: byte where "PIDX_UUID = CHR ''u''"
definition PIDX_GEO :: byte where "PIDX_GEO = CHR ''g''"

lemmas pidx_tag_defs =
  PIDX_NUM_def PIDX_STR_def PIDX_BOOL_def PIDX_OTHER_def PIDX_DT_def PIDX_UUID_def PIDX_GEO_def

definition encode_pidx_value :: "(json \<Rightarrow> bytes) \<Rightarrow> json \<Rightarrow> bytes" where
  "encode_pidx_value json_text v =
     (case v of
        JNum _ \<Rightarrow> PIDX_NUM # encode_f64_sortable (case as_f64 v of Some x \<Rightarrow> x | None \<Rightarrow> f64_zero)
      | JStr s \<Rightarrow>
          (case rfc3339_to_epoch_ms s of
             Some ms \<Rightarrow> PIDX_DT # encode_i64_sortable (word_of_int ms)
           | None \<Rightarrow>
             (case parse_uuid_bytes s of
                Some b \<Rightarrow> PIDX_UUID # b
              | None \<Rightarrow> PIDX_STR # s))
      | JBool b \<Rightarrow> [PIDX_BOOL, if b then CHR 0x01 else CHR 0x00]
      | _ \<Rightarrow>
          (case point_of v of
             Some (lat, lon) \<Rightarrow> PIDX_GEO # u64_be (morton lat lon)
           | None \<Rightarrow> PIDX_OTHER # json_text v))"

definition pidx_key :: "(json \<Rightarrow> bytes) \<Rightarrow> bytes \<Rightarrow> json \<Rightarrow> bytes \<Rightarrow> bytes" where
  "pidx_key json_text field v doc_id = field @ [SEP] @ encode_pidx_value json_text v @ [SEP] @ doc_id"

definition pidx_field_prefix :: "bytes \<Rightarrow> bytes" where
  "pidx_field_prefix field = key_prefix field"

definition pidx_value_prefix :: "(json \<Rightarrow> bytes) \<Rightarrow> bytes \<Rightarrow> json \<Rightarrow> bytes" where
  "pidx_value_prefix json_text field v = field @ [SEP] @ encode_pidx_value json_text v @ [SEP]"

definition pidx_num_prefix :: "bytes \<Rightarrow> bytes" where
  "pidx_num_prefix field = key_prefix field @ [PIDX_NUM]"

definition pidx_dt_prefix :: "bytes \<Rightarrow> bytes" where
  "pidx_dt_prefix field = key_prefix field @ [PIDX_DT]"

definition pidx_geo_prefix :: "bytes \<Rightarrow> bytes" where
  "pidx_geo_prefix field = key_prefix field @ [PIDX_GEO]"

section \<open>Stored vectors\<close>

text \<open>
  A vector is a list of 32-bit patterns.  \<open>decode_multi\<close> reads its two counts as \<open>usize\<close>, so
  \<open>8 + n * dim * 4\<close> wraps at 64 bits (the release profile); \<open>None\<close> is the panic of an index
  beyond the bytes.  \<open>Vec::with_capacity\<close> of a 32-bit count cannot overflow the capacity; a failing
  allocation, which aborts, is not modelled.
\<close>

definition encode_vec :: "32 word list \<Rightarrow> bytes" where
  "encode_vec v = concat (map (\<lambda>x. le_bytes 4 (unat x)) v)"

function decode_vec :: "bytes \<Rightarrow> 32 word list" where
  "decode_vec b = (if length b < 4 then [] else of_nat (of_le (take 4 b)) # decode_vec (drop 4 b))"
  by pat_completeness auto
termination
  by (relation "measure length") auto

declare decode_vec.simps [simp del]

definition encode_multi :: "32 word list list \<Rightarrow> bytes" where
  "encode_multi vs =
     (let dim = (case vs of [] \<Rightarrow> 0 | v # _ \<Rightarrow> length v) in
      le_bytes 4 (length vs) @ le_bytes 4 dim @ concat (map encode_vec vs))"

fun read_vec :: "bytes \<Rightarrow> nat \<Rightarrow> nat \<Rightarrow> 32 word list option" where
  "read_vec b off 0 = Some []"
| "read_vec b off (Suc dim) =
     (if off + 3 < length b
      then map_option (Cons (of_nat (of_le (substr b off (off + 4))))) (read_vec b (off + 4) dim)
      else None)"

fun read_vecs :: "bytes \<Rightarrow> nat \<Rightarrow> nat \<Rightarrow> nat \<Rightarrow> 32 word list list option" where
  "read_vecs b off dim 0 = Some []"
| "read_vecs b off dim (Suc n) =
     (case read_vec b off dim of None \<Rightarrow> None
      | Some v \<Rightarrow> map_option (Cons v) (read_vecs b (off + 4 * dim) dim n))"

definition decode_multi :: "bytes \<Rightarrow> 32 word list list option" where
  "decode_multi b =
     (if length b < 8 then Some []
      else let n = of_le (take 4 b); dim = of_le (take 4 (drop 4 b)) in
        if length b < (8 + n * dim * 4) mod 2 ^ 64 then Some []
        else read_vecs b 8 dim n)"

end
