(* ===== verification/KeysProps.thy ===== *)
theory KeysProps
  imports Keys
begin

text \<open>
  What the physical layout promises: the sortable encodings are order-preserving codecs (three
  interpretations of \<open>sortable_codec\<close>), compound keys split back and their prefixes select
  exactly their rows, and stored vectors decode to what was stored.
\<close>

unbundle bit_operations_syntax

section \<open>The sortable codecs\<close>

lemma of_u64_be [simp]: "of_u64_be (u64_be w) = w"
  by (simp add: of_u64_be_def u64_be_def of_be_bytes_id [OF unat64_bound])

lemma u64_be_length [simp]: "length (u64_be w) = 8"
  by (simp add: u64_be_def)

lemma u64_be_less: "u64_be v < u64_be w \<longleftrightarrow> unat v < unat w"
  by (simp add: u64_be_def be_bytes_less [OF unat64_bound unat64_bound])

interpretation u64_codec: sortable_codec u64_be of_u64_be "\<lambda>v w. unat v < unat w" 8
  by unfold_locales (simp_all add: u64_be_less)

definition i64_below :: "64 word \<Rightarrow> 64 word \<Rightarrow> bool" where
  "i64_below x y \<longleftrightarrow> sint x < sint y"

interpretation i64_codec: sortable_codec encode_i64_sortable decode_i64_sortable i64_below 8
proof
  fix x y :: "64 word"
  have "unat (x XOR push_bit 63 1) < unat (y XOR push_bit 63 1) \<longleftrightarrow>
      int (unat (x XOR push_bit 63 1)) < int (unat (y XOR push_bit 63 1))" by (simp only: of_nat_less_iff)
  also have "\<dots> \<longleftrightarrow> sint x < sint y" by (simp only: unat_flip63) simp
  finally show "encode_i64_sortable x < encode_i64_sortable y \<longleftrightarrow> i64_below x y"
    by (simp add: encode_i64_sortable_def u64_be_less i64_below_def)
qed (simp_all add: encode_i64_sortable_def decode_i64_sortable_def xor.assoc)

text \<open>The total order of the float patterns that are not NaNs: \<open>-0.0\<close> just before \<open>0.0\<close>.\<close>

definition f64_total :: "f64 \<Rightarrow> int" where
  "f64_total x = (if f64_sign x then - 1 - int (f64_mag x) else int (f64_mag x))"

definition f64_below :: "f64 \<Rightarrow> f64 \<Rightarrow> bool" where
  "f64_below x y \<longleftrightarrow> f64_total x < f64_total y"

definition f64_mapped :: "64 word \<Rightarrow> 64 word" where
  "f64_mapped bits = (if bit bits 63 then NOT bits else bits OR push_bit 63 1)"

lemma and_top: "(w AND push_bit 63 1 \<noteq> 0) = bit w 63" for w :: "64 word"
  by (simp only: push_bit_of_1 and_exp_eq_0_iff_not_bit not_not)

lemma encode_f64_mapped: "encode_f64_sortable x = u64_be (f64_mapped (to_bits x))"
  by (simp only: encode_f64_sortable_def Let_def and_top f64_mapped_def)

lemma unat_f64_mapped: "int (unat (f64_mapped (to_bits x))) = 2 ^ 63 + f64_total x"
proof (cases "bit (to_bits x) 63")
  case True
  have "unat (to_bits x) < 2 ^ 64" using unsigned_less [of "to_bits x", where 'a = nat] by simp
  with True unat_sign_mag [of "to_bits x"] unat_not [of "to_bits x"]
  show ?thesis by (simp add: f64_mapped_def f64_total_def f64_sign_def f64_mag_def of_nat_diff)
next
  case False
  with unat_set63 [OF False] unat_sign_mag [of "to_bits x"]
  show ?thesis by (simp only: f64_mapped_def f64_total_def f64_sign_def f64_mag_def if_False) simp
qed

lemma bit_f64_mapped: "bit (f64_mapped w) 63 \<longleftrightarrow> \<not> bit w 63"
  by (auto simp: f64_mapped_def bit_simps)


interpretation f64_codec: sortable_codec encode_f64_sortable decode_f64_sortable f64_below 8
proof
  fix x y :: f64
  show "length (encode_f64_sortable x) = 8" by (simp add: encode_f64_mapped)
  have "unat (f64_mapped (to_bits x)) < unat (f64_mapped (to_bits y)) \<longleftrightarrow>
      int (unat (f64_mapped (to_bits x))) < int (unat (f64_mapped (to_bits y)))" by (simp only: of_nat_less_iff)
  also have "\<dots> \<longleftrightarrow> f64_below x y" by (simp only: unat_f64_mapped f64_below_def) simp
  finally show "encode_f64_sortable x < encode_f64_sortable y \<longleftrightarrow> f64_below x y"
    by (simp add: encode_f64_mapped u64_be_less)
  have "(w OR push_bit 63 1) AND NOT (push_bit 63 1) = w" if "\<not> bit w 63" for w :: "64 word"
  proof (rule bit_word_eqI)
    fix n assume "n < LENGTH(64)"
    then show "bit ((w OR push_bit 63 1) AND NOT (push_bit 63 1)) n = bit w n"
      using that by (cases "n = 63")
        (auto simp only: bit_or_iff bit_and_iff bit_not_iff bit_push_bit_iff bit_1_iff possible_bit_word)
  qed
  then have "f64_mapped w AND NOT (push_bit 63 1) = w" if "\<not> bit w 63" for w
    using that by (simp only: f64_mapped_def if_False)
  moreover have "NOT (f64_mapped w) = w" if "bit w 63" for w
    using that by (simp add: f64_mapped_def)
  ultimately show "decode_f64_sortable (encode_f64_sortable x) = x"
    by (cases x; cases "bit (to_bits x) 63")
      (simp_all only: encode_f64_mapped decode_f64_sortable_def of_u64_be Let_def and_top
        bit_f64_mapped f64.sel if_True if_False not_True_eq_False not_False_eq_True)
qed

lemma f64_total_rank:
  "f64_rank x < f64_rank y \<Longrightarrow> f64_total x < f64_total y"
  "f64_total x \<le> f64_total y \<Longrightarrow> f64_rank x \<le> f64_rank y"
  by (auto simp: f64_total_def f64_rank_def split: if_splits)

text \<open>C27: the index encoding of floats: on values that are not NaN, byte order respects
  numeric order, equal values other than the two zeros share an encoding, and decoding gives
  the value back.\<close>

theorem f64_sortable:
  assumes "\<not> is_nan x" "\<not> is_nan y"
  shows "(f64_lt x y \<longrightarrow> encode_f64_sortable x < encode_f64_sortable y) \<and>
         (encode_f64_sortable x \<le> encode_f64_sortable y \<longrightarrow> f64_le x y) \<and>
         decode_f64_sortable (encode_f64_sortable x) = x"
  using assms f64_total_rank [of x y]
  by (auto simp: f64_codec.enc_less f64_codec.enc_le f64_codec.dec_enc f64_below_def f64_lt_def f64_le_def
      not_less)

theorem f64_sortable_witness:
  "encode_f64_sortable (F64 0xBFF0000000000000) < encode_f64_sortable (F64 0x3FF0000000000000)"
proof -
  have "\<not> is_nan (F64 0xBFF0000000000000)" "\<not> is_nan (F64 0x3FF0000000000000)"
    by (simp_all add: is_nan_def f64_mag_def inf_mag_def take_bit_eq_mod)
  moreover have "f64_lt (F64 0xBFF0000000000000) (F64 0x3FF0000000000000)"
    using calculation by (simp add: f64_lt_def f64_rank_def f64_sign_def f64_mag_def take_bit_eq_mod bit_iff_odd)
  ultimately show ?thesis using f64_sortable by blast
qed

section \<open>Compound keys\<close>

lemma scan_until:
  "c \<notin> set a \<Longrightarrow> scan_while (\<lambda>x. x \<noteq> c) (a @ c # b) 0 = length a"
proof -
  assume "c \<notin> set a"
  then have "takeWhile (\<lambda>x. x \<noteq> c) (a @ c # b) = a" by (subst takeWhile_append2) auto
  then show ?thesis by (simp add: scan_while_takeWhile)
qed

lemma split_compound_compound:
  "SEP \<notin> set a \<Longrightarrow> split_compound (a @ SEP # b) = Some (a, b)"
  by (simp add: split_compound_def scan_until)

lemma prefix_sep_iff:
  assumes "SEP \<notin> set a" "SEP \<notin> set a'"
  shows "prefix (a @ [SEP]) (a' @ SEP # b) \<longleftrightarrow> a = a'"
proof
  assume "prefix (a @ [SEP]) (a' @ SEP # b)"
  then obtain r where "a' @ SEP # b = a @ SEP # r" by (auto simp: prefix_def)
  then have "split_compound (a' @ SEP # b) = split_compound (a @ SEP # r)" by simp
  with assms show "a = a'" by (simp add: split_compound_compound)
qed auto

text \<open>Compound keys: when the first segment has no separator, the key splits back into
  its two segments, and the prefix of a segment selects exactly the rows of that segment.\<close>

lemma compound_round_trip:
  assumes "SEP \<notin> set a" "SEP \<notin> set a'"
  shows "split_compound (compound a b) = Some (a, b) \<and>
         (prefix (key_prefix a') (compound a b) \<longleftrightarrow> a' = a) \<and>
         (prefix (key_prefix a) (compound a b) \<longrightarrow> drop (length (key_prefix a)) (compound a b) = b)"
  using assms by (auto simp: compound_def key_prefix_def split_compound_compound prefix_sep_iff)

lemma compound_round_trip_witness:
  "split_compound (compound ''alpha'' ''doc9'') = Some (''alpha'', ''doc9'')"
proof -
  have "SEP \<notin> set ''alpha''" by (simp add: SEP_def)
  then show ?thesis using compound_round_trip by blast
qed

text \<open>Relation rows: a row is under the prefix of its own anchor and direction alone, and
  its suffix there reads back as the verb and the other end.\<close>

lemma rel_row_round_trip:
  assumes "SEP \<notin> set anchor" "SEP \<notin> set anchor'" "SEP \<notin> set verb" "utf8_valid verb" "utf8_valid other"
  shows "(prefix (rel_prefix dir' anchor') (rel_key dir anchor verb other) \<longleftrightarrow> dir' = dir \<and> anchor' = anchor) \<and>
         rel_suffix (rel_key dir anchor verb other) (length (rel_prefix dir anchor)) = Some (verb, other)"
  using assms prefix_sep_iff [of anchor' anchor "verb @ SEP # other"]
  by (auto simp: rel_prefix_def rel_key_def rel_suffix_def split_compound_compound)

lemma sep_split_unique:
  "SEP \<notin> set a \<Longrightarrow> SEP \<notin> set a' \<Longrightarrow> a @ SEP # b = a' @ SEP # b' \<longleftrightarrow> a = a' \<and> b = b'"
  using split_compound_compound [of a b] split_compound_compound [of a' b']
  by (metis option.inject prod.inject)

section \<open>Stored vectors\<close>

lemma of_le_u32 [simp]: "word_of_nat (of_le (le_bytes 4 (unat x))) = x" for x :: "32 word"
proof -
  have "unat x < 256 ^ 4" using unsigned_less [of x, where 'a = nat] by simp
  then show ?thesis by (simp only: of_le_bytes) simp
qed

lemma decode_vec_Cons: "decode_vec (le_bytes 4 (unat x) @ b) = x # decode_vec b"
  by (simp add: decode_vec.simps [of "le_bytes 4 (unat x) @ b"])

lemma decode_encode_vec: "decode_vec (encode_vec v) = v"
  by (induction v) (simp_all add: encode_vec_def decode_vec_Cons decode_vec.simps [of "[]"])

lemma length_encode_vec [simp]: "length (encode_vec v) = 4 * length v"
  by (induction v) (simp_all add: encode_vec_def)

lemma read_vec_encode:
  "read_vec (p @ encode_vec v @ r) (length p) (length v) = Some v"
proof (induction v arbitrary: p)
  case (Cons x v)
  let ?x = "le_bytes 4 (unat x)"
  have e: "encode_vec (x # v) = ?x @ encode_vec v" by (simp add: encode_vec_def)
  have "read_vec ((p @ ?x) @ encode_vec v @ r) (length (p @ ?x)) (length v) = Some v"
    by (rule Cons.IH)
  then show ?case by (simp add: e substr_def)
qed simp

lemma read_vecs_encode:
  "\<forall>v \<in> set vs. length v = dim \<Longrightarrow>
   read_vecs (p @ concat (map encode_vec vs)) (length p) dim (length vs) = Some vs"
proof (induction vs arbitrary: p)
  case (Cons v vs)
  then have "read_vecs ((p @ encode_vec v) @ concat (map encode_vec vs)) (length (p @ encode_vec v)) dim (length vs)
      = Some vs" by (intro Cons.IH) simp
  moreover have "read_vec (p @ encode_vec v @ concat (map encode_vec vs)) (length p) dim = Some v"
    using Cons.prems read_vec_encode [of p v] by auto
  ultimately show ?case using Cons.prems by simp
qed simp

lemma length_concat_encode:
  "\<forall>v \<in> set vs. length v = dim \<Longrightarrow> length (concat (map encode_vec vs)) = length vs * dim * 4"
  by (induction vs) auto

text \<open>C34: stored vectors: a vector decodes to itself, and a list of token vectors of one
  dimension does too, as long as its counts fit 32 bits and its size 64.\<close>

theorem vectors_round_trip:
  assumes "\<forall>v \<in> set vs. length v = dim" "length vs < 2 ^ 32" "dim < 2 ^ 32"
    "8 + length vs * dim * 4 < 2 ^ 64"
  shows "decode_vec (encode_vec u) = u \<and> decode_multi (encode_multi vs) = Some vs"
proof
  let ?d = "case vs of [] \<Rightarrow> 0 | v # _ \<Rightarrow> length v"
  let ?p = "le_bytes 4 (length vs) @ le_bytes 4 ?d"
  have d: "?d = (if vs = [] then 0 else dim)" using assms(1) by (cases vs) auto
  have n: "of_le (le_bytes 4 (length vs)) = length vs" "of_le (le_bytes 4 ?d) = ?d"
    using assms(2,3) by (auto intro!: of_le_bytes simp: d)
  have e: "encode_multi vs = ?p @ concat (map encode_vec vs)" by (simp add: encode_multi_def Let_def)
  have l: "length (concat (map encode_vec vs)) = length vs * ?d * 4"
    using assms(1) by (intro length_concat_encode) (auto simp: d)
  have "8 + length vs * ?d * 4 < 2 ^ 64" using assms(4) by (auto simp: d mult.commute)
  then have m: "(8 + length vs * ?d * 4) mod 2 ^ 64 = 8 + length vs * ?d * 4" by simp
  have "read_vecs (?p @ concat (map encode_vec vs)) (length ?p) ?d (length vs) = Some vs"
    by (rule read_vecs_encode) (use assms(1) in \<open>auto simp: d\<close>)
  then show "decode_multi (encode_multi vs) = Some vs"
    unfolding decode_multi_def e by (simp add: n l m [simplified] Let_def)
qed (rule decode_encode_vec)

theorem vectors_round_trip_witness:
  "decode_multi (encode_multi [[0x3F800000, 0], [1, 2]]) = Some [[0x3F800000, 0], [1, 2]]"
  using vectors_round_trip [of "[[0x3F800000, 0], [1, 2]]" 2] by simp

lemma read_vec_none: "read_vec b off dim = None \<longleftrightarrow> 0 < dim \<and> length b < off + 4 * dim"
  by (induction b off dim rule: read_vec.induct) auto

lemma read_vecs_none: "read_vecs b off dim n = None \<longleftrightarrow> 0 < n * dim \<and> length b < off + 4 * (n * dim)"
proof (induction b off dim n rule: read_vecs.induct)
  case (2 b off dim n)
  show ?case
  proof (cases "read_vec b off dim")
    case None
    then have "0 < dim \<and> length b < off + 4 * dim" by (simp add: read_vec_none)
    then show ?thesis using None by (auto simp: algebra_simps)
  next
    case (Some v)
    then have "\<not> (0 < dim \<and> length b < off + 4 * dim)" using read_vec_none [of b off dim] by simp
    then show ?thesis using 2 [OF Some] Some by (auto simp: algebra_simps)
  qed
qed simp

text \<open>C36: malformed token vectors are not always read as an empty list: the reader indexes past the
  end exactly when the size its two counts give exceeds the bytes while its wrapped value does not.\<close>

theorem decode_multi_panics:
  "decode_multi b = None \<longleftrightarrow>
     (let size = 8 + of_le (take 4 b) * of_le (take 4 (drop 4 b)) * 4 in
      8 \<le> length b \<and> size mod 2 ^ 64 \<le> length b \<and> length b < size)"
proof -
  define n dim where "n = of_le (take 4 b)" and "dim = of_le (take 4 (drop 4 b))"
  have "decode_multi b = None \<longleftrightarrow> 8 \<le> length b \<and> (8 + n * dim * 4) mod 2 ^ 64 \<le> length b \<and> read_vecs b 8 dim n = None"
    by (auto simp: decode_multi_def Let_def n_def dim_def not_less)
  also have "read_vecs b 8 dim n = None \<longleftrightarrow> 0 < n * dim \<and> length b < 8 + n * dim * 4"
    unfolding read_vecs_none by (simp only: mult.commute)
  also have "8 \<le> length b \<and> (8 + n * dim * 4) mod 2 ^ 64 \<le> length b \<and> 0 < n * dim \<and> length b < 8 + n * dim * 4 \<longleftrightarrow>
    8 \<le> length b \<and> (8 + n * dim * 4) mod 2 ^ 64 \<le> length b \<and> length b < 8 + n * dim * 4"
    by (cases "n * dim") auto
  finally show ?thesis by (simp only: Let_def n_def dim_def)
qed

text \<open>Such bytes exist: two counts of \<open>2 ^ 31\<close> and nothing else.\<close>

lemma wrapping_counts_panic: "decode_multi (le_bytes 4 (2 ^ 31) @ le_bytes 4 (2 ^ 31)) = None"
proof -
  have n: "of_le (le_bytes 4 (2 ^ 31)) = 2 ^ 31" by (rule of_le_bytes) simp
  have "read_vecs b 8 (2 ^ 31) (2 ^ 31) = None" if "length b = 8" for b
    using that by (simp add: read_vecs_none)
  then show ?thesis unfolding decode_multi_def by (simp add: n [simplified] Let_def)
qed

section \<open>Index rows sort by value\<close>

lemma pidx_num_row:
  "as_f64 v = Some x \<Longrightarrow>
   pidx_key jt field v d = pidx_num_prefix field @ encode_f64_sortable x @ SEP # d"
  by (auto simp: pidx_key_def encode_pidx_value_def pidx_num_prefix_def key_prefix_def as_f64_def
      split: json.splits number.splits)

lemma pidx_dt_row:
  "rfc3339_to_epoch_ms s = Some ms \<Longrightarrow>
   pidx_key jt field (JStr s) d = pidx_dt_prefix field @ encode_i64_sortable (word_of_int ms) @ SEP # d"
  by (simp add: pidx_key_def encode_pidx_value_def pidx_dt_prefix_def key_prefix_def)

text \<open>The rows of a payload index sort numerically: of two numbers of one field the
  smaller comes first, whatever the documents.\<close>

lemma pidx_numeric_order:
  assumes "as_f64 v = Some x" "as_f64 w = Some y" "f64_lt x y"
  shows "pidx_key jt field v d < pidx_key jt field w d'"
  using assms f64_total_rank(1) [of x y]
  by (simp add: pidx_num_row f64_codec.value_less f64_below_def f64_lt_def)

end
