(* ===== verification/Kv.thy ===== *)
theory Kv
  imports KeysProps
begin

text \<open>
  The key-value seam, \<open>crates/connxism/src/kv/fjall.rs\<close>: one sorted map of byte strings per
  column family, a batch as a log of operations, and its commit, which folds the document
  frequency deltas into read-modify-writes.  The engine below is the sorted row list; what the
  rest of the estate needs of it is the locale \<open>ordered_rows\<close>, in which the prefix scan is
  shown once.
\<close>

section \<open>Sorted rows\<close>

type_synonym rows = "(bytes \<times> bytes) list"

fun row_put :: "rows \<Rightarrow> bytes \<Rightarrow> bytes \<Rightarrow> rows" where
  "row_put [] k v = [(k, v)]"
| "row_put ((k', v') # r) k v =
     (if k < k' then (k, v) # (k', v') # r
      else if k = k' then (k, v) # r
      else (k', v') # row_put r k v)"

definition row_del :: "rows \<Rightarrow> bytes \<Rightarrow> rows" where
  "row_del r k = filter (\<lambda>kv. fst kv \<noteq> k) r"

definition row_get :: "rows \<Rightarrow> bytes \<Rightarrow> bytes option" where
  "row_get r k = map_of r k"

definition rows_from :: "rows \<Rightarrow> bytes \<Rightarrow> rows" where
  "rows_from r start = dropWhile (\<lambda>kv. fst kv < start) r"

definition rows_ok :: "rows \<Rightarrow> bool" where
  "rows_ok r \<longleftrightarrow> sorted_wrt (<) (map fst r)"

section \<open>The database\<close>

type_synonym db = "cf \<Rightarrow> rows"

definition db_ok :: "db \<Rightarrow> bool" where
  "db_ok db \<longleftrightarrow> (\<forall>c. rows_ok (db c))"

definition get_cf :: "db \<Rightarrow> cf \<Rightarrow> bytes \<Rightarrow> bytes option" where
  "get_cf db c k = row_get (db c) k"

definition put_cf :: "db \<Rightarrow> cf \<Rightarrow> bytes \<Rightarrow> bytes \<Rightarrow> db" where
  "put_cf db c k v = db(c := row_put (db c) k v)"

definition del_cf :: "db \<Rightarrow> cf \<Rightarrow> bytes \<Rightarrow> db" where
  "del_cf db c k = db(c := row_del (db c) k)"

definition iter_from :: "db \<Rightarrow> cf \<Rightarrow> bytes \<Rightarrow> rows" where
  "iter_from db c start = rows_from (db c) start"

definition iter_all :: "db \<Rightarrow> cf \<Rightarrow> rows" where
  "iter_all db c = db c"

text \<open>An \<open>i64\<close> counter value, tolerant of short buffers.\<close>

definition read_i64 :: "bytes \<Rightarrow> 64 word" where
  "read_i64 b = of_nat (of_le (take 8 b @ replicate (8 - length b) (CHR 0x00)))"

definition i64_le :: "64 word \<Rightarrow> bytes" where
  "i64_le x = le_bytes 8 (unat x)"

datatype op = OpPut cf bytes bytes | OpDelete cf bytes | OpMergeDf cf bytes "64 word"

type_synonym batch = "op list"

fun apply_op :: "op \<Rightarrow> db \<Rightarrow> db" where
  "apply_op (OpPut c k v) db = put_cf db c k v"
| "apply_op (OpDelete c k) db = del_cf db c k"
| "apply_op (OpMergeDf c k d) db = db"

text \<open>The accumulator of the deltas: one entry per counter, in the order first met.\<close>

fun add_delta :: "(cf \<times> bytes) \<times> 64 word \<Rightarrow> ((cf \<times> bytes) \<times> 64 word) list \<Rightarrow> ((cf \<times> bytes) \<times> 64 word) list" where
  "add_delta (ck, d) [] = [(ck, d)]"
| "add_delta (ck, d) ((ck', d') # r) =
     (if ck = ck' then (ck', d' + d) # r else (ck', d') # add_delta (ck, d) r)"

definition df_deltas :: "batch \<Rightarrow> ((cf \<times> bytes) \<times> 64 word) list" where
  "df_deltas b =
     fold (\<lambda>x acc. case x of OpMergeDf c k d \<Rightarrow> add_delta ((c, k), d) acc | _ \<Rightarrow> acc) b []"

text \<open>
  \<open>write\<close>: the puts and deletes in order, then one insert per counter of the committed value
  plus its delta.  The engine commits the batch atomically, so the result is one new state.
\<close>

definition db_write :: "db \<Rightarrow> batch \<Rightarrow> db" where
  "db_write db b =
     (let staged = fold apply_op b db in
      fold (\<lambda>((c, k), d) s.
              put_cf s c k (i64_le ((case get_cf db c k of None \<Rightarrow> 0 | Some v \<Rightarrow> read_i64 v) + d)))
           (df_deltas b) staged)"

section \<open>The contract of a sorted map\<close>

lemma prefix_convex:
  fixes p k r :: bytes
  assumes "p \<le> k" "k \<le> p @ r"
  shows "prefix p k"
  using assms by (induction p arbitrary: k) (case_tac k; auto simp: Cons_le_Cons)+

locale ordered_rows =
  fixes get :: "'s \<Rightarrow> bytes \<Rightarrow> bytes option"
    and put :: "'s \<Rightarrow> bytes \<Rightarrow> bytes \<Rightarrow> 's"
    and del :: "'s \<Rightarrow> bytes \<Rightarrow> 's"
    and seek :: "'s \<Rightarrow> bytes \<Rightarrow> rows"
    and ok :: "'s \<Rightarrow> bool"
  assumes ok_put: "ok s \<Longrightarrow> ok (put s k v)"
    and ok_del: "ok s \<Longrightarrow> ok (del s k)"
    and get_put: "ok s \<Longrightarrow> get (put s k v) k' = (if k' = k then Some v else get s k')"
    and get_del: "ok s \<Longrightarrow> get (del s k) k' = (if k' = k then None else get s k')"
    and seek_sorted: "ok s \<Longrightarrow> sorted_wrt (<) (map fst (seek s start))"
    and seek_set: "ok s \<Longrightarrow> (k, v) \<in> set (seek s start) \<longleftrightarrow> get s k = Some v \<and> start \<le> k"
begin

text \<open>\<open>for (k, v) in iter_from(prefix) { if !k.starts_with(prefix) { break } .. }\<close>.\<close>

definition scan :: "'s \<Rightarrow> bytes \<Rightarrow> rows" where
  "scan s p = takeWhile (\<lambda>kv. prefix p (fst kv)) (seek s p)"

lemma takeWhile_prefix:
  fixes xs :: rows and p :: bytes
  assumes "sorted_wrt (<) (map fst xs)" "\<forall>kv \<in> set xs. p \<le> fst kv" "kv \<in> set xs" "prefix p (fst kv)"
  shows "kv \<in> set (takeWhile (\<lambda>kv. prefix p (fst kv)) xs)"
  using assms
proof (induction xs)
  case (Cons x xs)
  obtain r where r: "fst kv = p @ r" using Cons.prems(4) by (auto simp: prefix_def)
  have "fst x \<le> fst kv" using Cons.prems(1,3) by (auto intro: less_imp_le)
  then have "prefix p (fst x)" using Cons.prems(2) r prefix_convex [of p "fst x" r] by simp
  with Cons show ?case by auto
qed simp

lemma scan_set:
  assumes "ok s"
  shows "(k, v) \<in> set (scan s p) \<longleftrightarrow> get s k = Some v \<and> prefix p k"
proof
  assume "(k, v) \<in> set (scan s p)"
  then show "get s k = Some v \<and> prefix p k"
    using seek_set [OF assms, of k v p] by (auto simp: scan_def dest: set_takeWhileD)
next
  assume a: "get s k = Some v \<and> prefix p k"
  then have "(k, v) \<in> set (seek s p)" by (simp add: seek_set [OF assms] prefix_less_eq)
  with a takeWhile_prefix [OF seek_sorted [OF assms], of p p "(k, v)"] seek_set [OF assms]
  show "(k, v) \<in> set (scan s p)" by (fastforce simp: scan_def)
qed

lemma scan_sorted: "ok s \<Longrightarrow> sorted_wrt (<) (map fst (scan s p))"
  unfolding scan_def using seek_sorted [of s p]
  by (metis (no_types, lifting) map_append sorted_wrt_append takeWhile_dropWhile_id)

end

section \<open>The row list keeps the contract\<close>

lemma row_put_keys: "set (map fst (row_put r k v)) = insert k (set (map fst r))"
  by (induction r k v rule: row_put.induct) auto

lemma rows_ok_put: "rows_ok r \<Longrightarrow> rows_ok (row_put r k v)"
proof (induction r)
  case (Cons x r)
  obtain k' v' where x: "x = (k', v')" by (cases x)
  from Cons.prems have r: "rows_ok r" "\<forall>y \<in> set (map fst r). k' < y" by (auto simp: rows_ok_def x)
  show ?case
  proof (cases k k' rule: linorder_cases)
    case less
    with r Cons.prems show ?thesis by (auto simp: x rows_ok_def intro: less_trans)
  next
    case equal
    with Cons.prems show ?thesis by (simp add: x rows_ok_def)
  next
    case greater
    have "\<forall>y \<in> set (map fst (row_put r k v)). k' < y" unfolding row_put_keys using r greater by simp
    with Cons.IH [OF r(1)] greater show ?thesis by (auto simp: x rows_ok_def)
  qed
qed (simp add: rows_ok_def)

lemma rows_ok_del: "rows_ok r \<Longrightarrow> rows_ok (row_del r k)"
  by (induction r) (auto simp: rows_ok_def row_del_def)

lemma row_get_put: "row_get (row_put r k v) k' = (if k' = k then Some v else row_get r k')"
  if "rows_ok r"
  using that by (induction r) (auto simp: row_get_def rows_ok_def)

lemma row_get_del: "row_get (row_del r k) k' = (if k' = k then None else row_get r k')"
  by (induction r) (auto simp: row_get_def row_del_def)

lemma rows_ok_distinct: "rows_ok r \<Longrightarrow> distinct (map fst r)"
  by (simp add: rows_ok_def strict_sorted_iff)

lemma row_get_iff: "rows_ok r \<Longrightarrow> row_get r k = Some v \<longleftrightarrow> (k, v) \<in> set r"
  by (simp add: row_get_def rows_ok_distinct)

lemma rows_from_set:
  "rows_ok r \<Longrightarrow> (k, v) \<in> set (rows_from r start) \<longleftrightarrow> (k, v) \<in> set r \<and> start \<le> k"
proof (induction r)
  case (Cons x r)
  then have "rows_ok r" "\<forall>y \<in> set r. fst x < fst y" by (auto simp: rows_ok_def)
  with Cons.IH show ?case by (cases "fst x < start") (auto simp: rows_from_def)
qed (simp add: rows_from_def)

lemma rows_from_sorted: "rows_ok r \<Longrightarrow> sorted_wrt (<) (map fst (rows_from r start))"
  unfolding rows_from_def rows_ok_def
  by (metis (no_types, lifting) map_append sorted_wrt_append takeWhile_dropWhile_id)

interpretation rows: ordered_rows row_get row_put row_del rows_from rows_ok
  by unfold_locales
    (simp_all add: rows_ok_put rows_ok_del row_get_put row_get_del rows_from_set rows_from_sorted row_get_iff)


section \<open>What a commit does\<close>

lemma db_ok_put [simp]: "db_ok db \<Longrightarrow> db_ok (put_cf db c k v)"
  by (simp add: db_ok_def put_cf_def rows_ok_put)

lemma db_ok_del [simp]: "db_ok db \<Longrightarrow> db_ok (del_cf db c k)"
  by (simp add: db_ok_def del_cf_def rows_ok_del)

lemma get_put_cf [simp]:
  "db_ok db \<Longrightarrow> get_cf (put_cf db c k v) c' k' = (if c' = c \<and> k' = k then Some v else get_cf db c' k')"
  by (simp add: db_ok_def get_cf_def put_cf_def row_get_put)

lemma get_del_cf [simp]:
  "get_cf (del_cf db c k) c' k' = (if c' = c \<and> k' = k then None else get_cf db c' k')"
  by (simp add: get_cf_def del_cf_def row_get_del)

text \<open>The last put or delete of a key in a batch, and the sum of its deltas.\<close>

definition op_effect :: "cf \<Rightarrow> bytes \<Rightarrow> op \<Rightarrow> bytes option \<Rightarrow> bytes option" where
  "op_effect c k x old =
     (case x of
        OpPut c' k' v \<Rightarrow> if c' = c \<and> k' = k then Some v else old
      | OpDelete c' k' \<Rightarrow> if c' = c \<and> k' = k then None else old
      | OpMergeDf _ _ _ \<Rightarrow> old)"

definition batch_effect :: "batch \<Rightarrow> cf \<Rightarrow> bytes \<Rightarrow> bytes option \<Rightarrow> bytes option" where
  "batch_effect b c k old = fold (op_effect c k) b old"

definition key_deltas :: "batch \<Rightarrow> cf \<Rightarrow> bytes \<Rightarrow> 64 word list" where
  "key_deltas b c k = concat (map (\<lambda>x. case x of OpMergeDf c' k' d \<Rightarrow> if c' = c \<and> k' = k then [d] else [] | _ \<Rightarrow> []) b)"

definition counter_of :: "bytes option \<Rightarrow> 64 word" where
  "counter_of v = (case v of None \<Rightarrow> 0 | Some b \<Rightarrow> read_i64 b)"

lemma fold_apply_op:
  "db_ok db \<Longrightarrow>
   db_ok (fold apply_op b db) \<and> get_cf (fold apply_op b db) c k = batch_effect b c k (get_cf db c k)"
proof (induction b arbitrary: db)
  case (Cons x b)
  have "db_ok (apply_op x db)" "get_cf (apply_op x db) c k = op_effect c k x (get_cf db c k)"
    using Cons.prems by (cases x; auto simp: op_effect_def)+
  with Cons.IH [of "apply_op x db"] show ?case by (simp add: batch_effect_def)
qed (simp add: batch_effect_def)

lemma map_of_add_delta:
  "map_of (add_delta (ck, d) acc) ck' =
     (if ck' = ck then Some ((case map_of acc ck of None \<Rightarrow> 0 | Some x \<Rightarrow> x) + d) else map_of acc ck')"
  by (induction acc) auto

lemma add_delta_keys: "set (map fst (add_delta kd acc)) = insert (fst kd) (set (map fst acc))"
  by (induction kd acc rule: add_delta.induct) auto

lemma distinct_add_delta: "distinct (map fst acc) \<Longrightarrow> distinct (map fst (add_delta kd acc))"
proof (induction kd acc rule: add_delta.induct)
  case (2 ck d ck' d' r)
  have "set (map fst (add_delta (ck, d) r)) = insert ck (set (map fst r))"
    using add_delta_keys [of "(ck, d)" r] by simp
  with 2 show ?case by auto
qed simp

lemma key_deltas_snoc:
  "key_deltas (b @ [x]) c k = key_deltas b c k @
     (case x of OpMergeDf c' k' d \<Rightarrow> if c' = c \<and> k' = k then [d] else [] | _ \<Rightarrow> [])"
  by (simp add: key_deltas_def)

lemma df_deltas_snoc:
  "df_deltas (b @ [x]) = (case x of OpMergeDf c k d \<Rightarrow> add_delta ((c, k), d) (df_deltas b) | _ \<Rightarrow> df_deltas b)"
  by (cases x) (simp_all add: df_deltas_def)

lemma df_deltas_spec:
  "distinct (map fst (df_deltas b)) \<and>
   map_of (df_deltas b) (c, k) = (if key_deltas b c k = [] then None else Some (sum_list (key_deltas b c k)))"
proof (induction b rule: rev_induct)
  case (snoc x b)
  then show ?case
    by (cases x) (auto simp: df_deltas_snoc key_deltas_snoc map_of_add_delta distinct_add_delta add.commute)
qed (simp add: df_deltas_def key_deltas_def)

lemma fold_counters:
  fixes f :: "cf \<Rightarrow> bytes \<Rightarrow> 64 word"
  assumes "distinct (map fst ds)" "db_ok s"
  defines "put \<equiv> \<lambda>((c, k), d) s. put_cf s c k (i64_le (f c k + d))"
  shows "db_ok (fold put ds s) \<and> get_cf (fold put ds s) c k =
    (case map_of ds (c, k) of None \<Rightarrow> get_cf s c k | Some d \<Rightarrow> Some (i64_le (f c k + d)))"
  using assms(1,2)
proof (induction ds arbitrary: s)
  case (Cons x ds)
  obtain c' k' d' where x: "x = ((c', k'), d')" by (cases x) auto
  have ok: "db_ok (put x s)" using Cons.prems by (simp add: put_def x)
  have g: "get_cf (put x s) c k = (if (c, k) = (c', k') then Some (i64_le (f c' k' + d')) else get_cf s c k)"
    using Cons.prems by (simp add: put_def x)
  have n: "map_of ds (c', k') = None" using Cons.prems by (simp add: map_of_eq_None_iff x)
  have m: "map_of (x # ds) (c, k) = (if (c, k) = (c', k') then Some d' else map_of ds (c, k))"
    by (simp add: x)
  from Cons.IH [of "put x s"] Cons.prems ok n show ?case unfolding m
    by (cases "(c, k) = (c', k')") (auto simp: g split: option.splits)
qed simp

lemma db_write_get:
  assumes "db_ok db"
  shows "db_ok (db_write db b) \<and> get_cf (db_write db b) c k =
    (if key_deltas b c k = [] then batch_effect b c k (get_cf db c k)
     else Some (i64_le (counter_of (get_cf db c k) + sum_list (key_deltas b c k))))"
proof -
  have "db_ok (fold apply_op b db)" using fold_apply_op [OF assms] by blast
  from fold_counters [OF _ this, of "df_deltas b" "\<lambda>c k. counter_of (get_cf db c k)" c k]
  show ?thesis using df_deltas_spec [of b c k] fold_apply_op [OF assms, of b c k]
    by (simp add: db_write_def Let_def counter_of_def case_prod_unfold split: if_splits)
qed

lemma read_i64_le [simp]: "read_i64 (i64_le x) = x"
proof -
  have "take 8 (le_bytes 8 v) @ replicate (8 - length (le_bytes 8 v)) (CHR 0x00) = le_bytes 8 v" for v
    by simp
  then have "read_i64 (i64_le x) = word_of_nat (of_le (le_bytes 8 (unat x)))"
    by (simp only: read_i64_def i64_le_def)
  also have "of_le (le_bytes 8 (unat x)) = unat x" by (rule of_le_bytes) (rule unat64_bound)
  finally show ?thesis by simp
qed

text \<open>C26: a commit is atomic and keeps every family sorted: a key without counter deltas holds
  what the last put or delete of the batch left, and a counter holds its committed value plus
  the sum of its deltas, however they were interleaved with the other operations.\<close>

theorem db_write_spec:
  assumes "db_ok db"
  shows "db_ok (db_write db b) \<and>
    (key_deltas b c k = [] \<longrightarrow> get_cf (db_write db b) c k = batch_effect b c k (get_cf db c k)) \<and>
    (key_deltas b c k \<noteq> [] \<longrightarrow>
       counter_of (get_cf (db_write db b) c k) = counter_of (get_cf db c k) + sum_list (key_deltas b c k))"
  using db_write_get [OF assms, of b c k] by (auto simp: counter_of_def)

theorem db_write_spec_witness:
  "counter_of (get_cf (db_write (\<lambda>_. []) [OpMergeDf CfTdf ''cat'' 1, OpPut CfTerms ''k'' ''v'', OpMergeDf CfTdf ''cat'' 2])
     CfTdf ''cat'') = 3"
proof -
  have "db_ok (\<lambda>_. [])" by (simp add: db_ok_def rows_ok_def)
  from db_write_spec [OF this, of "[OpMergeDf CfTdf ''cat'' 1, OpPut CfTerms ''k'' ''v'', OpMergeDf CfTdf ''cat'' 2]" CfTdf "''cat''"]
  show ?thesis by (simp add: key_deltas_def counter_of_def get_cf_def row_get_def)
qed

text \<open>A batch without deltas acts as its puts and deletes in order.\<close>

fun plain_op :: "op \<Rightarrow> bool" where
  "plain_op (OpMergeDf c k d) = False"
| "plain_op x = True"

lemma key_deltas_plain: "list_all plain_op b \<Longrightarrow> key_deltas b c k = []"
  by (induction b) (auto simp: key_deltas_def elim: plain_op.elims)

lemma db_ok_write [simp]: "db_ok db \<Longrightarrow> db_ok (db_write db b)"
  using db_write_get by blast

lemma get_write_plain:
  "db_ok db \<Longrightarrow> list_all plain_op b \<Longrightarrow> get_cf (db_write db b) c k = fold (op_effect c k) b (get_cf db c k)"
  using db_write_get [of db b c k] by (simp add: key_deltas_plain batch_effect_def)

section \<open>Scans of a column family\<close>

definition scan_cf :: "db \<Rightarrow> cf \<Rightarrow> bytes \<Rightarrow> rows" where
  "scan_cf db c p = takeWhile (\<lambda>kv. prefix p (fst kv)) (iter_from db c p)"

lemma scan_cf_set:
  "db_ok db \<Longrightarrow> (k, v) \<in> set (scan_cf db c p) \<longleftrightarrow> get_cf db c k = Some v \<and> prefix p k"
  using rows.scan_set [of "db c" k v p] by (simp add: scan_cf_def rows.scan_def iter_from_def get_cf_def db_ok_def)

lemma scan_cf_keys:
  "db_ok db \<Longrightarrow> k \<in> fst ` set (scan_cf db c p) \<longleftrightarrow> get_cf db c k \<noteq> None \<and> prefix p k"
proof -
  assume ok: "db_ok db"
  have "k \<in> fst ` set xs \<longleftrightarrow> (\<exists>v. (k, v) \<in> set xs)" for xs :: rows by force
  then show ?thesis by (simp add: scan_cf_set [OF ok])
qed

lemma scan_cf_sorted: "db_ok db \<Longrightarrow> sorted_wrt (<) (map fst (scan_cf db c p))"
  using rows.scan_sorted [of "db c" p] by (simp add: scan_cf_def rows.scan_def iter_from_def db_ok_def)

end
