(* ===== verification/Rels.thy ===== *)
theory Rels
  imports Kv
begin

text \<open>
  Relations, \<open>crates/connxism/src/rels.rs\<close>: a directed edge is two rows of the relation family,
  one under each end; the scans that read them back, and the breadth-first traversal.  The
  abstract state is a set of edges (\<open>rels_of\<close>); the traversal is compared with the set of ids
  within a number of hops (\<open>within\<close>).
\<close>

section \<open>Edges\<close>

record relation =
  rel_from :: bytes
  rel_verb :: bytes
  rel_to :: bytes

definition relate :: "db \<Rightarrow> bytes \<Rightarrow> bytes \<Rightarrow> bytes \<Rightarrow> db" where
  "relate db f verb t =
     db_write db [OpPut CfRels (rel_key REL_OUT f verb t) [], OpPut CfRels (rel_key REL_IN t verb f) []]"

definition unrelate :: "db \<Rightarrow> bytes \<Rightarrow> bytes \<Rightarrow> bytes \<Rightarrow> db" where
  "unrelate db f verb t =
     db_write db [OpDelete CfRels (rel_key REL_OUT f verb t), OpDelete CfRels (rel_key REL_IN t verb f)]"

definition scan_rels :: "db \<Rightarrow> byte \<Rightarrow> bytes \<Rightarrow> bytes option \<Rightarrow> relation list" where
  "scan_rels db dir anchor verb =
     (let pre = (case verb of Some v \<Rightarrow> rel_verb_prefix dir anchor v | None \<Rightarrow> rel_prefix dir anchor);
          anchor_prefix_len = length (rel_prefix dir anchor) in
      List.map_filter
        (\<lambda>(k, _). map_option
           (\<lambda>(verb, other).
              if dir = REL_OUT then \<lparr>rel_from = anchor, rel_verb = verb, rel_to = other\<rparr>
              else \<lparr>rel_from = other, rel_verb = verb, rel_to = anchor\<rparr>)
           (rel_suffix k anchor_prefix_len))
        (scan_cf db CfRels pre))"

definition relations_out :: "db \<Rightarrow> bytes \<Rightarrow> bytes option \<Rightarrow> relation list" where
  "relations_out db f verb = scan_rels db REL_OUT f verb"

definition relations_in :: "db \<Rightarrow> bytes \<Rightarrow> bytes option \<Rightarrow> relation list" where
  "relations_in db t verb = scan_rels db REL_IN t verb"

section \<open>Traversal\<close>

record traversal_spec =
  ts_verbs :: "bytes list"
  ts_outbound :: bool
  ts_inbound :: bool
  ts_depth :: nat
  ts_limit :: nat

definition default_traversal :: traversal_spec where
  "default_traversal = \<lparr>ts_verbs = [], ts_outbound = True, ts_inbound = True, ts_depth = 2, ts_limit = 10000\<rparr>"

definition verb_ok :: "traversal_spec \<Rightarrow> bytes \<Rightarrow> bool" where
  "verb_ok sp v \<longleftrightarrow> ts_verbs sp = [] \<or> list_ex (\<lambda>s. s = v) (ts_verbs sp)"

definition neighbors :: "db \<Rightarrow> traversal_spec \<Rightarrow> bytes \<Rightarrow> bytes list" where
  "neighbors db sp i =
     (if ts_outbound sp then map rel_to (filter (\<lambda>r. verb_ok sp (rel_verb r)) (relations_out db i None)) else []) @
     (if ts_inbound sp then map rel_from (filter (\<lambda>r. verb_ok sp (rel_verb r)) (relations_in db i None)) else [])"

text \<open>The locals of the walk: the visited set, the order of visits, the queue of ids with hops.\<close>

record 'a walk =
  w_visited :: "'a set"
  w_order :: "'a list"
  w_frontier :: "('a \<times> nat) list"

definition visit :: "'a \<Rightarrow> nat \<Rightarrow> 'a walk \<Rightarrow> 'a walk" where
  "visit n hops w =
     (if n \<in> w_visited w then w
      else \<lparr>w_visited = insert n (w_visited w), w_order = w_order w @ [n], w_frontier = w_frontier w @ [(n, hops)]\<rparr>)"

fun visit_starts :: "'a list \<Rightarrow> 'a walk \<Rightarrow> 'a walk" where
  "visit_starts [] w = w"
| "visit_starts (s # ss) w = visit_starts ss (visit s 0 w)"

fun visit_neighbors :: "nat \<Rightarrow> nat \<Rightarrow> 'a list \<Rightarrow> 'a walk \<Rightarrow> 'a walk" where
  "visit_neighbors limit hops [] w = w"
| "visit_neighbors limit hops (n # ns) w =
     (if limit \<le> length (w_order w) then w
      else visit_neighbors limit hops ns (visit n (hops + 1) w))"

lemma visit_measure:
  "length (w_order w) < limit \<Longrightarrow>
   limit - length (w_order (visit n h w)) + length (w_frontier (visit n h w)) =
   limit - length (w_order w) + length (w_frontier w)"
  by (simp add: visit_def)

lemma visit_neighbors_measure:
  "limit - length (w_order (visit_neighbors limit h ns w)) + length (w_frontier (visit_neighbors limit h ns w)) =
   limit - length (w_order w) + length (w_frontier w)"
  by (induction limit h ns w rule: visit_neighbors.induct) (auto simp: visit_measure)

function walk_loop :: "('a \<Rightarrow> 'a list) \<Rightarrow> nat \<Rightarrow> nat \<Rightarrow> 'a walk \<Rightarrow> 'a list" where
  "walk_loop nb depth limit w =
     (case w_frontier w of
        [] \<Rightarrow> w_order w
      | (i, hops) # rest \<Rightarrow>
          (let w' = w\<lparr>w_frontier := rest\<rparr> in
           if depth \<le> hops \<or> limit \<le> length (w_order w) then walk_loop nb depth limit w'
           else walk_loop nb depth limit (visit_neighbors limit hops (nb i) w')))"
  by pat_completeness auto
termination
  by (relation "measure (\<lambda>(nb, depth, limit, w). limit - length (w_order w) + length (w_frontier w))")
    (auto simp: visit_neighbors_measure)

declare walk_loop.simps [simp del]

definition traverse :: "db \<Rightarrow> bytes list \<Rightarrow> traversal_spec \<Rightarrow> bytes list" where
  "traverse db start sp =
     walk_loop (neighbors db sp) (ts_depth sp) (ts_limit sp)
       (visit_starts start \<lparr>w_visited = {}, w_order = [], w_frontier = []\<rparr>)"

section \<open>The edge set a database holds\<close>

definition clean_id :: "bytes \<Rightarrow> bool" where
  "clean_id s \<longleftrightarrow> SEP \<notin> set s \<and> utf8_valid s"

type_synonym edges = "(bytes \<times> bytes \<times> bytes) set"

definition edge_row :: "bytes \<times> bytes \<times> bytes \<Rightarrow> bytes \<Rightarrow> bool" where
  "edge_row e k \<longleftrightarrow> (case e of (f, v, t) \<Rightarrow> k = rel_key REL_OUT f v t \<or> k = rel_key REL_IN t v f)"

definition clean_edge :: "bytes \<times> bytes \<times> bytes \<Rightarrow> bool" where
  "clean_edge e \<longleftrightarrow> (case e of (f, v, t) \<Rightarrow> clean_id f \<and> clean_id v \<and> clean_id t)"

definition rels_of :: "db \<Rightarrow> edges \<Rightarrow> bool" where
  "rels_of db E \<longleftrightarrow>
     db_ok db \<and> (\<forall>e \<in> E. clean_edge e) \<and>
     (\<forall>k. get_cf db CfRels k \<noteq> None \<longleftrightarrow> (\<exists>e \<in> E. edge_row e k))"

lemma rel_key_inject:
  assumes "clean_id a" "clean_id a'" "clean_id v" "clean_id v'"
  shows "rel_key d a v o1 = rel_key d' a' v' o2 \<longleftrightarrow> d = d' \<and> a = a' \<and> v = v' \<and> o1 = o2"
  using assms by (auto simp: rel_key_def clean_id_def sep_split_unique)

lemma rel_dirs [simp]: "REL_OUT \<noteq> REL_IN" "REL_IN \<noteq> REL_OUT"
  by (simp_all add: REL_OUT_def REL_IN_def)

lemma rel_suffix_key:
  "clean_id a \<Longrightarrow> clean_id v \<Longrightarrow> clean_id x \<Longrightarrow>
   rel_suffix (rel_key d a v x) (length (rel_prefix d a)) = Some (v, x)"
  by (simp add: rel_key_def rel_prefix_def rel_suffix_def clean_id_def split_compound_compound)

lemma rel_prefix_key:
  "clean_id a \<Longrightarrow> clean_id a' \<Longrightarrow> prefix (rel_prefix d a) (rel_key d' a' v x) \<longleftrightarrow> d = d' \<and> a = a'"
  using prefix_sep_iff [of a a' "v @ SEP # x"] by (auto simp: rel_key_def rel_prefix_def clean_id_def)

lemma rel_verb_prefix_key:
  assumes "clean_id a" "clean_id a'" "clean_id v" "clean_id v'"
  shows "prefix (rel_verb_prefix d a v) (rel_key d' a' v' x) \<longleftrightarrow> d = d' \<and> a = a' \<and> v = v'"
proof
  assume p: "prefix (rel_verb_prefix d a v) (rel_key d' a' v' x)"
  then obtain r where "d = d'" and e: "a' @ SEP # v' @ SEP # x = a @ SEP # v @ SEP # r"
    by (auto simp: rel_verb_prefix_def rel_key_def prefix_def)
  then show "d = d' \<and> a = a' \<and> v = v'"
    using assms by (simp add: sep_split_unique clean_id_def)
qed (auto simp: rel_verb_prefix_def rel_key_def)


lemma rels_of_db_ok: "rels_of db E \<Longrightarrow> db_ok db"
  by (simp add: rels_of_def)

lemma edge_row_inject:
  "edge_row e k \<Longrightarrow> edge_row e' k \<Longrightarrow> clean_edge e \<Longrightarrow> clean_edge e' \<Longrightarrow> e = e'"
  by (cases e; cases e') (auto simp: edge_row_def clean_edge_def rel_key_inject)

lemma get_relate:
  assumes "db_ok db"
  shows "get_cf (relate db f v t) c k =
    (if c = CfRels \<and> edge_row (f, v, t) k then Some [] else get_cf db c k)"
  unfolding relate_def using assms by (subst get_write_plain) (auto simp: op_effect_def edge_row_def)

lemma get_unrelate:
  assumes "db_ok db"
  shows "get_cf (unrelate db f v t) c k =
    (if c = CfRels \<and> edge_row (f, v, t) k then None else get_cf db c k)"
  unfolding unrelate_def using assms by (subst get_write_plain) (auto simp: op_effect_def edge_row_def)

lemma rels_of_relate:
  assumes "rels_of db E" "clean_edge (f, v, t)"
  shows "rels_of (relate db f v t) (insert (f, v, t) E)"
proof -
  have ok: "db_ok db" using assms(1) by (rule rels_of_db_ok)
  then have "db_ok (relate db f v t)" by (simp add: relate_def)
  with assms show ?thesis by (simp add: rels_of_def get_relate [OF ok])
qed

lemma rels_of_unrelate:
  assumes "rels_of db E" "clean_edge (f, v, t)"
  shows "rels_of (unrelate db f v t) (E - {(f, v, t)})"
proof -
  have ok: "db_ok db" using assms(1) by (rule rels_of_db_ok)
  have "edge_row e k \<Longrightarrow> e \<in> E \<Longrightarrow> edge_row (f, v, t) k \<longleftrightarrow> e = (f, v, t)" for e k
    using assms edge_row_inject [of e k "(f, v, t)"] by (auto simp: rels_of_def)
  then have "(\<not> edge_row (f, v, t) k \<and> (\<exists>e \<in> E. edge_row e k)) \<longleftrightarrow>
      (\<exists>e \<in> E - {(f, v, t)}. edge_row e k)" for k by blast
  moreover have "db_ok (unrelate db f v t)" using ok by (simp add: unrelate_def)
  moreover have "(\<exists>e \<in> E. edge_row e k) \<longleftrightarrow> get_cf db CfRels k \<noteq> None" for k
    using assms(1) by (simp add: rels_of_def)
  ultimately show ?thesis
    unfolding rels_of_def get_unrelate [OF ok] using assms(1) by (auto simp: rels_of_def)
qed

text \<open>What a scan of one end returns.\<close>

lemma set_map_filter: "set (List.map_filter g xs) = {y. \<exists>x \<in> set xs. g x = Some y}"
  by (induction xs) (auto simp: List.map_filter_simps split: option.splits)

definition scan_prefix :: "byte \<Rightarrow> bytes \<Rightarrow> bytes option \<Rightarrow> bytes" where
  "scan_prefix d a vo = (case vo of Some v \<Rightarrow> rel_verb_prefix d a v | None \<Rightarrow> rel_prefix d a)"

definition wanted :: "byte \<Rightarrow> bytes \<Rightarrow> bytes option \<Rightarrow> bytes \<times> bytes \<times> bytes \<Rightarrow> bool" where
  "wanted d a vo e \<longleftrightarrow> (case e of (f, v, t) \<Rightarrow>
     a = (if d = REL_OUT then f else t) \<and> (case vo of None \<Rightarrow> True | Some w \<Rightarrow> v = w))"

definition own_key :: "byte \<Rightarrow> bytes \<times> bytes \<times> bytes \<Rightarrow> bytes" where
  "own_key d e = (case e of (f, v, t) \<Rightarrow> if d = REL_OUT then rel_key d f v t else rel_key d t v f)"

lemma row_wanted:
  assumes "clean_edge e" "clean_id a" "case vo of None \<Rightarrow> True | Some v \<Rightarrow> clean_id v" "d = REL_OUT \<or> d = REL_IN"
  shows "edge_row e k \<and> prefix (scan_prefix d a vo) k \<longleftrightarrow> wanted d a vo e \<and> k = own_key d e"
proof -
  obtain f v t where e: "e = (f, v, t)" by (cases e)
  show ?thesis
    using assms unfolding e edge_row_def wanted_def own_key_def scan_prefix_def clean_edge_def prod.case
    by (cases vo) (simp_all, (safe; simp add: rel_prefix_key rel_verb_prefix_key)+)
qed

lemma scan_rows:
  assumes "rels_of db E" "clean_id a" "case vo of None \<Rightarrow> True | Some v \<Rightarrow> clean_id v" "d = REL_OUT \<or> d = REL_IN"
  shows "fst ` set (scan_cf db CfRels (scan_prefix d a vo)) = own_key d ` {e \<in> E. wanted d a vo e}"
proof (rule set_eqI)
  fix k
  have "k \<in> fst ` set (scan_cf db CfRels (scan_prefix d a vo)) \<longleftrightarrow>
      (\<exists>e \<in> E. edge_row e k \<and> prefix (scan_prefix d a vo) k)"
    using assms(1) scan_cf_keys [of db k CfRels "scan_prefix d a vo"] by (auto simp: rels_of_def)
  also have "\<dots> \<longleftrightarrow> (\<exists>e \<in> E. wanted d a vo e \<and> k = own_key d e)"
    using assms(1) row_wanted [OF _ assms(2-4)] by (auto simp: rels_of_def)
  finally show "k \<in> fst ` set (scan_cf db CfRels (scan_prefix d a vo)) \<longleftrightarrow> k \<in> own_key d ` {e \<in> E. wanted d a vo e}"
    by blast
qed

text \<open>The relation a row stands for.\<close>

definition row_relation :: "byte \<Rightarrow> bytes \<Rightarrow> bytes \<Rightarrow> relation option" where
  "row_relation d a k = map_option
     (\<lambda>(verb, other).
        if d = REL_OUT then \<lparr>rel_from = a, rel_verb = verb, rel_to = other\<rparr>
        else \<lparr>rel_from = other, rel_verb = verb, rel_to = a\<rparr>) (rel_suffix k (length (rel_prefix d a)))"

definition edge_relation :: "bytes \<times> bytes \<times> bytes \<Rightarrow> relation" where
  "edge_relation e = (case e of (f, v, t) \<Rightarrow> \<lparr>rel_from = f, rel_verb = v, rel_to = t\<rparr>)"

lemma row_relation_own:
  "clean_edge e \<Longrightarrow> wanted d a vo e \<Longrightarrow> row_relation d a (own_key d e) = Some (edge_relation e)"
  by (cases e) (auto simp: row_relation_def edge_relation_def own_key_def wanted_def clean_edge_def rel_suffix_key
      split: if_splits)

lemma scan_rels_alt:
  "scan_rels db d a vo = List.map_filter (\<lambda>kv. row_relation d a (fst kv)) (scan_cf db CfRels (scan_prefix d a vo))"
  by (simp add: scan_rels_def row_relation_def scan_prefix_def case_prod_unfold)

lemma set_scan_rels:
  assumes "rels_of db E" "clean_id a" "case vo of None \<Rightarrow> True | Some v \<Rightarrow> clean_id v" "d = REL_OUT \<or> d = REL_IN"
  shows "set (scan_rels db d a vo) = edge_relation ` {e \<in> E. wanted d a vo e}"
proof (rule set_eqI)
  fix r
  have c: "\<forall>e \<in> E. clean_edge e" using assms(1) by (simp add: rels_of_def)
  have "r \<in> set (scan_rels db d a vo) \<longleftrightarrow>
      (\<exists>k \<in> fst ` set (scan_cf db CfRels (scan_prefix d a vo)). row_relation d a k = Some r)"
    by (simp add: scan_rels_alt set_map_filter)
  also have "\<dots> \<longleftrightarrow> (\<exists>e \<in> E. wanted d a vo e \<and> row_relation d a (own_key d e) = Some r)"
    unfolding scan_rows [OF assms] by blast
  also have "\<dots> \<longleftrightarrow> (\<exists>e \<in> E. wanted d a vo e \<and> edge_relation e = r)"
    using c row_relation_own by (metis option.inject)
  finally show "r \<in> set (scan_rels db d a vo) \<longleftrightarrow> r \<in> edge_relation ` {e \<in> E. wanted d a vo e}" by blast
qed

lemma distinct_map_filter_keys:
  assumes "distinct (map fst xs)"
    "\<And>k k'. k \<in> fst ` set xs \<Longrightarrow> k' \<in> fst ` set xs \<Longrightarrow> g k = g k' \<Longrightarrow> g k \<noteq> None \<Longrightarrow> k = k'"
  shows "distinct (List.map_filter (\<lambda>kv. g (fst kv)) xs)"
  using assms
proof (induction xs)
  case (Cons x xs)
  have "distinct (List.map_filter (\<lambda>kv. g (fst kv)) xs)"
    by (rule Cons.IH) (use Cons.prems(1) in simp, rule Cons.prems(2), simp_all)
  moreover have "y \<notin> set (List.map_filter (\<lambda>kv. g (fst kv)) xs)" if "g (fst x) = Some y" for y
  proof
    assume "y \<in> set (List.map_filter (\<lambda>kv. g (fst kv)) xs)"
    then obtain kv where "kv \<in> set xs" "g (fst kv) = Some y" by (auto simp: set_map_filter)
    with Cons.prems(1) Cons.prems(2) [of "fst x" "fst kv"] that show False by (auto simp: rev_image_eqI)
  qed
  ultimately show ?case by (auto simp: List.map_filter_simps split: option.split)
qed (simp add: List.map_filter_simps)

lemma edge_relation_inject: "edge_relation e = edge_relation e' \<longleftrightarrow> e = e'"
  by (cases e; cases e') (auto simp: edge_relation_def)

lemma distinct_scan_rels:
  assumes "rels_of db E" "clean_id a" "case vo of None \<Rightarrow> True | Some v \<Rightarrow> clean_id v" "d = REL_OUT \<or> d = REL_IN"
  shows "distinct (scan_rels db d a vo)"
  unfolding scan_rels_alt
proof (rule distinct_map_filter_keys)
  show "distinct (map fst (scan_cf db CfRels (scan_prefix d a vo)))"
    using scan_cf_sorted [OF rels_of_db_ok [OF assms(1)]] strict_sorted_iff by blast
  have c: "\<forall>e \<in> E. clean_edge e" using assms(1) by (simp add: rels_of_def)
  fix k k'
  assume k: "k \<in> fst ` set (scan_cf db CfRels (scan_prefix d a vo))"
    "k' \<in> fst ` set (scan_cf db CfRels (scan_prefix d a vo))" and eq: "row_relation d a k = row_relation d a k'"
  from k obtain e e' where "k = own_key d e" "e \<in> E" "wanted d a vo e" "k' = own_key d e'" "e' \<in> E" "wanted d a vo e'"
    unfolding scan_rows [OF assms] by blast
  with c eq show "k = k'" by (simp add: row_relation_own edge_relation_inject)
qed

text \<open>C20: the edge rows refine a set of edges: \<open>relate\<close> is insertion, \<open>unrelate\<close> deletion, and the
  scans return each edge at their end, with the verb asked for, exactly once.\<close>

theorem relations_refine:
  assumes "rels_of db E" "clean_id f" "clean_id v" "clean_id t"
  shows "rels_of (relate db f v t) (insert (f, v, t) E) \<and>
         rels_of (unrelate db f v t) (E - {(f, v, t)}) \<and>
         set (relations_out db f None) = {r. (f, rel_verb r, rel_to r) \<in> E \<and> rel_from r = f} \<and>
         set (relations_in db t None) = {r. (rel_from r, rel_verb r, t) \<in> E \<and> rel_to r = t} \<and>
         set (relations_out db f (Some v)) = {r. (f, v, rel_to r) \<in> E \<and> rel_from r = f \<and> rel_verb r = v} \<and>
         set (relations_in db t (Some v)) = {r. (rel_from r, v, t) \<in> E \<and> rel_to r = t \<and> rel_verb r = v} \<and>
         distinct (relations_out db f None) \<and> distinct (relations_in db t (Some v))"
proof -
  have i: "edge_relation ` {e \<in> E. P e} = {r. (rel_from r, rel_verb r, rel_to r) \<in> E \<and> P (rel_from r, rel_verb r, rel_to r)}" for P
  proof (rule set_eqI)
    fix r
    have "r = edge_relation e \<longleftrightarrow> e = (rel_from r, rel_verb r, rel_to r)" for e
      by (cases e; cases r) (auto simp: edge_relation_def)
    note eq = this
    show "r \<in> edge_relation ` {e \<in> E. P e} \<longleftrightarrow>
      r \<in> {r. (rel_from r, rel_verb r, rel_to r) \<in> E \<and> P (rel_from r, rel_verb r, rel_to r)}"
      unfolding image_iff mem_Collect_eq eq by blast
  qed
  have c: "clean_edge (f, v, t)" using assms by (simp add: clean_edge_def)
  show ?thesis
    using rels_of_relate [OF assms(1) c] rels_of_unrelate [OF assms(1) c]
      distinct_scan_rels [OF assms(1,2), of None REL_OUT] distinct_scan_rels [OF assms(1,4), of "Some v" REL_IN] assms(2-4)
    by (auto simp: relations_out_def relations_in_def set_scan_rels [OF assms(1)] i wanted_def)
qed

lemma rels_of_empty: "rels_of (\<lambda>_. []) {}"
  by (simp add: rels_of_def db_ok_def rows_ok_def get_cf_def row_get_def)

theorem relations_refine_witness:
  "set (relations_in (relate (\<lambda>_. []) ''p'' ''has'' ''d'') ''d'' None) = {\<lparr>rel_from = ''p'', rel_verb = ''has'', rel_to = ''d''\<rparr>}"
proof -
  have "utf8_valid ''p''" "utf8_valid ''has''" "utf8_valid ''d''" by code_simp+
  then have c: "clean_id ''p''" "clean_id ''has''" "clean_id ''d''" by (simp_all add: clean_id_def SEP_def)
  from relations_refine [OF rels_of_empty c]
  have "rels_of (relate (\<lambda>_. []) ''p'' ''has'' ''d'') {(''p'', ''has'', ''d'')}" by blast
  from relations_refine [OF this c]
  have "set (relations_in (relate (\<lambda>_. []) ''p'' ''has'' ''d'') ''d'' None) =
    {r. (rel_from r, rel_verb r, ''d'') \<in> {(''p'', ''has'', ''d'')} \<and> rel_to r = ''d''}" by blast
  also have "\<dots> = {\<lparr>rel_from = ''p'', rel_verb = ''has'', rel_to = ''d''\<rparr>}"
    by (rule set_eqI) (case_tac x, simp)
  finally show ?thesis .
qed

section \<open>The traversal is a breadth-first search\<close>

primrec within :: "('a \<Rightarrow> 'a list) \<Rightarrow> 'a set \<Rightarrow> nat \<Rightarrow> 'a set" where
  "within nb S 0 = S"
| "within nb S (Suc k) = within nb S k \<union> (\<Union>x \<in> within nb S k. set (nb x))"

lemma within_mono: "k \<le> k' \<Longrightarrow> within nb S k \<subseteq> within nb S k'"
  by (rule lift_Suc_mono_le [of "within nb S"]) auto

lemma within_closed: "(\<And>x. x \<in> within nb S h \<Longrightarrow> set (nb x) \<subseteq> within nb S h) \<Longrightarrow> h \<le> k \<Longrightarrow> within nb S k = within nb S h"
proof (induction k)
  case (Suc k)
  then show ?case by (cases "h \<le> k") (auto simp: le_Suc_eq)
qed simp

text \<open>
  The invariant of the loop at level \<open>h\<close>: the queue holds \<open>A\<close> at \<open>h\<close> hops and then \<open>B\<close> at one more;
  what is visited is sound and in order of distance; and until the limit is met, level \<open>h\<close> is
  complete and its ids outside \<open>Q\<close>, which are those still to be expanded, have been expanded.
\<close>

definition nearest_first :: "('a \<Rightarrow> 'a list) \<Rightarrow> 'a set \<Rightarrow> 'a list \<Rightarrow> bool" where
  "nearest_first nb S xs \<longleftrightarrow> sorted_wrt (\<lambda>x y. \<forall>k. y \<in> within nb S k \<longrightarrow> x \<in> within nb S k) xs"

definition walk_inv :: "('a \<Rightarrow> 'a list) \<Rightarrow> 'a set \<Rightarrow> nat \<Rightarrow> nat \<Rightarrow> nat \<Rightarrow> 'a list \<Rightarrow> 'a list \<Rightarrow> 'a set \<Rightarrow> 'a walk \<Rightarrow> bool" where
  "walk_inv nb S depth limit h A B Q w \<longleftrightarrow>
     w_frontier w = map (\<lambda>x. (x, h)) A @ map (\<lambda>x. (x, Suc h)) B \<and>
     w_visited w = set (w_order w) \<and> distinct (w_order w) \<and> nearest_first nb S (w_order w) \<and>
     set A \<subseteq> within nb S h \<and> set B \<subseteq> set (w_order w) \<and> set (w_order w) \<subseteq> within nb S (Suc h) \<and>
     set (w_order w) \<subseteq> within nb S depth \<and> h \<le> depth \<and> (h = depth \<longrightarrow> B = []) \<and>
     (length (w_order w) < limit \<longrightarrow>
        within nb S h \<subseteq> set (w_order w) \<and> set (w_order w) \<subseteq> within nb S h \<union> set B \<and>
        (\<forall>x \<in> within nb S h - Q. h < depth \<longrightarrow> set (nb x) \<subseteq> set (w_order w)))"

lemma walk_inv_visit:
  assumes inv: "walk_inv nb S depth limit h A B Q w" and lim: "length (w_order w) < limit" and h: "h < depth"
    and n: "n \<in> within nb S (Suc h)"
  shows "\<exists>B'. walk_inv nb S depth limit h A B' Q (visit n (h + 1) w) \<and> set (w_order w) \<union> {n} \<subseteq> set (w_order (visit n (h + 1) w))"
proof (cases "n \<in> w_visited w")
  case True
  with inv show ?thesis by (intro exI [of _ B]) (auto simp: visit_def walk_inv_def)
next
  case False
  note i = inv [unfolded walk_inv_def]
  have full: "within nb S h \<subseteq> set (w_order w)" using i lim by blast
  have "x \<in> within nb S k" if "x \<in> set (w_order w)" "n \<in> within nb S k" for x k
  proof -
    have "\<not> k \<le> h" using that(2) False full i within_mono [of k h nb S] by auto
    then have "within nb S (Suc h) \<subseteq> within nb S k" by (intro within_mono) simp
    with that(1) i show ?thesis by blast
  qed
  then have near: "nearest_first nb S (w_order w @ [n])"
    using i by (auto simp: nearest_first_def sorted_wrt_append)
  have "within nb S (Suc h) \<subseteq> within nb S depth" using h by (intro within_mono) simp
  with n have nd: "n \<in> within nb S depth" by blast
  show ?thesis
    using False i near n nd h lim unfolding walk_inv_def visit_def
    by (intro exI [of _ "B @ [n]"]) auto
qed

lemma walk_inv_neighbors:
  assumes "walk_inv nb S depth limit h A B Q w" "h < depth" "set ns \<subseteq> within nb S (Suc h)"
  shows "\<exists>B'. walk_inv nb S depth limit h A B' Q (visit_neighbors limit h ns w) \<and>
    set (w_order w) \<subseteq> set (w_order (visit_neighbors limit h ns w)) \<and>
    (length (w_order (visit_neighbors limit h ns w)) < limit \<longrightarrow> set ns \<subseteq> set (w_order (visit_neighbors limit h ns w)))"
  using assms
proof (induction ns arbitrary: B w)
  case (Cons n ns)
  show ?case
  proof (cases "length (w_order w) < limit")
    case True
    obtain B1 where "walk_inv nb S depth limit h A B1 Q (visit n (h + 1) w)"
      and o: "set (w_order w) \<union> {n} \<subseteq> set (w_order (visit n (h + 1) w))"
      using walk_inv_visit [OF Cons.prems(1) True Cons.prems(2), of n] Cons.prems(3) by auto
    from Cons.IH [OF this(1) Cons.prems(2)] Cons.prems(3) obtain B2 where
      "walk_inv nb S depth limit h A B2 Q (visit_neighbors limit h ns (visit n (h + 1) w))"
      "set (w_order (visit n (h + 1) w)) \<subseteq> set (w_order (visit_neighbors limit h ns (visit n (h + 1) w)))"
      "length (w_order (visit_neighbors limit h ns (visit n (h + 1) w))) < limit \<longrightarrow>
         set ns \<subseteq> set (w_order (visit_neighbors limit h ns (visit n (h + 1) w)))" by auto
    with o True show ?thesis by (intro exI [of _ B2]) auto
  next
    case False
    with Cons.prems(1) show ?thesis by (intro exI [of _ B]) auto
  qed
qed (intro exI, auto)


lemma walk_inv_pop:
  assumes "walk_inv nb S depth limit h (x # A) B (set (x # A)) w"
    "depth \<le> h \<or> limit \<le> length (w_order w)"
  shows "walk_inv nb S depth limit h A B (set A) (w\<lparr>w_frontier := map (\<lambda>x. (x, h)) A @ map (\<lambda>x. (x, Suc h)) B\<rparr>)"
  using assms by (auto simp: walk_inv_def)

lemma walk_inv_expand:
  assumes inv: "walk_inv nb S depth limit h (x # A) B (set (x # A)) w" and lt: "h < depth" "length (w_order w) < limit"
  defines "w' \<equiv> visit_neighbors limit h (nb x) (w\<lparr>w_frontier := map (\<lambda>x. (x, h)) A @ map (\<lambda>x. (x, Suc h)) B\<rparr>)"
  shows "\<exists>B'. walk_inv nb S depth limit h A B' (set A) w' \<and> set (w_order w) \<subseteq> set (w_order w')"
proof -
  let ?u = "w\<lparr>w_frontier := map (\<lambda>x. (x, h)) A @ map (\<lambda>x. (x, Suc h)) B\<rparr>"
  have "walk_inv nb S depth limit h A B (set (x # A)) ?u" using inv by (auto simp: walk_inv_def)
  moreover have "set (nb x) \<subseteq> within nb S (Suc h)" using inv by (auto simp: walk_inv_def)
  ultimately obtain B' where *: "walk_inv nb S depth limit h A B' (set (x # A)) w'" "set (w_order w) \<subseteq> set (w_order w')"
    "length (w_order w') < limit \<longrightarrow> set (nb x) \<subseteq> set (w_order w')"
    using walk_inv_neighbors [of nb S depth limit h A B "set (x # A)" ?u "nb x"] lt unfolding w'_def by auto
  then have "walk_inv nb S depth limit h A B' (set A) w'" by (auto simp: walk_inv_def)
  with * show ?thesis by blast
qed

lemma walk_inv_level:
  assumes "walk_inv nb S depth limit h [] (y # B) {} w"
  shows "walk_inv nb S depth limit (Suc h) (y # B) [] (set (y # B)) w"
proof -
  note i = assms [unfolded walk_inv_def]
  have h: "h < depth" using i by auto
  have "set (w_order w) \<subseteq> within nb S (Suc h)" using i by simp
  then have "set (w_order w) \<subseteq> within nb S (Suc (Suc h))"
    using within_mono [of "Suc h" "Suc (Suc h)" nb S] by (meson le_SucI order_refl subset_trans)
  moreover have "within nb S (Suc h) \<subseteq> set (w_order w)" if "length (w_order w) < limit" using i that h by auto
  moreover have "set (nb x) \<subseteq> set (w_order w)"
    if "length (w_order w) < limit" "x \<in> within nb S (Suc h) - set (y # B)" for x
  proof -
    have "x \<in> set (w_order w)" using that calculation(2) by blast
    then have "x \<in> within nb S h" using that i by blast
    then show ?thesis using that i h by blast
  qed
  moreover have "w_frontier w = map (\<lambda>x. (x, Suc h)) (y # B)" "set (y # B) \<subseteq> within nb S (Suc h)" using i by auto
  moreover have "w_visited w = set (w_order w)" "distinct (w_order w)" "nearest_first nb S (w_order w)"
    "set (w_order w) \<subseteq> within nb S depth" using i by simp_all
  ultimately show ?thesis unfolding walk_inv_def using h \<open>set (w_order w) \<subseteq> within nb S (Suc h)\<close>
    by (intro conjI) simp_all
qed

lemma walk_loop_spec:
  assumes "walk_inv nb S depth limit h A B (set A) w"
  shows "distinct (walk_loop nb depth limit w) \<and> nearest_first nb S (walk_loop nb depth limit w) \<and>
    set (w_order w) \<subseteq> set (walk_loop nb depth limit w) \<and> set (walk_loop nb depth limit w) \<subseteq> within nb S depth \<and>
    (length (walk_loop nb depth limit w) < limit \<longrightarrow> set (walk_loop nb depth limit w) = within nb S depth)"
  using assms
proof (induction nb depth limit w arbitrary: h A B rule: walk_loop.induct)
  case (1 nb depth limit w)
  have main: ?case if inv: "walk_inv nb S depth limit h (x # A) B (set (x # A)) w" for h x A B
  proof -
    have f: "w_frontier w = (x, h) # map (\<lambda>x. (x, h)) A @ map (\<lambda>x. (x, Suc h)) B"
      using inv by (simp add: walk_inv_def)
    show ?thesis
    proof (cases "depth \<le> h \<or> limit \<le> length (w_order w)")
      case True
      from "1.IH"(1) [OF f refl refl True walk_inv_pop [OF inv True]] True show ?thesis
        by (simp add: walk_loop.simps [of nb depth limit w] f)
    next
      case False
      then have "h < depth" "length (w_order w) < limit" by auto
      from walk_inv_expand [OF inv this] obtain B' where
        e: "walk_inv nb S depth limit h A B' (set A)
          (visit_neighbors limit h (nb x) (w\<lparr>w_frontier := map (\<lambda>x. (x, h)) A @ map (\<lambda>x. (x, Suc h)) B\<rparr>))"
        "set (w_order w) \<subseteq> set (w_order (visit_neighbors limit h (nb x)
          (w\<lparr>w_frontier := map (\<lambda>x. (x, h)) A @ map (\<lambda>x. (x, Suc h)) B\<rparr>)))" by blast
      have "walk_loop nb depth limit w = walk_loop nb depth limit (visit_neighbors limit h (nb x)
          (w\<lparr>w_frontier := map (\<lambda>x. (x, h)) A @ map (\<lambda>x. (x, Suc h)) B\<rparr>))"
        using False by (simp add: walk_loop.simps [of nb depth limit w] f)
      with "1.IH"(2) [OF f refl refl False e(1)] e(2) show ?thesis by auto
    qed
  qed
  show ?case
  proof (cases A)
    case (Cons x A')
    with main "1.prems" show ?thesis by blast
  next
    case Nil
    show ?thesis
    proof (cases B)
      case (Cons y B')
      from "1.prems" have "walk_inv nb S depth limit h [] (y # B') {} w" by (simp add: Nil Cons)
      then have "walk_inv nb S depth limit (Suc h) (y # B') [] (set (y # B')) w" by (rule walk_inv_level)
      then show ?thesis by (rule main)
    next
      case B: Nil
      note i = "1.prems" [unfolded Nil B walk_inv_def]
      have res: "walk_loop nb depth limit w = w_order w" using i by (simp add: walk_loop.simps [of nb depth limit w])
      have "set (w_order w) = within nb S depth" if lt: "length (w_order w) < limit"
      proof -
        have eq: "set (w_order w) = within nb S h" using i lt by auto
        show ?thesis
        proof (cases "h = depth")
          case False
          then have "within nb S depth = within nb S h" using i lt eq by (intro within_closed) auto
          with eq show ?thesis by simp
        qed (use eq in simp)
      qed
      with i show ?thesis by (auto simp: res)
    qed
  qed
qed

lemma visit_length: "length (w_order (visit n h w)) \<le> Suc (length (w_order w))"
  by (simp add: visit_def)

lemma visit_neighbors_length:
  "length (w_order w) \<le> limit \<Longrightarrow> length (w_order (visit_neighbors limit h ns w)) \<le> limit"
proof (induction ns arbitrary: w)
  case (Cons n ns)
  then show ?case using visit_length [of n "h + 1" w] by (cases "limit \<le> length (w_order w)") simp_all
qed simp

lemma walk_loop_length:
  "length (walk_loop nb depth limit w) \<le> max limit (length (w_order w))"
proof (induction nb depth limit w rule: walk_loop.induct)
  case (1 nb depth limit w)
  show ?case
  proof (cases "w_frontier w")
    case Nil
    then show ?thesis by (simp add: walk_loop.simps [of nb depth limit w])
  next
    case (Cons x rest)
    obtain i h where x: "x = (i, h)" by (cases x)
    show ?thesis
    proof (cases "depth \<le> h \<or> limit \<le> length (w_order w)")
      case True
      with "1.IH"(1) [OF Cons [unfolded x] refl refl True] show ?thesis
        by (simp add: walk_loop.simps [of nb depth limit w] Cons x)
    next
      case False
      with "1.IH"(2) [OF Cons [unfolded x] refl refl False] show ?thesis
        using visit_neighbors_length [of "w\<lparr>w_frontier := rest\<rparr>" limit h "nb i"]
        by (simp add: walk_loop.simps [of nb depth limit w] Cons x)
    qed
  qed
qed

lemma visit_starts_spec:
  assumes "distinct (w_order w)" "w_visited w = set (w_order w)" "w_frontier w = map (\<lambda>x. (x, 0)) (w_order w)"
  shows "distinct (w_order (visit_starts ss w)) \<and> w_visited (visit_starts ss w) = set (w_order (visit_starts ss w)) \<and>
    w_frontier (visit_starts ss w) = map (\<lambda>x. (x, 0)) (w_order (visit_starts ss w)) \<and>
    set (w_order (visit_starts ss w)) = set (w_order w) \<union> set ss"
  using assms
proof (induction ss w rule: visit_starts.induct)
  case (2 s ss w)
  then have "distinct (w_order (visit s 0 w))" "w_visited (visit s 0 w) = set (w_order (visit s 0 w))"
    "w_frontier (visit s 0 w) = map (\<lambda>x. (x, 0)) (w_order (visit s 0 w))"
    "set (w_order (visit s 0 w)) = insert s (set (w_order w))" by (auto simp: visit_def)
  with "2.IH" show ?case by simp
qed simp

lemma walk_inv_start:
  assumes "distinct (w_order w)" "w_visited w = set (w_order w)" "w_frontier w = map (\<lambda>x. (x, 0)) (w_order w)"
  shows "walk_inv nb (set (w_order w)) depth limit 0 (w_order w) [] (set (w_order w)) w"
proof -
  have s: "set (w_order w) \<subseteq> within nb (set (w_order w)) k" for k
    using within_mono [of 0 k nb "set (w_order w)"] by simp
  have "sorted_wrt (\<lambda>x y. x \<in> set (w_order w) \<and> y \<in> set (w_order w)) (w_order w)"
    by (simp add: sorted_wrt_iff_nth_less)
  then have "nearest_first nb (set (w_order w)) (w_order w)"
    unfolding nearest_first_def by (rule sorted_wrt_mono_rel [rotated]) (use s in blast)
  then show ?thesis unfolding walk_inv_def using assms s [of depth] s [of "Suc 0"] by simp
qed

text \<open>
  C15: the traversal is a breadth-first search.  It returns every start and only ids within
  \<open>depth\<close> hops, none twice, nearest first; when it returns fewer than \<open>limit\<close> ids it returns all
  that are within \<open>depth\<close> hops; and the limit is exceeded only by the distinct starts themselves.
\<close>

theorem traverse_bfs:
  "distinct (traverse db start sp) \<and>
   set start \<subseteq> set (traverse db start sp) \<and>
   set (traverse db start sp) \<subseteq> within (neighbors db sp) (set start) (ts_depth sp) \<and>
   nearest_first (neighbors db sp) (set start) (traverse db start sp) \<and>
   (length (traverse db start sp) < ts_limit sp \<longrightarrow>
      set (traverse db start sp) = within (neighbors db sp) (set start) (ts_depth sp)) \<and>
   length (traverse db start sp) \<le> max (ts_limit sp) (card (set start))"
proof -
  let ?w = "visit_starts start \<lparr>w_visited = {}, w_order = [], w_frontier = []\<rparr>"
  let ?nb = "neighbors db sp"
  have w: "distinct (w_order ?w)" "w_visited ?w = set (w_order ?w)"
    "w_frontier ?w = map (\<lambda>x. (x, 0)) (w_order ?w)" "set (w_order ?w) = set start"
    using visit_starts_spec [of "\<lparr>w_visited = {}, w_order = [], w_frontier = []\<rparr>" start] by auto
  from walk_inv_start [OF w(1-3), of ?nb "ts_depth sp" "ts_limit sp"]
  have "walk_inv ?nb (set start) (ts_depth sp) (ts_limit sp) 0 (w_order ?w) [] (set (w_order ?w)) ?w"
    by (simp only: w(4))
  note spec = walk_loop_spec [OF this]
  have "length (w_order ?w) = card (set start)" using w(1,4) distinct_card by metis
  with walk_loop_length [of ?nb "ts_depth sp" "ts_limit sp" ?w]
  have "length (traverse db start sp) \<le> max (ts_limit sp) (card (set start))" by (simp add: traverse_def)
  with spec [unfolded w(4)] show ?thesis unfolding traverse_def by - (elim conjE, intro conjI; assumption)
qed

theorem traverse_bfs_witness:
  "set (traverse (relate (\<lambda>_. []) ''p'' ''has'' ''d'') [''p''] default_traversal) =
   within (neighbors (relate (\<lambda>_. []) ''p'' ''has'' ''d'') default_traversal) (set [''p'']) (ts_depth default_traversal)"
proof -
  let ?db = "relate (\<lambda>_. []) ''p'' ''has'' ''d''" and ?nb = "neighbors (relate (\<lambda>_. []) ''p'' ''has'' ''d'') default_traversal"
  have "utf8_valid ''p''" "utf8_valid ''has''" "utf8_valid ''d''" by code_simp+
  then have c: "clean_id ''p''" "clean_id ''has''" "clean_id ''d''" by (simp_all add: clean_id_def SEP_def)
  then have r: "rels_of ?db {(''p'', ''has'', ''d'')}"
    using rels_of_relate [OF rels_of_empty, of "''p''" "''has''" "''d''"] by (simp add: clean_edge_def)
  have n: "set (?nb x) \<subseteq> {''p'', ''d''}" if "x \<in> {''p'', ''d''}" for x
    using that c by (auto simp: neighbors_def relations_out_def relations_in_def set_scan_rels [OF r] edge_relation_def)
  have "within ?nb (set [''p'']) k \<subseteq> {''p'', ''d''}" for k
  proof (induction k)
    case (Suc k)
    then show ?case using n by (simp only: within.simps) blast
  qed simp
  then have "set (traverse ?db [''p''] default_traversal) \<subseteq> {''p'', ''d''}"
    using traverse_bfs [of ?db "[''p'']" default_traversal] by (elim conjE) (rule subset_trans)
  then have "card (set (traverse ?db [''p''] default_traversal)) \<le> 2"
    using card_mono [of "{''p'', ''d''}" "set (traverse ?db [''p''] default_traversal)"]
    by simp
  moreover have "distinct (traverse ?db [''p''] default_traversal)"
    using traverse_bfs [of ?db "[''p'']" default_traversal] by (rule conjunct1)
  ultimately have "length (traverse ?db [''p''] default_traversal) \<le> 2" by (simp only: distinct_card)
  then have "length (traverse ?db [''p''] default_traversal) < ts_limit default_traversal"
    unfolding default_traversal_def traversal_spec.select_convs by linarith
  with traverse_bfs [of ?db "[''p'']" default_traversal] show ?thesis by (elim conjE) (erule mp)
qed

text \<open>The starts are not subject to the limit.\<close>

lemma traverse_over_limit:
  "traverse db [''a'', ''b''] \<lparr>ts_verbs = [], ts_outbound = True, ts_inbound = True, ts_depth = 2, ts_limit = 1\<rparr> =
   [''a'', ''b'']"
  by (simp add: traverse_def visit_def walk_loop.simps)

end
