(* ===== verification/Pending.thy ===== *)
theory Pending
  imports Prelude "HOL-Library.AList"
begin

text \<open>
  The out-of-band applier of the vector graph, \<open>crates/connxism/src/pending.rs\<close>: writers push
  operations, the applier collects them in batches, writes them into the graph and clears the
  batch, and a search reads the graph through the overlay of what is not applied yet.  Every
  method runs under the pending lock and the batch is written under the graph's write lock, so
  the interleavings are those of the step relation \<open>pstep\<close>.  The graph is known by the vector it
  holds for each id; \<open>score\<close> is the similarity of the query with a stored vector.
\<close>

section \<open>The shared state and its methods\<close>

text \<open>A hash map is an association list; \<open>Some e\<close> is an upsert, \<open>None\<close> a removal.\<close>

type_synonym ('i, 'e) ops = "('i \<times> 'e option) list"

record ('i, 'e) pstate =
  p_queue :: "'i list"
  p_latest :: "('i, 'e) ops"
  p_inflight :: "('i, 'e) ops"
  p_applying :: bool
  p_stopped :: bool

definition pending_cap :: nat where "pending_cap = 200000"
definition apply_batch :: nat where "apply_batch = 512"

definition pending_new :: "('i, 'e) pstate" where
  "pending_new = \<lparr>p_queue = [], p_latest = [], p_inflight = [], p_applying = False, p_stopped = False\<rparr>"

definition push_op :: "'i \<Rightarrow> 'e option \<Rightarrow> ('i, 'e) pstate \<Rightarrow> ('i, 'e) pstate" where
  "push_op i x s = s\<lparr>p_queue := p_queue s @ [i], p_latest := AList.update i x (p_latest s)\<rparr>"

text \<open>\<open>push_upsert\<close> waits while the queue is at its cap: \<open>None\<close> is the wait.\<close>

definition push_upsert :: "'i \<Rightarrow> 'e \<Rightarrow> ('i, 'e) pstate \<Rightarrow> ('i, 'e) pstate option" where
  "push_upsert i e s =
     (if pending_cap \<le> length (p_queue s) \<and> \<not> p_stopped s then None else Some (push_op i (Some e) s))"

definition push_remove :: "'i \<Rightarrow> ('i, 'e) pstate \<Rightarrow> ('i, 'e) pstate" where
  "push_remove i s = push_op i None s"

definition overlay_ops :: "('i, 'e) pstate \<Rightarrow> ('i, 'e) ops" where
  "overlay_ops s = p_latest s @ filter (\<lambda>(i, x). map_of (p_latest s) i = None) (p_inflight s)"

definition overlay :: "('e \<Rightarrow> 's) \<Rightarrow> ('i, 'e) pstate \<Rightarrow> ('i \<times> 's) list \<times> 'i list" where
  "overlay score s =
     (List.map_filter (\<lambda>(i, x). map_option (\<lambda>e. (i, score e)) x) (overlay_ops s),
      List.map_filter (\<lambda>(i, x). if x = None then Some i else None) (overlay_ops s))"

definition backlog :: "('i, 'e) pstate \<Rightarrow> nat" where
  "backlog s = length (p_queue s) + (if p_applying s then 1 else 0)"

definition quiescent :: "('i, 'e) pstate \<Rightarrow> bool" where
  "quiescent s \<longleftrightarrow> p_queue s = [] \<and> \<not> p_applying s \<and> p_inflight s = []"

fun collect_loop :: "'i list \<Rightarrow> ('i, 'e) ops \<Rightarrow> ('i, 'e) ops \<Rightarrow> ('i, 'e) ops \<Rightarrow>
    'i list \<times> ('i, 'e) ops \<times> ('i, 'e) ops \<times> ('i, 'e) ops" where
  "collect_loop [] latest inflight batch = ([], latest, inflight, batch)"
| "collect_loop (i # q) latest inflight batch =
     (if apply_batch \<le> length batch then (i # q, latest, inflight, batch)
      else (case map_of latest i of
              None \<Rightarrow> collect_loop q latest inflight batch
            | Some x \<Rightarrow> collect_loop q (AList.delete i latest) (AList.update i x inflight) (batch @ [(i, x)])))"

text \<open>\<open>collect_batch\<close> past its wait: \<open>None\<close> is the shutdown.\<close>

definition collect_batch :: "('i, 'e) pstate \<Rightarrow> (('i, 'e) ops \<times> ('i, 'e) pstate) option" where
  "collect_batch s =
     (if p_stopped s then None
      else (case collect_loop (p_queue s) (p_latest s) (p_inflight s) [] of
              (q, latest, inflight, batch) \<Rightarrow>
                Some (batch, s\<lparr>p_queue := q, p_latest := latest, p_inflight := inflight, p_applying := True\<rparr>)))"

definition finish_batch :: "('i, 'e) pstate \<Rightarrow> ('i, 'e) pstate" where
  "finish_batch s = s\<lparr>p_inflight := [], p_applying := False\<rparr>"

definition stop :: "('i, 'e) pstate \<Rightarrow> ('i, 'e) pstate" where
  "stop s = s\<lparr>p_stopped := True\<rparr>"

text \<open>\<open>graph.insert(id, emb)\<close> or \<open>graph.remove(id)\<close>, for each operation of the batch.\<close>

definition write_op :: "'i \<times> 'e option \<Rightarrow> ('i \<rightharpoonup> 'e) \<Rightarrow> ('i \<rightharpoonup> 'e)" where
  "write_op ix g = g(fst ix := snd ix)"

definition write_batch :: "('i, 'e) ops \<Rightarrow> ('i \<rightharpoonup> 'e) \<Rightarrow> ('i \<rightharpoonup> 'e)" where
  "write_batch b g = fold write_op b g"

section \<open>Writers, the applier and their interleavings\<close>

datatype ('i, 'e) applier = Waiting | Collected "('i, 'e) ops" | Applied | Exited

text \<open>\<open>y_wanted\<close> is the history: what the operations pushed so far leave, in their order.\<close>

record ('i, 'e) system =
  y_pending :: "('i, 'e) pstate"
  y_graph :: "'i \<rightharpoonup> 'e"
  y_applier :: "('i, 'e) applier"
  y_wanted :: "'i \<rightharpoonup> 'e"

inductive pstep :: "('i, 'e) system \<Rightarrow> ('i, 'e) system \<Rightarrow> bool" where
  upsert: "push_upsert i e (y_pending y) = Some s \<Longrightarrow>
    pstep y (y\<lparr>y_pending := s, y_wanted := (y_wanted y)(i \<mapsto> e)\<rparr>)"
| remove: "pstep y (y\<lparr>y_pending := push_remove i (y_pending y), y_wanted := (y_wanted y)(i := None)\<rparr>)"
| collect: "y_applier y = Waiting \<Longrightarrow> p_queue (y_pending y) \<noteq> [] \<Longrightarrow>
    collect_batch (y_pending y) = Some (b, s) \<Longrightarrow>
    pstep y (y\<lparr>y_pending := s, y_applier := Collected b\<rparr>)"
| exit: "y_applier y = Waiting \<Longrightarrow> p_stopped (y_pending y) \<Longrightarrow> pstep y (y\<lparr>y_applier := Exited\<rparr>)"
| apply_graph: "y_applier y = Collected b \<Longrightarrow>
    pstep y (y\<lparr>y_graph := write_batch b (y_graph y), y_applier := Applied\<rparr>)"
| finish: "y_applier y = Applied \<Longrightarrow>
    pstep y (y\<lparr>y_pending := finish_batch (y_pending y), y_applier := Waiting\<rparr>)"
| stop_all: "pstep y (y\<lparr>y_pending := stop (y_pending y)\<rparr>)"

definition y_init :: "('i \<rightharpoonup> 'e) \<Rightarrow> ('i, 'e) system" where
  "y_init g = \<lparr>y_pending = pending_new, y_graph = g, y_applier = Waiting, y_wanted = g\<rparr>"

inductive_cases pstepE: "pstep y y'"

definition reachable :: "('i \<rightharpoonup> 'e) \<Rightarrow> ('i, 'e) system \<Rightarrow> bool" where
  "reachable g y \<longleftrightarrow> pstep\<^sup>*\<^sup>* (y_init g) y"

text \<open>What a search finds of an id: the overlay over the graph.\<close>

definition seen :: "('i, 'e) system \<Rightarrow> 'i \<Rightarrow> 'e option" where
  "seen y i = (case map_of (overlay_ops (y_pending y)) i of Some x \<Rightarrow> x | None \<Rightarrow> y_graph y i)"

section \<open>The invariant\<close>

lemma map_of_filter_key: "map_of (filter (\<lambda>(i, x). P i) xs) i = (if P i then map_of xs i else None)"
  by (induction xs) auto

lemma map_of_overlay:
  "map_of (overlay_ops s) i = (case map_of (p_latest s) i of Some x \<Rightarrow> Some x | None \<Rightarrow> map_of (p_inflight s) i)"
  by (auto simp: overlay_ops_def map_add_def map_of_filter_key split: option.splits)

definition pinv :: "('i, 'e) system \<Rightarrow> bool" where
  "pinv y \<longleftrightarrow>
     (let s = y_pending y in
      distinct (map fst (p_latest s)) \<and> distinct (map fst (p_inflight s)) \<and>
      fst ` set (p_latest s) \<subseteq> set (p_queue s) \<and>
      (\<forall>i. seen y i = y_wanted y i) \<and>
      (case y_applier y of
         Waiting \<Rightarrow> p_inflight s = [] \<and> \<not> p_applying s
       | Collected b \<Rightarrow> p_applying s \<and> distinct (map fst b) \<and> map_of b = map_of (p_inflight s)
       | Applied \<Rightarrow> p_applying s \<and> (\<forall>(i, x) \<in> set (p_inflight s). y_graph y i = x)
       | Exited \<Rightarrow> p_inflight s = [] \<and> \<not> p_applying s))"

definition pick :: "('i, 'e) ops \<Rightarrow> ('i, 'e) ops \<Rightarrow> 'i \<Rightarrow> 'e option option" where
  "pick l f i = (case map_of l i of Some x \<Rightarrow> Some x | None \<Rightarrow> map_of f i)"

lemma pick_move: "map_of l i = Some x \<Longrightarrow> pick (AList.delete i l) (AList.update i x f) = pick l f"
  by (auto simp: pick_def fun_eq_iff delete_conv' update_conv' split: option.splits)

lemma collect_loop_pick:
  "collect_loop q l f b = (q', l', f', b') \<Longrightarrow> pick l' f' = pick l f"
  by (induction q l f b rule: collect_loop.induct) (auto simp: pick_move split: if_splits option.splits)

lemma delete_fst_set: "fst ` set (AList.delete i l) = fst ` set l - {i}"
  using arg_cong [OF delete_keys [of i l], of set] by simp

lemma collect_loop_keys:
  "collect_loop q l f b = (q', l', f', b') \<Longrightarrow> fst ` set l \<subseteq> set q \<Longrightarrow> fst ` set l' \<subseteq> set q'"
proof (induction q l f b rule: collect_loop.induct)
  case (2 i q l f b)
  show ?case
  proof (cases "apply_batch \<le> length b")
    case False
    show ?thesis
    proof (cases "map_of l i")
      case None
      then have "fst ` set l \<subseteq> set q" using 2(4) by (auto simp: map_of_eq_None_iff)
      with 2(1) [OF False None] 2(3) False None show ?thesis by simp
    next
      case (Some x)
      then have "fst ` set (AList.delete i l) \<subseteq> set q" using 2(4) by (auto simp: delete_fst_set)
      with 2(2) [OF False Some] 2(3) False Some show ?thesis by simp
    qed
  qed (use 2 in auto)
qed auto

lemma collect_loop_batch:
  "collect_loop q l f b = (q', l', f', b') \<Longrightarrow> distinct (map fst l) \<Longrightarrow> distinct (map fst b) \<Longrightarrow>
   map_of b = map_of f \<Longrightarrow> distinct (map fst f) \<Longrightarrow> fst ` set l \<inter> fst ` set b = {} \<Longrightarrow>
   distinct (map fst l') \<and> distinct (map fst b') \<and> map_of b' = map_of f' \<and> distinct (map fst f')"
proof (induction q l f b rule: collect_loop.induct)
  case (2 i q l f b)
  show ?case
  proof (cases "apply_batch \<le> length b \<or> map_of l i = None")
    case True
    with 2 show ?thesis by (cases "apply_batch \<le> length b") auto
  next
    case False
    then obtain x where n: "\<not> apply_batch \<le> length b" and x: "map_of l i = Some x" by auto
    have "i \<in> fst ` set l" using x by (metis domI dom_map_of_conv_image_fst)
    then have ib: "i \<notin> fst ` set b" using 2(8) by blast
    then have "map_of (b @ [(i, x)]) = map_of (AList.update i x f)"
      using 2(6) by (simp add: update_conv' map_of_append fun_eq_iff map_add_def map_of_eq_None_iff [symmetric]
          split: option.split)
    moreover have "distinct (map fst (b @ [(i, x)]))" using 2(5) ib by simp
    moreover have "fst ` set (AList.delete i l) \<inter> fst ` set (b @ [(i, x)]) = {}"
      using 2(8) by (auto simp: delete_fst_set)
    moreover have "distinct (map fst (AList.delete i l))" "distinct (map fst (AList.update i x f))"
      using 2(4,7) by (simp_all add: distinct_delete distinct_update)
    ultimately show ?thesis using 2(2) [OF n x] 2(3) n x by simp
  qed
qed auto

lemma collect_loop_length:
  "collect_loop q l f b = (q', l', f', b') \<Longrightarrow>
   length q' \<le> length q \<and> (q \<noteq> [] \<and> length b < apply_batch \<longrightarrow> length q' < length q)"
  by (induction q l f b rule: collect_loop.induct)
    (auto simp: apply_batch_def split: if_splits option.splits intro: le_SucI)

definition resolve :: "'e option option \<Rightarrow> 'e option \<Rightarrow> 'e option" where
  "resolve x d = (case x of Some v \<Rightarrow> v | None \<Rightarrow> d)"

lemma resolve_simps [simp]: "resolve None d = d" "resolve (Some v) d = v"
  by (simp_all add: resolve_def)

lemma seen_alt:
  "seen y i = resolve (pick (p_latest (y_pending y)) (p_inflight (y_pending y)) i) (y_graph y i)"
  by (simp add: seen_def map_of_overlay pick_def resolve_def)

lemma pick_update: "pick (AList.update i x l) f j = (if j = i then Some x else pick l f j)"
  by (simp add: pick_def update_conv')

lemma write_batch_get:
  "distinct (map fst b) \<Longrightarrow> write_batch b g i = resolve (map_of b i) (g i)"
proof (induction b arbitrary: g)
  case (Cons a b)
  have "write_batch (a # b) g i = resolve (map_of b i) ((g(fst a := snd a)) i)"
    using Cons by (simp add: write_batch_def write_op_def)
  moreover have "map_of b (fst a) = None" using Cons.prems by (simp add: map_of_eq_None_iff)
  ultimately show ?case by (cases a) (cases "map_of b i", auto)
qed (simp add: write_batch_def)

lemma pinv_init: "pinv (y_init g)"
  by (simp add: pinv_def y_init_def pending_new_def seen_alt pick_def)

lemma pinv_push:
  assumes "pinv y"
  shows "pinv (y\<lparr>y_pending := push_op i x (y_pending y), y_wanted := (y_wanted y)(i := x)\<rparr>)"
proof -
  let ?s = "y_pending y" and ?y = "y\<lparr>y_pending := push_op i x (y_pending y), y_wanted := (y_wanted y)(i := x)\<rparr>"
  have "seen ?y j = y_wanted ?y j" for j
    using assms by (simp add: pinv_def Let_def seen_alt push_op_def pick_update)
  moreover have "fst ` set (AList.update i x (p_latest ?s)) \<subseteq> set (p_queue ?s @ [i])"
    using assms by (auto simp: pinv_def Let_def dom_update)
  moreover have "distinct (map fst (AList.update i x (p_latest ?s)))"
    using assms by (simp add: pinv_def Let_def distinct_update)
  ultimately show ?thesis using assms by (cases "y_applier y") (simp_all add: pinv_def Let_def push_op_def)
qed

lemma pinv_collect:
  assumes "pinv y" "y_applier y = Waiting" "collect_batch (y_pending y) = Some (b, s)"
  shows "pinv (y\<lparr>y_pending := s, y_applier := Collected b\<rparr>)"
proof -
  obtain q l f where c: "collect_loop (p_queue (y_pending y)) (p_latest (y_pending y)) (p_inflight (y_pending y)) [] = (q, l, f, b)"
    and s: "s = (y_pending y)\<lparr>p_queue := q, p_latest := l, p_inflight := f, p_applying := True\<rparr>"
    using assms(3) by (auto simp: collect_batch_def split: if_splits prod.splits)
  have f: "p_inflight (y_pending y) = []" using assms by (simp add: pinv_def Let_def)
  have "distinct (map fst l) \<and> distinct (map fst b) \<and> map_of b = map_of f \<and> distinct (map fst f)"
    by (rule collect_loop_batch [OF c]) (use assms(1) in \<open>simp_all add: f pinv_def Let_def\<close>)
  moreover have "fst ` set l \<subseteq> set q"
    by (rule collect_loop_keys [OF c]) (use assms(1) in \<open>simp add: pinv_def Let_def\<close>)
  moreover have "seen (y\<lparr>y_pending := s, y_applier := Collected b\<rparr>) i = y_wanted y i" for i
    using assms(1) collect_loop_pick [OF c] by (simp add: pinv_def Let_def seen_alt s)
  ultimately show ?thesis by (simp add: pinv_def Let_def s)
qed

lemma pinv_apply:
  assumes "pinv y" "y_applier y = Collected b"
  shows "pinv (y\<lparr>y_graph := write_batch b (y_graph y), y_applier := Applied\<rparr>)"
proof -
  let ?s = "y_pending y"
  have b: "distinct (map fst b)" "map_of b = map_of (p_inflight ?s)" "distinct (map fst (p_inflight ?s))"
    using assms by (simp_all add: pinv_def Let_def)
  have w: "write_batch b (y_graph y) i = resolve (map_of (p_inflight ?s) i) (y_graph y i)" for i
    using write_batch_get [OF b(1)] by (simp add: b(2))
  have "seen (y\<lparr>y_graph := write_batch b (y_graph y), y_applier := Applied\<rparr>) i = seen y i" for i
    by (cases "map_of (p_latest ?s) i"; cases "map_of (p_inflight ?s) i") (simp_all add: seen_alt pick_def w)
  moreover have "\<forall>(i, x) \<in> set (p_inflight ?s). write_batch b (y_graph y) i = x"
    using b(3) by (auto simp: w)
  ultimately show ?thesis using assms by (simp add: pinv_def Let_def)
qed

lemma pinv_finish:
  assumes "pinv y" "y_applier y = Applied"
  shows "pinv (y\<lparr>y_pending := finish_batch (y_pending y), y_applier := Waiting\<rparr>)"
proof -
  have "\<forall>(i, x) \<in> set (p_inflight (y_pending y)). y_graph y i = x" using assms by (simp add: pinv_def Let_def)
  then have "seen (y\<lparr>y_pending := finish_batch (y_pending y), y_applier := Waiting\<rparr>) i = seen y i" for i
    by (cases "map_of (p_latest (y_pending y)) i"; cases "map_of (p_inflight (y_pending y)) i")
      (auto simp: seen_alt pick_def finish_batch_def dest!: map_of_SomeD)
  then show ?thesis using assms by (simp add: pinv_def Let_def finish_batch_def)
qed

lemma pinv_step: "pstep y y' \<Longrightarrow> pinv y \<Longrightarrow> pinv y'"
proof (induction rule: pstep.induct)
  case (upsert i e y s)
  then have "s = push_op i (Some e) (y_pending y)" by (simp add: push_upsert_def split: if_splits)
  with pinv_push [OF upsert(2), of i "Some e"] show ?case by simp
next
  case (remove y i)
  from pinv_push [OF this, of i None] show ?case by (simp add: push_remove_def)
next
  case (exit y)
  have "seen (y\<lparr>y_applier := Exited\<rparr>) i = seen y i" for i by (simp add: seen_alt)
  with exit show ?case by (simp add: pinv_def Let_def)
next
  case (stop_all y)
  have "seen (y\<lparr>y_pending := stop (y_pending y)\<rparr>) i = seen y i" for i by (simp add: seen_alt stop_def)
  with stop_all show ?case by (cases "y_applier y") (simp_all add: pinv_def Let_def stop_def)
qed (simp_all add: pinv_collect pinv_apply pinv_finish)

lemma pinv_reachable: "reachable g y \<Longrightarrow> pinv y"
  unfolding reachable_def
  by (induction rule: rtranclp_induct) (auto intro: pinv_init pinv_step)

lemma distinct_overlay:
  assumes "distinct (map fst (p_latest s))" "distinct (map fst (p_inflight s))"
  shows "distinct (map fst (overlay_ops s))"
proof -
  have "fst ` set (filter (\<lambda>(i, x). map_of (p_latest s) i = None) (p_inflight s)) \<inter> fst ` set (p_latest s) = {}"
    by (force simp: map_of_eq_None_iff)
  then show ?thesis using assms by (simp add: overlay_ops_def distinct_map_filter Int_commute)
qed

text \<open>C3: read your writes.  Whatever the writers and the applier have done, also between
  collecting a batch and finishing it and after a stop, a search sees for every id what the last
  operation pushed for it left, the overlay names no id twice, and when the applier has drained
  the queue the overlay is empty and the graph alone is what was pushed.\<close>

theorem read_your_writes:
  assumes "reachable g y"
  shows "seen y i = y_wanted y i \<and> distinct (map fst (overlay_ops (y_pending y))) \<and>
    (quiescent (y_pending y) \<longrightarrow> overlay score (y_pending y) = ([], []) \<and> y_graph y = y_wanted y)"
proof -
  have inv: "pinv y" using assms by (rule pinv_reachable)
  then have "\<forall>i. seen y i = y_wanted y i" by (simp add: pinv_def Let_def)
  moreover have "distinct (map fst (overlay_ops (y_pending y)))"
    by (rule distinct_overlay) (use inv in \<open>simp_all add: pinv_def Let_def\<close>)
  moreover have "overlay_ops (y_pending y) = []" if "quiescent (y_pending y)"
    using inv that by (simp add: pinv_def Let_def quiescent_def overlay_ops_def)
  ultimately show ?thesis
    by (cases "quiescent (y_pending y)") (simp_all add: overlay_def seen_def fun_eq_iff List.map_filter_simps)
qed


theorem read_your_writes_witness:
  "seen ((y_init Map.empty)\<lparr>y_pending := push_op ''a'' (Some 1) pending_new, y_wanted := Map.empty(''a'' \<mapsto> 1)\<rparr>) ''a'' = Some (1 :: nat)"
proof -
  have "pstep (y_init Map.empty) ((y_init Map.empty)\<lparr>y_pending := push_op ''a'' (Some 1) pending_new, y_wanted := (y_wanted (y_init Map.empty))(''a'' \<mapsto> 1 :: nat)\<rparr>)"
    by (rule pstep.upsert) (simp add: push_upsert_def y_init_def pending_new_def pending_cap_def)
  then have "reachable Map.empty ((y_init Map.empty)\<lparr>y_pending := push_op ''a'' (Some 1) pending_new, y_wanted := (y_wanted (y_init Map.empty))(''a'' \<mapsto> 1 :: nat)\<rparr>)"
    by (simp add: reachable_def)
  from read_your_writes [OF this, of "''a''" "\<lambda>_. ()"] show ?thesis by (simp add: y_init_def)
qed

section \<open>The applier drains the queue\<close>

text \<open>One turn of the applier's loop with no writer in between.\<close>

definition applier_turn :: "('i, 'e) system \<Rightarrow> ('i, 'e) system" where
  "applier_turn y =
     (case y_applier y of
        Waiting \<Rightarrow>
          (if p_queue (y_pending y) = [] then y
           else (case collect_batch (y_pending y) of
                   None \<Rightarrow> y\<lparr>y_applier := Exited\<rparr>
                 | Some (b, s) \<Rightarrow> y\<lparr>y_pending := s, y_applier := Collected b\<rparr>))
      | Collected b \<Rightarrow> y\<lparr>y_graph := write_batch b (y_graph y), y_applier := Applied\<rparr>
      | Applied \<Rightarrow> y\<lparr>y_pending := finish_batch (y_pending y), y_applier := Waiting\<rparr>
      | Exited \<Rightarrow> y)"

definition work_left :: "('i, 'e) system \<Rightarrow> nat" where
  "work_left y = 3 * length (p_queue (y_pending y)) +
     (case y_applier y of Collected _ \<Rightarrow> 2 | Applied \<Rightarrow> 1 | _ \<Rightarrow> 0)"

lemma applier_turn_step:
  assumes "\<not> p_stopped (y_pending y)" "y_applier y \<noteq> Exited" "work_left y \<noteq> 0"
  shows "pstep y (applier_turn y) \<and> work_left (applier_turn y) < work_left y \<and>
    \<not> p_stopped (y_pending (applier_turn y)) \<and> y_applier (applier_turn y) \<noteq> Exited \<and>
    y_wanted (applier_turn y) = y_wanted y"
proof (cases "y_applier y")
  case Waiting
  then have q: "p_queue (y_pending y) \<noteq> []" using assms(3) by (simp add: work_left_def)
  obtain q' l f b where l: "collect_loop (p_queue (y_pending y)) (p_latest (y_pending y)) (p_inflight (y_pending y)) [] = (q', l, f, b)"
    by (metis prod_cases4)
  define s where "s = (y_pending y)\<lparr>p_queue := q', p_latest := l, p_inflight := f, p_applying := True\<rparr>"
  have c: "collect_batch (y_pending y) = Some (b, s)" using assms(1) l by (simp add: collect_batch_def s_def)
  from collect_loop_length [OF l] q have "length q' < length (p_queue (y_pending y))"
    by (simp add: apply_batch_def)
  with Waiting q c assms(1) pstep.collect [OF Waiting q c] show ?thesis
    by (simp add: applier_turn_def work_left_def s_def)
next
  case (Collected b)
  with assms(1) pstep.apply_graph [OF Collected] show ?thesis by (simp add: applier_turn_def work_left_def)
next
  case Applied
  with assms(1) pstep.finish [OF Applied] show ?thesis
    by (simp add: applier_turn_def work_left_def finish_batch_def)
qed (use assms in simp)

text \<open>C30: the applier makes progress.  From every state it can be in before a shutdown, each of
  its turns is a step and at most \<open>work_left\<close> of them, three per queued id and two for a batch
  in hand, drain the queue: then nothing is in flight and the graph is what was pushed.\<close>

theorem applier_drains:
  assumes "reachable g y" "\<not> p_stopped (y_pending y)" "y_applier y \<noteq> Exited"
  shows "\<exists>n \<le> work_left y. reachable g ((applier_turn ^^ n) y) \<and> quiescent (y_pending ((applier_turn ^^ n) y)) \<and>
    y_graph ((applier_turn ^^ n) y) = y_wanted y"
  using assms
proof (induction "work_left y" arbitrary: y rule: less_induct)
  case less
  show ?case
  proof (cases "work_left y = 0")
    case True
    then have "y_applier y = Waiting" "p_queue (y_pending y) = []"
      using less.prems(3) by (auto simp: work_left_def split: applier.splits)
    moreover have inv: "pinv y" using less.prems(1) by (rule pinv_reachable)
    ultimately have "quiescent (y_pending y)" "p_latest (y_pending y) = []" "p_inflight (y_pending y) = []"
      by (simp_all add: pinv_def Let_def quiescent_def)
    moreover from this have "y_graph y = y_wanted y"
      using inv by (auto simp: pinv_def Let_def seen_alt pick_def fun_eq_iff)
    ultimately show ?thesis using less.prems(1) by (intro exI [of _ 0]) simp
  next
    case False
    note t = applier_turn_step [OF less.prems(2,3) False]
    have "reachable g (applier_turn y)" using less.prems(1) t by (auto simp: reachable_def)
    with less.hyps [of "applier_turn y"] t obtain n where n: "n \<le> work_left (applier_turn y)"
      "reachable g ((applier_turn ^^ n) (applier_turn y))"
      "quiescent (y_pending ((applier_turn ^^ n) (applier_turn y)))"
      "y_graph ((applier_turn ^^ n) (applier_turn y)) = y_wanted y" by auto
    have "(applier_turn ^^ Suc n) y = (applier_turn ^^ n) (applier_turn y)" by (simp only: funpow_Suc_right o_apply)
    moreover have "Suc n \<le> work_left y" using n(1) t by linarith
    ultimately show ?thesis using n(2-4) by (intro exI [of _ "Suc n"]) (simp only: simp_thms)
  qed
qed

theorem applier_drains_witness:
  "\<exists>n \<le> 3. y_graph ((applier_turn ^^ n)
      ((y_init Map.empty)\<lparr>y_pending := push_op ''a'' (Some 1) pending_new, y_wanted := Map.empty(''a'' \<mapsto> 1)\<rparr>)) =
    Map.empty(''a'' \<mapsto> 1 :: nat)"
proof -
  let ?y = "(y_init Map.empty)\<lparr>y_pending := push_op ''a'' (Some 1) pending_new, y_wanted := Map.empty(''a'' \<mapsto> 1 :: nat)\<rparr>"
  have "pstep (y_init Map.empty) ((y_init Map.empty)\<lparr>y_pending := push_op ''a'' (Some 1) pending_new, y_wanted := (y_wanted (y_init Map.empty))(''a'' \<mapsto> 1 :: nat)\<rparr>)"
    by (rule pstep.upsert) (simp add: push_upsert_def y_init_def pending_new_def pending_cap_def)
  then have "reachable Map.empty ?y" by (simp add: reachable_def y_init_def)
  from applier_drains [OF this] show ?thesis
    by (simp add: work_left_def y_init_def push_op_def pending_new_def) blast
qed

end
