(* ===== verification/Sha.thy ===== *)
theory Sha
  imports Bytes
begin

text \<open>
  The hand-written SHA-256, HMAC and base64url of \<open>crates/rro-engine/src/auth.rs\<close>, on 32-bit
  words; a byte is a character as everywhere in the development.
\<close>

unbundle bit_operations_syntax

section \<open>base64url\<close>

function chunks :: "nat \<Rightarrow> 'a list \<Rightarrow> 'a list list" where
  "chunks n xs = (if n = 0 \<or> xs = [] then [] else take n xs # chunks n (drop n xs))"
  by pat_completeness auto
termination
  by (relation "measure (\<lambda>(n, xs). length xs)") auto

declare chunks.simps [simp del]

definition u32_of :: "byte \<Rightarrow> 32 word" where
  "u32_of c = word_of_nat (byte_val c)"

definition as_u8 :: "32 word \<Rightarrow> byte" where
  "as_u8 w = char_of (unat w)"

definition B64URL :: bytes where
  "B64URL = ''ABCDEFGHIJKLMNOPQRSTUVWXYZabcdefghijklmnopqrstuvwxyz0123456789-_''"

definition b64_char :: "32 word \<Rightarrow> byte" where
  "b64_char w = B64URL ! unat (w AND 63)"

definition encode_chunk :: "bytes \<Rightarrow> bytes" where
  "encode_chunk chunk =
     (let b0 = u32_of (chunk ! 0);
          b1 = (if 1 < length chunk then u32_of (chunk ! 1) else 0);
          b2 = (if 2 < length chunk then u32_of (chunk ! 2) else 0);
          n = push_bit 16 b0 OR push_bit 8 b1 OR b2 in
      [b64_char (drop_bit 18 n), b64_char (drop_bit 12 n)] @
      (if 1 < length chunk then [b64_char (drop_bit 6 n)] else []) @
      (if 2 < length chunk then [b64_char n] else []))"

definition b64url_encode :: "bytes \<Rightarrow> bytes" where
  "b64url_encode input = concat (map encode_chunk (chunks 3 input))"

definition b64_val :: "byte \<Rightarrow> 32 word option" where
  "b64_val c =
     (if is_ascii_uppercase c then Some (u32_of c - 65)
      else if is_ascii_lowercase c then Some (u32_of c - 97 + 26)
      else if is_ascii_digit c then Some (u32_of c - 48 + 52)
      else if c = CHR ''-'' then Some 62
      else if c = CHR ''_'' then Some 63
      else None)"

fun b64_bits :: "bytes \<Rightarrow> 32 word \<Rightarrow> 32 word option" where
  "b64_bits [] n = Some n"
| "b64_bits (c # r) n = (case b64_val c of None \<Rightarrow> None | Some v \<Rightarrow> b64_bits r (push_bit 6 n OR v))"

definition decode_chunk :: "bytes \<Rightarrow> bytes option" where
  "decode_chunk chunk =
     (if length chunk < 2 then None
      else (case b64_bits chunk 0 of
              None \<Rightarrow> None
            | Some m \<Rightarrow>
                (let n = push_bit (6 * (4 - length chunk)) m in
                 Some ([as_u8 (drop_bit 16 n)] @
                       (if 3 \<le> length chunk then [as_u8 (drop_bit 8 n)] else []) @
                       (if 4 \<le> length chunk then [as_u8 n] else [])))))"

fun decode_chunks :: "bytes list \<Rightarrow> bytes option" where
  "decode_chunks [] = Some []"
| "decode_chunks (c # cs) =
     (case decode_chunk c of None \<Rightarrow> None | Some b \<Rightarrow> map_option ((@) b) (decode_chunks cs))"

definition b64url_decode :: "bytes \<Rightarrow> bytes option" where
  "b64url_decode input = decode_chunks (chunks 4 input)"

section \<open>SHA-256\<close>

definition SHA256_K :: "32 word list" where
  "SHA256_K =
    [0x428a2f98, 0x71374491, 0xb5c0fbcf, 0xe9b5dba5, 0x3956c25b, 0x59f111f1, 0x923f82a4, 0xab1c5ed5] @
    [0xd807aa98, 0x12835b01, 0x243185be, 0x550c7dc3, 0x72be5d74, 0x80deb1fe, 0x9bdc06a7, 0xc19bf174] @
    [0xe49b69c1, 0xefbe4786, 0x0fc19dc6, 0x240ca1cc, 0x2de92c6f, 0x4a7484aa, 0x5cb0a9dc, 0x76f988da] @
    [0x983e5152, 0xa831c66d, 0xb00327c8, 0xbf597fc7, 0xc6e00bf3, 0xd5a79147, 0x06ca6351, 0x14292967] @
    [0x27b70a85, 0x2e1b2138, 0x4d2c6dfc, 0x53380d13, 0x650a7354, 0x766a0abb, 0x81c2c92e, 0x92722c85] @
    [0xa2bfe8a1, 0xa81a664b, 0xc24b8b70, 0xc76c51a3, 0xd192e819, 0xd6990624, 0xf40e3585, 0x106aa070] @
    [0x19a4c116, 0x1e376c08, 0x2748774c, 0x34b0bcb5, 0x391c0cb3, 0x4ed8aa4a, 0x5b9cca4f, 0x682e6ff3] @
    [0x748f82ee, 0x78a5636f, 0x84c87814, 0x8cc70208, 0x90befffa, 0xa4506ceb, 0xbef9a3f7, 0xc67178f2]"

type_synonym hash_state = "32 word list"

definition SHA256_H0 :: hash_state where
  "SHA256_H0 = [0x6a09e667, 0xbb67ae85, 0x3c6ef372, 0xa54ff53a, 0x510e527f, 0x9b05688c, 0x1f83d9ab, 0x5be0cd19]"

text \<open>\<open>while data.len() % 64 != 56 { data.push(0) }\<close>.\<close>

function pad_zeros :: "bytes \<Rightarrow> bytes" where
  "pad_zeros data = (if length data mod 64 \<noteq> 56 then pad_zeros (data @ [CHR 0x00]) else data)"
  by pat_completeness auto

definition pad_need :: "nat \<Rightarrow> nat" where
  "pad_need l = (if l mod 64 \<le> 56 then 56 - l mod 64 else 120 - l mod 64)"

lemma pad_need_Suc: "l mod 64 \<noteq> 56 \<Longrightarrow> pad_need (Suc l) < pad_need l"
proof -
  assume a: "l mod 64 \<noteq> 56"
  have "l mod 64 < 64" by simp
  with a show ?thesis by (auto simp: pad_need_def mod_Suc)
qed

termination pad_zeros
  by (relation "measure (\<lambda>d. pad_need (length d))") (auto simp: pad_need_Suc)

declare pad_zeros.simps [simp del]

definition pad_message :: "bytes \<Rightarrow> bytes" where
  "pad_message msg =
     (let bit_len = (word_of_nat (length msg) :: 64 word) * 8 in
      pad_zeros (msg @ [CHR 0x80]) @ be_bytes 8 (unat bit_len))"

definition u32_from_be :: "bytes \<Rightarrow> 32 word" where
  "u32_from_be b = word_of_nat (of_be b)"

definition sched_word :: "32 word list \<Rightarrow> nat \<Rightarrow> 32 word" where
  "sched_word w i =
     (let x = w ! (i - 15); y = w ! (i - 2);
          s0 = word_rotr 7 x XOR word_rotr 18 x XOR drop_bit 3 x;
          s1 = word_rotr 17 y XOR word_rotr 19 y XOR drop_bit 10 y in
      w ! (i - 16) + s0 + w ! (i - 7) + s1)"

definition schedule :: "bytes \<Rightarrow> 32 word list" where
  "schedule block =
     foldl (\<lambda>w i. w @ [sched_word w i]) (map u32_from_be (chunks 4 (take 64 block))) [16..<64]"

definition sha_round :: "32 word list \<Rightarrow> nat \<Rightarrow> hash_state \<Rightarrow> hash_state" where
  "sha_round w i s =
     (let a = s ! 0; b = s ! 1; c = s ! 2; d = s ! 3; e = s ! 4; f = s ! 5; g = s ! 6; hh = s ! 7;
          s1 = word_rotr 6 e XOR word_rotr 11 e XOR word_rotr 25 e;
          ch = (e AND f) XOR (NOT e AND g);
          t1 = hh + s1 + ch + SHA256_K ! i + w ! i;
          s0 = word_rotr 2 a XOR word_rotr 13 a XOR word_rotr 22 a;
          maj = (a AND b) XOR (a AND c) XOR (b AND c);
          t2 = s0 + maj in
      [t1 + t2, a, b, c, d + t1, e, f, g])"

definition compress :: "hash_state \<Rightarrow> bytes \<Rightarrow> hash_state" where
  "compress h block =
     map2 (+) h (foldl (\<lambda>s i. sha_round (schedule block) i s) h [0..<64])"

definition sha256 :: "bytes \<Rightarrow> bytes" where
  "sha256 msg =
     concat (map (\<lambda>x. be_bytes 4 (unat x)) (foldl compress SHA256_H0 (chunks 64 (pad_message msg))))"

text \<open>HMAC: \<open>k.resize(64, 0)\<close> pads, and a longer key is hashed first.\<close>

definition xor_byte :: "byte \<Rightarrow> byte \<Rightarrow> byte" where
  "xor_byte c d = char_of (byte_val c XOR byte_val d)"

definition hmac_sha256 :: "bytes \<Rightarrow> bytes \<Rightarrow> bytes" where
  "hmac_sha256 key msg =
     (let k0 = (if 64 < length key then sha256 key else key);
          k = take 64 k0 @ replicate (64 - length k0) (CHR 0x00);
          ipad = map (xor_byte (CHR 0x36)) k;
          opad = map (xor_byte (CHR 0x5C)) k in
      sha256 (opad @ sha256 (ipad @ msg)))"

definition constant_time_eq :: "bytes \<Rightarrow> bytes \<Rightarrow> bool" where
  "constant_time_eq a b =
     (if length a \<noteq> length b then False
      else foldl (\<lambda>diff (x, y). diff OR (byte_val x XOR byte_val y)) 0 (zip a b) = 0)"

section \<open>base64url round trip\<close>

lemma mask6: "63 = (mask 6 :: 32 word)"
  by (simp add: mask_eq_exp_minus_1)

lemmas sextet_bits = mask6 bit_simps less_diff_conv2

text \<open>The sextets of a word, put together again.\<close>

lemma join4: "push_bit 6 (push_bit 6 (push_bit 6 (drop_bit 18 m AND 63) OR (drop_bit 12 m AND 63)) OR (drop_bit 6 m AND 63)) OR (m AND 63) = take_bit 24 m"
  for m :: "32 word"
proof (rule bit_word_eqI)
  fix n :: nat
  consider "n < 6" | "6 \<le> n" "n < 12" | "12 \<le> n" "n < 18" | "18 \<le> n" "n < 24" | "24 \<le> n" by linarith
  then show "bit (push_bit 6 (push_bit 6 (push_bit 6 (drop_bit 18 m AND 63) OR (drop_bit 12 m AND 63)) OR (drop_bit 6 m AND 63)) OR (m AND 63)) n \<longleftrightarrow> bit (take_bit 24 m) n"
    unfolding mask6 by cases (auto simp add: bit_simps less_diff_conv2)
qed

lemma join3: "push_bit 6 (push_bit 6 (push_bit 6 (drop_bit 18 m AND 63) OR (drop_bit 12 m AND 63)) OR (drop_bit 6 m AND 63)) = push_bit 6 (drop_bit 6 (take_bit 24 m))"
  for m :: "32 word"
proof (rule bit_word_eqI)
  fix n :: nat
  consider "n < 6" | "6 \<le> n" "n < 12" | "12 \<le> n" "n < 18" | "18 \<le> n" "n < 24" | "24 \<le> n" by linarith
  then show "bit (push_bit 6 (push_bit 6 (push_bit 6 (drop_bit 18 m AND 63) OR (drop_bit 12 m AND 63)) OR (drop_bit 6 m AND 63))) n \<longleftrightarrow> bit (push_bit 6 (drop_bit 6 (take_bit 24 m))) n"
    unfolding mask6 by cases (auto simp add: bit_simps less_diff_conv2)
qed

lemma join2: "push_bit 12 (push_bit 6 (drop_bit 18 m AND 63) OR (drop_bit 12 m AND 63)) = push_bit 12 (drop_bit 12 (take_bit 24 m))"
  for m :: "32 word"
proof (rule bit_word_eqI)
  fix n :: nat
  consider "n < 12" | "12 \<le> n" "n < 18" | "18 \<le> n" "n < 24" | "24 \<le> n" by linarith
  then show "bit (push_bit 12 (push_bit 6 (drop_bit 18 m AND 63) OR (drop_bit 12 m AND 63))) n \<longleftrightarrow> bit (push_bit 12 (drop_bit 12 (take_bit 24 m))) n"
    unfolding mask6 by cases (auto simp add: bit_simps less_diff_conv2)
qed

lemma as_u8_cong: "take_bit 8 v = take_bit 8 w \<Longrightarrow> as_u8 v = as_u8 w"
proof -
  assume "take_bit 8 v = take_bit 8 w"
  then have "take_bit 8 (unat v) = take_bit 8 (unat w)" by (simp only: unsigned_take_bit_eq [symmetric])
  then have "unat v mod 256 = unat w mod 256" by (simp add: take_bit_eq_mod)
  then show ?thesis unfolding as_u8_def by (metis char_of_mod_256)
qed

lemma byte_val_32: "byte_val c < 2 ^ 32"
  by (rule less_le_trans [OF byte_val_bound]) simp

lemma unat_u32_of: "unat (u32_of c) = byte_val c"
  using byte_val_32 [of c] by (simp add: u32_of_def unsigned_of_nat take_bit_nat_eq_self)

lemma as_u8_of [simp]: "as_u8 (u32_of c) = c"
  by (simp add: as_u8_def unat_u32_of)

lemma bit_u32_of: "bit (u32_of c) n \<Longrightarrow> n < 8"
proof -
  assume "bit (u32_of c) n"
  then have "bit (unat (u32_of c)) n" by (simp only: bit_unsigned_iff) simp
  then have "bit (byte_val c) n" by (simp only: unat_u32_of)
  moreover have "byte_val c = take_bit 8 (byte_val c)" by (simp add: take_bit_eq_mod)
  ultimately show ?thesis by (metis bit_take_bit_iff)
qed

lemma code_char: "i < 64 \<Longrightarrow> b64_val (B64URL ! i) = Some (word_of_nat i)"
proof -
  have "list_all (\<lambda>i. b64_val (B64URL ! i) = Some (word_of_nat i)) [0..<64]" by code_simp
  then show "i < 64 \<Longrightarrow> ?thesis" by (simp add: list_all_iff)
qed

lemma unat_sextet: "unat (w AND 63 :: 32 word) < 64"
proof -
  have "unat (take_bit 6 w) = take_bit 6 (unat w)" by (simp only: unsigned_take_bit_eq)
  then show ?thesis unfolding mask6 take_bit_eq_mask [symmetric] by (simp add: take_bit_eq_mod)
qed

lemma b64_val_char [simp]: "b64_val (b64_char w) = Some (w AND 63)"
  by (simp add: b64_char_def code_char [OF unat_sextet])

text \<open>The three bytes of a group, read from its word.\<close>

definition group_word :: "32 word \<Rightarrow> 32 word \<Rightarrow> 32 word \<Rightarrow> 32 word" where
  "group_word b0 b1 b2 = push_bit 16 b0 OR push_bit 8 b1 OR b2"

definition is_octet :: "32 word \<Rightarrow> bool" where
  "is_octet w \<longleftrightarrow> (\<forall>n. 8 \<le> n \<longrightarrow> \<not> bit w n)"

lemma is_octet_of [simp]: "is_octet (u32_of c)" and is_octet_0 [simp]: "is_octet 0"
  using bit_u32_of [of c] by (auto simp: is_octet_def not_le [symmetric])

lemma group_bytes:
  assumes "is_octet b0" "is_octet b1" "is_octet b2"
  shows "take_bit 8 (drop_bit 16 (group_word b0 b1 b2)) = take_bit 8 b0"
    "take_bit 8 (drop_bit 8 (group_word b0 b1 b2)) = take_bit 8 b1"
    "take_bit 8 (group_word b0 b1 b2) = take_bit 8 b2"
  unfolding group_word_def using assms
  by (auto intro!: bit_word_eqI simp: bit_simps is_octet_def)

lemma take8_of_24:
  fixes m :: "32 word"
  shows "take_bit 8 (drop_bit 16 (take_bit 24 m)) = take_bit 8 (drop_bit 16 m)"
    "take_bit 8 (drop_bit 8 (take_bit 24 m)) = take_bit 8 (drop_bit 8 m)"
    "take_bit 8 (take_bit 24 m) = take_bit 8 m"
    "take_bit 8 (drop_bit 16 (push_bit 6 (drop_bit 6 (take_bit 24 m)))) = take_bit 8 (drop_bit 16 m)"
    "take_bit 8 (drop_bit 8 (push_bit 6 (drop_bit 6 (take_bit 24 m)))) = take_bit 8 (drop_bit 8 m)"
    "take_bit 8 (drop_bit 16 (push_bit 12 (drop_bit 12 (take_bit 24 m)))) = take_bit 8 (drop_bit 16 m)"
  by (auto intro!: bit_word_eqI simp: bit_simps)

lemma decode_encode_chunk:
  assumes "chunk \<noteq> []" "length chunk \<le> 3"
  shows "decode_chunk (encode_chunk chunk) = Some chunk"
proof -
  consider b0 where "chunk = [b0]" | b0 b1 where "chunk = [b0, b1]" | b0 b1 b2 where "chunk = [b0, b1, b2]"
    using assms by (cases chunk; cases "tl chunk"; cases "tl (tl chunk)") auto
  then show ?thesis
  proof cases
    case 1
    let ?m = "group_word (u32_of b0) 0 0"
    have "as_u8 (drop_bit 16 (push_bit 12 (drop_bit 12 (take_bit 24 ?m)))) = as_u8 (u32_of b0)"
      by (rule as_u8_cong) (simp only: take8_of_24 group_bytes is_octet_of is_octet_0)
    moreover have "encode_chunk chunk = [b64_char (drop_bit 18 ?m), b64_char (drop_bit 12 ?m)]"
      by (simp add: 1 encode_chunk_def group_word_def Let_def)
    ultimately show ?thesis
      by (simp add: 1 decode_chunk_def join2 [symmetric])
  next
    case 2
    let ?m = "group_word (u32_of b0) (u32_of b1) 0"
    let ?n = "push_bit 6 (drop_bit 6 (take_bit 24 ?m))"
    have "as_u8 (drop_bit 16 ?n) = as_u8 (u32_of b0)" "as_u8 (drop_bit 8 ?n) = as_u8 (u32_of b1)"
      by (rule as_u8_cong; simp only: take8_of_24 group_bytes is_octet_of is_octet_0)+
    moreover have "encode_chunk chunk = [b64_char (drop_bit 18 ?m), b64_char (drop_bit 12 ?m), b64_char (drop_bit 6 ?m)]"
      by (simp add: 2 encode_chunk_def group_word_def Let_def)
    ultimately show ?thesis
      by (simp add: 2 decode_chunk_def join3 [symmetric])
  next
    case 3
    let ?m = "group_word (u32_of b0) (u32_of b1) (u32_of b2)"
    have "as_u8 (drop_bit 16 (take_bit 24 ?m)) = as_u8 (u32_of b0)" "as_u8 (drop_bit 8 (take_bit 24 ?m)) = as_u8 (u32_of b1)"
      "as_u8 (take_bit 24 ?m) = as_u8 (u32_of b2)"
      by (rule as_u8_cong; simp only: take8_of_24 group_bytes is_octet_of is_octet_0)+
    moreover have "encode_chunk chunk =
        [b64_char (drop_bit 18 ?m), b64_char (drop_bit 12 ?m), b64_char (drop_bit 6 ?m), b64_char ?m]"
      by (simp add: 3 encode_chunk_def group_word_def Let_def)
    ultimately show ?thesis
      by (simp add: 3 decode_chunk_def join4 [symmetric])
  qed
qed

lemma chunks_Nil [simp]: "chunks n [] = []"
  by (simp add: chunks.simps)

lemma length_encode_chunk: "length (encode_chunk c) = (if 2 < length c then 4 else if 1 < length c then 3 else 2)"
  by (simp add: encode_chunk_def Let_def)

lemma chunks_append: "length a = n \<Longrightarrow> 0 < n \<Longrightarrow> chunks n (a @ b) = a # chunks n b"
  by (subst chunks.simps) auto

lemma b64url_no_dot: "CHR ''.'' \<notin> set (b64url_encode input)"
proof -
  have len: "length B64URL = 64" and dot: "CHR ''.'' \<notin> set B64URL" by (simp_all add: B64URL_def)
  have "b64_char w \<in> set B64URL" for w
    unfolding b64_char_def by (rule nth_mem) (simp only: len unat_sextet)
  then have "b64_char w \<noteq> CHR ''.''" for w using dot by metis
  then have "CHR ''.'' \<notin> set (encode_chunk c)" for c by (auto simp: encode_chunk_def Let_def dest: sym)
  then show ?thesis by (simp add: b64url_encode_def)
qed

lemma b64_decode_encode [simp]: "b64url_decode (b64url_encode input) = Some input"
proof (induction "length input" arbitrary: input rule: less_induct)
  case less
  show ?case
  proof (cases "length input \<le> 3")
    case True
    show ?thesis
    proof (cases "input = []")
      case False
      with True have "chunks 3 input = [input]" by (simp add: chunks.simps [of 3 input])
      then have e: "b64url_encode input = encode_chunk input" by (simp add: b64url_encode_def)
      have "encode_chunk input \<noteq> []" "length (encode_chunk input) \<le> 4"
        by (auto simp: length_encode_chunk simp flip: length_greater_0_conv)
      then have "chunks 4 (encode_chunk input) = [encode_chunk input]" by (simp add: chunks.simps [of 4 "encode_chunk input"])
      with decode_encode_chunk [OF False True] show ?thesis by (simp add: b64url_decode_def e)
    qed (simp add: b64url_encode_def b64url_decode_def)
  next
    case False
    let ?a = "take 3 input" and ?b = "drop 3 input"
    have a: "?a \<noteq> []" "length ?a = 3" using False by auto
    have "b64url_encode input = encode_chunk ?a @ b64url_encode ?b"
      using False by (cases input) (simp_all add: b64url_encode_def chunks.simps [of 3 "_ # _"])
    moreover have "chunks 4 (encode_chunk ?a @ b64url_encode ?b) = encode_chunk ?a # chunks 4 (b64url_encode ?b)"
      by (rule chunks_append) (use a(2) in \<open>simp_all add: length_encode_chunk\<close>)
    moreover have "b64url_decode (b64url_encode ?b) = Some ?b" by (rule less) (use False in simp)
    ultimately show ?thesis using decode_encode_chunk [OF a(1)] a(2) by (simp add: b64url_decode_def)
  qed
qed


section \<open>Digests\<close>

lemma length_sha_fold: "length h = 8 \<Longrightarrow> length (foldl compress h bs) = 8"
proof (induction bs arbitrary: h)
  case (Cons b bs)
  have "length (foldl (\<lambda>s i. sha_round w i s) h is) = 8" if "length h = 8" for w h "is"
    using that by (induction "is" arbitrary: h) (simp_all add: sha_round_def Let_def)
  then have "length (compress h b) = 8" using Cons.prems by (simp add: compress_def)
  with Cons.IH show ?case by simp
qed simp

lemma length_sha256: "length (sha256 m) = 32"
proof -
  have "length (foldl compress SHA256_H0 (chunks 64 (pad_message m))) = 8"
    by (rule length_sha_fold) (simp add: SHA256_H0_def)
  moreover have "length (concat (map (\<lambda>x. be_bytes 4 (unat x)) ws)) = 4 * length ws" for ws :: "32 word list"
    by (induction ws) simp_all
  ultimately show ?thesis by (simp add: sha256_def)
qed

lemma length_pad_zeros: "length (pad_zeros d) mod 64 = 56"
proof (induction d rule: pad_zeros.induct)
  case (1 d)
  then show ?case by (cases "length d mod 64 = 56") (simp_all add: pad_zeros.simps [of d])
qed

lemma chunks_step: "0 < n \<Longrightarrow> xs \<noteq> [] \<Longrightarrow> chunks n xs = take n xs # chunks n (drop n xs)"
  by (subst chunks.simps) simp

lemma length_chunks:
  assumes "0 < n" "length xs = m * n"
  shows "length (chunks n xs) = m \<and> (\<forall>c \<in> set (chunks n xs). length c = n)"
  using assms(2)
proof (induction m arbitrary: xs)
  case (Suc m)
  then have x: "xs \<noteq> []" "length (take n xs) = n" "length (drop n xs) = m * n" using assms(1) by auto
  from Suc.IH [OF x(3)] x(2) show ?case unfolding chunks_step [OF assms(1) x(1)] by (simp only: list.size) auto
qed simp

lemma length_schedule: "length b = 64 \<Longrightarrow> length (schedule b) = 64"
proof -
  assume b: "length b = 64"
  have "length (foldl (\<lambda>w i. w @ [sched_word w i]) w is) = length w + length is" for w "is"
    by (induction "is" arbitrary: w) simp_all
  moreover have "length (chunks 4 b) = 16" using length_chunks [of 4 b 16] b by simp
  ultimately show ?thesis by (simp only: schedule_def b length_map take_all order_refl length_upt)
qed

lemma length_pad_message: "\<exists>n. length (pad_message m) = n * 64"
proof -
  let ?l = "length (pad_zeros (m @ [CHR 0x80]))"
  have "?l mod 64 = 56" by (rule length_pad_zeros)
  then have "?l + 8 = (?l div 64 + 1) * 64" using div_mult_mod_eq [of ?l 64] by simp
  then have "length (pad_message m) = (?l div 64 + 1) * 64" by (simp only: pad_message_def Let_def length_append length_be_bytes)
  then show ?thesis by blast
qed

text \<open>The lengths: the padded message is a whole number of blocks, every block has a schedule of 64
  words, so no index of the rounds is out of range, and both SHA-256 and HMAC return 32 bytes.\<close>

lemma digests_typed:
  "64 dvd length (pad_message m) \<and>
   (\<forall>b \<in> set (chunks 64 (pad_message m)). length b = 64 \<and> length (schedule b) = 64) \<and>
   length (sha256 m) = 32 \<and> length (hmac_sha256 k m) = 32"
proof -
  obtain n where "length (pad_message m) = n * 64" using length_pad_message by blast
  then show ?thesis
    using length_chunks [of 64 "pad_message m" n] by (simp add: length_schedule length_sha256 hmac_sha256_def Let_def)
qed

lemma xor_nat_0: "a XOR b = 0 \<longleftrightarrow> a = b" for a b :: nat
  by (metis xor.assoc xor.left_neutral xor.right_neutral xor_self_eq)

lemma constant_time_eq_iff: "constant_time_eq a b \<longleftrightarrow> a = b"
proof -
  have or0: "foldl (\<lambda>diff (x, y). diff OR (byte_val x XOR byte_val y)) d xs = 0 \<longleftrightarrow>
      d = 0 \<and> (\<forall>(x, y) \<in> set xs. x = y)" for d and xs :: "(byte \<times> byte) list"
    by (induction xs arbitrary: d) (auto simp: or_eq_0_iff xor_nat_0)
  have "(\<forall>(x, y) \<in> set (zip a b). x = y) \<longleftrightarrow> a = b" if "length a = length b"
    using that by (induction a b rule: list_induct2) auto
  then show ?thesis by (auto simp: constant_time_eq_def or0)
qed

end
