(* ===== verification/Cluster.thy ===== *)
theory Cluster
  imports Prelude "HOL-Library.AList"
begin

text \<open>
  Quorum acknowledgement, lease and election of the leader,
  \<open>crates/rro-engine/src/cluster.rs\<close>.  Cursors and clocks are 64-bit words.  \<open>await_quorum\<close> is
  a wait on \<open>is_committed\<close> with a timeout: what it acknowledges is what \<open>is_committed\<close> accepts,
  so it is modelled by the acknowledgements of the step relation \<open>cstep\<close>.
\<close>

section \<open>The leader's view\<close>

type_synonym cursor = "64 word"

record cluster =
  c_quorum :: nat
  c_followers :: "(bytes \<times> cursor) list"

definition cluster_new :: "nat \<Rightarrow> cluster" where
  "cluster_new quorum = \<lparr>c_quorum = max quorum 1, c_followers = []\<rparr>"

definition majority :: "nat \<Rightarrow> nat" where
  "majority n = n div 2 + 1"

text \<open>The result says whether the waiters are woken.\<close>

definition observe :: "bytes \<Rightarrow> cursor \<Rightarrow> cluster \<Rightarrow> bool \<times> cluster" where
  "observe follower cursor c =
     (let e = (case map_of (c_followers c) follower of Some x \<Rightarrow> x | None \<Rightarrow> 0) in
      if e < cursor then (True, c\<lparr>c_followers := AList.update follower cursor (c_followers c)\<rparr>)
      else (False, c\<lparr>c_followers := AList.update follower e (c_followers c)\<rparr>))"

definition holders :: "cursor \<Rightarrow> cluster \<Rightarrow> nat" where
  "holders target c = 1 + length (filter (\<lambda>(_, x). target \<le> x) (c_followers c))"

definition is_committed :: "cursor \<Rightarrow> cluster \<Rightarrow> bool" where
  "is_committed target c \<longleftrightarrow> c_quorum c \<le> holders target c"

section \<open>Lease\<close>

record lease =
  l_leader :: bytes
  l_expires_at_ms :: "64 word"

definition saturating_add :: "64 word \<Rightarrow> 64 word \<Rightarrow> 64 word" where
  "saturating_add a b = (if unat a + unat b < 2 ^ 64 then a + b else - 1)"

definition granted :: "bytes \<Rightarrow> 64 word \<Rightarrow> 64 word \<Rightarrow> lease" where
  "granted leader now_ms ttl_ms = \<lparr>l_leader = leader, l_expires_at_ms = saturating_add now_ms ttl_ms\<rparr>"

definition renew :: "64 word \<Rightarrow> 64 word \<Rightarrow> lease \<Rightarrow> lease" where
  "renew now_ms ttl_ms l = l\<lparr>l_expires_at_ms := saturating_add now_ms ttl_ms\<rparr>"

definition is_live :: "64 word \<Rightarrow> lease \<Rightarrow> bool" where
  "is_live now_ms l \<longleftrightarrow> now_ms < l_expires_at_ms l"

lemma unat_saturating_add: "unat (saturating_add a b) = min (unat a + unat b) (2 ^ 64 - 1)"
proof (cases "unat a + unat b < 2 ^ 64")
  case True
  then show ?thesis by (simp add: saturating_add_def unat_word_ariths)
next
  case False
  have "unat (- 1 :: 64 word) = 2 ^ 64 - 1" by transfer (simp add: mask_eq_exp_minus_1)
  with False show ?thesis by (simp add: saturating_add_def)
qed

section \<open>Election\<close>

text \<open>\<open>max_by\<close> keeps the later of two equal elements.\<close>

definition below :: "bytes \<times> cursor \<Rightarrow> bytes \<times> cursor \<Rightarrow> bool" where
  "below a b \<longleftrightarrow> snd a < snd b \<or> (snd a = snd b \<and> fst a \<le> fst b)"

fun max_survivor :: "bytes \<times> cursor \<Rightarrow> (bytes \<times> cursor) list \<Rightarrow> bytes \<times> cursor" where
  "max_survivor m [] = m"
| "max_survivor m (x # xs) = max_survivor (if below m x then x else m) xs"

definition elect :: "(bytes \<times> cursor) list \<Rightarrow> bytes option" where
  "elect survivors = (case survivors of [] \<Rightarrow> None | x # xs \<Rightarrow> Some (fst (max_survivor x xs)))"

lemma survivor_below_total: "below a b \<or> below b a"
  by (auto simp: below_def)

lemma survivor_below_trans: "below a b \<Longrightarrow> below b c \<Longrightarrow> below a c"
  by (auto simp: below_def)

lemma survivor_below_antisym: "below a b \<Longrightarrow> below b a \<Longrightarrow> a = b"
  by (cases a; cases b) (auto simp: below_def)

lemma max_survivor_spec:
  "max_survivor m xs \<in> set (m # xs) \<and> (\<forall>x \<in> set (m # xs). below x (max_survivor m xs))"
proof (induction xs arbitrary: m)
  case (Cons x xs)
  show ?case
  proof (cases "below m x")
    case True
    with Cons [of x] show ?thesis using survivor_below_trans [OF True] by auto
  next
    case False
    then have "below x m" using survivor_below_total by blast
    with Cons [of m] False show ?thesis using survivor_below_trans [OF \<open>below x m\<close>] by auto
  qed
qed (auto simp: below_def)

section \<open>Quorums\<close>

text \<open>A quorum system: any two quorums of the members meet.\<close>

locale quorum_system =
  fixes members :: "'m set" and quorum :: "'m set \<Rightarrow> bool"
  assumes meet: "quorum Q \<Longrightarrow> quorum Q' \<Longrightarrow> Q \<subseteq> members \<Longrightarrow> Q' \<subseteq> members \<Longrightarrow> Q \<inter> Q' \<noteq> {}"
begin

text \<open>What a quorum holds, some member of any other quorum holds: here for a bound on a value.\<close>

lemma survivor_holds:
  fixes val :: "'m \<Rightarrow> 'v :: linorder"
  assumes "quorum Q" "Q \<subseteq> members" "\<forall>q \<in> Q. v \<le> val q" "quorum S" "S \<subseteq> members"
    and top: "\<forall>s \<in> S. val s \<le> val t"
  shows "v \<le> val t"
proof -
  from meet [OF assms(1,4,2,5)] obtain m where "m \<in> Q" "m \<in> S" by blast
  with assms(3) top show ?thesis by (meson order_trans)
qed

end

lemma majorities_meet:
  assumes "finite M" "Q \<subseteq> M" "Q' \<subseteq> M" "majority (card M) \<le> card Q" "majority (card M) \<le> card Q'"
  shows "Q \<inter> Q' \<noteq> {}"
proof
  assume "Q \<inter> Q' = {}"
  then have "card Q + card Q' = card (Q \<union> Q')"
    using assms by (simp add: card_Un_disjoint finite_subset)
  also have "\<dots> \<le> card M" using assms by (intro card_mono) auto
  finally show False using assms(4,5) by (simp add: majority_def)
qed

interpretation majorities: quorum_system M "\<lambda>Q. finite M \<and> majority (card M) \<le> card Q" for M
  by unfold_locales (blast dest: majorities_meet)

section \<open>Acknowledged writes survive the leader\<close>

text \<open>
  The members are the leader and the followers \<open>F\<close>.  \<open>k_pos\<close> is how far a follower has really
  applied the stream, \<open>k_head\<close> the leader's next sequence number; a poll may arrive late, so the
  cursor it reports is at most the follower's position.
\<close>

record group =
  k_cluster :: cluster
  k_head :: cursor
  k_pos :: "bytes \<Rightarrow> cursor"
  k_acked :: "cursor set"

inductive cstep :: "bytes set \<Rightarrow> group \<Rightarrow> group \<Rightarrow> bool" for F where
  append: "k_head g \<noteq> - 1 \<Longrightarrow> cstep F g (g\<lparr>k_head := k_head g + 1\<rparr>)"
| replicate: "f \<in> F \<Longrightarrow> k_pos g f \<le> p \<Longrightarrow> p \<le> k_head g \<Longrightarrow> cstep F g (g\<lparr>k_pos := (k_pos g)(f := p)\<rparr>)"
| poll: "f \<in> F \<Longrightarrow> c \<le> k_pos g f \<Longrightarrow> cstep F g (g\<lparr>k_cluster := snd (observe f c (k_cluster g))\<rparr>)"
| ack: "t \<le> k_head g \<Longrightarrow> is_committed t (k_cluster g) \<Longrightarrow> cstep F g (g\<lparr>k_acked := insert t (k_acked g)\<rparr>)"

definition c_init :: "nat \<Rightarrow> group" where
  "c_init quorum = \<lparr>k_cluster = cluster_new quorum, k_head = 0, k_pos = (\<lambda>_. 0), k_acked = {}\<rparr>"

definition c_reach :: "bytes set \<Rightarrow> nat \<Rightarrow> group \<Rightarrow> bool" where
  "c_reach F quorum g \<longleftrightarrow> (cstep F)\<^sup>*\<^sup>* (c_init quorum) g"

definition holding :: "bytes set \<Rightarrow> group \<Rightarrow> cursor \<Rightarrow> bytes set" where
  "holding F g t = {f \<in> F. t \<le> k_pos g f}"

definition cinv :: "bytes set \<Rightarrow> nat \<Rightarrow> group \<Rightarrow> bool" where
  "cinv F quorum g \<longleftrightarrow>
     c_quorum (k_cluster g) = max quorum 1 \<and> distinct (map fst (c_followers (k_cluster g))) \<and>
     (\<forall>(f, c) \<in> set (c_followers (k_cluster g)). f \<in> F \<and> c \<le> k_pos g f) \<and>
     (\<forall>t \<in> k_acked g. max quorum 1 \<le> 1 + card (holding F g t))"

lemma observe_set:
  assumes "(f', x) \<in> set (c_followers (snd (observe f c g)))" "distinct (map fst (c_followers g))"
  shows "(f', x) \<in> set (c_followers g) \<or> f' = f \<and> (x = c \<or> x = 0)"
proof -
  have d: "distinct (map fst (AList.update f e (c_followers g)))" for e
    using assms(2) by (simp add: distinct_update)
  have "(f', x) \<in> set (AList.update f e (c_followers g)) \<longleftrightarrow>
      (if f' = f then x = e else (f', x) \<in> set (c_followers g))" for e
    using map_of_eq_Some_iff [OF d [of e], of f' x] map_of_eq_Some_iff [OF assms(2), of f' x]
    by (auto simp: update_conv')
  then show ?thesis using assms
    by (auto simp: observe_def Let_def split: if_splits option.splits dest: map_of_SomeD)
qed

lemma observe_more [simp]: "c_quorum (snd (observe f c g)) = c_quorum g"
  "distinct (map fst (c_followers g)) \<Longrightarrow> distinct (map fst (c_followers (snd (observe f c g))))"
  by (auto simp: observe_def Let_def distinct_update)

lemma holders_bound:
  assumes "finite F" "distinct (map fst (c_followers (k_cluster g)))"
    "\<forall>(f, c) \<in> set (c_followers (k_cluster g)). f \<in> F \<and> c \<le> k_pos g f"
  shows "holders t (k_cluster g) \<le> 1 + card (holding F g t)"
proof -
  let ?xs = "filter (\<lambda>(_, x). t \<le> x) (c_followers (k_cluster g))"
  have "length ?xs = card (fst ` set ?xs)"
    using assms(2) distinct_card [of "map fst ?xs"] by (simp add: distinct_map_filter)
  also have "\<dots> \<le> card (holding F g t)"
    using assms(1,3) by (intro card_mono) (auto simp: holding_def intro: order_trans)
  finally show ?thesis by (simp add: holders_def)
qed

lemma cinv_step: "cstep F g g' \<Longrightarrow> finite F \<Longrightarrow> cinv F n g \<Longrightarrow> cinv F n g'"
proof (induction rule: cstep.induct)
  case (replicate f g p)
  have "card (holding F g t) \<le> card (holding F (g\<lparr>k_pos := (k_pos g)(f := p)\<rparr>) t)" for t
    using replicate by (intro card_mono) (auto simp: holding_def intro: order_trans)
  moreover have "\<forall>(f', c) \<in> set (c_followers (k_cluster g)). f' \<in> F \<and> c \<le> ((k_pos g)(f := p)) f'"
    using replicate by (auto simp: cinv_def intro: order_trans)
  ultimately show ?case using replicate by (auto simp: cinv_def intro: order_trans)
next
  case (poll f c g)
  have "\<forall>(f', x) \<in> set (c_followers (snd (observe f c (k_cluster g)))). f' \<in> F \<and> x \<le> k_pos g f'"
    using poll observe_set [of _ _ f c "k_cluster g"] by (fastforce simp: cinv_def)
  with poll show ?case by (simp add: cinv_def holding_def)
next
  case (ack t g)
  then have "max n 1 \<le> 1 + card (holding F g t)"
    using holders_bound [of F g t] by (simp add: cinv_def is_committed_def)
  with ack show ?case by (simp add: cinv_def holding_def)
qed (simp add: cinv_def holding_def)

lemma cinv_reach:
  assumes "finite F" "c_reach F n g"
  shows "cinv F n g"
  using assms(2) unfolding c_reach_def
proof (induction rule: rtranclp_induct)
  case base
  show ?case by (simp add: cinv_def c_init_def cluster_new_def)
qed (use assms(1) cinv_step in blast)

lemma elect_spec:
  "elect xs = None \<longleftrightarrow> xs = []"
  "elect xs = Some w \<Longrightarrow> \<exists>c. (w, c) \<in> set xs \<and> (\<forall>(i, x) \<in> set xs. x < c \<or> (x = c \<and> i \<le> w))"
proof -
  show "elect xs = None \<longleftrightarrow> xs = []" by (simp add: elect_def split: list.split)
  assume "elect xs = Some w"
  then obtain y ys where "xs = y # ys" "w = fst (max_survivor y ys)"
    by (auto simp: elect_def split: list.splits)
  with max_survivor_spec [of y ys]
  show "\<exists>c. (w, c) \<in> set xs \<and> (\<forall>(i, x) \<in> set xs. x < c \<or> (x = c \<and> i \<le> w))"
    by (intro exI [of _ "snd (max_survivor y ys)"]) (auto simp: below_def)
qed

text \<open>C4: no acknowledged write is lost with the leader.  In a group of \<open>n\<close> members that commits
  at a majority, whatever the order of appends, replication, late polls and acknowledgements, when
  a majority of the members survives without the leader then an election has a winner, the winner
  is a survivor that holds every acknowledged write, and the set of survivors alone decides it.\<close>

theorem no_acked_write_lost:
  assumes "finite F" "c_reach F (majority (Suc (card F))) g"
    "set survivors \<subseteq> F" "distinct survivors" "majority (Suc (card F)) \<le> length survivors"
  shows "\<exists>w. elect (map (\<lambda>f. (f, k_pos g f)) survivors) = Some w \<and> w \<in> set survivors \<and>
    (\<forall>t \<in> k_acked g. t \<le> k_pos g w)"
proof -
  let ?xs = "map (\<lambda>f. (f, k_pos g f)) survivors"
  let ?M = "insert None (Some ` F)" and ?val = "\<lambda>m. case m of None \<Rightarrow> - 1 | Some f \<Rightarrow> k_pos g f"
  have M: "finite ?M" "card ?M = Suc (card F)" using assms(1) by (simp_all add: card_image)
  have "?xs \<noteq> []" using assms(5) by (auto simp: majority_def)
  then obtain w where w: "elect ?xs = Some w" using elect_spec(1) [of ?xs] by blast
  from elect_spec(2) [OF w] have ws: "w \<in> set survivors"
    and top: "\<forall>f \<in> set survivors. k_pos g f \<le> k_pos g w" by auto
  have "t \<le> k_pos g w" if t: "t \<in> k_acked g" for t
  proof -
    have "majority (card ?M) \<le> 1 + card (holding F g t)"
      using cinv_reach [OF assms(1,2)] t M(2) by (auto simp: cinv_def majority_def)
    also have "\<dots> = card (insert None (Some ` holding F g t))"
      using assms(1) by (simp add: holding_def card_image)
    finally have q: "majority (card ?M) \<le> card (insert None (Some ` holding F g t))" .
    have "majority (card ?M) \<le> card (Some ` set survivors)"
      using assms(4,5) M(2) by (simp add: card_image distinct_card)
    with q M(1) majorities.survivor_holds [of ?M "insert None (Some ` holding F g t)" t ?val "Some ` set survivors" "Some w"]
    show ?thesis using assms(3) top by (auto simp: holding_def)
  qed
  with w ws show ?thesis by blast
qed

theorem no_acked_write_lost_witness:
  "elect [(''f1'', 1), (''f2'', 0)] = Some ''f1'' \<and>
   (\<exists>g. c_reach {''f1'', ''f2''} 2 g \<and> 1 \<in> k_acked g \<and>
     (\<exists>w. elect (map (\<lambda>f. (f, k_pos g f)) [''f1'', ''f2'']) = Some w \<and> 1 \<le> k_pos g w))"
proof -
  let ?F = "{''f1'', ''f2''}"
  let ?g1 = "\<lparr>k_cluster = cluster_new 2, k_head = 1, k_pos = (\<lambda>_. 0), k_acked = {}\<rparr>"
  let ?g2 = "?g1\<lparr>k_pos := (\<lambda>_. 0)(''f1'' := 1)\<rparr>"
  let ?g3 = "?g2\<lparr>k_cluster := \<lparr>c_quorum = 2, c_followers = [(''f1'', 1)]\<rparr>\<rparr>"
  let ?g4 = "?g3\<lparr>k_acked := {1}\<rparr>"
  have "cstep ?F (c_init 2) ?g1" using cstep.append [of "c_init 2" ?F] by (simp add: c_init_def)
  moreover have "cstep ?F ?g1 ?g2" using cstep.replicate [of "''f1''" ?F ?g1 1] by simp
  moreover have "cstep ?F ?g2 ?g3" using cstep.poll [of "''f1''" ?F 1 ?g2]
    by (simp add: observe_def cluster_new_def numeral_2_eq_2)
  moreover have "cstep ?F ?g3 ?g4" using cstep.ack [of 1 ?g3 ?F]
    by (simp add: is_committed_def holders_def)
  ultimately have r2: "c_reach ?F 2 ?g4"
    unfolding c_reach_def by (meson rtranclp.rtrancl_refl rtranclp.rtrancl_into_rtrancl)
  moreover have "majority (Suc (card ?F)) = 2" by (simp add: majority_def)
  ultimately have r: "c_reach ?F (majority (Suc (card ?F))) ?g4" by (simp only:)
  have "elect [(''f1'', 1), (''f2'', 0)] = Some ''f1''" by (simp add: elect_def below_def)
  moreover from no_acked_write_lost [OF _ r, of "[''f1'', ''f2'']"]
  have "\<exists>w. elect (map (\<lambda>f. (f, k_pos ?g4 f)) [''f1'', ''f2'']) = Some w \<and> 1 \<le> k_pos ?g4 w"
    by (auto simp: majority_def)
  moreover have "1 \<in> k_acked ?g4" by simp
  ultimately show ?thesis using r2 by blast
qed

text \<open>The lease is live from its grant for exactly its time to live, counted in unbounded
  time up to the end of the clock, and a renewal extends it from the heartbeat.\<close>

lemma lease_window:
  "(is_live t (granted leader now ttl) \<longleftrightarrow> unat t < min (unat now + unat ttl) (2 ^ 64 - 1)) \<and>
   (is_live t (renew now ttl l) \<longleftrightarrow> unat t < min (unat now + unat ttl) (2 ^ 64 - 1)) \<and>
   l_leader (renew now ttl l) = l_leader l"
proof -
  have "t < saturating_add now ttl \<longleftrightarrow> unat t < min (unat now + unat ttl) (2 ^ 64 - 1)"
    by (simp only: word_less_nat_alt unat_saturating_add)
  then show ?thesis by (simp add: is_live_def granted_def renew_def)
qed

end
