(* ===== verification/Auth.thy ===== *)
theory Auth
  imports Sha Cluster
begin

text \<open>
  Tokens, roles and namespaces, \<open>crates/rro-engine/src/auth.rs\<close>, and the gate in front of the
  message handler, \<open>FlowNode::authorize\<close> of \<open>crates/rro-engine/src/handler.rs\<close>.  The JSON text
  of the claims is written and read by the serializer, which is a parameter: \<open>claims_text\<close> and
  \<open>claims_of\<close>.  The clock is an argument.
\<close>

section \<open>Roles\<close>

datatype role = Reader | Writer | Admin

definition role_rank :: "role \<Rightarrow> nat" where
  "role_rank r = (case r of Reader \<Rightarrow> 0 | Writer \<Rightarrow> 1 | Admin \<Rightarrow> 2)"

instantiation role :: linorder
begin

definition less_eq_role :: "role \<Rightarrow> role \<Rightarrow> bool" where
  "r \<le> s \<longleftrightarrow> role_rank r \<le> role_rank s"

definition less_role :: "role \<Rightarrow> role \<Rightarrow> bool" where
  "r < s \<longleftrightarrow> role_rank r < role_rank s"

instance
  by standard (auto simp: less_eq_role_def less_role_def role_rank_def split: role.splits)

end

definition min_role :: "bytes \<Rightarrow> role" where
  "min_role verb =
     (if verb \<in> {''compact'', ''flush'', ''drop_collection''} then Admin
      else if verb \<in> {''index'', ''tx'', ''relate'', ''set_payload'', ''overwrite_payload'',
                      ''delete_payload_keys'', ''clear_payload'', ''create_alias'', ''delete_alias''} then Writer
      else Reader)"

definition allows :: "role \<Rightarrow> bytes \<Rightarrow> bool" where
  "allows r verb \<longleftrightarrow> min_role verb \<le> r"

section \<open>Claims and policy\<close>

record claims =
  cl_sub :: bytes
  cl_role :: role
  cl_ns :: "bytes option"
  cl_iat :: "64 word"
  cl_exp :: "64 word"

datatype auth_error = Missing | Malformed | BadSignature | Expired | Forbidden | WrongNamespace

record auth_policy =
  ap_key :: bytes
  ap_namespace :: "bytes option"

definition policy_new :: "bytes \<Rightarrow> auth_policy" where
  "policy_new key = \<lparr>ap_key = key, ap_namespace = None\<rparr>"

definition for_namespace :: "bytes \<Rightarrow> auth_policy \<Rightarrow> auth_policy" where
  "for_namespace ns p = p\<lparr>ap_namespace := Some ns\<rparr>"

definition jwt_header :: bytes where
  "jwt_header = ''{\"alg\":\"HS256\",\"typ\":\"JWT\"}''"

definition sign_hs256 :: "(claims \<Rightarrow> bytes) \<Rightarrow> claims \<Rightarrow> bytes \<Rightarrow> bytes" where
  "sign_hs256 claims_text c key =
     (let signing_input = b64url_encode jwt_header @ ''.'' @ b64url_encode (claims_text c) in
      signing_input @ ''.'' @ b64url_encode (hmac_sha256 key signing_input))"

text \<open>\<open>token.split('.')\<close>.\<close>

fun split_dots :: "bytes \<Rightarrow> bytes list" where
  "split_dots [] = [[]]"
| "split_dots (c # r) =
     (if c = CHR ''.'' then [] # split_dots r
      else (case split_dots r of [] \<Rightarrow> [[c]] | p # ps \<Rightarrow> (c # p) # ps))"

definition verify_hs256 :: "(bytes \<Rightarrow> claims option) \<Rightarrow> bytes \<Rightarrow> bytes \<Rightarrow> auth_error + claims" where
  "verify_hs256 claims_of token key =
     (case split_dots token of
        [h, p, s] \<Rightarrow>
          (let expected = hmac_sha256 key (h @ ''.'' @ p) in
           case b64url_decode s of
             None \<Rightarrow> Inl Malformed
           | Some given \<Rightarrow>
               if \<not> constant_time_eq expected given then Inl BadSignature
               else (case b64url_decode p of
                       None \<Rightarrow> Inl Malformed
                     | Some payload \<Rightarrow> (case claims_of payload of None \<Rightarrow> Inl Malformed | Some c \<Rightarrow> Inr c)))
      | _ \<Rightarrow> Inl Malformed)"

definition issue :: "(claims \<Rightarrow> bytes) \<Rightarrow> auth_policy \<Rightarrow> claims \<Rightarrow> bytes" where
  "issue claims_text p c = sign_hs256 claims_text c (ap_key p)"

text \<open>The expiry wraps at 64 bits (the release profile).\<close>

definition issue_for :: "(claims \<Rightarrow> bytes) \<Rightarrow> 64 word \<Rightarrow> auth_policy \<Rightarrow> bytes \<Rightarrow> role \<Rightarrow> bytes option \<Rightarrow> 64 word \<Rightarrow> bytes" where
  "issue_for claims_text now p sub r ns ttl_secs =
     issue claims_text p \<lparr>cl_sub = sub, cl_role = r, cl_ns = ns, cl_iat = now, cl_exp = now + ttl_secs\<rparr>"

definition authorize :: "(bytes \<Rightarrow> claims option) \<Rightarrow> 64 word \<Rightarrow> auth_policy \<Rightarrow> bytes option \<Rightarrow> bytes \<Rightarrow> auth_error + role" where
  "authorize claims_of now p token verb =
     (case token of
        None \<Rightarrow> Inl Missing
      | Some t \<Rightarrow>
          bind_result (verify_hs256 claims_of t (ap_key p)) (\<lambda>c.
            if cl_exp c \<le> now then Inl Expired
            else if (case (ap_namespace p, cl_ns c) of (Some n, Some m) \<Rightarrow> n \<noteq> m | _ \<Rightarrow> False) then Inl WrongNamespace
            else if \<not> allows (cl_role c) verb then Inl Forbidden
            else Inr (cl_role c)))"

section \<open>The gate of a node\<close>

text \<open>\<open>Inl ()\<close> refuses; \<open>Inr None\<close> admits without a role.\<close>

record node_gate =
  ng_auth :: "auth_policy option"
  ng_token :: "bytes option"

definition node_authorize ::
  "(bytes \<Rightarrow> claims option) \<Rightarrow> 64 word \<Rightarrow> node_gate \<Rightarrow> bytes option \<Rightarrow> bytes \<Rightarrow> unit + role option" where
  "node_authorize claims_of now g token verb =
     (if verb = ''ping'' then Inr None
      else (case ng_auth g of
              Some p \<Rightarrow> (case authorize claims_of now p token verb of Inl _ \<Rightarrow> Inl () | Inr r \<Rightarrow> Inr (Some r))
            | None \<Rightarrow>
                (case ng_token g of
                   Some required \<Rightarrow> if token \<noteq> Some required then Inl () else Inr None
                 | None \<Rightarrow> Inr None)))"

section \<open>What a token authorizes\<close>

lemma allows_mono: "r \<le> s \<Longrightarrow> allows r verb \<Longrightarrow> allows s verb"
  unfolding allows_def by (rule order_trans)

lemma split_dots_part: "CHR ''.'' \<notin> set p \<Longrightarrow> split_dots p = [p]"
  by (induction p) auto

lemma split_dots_append: "CHR ''.'' \<notin> set p \<Longrightarrow> split_dots (p @ CHR ''.'' # r) = p # split_dots r"
  by (induction p) auto

lemma split_dots_join: "concat (map (\<lambda>p. p @ ''.'') (split_dots t)) = t @ ''.''"
  by (induction t) (auto split: list.splits)

lemma verify_signed:
  "verify_hs256 claims_of (sign_hs256 claims_text c key) key =
     (case claims_of (claims_text c) of None \<Rightarrow> Inl Malformed | Some c' \<Rightarrow> Inr c')"
proof -
  let ?h = "b64url_encode jwt_header" and ?p = "b64url_encode (claims_text c)"
  let ?s = "b64url_encode (hmac_sha256 key (?h @ ''.'' @ ?p))"
  have "split_dots (sign_hs256 claims_text c key) = [?h, ?p, ?s]"
    by (simp add: sign_hs256_def Let_def split_dots_append split_dots_part b64url_no_dot)
  then show ?thesis
    by (simp add: verify_hs256_def Let_def constant_time_eq_iff)
qed

text \<open>Two policies agree on a namespace unless both name one and differ.\<close>

definition ns_compatible :: "bytes option \<Rightarrow> bytes option \<Rightarrow> bool" where
  "ns_compatible a b \<longleftrightarrow> a = None \<or> b = None \<or> a = b"

lemma authorize_alt:
  "authorize claims_of now p (Some t) verb =
     bind_result (verify_hs256 claims_of t (ap_key p)) (\<lambda>c.
       if cl_exp c \<le> now then Inl Expired
       else if \<not> ns_compatible (ap_namespace p) (cl_ns c) then Inl WrongNamespace
       else if \<not> allows (cl_role c) verb then Inl Forbidden
       else Inr (cl_role c))"
proof -
  have "(case (ap_namespace p, cl_ns c) of (Some n, Some m) \<Rightarrow> n \<noteq> m | _ \<Rightarrow> False) \<longleftrightarrow>
      \<not> ns_compatible (ap_namespace p) (cl_ns c)" for c :: claims
    by (auto simp: ns_compatible_def split: option.splits)
  then show ?thesis by (simp only: authorize_def option.case)
qed

text \<open>C29: a token issued for claims the serializer reads back is admitted with its role exactly
  while it is unexpired, its namespace fits the node and its role covers the verb, and otherwise
  refused for the first of these reasons that fails.\<close>

theorem issued_token_authorized:
  assumes "claims_of (claims_text c) = Some c" "ap_key p' = ap_key p"
  shows "authorize claims_of now p (Some (issue claims_text p' c)) verb =
    (if cl_exp c \<le> now then Inl Expired
     else if \<not> ns_compatible (ap_namespace p) (cl_ns c) then Inl WrongNamespace
     else if \<not> min_role verb \<le> cl_role c then Inl Forbidden
     else Inr (cl_role c))"
  using assms by (simp add: authorize_alt issue_def verify_signed allows_def)

theorem issued_token_authorized_witness:
  "authorize (\<lambda>b. if b = ''{}'' then Some \<lparr>cl_sub = ''u'', cl_role = Writer, cl_ns = None, cl_iat = 0, cl_exp = 9\<rparr> else None)
     3 (policy_new ''k'') (Some (issue (\<lambda>_. ''{}'') (policy_new ''k'') \<lparr>cl_sub = ''u'', cl_role = Writer, cl_ns = None, cl_iat = 0, cl_exp = 9\<rparr>)) ''flush''
   = Inl Forbidden"
  by (subst issued_token_authorized)
    (simp_all add: policy_new_def ns_compatible_def min_role_def less_eq_role_def role_rank_def)

text \<open>C16: whatever is presented, a node with a policy admits a verb other than \<open>ping\<close> only to the
  bearer of a token whose signature is the HMAC of its first two parts under the node's key, whose
  claims have not expired, fit the namespace, and carry a role that covers the verb; that role is
  what the handler gets.\<close>

theorem node_admits_only_signed:
  assumes "node_authorize claims_of now g token verb = Inr r" "verb \<noteq> ''ping''" "ng_auth g = Some p"
  shows "\<exists>h q s c. token = Some (h @ ''.'' @ q @ ''.'' @ s) \<and>
    b64url_decode s = Some (hmac_sha256 (ap_key p) (h @ ''.'' @ q)) \<and>
    (\<exists>b. b64url_decode q = Some b \<and> claims_of b = Some c) \<and>
    now < cl_exp c \<and> ns_compatible (ap_namespace p) (cl_ns c) \<and> min_role verb \<le> cl_role c \<and>
    r = Some (cl_role c)"
proof -
  from assms obtain t r' where t: "token = Some t" "authorize claims_of now p (Some t) verb = Inr r'" "r = Some r'"
    by (cases token) (auto simp: node_authorize_def authorize_def split: sum.splits)
  then obtain c where c: "verify_hs256 claims_of t (ap_key p) = Inr c" and "now < cl_exp c"
    "ns_compatible (ap_namespace p) (cl_ns c)" "allows (cl_role c) verb" "r' = cl_role c"
    by (auto simp: authorize_alt bind_result_Inr_iff not_le split: if_splits)
  moreover obtain h q s where hqs: "split_dots t = [h, q, s]"
    and v: "b64url_decode s = Some (hmac_sha256 (ap_key p) (h @ ''.'' @ q))"
      "\<exists>b. b64url_decode q = Some b \<and> claims_of b = Some c"
    using c by (auto simp: verify_hs256_def Let_def constant_time_eq_iff split: list.splits option.splits if_splits)
  moreover have "t = h @ ''.'' @ q @ ''.'' @ s" using split_dots_join [of t] hqs by simp
  ultimately show ?thesis using t
    by (intro exI [of _ h] exI [of _ q] exI [of _ s] exI [of _ c]) (simp add: allows_def)
qed

theorem node_admits_only_signed_witness:
  "\<exists>h q s. issue (\<lambda>_. ''{}'') (policy_new ''k'') \<lparr>cl_sub = ''u'', cl_role = Writer, cl_ns = None, cl_iat = 0, cl_exp = 9\<rparr> = h @ ''.'' @ q @ ''.'' @ s \<and>
    b64url_decode s = Some (hmac_sha256 ''k'' (h @ ''.'' @ q))"
proof -
  let ?c = "\<lparr>cl_sub = ''u'', cl_role = Writer, cl_ns = None, cl_iat = 0, cl_exp = 9\<rparr>"
  have "node_authorize (\<lambda>b. if b = ''{}'' then Some ?c else None) 3 \<lparr>ng_auth = Some (policy_new ''k''), ng_token = None\<rparr>
      (Some (issue (\<lambda>_. ''{}'') (policy_new ''k'') ?c)) ''index'' = Inr (Some Writer)"
    by (simp add: node_authorize_def authorize_alt issue_def verify_signed policy_new_def ns_compatible_def allows_def
        min_role_def less_eq_role_def role_rank_def)
  from node_admits_only_signed [OF this, of "policy_new ''k''"] show ?thesis
    by (auto simp: policy_new_def)
qed

end
