(* ===== verification/Model.thy ===== *)
theory Model
  imports Kv Json
begin

text \<open>
  The estate ontology of \<open>crates/connxism/src/model.rs\<close> with the engine's vocabulary of
  \<open>crates/rro-core/src/types.rs\<close> that the stored forms use: stored documents, shapes, changefeed
  entries, replication records, nodes and connectors.  Vectors are lists of 32-bit patterns.
\<close>

type_synonym vec = "32 word list"
type_synonym epoch_ms = "64 word"

section \<open>Records to index\<close>

record sparse_vector =
  sv_indices :: "32 word list"
  sv_values :: "32 word list"

text \<open>\<open>SparseVector::new\<close>: through a sorted map, so sorted by index and the last weight wins.\<close>

fun sparse_insert :: "32 word \<Rightarrow> 32 word \<Rightarrow> (32 word \<times> 32 word) list \<Rightarrow> (32 word \<times> 32 word) list" where
  "sparse_insert i w [] = [(i, w)]"
| "sparse_insert i w ((j, x) # r) =
     (if i < j then (i, w) # (j, x) # r
      else if i = j then (i, w) # r
      else (j, x) # sparse_insert i w r)"

definition sparse_new :: "(32 word \<times> 32 word) list \<Rightarrow> sparse_vector" where
  "sparse_new pairs =
     (let m = fold (\<lambda>(i, w). sparse_insert i w) pairs [] in
      \<lparr>sv_indices = map fst m, sv_values = map snd m\<rparr>)"

definition nnz :: "sparse_vector \<Rightarrow> nat" where
  "nnz sv = length (sv_indices sv)"

definition sparse_is_empty :: "sparse_vector \<Rightarrow> bool" where
  "sparse_is_empty sv \<longleftrightarrow> sv_indices sv = []"

definition sparse_iter :: "sparse_vector \<Rightarrow> (32 word \<times> 32 word) list" where
  "sparse_iter sv = zip (sv_indices sv) (sv_values sv)"

record vector_record =
  vr_id :: bytes
  vr_embedding :: vec
  vr_sparse :: "sparse_vector option"
  vr_named :: "(bytes \<times> vec) list"
  vr_multi :: "vec list"
  vr_collection :: "bytes option"
  vr_text :: bytes
  vr_metadata :: metadata

text \<open>\<open>VectorRecord::new\<close>.\<close>

definition vector_record_new :: "bytes \<Rightarrow> vec \<Rightarrow> bytes \<Rightarrow> vector_record" where
  "vector_record_new i emb txt =
     \<lparr>vr_id = i, vr_embedding = emb, vr_sparse = None, vr_named = [], vr_multi = [], vr_collection = None,
      vr_text = txt, vr_metadata = []\<rparr>"

section \<open>The estate\<close>

text \<open>The \<open>analyzer\<close> field, which names the text pipeline, is the parameter \<open>analyze\<close> of the operations.\<close>

record estate_info =
  ei_id :: bytes
  ei_name :: bytes
  ei_created_at :: epoch_ms
  ei_dim :: "nat option"
  ei_named_dims :: "(bytes \<times> nat) list"

datatype transport = TLocal | TTcp | TMcp

record warp_point =
  wp_transport :: transport
  wp_address :: bytes
  wp_capabilities :: "bytes list"

record node_info =
  ni_id :: bytes
  ni_name :: bytes
  ni_warp_points :: "warp_point list"
  ni_last_seen :: epoch_ms

datatype connector_kind = KMail | KDrive | KDocs | KLocation | KApplication | KDatabase | KCustom

datatype sync_status = SRegistered | SSyncing | SIdle | SError bytes

record sync_state =
  ss_cursor :: "bytes option"
  ss_docs_synced :: "64 word"
  ss_last_sync :: "epoch_ms option"
  ss_status :: sync_status

definition sync_state_default :: sync_state where
  "sync_state_default = \<lparr>ss_cursor = None, ss_docs_synced = 0, ss_last_sync = None, ss_status = SRegistered\<rparr>"

record connector_info =
  ci_id :: bytes
  ci_name :: bytes
  ci_kind :: connector_kind
  ci_provider :: bytes
  ci_uri :: bytes
  ci_sync :: sync_state
  ci_registered_at :: epoch_ms

section \<open>Shapes\<close>

text \<open>The map of a shape is key-sorted, as the metadata it is taken from.\<close>

type_synonym shape = "(bytes \<times> bytes) list"

definition json_type_name :: "json \<Rightarrow> bytes" where
  "json_type_name v =
     (case v of JNull \<Rightarrow> ''null'' | JBool _ \<Rightarrow> ''bool'' | JNum _ \<Rightarrow> ''number'' | JStr _ \<Rightarrow> ''string''
      | JArr _ \<Rightarrow> ''array'' | JObj _ \<Rightarrow> ''object'')"

definition shape_of :: "metadata \<Rightarrow> shape" where
  "shape_of m = map (\<lambda>(k, v). (k, json_type_name v)) m"

fun join_commas :: "bytes list \<Rightarrow> bytes" where
  "join_commas [] = []"
| "join_commas [p] = p"
| "join_commas (p # ps) = p @ '','' @ join_commas ps"

definition shape_key :: "shape \<Rightarrow> bytes" where
  "shape_key s = join_commas (map (\<lambda>(k, t). k @ '':'' @ t) s)"

section \<open>Changes and replication\<close>

datatype change_op = ChUpsert | ChRemove

record change =
  ch_seq :: "64 word"
  ch_op :: change_op
  ch_doc_id :: bytes
  ch_at :: epoch_ms

record repl_record =
  rr_id :: bytes
  rr_embedding :: vec
  rr_text :: bytes
  rr_metadata :: metadata
  rr_collection :: "bytes option"

record repl_entry =
  re_seq :: "64 word"
  re_op :: change_op
  re_doc_id :: bytes
  re_record :: "repl_record option"

definition into_record :: "repl_record \<Rightarrow> vector_record" where
  "into_record rr =
     (vector_record_new (rr_id rr) (rr_embedding rr) (rr_text rr))
       \<lparr>vr_metadata := rr_metadata rr, vr_collection := rr_collection rr\<rparr>"

record trend_point =
  tp_at :: epoch_ms
  tp_value :: f64

record stored_doc =
  sd_id :: bytes
  sd_text :: bytes
  sd_metadata :: metadata
  sd_tags :: "bytes list"
  sd_shape :: shape
  sd_token_len :: "32 word"
  sd_connector_id :: "bytes option"
  sd_sparse_dims :: "32 word list"
  sd_named_spaces :: "bytes list"
  sd_multi_len :: "32 word"
  sd_collection :: "bytes option"

text \<open>
  The JSON text of the stored values, written and read by the serializer, which is not under
  \<open>src\<close>: one function each way for every type the estate stores.
\<close>

record serde =
  js_doc :: "stored_doc \<Rightarrow> bytes"
  js_doc_of :: "bytes \<Rightarrow> stored_doc option"
  js_change :: "change \<Rightarrow> bytes"
  js_change_of :: "bytes \<Rightarrow> change option"
  js_shapes :: "(bytes \<times> 64 word) list \<Rightarrow> bytes"
  js_shapes_of :: "bytes \<Rightarrow> (bytes \<times> 64 word) list option"
  js_names :: "bytes list \<Rightarrow> bytes"
  js_names_of :: "bytes \<Rightarrow> bytes list option"
  js_pairs :: "(bytes \<times> bytes) list \<Rightarrow> bytes"
  js_pairs_of :: "bytes \<Rightarrow> (bytes \<times> bytes) list option"
  js_info :: "estate_info \<Rightarrow> bytes"
  js_info_of :: "bytes \<Rightarrow> estate_info option"
  js_schema :: "(bytes \<times> (bytes \<times> bytes) list) list \<Rightarrow> bytes"
  js_schema_of :: "bytes \<Rightarrow> (bytes \<times> (bytes \<times> bytes) list) list option"
  js_node :: "node_info \<Rightarrow> bytes"
  js_node_of :: "bytes \<Rightarrow> node_info option"
  js_conn :: "connector_info \<Rightarrow> bytes"
  js_conn_of :: "bytes \<Rightarrow> connector_info option"
  js_value :: "json \<Rightarrow> bytes"

section \<open>Keys of the meta family\<close>

definition META_ESTATE :: bytes where "META_ESTATE = ''estate''"
definition META_DOC_COUNT :: bytes where "META_DOC_COUNT = ''doc_count''"
definition META_TOTAL_TOKENS :: bytes where "META_TOTAL_TOKENS = ''total_tokens''"
definition META_SHAPES :: bytes where "META_SHAPES = ''shapes''"
definition META_FEED_SEQ :: bytes where "META_FEED_SEQ = ''feed_seq''"
definition META_PIDX :: bytes where "META_PIDX = ''payload_indexes''"
definition META_LEXSTATS :: bytes where "META_LEXSTATS = ''lexical_stats_v1''"
definition META_COLLECTIONS :: bytes where "META_COLLECTIONS = ''collections''"
definition META_ALIASES :: bytes where "META_ALIASES = ''aliases''"
definition META_SCHEMA :: bytes where "META_SCHEMA = ''schema''"

lemmas meta_key_defs =
  META_ESTATE_def META_DOC_COUNT_def META_TOTAL_TOKENS_def META_SHAPES_def META_FEED_SEQ_def META_PIDX_def
  META_LEXSTATS_def META_COLLECTIONS_def META_ALIASES_def META_SCHEMA_def

section \<open>Typed reads of the database\<close>

datatype store_error =
    BadJson
  | NotInitialized
  | DimMismatch nat nat
  | SchemaViolation bytes bytes
  | TokenDims
  | IdTooLong
  | IndexKeyTooLong bytes
  | NoDocument bytes
  | NoSuch bytes
  | Quota nat nat
  | Rejected bytes

text \<open>\<open>get_json\<close>: no row is \<open>Ok(None)\<close>, text that does not parse is an error.\<close>

definition get_json :: "(bytes \<Rightarrow> 'a option) \<Rightarrow> db \<Rightarrow> cf \<Rightarrow> bytes \<Rightarrow> store_error + 'a option" where
  "get_json parse db c k =
     (case get_cf db c k of
        None \<Rightarrow> Inr None
      | Some b \<Rightarrow> (case parse b of None \<Rightarrow> Inl BadJson | Some x \<Rightarrow> Inr (Some x)))"

definition put_json :: "('a \<Rightarrow> bytes) \<Rightarrow> 'a \<Rightarrow> cf \<Rightarrow> bytes \<Rightarrow> db \<Rightarrow> db" where
  "put_json txt x c k db = put_cf db c k (txt x)"

text \<open>
  \<open>get_u64\<close>: a value longer than eight bytes is cut.  Every writer of a counter writes eight bytes;
  on a shorter value, which none of them leaves, the source panics.
\<close>

definition get_u64 :: "db \<Rightarrow> bytes \<Rightarrow> 64 word" where
  "get_u64 db k = (case get_cf db CfMeta k of None \<Rightarrow> 0 | Some b \<Rightarrow> of_nat (of_le (take 8 b)))"

definition u64_le :: "64 word \<Rightarrow> bytes" where
  "u64_le x = le_bytes 8 (unat x)"

lemma of_u64_le [simp]: "word_of_nat (of_le (take 8 (u64_le x))) = x"
proof -
  have "of_le (le_bytes 8 (unat x)) = unat x" by (rule of_le_bytes) (rule unat64_bound)
  then show ?thesis by (simp add: u64_le_def)
qed

definition sat_sub :: "64 word \<Rightarrow> 64 word \<Rightarrow> 64 word" where
  "sat_sub a b = (if b \<le> a then a - b else 0)"

end
