(* ===== verification/Store.thy ===== *)
theory Store
  imports Model Pending
begin

text \<open>
  The write path of the recall store: the transaction of \<open>crates/connxism/src/txn.rs\<close> and
  \<open>upsert_into\<close>, \<open>remove_into\<close> and the payload mutations of \<open>crates/connxism/src/store.rs\<close>.
  Parameters: the serializer (\<open>S\<close>), the text analyzer (\<open>analyze\<close>) and the clock (\<open>now\<close>).
  Hash maps are association lists in the order their keys were first met.
\<close>

section \<open>Transactions\<close>

datatype graph_op = GUpsert bytes vec | GRemove bytes

record transaction =
  tx_batch :: batch
  tx_doc_count :: "64 word"
  tx_total_tokens :: "64 word"
  tx_feed_seq :: "64 word"
  tx_shapes :: "(bytes \<times> 64 word) list"
  tx_dirty :: bool
  tx_graph :: "graph_op list"

definition tx_begin :: "serde \<Rightarrow> db \<Rightarrow> store_error + transaction" where
  "tx_begin S db =
     bind_result (get_json (js_shapes_of S) db CfMeta META_SHAPES) (\<lambda>shapes.
       Inr \<lparr>tx_batch = [], tx_doc_count = get_u64 db META_DOC_COUNT,
            tx_total_tokens = get_u64 db META_TOTAL_TOKENS, tx_feed_seq = get_u64 db META_FEED_SEQ,
            tx_shapes = (case shapes of None \<Rightarrow> [] | Some s \<Rightarrow> s), tx_dirty = False, tx_graph = []\<rparr>)"

definition touch_counters :: "transaction \<Rightarrow> transaction" where
  "touch_counters tx = tx\<lparr>tx_dirty := True\<rparr>"

definition push_graph :: "graph_op \<Rightarrow> transaction \<Rightarrow> transaction" where
  "push_graph g tx = tx\<lparr>tx_graph := tx_graph tx @ [g]\<rparr>"

text \<open>The graph operations reach the pending queue only after the batch; when a push has to wait for
  room, the applier's steps in between are those of \<open>pstep\<close>, and the push itself is this.\<close>

definition push_pending :: "graph_op \<Rightarrow> (bytes, vec) pstate \<Rightarrow> (bytes, vec) pstate" where
  "push_pending g s = (case g of GUpsert i e \<Rightarrow> push_op i (Some e) s | GRemove i \<Rightarrow> push_remove i s)"

definition counter_ops :: "serde \<Rightarrow> transaction \<Rightarrow> batch" where
  "counter_ops S tx =
     (if tx_dirty tx then
        [OpPut CfMeta META_DOC_COUNT (u64_le (tx_doc_count tx)),
         OpPut CfMeta META_TOTAL_TOKENS (u64_le (tx_total_tokens tx)),
         OpPut CfMeta META_SHAPES (js_shapes S (tx_shapes tx)),
         OpPut CfMeta META_FEED_SEQ (u64_le (tx_feed_seq tx))]
      else [])"

definition tx_commit :: "serde \<Rightarrow> transaction \<Rightarrow> db \<times> (bytes, vec) pstate \<Rightarrow> db \<times> (bytes, vec) pstate" where
  "tx_commit S tx st =
     (db_write (fst st) (tx_batch tx @ counter_ops S tx), fold push_pending (tx_graph tx) (snd st))"

section \<open>Small maps\<close>

text \<open>\<open>*m.entry(k).or_insert(0) += d\<close>, wrapping.\<close>

fun bump :: "'k \<Rightarrow> 'w :: len word \<Rightarrow> ('k \<times> 'w word) list \<Rightarrow> ('k \<times> 'w word) list" where
  "bump k d [] = [(k, d)]"
| "bump k d ((k', x) # r) = (if k = k' then (k', x + d) # r else (k', x) # bump k d r)"

text \<open>\<open>if let Some(n) = m.get_mut(k) { *n = n.saturating_sub(1) }\<close>.\<close>

definition census_out :: "bytes \<Rightarrow> (bytes \<times> 64 word) list \<Rightarrow> (bytes \<times> 64 word) list" where
  "census_out k m = map (\<lambda>(k', n). (k', if k' = k then sat_sub n 1 else n)) m"

text \<open>The elements a \<open>HashSet\<close> accepts, in order: the first of each.\<close>

fun firsts :: "'a list \<Rightarrow> 'a list \<Rightarrow> 'a list" where
  "firsts old [] = []"
| "firsts old (x # xs) = (if x \<in> set old then firsts old xs else x # firsts (x # old) xs)"

section \<open>Checks before the first write of a record\<close>

definition is_i64_or_u64 :: "json \<Rightarrow> bool" where
  "is_i64_or_u64 v = (case v of JNum (PosInt _) \<Rightarrow> True | JNum (NegInt _) \<Rightarrow> True | _ \<Rightarrow> False)"

definition value_matches_type :: "json \<Rightarrow> bytes \<Rightarrow> bool" where
  "value_matches_type v ty =
     (if ty = ''string'' then as_str v \<noteq> None
      else if ty = ''int'' then is_i64_or_u64 v
      else if ty = ''float'' then is_number v
      else if ty = ''bool'' then (case v of JBool _ \<Rightarrow> True | _ \<Rightarrow> False)
      else if ty = ''datetime'' then Option.bind (as_str v) rfc3339_to_epoch_ms \<noteq> None
      else if ty = ''uuid'' then Option.bind (as_str v) parse_uuid_bytes \<noteq> None
      else False)"

fun check_fields :: "(bytes \<times> bytes) list \<Rightarrow> metadata \<Rightarrow> store_error option" where
  "check_fields [] m = None"
| "check_fields ((field, ty) # r) m =
     (case map_of m field of
        Some v \<Rightarrow> if value_matches_type v ty then check_fields r m else Some (SchemaViolation field ty)
      | None \<Rightarrow> check_fields r m)"

fun check_schema :: "(bytes \<times> (bytes \<times> bytes) list) list \<Rightarrow> vector_record list \<Rightarrow> store_error option" where
  "check_schema schema [] = None"
| "check_schema schema (r # rs) =
     (case Option.bind (vr_collection r) (map_of schema) of
        None \<Rightarrow> check_schema schema rs
      | Some fs \<Rightarrow>
          (case check_fields fs (vr_metadata r) of
             Some e \<Rightarrow> Some e
           | None \<Rightarrow> check_schema schema rs))"

definition check_dims :: "nat \<Rightarrow> vector_record list \<Rightarrow> store_error option" where
  "check_dims dim rs =
     (case find (\<lambda>r. length (vr_embedding r) \<noteq> dim) rs of
        None \<Rightarrow> None
      | Some r \<Rightarrow> Some (DimMismatch dim (length (vr_embedding r))))"

fun named_loop :: "(bytes \<times> vec) list \<Rightarrow> (bytes \<times> nat) list \<Rightarrow> store_error + (bytes \<times> nat) list" where
  "named_loop [] dims = Inr dims"
| "named_loop ((name, v) # r) dims =
     (case map_of dims name of
        None \<Rightarrow> named_loop r (AList.update name (length v) dims)
      | Some expected \<Rightarrow>
          if expected \<noteq> length v then Inl (DimMismatch expected (length v)) else named_loop r dims)"

fun check_named :: "vector_record list \<Rightarrow> (bytes \<times> nat) list \<Rightarrow> store_error + (bytes \<times> nat) list" where
  "check_named [] dims = Inr dims"
| "check_named (r # rs) dims =
     bind_result (named_loop (vr_named r) dims) (\<lambda>dims'.
       case vr_multi r of
         [] \<Rightarrow> check_named rs dims'
       | first # _ \<Rightarrow>
           if list_ex (\<lambda>t. length t \<noteq> length first) (vr_multi r) then Inl TokenDims
           else check_named rs dims')"

text \<open>New collection names, in the order the records bring them.\<close>

fun register_collections :: "vector_record list \<Rightarrow> bytes list \<Rightarrow> bytes list" where
  "register_collections [] reg = reg"
| "register_collections (r # rs) reg =
     (case vr_collection r of
        None \<Rightarrow> register_collections rs reg
      | Some c \<Rightarrow> register_collections rs (if c \<in> set reg then reg else reg @ [c]))"

definition indexed_fields :: "serde \<Rightarrow> db \<Rightarrow> store_error + bytes list" where
  "indexed_fields S db =
     bind_result (get_json (js_names_of S) db CfMeta META_PIDX) (\<lambda>f.
       Inr (case f of None \<Rightarrow> [] | Some fs \<Rightarrow> fs))"

section \<open>One record\<close>

text \<open>
  The loop state: the transaction and the document frequency deltas.  \<open>retract_rows\<close> are the
  deletions an old version of a document causes, with the families in the order of \<open>upsert_into\<close>.
\<close>

type_synonym df_map = "(bytes \<times> 64 word) list"

definition retract_ops :: "serde \<Rightarrow> (bytes \<Rightarrow> bytes list) \<Rightarrow> bytes list \<Rightarrow> bytes \<Rightarrow> stored_doc \<Rightarrow> batch" where
  "retract_ops S analyze fs i old =
     map (\<lambda>t. OpDelete CfTerms (term_key t i)) (analyze (sd_text old)) @
     map (\<lambda>d. OpDelete CfSparse (sparse_key d i)) (sd_sparse_dims old) @
     map (\<lambda>sp. OpDelete CfNvecs (nvec_key sp i)) (sd_named_spaces old) @
     (if 0 < sd_multi_len old then [OpDelete CfMvecs i] else []) @
     (case sd_collection old of None \<Rightarrow> [] | Some c \<Rightarrow> [OpDelete CfColl (coll_key c i)]) @
     List.map_filter (\<lambda>f. map_option (\<lambda>v. OpDelete CfPidx (pidx_key (js_value S) f v i)) (map_of (sd_metadata old) f)) fs"

definition retract_df :: "(bytes \<Rightarrow> bytes list) \<Rightarrow> stored_doc \<Rightarrow> df_map \<Rightarrow> df_map" where
  "retract_df analyze old df = fold (\<lambda>t. bump t (- 1)) (firsts [] (analyze (sd_text old))) df"

definition retract_counters :: "stored_doc \<Rightarrow> transaction \<Rightarrow> transaction" where
  "retract_counters old tx =
     tx\<lparr>tx_total_tokens := sat_sub (tx_total_tokens tx) (ucast (sd_token_len old)),
        tx_shapes := census_out (shape_key (sd_shape old)) (tx_shapes tx),
        tx_doc_count := sat_sub (tx_doc_count tx) 1\<rparr>"

definition add_ops :: "batch \<Rightarrow> transaction \<Rightarrow> transaction" where
  "add_ops b tx = tx\<lparr>tx_batch := tx_batch tx @ b\<rparr>"

text \<open>Term frequencies: one entry per token, counted in 32 bits.\<close>

definition tally :: "bytes list \<Rightarrow> (bytes \<times> 32 word) list" where
  "tally tokens = fold (\<lambda>t. bump t 1) tokens []"

definition posting_value :: "32 word \<Rightarrow> 32 word \<Rightarrow> bytes" where
  "posting_value f len = le_bytes 4 (unat f) @ le_bytes 4 (unat len)"

fun index_ops :: "serde \<Rightarrow> bytes list \<Rightarrow> metadata \<Rightarrow> bytes \<Rightarrow> store_error + batch" where
  "index_ops S [] m i = Inr []"
| "index_ops S (f # r) m i =
     (case map_of m f of
        None \<Rightarrow> index_ops S r m i
      | Some v \<Rightarrow>
          if key_too_long (pidx_key (js_value S) f v i) then Inl (IndexKeyTooLong f)
          else bind_result (index_ops S r m i) (\<lambda>b. Inr (OpPut CfPidx (pidx_key (js_value S) f v i) [] # b)))"

definition sparse_pairs :: "vector_record \<Rightarrow> (32 word \<times> 32 word) list" where
  "sparse_pairs r = (case vr_sparse r of None \<Rightarrow> [] | Some sv \<Rightarrow> sparse_iter sv)"

definition stored_of :: "(bytes \<Rightarrow> bytes list) \<Rightarrow> vector_record \<Rightarrow> stored_doc" where
  "stored_of analyze r =
     \<lparr>sd_id = vr_id r, sd_text = vr_text r, sd_metadata = vr_metadata r, sd_tags = [],
      sd_shape = shape_of (vr_metadata r), sd_token_len = of_nat (length (analyze (vr_text r))),
      sd_connector_id = None, sd_sparse_dims = map fst (sparse_pairs r), sd_named_spaces = map fst (vr_named r),
      sd_multi_len = of_nat (length (vr_multi r)), sd_collection = vr_collection r\<rparr>"

definition record_ops :: "serde \<Rightarrow> (bytes \<Rightarrow> bytes list) \<Rightarrow> vector_record \<Rightarrow> batch \<Rightarrow> batch" where
  "record_ops S analyze r pidx =
     (let i = vr_id r; tokens = analyze (vr_text r); len = of_nat (length tokens); d = stored_of analyze r in
      map (\<lambda>(t, f). OpPut CfTerms (term_key t i) (posting_value f len)) (tally tokens) @
      pidx @
      map (\<lambda>(dim, w). OpPut CfSparse (sparse_key dim i) (le_bytes 4 (unat w))) (sparse_pairs r) @
      map (\<lambda>(n, v). OpPut CfNvecs (nvec_key n i) (encode_vec v)) (vr_named r) @
      (if 0 < sd_multi_len d then [OpPut CfMvecs i (encode_multi (vr_multi r))] else []) @
      (case vr_collection r of None \<Rightarrow> [] | Some c \<Rightarrow> [OpPut CfColl (coll_key c i) []]) @
      [OpPut CfDocs i (js_doc S d), OpPut CfVecs i (encode_vec (vr_embedding r))])"

definition feed_op :: "serde \<Rightarrow> epoch_ms \<Rightarrow> change_op \<Rightarrow> bytes \<Rightarrow> 64 word \<Rightarrow> op" where
  "feed_op S now c i seq =
     OpPut CfFeed (u64_be seq) (js_change S \<lparr>ch_seq = seq, ch_op = c, ch_doc_id = i, ch_at = now\<rparr>)"

definition upsert_record ::
  "serde \<Rightarrow> (bytes \<Rightarrow> bytes list) \<Rightarrow> epoch_ms \<Rightarrow> bytes list \<Rightarrow> db \<Rightarrow> vector_record \<Rightarrow>
   transaction \<times> df_map \<Rightarrow> store_error + transaction \<times> df_map" where
  "upsert_record S analyze now fs db r st =
     (let i = vr_id r in
      if key_too_long i then Inl IdTooLong
      else
        bind_result (get_json (js_doc_of S) db CfDocs i) (\<lambda>prev.
          let (tx, df) = (case prev of
                None \<Rightarrow> st
              | Some old \<Rightarrow> (retract_counters old (add_ops (retract_ops S analyze fs i old) (fst st)),
                             retract_df analyze old (snd st)));
              tokens = analyze (vr_text r);
              df' = fold (\<lambda>(t, f). bump t 1) (tally tokens) df;
              len = (of_nat (length tokens) :: 32 word);
              tx1 = tx\<lparr>tx_shapes := bump (shape_key (shape_of (vr_metadata r))) 1 (tx_shapes tx),
                       tx_doc_count := tx_doc_count tx + 1,
                       tx_total_tokens := tx_total_tokens tx + ucast len\<rparr> in
          bind_result (index_ops S fs (vr_metadata r) i) (\<lambda>pidx.
            let tx2 = push_graph (GUpsert i (vr_embedding r)) (add_ops (record_ops S analyze r pidx) tx1);
                tx3 = add_ops [feed_op S now ChUpsert i (tx_feed_seq tx2)] tx2 in
            Inr (tx3\<lparr>tx_feed_seq := tx_feed_seq tx3 + 1\<rparr>, df'))))"

fun upsert_records ::
  "serde \<Rightarrow> (bytes \<Rightarrow> bytes list) \<Rightarrow> epoch_ms \<Rightarrow> bytes list \<Rightarrow> db \<Rightarrow> vector_record list \<Rightarrow>
   transaction \<times> df_map \<Rightarrow> store_error + transaction \<times> df_map" where
  "upsert_records S analyze now fs db [] st = Inr st"
| "upsert_records S analyze now fs db (r # rs) st =
     bind_result (upsert_record S analyze now fs db r st) (upsert_records S analyze now fs db rs)"

text \<open>One merge per term whose net delta is not zero.\<close>

definition df_ops :: "bool \<Rightarrow> df_map \<Rightarrow> batch" where
  "df_ops lexical_stats df =
     (if lexical_stats then map (\<lambda>(t, d). OpMergeDf CfTdf t d) (filter (\<lambda>(t, d). d \<noteq> 0) df) else [])"

section \<open>The upsert statement\<close>

text \<open>
  The declarations (dimension, collections, named spaces) are written to the database at once and
  stay when the statement fails later, so the result carries the database.  \<open>None\<close> is the panic
  of \<open>records[0]\<close> on an empty batch.
\<close>

definition upsert_checked ::
  "serde \<Rightarrow> (bytes \<Rightarrow> bytes list) \<Rightarrow> epoch_ms \<Rightarrow> bool \<Rightarrow> vector_record list \<Rightarrow> estate_info \<Rightarrow> db \<Rightarrow> transaction \<Rightarrow>
   db \<times> (store_error + transaction)" where
  "upsert_checked S analyze now lexical_stats rs info db tx0 =
     (let tx = touch_counters tx0 in
      case indexed_fields S db of Inl e \<Rightarrow> (db, Inl e) | Inr fs \<Rightarrow>
      (case get_json (js_names_of S) db CfMeta META_COLLECTIONS of Inl e \<Rightarrow> (db, Inl e) | Inr reg0 \<Rightarrow>
      (let reg = (case reg0 of None \<Rightarrow> [] | Some x \<Rightarrow> x);
           reg' = register_collections rs reg;
           db1 = (if reg' = reg then db else put_json (js_names S) (sort reg') CfMeta META_COLLECTIONS db) in
       case check_named rs (ei_named_dims info) of Inl e \<Rightarrow> (db1, Inl e) | Inr dims \<Rightarrow>
       (let db2 = (if dims = ei_named_dims info then db1
                   else put_json (js_info S) (info\<lparr>ei_named_dims := dims\<rparr>) CfMeta META_ESTATE db1) in
        case upsert_records S analyze now fs db2 rs (tx, []) of Inl e \<Rightarrow> (db2, Inl e)
        | Inr (tx', df) \<Rightarrow> (db2, Inr (add_ops (df_ops lexical_stats df) tx'))))))"

definition upsert_into ::
  "serde \<Rightarrow> (bytes \<Rightarrow> bytes list) \<Rightarrow> epoch_ms \<Rightarrow> bool \<Rightarrow> vector_record list \<Rightarrow> db \<Rightarrow> transaction \<Rightarrow>
   (db \<times> (store_error + transaction)) option" where
  "upsert_into S analyze now lexical_stats rs db tx =
     (case get_json (js_info_of S) db CfMeta META_ESTATE of
        Inl e \<Rightarrow> Some (db, Inl e)
      | Inr None \<Rightarrow> Some (db, Inl NotInitialized)
      | Inr (Some info0) \<Rightarrow>
          (case rs of
             [] \<Rightarrow> None
           | first # _ \<Rightarrow>
               (let dim = length (vr_embedding first);
                    info = (case ei_dim info0 of None \<Rightarrow> info0\<lparr>ei_dim := Some dim\<rparr> | Some _ \<Rightarrow> info0);
                    db1 = (case ei_dim info0 of None \<Rightarrow> put_json (js_info S) info CfMeta META_ESTATE db | Some _ \<Rightarrow> db) in
                case (case ei_dim info0 of Some expected \<Rightarrow> if expected \<noteq> dim then Some (DimMismatch expected dim) else None
                                         | None \<Rightarrow> None) of
                  Some e \<Rightarrow> Some (db1, Inl e)
                | None \<Rightarrow>
                    (case check_dims dim rs of
                       Some e \<Rightarrow> Some (db1, Inl e)
                     | None \<Rightarrow>
                         (case get_json (js_schema_of S) db1 CfMeta META_SCHEMA of
                            Inl e \<Rightarrow> Some (db1, Inl e)
                          | Inr sch \<Rightarrow>
                              (case check_schema (case sch of None \<Rightarrow> [] | Some x \<Rightarrow> x) rs of
                                 Some e \<Rightarrow> Some (db1, Inl e)
                               | None \<Rightarrow> Some (upsert_checked S analyze now lexical_stats rs info db1 tx)))))))"

section \<open>The removal statement\<close>

fun remove_term_ops :: "bool \<Rightarrow> bytes \<Rightarrow> bytes list \<Rightarrow> bytes list \<Rightarrow> batch" where
  "remove_term_ops stats i old [] = []"
| "remove_term_ops stats i old (t # ts) =
     OpDelete CfTerms (term_key t i) #
     (if stats \<and> t \<notin> set old then OpMergeDf CfTdf t (- 1) # remove_term_ops stats i (t # old) ts
      else remove_term_ops stats i old ts)"

definition remove_ops :: "serde \<Rightarrow> (bytes \<Rightarrow> bytes list) \<Rightarrow> bool \<Rightarrow> bytes list \<Rightarrow> bytes \<Rightarrow> stored_doc \<Rightarrow> batch" where
  "remove_ops S analyze lexical_stats fs i old =
     (let terms = analyze (sd_text old) in
      remove_term_ops lexical_stats i [] terms @
      List.map_filter (\<lambda>f. map_option (\<lambda>v. OpDelete CfPidx (pidx_key (js_value S) f v i)) (map_of (sd_metadata old) f)) fs @
      map (\<lambda>d. OpDelete CfSparse (sparse_key d i)) (sd_sparse_dims old) @
      map (\<lambda>sp. OpDelete CfNvecs (nvec_key sp i)) (sd_named_spaces old) @
      (if 0 < sd_multi_len old then [OpDelete CfMvecs i] else []) @
      (case sd_collection old of None \<Rightarrow> [] | Some c \<Rightarrow> [OpDelete CfColl (coll_key c i)]) @
      [OpDelete CfDocs i, OpDelete CfVecs i])"

definition remove_into ::
  "serde \<Rightarrow> (bytes \<Rightarrow> bytes list) \<Rightarrow> epoch_ms \<Rightarrow> bool \<Rightarrow> bytes \<Rightarrow> db \<Rightarrow> transaction \<Rightarrow> store_error + transaction" where
  "remove_into S analyze now lexical_stats i db tx =
     bind_result (get_json (js_doc_of S) db CfDocs i) (\<lambda>prev.
       case prev of
         None \<Rightarrow> Inr tx
       | Some old \<Rightarrow>
           bind_result (indexed_fields S db) (\<lambda>fs.
             let tx1 = add_ops (remove_ops S analyze lexical_stats fs i old) (touch_counters tx);
                 tx2 = add_ops [feed_op S now ChRemove i (tx_feed_seq tx1)] tx1;
                 tx3 = retract_counters old (tx2\<lparr>tx_feed_seq := tx_feed_seq tx2 + 1\<rparr>) in
             Inr (push_graph (GRemove i) tx3)))"

section \<open>Whole transactions\<close>

datatype write_op = WUpsert "vector_record list" | WRemove bytes

definition apply_write ::
  "serde \<Rightarrow> (bytes \<Rightarrow> bytes list) \<Rightarrow> epoch_ms \<Rightarrow> bool \<Rightarrow> write_op \<Rightarrow> db \<Rightarrow> transaction \<Rightarrow>
   (db \<times> (store_error + transaction)) option" where
  "apply_write S analyze now lexical_stats w db tx =
     (case w of
        WUpsert rs \<Rightarrow> upsert_into S analyze now lexical_stats rs db tx
      | WRemove i \<Rightarrow> Some (db, remove_into S analyze now lexical_stats i db tx))"

fun apply_writes ::
  "serde \<Rightarrow> (bytes \<Rightarrow> bytes list) \<Rightarrow> epoch_ms \<Rightarrow> bool \<Rightarrow> write_op list \<Rightarrow> db \<Rightarrow> transaction \<Rightarrow>
   (db \<times> (store_error + transaction)) option" where
  "apply_writes S analyze now stats [] db tx = Some (db, Inr tx)"
| "apply_writes S analyze now stats (w # ws) db tx =
     (case apply_write S analyze now stats w db tx of
        None \<Rightarrow> None
      | Some (db', Inl e) \<Rightarrow> Some (db', Inl e)
      | Some (db', Inr tx') \<Rightarrow> apply_writes S analyze now stats ws db' tx')"

text \<open>
  \<open>transaction\<close>: begin, the statements, commit.  An error drops the transaction; the state keeps
  only the declarations already written.
\<close>

definition run_transaction ::
  "serde \<Rightarrow> (bytes \<Rightarrow> bytes list) \<Rightarrow> epoch_ms \<Rightarrow> bool \<Rightarrow> write_op list \<Rightarrow> db \<times> (bytes, vec) pstate \<Rightarrow>
   ((db \<times> (bytes, vec) pstate) \<times> store_error option) option" where
  "run_transaction S analyze now stats ws st =
     (if ws = [] then Some (st, None)
      else (case tx_begin S (fst st) of
              Inl e \<Rightarrow> Some (st, Some e)
            | Inr tx \<Rightarrow>
                (case apply_writes S analyze now stats ws (fst st) tx of
                   None \<Rightarrow> None
                 | Some (db', Inl e) \<Rightarrow> Some ((db', snd st), Some e)
                 | Some (db', Inr tx') \<Rightarrow> Some (tx_commit S tx' (db', snd st), None))))"

section \<open>Quotas and the public statements\<close>

record quotas =
  qt_max_docs :: "nat option"
  qt_max_payload_bytes :: "nat option"
  qt_max_top_k :: "nat option"
  qt_max_batch :: "nat option"

definition quotas_strict :: quotas where
  "quotas_strict =
     \<lparr>qt_max_docs = None, qt_max_payload_bytes = Some (64 * 1024), qt_max_top_k = Some 1024, qt_max_batch = Some 4096\<rparr>"

text \<open>
  \<open>Recall::upsert\<close>: empty batches return at once; the batch and payload caps come before the
  document cap, which counts the records whose id has no document (or an unreadable one).  The
  payload is measured on the serializer's text of the metadata object.
\<close>

definition batch_error :: "quotas \<Rightarrow> vector_record list \<Rightarrow> store_error option" where
  "batch_error q rs =
     (case qt_max_batch q of
        Some cap \<Rightarrow> if cap < length rs then Some (Quota (length rs) cap) else None
      | None \<Rightarrow> None)"

definition payload_error :: "serde \<Rightarrow> quotas \<Rightarrow> vector_record list \<Rightarrow> store_error option" where
  "payload_error S q rs =
     (case qt_max_payload_bytes q of
        None \<Rightarrow> None
      | Some cap \<Rightarrow>
          (case find (\<lambda>r. cap < length (js_value S (JObj (vr_metadata r)))) rs of
             None \<Rightarrow> None
           | Some r \<Rightarrow> Some (Quota (length (js_value S (JObj (vr_metadata r)))) cap)))"

definition is_net_new :: "serde \<Rightarrow> db \<Rightarrow> vector_record \<Rightarrow> bool" where
  "is_net_new S db r =
     (case get_json (js_doc_of S) db CfDocs (vr_id r) of Inl _ \<Rightarrow> True | Inr d \<Rightarrow> d = None)"

definition docs_error :: "serde \<Rightarrow> quotas \<Rightarrow> db \<Rightarrow> vector_record list \<Rightarrow> store_error option" where
  "docs_error S q db rs =
     (case qt_max_docs q of
        None \<Rightarrow> None
      | Some cap \<Rightarrow>
          (let existing = unat (get_u64 db META_DOC_COUNT); net_new = length (filter (is_net_new S db) rs) in
           if cap < existing + net_new then Some (Quota (existing + net_new) cap) else None))"

definition recall_upsert ::
  "serde \<Rightarrow> (bytes \<Rightarrow> bytes list) \<Rightarrow> epoch_ms \<Rightarrow> bool \<Rightarrow> quotas \<Rightarrow> vector_record list \<Rightarrow> db \<times> (bytes, vec) pstate \<Rightarrow>
   ((db \<times> (bytes, vec) pstate) \<times> store_error option) option" where
  "recall_upsert S analyze now stats q rs st =
     (if rs = [] then Some (st, None)
      else (case batch_error q rs of
              Some e \<Rightarrow> Some (st, Some e)
            | None \<Rightarrow>
                (case payload_error S q rs of
                   Some e \<Rightarrow> Some (st, Some e)
                 | None \<Rightarrow>
                     (case docs_error S q (fst st) rs of
                        Some e \<Rightarrow> Some (st, Some e)
                      | None \<Rightarrow> run_transaction S analyze now stats [WUpsert rs] st))))"

definition recall_remove ::
  "serde \<Rightarrow> (bytes \<Rightarrow> bytes list) \<Rightarrow> epoch_ms \<Rightarrow> bool \<Rightarrow> bytes \<Rightarrow> db \<times> (bytes, vec) pstate \<Rightarrow>
   ((db \<times> (bytes, vec) pstate) \<times> store_error option) option" where
  "recall_remove S analyze now stats i st = run_transaction S analyze now stats [WRemove i] st"

definition recall_len :: "db \<Rightarrow> 64 word" where
  "recall_len db = get_u64 db META_DOC_COUNT"

section \<open>Payload mutations\<close>

text \<open>Metadata maps are key-sorted.\<close>

fun meta_insert :: "bytes \<Rightarrow> json \<Rightarrow> metadata \<Rightarrow> metadata" where
  "meta_insert k v [] = [(k, v)]"
| "meta_insert k v ((k', w) # r) =
     (if k < k' then (k, v) # (k', w) # r
      else if k = k' then (k, v) # r
      else (k', w) # meta_insert k v r)"

definition set_payload :: "metadata \<Rightarrow> metadata \<Rightarrow> metadata" where
  "set_payload patch m = fold (\<lambda>(k, v). meta_insert k v) patch m"

definition overwrite_payload :: "metadata \<Rightarrow> metadata \<Rightarrow> metadata" where
  "overwrite_payload new m = new"

definition delete_payload_keys :: "bytes list \<Rightarrow> metadata \<Rightarrow> metadata" where
  "delete_payload_keys ks m = fold (\<lambda>k. filter (\<lambda>kv. fst kv \<noteq> k)) ks m"

definition clear_payload :: "metadata \<Rightarrow> metadata" where
  "clear_payload m = []"

definition pidx_ops :: "serde \<Rightarrow> (bytes \<Rightarrow> op) \<Rightarrow> bytes list \<Rightarrow> metadata \<Rightarrow> bytes \<Rightarrow> batch" where
  "pidx_ops S mk fs m i = List.map_filter (\<lambda>f. map_option (\<lambda>v. mk (pidx_key (js_value S) f v i)) (map_of m f)) fs"

definition mutate_payload ::
  "serde \<Rightarrow> epoch_ms \<Rightarrow> bytes \<Rightarrow> (metadata \<Rightarrow> metadata) \<Rightarrow> db \<Rightarrow> store_error + db" where
  "mutate_payload S now i f db =
     bind_result (get_json (js_doc_of S) db CfDocs i) (\<lambda>prev.
       case prev of
         None \<Rightarrow> Inl (NoDocument i)
       | Some doc \<Rightarrow>
           bind_result (indexed_fields S db) (\<lambda>fs.
           bind_result (get_json (js_shapes_of S) db CfMeta META_SHAPES) (\<lambda>shapes0.
             let shapes1 = census_out (shape_key (sd_shape doc)) (case shapes0 of None \<Rightarrow> [] | Some s \<Rightarrow> s);
                 m = f (sd_metadata doc);
                 doc' = doc\<lparr>sd_metadata := m, sd_shape := shape_of m\<rparr>;
                 shapes2 = bump (shape_key (shape_of m)) 1 shapes1;
                 seq = get_u64 db META_FEED_SEQ in
             Inr (db_write db
               (pidx_ops S (OpDelete CfPidx) fs (sd_metadata doc) i @
                pidx_ops S (\<lambda>k. OpPut CfPidx k []) fs m i @
                [OpPut CfDocs i (js_doc S doc'),
                 feed_op S now ChUpsert i seq,
                 OpPut CfMeta META_FEED_SEQ (u64_le (seq + 1)),
                 OpPut CfMeta META_SHAPES (js_shapes S shapes2)])))))"

end
