(* ===== verification/StoreProps.thy ===== *)
theory StoreProps
  imports Store
begin

text \<open>
  What the write path keeps: every index family holds exactly the rows of the stored documents,
  the document counter is their number and the frequency counter of a term the number of
  documents it occurs in.  The abstract state is a map from ids to stored documents
  (\<open>estate_of\<close>); upserts update it, removals delete from it.
\<close>

section \<open>A batch on one family\<close>

text \<open>A view is what each row of the database would be after a batch.\<close>

type_synonym view = "cf \<Rightarrow> bytes \<Rightarrow> bytes option"

definition apply_view :: "batch \<Rightarrow> view \<Rightarrow> view" where
  "apply_view b v = (\<lambda>c k. fold (op_effect c k) b (v c k))"

fun op_cf :: "op \<Rightarrow> cf" where
  "op_cf (OpPut c k v) = c"
| "op_cf (OpDelete c k) = c"
| "op_cf (OpMergeDf c k d) = c"

definition on_cf :: "cf \<Rightarrow> batch \<Rightarrow> batch" where
  "on_cf c b = filter (\<lambda>x. op_cf x = c) b"

named_theorems family_simps \<open>the operations of each part of a batch on one family\<close>

lemma on_cf_simps [simp, family_simps]:
  "on_cf c [] = []"
  "on_cf c (x # b) = (if op_cf x = c then x # on_cf c b else on_cf c b)"
  "on_cf c (a @ b) = on_cf c a @ on_cf c b"
  by (simp_all add: on_cf_def)

lemma on_cf_map [simp]: "(\<And>x. op_cf (f x) = c') \<Longrightarrow> on_cf c (map f xs) = (if c' = c then map f xs else [])"
  by (induction xs) auto

lemma on_cf_map_filter:
  "(\<And>x y. f x = Some y \<Longrightarrow> op_cf y = c') \<Longrightarrow>
   on_cf c (List.map_filter f xs) = (if c' = c then List.map_filter f xs else [])"
  by (induction xs) (auto simp: List.map_filter_simps split: option.split)

lemma op_effect_other: "op_cf x \<noteq> c \<Longrightarrow> op_effect c k x old = old"
  by (cases x) (auto simp: op_effect_def)

lemma apply_view_on_cf: "apply_view b v c k = fold (op_effect c k) (on_cf c b) (v c k)"
  unfolding apply_view_def
  by (induction b arbitrary: v) (auto simp: op_effect_other)

lemma apply_view_append [simp]: "apply_view (a @ b) v = apply_view b (apply_view a v)"
  by (simp add: apply_view_def fun_eq_iff)

lemma apply_view_Nil [simp]: "apply_view [] v = v"
  by (simp add: apply_view_def fun_eq_iff)

lemma fold_deletes:
  "fold (op_effect c k) (map (\<lambda>x. OpDelete c (f x)) xs) old = (if k \<in> f ` set xs then None else old)"
  by (induction xs arbitrary: old) (auto simp: op_effect_def)

lemma fold_puts_some:
  "fold (op_effect c k) (map (\<lambda>x. OpPut c (f x) (g x)) xs) old \<noteq> None \<longleftrightarrow> k \<in> f ` set xs \<or> old \<noteq> None"
  by (induction xs arbitrary: old) (auto simp: op_effect_def)

text \<open>The rows a family holds for a set of documents.\<close>

type_synonym docs = "bytes \<rightharpoonup> stored_doc"

definition family_of :: "(bytes \<Rightarrow> stored_doc \<Rightarrow> bytes set) \<Rightarrow> (bytes \<Rightarrow> bytes option) \<Rightarrow> docs \<Rightarrow> bool" where
  "family_of rows f D \<longleftrightarrow> (\<forall>k. f k \<noteq> None \<longleftrightarrow> (\<exists>i d. D i = Some d \<and> k \<in> rows i d))"

text \<open>Every row ends with its document's id after a separator.\<close>

definition ends_with_id :: "(bytes \<Rightarrow> stored_doc \<Rightarrow> bytes set) \<Rightarrow> bool" where
  "ends_with_id rows \<longleftrightarrow> (\<forall>i d. \<forall>k \<in> rows i d. \<exists>p. k = p @ SEP # i)"

lemma last_sep_unique:
  assumes "p @ SEP # i = p' @ SEP # i'" "SEP \<notin> set i" "SEP \<notin> set i'"
  shows "i = i'"
proof -
  have "rev i @ SEP # rev p = rev i' @ SEP # rev p'" using arg_cong [OF assms(1), of rev] by simp
  then have "split_compound (rev i @ SEP # rev p) = split_compound (rev i' @ SEP # rev p')" by simp
  then show ?thesis using assms(2,3) by (simp add: split_compound_compound)
qed

definition ids_clean :: "docs \<Rightarrow> bool" where
  "ids_clean D \<longleftrightarrow> (\<forall>i \<in> dom D. SEP \<notin> set i)"

lemma family_of_replace:
  assumes fam: "family_of rows f D" and tail: "ends_with_id rows" and clean: "ids_clean D" "SEP \<notin> set i"
    and new: "\<And>k. f' k \<noteq> None \<longleftrightarrow>
      (case n of None \<Rightarrow> False | Some d \<Rightarrow> k \<in> rows i d) \<or>
      (f k \<noteq> None \<and> \<not> (case D i of None \<Rightarrow> False | Some d \<Rightarrow> k \<in> rows i d))"
  shows "family_of rows f' (D(i := n))"
proof -
  have sep: "j = i" if "D j = Some d" "k \<in> rows j d" "k \<in> rows i d'" for j d d' k
  proof -
    from that tail obtain p p' where "k = p @ SEP # j" "k = p' @ SEP # i"
      unfolding ends_with_id_def by meson
    then show ?thesis using last_sep_unique [of p j p' i] clean that(1) by (auto simp: ids_clean_def)
  qed
  have "f' k \<noteq> None \<longleftrightarrow> (\<exists>j d. (D(i := n)) j = Some d \<and> k \<in> rows j d)" for k
  proof -
    define X A B where "X = (\<exists>d. n = Some d \<and> k \<in> rows i d)" and "A = (\<exists>d. D i = Some d \<and> k \<in> rows i d)"
      and "B = (\<exists>j d. j \<noteq> i \<and> D j = Some d \<and> k \<in> rows j d)"
    have "f k \<noteq> None \<longleftrightarrow> (\<exists>j d. D j = Some d \<and> k \<in> rows j d)"
      using fam unfolding family_of_def by (rule spec)
    also have "\<dots> \<longleftrightarrow> (\<exists>j. (\<exists>d. D j = Some d \<and> k \<in> rows j d) \<and> j = i) \<or> (\<exists>j. j \<noteq> i \<and> (\<exists>d. D j = Some d \<and> k \<in> rows j d))"
      by (simp only: ex_disj_distrib [symmetric]) (rule ex_cong1, rule iffI, simp_all, blast)
    also have "\<dots> \<longleftrightarrow> A \<or> B" unfolding A_def B_def by simp
    finally have fk: "f k \<noteq> None \<longleftrightarrow> A \<or> B" .
    have ba: "B \<Longrightarrow> \<not> A" unfolding A_def B_def using sep by blast
    have x: "(case n of None \<Rightarrow> False | Some d \<Rightarrow> k \<in> rows i d) \<longleftrightarrow> X" unfolding X_def by (cases n) simp_all
    have a: "(case D i of None \<Rightarrow> False | Some d \<Rightarrow> k \<in> rows i d) \<longleftrightarrow> A" unfolding A_def by (cases "D i") simp_all
    have "f' k \<noteq> None \<longleftrightarrow> X \<or> ((A \<or> B) \<and> \<not> A)" unfolding new x a fk ..
    also have "\<dots> \<longleftrightarrow> X \<or> B" using ba by blast
    also have "\<dots> \<longleftrightarrow> (\<exists>j d. (D(i := n)) j = Some d \<and> k \<in> rows j d)" unfolding X_def B_def by auto
    finally show ?thesis .
  qed
  then show ?thesis unfolding family_of_def by blast
qed

section \<open>The rows of a document\<close>

definition term_rows :: "(bytes \<Rightarrow> bytes list) \<Rightarrow> bytes \<Rightarrow> stored_doc \<Rightarrow> bytes set" where
  "term_rows analyze i d = (\<lambda>t. term_key t i) ` set (analyze (sd_text d))"

definition sparse_rows :: "bytes \<Rightarrow> stored_doc \<Rightarrow> bytes set" where
  "sparse_rows i d = (\<lambda>n. sparse_key n i) ` set (sd_sparse_dims d)"

definition nvec_rows :: "bytes \<Rightarrow> stored_doc \<Rightarrow> bytes set" where
  "nvec_rows i d = (\<lambda>n. nvec_key n i) ` set (sd_named_spaces d)"

definition coll_rows :: "bytes \<Rightarrow> stored_doc \<Rightarrow> bytes set" where
  "coll_rows i d = (\<lambda>c. coll_key c i) ` set_option (sd_collection d)"

definition pidx_rows :: "(json \<Rightarrow> bytes) \<Rightarrow> bytes list \<Rightarrow> bytes \<Rightarrow> stored_doc \<Rightarrow> bytes set" where
  "pidx_rows jt fs i d = {pidx_key jt f v i | f v. f \<in> set fs \<and> map_of (sd_metadata d) f = Some v}"

lemma rows_end [simp]:
  "ends_with_id (term_rows analyze)" "ends_with_id sparse_rows" "ends_with_id nvec_rows" "ends_with_id coll_rows"
  "ends_with_id (pidx_rows jt fs)"
  by (auto simp: ends_with_id_def term_rows_def sparse_rows_def nvec_rows_def coll_rows_def pidx_rows_def term_key_def
      sparse_key_def nvec_key_def coll_key_def compound_def pidx_key_def intro: exI [of _ "_ @ _"] append_assoc [symmetric])

section \<open>The parts of a batch, by family\<close>

lemma bump_keys: "set (map fst (bump k d m)) = insert k (set (map fst m))"
  by (induction k d m rule: bump.induct) auto

lemma tally_keys: "fst ` set (tally ts) = set ts"
proof -
  have "set (map fst (fold (\<lambda>t. bump t 1) ts m)) = set ts \<union> set (map fst m)" for m :: "(bytes \<times> 32 word) list"
    by (induction ts arbitrary: m) (simp_all only: fold.simps bump_keys o_apply, auto)
  from this [of "[]"] show ?thesis by (simp add: tally_def)
qed

text \<open>The keys of the index rows of a document.\<close>

definition pidx_keys :: "(json \<Rightarrow> bytes) \<Rightarrow> bytes list \<Rightarrow> metadata \<Rightarrow> bytes \<Rightarrow> bytes list" where
  "pidx_keys jt fs m i = List.map_filter (\<lambda>f. map_option (\<lambda>v. pidx_key jt f v i) (map_of m f)) fs"

lemma set_pidx_keys: "set (pidx_keys (js_value S) fs (sd_metadata d) i) = pidx_rows (js_value S) fs i d"
  by (induction fs) (auto simp: pidx_keys_def pidx_rows_def List.map_filter_simps split: option.splits)

lemma map_filter_map: "List.map_filter (\<lambda>f. map_option (\<lambda>v. mk (g f v)) (h f)) fs =
    map mk (List.map_filter (\<lambda>f. map_option (g f) (h f)) fs)"
  by (induction fs) (auto simp: List.map_filter_simps split: option.splits)

lemma pidx_ops_map: "pidx_ops S mk fs m i = map mk (pidx_keys (js_value S) fs m i)"
  unfolding pidx_ops_def pidx_keys_def by (rule map_filter_map)

lemma index_ops_Inr: "index_ops S fs m i = Inr b \<Longrightarrow> b = map (\<lambda>k. OpPut CfPidx k []) (pidx_keys (js_value S) fs m i)"
  by (induction fs arbitrary: b)
    (auto simp: pidx_keys_def List.map_filter_simps bind_result_Inr_iff split: option.splits if_splits)

lemma retract_ops_alt:
  "retract_ops S analyze fs i old =
     map (\<lambda>t. OpDelete CfTerms (term_key t i)) (analyze (sd_text old)) @
     map (\<lambda>d. OpDelete CfSparse (sparse_key d i)) (sd_sparse_dims old) @
     map (\<lambda>sp. OpDelete CfNvecs (nvec_key sp i)) (sd_named_spaces old) @
     (if 0 < sd_multi_len old then [OpDelete CfMvecs i] else []) @
     map (\<lambda>c. OpDelete CfColl (coll_key c i)) (case sd_collection old of None \<Rightarrow> [] | Some c \<Rightarrow> [c]) @
     map (OpDelete CfPidx) (pidx_keys (js_value S) fs (sd_metadata old) i)"
  unfolding retract_ops_def pidx_ops_def [symmetric] pidx_ops_map by (simp split: option.split)

lemma record_ops_alt:
  "record_ops S analyze r (map (\<lambda>k. OpPut CfPidx k []) ks) =
     map (\<lambda>tf. OpPut CfTerms (term_key (fst tf) (vr_id r)) (posting_value (snd tf) (of_nat (length (analyze (vr_text r))))))
       (tally (analyze (vr_text r))) @
     map (\<lambda>k. OpPut CfPidx k []) ks @
     map (\<lambda>dw. OpPut CfSparse (sparse_key (fst dw) (vr_id r)) (le_bytes 4 (unat (snd dw)))) (sparse_pairs r) @
     map (\<lambda>nv. OpPut CfNvecs (nvec_key (fst nv) (vr_id r)) (encode_vec (snd nv))) (vr_named r) @
     (if 0 < sd_multi_len (stored_of analyze r) then [OpPut CfMvecs (vr_id r) (encode_multi (vr_multi r))] else []) @
     map (\<lambda>c. OpPut CfColl (coll_key c (vr_id r)) []) (case vr_collection r of None \<Rightarrow> [] | Some c \<Rightarrow> [c]) @
     [OpPut CfDocs (vr_id r) (js_doc S (stored_of analyze r)), OpPut CfVecs (vr_id r) (encode_vec (vr_embedding r))]"
  by (simp add: record_ops_def Let_def case_prod_unfold split: option.split)

definition prev_ops :: "serde \<Rightarrow> (bytes \<Rightarrow> bytes list) \<Rightarrow> bytes list \<Rightarrow> bytes \<Rightarrow> stored_doc option \<Rightarrow> batch" where
  "prev_ops S analyze fs i prev = (case prev of None \<Rightarrow> [] | Some old \<Rightarrow> retract_ops S analyze fs i old)"

text \<open>The whole of a record's operations.\<close>

definition upsert_ops ::
  "serde \<Rightarrow> (bytes \<Rightarrow> bytes list) \<Rightarrow> epoch_ms \<Rightarrow> bytes list \<Rightarrow> vector_record \<Rightarrow> stored_doc option \<Rightarrow> 64 word \<Rightarrow> batch" where
  "upsert_ops S analyze now fs r prev seq =
     prev_ops S analyze fs (vr_id r) prev @
     record_ops S analyze r (map (\<lambda>k. OpPut CfPidx k []) (pidx_keys (js_value S) fs (vr_metadata r) (vr_id r))) @
     [feed_op S now ChUpsert (vr_id r) seq]"

lemma family_after:
  assumes "on_cf c seg = map (\<lambda>x. OpDelete c (kd x)) xs @ map (\<lambda>y. OpPut c (kp y) (vp y)) ys"
  shows "apply_view seg v c k \<noteq> None \<longleftrightarrow> k \<in> kp ` set ys \<or> (v c k \<noteq> None \<and> k \<notin> kd ` set xs)"
  by (simp only: apply_view_on_cf assms fold_append o_apply fold_puts_some fold_deletes) simp

definition old_list :: "stored_doc option \<Rightarrow> (stored_doc \<Rightarrow> 'a list) \<Rightarrow> 'a list" where
  "old_list prev f = (case prev of None \<Rightarrow> [] | Some d \<Rightarrow> f d)"

lemma op_cf_feed [simp]: "op_cf (feed_op S now ch i seq) = CfFeed"
  by (simp add: feed_op_def)

lemma upsert_family_ops:
  fixes S analyze now fs r prev seq
  defines "b \<equiv> upsert_ops S analyze now fs r prev seq" and "i \<equiv> vr_id r"
  shows "on_cf CfTerms b = map (\<lambda>t. OpDelete CfTerms (term_key t i)) (old_list prev (\<lambda>d. analyze (sd_text d))) @
      map (\<lambda>tf. OpPut CfTerms (term_key (fst tf) i) (posting_value (snd tf) (of_nat (length (analyze (vr_text r))))))
       (tally (analyze (vr_text r)))"
    and "on_cf CfSparse b = map (\<lambda>n. OpDelete CfSparse (sparse_key n i)) (old_list prev sd_sparse_dims) @
      map (\<lambda>dw. OpPut CfSparse (sparse_key (fst dw) i) (le_bytes 4 (unat (snd dw)))) (sparse_pairs r)"
    and "on_cf CfNvecs b = map (\<lambda>n. OpDelete CfNvecs (nvec_key n i)) (old_list prev sd_named_spaces) @
      map (\<lambda>nv. OpPut CfNvecs (nvec_key (fst nv) i) (encode_vec (snd nv))) (vr_named r)"
    and "on_cf CfColl b = map (\<lambda>c. OpDelete CfColl (coll_key c i)) (old_list prev (\<lambda>d. case sd_collection d of None \<Rightarrow> [] | Some c \<Rightarrow> [c])) @
      map (\<lambda>c. OpPut CfColl (coll_key c i) []) (case vr_collection r of None \<Rightarrow> [] | Some c \<Rightarrow> [c])"
    and "on_cf CfPidx b = map (\<lambda>k. OpDelete CfPidx k) (old_list prev (\<lambda>d. pidx_keys (js_value S) fs (sd_metadata d) i)) @
      map (\<lambda>k. OpPut CfPidx k []) (pidx_keys (js_value S) fs (vr_metadata r) i)"
    and "on_cf CfDocs b = [OpPut CfDocs i (js_doc S (stored_of analyze r))]"
    and "on_cf CfVecs b = [OpPut CfVecs i (encode_vec (vr_embedding r))]"
    and "on_cf CfMvecs b = (case prev of None \<Rightarrow> [] | Some d \<Rightarrow> if 0 < sd_multi_len d then [OpDelete CfMvecs i] else []) @
      (if 0 < sd_multi_len (stored_of analyze r) then [OpPut CfMvecs i (encode_multi (vr_multi r))] else [])"
    and "c \<in> {CfNodes, CfConns, CfTags, CfTrends, CfRels, CfGraph} \<Longrightarrow> on_cf c b = []"
  unfolding b_def i_def upsert_ops_def prev_ops_def record_ops_alt old_list_def
  by (cases prev; auto simp: retract_ops_alt)+

section \<open>The abstract estate\<close>

definition docs_of :: "serde \<Rightarrow> view \<Rightarrow> docs \<Rightarrow> bool" where
  "docs_of S v D \<longleftrightarrow> (\<forall>i. map_option (js_doc_of S) (v CfDocs i) = map_option Some (D i))"

definition view_of :: "serde \<Rightarrow> (bytes \<Rightarrow> bytes list) \<Rightarrow> bytes list \<Rightarrow> view \<Rightarrow> docs \<Rightarrow> bool" where
  "view_of S analyze fs v D \<longleftrightarrow>
     docs_of S v D \<and> ids_clean D \<and>
     family_of (term_rows analyze) (v CfTerms) D \<and> family_of sparse_rows (v CfSparse) D \<and>
     family_of nvec_rows (v CfNvecs) D \<and> family_of coll_rows (v CfColl) D \<and>
     family_of (pidx_rows (js_value S) fs) (v CfPidx) D"

lemma stored_of_sel [simp]:
  "sd_text (stored_of analyze r) = vr_text r" "sd_metadata (stored_of analyze r) = vr_metadata r"
  "sd_sparse_dims (stored_of analyze r) = map fst (sparse_pairs r)"
  "sd_named_spaces (stored_of analyze r) = map fst (vr_named r)"
  "sd_collection (stored_of analyze r) = vr_collection r" "sd_id (stored_of analyze r) = vr_id r"
  "sd_shape (stored_of analyze r) = shape_of (vr_metadata r)"
  "sd_token_len (stored_of analyze r) = of_nat (length (analyze (vr_text r)))"
  "sd_multi_len (stored_of analyze r) = of_nat (length (vr_multi r))"
  by (simp_all add: stored_of_def)

lemma old_list_rows: "k \<in> f ` set (old_list prev g) \<longleftrightarrow> (case prev of None \<Rightarrow> False | Some d \<Rightarrow> k \<in> f ` set (g d))"
  by (cases prev) (simp_all add: old_list_def)

lemma family_step:
  assumes "family_of rows f D" "ends_with_id rows" "ids_clean D" "SEP \<notin> set i"
    and after: "\<And>k. f' k \<noteq> None \<longleftrightarrow> k \<in> kp ` set ys \<or> (f k \<noteq> None \<and> k \<notin> kd ` set (old_list (D i) g))"
    and "case n of None \<Rightarrow> kp ` set ys = {} | Some d \<Rightarrow> kp ` set ys = rows i d" "\<And>d. kd ` set (g d) = rows i d"
  shows "family_of rows f' (D(i := n))"
proof (rule family_of_replace [OF assms(1-4)])
  fix k
  have "k \<in> kp ` set ys \<longleftrightarrow> (case n of None \<Rightarrow> False | Some d \<Rightarrow> k \<in> rows i d)"
    using assms(6) by (cases n) auto
  moreover have "k \<in> kd ` set (old_list (D i) g) \<longleftrightarrow> (case D i of None \<Rightarrow> False | Some d \<Rightarrow> k \<in> rows i d)"
    unfolding old_list_rows assms(7) ..
  ultimately show "f' k \<noteq> None \<longleftrightarrow> (case n of None \<Rightarrow> False | Some d \<Rightarrow> k \<in> rows i d) \<or>
      (f k \<noteq> None \<and> \<not> (case D i of None \<Rightarrow> False | Some d \<Rightarrow> k \<in> rows i d))"
    unfolding after by (simp only:)
qed

lemma set_opt_list: "set (case c of None \<Rightarrow> [] | Some x \<Rightarrow> [x]) = set_option c"
  by (cases c) simp_all

lemma term_row_image:
  "(\<lambda>tf. term_key (fst tf) i) ` set (tally ts) = (\<lambda>t. term_key t i) ` set ts"
  unfolding tally_keys [symmetric] image_image ..

lemma view_upsert:
  assumes v: "view_of S analyze fs v D" and clean: "SEP \<notin> set (vr_id r)"
    and js: "js_doc_of S (js_doc S (stored_of analyze r)) = Some (stored_of analyze r)"
  shows "view_of S analyze fs (apply_view (upsert_ops S analyze now fs r (D (vr_id r)) seq) v)
    (D(vr_id r \<mapsto> stored_of analyze r))" (is "view_of _ _ _ ?v ?D")
proof -
  let ?i = "vr_id r" and ?d = "stored_of analyze r"
  note f = v [unfolded view_of_def]
  have ic: "ids_clean D" using f by blast
  have docs: "docs_of S ?v ?D"
    using f js by (auto simp: docs_of_def apply_view_on_cf upsert_family_ops(6) op_effect_def)
  have "family_of (term_rows analyze) (?v CfTerms) ?D"
    by (rule family_step [OF _ rows_end(1) ic clean family_after [OF upsert_family_ops(1)]])
      (use f in \<open>simp_all add: term_row_image term_rows_def\<close>)
  moreover have "family_of sparse_rows (?v CfSparse) ?D"
    by (rule family_step [OF _ rows_end(2) ic clean family_after [OF upsert_family_ops(2)]])
      (use f in \<open>simp_all add: sparse_rows_def image_image\<close>)
  moreover have "family_of nvec_rows (?v CfNvecs) ?D"
    by (rule family_step [OF _ rows_end(3) ic clean family_after [OF upsert_family_ops(3)]])
      (use f in \<open>simp_all add: nvec_rows_def image_image\<close>)
  moreover have "family_of coll_rows (?v CfColl) ?D"
    by (rule family_step [OF _ rows_end(4) ic clean family_after [OF upsert_family_ops(4)]])
      (use f in \<open>simp_all add: coll_rows_def set_opt_list\<close>)
  moreover have "family_of (pidx_rows (js_value S) fs) (?v CfPidx) ?D"
    by (rule family_step [OF _ rows_end(5) ic clean family_after [OF upsert_family_ops(5)]])
      (use f set_pidx_keys [of S fs ?d ?i] in \<open>simp_all add: set_pidx_keys\<close>)
  moreover have "ids_clean ?D" using ic clean by (auto simp: ids_clean_def)
  ultimately show ?thesis using docs by (simp add: view_of_def)
qed


section \<open>The loop over the records\<close>

text \<open>The documents after the records.\<close>

definition add_docs :: "(bytes \<Rightarrow> bytes list) \<Rightarrow> vector_record list \<Rightarrow> docs \<Rightarrow> docs" where
  "add_docs analyze rs D = fold (\<lambda>r D. D(vr_id r \<mapsto> stored_of analyze r)) rs D"

lemma get_json_doc:
  assumes "docs_of S (get_cf db) D"
  shows "get_json (js_doc_of S) db CfDocs i = Inr (D i)"
proof -
  have "map_option (js_doc_of S) (get_cf db CfDocs i) = map_option Some (D i)"
    using assms by (simp add: docs_of_def)
  then show ?thesis by (cases "D i") (auto simp: get_json_def)
qed

text \<open>How many documents have a term.\<close>

definition doc_freq :: "(bytes \<Rightarrow> bytes list) \<Rightarrow> docs \<Rightarrow> bytes \<Rightarrow> nat" where
  "doc_freq analyze D t = card {i. \<exists>d. D i = Some d \<and> t \<in> set (analyze (sd_text d))}"

definition df_value :: "df_map \<Rightarrow> bytes \<Rightarrow> 64 word" where
  "df_value df t = (case map_of df t of None \<Rightarrow> 0 | Some d \<Rightarrow> d)"

lemma df_value_bump: "df_value (bump k d df) t = df_value df t + (if t = k then d else 0)"
  by (induction k d df rule: bump.induct) (auto simp: df_value_def)

lemma distinct_bump: "distinct (map fst df) \<Longrightarrow> distinct (map fst (bump k d df))"
proof (induction k d df rule: bump.induct)
  case (2 k d k' x r)
  have "set (map fst (bump k d r)) = insert k (set (map fst r))" by (rule bump_keys)
  with 2 show ?case by auto
qed simp

lemma distinct_firsts: "distinct (firsts old xs) \<and> set (firsts old xs) = set xs - set old"
  by (induction old xs rule: firsts.induct) auto

lemma df_value_fold:
  assumes "distinct xs"
  shows "df_value (fold (\<lambda>t. bump t d) xs df) t = df_value df t + (if t \<in> set xs then d else 0)"
  using assms by (induction xs arbitrary: df) (auto simp: df_value_bump)

lemma distinct_tally: "distinct (map fst (tally ts))"
proof -
  have "distinct (map fst (fold (\<lambda>t. bump t 1) ts m))" if "distinct (map fst m)" for m :: "(bytes \<times> 32 word) list"
    using that by (induction ts arbitrary: m) (simp_all add: distinct_bump)
  then show ?thesis by (simp add: tally_def)
qed

lemma distinct_fold_bump: "distinct (map fst df) \<Longrightarrow> distinct (map fst (fold (\<lambda>x. bump (f x) d) xs df))"
  by (induction xs arbitrary: df) (simp_all add: distinct_bump)

lemma df_value_tally:
  "df_value (fold (\<lambda>(t, f). bump t 1) (tally ts) df) t = df_value df t + (if t \<in> set ts then 1 else 0)"
proof -
  have "fold (\<lambda>(t, f). bump t 1) (tally ts) df = fold (\<lambda>t. bump t 1) (map fst (tally ts)) df"
    by (simp add: fold_map case_prod_unfold o_def)
  then show ?thesis
    using df_value_fold [OF distinct_tally [of ts], of 1 df t] tally_keys [of ts] by simp
qed

lemma doc_freq_update:
  assumes "finite (dom D)"
  shows "(of_nat (doc_freq analyze (D(i := n)) t) :: 64 word) =
    of_nat (doc_freq analyze D t)
    - (case D i of None \<Rightarrow> 0 | Some d \<Rightarrow> if t \<in> set (analyze (sd_text d)) then 1 else 0)
    + (case n of None \<Rightarrow> 0 | Some d \<Rightarrow> if t \<in> set (analyze (sd_text d)) then 1 else 0)"
proof -
  let ?H = "\<lambda>D. {i. \<exists>d. D i = Some d \<and> t \<in> set (analyze (sd_text d))}"
  let ?R = "{j. j \<noteq> i \<and> (\<exists>d. D j = Some d \<and> t \<in> set (analyze (sd_text d)))}"
  have fin: "finite ?R" by (rule finite_subset [OF _ assms]) auto
  have a: "?H D = (if \<exists>d. D i = Some d \<and> t \<in> set (analyze (sd_text d)) then insert i ?R else ?R)" by auto
  have b: "?H (D(i := n)) = (if \<exists>d. n = Some d \<and> t \<in> set (analyze (sd_text d)) then insert i ?R else ?R)" by auto
  have ca: "of_nat (card (?H D)) = (of_nat (card ?R) :: 64 word) +
      (case D i of None \<Rightarrow> 0 | Some d \<Rightarrow> if t \<in> set (analyze (sd_text d)) then 1 else 0)"
    unfolding a using fin by (cases "D i") auto
  have cb: "of_nat (card (?H (D(i := n)))) = (of_nat (card ?R) :: 64 word) +
      (case n of None \<Rightarrow> 0 | Some d \<Rightarrow> if t \<in> set (analyze (sd_text d)) then 1 else 0)"
    unfolding b using fin by (cases n) auto
  show ?thesis unfolding doc_freq_def ca cb by simp
qed

lemma add_ops_sel [simp]:
  "tx_batch (add_ops b tx) = tx_batch tx @ b" "tx_graph (add_ops b tx) = tx_graph tx"
  "tx_doc_count (add_ops b tx) = tx_doc_count tx" "tx_feed_seq (add_ops b tx) = tx_feed_seq tx"
  "tx_dirty (add_ops b tx) = tx_dirty tx" "tx_total_tokens (add_ops b tx) = tx_total_tokens tx"
  "tx_shapes (add_ops b tx) = tx_shapes tx"
  by (simp_all add: add_ops_def)

lemma push_graph_sel [simp]:
  "tx_batch (push_graph g tx) = tx_batch tx" "tx_graph (push_graph g tx) = tx_graph tx @ [g]"
  "tx_doc_count (push_graph g tx) = tx_doc_count tx" "tx_feed_seq (push_graph g tx) = tx_feed_seq tx"
  "tx_dirty (push_graph g tx) = tx_dirty tx" "tx_total_tokens (push_graph g tx) = tx_total_tokens tx"
  "tx_shapes (push_graph g tx) = tx_shapes tx"
  by (simp_all add: push_graph_def)

lemma retract_counters_sel [simp]:
  "tx_batch (retract_counters d tx) = tx_batch tx" "tx_graph (retract_counters d tx) = tx_graph tx"
  "tx_doc_count (retract_counters d tx) = sat_sub (tx_doc_count tx) 1"
  "tx_feed_seq (retract_counters d tx) = tx_feed_seq tx" "tx_dirty (retract_counters d tx) = tx_dirty tx"
  "tx_total_tokens (retract_counters d tx) = sat_sub (tx_total_tokens tx) (ucast (sd_token_len d))"
  "tx_shapes (retract_counters d tx) = census_out (shape_key (sd_shape d)) (tx_shapes tx)"
  by (simp_all add: retract_counters_def)

lemma touch_counters_sel [simp]:
  "tx_batch (touch_counters tx) = tx_batch tx" "tx_graph (touch_counters tx) = tx_graph tx"
  "tx_doc_count (touch_counters tx) = tx_doc_count tx"
  "tx_feed_seq (touch_counters tx) = tx_feed_seq tx" "tx_dirty (touch_counters tx)"
  "tx_total_tokens (touch_counters tx) = tx_total_tokens tx" "tx_shapes (touch_counters tx) = tx_shapes tx"
  by (simp_all add: touch_counters_def)

definition step_df :: "(bytes \<Rightarrow> bytes list) \<Rightarrow> vector_record \<Rightarrow> stored_doc option \<Rightarrow> df_map \<Rightarrow> df_map" where
  "step_df analyze r prev df =
     fold (\<lambda>(t, f). bump t 1) (tally (analyze (vr_text r)))
       (case prev of None \<Rightarrow> df | Some old \<Rightarrow> retract_df analyze old df)"

lemma upsert_record_step:
  assumes "upsert_record S analyze now fs db r (tx, df) = Inr (tx', df')" "docs_of S (get_cf db) D"
  shows "tx_batch tx' = tx_batch tx @ upsert_ops S analyze now fs r (D (vr_id r)) (tx_feed_seq tx) \<and>
    tx_graph tx' = tx_graph tx @ [GUpsert (vr_id r) (vr_embedding r)] \<and>
    tx_doc_count tx' = (case D (vr_id r) of None \<Rightarrow> tx_doc_count tx | Some _ \<Rightarrow> sat_sub (tx_doc_count tx) 1) + 1 \<and>
    tx_dirty tx' = tx_dirty tx \<and> tx_feed_seq tx' = tx_feed_seq tx + 1 \<and>
    df' = step_df analyze r (D (vr_id r)) df \<and> \<not> key_too_long (vr_id r) \<and>
    tx_total_tokens tx' = (case D (vr_id r) of None \<Rightarrow> tx_total_tokens tx
      | Some old \<Rightarrow> sat_sub (tx_total_tokens tx) (ucast (sd_token_len old))) + ucast (sd_token_len (stored_of analyze r)) \<and>
    tx_shapes tx' = bump (shape_key (shape_of (vr_metadata r))) 1 (case D (vr_id r) of None \<Rightarrow> tx_shapes tx
      | Some old \<Rightarrow> census_out (shape_key (sd_shape old)) (tx_shapes tx))"
  using assms(1)
  by (cases "D (vr_id r)")
    (auto simp: upsert_record_def get_json_doc [OF assms(2)] Let_def bind_result_Inr_iff step_df_def
      upsert_ops_def prev_ops_def dest!: index_ops_Inr split: if_splits)

lemma df_value_step:
  "df_value (step_df analyze r prev df) t = df_value df t
    - (case prev of None \<Rightarrow> 0 | Some d \<Rightarrow> if t \<in> set (analyze (sd_text d)) then 1 else 0)
    + (if t \<in> set (analyze (vr_text r)) then 1 else 0)"
proof (cases prev)
  case (Some old)
  have d: "distinct (firsts [] (analyze (sd_text old)))" "set (firsts [] (analyze (sd_text old))) = set (analyze (sd_text old))"
    using distinct_firsts [of "[]" "analyze (sd_text old)"] by simp_all
  show ?thesis by (simp add: Some step_df_def df_value_tally retract_df_def df_value_fold [OF d(1)] d(2))
qed (simp add: step_df_def df_value_tally)

lemma distinct_step_df: "distinct (map fst df) \<Longrightarrow> distinct (map fst (step_df analyze r prev df))"
proof -
  assume d: "distinct (map fst df)"
  have "fold (\<lambda>(t, f). bump t 1) xs m = fold (\<lambda>x. bump (fst x) 1) xs m" for xs :: "(bytes \<times> 32 word) list" and m :: df_map
    by (simp add: case_prod_unfold)
  then show ?thesis using d distinct_fold_bump [of _ "\<lambda>t. t" "- 1"]
    by (simp add: step_df_def retract_df_def distinct_fold_bump split: option.split)
qed

text \<open>
  What holds in the loop, from the documents \<open>D0\<close> of the database to the documents \<open>D\<close> so far.
\<close>

definition loop_inv ::
  "serde \<Rightarrow> (bytes \<Rightarrow> bytes list) \<Rightarrow> bytes list \<Rightarrow> db \<Rightarrow> docs \<Rightarrow> docs \<Rightarrow> transaction \<Rightarrow> df_map \<Rightarrow> bool" where
  "loop_inv S analyze fs db D0 D tx df \<longleftrightarrow>
     view_of S analyze fs (apply_view (tx_batch tx) (get_cf db)) D \<and> finite (dom D) \<and>
     unat (tx_doc_count tx) = card (dom D) \<and> distinct (map fst df) \<and>
     (\<forall>t. df_value df t = of_nat (doc_freq analyze D t) - of_nat (doc_freq analyze D0 t)) \<and>
     on_cf CfMeta (tx_batch tx) = [] \<and> on_cf CfTdf (tx_batch tx) = [] \<and> list_all plain_op (tx_batch tx)"

lemma list_all_map_plain [simp]:
  "list_all plain_op (map (\<lambda>x. OpPut c (f x) (g x)) xs)" "list_all plain_op (map (\<lambda>x. OpDelete c (f x)) xs)"
  by (simp_all add: list_all_iff)

lemma upsert_ops_plain:
  "list_all plain_op (upsert_ops S analyze now fs r prev seq)"
  "on_cf CfMeta (upsert_ops S analyze now fs r prev seq) = []"
  "on_cf CfTdf (upsert_ops S analyze now fs r prev seq) = []"
  unfolding upsert_ops_def prev_ops_def record_ops_alt
  by (cases prev; simp add: retract_ops_alt feed_op_def)+

lemma unat_sat_sub_add:
  "0 < unat x \<Longrightarrow> unat (sat_sub x 1 + 1) = unat x"
  by (simp add: sat_sub_def word_le_nat_alt)

lemma unat_plus_one: "unat x < 2 ^ 64 - 1 \<Longrightarrow> unat (x + 1) = Suc (unat x)" for x :: "64 word"
  by (simp add: unat_word_ariths)

lemma loop_inv_step:
  assumes inv: "loop_inv S analyze fs db D0 D tx df" and up: "upsert_record S analyze now fs db r (tx, df) = Inr (tx', df')"
    and db: "docs_of S (get_cf db) D0" and same: "D0 (vr_id r) = D (vr_id r)" and clean: "SEP \<notin> set (vr_id r)"
    and js: "js_doc_of S (js_doc S (stored_of analyze r)) = Some (stored_of analyze r)"
    and room: "card (dom D) < 2 ^ 64 - 1"
  shows "loop_inv S analyze fs db D0 (D(vr_id r \<mapsto> stored_of analyze r)) tx' df'"
proof -
  let ?i = "vr_id r"
  note s = upsert_record_step [OF up db, unfolded same]
  note i = inv [unfolded loop_inv_def]
  have "view_of S analyze fs (apply_view (tx_batch tx') (get_cf db)) (D(?i \<mapsto> stored_of analyze r))"
    using view_upsert [OF _ clean js, of fs _ D now "tx_feed_seq tx"] i s by simp
  moreover have "unat (tx_doc_count tx') = card (dom (D(?i \<mapsto> stored_of analyze r)))"
  proof (cases "D ?i")
    case None
    then have "card (dom (D(?i \<mapsto> stored_of analyze r))) = Suc (card (dom D))" using i by (simp add: domIff)
    with None s i room show ?thesis by (simp add: unat_plus_one)
  next
    case (Some d)
    then have "?i \<in> dom D" by blast
    then have "0 < card (dom D)" "card (dom (D(?i \<mapsto> stored_of analyze r))) = card (dom D)"
      using i by (auto simp: card_gt_0_iff insert_absorb)
    with Some s i show ?thesis by (simp add: unat_sat_sub_add)
  qed
  moreover have "df_value df' t = of_nat (doc_freq analyze (D(?i \<mapsto> stored_of analyze r)) t) - of_nat (doc_freq analyze D0 t)" for t
    using i s by (simp add: df_value_step doc_freq_update [of D analyze ?i])
  ultimately show ?thesis using i s
    by (simp add: loop_inv_def distinct_step_df upsert_ops_plain)
qed

lemma upsert_records_inv:
  assumes "loop_inv S analyze fs db D0 D tx df" "upsert_records S analyze now fs db rs (tx, df) = Inr (tx', df')"
    "docs_of S (get_cf db) D0" "\<forall>r \<in> set rs. D0 (vr_id r) = D (vr_id r)" "distinct (map vr_id rs)"
    "\<forall>r \<in> set rs. SEP \<notin> set (vr_id r) \<and> js_doc_of S (js_doc S (stored_of analyze r)) = Some (stored_of analyze r)"
    "card (dom D) + length rs < 2 ^ 64"
  shows "loop_inv S analyze fs db D0 (add_docs analyze rs D) tx' df' \<and>
    tx_graph tx' = tx_graph tx @ map (\<lambda>r. GUpsert (vr_id r) (vr_embedding r)) rs \<and> tx_dirty tx' = tx_dirty tx"
  using assms(1,2,4-)
proof (induction rs arbitrary: D tx df)
  case (Cons r rs)
  from Cons.prems(2) obtain tx1 df1 where u: "upsert_record S analyze now fs db r (tx, df) = Inr (tx1, df1)"
    and us: "upsert_records S analyze now fs db rs (tx1, df1) = Inr (tx', df')"
    by (auto simp: bind_result_Inr_iff)
  let ?D = "D(vr_id r \<mapsto> stored_of analyze r)"
  have inv: "loop_inv S analyze fs db D0 ?D tx1 df1"
    by (rule loop_inv_step [OF Cons.prems(1) u assms(3)]) (use Cons.prems in auto)
  have fin: "finite (dom D)" using Cons.prems(1) by (simp add: loop_inv_def)
  have c: "card (dom ?D) + length rs < 2 ^ 64"
  proof -
    have "card (dom ?D) \<le> Suc (card (dom D))" using fin by (simp add: card_insert_if)
    then show ?thesis using Cons.prems(6) by simp
  qed
  have "vr_id x \<noteq> vr_id r" if "x \<in> set rs" for x
    using Cons.prems(4) that by (metis distinct.simps(2) image_eqI list.map(2) set_map)
  then have a: "\<forall>x \<in> set rs. D0 (vr_id x) = ?D (vr_id x)" using Cons.prems(3) by simp
  have d: "distinct (map vr_id rs)" using Cons.prems(4) by simp
  have j: "\<forall>r \<in> set rs. SEP \<notin> set (vr_id r) \<and> js_doc_of S (js_doc S (stored_of analyze r)) = Some (stored_of analyze r)"
    using Cons.prems(5) by simp
  have "loop_inv S analyze fs db D0 (add_docs analyze rs ?D) tx' df' \<and>
    tx_graph tx' = tx_graph tx1 @ map (\<lambda>r. GUpsert (vr_id r) (vr_embedding r)) rs \<and> tx_dirty tx' = tx_dirty tx1"
    by (rule Cons.IH [OF inv us a d j c])
  then show ?case using upsert_record_step [OF u assms(3)] by (simp add: add_docs_def)
qed (simp add: add_docs_def)

section \<open>Declarations\<close>

text \<open>The writes that are not part of the batch: the estate blob and the collection registry.\<close>

definition same_but_declared :: "db \<Rightarrow> db \<Rightarrow> bool" where
  "same_but_declared db db' \<longleftrightarrow>
     (db_ok db \<longrightarrow> db_ok db' \<and>
        (\<forall>c k. c \<noteq> CfMeta \<or> (k \<noteq> META_ESTATE \<and> k \<noteq> META_COLLECTIONS) \<longrightarrow> get_cf db' c k = get_cf db c k))"

lemma same_refl [simp]: "same_but_declared db db"
  by (simp add: same_but_declared_def)

lemma same_trans: "same_but_declared a b \<Longrightarrow> same_but_declared b c \<Longrightarrow> same_but_declared a c"
  by (auto simp: same_but_declared_def)

lemma same_put: "k = META_ESTATE \<or> k = META_COLLECTIONS \<Longrightarrow> same_but_declared db (put_json txt x CfMeta k db)"
  by (auto simp: same_but_declared_def put_json_def)

lemma get_json_same:
  "same_but_declared db db' \<Longrightarrow> db_ok db \<Longrightarrow> c \<noteq> CfMeta \<or> (k \<noteq> META_ESTATE \<and> k \<noteq> META_COLLECTIONS) \<Longrightarrow>
   get_json f db' c k = get_json f db c k"
  by (simp add: same_but_declared_def get_json_def)

lemma indexed_fields_same: "same_but_declared db db' \<Longrightarrow> db_ok db \<Longrightarrow> indexed_fields S db' = indexed_fields S db"
  using get_json_same [of db db' CfMeta META_PIDX "js_names_of S"] by (simp add: indexed_fields_def meta_key_defs)

lemma upsert_checked_result:
  assumes "upsert_checked S analyze now stats rs info db tx = (db', res)"
  shows "same_but_declared db db' \<and>
    (\<forall>tx'. res = Inr tx' \<longrightarrow> (\<exists>fs tx1 df. indexed_fields S db = Inr fs \<and>
       upsert_records S analyze now fs db' rs (touch_counters tx, []) = Inr (tx1, df) \<and>
       tx' = add_ops (df_ops stats df) tx1))"
proof -
  define reg where "reg r = (case r of None \<Rightarrow> [] | Some x \<Rightarrow> x)" for r :: "bytes list option"
  define d1 where "d1 r = (if register_collections rs (reg r) = reg r then db
      else put_json (js_names S) (sort (register_collections rs (reg r))) CfMeta META_COLLECTIONS db)" for r
  define d2 where "d2 r dims = (if dims = ei_named_dims info then d1 r
      else put_json (js_info S) (info\<lparr>ei_named_dims := dims\<rparr>) CfMeta META_ESTATE (d1 r))" for r dims
  have s1: "same_but_declared db (d1 r)" for r by (simp add: d1_def same_put)
  have s2: "same_but_declared db (d2 r dims)" for r dims
    unfolding d2_def by (auto intro: s1 same_trans [OF s1 [of r] same_put])
  note defs = reg_def [abs_def] d1_def [abs_def] d2_def [abs_def]
  show ?thesis
  proof (cases "indexed_fields S db")
    case (Inr fs)
    show ?thesis
    proof (cases "get_json (js_names_of S) db CfMeta META_COLLECTIONS")
      case r: (Inr r)
      show ?thesis
      proof (cases "check_named rs (ei_named_dims info)")
        case (Inl e)
        then have "(db', res) = (d1 r, Inl e)" using assms Inr r
          by (simp only: upsert_checked_def Let_def defs sum.case)
        then show ?thesis using s1 by simp
      next
        case c: (Inr dims)
        have "(db', res) = (case upsert_records S analyze now fs (d2 r dims) rs (touch_counters tx, []) of
            Inl e \<Rightarrow> (d2 r dims, Inl e) | Inr (tx', df) \<Rightarrow> (d2 r dims, Inr (add_ops (df_ops stats df) tx')))"
          using assms Inr r c by (simp only: upsert_checked_def Let_def defs sum.case)
        then show ?thesis using s2 [of r dims] Inr by (auto split: sum.splits prod.splits)
      qed
    qed (use assms Inr in \<open>auto simp add: upsert_checked_def Let_def\<close>)
  qed (use assms in \<open>auto simp add: upsert_checked_def Let_def\<close>)
qed

lemma upsert_into_result:
  assumes "upsert_into S analyze now stats rs db tx = Some (db', res)"
  shows "same_but_declared db db' \<and>
    (db_ok db \<longrightarrow> (\<forall>tx'. res = Inr tx' \<longrightarrow> (\<exists>fs tx1 df. indexed_fields S db = Inr fs \<and>
       upsert_records S analyze now fs db' rs (touch_counters tx, []) = Inr (tx1, df) \<and>
       tx' = add_ops (df_ops stats df) tx1)))"
proof -
  have put: "same_but_declared db (put_json (js_info S) x CfMeta META_ESTATE db)" for x by (simp add: same_put)
  have sub: ?thesis if "upsert_checked S analyze now stats rs info db1 tx = (db', res)" "same_but_declared db db1" for info db1
    using upsert_checked_result [OF that(1)] that(2) same_trans [OF that(2)] indexed_fields_same [OF that(2)] by auto
  show ?thesis
  proof (cases "get_json (js_info_of S) db CfMeta META_ESTATE")
    case (Inr oinfo)
    show ?thesis
    proof (cases oinfo)
      case info: (Some info0)
      show ?thesis
      proof (cases rs)
        case (Cons first rest)
        define info where "info = (case ei_dim info0 of None \<Rightarrow> info0\<lparr>ei_dim := Some (length (vr_embedding first))\<rparr> | Some _ \<Rightarrow> info0)"
        define db1 where "db1 = (case ei_dim info0 of None \<Rightarrow> put_json (js_info S) info CfMeta META_ESTATE db | Some _ \<Rightarrow> db)"
        have s1: "same_but_declared db db1" using put by (cases "ei_dim info0") (simp_all add: db1_def)
        have "upsert_into S analyze now stats rs db tx = Some (upsert_checked S analyze now stats rs info db1 tx)
          \<or> (\<exists>e. upsert_into S analyze now stats rs db tx = Some (db1, Inl e))"
          using Inr info Cons unfolding upsert_into_def Let_def info_def db1_def
          by (simp split: option.split sum.split)
        then show ?thesis using assms sub [OF _ s1] s1 by auto
      qed (use assms Inr info in \<open>auto simp: upsert_into_def\<close>)
    qed (use assms Inr in \<open>auto simp: upsert_into_def\<close>)
  qed (use assms in \<open>auto simp: upsert_into_def\<close>)
qed

section \<open>The estate\<close>

text \<open>The database holds exactly the documents \<open>D\<close>, indexed by the fields \<open>fs\<close>, with exact counters.\<close>

definition estate_of :: "serde \<Rightarrow> (bytes \<Rightarrow> bytes list) \<Rightarrow> bytes list \<Rightarrow> db \<Rightarrow> docs \<Rightarrow> bool" where
  "estate_of S analyze fs db D \<longleftrightarrow>
     db_ok db \<and> view_of S analyze fs (get_cf db) D \<and> finite (dom D) \<and>
     unat (get_u64 db META_DOC_COUNT) = card (dom D) \<and> indexed_fields S db = Inr fs \<and>
     (\<forall>t. counter_of (get_cf db CfTdf t) = of_nat (doc_freq analyze D t))"

lemma view_of_cong:
  "(\<And>c k. c \<noteq> CfMeta \<Longrightarrow> c \<noteq> CfTdf \<Longrightarrow> v c k = w c k) \<Longrightarrow> view_of S analyze fs v D = view_of S analyze fs w D"
proof -
  assume a: "\<And>c k. c \<noteq> CfMeta \<Longrightarrow> c \<noteq> CfTdf \<Longrightarrow> v c k = w c k"
  have "v CfTerms = w CfTerms" "v CfSparse = w CfSparse" "v CfNvecs = w CfNvecs" "v CfColl = w CfColl" "v CfPidx = w CfPidx"
    "\<And>i. v CfDocs i = w CfDocs i" by (simp_all add: a fun_eq_iff)
  then show ?thesis by (simp add: view_of_def docs_of_def)
qed

lemma estate_same:
  assumes "estate_of S analyze fs db D" "same_but_declared db db'"
  shows "estate_of S analyze fs db' D"
proof -
  have ok: "db_ok db" "db_ok db'" and g: "\<And>c k. c \<noteq> CfMeta \<or> (k \<noteq> META_ESTATE \<and> k \<noteq> META_COLLECTIONS) \<Longrightarrow> get_cf db' c k = get_cf db c k"
    using assms by (auto simp: estate_of_def same_but_declared_def)
  have "view_of S analyze fs (get_cf db') D = view_of S analyze fs (get_cf db) D" by (rule view_of_cong) (simp add: g)
  moreover have "get_u64 db' META_DOC_COUNT = get_u64 db META_DOC_COUNT"
    using g [of CfMeta META_DOC_COUNT] by (simp add: get_u64_def meta_key_defs)
  ultimately show ?thesis using assms(1) indexed_fields_same [OF assms(2) ok(1)] ok g
    by (simp add: estate_of_def)
qed

lemma key_deltas_df:
  assumes "distinct (map fst df)"
  shows "key_deltas (df_ops True df) c t = (if c = CfTdf \<and> df_value df t \<noteq> 0 then [df_value df t] else [])"
  using assms
proof (induction df)
  case (Cons x df)
  obtain t' d where x: "x = (t', d)" by (cases x)
  have "map_of df t' = None" using Cons.prems by (simp add: x map_of_eq_None_iff)
  with Cons show ?case by (auto simp: x key_deltas_def df_ops_def df_value_def)
qed (simp add: key_deltas_def df_ops_def df_value_def)

lemma key_deltas_append [simp]: "key_deltas (a @ b) c k = key_deltas a c k @ key_deltas b c k"
  by (simp add: key_deltas_def)

lemma df_ops_inert: "op_effect c k x old = old" if "x \<in> set (df_ops stats df)"
  using that by (auto simp: df_ops_def op_effect_def split: if_splits)

lemma fold_inert: "(\<And>x old. x \<in> set b \<Longrightarrow> f x old = old) \<Longrightarrow> fold f b old = old"
  by (induction b) auto

text \<open>The batches of the write path: puts and deletes outside the counters, merges of counters.\<close>

fun batch_op :: "op \<Rightarrow> bool" where
  "batch_op (OpPut c k v) = (c \<noteq> CfMeta \<and> c \<noteq> CfTdf)"
| "batch_op (OpDelete c k) = (c \<noteq> CfMeta \<and> c \<noteq> CfTdf)"
| "batch_op (OpMergeDf c k d) = (c = CfTdf)"

lemma batch_op_deltas: "list_all batch_op b \<Longrightarrow> c \<noteq> CfTdf \<Longrightarrow> key_deltas b c k = []"
  by (induction b) (auto simp: key_deltas_def elim: batch_op.elims)

lemma batch_op_inert:
  assumes "list_all batch_op b" "c = CfMeta \<or> c = CfTdf"
  shows "fold (op_effect c k) b old = old"
proof (rule fold_inert)
  fix x old assume "x \<in> set b"
  with assms(1) have "batch_op x" by (simp add: list_all_iff)
  with assms(2) show "op_effect c k x old = old" by (cases x) (auto simp: op_effect_def)
qed

lemma commit_get:
  fixes S :: serde and tx :: transaction and db :: db
  assumes ok: "db_ok db" and b: "list_all batch_op (tx_batch tx)" and dirty: "tx_dirty tx"
  defines "db' \<equiv> db_write db (tx_batch tx @ counter_ops S tx)"
  shows "db_ok db'" and "c \<noteq> CfMeta \<Longrightarrow> c \<noteq> CfTdf \<Longrightarrow> get_cf db' c k = apply_view (tx_batch tx) (get_cf db) c k"
    and "counter_of (get_cf db' CfTdf k) = counter_of (get_cf db CfTdf k) + sum_list (key_deltas (tx_batch tx) CfTdf k)"
    and "get_u64 db' META_DOC_COUNT = tx_doc_count tx"
    and "get_cf db' CfMeta META_PIDX = get_cf db CfMeta META_PIDX"
    and "get_u64 db' META_FEED_SEQ = tx_feed_seq tx"
    and "get_cf db' CfMeta META_SHAPES = Some (js_shapes S (tx_shapes tx))"
    and "k \<notin> {META_DOC_COUNT, META_TOTAL_TOKENS, META_SHAPES, META_FEED_SEQ} \<Longrightarrow> get_cf db' CfMeta k = get_cf db CfMeta k"
    and "get_u64 db' META_TOTAL_TOKENS = tx_total_tokens tx"
proof -
  let ?all = "tx_batch tx @ counter_ops S tx"
  have kc: "key_deltas (counter_ops S tx) c k = []" for c k by (rule key_deltas_plain) (simp add: counter_ops_def)
  have kd: "key_deltas ?all c k = (if c = CfTdf then key_deltas (tx_batch tx) c k else [])" for c k
    using batch_op_deltas [OF b] by (simp add: kc)
  have co: "fold (op_effect c k) (counter_ops S tx) x = fold (op_effect c k) (on_cf c (counter_ops S tx)) x" for c k x
    using apply_view_on_cf [of "counter_ops S tx" "\<lambda>_ _. x" c k] by (simp add: apply_view_def)
  show "db_ok db'" unfolding db'_def using ok by simp
  have get: "get_cf db' c k = (if c = CfTdf \<and> key_deltas (tx_batch tx) c k \<noteq> []
      then Some (i64_le (counter_of (get_cf db c k) + sum_list (key_deltas (tx_batch tx) c k)))
      else fold (op_effect c k) (on_cf c (counter_ops S tx)) (fold (op_effect c k) (tx_batch tx) (get_cf db c k)))" for c k
  proof -
    have "get_cf db' c k = (if key_deltas ?all c k = [] then batch_effect ?all c k (get_cf db c k)
      else Some (i64_le (counter_of (get_cf db c k) + sum_list (key_deltas ?all c k))))"
      unfolding db'_def using db_write_get [OF ok] by blast
    then show ?thesis unfolding kd by (auto simp: batch_effect_def co)
  qed
  show "get_cf db' c k = apply_view (tx_batch tx) (get_cf db) c k" if "c \<noteq> CfMeta" "c \<noteq> CfTdf"
    using that by (simp add: get apply_view_def counter_ops_def)
  show "counter_of (get_cf db' CfTdf k) = counter_of (get_cf db CfTdf k) + sum_list (key_deltas (tx_batch tx) CfTdf k)"
    unfolding get using batch_op_inert [OF b] by (simp add: counter_ops_def) (simp add: counter_of_def)
  show "get_u64 db' META_DOC_COUNT = tx_doc_count tx"
    using dirty by (simp add: get get_u64_def counter_ops_def op_effect_def meta_key_defs)
  show "get_u64 db' META_TOTAL_TOKENS = tx_total_tokens tx"
    using dirty by (simp add: get get_u64_def counter_ops_def op_effect_def meta_key_defs)
  show "get_cf db' CfMeta META_PIDX = get_cf db CfMeta META_PIDX"
    using dirty batch_op_inert [OF b] by (simp add: get counter_ops_def op_effect_def meta_key_defs)
  show "get_u64 db' META_FEED_SEQ = tx_feed_seq tx"
    using dirty by (simp add: get get_u64_def counter_ops_def op_effect_def meta_key_defs)
  show "get_cf db' CfMeta META_SHAPES = Some (js_shapes S (tx_shapes tx))"
    using dirty by (simp add: get counter_ops_def op_effect_def meta_key_defs)
  show "get_cf db' CfMeta k = get_cf db CfMeta k" if "k \<notin> {META_DOC_COUNT, META_TOTAL_TOKENS, META_SHAPES, META_FEED_SEQ}"
  proof -
    have "k \<noteq> META_DOC_COUNT" "k \<noteq> META_TOTAL_TOKENS" "k \<noteq> META_SHAPES" "k \<noteq> META_FEED_SEQ" using that by auto
    then show ?thesis using batch_op_inert [OF b] by (auto simp: get counter_ops_def op_effect_def)
  qed
qed

lemma batch_op_plain:
  assumes "list_all plain_op b" "on_cf CfMeta b = []" "on_cf CfTdf b = []"
  shows "list_all batch_op b"
proof -
  have "batch_op x" if "x \<in> set b" for x
  proof -
    have "plain_op x" "op_cf x \<noteq> CfMeta" "op_cf x \<noteq> CfTdf"
      using assms that by (auto simp: on_cf_def filter_empty_conv list_all_iff)
    then show ?thesis by (cases x) simp_all
  qed
  then show ?thesis by (simp add: list_all_iff)
qed

lemma df_ops_batch: "list_all batch_op (df_ops stats df)"
  by (auto simp: df_ops_def list_all_iff)

lemma apply_df_ops: "apply_view (df_ops stats df) v = v"
  by (simp add: apply_view_def fold_inert df_ops_inert fun_eq_iff)

text \<open>The estate after a commit, from the view of the batch and the two counters.\<close>

lemma estate_commit:
  assumes est: "estate_of S analyze fs db D" and b: "list_all batch_op (tx_batch tx)" "tx_dirty tx"
    and v: "view_of S analyze fs (apply_view (tx_batch tx) (get_cf db)) D'" and fin: "finite (dom D')"
    and count: "unat (tx_doc_count tx) = card (dom D')"
    and df: "\<And>t. sum_list (key_deltas (tx_batch tx) CfTdf t) = of_nat (doc_freq analyze D' t) - of_nat (doc_freq analyze D t)"
  shows "estate_of S analyze fs (fst (tx_commit S tx (db, p))) D'"
proof -
  note e = est [unfolded estate_of_def]
  have ok: "db_ok db" using e by blast
  note c = commit_get [OF ok b, where S = S]
  let ?db = "db_write db (tx_batch tx @ counter_ops S tx)"
  have "view_of S analyze fs (get_cf ?db) D' = view_of S analyze fs (apply_view (tx_batch tx) (get_cf db)) D'"
    by (rule view_of_cong) (rule c(2))
  moreover have "indexed_fields S ?db = indexed_fields S db"
    using c(5) by (simp add: indexed_fields_def get_json_def)
  ultimately show ?thesis using e v fin count c(1,3,4) df by (simp add: estate_of_def tx_commit_def)
qed

lemma tx_begin_sel:
  assumes "tx_begin S db = Inr tx"
  shows "tx_batch tx = []" "tx_doc_count tx = get_u64 db META_DOC_COUNT" "tx_graph tx = []" "\<not> tx_dirty tx"
    "tx_feed_seq tx = get_u64 db META_FEED_SEQ" "tx_total_tokens tx = get_u64 db META_TOTAL_TOKENS"
    "\<exists>s. get_json (js_shapes_of S) db CfMeta META_SHAPES = Inr s \<and> tx_shapes tx = (case s of None \<Rightarrow> [] | Some m \<Rightarrow> m)"
  using assms by (auto simp: tx_begin_def bind_result_Inr_iff)

lemma run_upsert:
  assumes "run_transaction S analyze now stats [WUpsert rs] (db, p) = Some ((db', p'), None)"
  obtains tx0 dbm tx where "tx_begin S db = Inr tx0" "upsert_into S analyze now stats rs db tx0 = Some (dbm, Inr tx)"
    "(db', p') = tx_commit S tx (dbm, p)"
  using assms by (auto simp: run_transaction_def apply_write_def split: sum.splits option.splits prod.splits)

lemma run_upsert_estate:
  assumes "estate_of S analyze fs db D"
    "run_transaction S analyze now True [WUpsert rs] (db, p) = Some ((db', p'), None)"
    "distinct (map vr_id rs)"
    "\<forall>r \<in> set rs. SEP \<notin> set (vr_id r) \<and> js_doc_of S (js_doc S (stored_of analyze r)) = Some (stored_of analyze r)"
    "card (dom D) + length rs < 2 ^ 64"
  shows "estate_of S analyze fs db' (add_docs analyze rs D) \<and>
    p' = fold (\<lambda>r. push_op (vr_id r) (Some (vr_embedding r))) rs p"
proof -
  obtain tx0 dbm tx where tx0: "tx_begin S db = Inr tx0"
    and u: "upsert_into S analyze now True rs db tx0 = Some (dbm, Inr tx)" and c: "(db', p') = tx_commit S tx (dbm, p)"
    by (rule run_upsert [OF assms(2)])
  have ok: "db_ok db" using assms(1) by (simp add: estate_of_def)
  from upsert_into_result [OF u] ok obtain fs' tx1 df where same: "same_but_declared db dbm"
    and fs': "indexed_fields S db = Inr fs'" and tx: "tx = add_ops (df_ops True df) tx1"
    and ups: "upsert_records S analyze now fs' dbm rs (touch_counters tx0, []) = Inr (tx1, df)" by blast
  have fs: "fs' = fs" using fs' assms(1) by (simp add: estate_of_def)
  have est: "estate_of S analyze fs dbm D" by (rule estate_same [OF assms(1) same])
  have docs: "docs_of S (get_cf dbm) D" using est by (simp add: estate_of_def view_of_def)
  have "get_u64 dbm META_DOC_COUNT = get_u64 db META_DOC_COUNT"
    using same ok by (simp add: same_but_declared_def get_u64_def meta_key_defs)
  then have "loop_inv S analyze fs dbm D D (touch_counters tx0) []"
    using est tx_begin_sel [OF tx0] by (simp add: loop_inv_def estate_of_def df_value_def)
  from upsert_records_inv [OF this ups [unfolded fs] docs _ assms(3,4,5)]
  have inv: "loop_inv S analyze fs dbm D (add_docs analyze rs D) tx1 df"
    and g: "tx_graph tx1 = map (\<lambda>r. GUpsert (vr_id r) (vr_embedding r)) rs" and dirty: "tx_dirty tx1"
    using tx_begin_sel [OF tx0] by simp_all
  note i = inv [unfolded loop_inv_def]
  have b1: "list_all batch_op (tx_batch tx1)" by (rule batch_op_plain) (use i in auto)
  have "key_deltas (tx_batch tx1) CfTdf t = []" for t by (rule key_deltas_plain) (use i in auto)
  moreover have "distinct (map fst df)" using i by blast
  ultimately have kd: "sum_list (key_deltas (tx_batch tx) CfTdf t) = df_value df t" for t
    by (simp add: tx key_deltas_df)
  have "estate_of S analyze fs (fst (tx_commit S tx (dbm, p))) (add_docs analyze rs D)"
    by (rule estate_commit [OF est]) (use i dirty b1 df_ops_batch kd in \<open>simp_all add: tx apply_df_ops list_all_append\<close>)
  moreover have "p' = fold push_pending (map (\<lambda>r. GUpsert (vr_id r) (vr_embedding r)) rs) p"
    using c g by (simp add: tx_commit_def tx)
  moreover have "fold push_pending (map (\<lambda>r. GUpsert (vr_id r) (vr_embedding r)) rs) p =
    fold (\<lambda>r. push_op (vr_id r) (Some (vr_embedding r))) rs p"
    by (simp add: fold_map push_pending_def [abs_def] o_def)
  ultimately show ?thesis using c by (simp add: tx_commit_def)
qed

section \<open>Removals\<close>

lemma remove_terms_cf:
  "on_cf c (remove_term_ops stats i old ts) =
     (if c = CfTerms then map (\<lambda>t. OpDelete CfTerms (term_key t i)) ts
      else if c = CfTdf then on_cf CfTdf (remove_term_ops stats i old ts) else [])"
  by (induction stats i old ts rule: remove_term_ops.induct) auto

lemma remove_terms_batch: "list_all batch_op (remove_term_ops stats i old ts)"
  by (induction stats i old ts rule: remove_term_ops.induct) auto

lemma key_deltas_cons:
  "key_deltas [] c k = []"
  "key_deltas (x # b) c k = (case x of OpMergeDf c' k' d \<Rightarrow> if c' = c \<and> k' = k then [d] else [] | _ \<Rightarrow> []) @ key_deltas b c k"
  by (simp_all add: key_deltas_def)

lemma remove_terms_deltas:
  "key_deltas (remove_term_ops True i old ts) CfTdf t = (if t \<in> set ts - set old then [- 1] else [])"
  by (induction ts arbitrary: old) (auto simp: key_deltas_cons)

lemma remove_ops_alt:
  "remove_ops S analyze stats fs i old =
     remove_term_ops stats i [] (analyze (sd_text old)) @
     map (OpDelete CfPidx) (pidx_keys (js_value S) fs (sd_metadata old) i) @
     map (\<lambda>d. OpDelete CfSparse (sparse_key d i)) (sd_sparse_dims old) @
     map (\<lambda>sp. OpDelete CfNvecs (nvec_key sp i)) (sd_named_spaces old) @
     (if 0 < sd_multi_len old then [OpDelete CfMvecs i] else []) @
     map (\<lambda>c. OpDelete CfColl (coll_key c i)) (case sd_collection old of None \<Rightarrow> [] | Some c \<Rightarrow> [c]) @
     [OpDelete CfDocs i, OpDelete CfVecs i]"
  unfolding remove_ops_def pidx_ops_def [symmetric] pidx_ops_map Let_def by (simp split: option.split)

lemma remove_family_ops:
  fixes S analyze now fs i old seq stats
  defines "b \<equiv> remove_ops S analyze stats fs i old @ [feed_op S now ChRemove i seq]"
  shows "on_cf CfTerms b = map (\<lambda>t. OpDelete CfTerms (term_key t i)) (analyze (sd_text old))"
    and "on_cf CfSparse b = map (\<lambda>n. OpDelete CfSparse (sparse_key n i)) (sd_sparse_dims old)"
    and "on_cf CfNvecs b = map (\<lambda>n. OpDelete CfNvecs (nvec_key n i)) (sd_named_spaces old)"
    and "on_cf CfColl b = map (\<lambda>c. OpDelete CfColl (coll_key c i)) (case sd_collection old of None \<Rightarrow> [] | Some c \<Rightarrow> [c])"
    and "on_cf CfPidx b = map (\<lambda>k. OpDelete CfPidx k) (pidx_keys (js_value S) fs (sd_metadata old) i)"
    and "on_cf CfDocs b = [OpDelete CfDocs i]"
    and "on_cf CfVecs b = [OpDelete CfVecs i]"
    and "on_cf CfMvecs b = (if 0 < sd_multi_len old then [OpDelete CfMvecs i] else [])"
    and "c \<in> {CfNodes, CfConns, CfTags, CfTrends, CfRels, CfGraph} \<Longrightarrow> on_cf c b = []"
  unfolding b_def remove_ops_alt by ((elim insertE emptyE)?; simp add: remove_terms_cf)+

lemma remove_batch: "list_all batch_op (remove_ops S analyze stats fs i old @ [feed_op S now ChRemove i seq])"
proof -
  have "list_all batch_op (map (\<lambda>x. OpDelete c (f x)) xs)" if "c \<noteq> CfMeta" "c \<noteq> CfTdf" for c f and xs :: "'x list"
    using that by (simp add: list_all_iff)
  then show ?thesis unfolding remove_ops_alt
    using remove_terms_batch [of stats i "[]" "analyze (sd_text old)"] by (auto simp: feed_op_def list_all_iff)
qed

lemma family_gone:
  assumes "D i = Some old" "on_cf c b = map (\<lambda>x. OpDelete c (kd x)) (g old)"
  shows "apply_view b v c k \<noteq> None \<longleftrightarrow>
    k \<in> kp ` set [] \<or> (v c k \<noteq> None \<and> k \<notin> kd ` set (old_list (D i) g))"
  by (simp only: apply_view_on_cf assms fold_deletes old_list_def) simp

lemma view_remove:
  assumes v: "view_of S analyze fs v D" and old: "D i = Some old"
  shows "view_of S analyze fs (apply_view (remove_ops S analyze stats fs i old @ [feed_op S now ChRemove i seq]) v) (D(i := None))"
    (is "view_of _ _ _ ?v ?D")
proof -
  note f = v [unfolded view_of_def]
  have ic: "ids_clean D" and clean: "SEP \<notin> set i" using f old by (auto simp: ids_clean_def)
  note gone = remove_family_ops [where S = S and analyze = analyze and now = now and fs = fs and i = i and old = old
      and seq = seq and stats = stats]
  have docs: "docs_of S ?v ?D"
    using f by (auto simp only: docs_of_def apply_view_on_cf remove_family_ops(6)) (auto simp: op_effect_def)
  have "family_of (term_rows analyze) (?v CfTerms) ?D"
    by (rule family_step [OF _ rows_end(1) ic clean family_gone [where D = D and i = i and old = old and g = "\<lambda>d. analyze (sd_text d)", OF old gone(1)]])
      (use f in \<open>simp_all add: term_rows_def\<close>)
  moreover have "family_of sparse_rows (?v CfSparse) ?D"
    by (rule family_step [OF _ rows_end(2) ic clean family_gone [where D = D and i = i and old = old and g = "sd_sparse_dims", OF old gone(2)]])
      (use f in \<open>simp_all add: sparse_rows_def\<close>)
  moreover have "family_of nvec_rows (?v CfNvecs) ?D"
    by (rule family_step [OF _ rows_end(3) ic clean family_gone [where D = D and i = i and old = old and g = "sd_named_spaces", OF old gone(3)]])
      (use f in \<open>simp_all add: nvec_rows_def\<close>)
  moreover have "family_of coll_rows (?v CfColl) ?D"
    by (rule family_step [OF _ rows_end(4) ic clean family_gone [where D = D and i = i and old = old and g = "\<lambda>d. case sd_collection d of None \<Rightarrow> [] | Some c \<Rightarrow> [c]", OF old gone(4)]])
      (use f in \<open>simp_all add: coll_rows_def set_opt_list\<close>)
  moreover have "family_of (pidx_rows (js_value S) fs) (?v CfPidx) ?D"
    by (rule family_step [OF _ rows_end(5) ic clean family_gone [where D = D and i = i and old = old and g = "\<lambda>d. pidx_keys (js_value S) fs (sd_metadata d) i", OF old gone(5)]])
      (use f in \<open>simp_all add: set_pidx_keys\<close>)
  moreover have "ids_clean ?D" using ic by (auto simp: ids_clean_def)
  ultimately show ?thesis using docs by (simp add: view_of_def)
qed

lemma run_remove:
  assumes "run_transaction S analyze now stats [WRemove i] (db, p) = Some ((db', p'), None)"
  obtains tx0 tx where "tx_begin S db = Inr tx0" "remove_into S analyze now stats i db tx0 = Inr tx"
    "(db', p') = tx_commit S tx (db, p)"
  using assms by (auto simp: run_transaction_def apply_write_def split: sum.splits option.splits prod.splits)

lemma run_remove_none:
  assumes "estate_of S analyze fs db D" "D i = None"
    "run_transaction S analyze now stats [WRemove i] (db, p) = Some ((db', p'), None)"
  shows "db' = db \<and> p' = p"
proof -
  obtain tx0 tx where tx0: "tx_begin S db = Inr tx0" and r: "remove_into S analyze now stats i db tx0 = Inr tx"
    and c: "(db', p') = tx_commit S tx (db, p)" by (rule run_remove [OF assms(3)])
  have docs: "docs_of S (get_cf db) D" using assms(1) by (simp add: estate_of_def view_of_def)
  have "tx = tx0" using r assms(2) by (simp add: remove_into_def get_json_doc [OF docs])
  then show ?thesis using c tx_begin_sel [OF tx0] by (simp add: tx_commit_def counter_ops_def db_write_def df_deltas_def)
qed

lemma run_remove_some:
  assumes "estate_of S analyze fs db D" "D i = Some old"
    "run_transaction S analyze now stats [WRemove i] (db, p) = Some ((db', p'), None)"
  obtains tx where "(db', p') = tx_commit S tx (db, p)"
    "tx_batch tx = remove_ops S analyze stats fs i old @ [feed_op S now ChRemove i (get_u64 db META_FEED_SEQ)]"
    "tx_dirty tx" "tx_graph tx = [GRemove i]" "tx_doc_count tx = sat_sub (get_u64 db META_DOC_COUNT) 1"
    "tx_feed_seq tx = get_u64 db META_FEED_SEQ + 1"
    "tx_total_tokens tx = sat_sub (get_u64 db META_TOTAL_TOKENS) (ucast (sd_token_len old))"
    "\<exists>s. get_json (js_shapes_of S) db CfMeta META_SHAPES = Inr s \<and>
       tx_shapes tx = census_out (shape_key (sd_shape old)) (case s of None \<Rightarrow> [] | Some m \<Rightarrow> m)"
proof -
  obtain tx0 tx where tx0: "tx_begin S db = Inr tx0" and r: "remove_into S analyze now stats i db tx0 = Inr tx"
    and c: "(db', p') = tx_commit S tx (db, p)" by (rule run_remove [OF assms(3)])
  have docs: "docs_of S (get_cf db) D" and fs: "indexed_fields S db = Inr fs" using assms(1) by (simp_all add: estate_of_def view_of_def)
  show ?thesis
    by (rule that [OF c]) (use r assms(2) fs tx_begin_sel [OF tx0] in \<open>auto simp: remove_into_def get_json_doc [OF docs] Let_def\<close>)
qed

lemma run_remove_estate:
  assumes est: "estate_of S analyze fs db D"
    and run: "run_transaction S analyze now True [WRemove i] (db, p) = Some ((db', p'), None)"
  shows "estate_of S analyze fs db' (D(i := None)) \<and> p' = (if D i = None then p else push_remove i p)"
proof (cases "D i")
  case None
  then show ?thesis using run_remove_none [OF est None run] est by (simp add: fun_upd_idem)
next
  case (Some old)
  note e = est [unfolded estate_of_def]
  let ?seq = "get_u64 db META_FEED_SEQ"
  obtain tx where c: "(db', p') = tx_commit S tx (db, p)"
    and b: "tx_batch tx = remove_ops S analyze True fs i old @ [feed_op S now ChRemove i ?seq]" "tx_dirty tx"
      "tx_graph tx = [GRemove i]" "tx_doc_count tx = sat_sub (get_u64 db META_DOC_COUNT) 1"
    by (rule run_remove_some [OF est Some run])
  have card: "0 < card (dom D)" "card (dom (D(i := None))) = card (dom D) - 1"
    using e Some by (auto simp: card_gt_0_iff card_Diff_singleton domIff)
  have kd: "sum_list (key_deltas (tx_batch tx) CfTdf t) = (if t \<in> set (analyze (sd_text old)) then - 1 else 0)" for t
    unfolding b(1) remove_ops_alt
    by (simp add: remove_terms_deltas key_deltas_plain list_all_iff feed_op_def)
  have "estate_of S analyze fs (fst (tx_commit S tx (db, p))) (D(i := None))"
  proof (rule estate_commit [OF est])
    show "list_all batch_op (tx_batch tx)" unfolding b(1) by (rule remove_batch)
    show "view_of S analyze fs (apply_view (tx_batch tx) (get_cf db)) (D(i := None))"
      unfolding b(1) by (rule view_remove) (use e Some in blast)+
    show "finite (dom (D(i := None)))" using e by simp
    show "unat (tx_doc_count tx) = card (dom (D(i := None)))"
      using e card by (simp add: b sat_sub_def word_le_nat_alt unat_sub)
    show "sum_list (key_deltas (tx_batch tx) CfTdf t) = of_nat (doc_freq analyze (D(i := None)) t) - of_nat (doc_freq analyze D t)" for t
      using e Some doc_freq_update [of D analyze i None t] by (simp add: kd)
  qed (rule b(2))
  then show ?thesis using c b(3) Some by (simp add: tx_commit_def push_pending_def)
qed

end
