(* ===== verification/StoreRuns.thy ===== *)
theory StoreRuns
  imports StoreProps
begin

text \<open>
  Runs of the write path: a sample estate on which the refinement theorems apply, what a failed
  transaction leaves, the document quota, and what statements of one transaction do not see of
  each other.
\<close>

section \<open>A sample estate\<close>

definition sample_record :: vector_record where
  "sample_record = (vector_record_new ''a'' [1, 2] ''cat dog'')\<lparr>vr_metadata := [(''tag'', JBool True)], vr_collection := Some ''pets''\<rparr>"

definition sample_words :: "bytes \<Rightarrow> bytes list" where
  "sample_words t = (if t = [] then [] else [''cat'', ''dog'', ''cat''])"

definition sample_serde :: serde where
  "sample_serde =
     \<lparr>js_doc = \<lambda>_. ''d'', js_doc_of = \<lambda>_. Some (stored_of sample_words sample_record),
      js_change = \<lambda>_. ''c'', js_change_of = \<lambda>_. None, js_shapes = \<lambda>_. ''s'', js_shapes_of = \<lambda>_. Some [],
      js_names = \<lambda>_. ''n'', js_names_of = \<lambda>_. Some [''tag''], js_pairs = \<lambda>_. ''p'', js_pairs_of = \<lambda>_. None,
      js_info = \<lambda>_. ''i'', js_info_of = \<lambda>_. Some \<lparr>ei_id = ''e'', ei_name = ''e'', ei_created_at = 0, ei_dim = None, ei_named_dims = []\<rparr>,
      js_schema = \<lambda>_. ''h'', js_schema_of = \<lambda>_. Some [], js_node = \<lambda>_. ''o'', js_node_of = \<lambda>_. None,
      js_conn = \<lambda>_. ''k'', js_conn_of = \<lambda>_. None, js_value = \<lambda>_. ''v''\<rparr>"

text \<open>A new estate with one declared payload index.\<close>

definition sample_db :: db where
  "sample_db = put_cf (put_cf (\<lambda>_. []) CfMeta META_ESTATE ''i'') CfMeta META_PIDX ''n''"

lemma sample_get: "db_ok sample_db"
  "get_cf sample_db c k = (if c = CfMeta \<and> k = META_PIDX then Some ''n'' else if c = CfMeta \<and> k = META_ESTATE then Some ''i'' else None)"
proof -
  have e: "db_ok (\<lambda>_. [])" "get_cf (\<lambda>_. []) c k = None" by (simp_all add: db_ok_def rows_ok_def get_cf_def row_get_def)
  show "db_ok sample_db" by (simp add: sample_db_def e)
  show "get_cf sample_db c k = (if c = CfMeta \<and> k = META_PIDX then Some ''n'' else if c = CfMeta \<and> k = META_ESTATE then Some ''i'' else None)"
    by (simp add: sample_db_def e)
qed

lemma sample_estate: "estate_of sample_serde sample_words [''tag''] sample_db Map.empty"
  by (simp add: estate_of_def sample_get view_of_def docs_of_def ids_clean_def family_of_def get_u64_def meta_key_defs
      indexed_fields_def get_json_def sample_serde_def counter_of_def doc_freq_def)

lemmas sample_unfold =
  run_transaction_def tx_begin_def sample_get get_json_def meta_key_defs apply_write_def upsert_into_def sample_serde_def
  sample_record_def vector_record_new_def check_dims_def put_json_def upsert_checked_def indexed_fields_def
  upsert_record_def key_too_long_def max_key_len_def pidx_key_def encode_pidx_value_def

lemma sample_run:
  "\<exists>db' p'. run_transaction sample_serde sample_words 7 True [WUpsert [sample_record]] (sample_db, pending_new) = Some ((db', p'), None)"
  by (simp add: sample_unfold) (simp add: sample_unfold Let_def)

lemma sample_js: "js_doc_of sample_serde (js_doc sample_serde (stored_of sample_words sample_record)) =
    Some (stored_of sample_words sample_record)"
  by (simp add: sample_serde_def)

lemma sample_records: "\<forall>r \<in> set [sample_record]. SEP \<notin> set (vr_id r) \<and>
    js_doc_of sample_serde (js_doc sample_serde (stored_of sample_words r)) = Some (stored_of sample_words r)"
  by (simp add: sample_js) (simp add: sample_record_def vector_record_new_def SEP_def)

text \<open>On the sample, a removal always succeeds.\<close>

lemma sample_remove:
  "\<exists>st'. run_transaction sample_serde sample_words now True [WRemove i] st = Some (st', None)"
proof -
  have js: "js_shapes_of sample_serde x \<noteq> None" "js_doc_of sample_serde x \<noteq> None" "js_names_of sample_serde x \<noteq> None" for x
    by (simp_all add: sample_serde_def)
  have g: "\<exists>y. get_json f db c k = Inr y" if "\<And>x. f x \<noteq> None" for f :: "bytes \<Rightarrow> 'z option" and db c k
  proof (cases "get_cf db c k")
    case (Some x)
    then show ?thesis using that [of x] by (cases "f x") (simp_all add: get_json_def)
  qed (simp add: get_json_def)
  obtain a where a: "get_json (js_shapes_of sample_serde) (fst st) CfMeta META_SHAPES = Inr a" using g js by blast
  obtain b where b: "get_json (js_doc_of sample_serde) (fst st) CfDocs i = Inr b" using g js by blast
  obtain c where c: "get_json (js_names_of sample_serde) (fst st) CfMeta META_PIDX = Inr c" using g js by blast
  show ?thesis
    by (cases b) (simp_all add: run_transaction_def tx_begin_def a b c apply_write_def remove_into_def indexed_fields_def Let_def)
qed

lemma sample_after:
  "\<exists>db. estate_of sample_serde sample_words [''tag''] db (add_docs sample_words [sample_record] Map.empty)"
proof -
  obtain db' p' where run: "run_transaction sample_serde sample_words 7 True [WUpsert [sample_record]] (sample_db, pending_new) = Some ((db', p'), None)"
    using sample_run by blast
  from run_upsert_estate [OF sample_estate run _ sample_records] show ?thesis by auto
qed

section \<open>Failed transactions\<close>

lemma apply_writes_same:
  "apply_writes S analyze now stats ws db tx = Some (db', res) \<Longrightarrow> same_but_declared db db'"
proof (induction ws arbitrary: db tx)
  case (Cons w ws)
  obtain db1 r where w: "apply_write S analyze now stats w db tx = Some (db1, r)"
    using Cons.prems by (auto split: option.splits)
  have s: "same_but_declared db db1"
    using w upsert_into_result by (cases w) (fastforce simp: apply_write_def)+
  show ?case
  proof (cases r)
    case (Inl e)
    then show ?thesis using Cons.prems w s by simp
  next
    case (Inr tx1)
    then show ?thesis using Cons.prems w Cons.IH [of db1 tx1] same_trans [OF s] by simp
  qed
qed simp

lemma run_failed_same:
  assumes "run_transaction S analyze now stats ws (db, p) = Some ((db', p'), Some e)"
  shows "p' = p \<and> same_but_declared db db'"
  using assms apply_writes_same
  by (fastforce simp: run_transaction_def split: if_splits sum.splits option.splits prod.splits)

text \<open>C18: a transaction with a failing statement leaves nothing but declarations: every row of every
  family except the estate blob and the collection registry is what it was, so the documents,
  indexes and counters are, and no graph operation is queued.\<close>

theorem failed_transaction_rolls_back:
  assumes "run_transaction S analyze now stats ws (db, p) = Some ((db', p'), Some e)" "db_ok db"
  shows "p' = p \<and> db_ok db' \<and>
    (\<forall>c k. c \<noteq> CfMeta \<or> k \<notin> {META_ESTATE, META_COLLECTIONS} \<longrightarrow> get_cf db' c k = get_cf db c k) \<and>
    (\<forall>fs D. estate_of S analyze fs db D \<longrightarrow> estate_of S analyze fs db' D)"
proof -
  have "p' = p \<and> same_but_declared db db'" by (rule run_failed_same [OF assms(1)])
  then show ?thesis using assms(2) estate_same by (auto simp: same_but_declared_def)
qed

text \<open>The second record has the wrong dimension; the dimension of the first stays declared.\<close>

theorem failed_transaction_rolls_back_witness:
  "\<exists>db' p'. run_transaction sample_serde sample_words 7 True [WUpsert [sample_record, sample_record\<lparr>vr_embedding := []\<rparr>]]
       (sample_db, pending_new) = Some ((db', p'), Some (DimMismatch 2 0)) \<and>
     p' = pending_new \<and> estate_of sample_serde sample_words [''tag''] db' Map.empty"
proof -
  have "\<exists>db' p'. run_transaction sample_serde sample_words 7 True [WUpsert [sample_record, sample_record\<lparr>vr_embedding := []\<rparr>]]
       (sample_db, pending_new) = Some ((db', p'), Some (DimMismatch 2 0))"
    by (simp add: sample_unfold)
  then obtain db' p' where run: "run_transaction sample_serde sample_words 7 True [WUpsert [sample_record, sample_record\<lparr>vr_embedding := []\<rparr>]]
       (sample_db, pending_new) = Some ((db', p'), Some (DimMismatch 2 0))" by blast
  from failed_transaction_rolls_back [OF run sample_get(1)] run sample_estate show ?thesis by blast
qed

section \<open>The document quota\<close>

lemma card_add_docs:
  assumes "finite (dom D)"
  shows "finite (dom (add_docs analyze rs D)) \<and>
    card (dom (add_docs analyze rs D)) \<le> card (dom D) + length (filter (\<lambda>r. D (vr_id r) = None) rs)"
  using assms
proof (induction rs arbitrary: D)
  case (Cons r rs)
  let ?D = "D(vr_id r \<mapsto> stored_of analyze r)"
  have ih: "finite (dom (add_docs analyze rs ?D)) \<and> card (dom (add_docs analyze rs ?D)) \<le>
      card (dom ?D) + length (filter (\<lambda>x. ?D (vr_id x) = None) rs)" by (rule Cons.IH) (use Cons.prems in \<open>simp only: dom_fun_upd option.simps if_False finite_insert\<close>)
  have "length (filter (\<lambda>x. ?D (vr_id x) = None) xs) \<le> length (filter (\<lambda>x. D (vr_id x) = None) xs)" for xs
    by (induction xs) auto
  moreover have "card (dom ?D) = (if D (vr_id r) = None then Suc (card (dom D)) else card (dom D))"
    using Cons.prems by (auto simp: card_insert_if domIff)
  moreover have "length (filter (\<lambda>x. D (vr_id x) = None) (r # rs)) =
      (if D (vr_id r) = None then Suc (length (filter (\<lambda>x. D (vr_id x) = None) rs)) else length (filter (\<lambda>x. D (vr_id x) = None) rs))"
    by simp
  ultimately have "card (dom (add_docs analyze rs ?D)) \<le> card (dom D) + length (filter (\<lambda>x. D (vr_id x) = None) (r # rs))"
    using ih by (smt (verit) add_Suc add_Suc_right add_le_mono1 le_trans nat_add_left_cancel_le)
  moreover have "add_docs analyze (r # rs) D = add_docs analyze rs ?D" by (simp add: add_docs_def)
  ultimately show ?case using ih by simp
qed (simp add: add_docs_def)

text \<open>C31: an accepted upsert keeps the estate within its document quota.\<close>

theorem upsert_within_quota:
  assumes "estate_of S analyze fs db D" "recall_upsert S analyze now True q rs (db, p) = Some ((db', p'), None)"
    "qt_max_docs q = Some cap" "cap < 2 ^ 64" "rs \<noteq> []" "distinct (map vr_id rs)"
    "\<forall>r \<in> set rs. SEP \<notin> set (vr_id r) \<and> js_doc_of S (js_doc S (stored_of analyze r)) = Some (stored_of analyze r)"
    "card (dom D) + length rs < 2 ^ 64"
  shows "estate_of S analyze fs db' (add_docs analyze rs D) \<and> unat (recall_len db') \<le> cap"
proof -
  have run: "run_transaction S analyze now True [WUpsert rs] (db, p) = Some ((db', p'), None)" and dq: "docs_error S q db rs = None"
    using assms(2,5) by (auto simp: recall_upsert_def split: option.splits)
  from run_upsert_estate [OF assms(1) run assms(6-8)] have est: "estate_of S analyze fs db' (add_docs analyze rs D)" by blast
  note e = assms(1) [unfolded estate_of_def]
  have docs: "docs_of S (get_cf db) D" using e by (simp add: view_of_def)
  have "is_net_new S db r \<longleftrightarrow> D (vr_id r) = None" for r
    using get_json_doc [OF docs, of "vr_id r"] by (simp add: is_net_new_def)
  then have "is_net_new S db = (\<lambda>r. D (vr_id r) = None)" by blast
  then have "card (dom D) + length (filter (\<lambda>r. D (vr_id r) = None) rs) \<le> cap"
    using dq e assms(3) by (simp add: docs_error_def Let_def split: if_splits)
  with card_add_docs [of D analyze rs] e est show ?thesis by (auto simp: estate_of_def recall_len_def)
qed

definition sample_quota :: quotas where
  "sample_quota = quotas_strict\<lparr>qt_max_docs := Some 1\<rparr>"

theorem upsert_within_quota_witness:
  "\<exists>db' p'. recall_upsert sample_serde sample_words 7 True sample_quota [sample_record] (sample_db, pending_new) = Some ((db', p'), None) \<and>
     unat (recall_len db') \<le> 1"
proof -
  obtain db' p' where run: "run_transaction sample_serde sample_words 7 True [WUpsert [sample_record]] (sample_db, pending_new) = Some ((db', p'), None)"
    using sample_run by blast
  have rec: "recall_upsert sample_serde sample_words 7 True sample_quota [sample_record] (sample_db, pending_new) = Some ((db', p'), None)"
    using run by (simp add: recall_upsert_def batch_error_def payload_error_def docs_error_def sample_quota_def quotas_strict_def
        is_net_new_def get_json_def sample_get get_u64_def meta_key_defs) (simp add: sample_serde_def)
  have "qt_max_docs sample_quota = Some 1" by (simp add: sample_quota_def)
  from upsert_within_quota [OF sample_estate rec this _ _ _ sample_records] rec show ?thesis by auto
qed

section \<open>What statements of one transaction do not see\<close>

lemma apply_view_docs: "apply_view b v CfDocs i = fold (op_effect CfDocs i) (on_cf CfDocs b) (v CfDocs i)"
  by (rule apply_view_on_cf)

text \<open>C37: a record whose id is new and occurs twice in one batch is counted twice: there is one
  document more and the document counter says two.\<close>

theorem repeated_id_counted_twice:
  assumes "estate_of S analyze fs db D" "D (vr_id r) = None" "card (dom D) + 2 < 2 ^ 64"
    "run_transaction S analyze now True [WUpsert [r, r]] (db, p) = Some ((db', p'), None)"
    "js_doc_of S (js_doc S (stored_of analyze r)) = Some (stored_of analyze r)"
  shows "docs_of S (get_cf db') (D(vr_id r \<mapsto> stored_of analyze r)) \<and>
    unat (recall_len db') = card (dom (D(vr_id r \<mapsto> stored_of analyze r))) + 1"
proof -
  obtain tx0 dbm tx where tx0: "tx_begin S db = Inr tx0"
    and u: "upsert_into S analyze now True [r, r] db tx0 = Some (dbm, Inr tx)" and c: "(db', p') = tx_commit S tx (dbm, p)"
    by (rule run_upsert [OF assms(4)])
  note e = assms(1) [unfolded estate_of_def]
  have ok: "db_ok db" using e by blast
  from upsert_into_result [OF u] ok obtain fs' tx2 df where same: "same_but_declared db dbm"
    and tx: "tx = add_ops (df_ops True df) tx2"
    and ups: "upsert_records S analyze now fs' dbm [r, r] (touch_counters tx0, []) = Inr (tx2, df)" by blast
  from ups obtain tx1 df1 where s1: "upsert_record S analyze now fs' dbm r (touch_counters tx0, []) = Inr (tx1, df1)"
    and s2: "upsert_record S analyze now fs' dbm r (tx1, df1) = Inr (tx2, df)" by (auto simp: bind_result_Inr_iff)
  have est: "estate_of S analyze fs dbm D" by (rule estate_same [OF assms(1) same])
  then have okm: "db_ok dbm" and docs: "docs_of S (get_cf dbm) D" by (simp_all add: estate_of_def view_of_def)
  note a = upsert_record_step [OF s1 docs] and b = upsert_record_step [OF s2 docs]
  note t0 = tx_begin_sel [OF tx0]
  have pl: "list_all batch_op (upsert_ops S analyze now fs' r prev seq)" for prev seq
    by (rule batch_op_plain) (rule upsert_ops_plain)+
  have batch: "list_all batch_op (tx_batch tx)" using a b t0 pl df_ops_batch by (simp add: tx)
  have dirty: "tx_dirty tx" using a b by (simp add: tx)
  have cnt: "tx_doc_count tx = get_u64 db META_DOC_COUNT + 1 + 1" using a b t0 assms(2) by (simp add: tx)
  note g = commit_get [OF okm batch dirty, where S = S]
  have db': "db' = db_write dbm (tx_batch tx @ counter_ops S tx)" using c by (simp add: tx_commit_def)
  have "unat (get_u64 db META_DOC_COUNT) = card (dom D)" using e by blast
  then have "unat (get_u64 db META_DOC_COUNT + 1) = card (dom D) + 1" using assms(3) by (simp add: unat_plus_one)
  then have "unat (get_u64 db META_DOC_COUNT + 1 + 1) = card (dom D) + 2"
    using assms(3) unat_plus_one [of "get_u64 db META_DOC_COUNT + 1"] by (simp only:)
  then have "unat (recall_len db') = card (dom D) + 2" by (simp only: db' recall_len_def g(4) cnt)
  moreover have "card (dom (D(vr_id r \<mapsto> stored_of analyze r))) = card (dom D) + 1"
    using e assms(2) by (simp add: domIff)
  moreover have "docs_of S (get_cf db') (D(vr_id r \<mapsto> stored_of analyze r))"
    unfolding docs_of_def
  proof
    fix i
    have "get_cf db' CfDocs i = apply_view (tx_batch tx) (get_cf dbm) CfDocs i" unfolding db' by (rule g(2)) simp_all
    also have "\<dots> = (if i = vr_id r then Some (js_doc S (stored_of analyze r)) else get_cf dbm CfDocs i)"
      using a b t0 by (simp add: tx apply_df_ops) (simp add: apply_view_docs upsert_family_ops(6) op_effect_def)
    finally show "map_option (js_doc_of S) (get_cf db' CfDocs i) = map_option Some ((D(vr_id r \<mapsto> stored_of analyze r)) i)"
      using docs assms(5) by (simp add: docs_of_def)
  qed
  ultimately show ?thesis by simp
qed

theorem repeated_id_counted_twice_witness:
  "\<exists>db' p'. run_transaction sample_serde sample_words 7 True [WUpsert [sample_record, sample_record]] (sample_db, pending_new) = Some ((db', p'), None) \<and>
     docs_of sample_serde (get_cf db') [''a'' \<mapsto> stored_of sample_words sample_record] \<and> unat (recall_len db') = 2"
proof -
  have "\<exists>db' p'. run_transaction sample_serde sample_words 7 True [WUpsert [sample_record, sample_record]] (sample_db, pending_new) = Some ((db', p'), None)"
    by (simp add: sample_unfold) (simp add: sample_unfold Let_def)
  then obtain db' p' where run: "run_transaction sample_serde sample_words 7 True [WUpsert [sample_record, sample_record]] (sample_db, pending_new) = Some ((db', p'), None)"
    by blast
  have "vr_id sample_record = ''a''" by (simp add: sample_record_def vector_record_new_def)
  with repeated_id_counted_twice [OF sample_estate _ _ run sample_js] run show ?thesis by auto
qed

text \<open>A removal after an upsert in the same transaction does not see the upserted document: when
  the id was new, the transaction is the upsert alone and the document stays.\<close>

lemma remove_after_upsert_ignored:
  assumes "estate_of S analyze fs db D" "D i = None"
  shows "run_transaction S analyze now stats [WUpsert rs, WRemove i] (db, p) =
    run_transaction S analyze now stats [WUpsert rs] (db, p)"
proof (cases "tx_begin S db")
  case (Inr tx0)
  show ?thesis
  proof (cases "upsert_into S analyze now stats rs db tx0")
    case (Some r)
    obtain dbm res where r: "r = (dbm, res)" by (cases r)
    have "same_but_declared db dbm" using upsert_into_result Some r by blast
    from estate_same [OF assms(1) this] have "docs_of S (get_cf dbm) D" by (simp add: estate_of_def view_of_def)
    from get_json_doc [OF this, of i] have "remove_into S analyze now stats i dbm tx = Inr tx" for tx
      by (simp add: remove_into_def assms(2))
    then show ?thesis by (cases res) (simp_all add: run_transaction_def Inr Some r apply_write_def)
  qed (simp add: run_transaction_def Inr apply_write_def)
qed (simp add: run_transaction_def)

lemma remove_after_upsert_ignored_witness:
  "\<exists>db' p'. run_transaction sample_serde sample_words 7 True [WUpsert [sample_record], WRemove ''a''] (sample_db, pending_new) = Some ((db', p'), None) \<and>
     run_transaction sample_serde sample_words 7 True [WUpsert [sample_record]] (sample_db, pending_new) = Some ((db', p'), None)"
  using sample_run remove_after_upsert_ignored [OF sample_estate, where i = "''a''" and now = 7 and stats = True and rs = "[sample_record]" and p = pending_new] by simp

end
