(* ===== verification/FilterIndex.thy ===== *)
theory FilterIndex
  imports StoreProps
begin

text \<open>
  Filters answered from the payload indexes, \<open>crates/connxism/src/filter.rs\<close>: ordered scans of the
  index rows for each condition, and the id set of a whole filter.  A \<open>HashSet\<close> of ids is a set.
  Parameters: the JSON text of values (in \<open>S\<close>), the great-circle distance \<open>hav\<close> and the bounding box
  of a radius \<open>bbox\<close> (trigonometry).
\<close>

unbundle bit_operations_syntax

section \<open>Scanning rows\<close>

text \<open>What a loop body does with a key: leave the loop, go on, or insert an id and go on.\<close>

datatype scan_step = Stop | Skip | Take bytes

fun scan_loop :: "bytes \<Rightarrow> (bytes \<Rightarrow> scan_step) \<Rightarrow> rows \<Rightarrow> bytes set" where
  "scan_loop p body [] = {}"
| "scan_loop p body ((k, v) # r) =
     (if \<not> prefix p k then {}
      else (case body k of Stop \<Rightarrow> {} | Skip \<Rightarrow> scan_loop p body r | Take i \<Rightarrow> insert i (scan_loop p body r)))"

definition scan_value :: "serde \<Rightarrow> db \<Rightarrow> bytes \<Rightarrow> json \<Rightarrow> bytes set" where
  "scan_value S db field v =
     (let p = pidx_value_prefix (js_value S) field v in
      scan_loop p (\<lambda>k. Take (from_utf8_lossy (drop (length p) k))) (iter_from db CfPidx p))"

text \<open>
  The body of the three typed scans: eight value bytes after the prefix decide whether the loop is
  done or the row is passed over, then a separator and the id.
\<close>

definition typed_body :: "bytes \<Rightarrow> (bytes \<Rightarrow> bool) \<Rightarrow> (bytes \<Rightarrow> bool) \<Rightarrow> bytes \<Rightarrow> scan_step" where
  "typed_body p past below k =
     (let n = length p in
      if length k < n + 8 then Skip
      else let b = take 8 (drop n k) in
        if past b then Stop
        else if below b then Skip
        else if length k \<le> n + 8 then Skip
        else if k ! (n + 8) \<noteq> SEP then Skip
        else Take (from_utf8_lossy (drop (n + 9) k)))"

definition or_else :: "'a option \<Rightarrow> 'a option \<Rightarrow> 'a \<Rightarrow> 'a" where
  "or_else a b d = (case a of Some x \<Rightarrow> x | None \<Rightarrow> (case b of Some x \<Rightarrow> x | None \<Rightarrow> d))"

text \<open>\<open>bound.map(|b| test).unwrap_or(false)\<close>.\<close>

definition bound_or :: "'a option \<Rightarrow> ('a \<Rightarrow> bool) \<Rightarrow> bool" where
  "bound_or b test = (case b of None \<Rightarrow> False | Some x \<Rightarrow> test x)"

definition scan_range ::
  "db \<Rightarrow> bytes \<Rightarrow> f64 option \<Rightarrow> f64 option \<Rightarrow> f64 option \<Rightarrow> f64 option \<Rightarrow> bytes set" where
  "scan_range db field gt gte lt lte =
     (let p = pidx_num_prefix field;
          start = p @ encode_f64_sortable (or_else gte gt f64_neg_infinity) in
      scan_loop p
        (typed_body p
           (\<lambda>b. let x = decode_f64_sortable b in bound_or lt (\<lambda>y. f64_le y x) \<or> bound_or lte (\<lambda>y. f64_lt y x))
           (\<lambda>b. let x = decode_f64_sortable b in bound_or gt (\<lambda>y. f64_le x y) \<or> bound_or gte (\<lambda>y. f64_lt x y)))
        (iter_from db CfPidx start))"

definition scan_dt_range ::
  "db \<Rightarrow> bytes \<Rightarrow> int option \<Rightarrow> int option \<Rightarrow> int option \<Rightarrow> int option \<Rightarrow> bytes set" where
  "scan_dt_range db field gt gte lt lte =
     (let p = pidx_dt_prefix field;
          start = p @ encode_i64_sortable (word_of_int (or_else gte gt (- (2 ^ 63)))) in
      scan_loop p
        (typed_body p
           (\<lambda>b. let x = sint (decode_i64_sortable b) in bound_or lt (\<lambda>y. y \<le> x) \<or> bound_or lte (\<lambda>y. y < x))
           (\<lambda>b. let x = sint (decode_i64_sortable b) in bound_or gt (\<lambda>y. x \<le> y) \<or> bound_or gte (\<lambda>y. x < y)))
        (iter_from db CfPidx start))"

text \<open>
  The geo scan checks every candidate against its stored metadata; a document that does not parse
  is an error, a missing one is passed over.
\<close>

fun scan_geo_loop :: "serde \<Rightarrow> haversine \<Rightarrow> db \<Rightarrow> bytes \<Rightarrow> 64 word \<Rightarrow> condition \<Rightarrow> rows \<Rightarrow> store_error + bytes set" where
  "scan_geo_loop S hav db p z_hi c [] = Inr {}"
| "scan_geo_loop S hav db p z_hi c ((k, v) # r) =
     (if \<not> prefix p k then Inr {}
      else (case typed_body p (\<lambda>b. z_hi < of_u64_be b) (\<lambda>b. False) k of
              Stop \<Rightarrow> Inr {}
            | Skip \<Rightarrow> scan_geo_loop S hav db p z_hi c r
            | Take i \<Rightarrow>
                bind_result (get_json (js_doc_of S) db CfDocs i) (\<lambda>doc.
                bind_result (scan_geo_loop S hav db p z_hi c r) (\<lambda>ids.
                  Inr (case doc of
                         None \<Rightarrow> ids
                       | Some d \<Rightarrow> if cond_matches hav c (sd_metadata d) then insert i ids else ids)))))"

definition scan_geo ::
  "serde \<Rightarrow> haversine \<Rightarrow> db \<Rightarrow> bytes \<Rightarrow> f64 \<Rightarrow> f64 \<Rightarrow> f64 \<Rightarrow> f64 \<Rightarrow> condition \<Rightarrow> store_error + bytes set" where
  "scan_geo S hav db field lat_min lon_min lat_max lon_max c =
     (let p = pidx_geo_prefix field in
      scan_geo_loop S hav db p (morton lat_max lon_max) c (iter_from db CfPidx (p @ u64_be (morton lat_min lon_min))))"

text \<open>The id after the last separator.\<close>

definition after_last_sep :: "bytes \<Rightarrow> bytes option" where
  "after_last_sep k = (if SEP \<in> set k then Some (rev (takeWhile (\<lambda>c. c \<noteq> SEP) (rev k))) else None)"

definition scan_field :: "db \<Rightarrow> bytes \<Rightarrow> bytes set" where
  "scan_field db field =
     (let p = pidx_field_prefix field in
      scan_loop p (\<lambda>k. case after_last_sep k of Some i \<Rightarrow> Take (from_utf8_lossy i) | None \<Rightarrow> Skip) (iter_from db CfPidx p))"

section \<open>Conditions and filters\<close>

definition ids_for_condition ::
  "serde \<Rightarrow> haversine \<Rightarrow> (f64 \<Rightarrow> f64 \<Rightarrow> f64 \<Rightarrow> (f64 \<times> f64) \<times> (f64 \<times> f64)) \<Rightarrow> db \<Rightarrow> condition \<Rightarrow> store_error + bytes set" where
  "ids_for_condition S hav bbox db c =
     (case c of
        CEq key v \<Rightarrow> Inr (scan_value S db key v)
      | CAny key vs \<Rightarrow> Inr (fold (\<lambda>v out. out \<union> scan_value S db key v) vs {})
      | CRange key gt gte lt lte \<Rightarrow> Inr (scan_range db key gt gte lt lte)
      | CDateRange key gt gte lt lte \<Rightarrow>
          (let ms = (\<lambda>b. Option.bind b rfc3339_to_epoch_ms) in Inr (scan_dt_range db key (ms gt) (ms gte) (ms lt) (ms lte)))
      | CGeoRadius key lat lon radius \<Rightarrow>
          (case bbox lat lon radius of ((lat_min, lon_min), (lat_max, lon_max)) \<Rightarrow>
             scan_geo S hav db key lat_min lon_min lat_max lon_max c)
      | CGeoBox key lat_min lon_min lat_max lon_max \<Rightarrow> scan_geo S hav db key lat_min lon_min lat_max lon_max c
      | CExists key \<Rightarrow> Inr (scan_field db key))"

text \<open>The \<open>must\<close> loop: intersect, and leave the function at the first empty intersection.\<close>

datatype must_result = Empty | Acc "bytes set option"

fun must_loop ::
  "(condition \<Rightarrow> store_error + bytes set) \<Rightarrow> condition list \<Rightarrow> bytes set option \<Rightarrow> store_error + must_result" where
  "must_loop ids [] acc = Inr (Acc acc)"
| "must_loop ids (c # cs) acc =
     bind_result (ids c) (\<lambda>s.
       let acc' = (case acc of None \<Rightarrow> s | Some prev \<Rightarrow> prev \<inter> s) in
       if acc' = {} then Inr Empty else must_loop ids cs (Some acc'))"

fun union_loop :: "(condition \<Rightarrow> store_error + bytes set) \<Rightarrow> condition list \<Rightarrow> bytes set \<Rightarrow> store_error + bytes set" where
  "union_loop ids [] u = Inr u"
| "union_loop ids (c # cs) u = bind_result (ids c) (\<lambda>s. union_loop ids cs (u \<union> s))"

fun minus_loop :: "(condition \<Rightarrow> store_error + bytes set) \<Rightarrow> condition list \<Rightarrow> bytes set \<Rightarrow> store_error + bytes set" where
  "minus_loop ids [] u = Inr u"
| "minus_loop ids (c # cs) u = bind_result (ids c) (\<lambda>s. minus_loop ids cs (u - s))"

definition ids_where ::
  "serde \<Rightarrow> haversine \<Rightarrow> (f64 \<Rightarrow> f64 \<Rightarrow> f64 \<Rightarrow> (f64 \<times> f64) \<times> (f64 \<times> f64)) \<Rightarrow> db \<Rightarrow> filter_dsl \<Rightarrow> store_error + bytes list option" where
  "ids_where S hav bbox db f =
     (if f_must f = [] \<and> f_should f = [] then Inr None
      else bind_result (indexed_fields S db) (\<lambda>indexed.
        if \<not> list_all (\<lambda>k. k \<in> set indexed) (filter_keys f) then Inr None
        else let ids = ids_for_condition S hav bbox db in
          bind_result (must_loop ids (f_must f) None) (\<lambda>m.
            case m of
              Empty \<Rightarrow> Inr (Some [])
            | Acc acc \<Rightarrow>
                bind_result
                  (if f_should f = [] then Inr acc
                   else bind_result (union_loop ids (f_should f) {}) (\<lambda>u.
                     Inr (Some (case acc of None \<Rightarrow> u | Some prev \<Rightarrow> prev \<inter> u)))) (\<lambda>acc'.
                bind_result (minus_loop ids (f_must_not f) (case acc' of None \<Rightarrow> {} | Some s \<Rightarrow> s)) (\<lambda>s.
                  Inr (Some (sorted_list_of_set s)))))))"

end
