(* ===== verification/Estate.thy ===== *)
theory Estate
  imports FilterIndex
begin

text \<open>
  The registries and scans of an estate, \<open>crates/connxism/src/estate.rs\<close>: nodes, connectors, tags,
  payload indexes, trends, the changefeed, collections, samples, aliases and the schema.  A function
  that may fail after its first write returns the database beside its error; the writer lock makes
  the calls sequential.  Parameters: the serializer \<open>S\<close>, the clock and the text analyzer.
\<close>

unbundle bit_operations_syntax

section \<open>Small maps\<close>

text \<open>A \<open>BTreeMap\<close> is a key-sorted association list.\<close>

fun map_insert :: "bytes \<Rightarrow> 'a \<Rightarrow> (bytes \<times> 'a) list \<Rightarrow> (bytes \<times> 'a) list" where
  "map_insert k v [] = [(k, v)]"
| "map_insert k v ((k', w) # r) =
     (if k < k' then (k, v) # (k', w) # r
      else if k = k' then (k, v) # r
      else (k', w) # map_insert k v r)"

definition map_remove :: "bytes \<Rightarrow> (bytes \<times> 'a) list \<Rightarrow> (bytes \<times> 'a) list" where
  "map_remove k m = filter (\<lambda>kv. fst kv \<noteq> k) m"

definition or_default :: "'a list option \<Rightarrow> 'a list" where
  "or_default x = (case x of None \<Rightarrow> [] | Some l \<Rightarrow> l)"

section \<open>Nodes and connectors\<close>

fun scan_json :: "(bytes \<Rightarrow> 'a option) \<Rightarrow> rows \<Rightarrow> store_error + 'a list" where
  "scan_json parse [] = Inr []"
| "scan_json parse ((k, v) # r) =
     (case parse v of
        None \<Rightarrow> Inl BadJson
      | Some x \<Rightarrow> bind_result (scan_json parse r) (\<lambda>xs. Inr (x # xs)))"

definition register_node :: "serde \<Rightarrow> epoch_ms \<Rightarrow> node_info \<Rightarrow> db \<Rightarrow> db" where
  "register_node S now node db =
     (let node' = node\<lparr>ni_last_seen := now\<rparr> in put_json (js_node S) node' CfNodes (ni_id node') db)"

definition node_of :: "serde \<Rightarrow> bytes \<Rightarrow> db \<Rightarrow> store_error + node_info option" where
  "node_of S i db = get_json (js_node_of S) db CfNodes i"

definition add_warp_point :: "serde \<Rightarrow> epoch_ms \<Rightarrow> bytes \<Rightarrow> warp_point \<Rightarrow> db \<Rightarrow> store_error + db" where
  "add_warp_point S now i warp db =
     bind_result (get_json (js_node_of S) db CfNodes i) (\<lambda>n.
       case n of
         None \<Rightarrow> Inl (NoSuch i)
       | Some node \<Rightarrow> Inr (register_node S now (node\<lparr>ni_warp_points := ni_warp_points node @ [warp]\<rparr>) db))"

definition nodes :: "serde \<Rightarrow> db \<Rightarrow> store_error + node_info list" where
  "nodes S db = scan_json (js_node_of S) (iter_all db CfNodes)"

definition register_connector :: "serde \<Rightarrow> connector_info \<Rightarrow> db \<Rightarrow> db" where
  "register_connector S conn db = put_json (js_conn S) conn CfConns (ci_id conn) db"

definition connector_of :: "serde \<Rightarrow> bytes \<Rightarrow> db \<Rightarrow> store_error + connector_info option" where
  "connector_of S i db = get_json (js_conn_of S) db CfConns i"

definition connectors :: "serde \<Rightarrow> db \<Rightarrow> store_error + connector_info list" where
  "connectors S db = scan_json (js_conn_of S) (iter_all db CfConns)"

definition update_sync :: "serde \<Rightarrow> bytes \<Rightarrow> sync_state \<Rightarrow> db \<Rightarrow> store_error + db" where
  "update_sync S i sync db =
     bind_result (get_json (js_conn_of S) db CfConns i) (\<lambda>c.
       case c of
         None \<Rightarrow> Inl (NoSuch i)
       | Some conn \<Rightarrow> Inr (register_connector S (conn\<lparr>ci_sync := sync\<rparr>) db))"

section \<open>Tags\<close>

definition tag_doc :: "bytes \<Rightarrow> bytes list \<Rightarrow> db \<Rightarrow> db" where
  "tag_doc doc_id tags db = fold (\<lambda>t db. put_cf db CfTags (tag_key t doc_id) []) tags db"

definition docs_by_tag :: "db \<Rightarrow> bytes \<Rightarrow> bytes list" where
  "docs_by_tag db tag =
     List.map_filter (\<lambda>kv. map_option (\<lambda>(_, doc). from_utf8_lossy doc) (split_compound (fst kv)))
       (scan_cf db CfTags (tag_prefix tag))"

text \<open>The heads of the keys, one for each run of equal heads.\<close>

fun heads_loop :: "bytes list \<Rightarrow> rows \<Rightarrow> bytes list" where
  "heads_loop out [] = out"
| "heads_loop out ((k, v) # r) =
     (case split_compound k of
        None \<Rightarrow> heads_loop out r
      | Some (h, _) \<Rightarrow>
          (let t = from_utf8_lossy h in
           heads_loop (if out = [] \<or> last out \<noteq> t then out @ [t] else out) r))"

definition tags :: "db \<Rightarrow> bytes list" where
  "tags db = heads_loop [] (iter_all db CfTags)"

definition tag_count :: "db \<Rightarrow> bytes \<Rightarrow> 64 word" where
  "tag_count db tag = of_nat (length (docs_by_tag db tag))"

section \<open>Payload indexes\<close>

text \<open>
  The backfill writes its batch every 4096 rows; a document that does not parse ends it with what
  was written so far.
\<close>

fun backfill :: "serde \<Rightarrow> bytes \<Rightarrow> rows \<Rightarrow> batch \<Rightarrow> 64 word \<Rightarrow> db \<Rightarrow> db \<times> (store_error + batch)" where
  "backfill S field [] b n db = (db, Inr b)"
| "backfill S field ((k, v) # r) b n db =
     (case js_doc_of S v of
        None \<Rightarrow> (db, Inl BadJson)
      | Some doc \<Rightarrow>
          (case map_of (sd_metadata doc) field of
             None \<Rightarrow> backfill S field r b n db
           | Some x \<Rightarrow>
               (let b' = b @ [OpPut CfPidx (pidx_key (js_value S) field x (sd_id doc)) []]; n' = n + 1 in
                if n' mod 4096 = 0 then backfill S field r [] n' (db_write db b')
                else backfill S field r b' n' db)))"

definition create_payload_index :: "serde \<Rightarrow> bytes \<Rightarrow> db \<Rightarrow> db \<times> store_error option" where
  "create_payload_index S field db =
     (case indexed_fields S db of
        Inl e \<Rightarrow> (db, Some e)
      | Inr fs \<Rightarrow>
          if field \<in> set fs then (db, None)
          else (let db1 = put_json (js_names S) (fs @ [field]) CfMeta META_PIDX db in
                case backfill S field (iter_all db1 CfDocs) [] 0 db1 of
                  (db2, Inl e) \<Rightarrow> (db2, Some e)
                | (db2, Inr b) \<Rightarrow> (db_write db2 b, None)))"

definition payload_indexes :: "serde \<Rightarrow> db \<Rightarrow> store_error + bytes list" where
  "payload_indexes S db = indexed_fields S db"

fun index_rows_of :: "serde \<Rightarrow> bytes \<Rightarrow> rows \<Rightarrow> store_error + batch" where
  "index_rows_of S field [] = Inr []"
| "index_rows_of S field ((k, v) # r) =
     (case js_doc_of S v of
        None \<Rightarrow> Inl BadJson
      | Some doc \<Rightarrow>
          bind_result (index_rows_of S field r) (\<lambda>b.
            Inr (case map_of (sd_metadata doc) field of
                   None \<Rightarrow> b
                 | Some x \<Rightarrow> OpPut CfPidx (pidx_key (js_value S) field x (sd_id doc)) [] # b)))"

definition rebuild_payload_index :: "serde \<Rightarrow> bytes \<Rightarrow> db \<Rightarrow> store_error + db" where
  "rebuild_payload_index S field db =
     bind_result (indexed_fields S db) (\<lambda>fs.
       if field \<notin> set fs then Inl (NoSuch field)
       else bind_result (index_rows_of S field (iter_all db CfDocs)) (\<lambda>b.
         Inr (db_write db (map (\<lambda>kv. OpDelete CfPidx (fst kv)) (scan_cf db CfPidx (pidx_field_prefix field)) @ b))))"

fun count_matching :: "serde \<Rightarrow> haversine \<Rightarrow> filter_dsl \<Rightarrow> rows \<Rightarrow> 64 word \<Rightarrow> store_error + 64 word" where
  "count_matching S hav f [] n = Inr n"
| "count_matching S hav f ((k, v) # r) n =
     (case js_doc_of S v of
        None \<Rightarrow> Inl BadJson
      | Some doc \<Rightarrow> count_matching S hav f r (if filter_matches hav f (sd_metadata doc) then n + 1 else n))"

definition count_where ::
  "serde \<Rightarrow> haversine \<Rightarrow> (f64 \<Rightarrow> f64 \<Rightarrow> f64 \<Rightarrow> (f64 \<times> f64) \<times> (f64 \<times> f64)) \<Rightarrow> db \<Rightarrow> filter_dsl \<Rightarrow> store_error + 64 word" where
  "count_where S hav bbox db f =
     bind_result (ids_where S hav bbox db f) (\<lambda>ids.
       case ids of
         Some l \<Rightarrow> Inr (of_nat (length l))
       | None \<Rightarrow> count_matching S hav f (iter_all db CfDocs) 0)"

definition shapes :: "serde \<Rightarrow> db \<Rightarrow> store_error + (bytes \<times> 64 word) list" where
  "shapes S db = bind_result (get_json (js_shapes_of S) db CfMeta META_SHAPES) (\<lambda>s. Inr (or_default s))"

section \<open>Trends\<close>

definition record_trend :: "64 word \<Rightarrow> bytes \<Rightarrow> f64 \<Rightarrow> db \<Rightarrow> db" where
  "record_trend now_ns metric x db = put_cf db CfTrends (trend_key metric now_ns) (u64_le (to_bits x))"

text \<open>A row whose value is shorter than eight bytes panics (\<open>copy_from_slice\<close>): \<open>None\<close>.\<close>

definition trend_row :: "bytes \<Rightarrow> bytes \<times> bytes \<Rightarrow> trend_point option" where
  "trend_row p kv =
     (let suffix = drop (length p) (fst kv);
          at_ns = (if length suffix = 8 then of_u64_be suffix else 0) in
      if length (snd kv) < 8 then None
      else Some \<lparr>tp_at = at_ns div 1000000, tp_value = F64 (of_nat (of_le (take 8 (snd kv))))\<rparr>)"

fun all_some :: "'a option list \<Rightarrow> 'a list option" where
  "all_some [] = Some []"
| "all_some (x # xs) =
     (case x of None \<Rightarrow> None | Some a \<Rightarrow> map_option ((#) a) (all_some xs))"

definition trend :: "db \<Rightarrow> bytes \<Rightarrow> trend_point list option" where
  "trend db metric = (let p = trend_prefix metric in all_some (map (trend_row p) (scan_cf db CfTrends p)))"

definition trend_metrics :: "db \<Rightarrow> bytes list" where
  "trend_metrics db = heads_loop [] (iter_all db CfTrends)"

section \<open>Component state\<close>

definition component_key :: "bytes \<Rightarrow> bytes" where
  "component_key k = ''x:'' @ k"

definition put_component_json :: "('a \<Rightarrow> bytes) \<Rightarrow> bytes \<Rightarrow> 'a \<Rightarrow> db \<Rightarrow> db" where
  "put_component_json txt k x db = put_json txt x CfMeta (component_key k) db"

definition get_component_json :: "(bytes \<Rightarrow> 'a option) \<Rightarrow> bytes \<Rightarrow> db \<Rightarrow> store_error + 'a option" where
  "get_component_json parse k db = get_json parse db CfMeta (component_key k)"

section \<open>Collections\<close>

definition collection_members :: "db \<Rightarrow> bytes \<Rightarrow> bytes list" where
  "collection_members db name =
     (let p = coll_prefix name in map (\<lambda>kv. from_utf8_lossy (drop (length p) (fst kv))) (scan_cf db CfColl p))"

definition collection_names :: "serde \<Rightarrow> db \<Rightarrow> store_error + bytes list" where
  "collection_names S db = bind_result (get_json (js_names_of S) db CfMeta META_COLLECTIONS) (\<lambda>n. Inr (or_default n))"

definition collections :: "serde \<Rightarrow> db \<Rightarrow> store_error + (bytes \<times> 64 word) list" where
  "collections S db =
     bind_result (collection_names S db) (\<lambda>names.
       Inr (map (\<lambda>n. (n, of_nat (length (collection_members db n)))) names))"

definition remove_blocking ::
  "serde \<Rightarrow> (bytes \<Rightarrow> bytes list) \<Rightarrow> epoch_ms \<Rightarrow> bool \<Rightarrow> bytes \<Rightarrow> db \<times> (bytes, vec) pstate \<Rightarrow>
   (db \<times> (bytes, vec) pstate) \<times> store_error option" where
  "remove_blocking S analyze now stats i st =
     (case bind_result (tx_begin S (fst st)) (remove_into S analyze now stats i (fst st)) of
        Inl e \<Rightarrow> (st, Some e)
      | Inr tx \<Rightarrow> (tx_commit S tx st, None))"

fun drop_members ::
  "serde \<Rightarrow> (bytes \<Rightarrow> bytes list) \<Rightarrow> epoch_ms \<Rightarrow> bool \<Rightarrow> bytes list \<Rightarrow> db \<times> (bytes, vec) pstate \<Rightarrow>
   (db \<times> (bytes, vec) pstate) \<times> store_error option" where
  "drop_members S analyze now stats [] st = (st, None)"
| "drop_members S analyze now stats (i # is) st =
     (case remove_blocking S analyze now stats i st of
        (st', Some e) \<Rightarrow> (st', Some e)
      | (st', None) \<Rightarrow> drop_members S analyze now stats is (fst st', push_remove i (snd st')))"

definition drop_collection ::
  "serde \<Rightarrow> (bytes \<Rightarrow> bytes list) \<Rightarrow> epoch_ms \<Rightarrow> bool \<Rightarrow> bytes \<Rightarrow> db \<times> (bytes, vec) pstate \<Rightarrow>
   (db \<times> (bytes, vec) pstate) \<times> (store_error + 64 word)" where
  "drop_collection S analyze now stats name st =
     (let members = collection_members (fst st) name in
      case drop_members S analyze now stats members st of
        (st1, Some e) \<Rightarrow> (st1, Inl e)
      | (st1, None) \<Rightarrow>
          (case collection_names S (fst st1) of
             Inl e \<Rightarrow> (st1, Inl e)
           | Inr reg \<Rightarrow>
               ((put_json (js_names S) (filter (\<lambda>n. n \<noteq> name) reg) CfMeta META_COLLECTIONS (fst st1), snd st1),
                Inr (of_nat (length members)))))"

section \<open>Samples\<close>

text \<open>A seeded reservoir; \<open>next_random\<close> is one step of the generator.  The capacity the code
  reserves for \<open>n\<close> documents is left out: the handler caps \<open>n\<close> at 4096, where it cannot overflow.\<close>

definition next_random :: "64 word \<Rightarrow> 64 word" where
  "next_random s =
     (let a = s XOR push_bit 13 s; b = a XOR drop_bit 7 a in b XOR push_bit 17 b)"

fun reservoir_loop ::
  "serde \<Rightarrow> nat \<Rightarrow> rows \<Rightarrow> 64 word \<Rightarrow> 64 word \<Rightarrow> stored_doc list \<Rightarrow> store_error + stored_doc list" where
  "reservoir_loop S n [] state count out = Inr out"
| "reservoir_loop S n ((k, v) # r) state count out =
     (let count' = count + 1 in
      if length out < n then
        (case js_doc_of S v of
           None \<Rightarrow> Inl BadJson
         | Some d \<Rightarrow> reservoir_loop S n r state count' (out @ [d]))
      else
        (let state' = next_random state; j = unat (state' mod max count' 1) in
         if j < n then
           (case js_doc_of S v of
              None \<Rightarrow> Inl BadJson
            | Some d \<Rightarrow> reservoir_loop S n r state' count' (out[j := d]))
         else reservoir_loop S n r state' count' out))"

definition sample_docs :: "serde \<Rightarrow> nat \<Rightarrow> 64 word \<Rightarrow> db \<Rightarrow> store_error + stored_doc list" where
  "sample_docs S n seed db =
     (if n = 0 then Inr []
      else reservoir_loop S n (iter_all db CfDocs) (seed XOR 0x9E3779B97F4A7C15) 0 [])"

section \<open>Aliases and the schema\<close>

definition aliases :: "serde \<Rightarrow> db \<Rightarrow> store_error + (bytes \<times> bytes) list" where
  "aliases S db = bind_result (get_json (js_pairs_of S) db CfMeta META_ALIASES) (\<lambda>a. Inr (or_default a))"

definition create_alias :: "serde \<Rightarrow> bytes \<Rightarrow> bytes \<Rightarrow> db \<Rightarrow> store_error + db" where
  "create_alias S alias collection db =
     bind_result (aliases S db) (\<lambda>a. Inr (put_json (js_pairs S) (map_insert alias collection a) CfMeta META_ALIASES db))"

definition delete_alias :: "serde \<Rightarrow> bytes \<Rightarrow> db \<Rightarrow> store_error + db" where
  "delete_alias S alias db =
     bind_result (aliases S db) (\<lambda>a. Inr (put_json (js_pairs S) (map_remove alias a) CfMeta META_ALIASES db))"

definition field_type_of :: "bytes \<Rightarrow> bytes option" where
  "field_type_of ty =
     (if ty \<in> {''string'', ''int'', ''float'', ''bool'', ''datetime'', ''uuid''} then Some ty else None)"

type_synonym schema = "(bytes \<times> (bytes \<times> bytes) list) list"

definition schema_of :: "serde \<Rightarrow> db \<Rightarrow> store_error + schema" where
  "schema_of S db = bind_result (get_json (js_schema_of S) db CfMeta META_SCHEMA) (\<lambda>s. Inr (or_default s))"

definition define_field :: "serde \<Rightarrow> bytes \<Rightarrow> bytes \<Rightarrow> bytes \<Rightarrow> db \<Rightarrow> store_error + db" where
  "define_field S collection field ty db =
     (if field_type_of ty = None then Inl (NoSuch ty)
      else bind_result (schema_of S db) (\<lambda>sch.
        let fs = or_default (map_of sch collection) in
        Inr (put_json (js_schema S) (map_insert collection (map_insert field ty fs) sch) CfMeta META_SCHEMA db)))"

definition remove_field :: "serde \<Rightarrow> bytes \<Rightarrow> bytes \<Rightarrow> db \<Rightarrow> store_error + db" where
  "remove_field S collection field db =
     bind_result (schema_of S db) (\<lambda>sch.
       let sch' = (case map_of sch collection of
                     None \<Rightarrow> sch
                   | Some fs \<Rightarrow>
                       (let fs' = map_remove field fs in
                        if fs' = [] then map_remove collection sch else map_insert collection fs' sch)) in
       Inr (put_json (js_schema S) sch' CfMeta META_SCHEMA db))"

section \<open>The changefeed\<close>

fun changes_loop :: "serde \<Rightarrow> nat \<Rightarrow> rows \<Rightarrow> change list \<Rightarrow> store_error + change list" where
  "changes_loop S limit [] out = Inr out"
| "changes_loop S limit ((k, v) # r) out =
     (if limit \<le> length out then Inr out
      else (case js_change_of S v of
              None \<Rightarrow> Inl BadJson
            | Some c \<Rightarrow> changes_loop S limit r (out @ [c])))"

definition changes :: "serde \<Rightarrow> 64 word \<Rightarrow> nat \<Rightarrow> db \<Rightarrow> store_error + change list" where
  "changes S since limit db = changes_loop S limit (iter_from db CfFeed (u64_be since)) []"

definition recall_doc :: "serde \<Rightarrow> bytes \<Rightarrow> db \<Rightarrow> store_error + stored_doc option" where
  "recall_doc S i db = get_json (js_doc_of S) db CfDocs i"

definition vector_of :: "bytes \<Rightarrow> db \<Rightarrow> vec option" where
  "vector_of i db = map_option decode_vec (get_cf db CfVecs i)"

definition repl_record_of :: "serde \<Rightarrow> change \<Rightarrow> db \<Rightarrow> store_error + repl_record option" where
  "repl_record_of S c db =
     (case ch_op c of
        ChRemove \<Rightarrow> Inr None
      | ChUpsert \<Rightarrow>
          bind_result (recall_doc S (ch_doc_id c) db) (\<lambda>doc.
            Inr (case (vector_of (ch_doc_id c) db, doc) of
                   (Some e, Some d) \<Rightarrow>
                     Some \<lparr>rr_id = ch_doc_id c, rr_embedding = e, rr_text = sd_text d, rr_metadata = sd_metadata d,
                           rr_collection = sd_collection d\<rparr>
                 | _ \<Rightarrow> None)))"

fun repl_entries :: "serde \<Rightarrow> change list \<Rightarrow> db \<Rightarrow> store_error + repl_entry list" where
  "repl_entries S [] db = Inr []"
| "repl_entries S (c # cs) db =
     bind_result (repl_record_of S c db) (\<lambda>r.
     bind_result (repl_entries S cs db) (\<lambda>es.
       Inr (\<lparr>re_seq = ch_seq c, re_op = ch_op c, re_doc_id = ch_doc_id c, re_record = r\<rparr> # es)))"

definition replication_batch :: "serde \<Rightarrow> 64 word \<Rightarrow> nat \<Rightarrow> db \<Rightarrow> store_error + repl_entry list" where
  "replication_batch S since limit db =
     bind_result (changes S since limit db) (\<lambda>cs. repl_entries S cs db)"

record feed_stats =
  fst_first_seq :: "64 word option"
  fst_next_seq :: "64 word"
  fst_retained :: "64 word"

definition feed_stats_of :: "db \<Rightarrow> feed_stats" where
  "feed_stats_of db =
     (let keys = map fst (iter_all db CfFeed) in
      \<lparr>fst_first_seq = map_option of_u64_be (find (\<lambda>k. length k = 8) keys),
       fst_next_seq = get_u64 db META_FEED_SEQ, fst_retained = of_nat (length keys)\<rparr>)"

definition term_df :: "db \<Rightarrow> bytes \<Rightarrow> 64 word" where
  "term_df db t = (case get_cf db CfTdf t of None \<Rightarrow> 0 | Some b \<Rightarrow> read_i64 b)"

section \<open>Health\<close>

record graph_nodes =
  gn_total :: nat
  gn_tombstones :: nat

text \<open>The subtraction of \<open>live\<close> is of machine integers; \<open>None\<close> is its panic in a checked build.\<close>

definition live_nodes :: "graph_nodes \<Rightarrow> nat option" where
  "live_nodes g = (if gn_tombstones g \<le> gn_total g then Some (gn_total g - gn_tombstones g) else None)"

record graph_compaction =
  gc_before :: graph_nodes
  gc_after :: graph_nodes

definition reclaimed :: "graph_compaction \<Rightarrow> nat" where
  "reclaimed c = gn_total (gc_before c) - gn_total (gc_after c)"

record health_report =
  hr_docs :: "64 word"
  hr_feed_seq :: "64 word"
  hr_applier_backlog :: nat
  hr_collections :: "(bytes \<times> 64 word) list"
  hr_dim :: "nat option"
  hr_named_dims :: "(bytes \<times> nat) list"
  hr_quantized :: bool
  hr_graph_tombstones :: nat
  hr_cf_bytes :: "(bytes \<times> 64 word) list"
  hr_quotas :: quotas

text \<open>The sizes of the families on disk and the counts of the graph are the engine's: parameters.\<close>

definition health ::
  "serde \<Rightarrow> estate_info \<Rightarrow> nat \<Rightarrow> bool \<Rightarrow> graph_nodes \<Rightarrow> (bytes \<times> 64 word) list \<Rightarrow> quotas \<Rightarrow> db \<Rightarrow> store_error + health_report" where
  "health S boot waiting lossy g sizes q db =
     bind_result (get_json (js_info_of S) db CfMeta META_ESTATE) (\<lambda>i.
     let info = (case i of None \<Rightarrow> boot | Some x \<Rightarrow> x) in
     bind_result (collections S db) (\<lambda>cs.
       Inr \<lparr>hr_docs = get_u64 db META_DOC_COUNT, hr_feed_seq = get_u64 db META_FEED_SEQ, hr_applier_backlog = waiting,
            hr_collections = cs, hr_dim = ei_dim info, hr_named_dims = ei_named_dims info, hr_quantized = lossy,
            hr_graph_tombstones = gn_tombstones g, hr_cf_bytes = sizes, hr_quotas = q\<rparr>))"

datatype issue = ApplierBacklog nat nat | DimUnset "64 word" | FeedBehind "64 word" "64 word"

definition issues :: "nat \<Rightarrow> health_report \<Rightarrow> issue list" where
  "issues threshold h =
     (if threshold < hr_applier_backlog h then [ApplierBacklog (hr_applier_backlog h) threshold] else []) @
     (if 0 < hr_docs h \<and> hr_dim h = None then [DimUnset (hr_docs h)] else []) @
     (if hr_feed_seq h < hr_docs h then [FeedBehind (hr_feed_seq h) (hr_docs h)] else [])"

end
