(* ===== verification/FilterProps.thy ===== *)
theory FilterProps
  imports FilterIndex StoreRuns
begin

text \<open>
  What a filter answered from the indexes returns: the ids of the documents whose metadata satisfy
  the index reading of the filter (\<open>index_matches\<close>), in ascending order.  The index reading compares
  encoded values, so it differs from the conditions themselves on numbers and instants that are
  written differently.
\<close>

section \<open>The index reading of a condition\<close>

text \<open>A scan starts at its lower bound, so \<open>-0.0\<close> is before \<open>0.0\<close> there.\<close>

definition index_cond ::
  "(json \<Rightarrow> bytes) \<Rightarrow> haversine \<Rightarrow> (f64 \<Rightarrow> f64 \<Rightarrow> f64 \<Rightarrow> (f64 \<times> f64) \<times> (f64 \<times> f64)) \<Rightarrow> condition \<Rightarrow> metadata \<Rightarrow> bool" where
  "index_cond jt hav bbox c m =
     (let in_box = (\<lambda>key lo hi. \<exists>q. Option.bind (map_of m key) point_of = Some q \<and>
            morton (fst lo) (snd lo) \<le> morton (fst q) (snd q) \<and> morton (fst q) (snd q) \<le> morton (fst hi) (snd hi)) in
      case c of
        CEq key v \<Rightarrow> (\<exists>w. map_of m key = Some w \<and> encode_pidx_value jt w = encode_pidx_value jt v)
      | CAny key vs \<Rightarrow> (\<exists>w. map_of m key = Some w \<and> encode_pidx_value jt w \<in> encode_pidx_value jt ` set vs)
      | CRange key gt gte lt lte \<Rightarrow>
          cond_matches hav c m \<and>
          (\<exists>x. Option.bind (map_of m key) as_f64 = Some x \<and> f64_total (or_else gte gt f64_neg_infinity) \<le> f64_total x)
      | CGeoRadius key lat lon r \<Rightarrow> cond_matches hav c m \<and> in_box key (fst (bbox lat lon r)) (snd (bbox lat lon r))
      | CGeoBox key a b c' d \<Rightarrow> cond_matches hav c m \<and> in_box key (a, b) (c', d)
      | _ \<Rightarrow> cond_matches hav c m)"

definition index_matches ::
  "(json \<Rightarrow> bytes) \<Rightarrow> haversine \<Rightarrow> (f64 \<Rightarrow> f64 \<Rightarrow> f64 \<Rightarrow> (f64 \<times> f64) \<times> (f64 \<times> f64)) \<Rightarrow> filter_dsl \<Rightarrow> metadata \<Rightarrow> bool" where
  "index_matches jt hav bbox f m \<longleftrightarrow>
     (\<forall>c \<in> set (f_must f). index_cond jt hav bbox c m) \<and>
     (f_should f = [] \<or> (\<exists>c \<in> set (f_should f). index_cond jt hav bbox c m)) \<and>
     \<not> (\<exists>c \<in> set (f_must_not f). index_cond jt hav bbox c m)"

section \<open>Rows of the index\<close>

text \<open>Values and bounds as the layout expects them: no NUL in text, no NaN.\<close>

definition value_clean :: "json \<Rightarrow> bool" where
  "value_clean v \<longleftrightarrow> (\<forall>s. v = JStr s \<longrightarrow> SEP \<notin> set s) \<and> (\<forall>x. as_f64 v = Some x \<longrightarrow> \<not> is_nan x)"

definition bound_clean :: "f64 option \<Rightarrow> bool" where
  "bound_clean b \<longleftrightarrow> (\<forall>x. b = Some x \<longrightarrow> \<not> is_nan x)"

definition cond_clean :: "condition \<Rightarrow> bool" where
  "cond_clean c \<longleftrightarrow> SEP \<notin> set (cond_key c) \<and>
     (case c of CEq k v \<Rightarrow> value_clean v | CAny k vs \<Rightarrow> list_all value_clean vs
      | CRange k gt gte lt lte \<Rightarrow> bound_clean gt \<and> bound_clean gte \<and> bound_clean lt \<and> bound_clean lte
      | _ \<Rightarrow> True)"

definition docs_clean :: "bytes list \<Rightarrow> docs \<Rightarrow> bool" where
  "docs_clean fs D \<longleftrightarrow> (\<forall>f \<in> set fs. SEP \<notin> set f) \<and>
     (\<forall>i d. D i = Some d \<longrightarrow> utf8_valid i \<and> SEP \<notin> set i \<and> (\<forall>f v. map_of (sd_metadata d) f = Some v \<longrightarrow> value_clean v))"

definition text_clean :: "(json \<Rightarrow> bytes) \<Rightarrow> bool" where
  "text_clean jt \<longleftrightarrow> (\<forall>v. SEP \<notin> set (jt v))"

text \<open>The encodings: a tag, then a fixed width or text without separator.\<close>

text \<open>How many positions from \<open>i\<close> hold a digit, among \<open>n\<close>.\<close>

fun digit_places :: "nat \<Rightarrow> nat \<Rightarrow> nat" where
  "digit_places i 0 = 0"
| "digit_places i (Suc n) = (if i = 8 \<or> i = 13 \<or> i = 18 \<or> i = 23 then 0 else 1) + digit_places (Suc i) n"

lemma uuid_loop_length:
  "uuid_loop i b hi out = Some r \<Longrightarrow>
   (let total = 2 * length out + (if hi = None then 0 else 1) + digit_places i (length b) in
    2 * length r \<le> total \<and> total \<le> 2 * length r + 1)"
proof (induction i b hi out rule: uuid_loop.induct)
  case (2 i c b hi out)
  show ?case
  proof (cases "i = 8 \<or> i = 13 \<or> i = 18 \<or> i = 23")
    case True
    then have "uuid_loop (Suc i) b hi out = Some r" using "2.prems" by simp
    from "2.IH"(1) [OF True this] True show ?thesis by (simp add: Let_def)
  next
    case False
    then obtain nib where h: "hex_val c = Some nib" using "2.prems" by (auto split: option.splits)
    show ?thesis
    proof (cases hi)
      case None
      then have "uuid_loop (Suc i) b (Some nib) out = Some r" using "2.prems" False h by simp
      from "2.IH"(2) [OF False h None this] None False show ?thesis by (simp add: Let_def)
    next
      case (Some a)
      then have "uuid_loop (Suc i) b None (out @ [char_of (a * 16 + nib)]) = Some r" using "2.prems" False h by simp
      from "2.IH"(3) [OF False h Some this] Some False show ?thesis by (simp add: Let_def)
    qed
  qed
qed simp

lemma parse_uuid_length:
  assumes "parse_uuid_bytes b = Some r"
  shows "length r = 16"
proof -
  have l: "length b = 36" and u: "uuid_loop 0 b None [] = Some r"
    using assms by (auto simp: parse_uuid_bytes_def split: if_splits)
  have "digit_places 0 36 = 32" by code_simp
  with uuid_loop_length [OF u] show ?thesis by (simp add: l Let_def)
qed

definition text_tag :: "byte \<Rightarrow> bool" where
  "text_tag t \<longleftrightarrow> t = PIDX_STR \<or> t = PIDX_OTHER"

definition tag_width :: "byte \<Rightarrow> nat" where
  "tag_width t = (if t = PIDX_UUID then 16 else if t = PIDX_BOOL then 1 else 8)"

definition enc_ok :: "bytes \<Rightarrow> bool" where
  "enc_ok e \<longleftrightarrow> e \<noteq> [] \<and> (if text_tag (hd e) then SEP \<notin> set (tl e) else length (tl e) = tag_width (hd e))"

lemma enc_ok_value: "value_clean v \<Longrightarrow> text_clean jt \<Longrightarrow> enc_ok (encode_pidx_value jt v)"
  by (cases v)
    (auto simp: enc_ok_def encode_pidx_value_def text_tag_def tag_width_def pidx_tag_defs value_clean_def text_clean_def
      f64_codec.enc_length i64_codec.enc_length dest: parse_uuid_length split: option.splits prod.splits)

lemma enc_shape:
  assumes "value_clean v" "text_clean jt"
  obtains t a where "encode_pidx_value jt v = t # a" "if text_tag t then SEP \<notin> set a else length a = tag_width t"
  using enc_ok_value [OF assms] unfolding enc_ok_def by (metis list.exhaust_sel)

lemma enc_prefix:
  assumes "value_clean v" "value_clean w" "text_clean jt"
  shows "prefix (encode_pidx_value jt v @ [SEP]) (encode_pidx_value jt w @ SEP # i) \<longleftrightarrow>
    encode_pidx_value jt v = encode_pidx_value jt w"
proof
  assume p: "prefix (encode_pidx_value jt v @ [SEP]) (encode_pidx_value jt w @ SEP # i)"
  obtain t a where v: "encode_pidx_value jt v = t # a" "if text_tag t then SEP \<notin> set a else length a = tag_width t"
    by (rule enc_shape [OF assms(1,3)])
  obtain u b where w: "encode_pidx_value jt w = u # b" "if text_tag u then SEP \<notin> set b else length b = tag_width u"
    by (rule enc_shape [OF assms(2,3)])
  from p have tu: "t = u" "prefix (a @ [SEP]) (b @ SEP # i)" by (simp_all add: v w)
  show "encode_pidx_value jt v = encode_pidx_value jt w"
  proof (cases "text_tag t")
    case True
    with v(2) w(2) tu prefix_sep_iff [of a b i] show ?thesis by (simp add: v(1) w(1))
  next
    case False
    with v(2) w(2) tu(1) have "length a = length b" by simp
    moreover have "prefix a (b @ SEP # i)" using tu(2) append_prefixD by blast
    ultimately have "a = b" by (auto simp: prefix_def append_eq_append_conv)
    then show ?thesis by (simp add: v(1) w(1) tu(1))
  qed
qed auto

text \<open>Which rows carry the prefixes of a field.\<close>

lemma pidx_key_alt: "pidx_key jt f v i = f @ SEP # encode_pidx_value jt v @ SEP # i"
  by (simp add: pidx_key_def)

lemma field_row:
  assumes "SEP \<notin> set field" "SEP \<notin> set f"
  shows "prefix (field @ SEP # a) (f @ SEP # b) \<longleftrightarrow> field = f \<and> prefix a b"
proof
  assume p: "prefix (field @ SEP # a) (f @ SEP # b)"
  then have "prefix (field @ [SEP]) (f @ SEP # b)" by (metis append.assoc append_Cons append_Nil append_prefixD)
  then have "field = f" using prefix_sep_iff [OF assms] by blast
  with p show "field = f \<and> prefix a b" by simp
qed simp

lemma value_row:
  assumes "SEP \<notin> set field" "SEP \<notin> set f" "value_clean v" "value_clean w" "text_clean jt"
  shows "prefix (pidx_value_prefix jt field v) (pidx_key jt f w i) \<longleftrightarrow>
    field = f \<and> encode_pidx_value jt v = encode_pidx_value jt w"
  using field_row [OF assms(1,2)] enc_prefix [OF assms(3-5)]
  by (simp add: pidx_value_prefix_def pidx_key_alt)

lemma tag_row:
  assumes "SEP \<notin> set field" "SEP \<notin> set f"
  shows "prefix (key_prefix field @ [t]) (pidx_key jt f w i) \<longleftrightarrow> field = f \<and> hd (encode_pidx_value jt w) = t"
proof -
  have "encode_pidx_value jt w \<noteq> []"
    by (cases w) (auto simp: encode_pidx_value_def split: option.splits prod.splits)
  then obtain u b where "encode_pidx_value jt w = u # b" by (cases "encode_pidx_value jt w") auto
  then show ?thesis using field_row [OF assms, of "[t]"] by (auto simp: key_prefix_def pidx_key_alt)
qed

lemma num_tag: "hd (encode_pidx_value jt w) = PIDX_NUM \<longleftrightarrow> (\<exists>x. as_f64 w = Some x)"
  by (cases w) (auto simp: encode_pidx_value_def pidx_tag_defs as_f64_def split: option.splits prod.splits number.splits)

lemma dt_tag: "hd (encode_pidx_value jt w) = PIDX_DT \<longleftrightarrow> (\<exists>t. Option.bind (as_str w) rfc3339_to_epoch_ms = Some t)"
  by (cases w) (auto simp: encode_pidx_value_def pidx_tag_defs as_str_def split: option.splits prod.splits)

lemma geo_tag: "hd (encode_pidx_value jt w) = PIDX_GEO \<longleftrightarrow> (\<exists>q. point_of w = Some q)"
  by (cases w) (auto simp: encode_pidx_value_def pidx_tag_defs point_of_def json_get_def split: option.splits prod.splits)

lemma geo_row:
  assumes "point_of w = Some q"
  shows "pidx_key jt f w i = pidx_geo_prefix f @ u64_be (morton (fst q) (snd q)) @ SEP # i"
  using assms
  by (cases w; cases q) (auto simp: pidx_key_alt pidx_geo_prefix_def key_prefix_def encode_pidx_value_def point_of_def json_get_def)

section \<open>What a scan collects\<close>

lemma scan_loop_set:
  assumes "sorted_wrt (<) (map fst rows)" "\<forall>kv \<in> set rows. p \<le> fst kv"
    and "\<And>k k' i. k \<in> fst ` set rows \<Longrightarrow> k' \<in> fst ` set rows \<Longrightarrow> k < k' \<Longrightarrow> prefix p k \<Longrightarrow> prefix p k' \<Longrightarrow>
      body k = Stop \<Longrightarrow> body k' \<noteq> Take i"
  shows "i \<in> scan_loop p body rows \<longleftrightarrow> (\<exists>k \<in> fst ` set rows. prefix p k \<and> body k = Take i)"
  using assms
proof (induction rows)
  case (Cons x rows)
  obtain k v where x: "x = (k, v)" by (cases x)
  have less: "k < k'" if "k' \<in> fst ` set rows" for k' using Cons.prems(1) that by (auto simp: x)
  have ih: "i \<in> scan_loop p body rows \<longleftrightarrow> (\<exists>k \<in> fst ` set rows. prefix p k \<and> body k = Take i)"
    by (rule Cons.IH) (use Cons.prems in \<open>auto simp: x\<close>)
  have keys: "fst ` set (x # rows) = insert k (fst ` set rows)" by (simp add: x)
  show ?case
  proof (cases "prefix p k")
    case False
    have "\<not> prefix p k'" if k': "k' \<in> fst ` set rows" for k'
    proof
      assume "prefix p k'"
      then obtain r where "k' = p @ r" by (auto simp: prefix_def)
      then have "prefix p k" using prefix_convex [of p k r] less [OF k'] Cons.prems(2) by (auto simp: x)
      with False show False ..
    qed
    with False show ?thesis unfolding keys by (auto simp: x)
  next
    case True
    show ?thesis
    proof (cases "body k")
      case Stop
      have "body k' \<noteq> Take i" if "k' \<in> fst ` set rows" "prefix p k'" for k'
        using Cons.prems(3) [of k k' i] less [OF that(1)] that True Stop unfolding keys by blast
      with Stop True show ?thesis unfolding keys by (auto simp: x)
    next
      case Skip
      with True ih show ?thesis unfolding keys by (auto simp: x)
    next
      case (Take j)
      with True ih show ?thesis unfolding keys by (auto simp: x)
    qed
  qed
qed simp

lemma iter_from_rows:
  assumes "db_ok db"
  shows "sorted_wrt (<) (map fst (iter_from db c start))"
    and "k \<in> fst ` set (iter_from db c start) \<longleftrightarrow> get_cf db c k \<noteq> None \<and> start \<le> k"
proof -
  have ok: "rows_ok (db c)" using assms by (simp add: db_ok_def)
  show "sorted_wrt (<) (map fst (iter_from db c start))" using rows_from_sorted [OF ok] by (simp add: iter_from_def)
  have "k \<in> fst ` set xs \<longleftrightarrow> (\<exists>v. (k, v) \<in> set xs)" for xs :: rows by force
  then show "k \<in> fst ` set (iter_from db c start) \<longleftrightarrow> get_cf db c k \<noteq> None \<and> start \<le> k"
    using rows_from_set [OF ok] row_get_iff [OF ok] by (auto simp: iter_from_def get_cf_def)
qed

lemma index_rows:
  assumes "estate_of S analyze fs db D"
  shows "get_cf db CfPidx k \<noteq> None \<longleftrightarrow>
    (\<exists>i d f v. D i = Some d \<and> f \<in> set fs \<and> map_of (sd_metadata d) f = Some v \<and> k = pidx_key (js_value S) f v i)"
proof -
  have "family_of (pidx_rows (js_value S) fs) (get_cf db CfPidx) D" using assms by (simp add: estate_of_def view_of_def)
  then show ?thesis unfolding family_of_def pidx_rows_def by blast
qed

text \<open>A scan from a start that only rows of the prefix and beyond it follow.\<close>

lemma index_scan:
  assumes est: "estate_of S analyze fs db D" and start: "p \<le> start"
    and stop: "\<And>k k' i. get_cf db CfPidx k \<noteq> None \<Longrightarrow> get_cf db CfPidx k' \<noteq> None \<Longrightarrow> k < k' \<Longrightarrow> prefix p k \<Longrightarrow>
      prefix p k' \<Longrightarrow> body k = Stop \<Longrightarrow> body k' \<noteq> Take i"
  shows "i \<in> scan_loop p body (iter_from db CfPidx start) \<longleftrightarrow>
    (\<exists>j d f v. D j = Some d \<and> f \<in> set fs \<and> map_of (sd_metadata d) f = Some v \<and>
       (let k = pidx_key (js_value S) f v j in start \<le> k \<and> prefix p k \<and> body k = Take i))"
proof -
  have ok: "db_ok db" using est by (simp add: estate_of_def)
  note rows = iter_from_rows [OF ok, where c = CfPidx and start = start]
  have "\<forall>kv \<in> set (iter_from db CfPidx start). p \<le> fst kv"
  proof
    fix kv assume "kv \<in> set (iter_from db CfPidx start)"
    then have "fst kv \<in> fst ` set (iter_from db CfPidx start)" by (rule imageI)
    then have "start \<le> fst kv" unfolding rows(2) by blast
    then show "p \<le> fst kv" by (rule order_trans [OF start])
  qed
  then have "i \<in> scan_loop p body (iter_from db CfPidx start) \<longleftrightarrow>
      (\<exists>k \<in> fst ` set (iter_from db CfPidx start). prefix p k \<and> body k = Take i)"
    by (rule scan_loop_set [OF rows(1)]) (unfold rows(2), elim conjE, erule (5) stop)
  also have "\<dots> \<longleftrightarrow> (\<exists>k. (get_cf db CfPidx k \<noteq> None \<and> start \<le> k) \<and> prefix p k \<and> body k = Take i)"
    unfolding Bex_def rows(2) ..
  also have "\<dots> \<longleftrightarrow> (\<exists>j d f v. D j = Some d \<and> f \<in> set fs \<and> map_of (sd_metadata d) f = Some v \<and>
       (let k = pidx_key (js_value S) f v j in start \<le> k \<and> prefix p k \<and> body k = Take i))"
    unfolding index_rows [OF est] Let_def by blast
  finally show ?thesis .
qed

lemma scan_value_ids:
  assumes est: "estate_of S analyze fs db D" and docs: "docs_clean fs D" and jt: "text_clean (js_value S)"
    and c: "value_clean v" "SEP \<notin> set key" "key \<in> set fs"
  shows "i \<in> scan_value S db key v \<longleftrightarrow>
    (\<exists>d w. D i = Some d \<and> map_of (sd_metadata d) key = Some w \<and>
       encode_pidx_value (js_value S) w = encode_pidx_value (js_value S) v)"
proof -
  let ?p = "pidx_value_prefix (js_value S) key v"
  have hit: "prefix ?p (pidx_key (js_value S) f w j) \<longleftrightarrow> f = key \<and> encode_pidx_value (js_value S) w = encode_pidx_value (js_value S) v"
    and tail: "f = key \<and> encode_pidx_value (js_value S) w = encode_pidx_value (js_value S) v \<Longrightarrow>
      from_utf8_lossy (drop (length ?p) (pidx_key (js_value S) f w j)) = j"
    if "D j = Some d" "f \<in> set fs" "map_of (sd_metadata d) f = Some w" for j d f w
  proof -
    have "SEP \<notin> set f" "value_clean w" "utf8_valid j" using docs that by (auto simp: docs_clean_def)
    then show "prefix ?p (pidx_key (js_value S) f w j) \<longleftrightarrow> f = key \<and> encode_pidx_value (js_value S) w = encode_pidx_value (js_value S) v"
      using value_row [OF c(2) _ c(1) _ jt, of f w j] by auto
    assume e: "f = key \<and> encode_pidx_value (js_value S) w = encode_pidx_value (js_value S) v"
    have "pidx_key (js_value S) f w j = ?p @ j" using e by (simp add: pidx_value_prefix_def pidx_key_alt)
    then show "from_utf8_lossy (drop (length ?p) (pidx_key (js_value S) f w j)) = j" using \<open>utf8_valid j\<close> by simp
  qed
  have "i \<in> scan_value S db key v \<longleftrightarrow>
    (\<exists>j d f w. D j = Some d \<and> f \<in> set fs \<and> map_of (sd_metadata d) f = Some w \<and>
       ?p \<le> pidx_key (js_value S) f w j \<and> prefix ?p (pidx_key (js_value S) f w j) \<and>
       from_utf8_lossy (drop (length ?p) (pidx_key (js_value S) f w j)) = i)"
    unfolding scan_value_def Let_def by (subst index_scan [OF est order_refl]) (simp_all add: Let_def)
  also have "\<dots> \<longleftrightarrow> (\<exists>j d f w. D j = Some d \<and> f \<in> set fs \<and> map_of (sd_metadata d) f = Some w \<and>
       f = key \<and> encode_pidx_value (js_value S) w = encode_pidx_value (js_value S) v \<and> j = i)"
    using hit tail prefix_less_eq by (intro ex_cong1) metis
  also have "\<dots> \<longleftrightarrow> (\<exists>d w. D i = Some d \<and> map_of (sd_metadata d) key = Some w \<and>
       encode_pidx_value (js_value S) w = encode_pidx_value (js_value S) v)" using c(3) by blast
  finally show ?thesis .
qed

text \<open>A typed scan: rows of one tag, their value in eight bytes.\<close>

lemma typed_body_row:
  assumes "length b = 8" "utf8_valid i"
  shows "typed_body p past below (p @ b @ SEP # i) = (if past b then Stop else if below b then Skip else Take i)"
proof -
  have "(p @ b @ SEP # i) ! (length p + 8) = SEP" using assms(1) by (simp add: nth_append)
  moreover have "drop (length p + 9) (p @ b @ SEP # i) = i" using assms(1) by simp
  ultimately show ?thesis using assms unfolding typed_body_def Let_def by simp
qed

lemma typed_scan:
  fixes enc :: "'v \<Rightarrow> bytes" and val :: "json \<Rightarrow> 'v option"
  assumes est: "estate_of S analyze fs db D" and docs: "docs_clean fs D" and key: "SEP \<notin> set key" "key \<in> set fs"
    and width: "\<And>x. length (enc x) = 8"
    and tag: "\<And>w. hd (encode_pidx_value (js_value S) w) = t \<longleftrightarrow> (\<exists>x. val w = Some x)"
    and row: "\<And>w x i. val w = Some x \<Longrightarrow> pidx_key (js_value S) key w i = (key_prefix key @ [t]) @ enc x @ SEP # i"
    and stop: "\<And>w w' x y. value_clean w \<Longrightarrow> value_clean w' \<Longrightarrow> val w = Some x \<Longrightarrow> val w' = Some y \<Longrightarrow>
      enc x \<le> enc y \<Longrightarrow> past (enc x) \<Longrightarrow> past (enc y) \<or> below (enc y)"
  shows "i \<in> scan_loop (key_prefix key @ [t]) (typed_body (key_prefix key @ [t]) past below)
      (iter_from db CfPidx ((key_prefix key @ [t]) @ enc lo)) \<longleftrightarrow>
    (\<exists>d w x. D i = Some d \<and> map_of (sd_metadata d) key = Some w \<and> val w = Some x \<and>
       enc lo \<le> enc x \<and> \<not> past (enc x) \<and> \<not> below (enc x))"
proof -
  let ?p = "key_prefix key @ [t]" and ?K = "pidx_key (js_value S)"
  let ?body = "typed_body ?p past below"
  have hit: "prefix ?p (?K f w j) \<longleftrightarrow> f = key \<and> (\<exists>x. val w = Some x)" if "D j = Some d" "f \<in> set fs" for j d f w
  proof -
    have "SEP \<notin> set f" using docs that by (auto simp: docs_clean_def)
    then show ?thesis using tag_row [OF key(1), of f t] tag by metis
  qed
  have body: "?body (?K key w j) = (if past (enc x) then Stop else if below (enc x) then Skip else Take j)"
    if "D j = Some d" "val w = Some x" for j d w x
    unfolding row [OF that(2)] by (rule typed_body_row) (use width docs that(1) in \<open>auto simp: docs_clean_def\<close>)
  have step: "?body k' \<noteq> Take l" if "get_cf db CfPidx k \<noteq> None" "get_cf db CfPidx k' \<noteq> None" "k < k'" "prefix ?p k" "prefix ?p k'"
    "?body k = Stop" for k k' l
  proof -
    from that(1) obtain j d f w where a: "D j = Some d" "f \<in> set fs" "map_of (sd_metadata d) f = Some w" "k = ?K f w j"
      unfolding index_rows [OF est] by blast
    from that(2) obtain j' d' f' w' where b: "D j' = Some d'" "f' \<in> set fs" "map_of (sd_metadata d') f' = Some w'" "k' = ?K f' w' j'"
      unfolding index_rows [OF est] by blast
    from that(4) hit [OF a(1,2)] obtain x where x: "f = key" "val w = Some x" unfolding a(4) by blast
    from that(5) hit [OF b(1,2)] obtain y where y: "f' = key" "val w' = Some y" unfolding b(4) by blast
    have c: "value_clean w" "value_clean w'" using docs a b by (auto simp: docs_clean_def)
    have "?p @ enc x @ SEP # j < ?p @ enc y @ SEP # j'"
      using that(3) unfolding a(4) b(4) x(1) y(1) row [OF x(2)] row [OF y(2)] .
    then have "enc x @ SEP # j < enc y @ SEP # j'" by (simp only: append_less_append_iff)
    then have "enc x \<le> enc y" using width by (simp add: same_length_less) (auto intro: less_imp_le)
    moreover have "past (enc x)" using that(6) body [OF a(1) x(2)] by (auto simp: a(4) x(1) split: if_splits)
    ultimately have "past (enc y) \<or> below (enc y)" by (rule stop [OF c x(2) y(2)])
    then show ?thesis using body [OF b(1) y(2)] by (auto simp: b(4) y(1))
  qed
  have "i \<in> scan_loop ?p ?body (iter_from db CfPidx (?p @ enc lo)) \<longleftrightarrow>
    (\<exists>j d f w. D j = Some d \<and> f \<in> set fs \<and> map_of (sd_metadata d) f = Some w \<and>
       (let k = ?K f w j in ?p @ enc lo \<le> k \<and> prefix ?p k \<and> ?body k = Take i))"
    by (rule index_scan [OF est]) (rule prefix_less_eq, simp, rule step)
  also have "\<dots> \<longleftrightarrow> (\<exists>j d w x. D j = Some d \<and> map_of (sd_metadata d) key = Some w \<and> val w = Some x \<and>
       enc lo \<le> enc x \<and> \<not> past (enc x) \<and> \<not> below (enc x) \<and> j = i)" (is "?L = ?R")
  proof
    assume ?L
    then obtain j d f w where a: "D j = Some d" "f \<in> set fs" "map_of (sd_metadata d) f = Some w"
      and k: "?p @ enc lo \<le> ?K f w j" "prefix ?p (?K f w j)" "?body (?K f w j) = Take i" by (auto simp: Let_def)
    from k(2) hit [OF a(1,2)] obtain x where x: "f = key" "val w = Some x" by blast
    have "enc lo \<le> enc x @ SEP # j" using k(1) unfolding x(1) row [OF x(2)] by (simp only: append_le_append_iff)
    then have "enc lo \<le> enc x" using width by (simp add: same_length_le_append)
    with a x k(3) body [OF a(1) x(2)] show ?R by (auto split: if_splits)
  next
    assume ?R
    then obtain d w x where a: "D i = Some d" "map_of (sd_metadata d) key = Some w" "val w = Some x"
      "enc lo \<le> enc x" "\<not> past (enc x)" "\<not> below (enc x)" by blast
    have "enc lo \<le> enc x @ SEP # i" using a(4) width by (simp add: same_length_le_append)
    then have "?p @ enc lo \<le> ?K key w i" unfolding row [OF a(3)] by (simp only: append_le_append_iff)
    moreover have "prefix ?p (?K key w i)" using hit [OF a(1) key(2)] a(3) by blast
    moreover have "?body (?K key w i) = Take i" using body [OF a(1,3)] a(5,6) by simp
    ultimately show ?L using a(1,2) key(2) by (auto simp: Let_def)
  qed
  finally show ?thesis by blast
qed

section \<open>Each condition\<close>

lemma f64_past:
  assumes "f64_total x \<le> f64_total y" "\<not> is_nan y"
  shows "f64_le b x \<Longrightarrow> f64_le b y" "f64_lt b x \<Longrightarrow> f64_lt b y"
  using f64_total_rank(2) [OF assms(1)] assms(2) by (auto simp: f64_le_def f64_lt_def)

lemma enc_f64_le: "encode_f64_sortable x \<le> encode_f64_sortable y \<longleftrightarrow> f64_total x \<le> f64_total y"
  by (simp add: f64_codec.enc_le f64_below_def not_less)

lemma enc_i64_le: "encode_i64_sortable x \<le> encode_i64_sortable y \<longleftrightarrow> sint x \<le> sint y"
  by (simp add: i64_codec.enc_le i64_below_def not_less)

lemma bound_open:
  assumes "bound_clean b" "\<not> is_nan x"
  shows "bound_or b (\<lambda>y. f64_le y x) \<longleftrightarrow> \<not> open_or b (\<lambda>y. f64_lt x y)"
    "bound_or b (\<lambda>y. f64_lt y x) \<longleftrightarrow> \<not> open_or b (\<lambda>y. f64_le x y)"
    "bound_or b (\<lambda>y. f64_le x y) \<longleftrightarrow> \<not> open_or b (\<lambda>y. f64_lt y x)"
    "bound_or b (\<lambda>y. f64_lt x y) \<longleftrightarrow> \<not> open_or b (\<lambda>y. f64_le y x)"
  using assms by (cases b; auto simp: bound_or_def bound_clean_def f64_le_def f64_lt_def)+

lemma ex_rows_cong:
  "(\<And>d w x. P d \<Longrightarrow> Q d w \<Longrightarrow> R w x \<Longrightarrow> A x = B x) \<Longrightarrow>
   (\<exists>d w x. P d \<and> Q d w \<and> R w x \<and> A x) = (\<exists>d w x. P d \<and> Q d w \<and> R w x \<and> B x)"
  by blast

lemma scan_range_ids:
  assumes est: "estate_of S analyze fs db D" and docs: "docs_clean fs D"
    and c: "cond_clean (CRange key gt gte lt lte)" "key \<in> set fs"
  shows "i \<in> scan_range db key gt gte lt lte \<longleftrightarrow>
    (\<exists>d. D i = Some d \<and> index_cond jt hav bbox (CRange key gt gte lt lte) (sd_metadata d))"
proof -
  let ?past = "\<lambda>b. let x = decode_f64_sortable b in bound_or lt (\<lambda>y. f64_le y x) \<or> bound_or lte (\<lambda>y. f64_lt y x)"
  let ?below = "\<lambda>b. let x = decode_f64_sortable b in bound_or gt (\<lambda>y. f64_le x y) \<or> bound_or gte (\<lambda>y. f64_lt x y)"
  have key: "SEP \<notin> set key" using c(1) by (simp add: cond_clean_def)
  have past: "?past (encode_f64_sortable x) \<longleftrightarrow> bound_or lt (\<lambda>y. f64_le y x) \<or> bound_or lte (\<lambda>y. f64_lt y x)" for x
    by (simp add: f64_codec.dec_enc)
  have below: "?below (encode_f64_sortable x) \<longleftrightarrow> bound_or gt (\<lambda>y. f64_le x y) \<or> bound_or gte (\<lambda>y. f64_lt x y)" for x
    by (simp add: f64_codec.dec_enc)
  have "i \<in> scan_range db key gt gte lt lte \<longleftrightarrow>
    (\<exists>d w x. D i = Some d \<and> map_of (sd_metadata d) key = Some w \<and> as_f64 w = Some x \<and>
       encode_f64_sortable (or_else gte gt f64_neg_infinity) \<le> encode_f64_sortable x \<and>
       \<not> ?past (encode_f64_sortable x) \<and> \<not> ?below (encode_f64_sortable x))"
    unfolding scan_range_def Let_def pidx_num_prefix_def
  proof (rule typed_scan [OF est docs key c(2), where val = as_f64 and enc = encode_f64_sortable])
    show "pidx_key (js_value S) key w i = (key_prefix key @ [PIDX_NUM]) @ encode_f64_sortable x @ SEP # i"
      if "as_f64 w = Some x" for w x i using pidx_num_row [OF that] by (simp add: pidx_num_prefix_def)
    fix w w' x y
    assume "value_clean w" "value_clean w'" "as_f64 w = Some x" and y: "as_f64 w' = Some y"
      and le: "encode_f64_sortable x \<le> encode_f64_sortable y"
      and p: "bound_or lt (\<lambda>y. f64_le y (decode_f64_sortable (encode_f64_sortable x))) \<or>
         bound_or lte (\<lambda>y. f64_lt y (decode_f64_sortable (encode_f64_sortable x)))"
    have "\<not> is_nan y" using \<open>value_clean w'\<close> y by (simp add: value_clean_def)
    from f64_past [OF le [unfolded enc_f64_le] this] p
    have "bound_or lt (\<lambda>z. f64_le z y) \<or> bound_or lte (\<lambda>z. f64_lt z y)"
      by (auto simp: f64_codec.dec_enc bound_or_def split: option.splits)
    then show "(bound_or lt (\<lambda>z. f64_le z (decode_f64_sortable (encode_f64_sortable y))) \<or>
         bound_or lte (\<lambda>z. f64_lt z (decode_f64_sortable (encode_f64_sortable y)))) \<or>
        (bound_or gt (\<lambda>z. f64_le (decode_f64_sortable (encode_f64_sortable y)) z) \<or>
         bound_or gte (\<lambda>z. f64_lt (decode_f64_sortable (encode_f64_sortable y)) z))"
      by (simp add: f64_codec.dec_enc)
  qed (simp_all add: f64_codec.enc_length num_tag)
  also have "\<dots> \<longleftrightarrow> (\<exists>d. D i = Some d \<and> index_cond jt hav bbox (CRange key gt gte lt lte) (sd_metadata d))"
  proof -
    have "\<not> ?past (encode_f64_sortable x) \<and> \<not> ?below (encode_f64_sortable x) \<longleftrightarrow> range_holds gt gte lt lte x"
      if "\<not> is_nan x" for x
    proof -
      have "bound_clean gt" "bound_clean gte" "bound_clean lt" "bound_clean lte" using c(1) by (simp_all add: cond_clean_def)
      with that show ?thesis unfolding past below range_holds_def by (auto simp: bound_open)
    qed
    then have e: "encode_f64_sortable (or_else gte gt f64_neg_infinity) \<le> encode_f64_sortable x \<and>
         \<not> ?past (encode_f64_sortable x) \<and> \<not> ?below (encode_f64_sortable x) \<longleftrightarrow>
       range_holds gt gte lt lte x \<and> f64_total (or_else gte gt f64_neg_infinity) \<le> f64_total x"
      if "D i = Some d" "map_of (sd_metadata d) key = Some w" "as_f64 w = Some x" for d w x
      using docs that by (auto simp: docs_clean_def value_clean_def enc_f64_le)
    have "index_cond jt hav bbox (CRange key gt gte lt lte) m \<longleftrightarrow> (\<exists>w x. map_of m key = Some w \<and> as_f64 w = Some x \<and>
        range_holds gt gte lt lte x \<and> f64_total (or_else gte gt f64_neg_infinity) \<le> f64_total x)" for m
      by (auto simp: index_cond_def Let_def bind_eq_Some_conv)
    then show ?thesis by (subst ex_rows_cong [OF e]) auto
  qed
  finally show ?thesis .
qed

lemma sint_of_ms: "- (2 ^ 63) \<le> t \<Longrightarrow> t < 2 ^ 63 \<Longrightarrow> sint (word_of_int t :: 64 word) = t"
  by (simp add: int_word_sint)

lemma rfc_option_bounds: "Option.bind b rfc3339_to_epoch_ms = Some t \<Longrightarrow> - (2 ^ 63) \<le> t \<and> t < 2 ^ 63"
  using rfc3339_bounds by (auto simp: bind_eq_Some_conv)

lemma scan_dt_ids:
  assumes est: "estate_of S analyze fs db D" and docs: "docs_clean fs D" and key: "SEP \<notin> set key" "key \<in> set fs"
    and bounds: "\<And>b. b \<in> {gt, gte, lt, lte} \<Longrightarrow> \<forall>t. b = Some t \<longrightarrow> - (2 ^ 63) \<le> t \<and> t < 2 ^ 63"
  shows "i \<in> scan_dt_range db key gt gte lt lte \<longleftrightarrow>
    (\<exists>d w t. D i = Some d \<and> map_of (sd_metadata d) key = Some w \<and>
       Option.bind (as_str w) rfc3339_to_epoch_ms = Some t \<and> ms_range_holds gt gte lt lte t)"
proof -
  let ?val = "\<lambda>w. Option.bind (as_str w) rfc3339_to_epoch_ms" and ?enc = "\<lambda>t. encode_i64_sortable (word_of_int t)"
  let ?past = "\<lambda>b. let x = sint (decode_i64_sortable b) in bound_or lt (\<lambda>y. y \<le> x) \<or> bound_or lte (\<lambda>y. y < x)"
  let ?below = "\<lambda>b. let x = sint (decode_i64_sortable b) in bound_or gt (\<lambda>y. x \<le> y) \<or> bound_or gte (\<lambda>y. x < y)"
  let ?lo = "or_else gte gt (- (2 ^ 63))"
  have lo: "- (2 ^ 63) \<le> ?lo" "?lo < 2 ^ 63" using bounds by (auto simp: or_else_def split: option.splits)
  have le: "?enc s \<le> ?enc t \<longleftrightarrow> s \<le> t" if "- (2 ^ 63) \<le> s" "s < 2 ^ 63" "- (2 ^ 63) \<le> t" "t < 2 ^ 63" for s t
    by (simp only: enc_i64_le sint_of_ms [OF that(1,2)] sint_of_ms [OF that(3,4)])
  have past: "?past (?enc t) \<longleftrightarrow> bound_or lt (\<lambda>y. y \<le> t) \<or> bound_or lte (\<lambda>y. y < t)"
    and below: "?below (?enc t) \<longleftrightarrow> bound_or gt (\<lambda>y. t \<le> y) \<or> bound_or gte (\<lambda>y. t < y)"
    if "- (2 ^ 63) \<le> t" "t < 2 ^ 63" for t
    by (simp_all only: Let_def i64_codec.dec_enc sint_of_ms [OF that])
  have "i \<in> scan_dt_range db key gt gte lt lte \<longleftrightarrow>
    (\<exists>d w t. D i = Some d \<and> map_of (sd_metadata d) key = Some w \<and> ?val w = Some t \<and>
       ?enc ?lo \<le> ?enc t \<and> \<not> ?past (?enc t) \<and> \<not> ?below (?enc t))"
    unfolding scan_dt_range_def Let_def [of "pidx_dt_prefix key"] Let_def [of "_ @ _"] pidx_dt_prefix_def
  proof (rule typed_scan [OF est docs key, where val = ?val and enc = ?enc])
    show "pidx_key (js_value S) key w i = (key_prefix key @ [PIDX_DT]) @ ?enc x @ SEP # i"
      if "?val w = Some x" for w x i
      using that pidx_dt_row [where jt = "js_value S" and field = key and d = i]
      by (cases w) (auto simp: as_str_def pidx_dt_prefix_def)
    fix w w' s t assume "?val w = Some s" "?val w' = Some t" and st: "?enc s \<le> ?enc t" and p: "?past (?enc s)"
    then have b: "- (2 ^ 63) \<le> s" "s < 2 ^ 63" "- (2 ^ 63) \<le> t" "t < 2 ^ 63" using rfc_option_bounds by blast+
    have "?past (?enc t)" using p st unfolding past [OF b(1,2)] past [OF b(3,4)] le [OF b]
      by (auto simp: bound_or_def split: option.splits)
    then show "?past (?enc t) \<or> ?below (?enc t)" ..
  qed (simp_all add: i64_codec.enc_length dt_tag)
  also have "\<dots> \<longleftrightarrow> (\<exists>d w t. D i = Some d \<and> map_of (sd_metadata d) key = Some w \<and> ?val w = Some t \<and> ms_range_holds gt gte lt lte t)"
  proof (rule ex_rows_cong)
    fix w t assume "?val w = Some t"
    then have b: "- (2 ^ 63) \<le> t" "t < 2 ^ 63" using rfc_option_bounds by blast+
    show "(?enc ?lo \<le> ?enc t \<and> \<not> ?past (?enc t) \<and> \<not> ?below (?enc t)) = ms_range_holds gt gte lt lte t"
      unfolding past [OF b] below [OF b] le [OF lo b] using b
      by (auto simp: ms_range_holds_def bound_or_def open_or_def or_else_def split: option.splits)
  qed
  finally show ?thesis .
qed

lemma scan_date_ids:
  assumes est: "estate_of S analyze fs db D" and docs: "docs_clean fs D" and key: "SEP \<notin> set key" "key \<in> set fs"
  defines "ms \<equiv> \<lambda>b. Option.bind b rfc3339_to_epoch_ms"
  shows "i \<in> scan_dt_range db key (ms gt) (ms gte) (ms lt) (ms lte) \<longleftrightarrow>
    (\<exists>d. D i = Some d \<and> index_cond jt hav bbox (CDateRange key gt gte lt lte) (sd_metadata d))"
proof -
  have "\<forall>t. b = Some t \<longrightarrow> - (2 ^ 63) \<le> t \<and> t < 2 ^ 63" if "b \<in> {ms gt, ms gte, ms lt, ms lte}" for b
    using that rfc_option_bounds by (auto simp: ms_def)
  from scan_dt_ids [OF est docs key this, where i = i] show ?thesis
    by (auto simp: index_cond_def Let_def ms_def bind_eq_Some_conv)
qed

lemma after_last_sep_row: "SEP \<notin> set i \<Longrightarrow> after_last_sep (a @ SEP # i) = Some i"
proof -
  assume a: "SEP \<notin> set i"
  have "takeWhile (\<lambda>c. c \<noteq> SEP) (rev i @ [SEP] @ rev a) = rev i" using a by (subst takeWhile_append2) auto
  then show ?thesis by (simp add: after_last_sep_def)
qed

lemma scan_field_ids:
  assumes est: "estate_of S analyze fs db D" and docs: "docs_clean fs D" and key: "SEP \<notin> set key" "key \<in> set fs"
  shows "i \<in> scan_field db key \<longleftrightarrow> (\<exists>d. D i = Some d \<and> index_cond jt hav bbox (CExists key) (sd_metadata d))"
proof -
  let ?p = "pidx_field_prefix key" and ?K = "pidx_key (js_value S)"
  let ?body = "\<lambda>k. case after_last_sep k of Some i \<Rightarrow> Take (from_utf8_lossy i) | None \<Rightarrow> Skip"
  have body: "?body (?K f w j) = Take j" and hit: "prefix ?p (?K f w j) \<longleftrightarrow> f = key"
    if "D j = Some d" "f \<in> set fs" for j d f w
  proof -
    have c: "SEP \<notin> set j" "utf8_valid j" "SEP \<notin> set f" using docs that by (auto simp: docs_clean_def)
    have "?K f w j = (f @ SEP # encode_pidx_value (js_value S) w) @ SEP # j" by (simp add: pidx_key_alt)
    moreover have "after_last_sep \<dots> = Some j" by (rule after_last_sep_row [OF c(1)])
    ultimately show "?body (?K f w j) = Take j" using c(2) by simp
    show "prefix ?p (?K f w j) \<longleftrightarrow> f = key"
      using field_row [OF key(1) c(3), of "[]"] by (auto simp: pidx_field_prefix_def key_prefix_def pidx_key_alt)
  qed
  have "i \<in> scan_field db key \<longleftrightarrow> (\<exists>j d f v. D j = Some d \<and> f \<in> set fs \<and> map_of (sd_metadata d) f = Some v \<and>
       (let k = ?K f v j in ?p \<le> k \<and> prefix ?p k \<and> ?body k = Take i))"
    unfolding scan_field_def Let_def [of ?p] by (rule index_scan [OF est order_refl]) (auto split: option.splits)
  also have "\<dots> \<longleftrightarrow> (\<exists>j d f v. D j = Some d \<and> f \<in> set fs \<and> map_of (sd_metadata d) f = Some v \<and> f = key \<and> j = i)"
    using body hit prefix_less_eq unfolding Let_def by (intro ex_cong1) (metis scan_step.inject)
  also have "\<dots> \<longleftrightarrow> (\<exists>d. D i = Some d \<and> index_cond jt hav bbox (CExists key) (sd_metadata d))"
    using key(2) by (auto simp: index_cond_def Let_def)
  finally show ?thesis .
qed

lemma scan_geo_loop_ids:
  assumes docs: "docs_of S (get_cf db) D"
  shows "scan_geo_loop S hav db p z c rows =
    Inr (scan_loop p (typed_body p (\<lambda>b. z < of_u64_be b) (\<lambda>b. False)) rows \<inter>
         {i. \<exists>d. D i = Some d \<and> cond_matches hav c (sd_metadata d)})"
proof (induction rows)
  case (Cons x rows)
  obtain k v where x: "x = (k, v)" by (cases x)
  show ?case
  proof (cases "typed_body p (\<lambda>b. z < of_u64_be b) (\<lambda>b. False) k")
    case (Take i)
    then show ?thesis by (cases "D i") (auto simp: x Cons.IH get_json_doc [OF docs])
  qed (auto simp: x Cons.IH)
qed simp

lemma scan_geo_ids:
  assumes est: "estate_of S analyze fs db D" and docs: "docs_clean fs D" and key: "SEP \<notin> set key" "key \<in> set fs"
  shows "scan_geo S hav db key lat_min lon_min lat_max lon_max c =
    Inr {i. \<exists>d. D i = Some d \<and> cond_matches hav c (sd_metadata d) \<and>
      (\<exists>q. Option.bind (map_of (sd_metadata d) key) point_of = Some q \<and>
         morton lat_min lon_min \<le> morton (fst q) (snd q) \<and> morton (fst q) (snd q) \<le> morton lat_max lon_max)}"
proof -
  let ?val = "\<lambda>w. map_option (\<lambda>q. morton (fst q) (snd q)) (point_of w)"
  let ?past = "\<lambda>b. morton lat_max lon_max < of_u64_be b" and ?lo = "morton lat_min lon_min"
  have le: "u64_be x \<le> u64_be y \<longleftrightarrow> x \<le> y" for x y
    by (simp add: u64_codec.enc_le word_le_nat_alt not_less)
  have d: "docs_of S (get_cf db) D" using est by (simp add: estate_of_def view_of_def)
  have "i \<in> scan_loop (pidx_geo_prefix key) (typed_body (pidx_geo_prefix key) ?past (\<lambda>b. False))
      (iter_from db CfPidx (pidx_geo_prefix key @ u64_be ?lo)) \<longleftrightarrow>
    (\<exists>d w x. D i = Some d \<and> map_of (sd_metadata d) key = Some w \<and> ?val w = Some x \<and>
       u64_be ?lo \<le> u64_be x \<and> \<not> ?past (u64_be x) \<and> \<not> False)" for i
    unfolding pidx_geo_prefix_def
  proof (rule typed_scan [OF est docs key, where val = ?val and enc = u64_be])
    show "pidx_key (js_value S) key w i = (key_prefix key @ [PIDX_GEO]) @ u64_be x @ SEP # i"
      if "?val w = Some x" for w x i
      using that geo_row [where jt = "js_value S" and f = key and w = w and i = i] by (auto simp: pidx_geo_prefix_def)
    show "?past (u64_be y) \<or> False" if "u64_be x \<le> u64_be y" "?past (u64_be x)" for x y
      using that by (simp add: le)
  qed (auto simp: geo_tag)
  then have "i \<in> scan_loop (pidx_geo_prefix key) (typed_body (pidx_geo_prefix key) ?past (\<lambda>b. False))
      (iter_from db CfPidx (pidx_geo_prefix key @ u64_be ?lo)) \<longleftrightarrow>
    (\<exists>d q. D i = Some d \<and> Option.bind (map_of (sd_metadata d) key) point_of = Some q \<and>
       ?lo \<le> morton (fst q) (snd q) \<and> morton (fst q) (snd q) \<le> morton lat_max lon_max)" for i
    by (auto simp: le not_less bind_eq_Some_conv)
  then show ?thesis unfolding scan_geo_def Let_def scan_geo_loop_ids [OF d] by auto
qed

text \<open>The ids of a condition are those of the documents it reads as true.\<close>

lemma fold_union: "fold (\<lambda>v out. out \<union> f v) vs acc = acc \<union> \<Union> (f ` set vs)"
  by (induction vs arbitrary: acc) auto

lemma condition_ids:
  assumes est: "estate_of S analyze fs db D" and docs: "docs_clean fs D" and jt: "text_clean (js_value S)"
    and c: "cond_clean c" "cond_key c \<in> set fs"
  shows "ids_for_condition S hav bbox db c =
    Inr {i. \<exists>d. D i = Some d \<and> index_cond (js_value S) hav bbox c (sd_metadata d)}"
proof (cases c)
  case (CEq key v)
  then have "value_clean v" "SEP \<notin> set key" "key \<in> set fs" using c by (auto simp: cond_clean_def)
  from scan_value_ids [OF est docs jt this] show ?thesis
    by (auto simp: CEq ids_for_condition_def index_cond_def Let_def)
next
  case (CAny key vs)
  then have v: "\<forall>v \<in> set vs. value_clean v" "SEP \<notin> set key" "key \<in> set fs" using c by (auto simp: cond_clean_def list_all_iff)
  have "i \<in> scan_value S db key v \<longleftrightarrow> (\<exists>d w. D i = Some d \<and> map_of (sd_metadata d) key = Some w \<and>
       encode_pidx_value (js_value S) w = encode_pidx_value (js_value S) v)" if "v \<in> set vs" for i v
    by (rule scan_value_ids [OF est docs jt]) (use v that in auto)
  then have "\<Union> (scan_value S db key ` set vs) =
      {i. \<exists>d. D i = Some d \<and> index_cond (js_value S) hav bbox (CAny key vs) (sd_metadata d)}"
    by (auto simp: index_cond_def Let_def image_iff) (metis | blast)+
  then show ?thesis by (simp add: CAny ids_for_condition_def fold_union)
next
  case (CRange key gt gte lt lte)
  have "scan_range db key gt gte lt lte =
      {i. \<exists>d. D i = Some d \<and> index_cond (js_value S) hav bbox (CRange key gt gte lt lte) (sd_metadata d)}"
    using scan_range_ids [OF est docs c(1) [unfolded CRange]] c(2) by (auto simp: CRange)
  then show ?thesis by (simp add: CRange ids_for_condition_def)
next
  case (CDateRange key gt gte lt lte)
  then have key: "SEP \<notin> set key" "key \<in> set fs" using c by (auto simp: cond_clean_def)
  have "scan_dt_range db key (Option.bind gt rfc3339_to_epoch_ms) (Option.bind gte rfc3339_to_epoch_ms)
      (Option.bind lt rfc3339_to_epoch_ms) (Option.bind lte rfc3339_to_epoch_ms) =
      {i. \<exists>d. D i = Some d \<and> index_cond (js_value S) hav bbox (CDateRange key gt gte lt lte) (sd_metadata d)}"
    using scan_date_ids [OF est docs key] by blast
  then show ?thesis by (simp add: CDateRange ids_for_condition_def Let_def)
next
  case (CGeoRadius key lat lon r)
  then have key: "SEP \<notin> set key" "key \<in> set fs" using c by (auto simp: cond_clean_def)
  show ?thesis unfolding ids_for_condition_def CGeoRadius
    by (auto simp: scan_geo_ids [OF est docs key] index_cond_def Let_def split: prod.split)
next
  case (CGeoBox key a b a' b')
  then have key: "SEP \<notin> set key" "key \<in> set fs" using c by (auto simp: cond_clean_def)
  show ?thesis unfolding ids_for_condition_def CGeoBox
    by (auto simp: scan_geo_ids [OF est docs key] index_cond_def Let_def)
next
  case (CExists key)
  then have key: "SEP \<notin> set key" "key \<in> set fs" using c by (auto simp: cond_clean_def)
  have "scan_field db key = {i. \<exists>d. D i = Some d \<and> index_cond (js_value S) hav bbox (CExists key) (sd_metadata d)}"
    using scan_field_ids [OF est docs key] by blast
  then show ?thesis by (simp add: CExists ids_for_condition_def)
qed

section \<open>Whole filters\<close>

lemma union_loop_ids:
  "(\<And>c. c \<in> set cs \<Longrightarrow> ids c = Inr (M c)) \<Longrightarrow> union_loop ids cs u = Inr (u \<union> \<Union> (M ` set cs))"
  by (induction cs arbitrary: u) (auto simp: Un_assoc)

lemma minus_loop_ids:
  "(\<And>c. c \<in> set cs \<Longrightarrow> ids c = Inr (M c)) \<Longrightarrow> minus_loop ids cs u = Inr (u - \<Union> (M ` set cs))"
  by (induction cs arbitrary: u) (auto simp: Diff_eq Int_assoc)

definition meet :: "bytes set option \<Rightarrow> ('c \<Rightarrow> bytes set) \<Rightarrow> 'c list \<Rightarrow> bytes set option" where
  "meet acc M cs =
     (if cs = [] then acc else Some ((case acc of None \<Rightarrow> UNIV | Some s \<Rightarrow> s) \<inter> \<Inter> (M ` set cs)))"

lemma must_loop_ids:
  "(\<And>c. c \<in> set cs \<Longrightarrow> ids c = Inr (M c)) \<Longrightarrow>
   must_loop ids cs acc = Inr (Acc (meet acc M cs)) \<or> must_loop ids cs acc = Inr Empty \<and> meet acc M cs = Some {}"
proof (induction cs arbitrary: acc)
  case (Cons c cs)
  let ?s = "case acc of None \<Rightarrow> M c | Some prev \<Rightarrow> prev \<inter> M c"
  have m: "meet acc M (c # cs) = meet (Some ?s) M cs" by (cases acc) (auto simp: meet_def)
  have c: "ids c = Inr (M c)" using Cons.prems by simp
  show ?case
  proof (cases "?s = {}")
    case True
    then have "meet acc M (c # cs) = Some {}" unfolding m by (simp add: meet_def)
    with True show ?thesis by (simp add: c)
  next
    case False
    with Cons.IH [of "Some ?s"] Cons.prems show ?thesis unfolding m by (simp add: c)
  qed
qed (simp add: meet_def)

lemma ids_where_ids:
  assumes est: "estate_of S analyze fs db D" and docs: "docs_clean fs D" and jt: "text_clean (js_value S)"
    and f: "f_must f \<noteq> [] \<or> f_should f \<noteq> []" "set (filter_keys f) \<subseteq> set fs"
      "\<forall>c \<in> set (f_must f @ f_should f @ f_must_not f). cond_clean c"
  shows "ids_where S hav bbox db f =
    Inr (Some (sorted_list_of_set {i. \<exists>d. D i = Some d \<and> index_matches (js_value S) hav bbox f (sd_metadata d)}))"
proof -
  define M where "M c = {i. \<exists>d. D i = Some d \<and> index_cond (js_value S) hav bbox c (sd_metadata d)}" for c
  let ?ids = "ids_for_condition S hav bbox db"
  have keys: "cond_key c \<in> set fs" if "c \<in> set (f_must f @ f_should f @ f_must_not f)" for c
    using f(2) that by (auto simp: filter_keys_def)
  have ids: "?ids c = Inr (M c)" if "c \<in> set (f_must f @ f_should f @ f_must_not f)" for c
    unfolding M_def by (rule condition_ids [OF est docs jt]) (use f(3) keys that in blast)+
  have "indexed_fields S db = Inr fs" using est by (simp add: estate_of_def)
  moreover have "list_all (\<lambda>k. k \<in> set fs) (filter_keys f)" using f(2) by (auto simp: list_all_iff)
  ultimately have start: "ids_where S hav bbox db f =
      bind_result (must_loop ?ids (f_must f) None) (\<lambda>m.
            case m of
              Empty \<Rightarrow> Inr (Some [])
            | Acc acc \<Rightarrow>
                bind_result
                  (if f_should f = [] then Inr acc
                   else bind_result (union_loop ?ids (f_should f) {}) (\<lambda>u.
                     Inr (Some (case acc of None \<Rightarrow> u | Some prev \<Rightarrow> prev \<inter> u)))) (\<lambda>acc'.
                bind_result (minus_loop ?ids (f_must_not f) (case acc' of None \<Rightarrow> {} | Some s \<Rightarrow> s)) (\<lambda>s.
                  Inr (Some (sorted_list_of_set s)))))"
    using f(1) by (auto simp: ids_where_def Let_def)
  define A where "A = (if f_should f = [] then meet None M (f_must f)
    else Some (case meet None M (f_must f) of None \<Rightarrow> \<Union> (M ` set (f_should f)) | Some prev \<Rightarrow> prev \<inter> \<Union> (M ` set (f_should f))))"
  let ?R = "{i. \<exists>d. D i = Some d \<and> index_matches (js_value S) hav bbox f (sd_metadata d)}"
  have res: "(case A of None \<Rightarrow> {} | Some s \<Rightarrow> s) - \<Union> (M ` set (f_must_not f)) = ?R"
    using f(1) by (cases "f_must f = []"; cases "f_should f = []")
      (auto simp: A_def meet_def M_def index_matches_def neq_Nil_conv)
  have un: "union_loop ?ids (f_should f) {} = Inr (\<Union> (M ` set (f_should f)))"
    using union_loop_ids [of "f_should f" ?ids M "{}"] ids by simp
  have mi: "minus_loop ?ids (f_must_not f) u = Inr (u - \<Union> (M ` set (f_must_not f)))" for u
    by (rule minus_loop_ids) (use ids in simp)
  have "must_loop ?ids (f_must f) None = Inr (Acc (meet None M (f_must f))) \<or>
      must_loop ?ids (f_must f) None = Inr Empty \<and> meet None M (f_must f) = Some {}"
    by (rule must_loop_ids) (use ids in simp)
  then show ?thesis
  proof (elim disjE conjE)
    assume m: "must_loop ?ids (f_must f) None = Inr (Acc (meet None M (f_must f)))"
    show ?thesis unfolding start m res [symmetric] by (simp add: un mi A_def)
  next
    assume m: "must_loop ?ids (f_must f) None = Inr Empty" and e: "meet None M (f_must f) = Some {}"
    have "?R = {}" unfolding res [symmetric] by (simp add: A_def e)
    show ?thesis unfolding start m \<open>?R = {}\<close> by simp
  qed
qed

text \<open>The sample document, for the theorems below.\<close>

abbreviation "sample_docs_map \<equiv> add_docs sample_words [sample_record] Map.empty"

lemma sample_docs_map: "sample_docs_map = [''a'' \<mapsto> stored_of sample_words sample_record]"
  by (simp add: add_docs_def sample_record_def vector_record_new_def)

lemma sample_metadata: "vr_metadata sample_record = [(''tag'', JBool True)]"
  by (simp add: sample_record_def vector_record_new_def)

lemma sample_clean: "docs_clean [''tag''] sample_docs_map" "text_clean (js_value sample_serde)"
proof -
  show "docs_clean [''tag''] sample_docs_map"
    unfolding sample_docs_map docs_clean_def
    by (auto simp: sample_metadata value_clean_def as_f64_def SEP_def split: if_splits) (code_simp)
  show "text_clean (js_value sample_serde)" by (simp add: text_clean_def sample_serde_def SEP_def)
qed

text \<open>C5: the index-first answer to a filter on indexed fields is the ascending list of exactly the
  documents whose metadata the index reading of the filter accepts.\<close>

theorem ids_where_refines:
  assumes est: "estate_of S analyze fs db D" and docs: "docs_clean fs D" and jt: "text_clean (js_value S)"
    and f: "f_must f \<noteq> [] \<or> f_should f \<noteq> []" "set (filter_keys f) \<subseteq> set fs"
      "\<forall>c \<in> set (f_must f @ f_should f @ f_must_not f). cond_clean c"
  shows "ids_where S hav bbox db f =
    Inr (Some (sorted_list_of_set {i. \<exists>d. D i = Some d \<and> index_matches (js_value S) hav bbox f (sd_metadata d)}))"
  by (rule ids_where_ids [OF assms])

theorem ids_where_refines_witness:
  "\<exists>db. ids_where sample_serde (\<lambda>_ _ _ _. f64_zero) (\<lambda>_ _ _. ((f64_zero, f64_zero), (f64_zero, f64_zero))) db
     \<lparr>f_must = [CEq ''tag'' (JBool True)], f_should = [CExists ''tag''], f_must_not = []\<rparr> = Inr (Some [''a''])"
proof -
  let ?f = "\<lparr>f_must = [CEq ''tag'' (JBool True)], f_should = [CExists ''tag''], f_must_not = []\<rparr>"
  obtain db where est: "estate_of sample_serde sample_words [''tag''] db sample_docs_map" using sample_after by blast
  have cc: "\<forall>c \<in> set (f_must ?f @ f_should ?f @ f_must_not ?f). cond_clean c"
    by (simp add: cond_clean_def value_clean_def as_f64_def SEP_def)
  have set: "{i. \<exists>d. sample_docs_map i = Some d \<and>
      index_matches (js_value sample_serde) (\<lambda>_ _ _ _. f64_zero) (\<lambda>_ _ _. ((f64_zero, f64_zero), (f64_zero, f64_zero))) ?f (sd_metadata d)} = {''a''}"
    unfolding sample_docs_map by (auto simp: sample_metadata index_matches_def index_cond_def Let_def split: if_splits)
  from ids_where_refines [OF est sample_clean _ _ cc, where hav = "\<lambda>_ _ _ _. f64_zero" and bbox = "\<lambda>_ _ _. ((f64_zero, f64_zero), (f64_zero, f64_zero))"]
  show ?thesis unfolding set by (auto simp: filter_keys_def)
qed

text \<open>The index reading is not the condition: an equality with a float finds an integer of the
  same value, which the condition rejects, and an equality with \<open>-0.0\<close> does not find the \<open>0.0\<close>
  that the condition accepts.\<close>

lemma index_first_differs:
  fixes key :: bytes and n :: "64 word"
  shows "let eq = (\<lambda>v. \<lparr>f_must = [CEq key (JNum v)], f_should = [], f_must_not = []\<rparr>) in
    index_matches jt hav bbox (eq (Float (f64_of_nat (unat n)))) [(key, JNum (PosInt n))] \<and>
    \<not> filter_matches hav (eq (Float (f64_of_nat (unat n)))) [(key, JNum (PosInt n))] \<and>
    filter_matches hav (eq (Float f64_neg_zero)) [(key, JNum (Float f64_zero))] \<and>
    \<not> index_matches jt hav bbox (eq (Float f64_neg_zero)) [(key, JNum (Float f64_zero))]"
proof -
  have "f64_eq f64_zero f64_neg_zero"
    by (simp add: f64_eq_def is_nan_def f64_mag_def inf_mag_def take_bit_eq_mod f64_rank_def f64_sign_def f64_zero_def f64_neg_zero_def)
  moreover have "encode_f64_sortable f64_zero \<noteq> encode_f64_sortable f64_neg_zero"
    by (simp add: f64_codec.enc_inject f64_zero_def f64_neg_zero_def)
  ultimately show ?thesis
    by (simp add: Let_def index_matches_def filter_matches_def index_cond_def encode_pidx_value_def as_f64_def)
qed

end
