(* ===== verification/EstateProps.thy ===== *)
theory EstateProps
  imports Estate FilterProps
begin

text \<open>
  Payload indexes: creating one makes the estate an estate of the longer field list, and rebuilding
  one restores the estate whatever its rows had become.  Tags: the rows refine a set of pairs, and the
  listings are its sorted projections.
\<close>

section \<open>Payload indexes\<close>

text \<open>The index rows of a field, for the document rows given.\<close>

definition field_keys :: "serde \<Rightarrow> bytes \<Rightarrow> rows \<Rightarrow> bytes list" where
  "field_keys S field r =
     List.map_filter (\<lambda>kv. case js_doc_of S (snd kv) of None \<Rightarrow> None
       | Some d \<Rightarrow> map_option (\<lambda>x. pidx_key (js_value S) field x (sd_id d)) (map_of (sd_metadata d) field)) r"

definition parsed :: "serde \<Rightarrow> rows \<Rightarrow> bool" where
  "parsed S r \<longleftrightarrow> (\<forall>kv \<in> set r. js_doc_of S (snd kv) \<noteq> None)"

definition index_puts :: "bytes list \<Rightarrow> batch" where
  "index_puts ks = map (\<lambda>k. OpPut CfPidx k []) ks"

lemma field_keys_simps [simp]:
  "field_keys S field [] = []"
  "field_keys S field (kv # r) =
     (case js_doc_of S (snd kv) of None \<Rightarrow> field_keys S field r
      | Some d \<Rightarrow> (case map_of (sd_metadata d) field of None \<Rightarrow> field_keys S field r
          | Some x \<Rightarrow> pidx_key (js_value S) field x (sd_id d) # field_keys S field r))"
  by (simp_all add: field_keys_def split: option.split)

lemma plain_index_puts [simp]: "list_all plain_op (index_puts ks)"
  by (simp add: index_puts_def list_all_iff)

lemma index_puts_simps [simp]:
  "index_puts [] = []" "index_puts (k # ks) = OpPut CfPidx k [] # index_puts ks"
  "index_puts (a @ b) = index_puts a @ index_puts b"
  by (simp_all add: index_puts_def)

lemma get_index_puts:
  "db_ok db \<Longrightarrow> get_cf (db_write db (index_puts ks)) c k = (if c = CfPidx \<and> k \<in> set ks then Some [] else get_cf db c k)"
  by (simp add: get_write_plain) (induction ks arbitrary: db rule: rev_induct; auto simp: op_effect_def)

lemma backfill_spec:
  assumes "db_ok db" "parsed S r"
  shows "\<exists>db' ks'. backfill S field r (index_puts ks) n db = (db', Inr (index_puts ks')) \<and> db_ok db' \<and>
    (\<forall>c k. get_cf (db_write db' (index_puts ks')) c k = get_cf (db_write db (index_puts (ks @ field_keys S field r))) c k)"
  using assms
proof (induction r arbitrary: ks n db)
  case (Cons kv r)
  obtain key v where kv: "kv = (key, v)" by (cases kv)
  from Cons.prems obtain d where d: "js_doc_of S v = Some d" and r: "parsed S r" by (auto simp: parsed_def kv)
  show ?case
  proof (cases "map_of (sd_metadata d) field")
    case None
    with Cons.IH [OF Cons.prems(1) r, of ks n] show ?thesis by (simp add: kv d del: index_puts_simps)
  next
    case (Some x)
    let ?ks = "ks @ [pidx_key (js_value S) field x (sd_id d)]"
    have b: "index_puts ks @ [OpPut CfPidx (pidx_key (js_value S) field x (sd_id d)) []] = index_puts ?ks" by simp
    show ?thesis
    proof (cases "(n + 1) mod 4096 = 0")
      case True
      let ?db = "db_write db (index_puts ?ks)"
      have ok: "db_ok ?db" using Cons.prems(1) by simp
      have step: "backfill S field (kv # r) (index_puts ks) n db = backfill S field r (index_puts []) (n + 1) ?db"
        by (simp add: kv d Some b True Let_def del: index_puts_simps) simp
      obtain db' ks' where ih: "backfill S field r (index_puts []) (n + 1) ?db = (db', Inr (index_puts ks'))" "db_ok db'"
        "\<forall>c k. get_cf (db_write db' (index_puts ks')) c k = get_cf (db_write ?db (index_puts ([] @ field_keys S field r))) c k"
        using Cons.IH [OF ok r] by blast
      have "get_cf (db_write ?db (index_puts ([] @ field_keys S field r))) c k =
          get_cf (db_write db (index_puts (ks @ field_keys S field (kv # r)))) c k" for c k
        using ok Cons.prems(1) by (simp only: get_index_puts) (auto simp: kv d Some)
      then show ?thesis unfolding step using ih by auto
    next
      case False
      have step: "backfill S field (kv # r) (index_puts ks) n db = backfill S field r (index_puts ?ks) (n + 1) db"
        by (simp add: kv d Some b False Let_def del: index_puts_simps)
      have keys: "?ks @ field_keys S field r = ks @ field_keys S field (kv # r)" by (simp add: kv d Some)
      show ?thesis using Cons.IH [OF Cons.prems(1) r, of ?ks "n + 1"] unfolding step keys .
    qed
  qed
qed auto

lemma index_rows_of_parsed: "parsed S r \<Longrightarrow> index_rows_of S field r = Inr (index_puts (field_keys S field r))"
  by (induction r) (auto simp: parsed_def split: option.split)

text \<open>The rows of the documents of an estate.\<close>

definition ids_stored :: "docs \<Rightarrow> bool" where
  "ids_stored D \<longleftrightarrow> (\<forall>i d. D i = Some d \<longrightarrow> sd_id d = i)"

lemma doc_rows:
  assumes "db_ok db" "docs_of S (get_cf db) D"
  shows "parsed S (iter_all db CfDocs)"
    and "(\<exists>k v. (k, v) \<in> set (iter_all db CfDocs) \<and> js_doc_of S v = Some d \<and> k = i) \<longleftrightarrow> D i = Some d"
proof -
  have ok: "rows_ok (db CfDocs)" using assms(1) by (simp add: db_ok_def)
  have row: "(k, v) \<in> set (iter_all db CfDocs) \<longleftrightarrow> get_cf db CfDocs k = Some v" for k v
    using row_get_iff [OF ok] by (simp add: iter_all_def get_cf_def)
  have D: "map_option (js_doc_of S) (get_cf db CfDocs k) = map_option Some (D k)" for k
    using assms(2) by (simp add: docs_of_def)
  show "parsed S (iter_all db CfDocs)" unfolding parsed_def
  proof
    fix kv assume "kv \<in> set (iter_all db CfDocs)"
    then have "get_cf db CfDocs (fst kv) = Some (snd kv)" using row [of "fst kv" "snd kv"] by simp
    then show "js_doc_of S (snd kv) \<noteq> None" using D [of "fst kv"] by (cases "D (fst kv)") auto
  qed
  show "(\<exists>k v. (k, v) \<in> set (iter_all db CfDocs) \<and> js_doc_of S v = Some d \<and> k = i) \<longleftrightarrow> D i = Some d"
    using D [of i] by (cases "get_cf db CfDocs i"; cases "D i") (auto simp: row)
qed

lemma set_field_keys:
  assumes "db_ok db" "docs_of S (get_cf db) D" "ids_stored D"
  shows "k \<in> set (field_keys S field (iter_all db CfDocs)) \<longleftrightarrow>
    (\<exists>i d v. D i = Some d \<and> map_of (sd_metadata d) field = Some v \<and> k = pidx_key (js_value S) field v i)"
proof -
  have "k \<in> set (field_keys S field r) \<longleftrightarrow>
      (\<exists>key v d x. (key, v) \<in> set r \<and> js_doc_of S v = Some d \<and> map_of (sd_metadata d) field = Some x \<and>
         k = pidx_key (js_value S) field x (sd_id d))" for r
  proof (induction r)
    case (Cons kv r)
    then show ?case by (cases kv) (auto split: option.split)
  qed simp
  also have "\<dots> (iter_all db CfDocs) \<longleftrightarrow>
      (\<exists>i d x. D i = Some d \<and> map_of (sd_metadata d) field = Some x \<and> k = pidx_key (js_value S) field x (sd_id d))"
    using doc_rows(2) [OF assms(1,2)] by blast
  also have "\<dots> \<longleftrightarrow> (\<exists>i d v. D i = Some d \<and> map_of (sd_metadata d) field = Some v \<and> k = pidx_key (js_value S) field v i)"
    using assms(3) unfolding ids_stored_def by metis
  finally show ?thesis .
qed

lemma estate_reindex:
  assumes "estate_of S analyze fs db D" "db_ok db'"
    and frame: "\<And>c k. c \<noteq> CfPidx \<Longrightarrow> c \<noteq> CfMeta \<or> k \<noteq> META_PIDX \<Longrightarrow> get_cf db' c k = get_cf db c k"
    and "indexed_fields S db' = Inr fs'" "family_of (pidx_rows (js_value S) fs') (get_cf db' CfPidx) D"
  shows "estate_of S analyze fs' db' D"
proof -
  have f: "get_cf db' c = get_cf db c" if "c \<noteq> CfPidx" "c \<noteq> CfMeta" for c
    using frame that by (simp add: fun_eq_iff)
  have v: "docs_of S (get_cf db') D \<longleftrightarrow> docs_of S (get_cf db) D" by (simp add: docs_of_def f)
  have m: "get_u64 db' META_DOC_COUNT = get_u64 db META_DOC_COUNT" using frame by (simp add: get_u64_def meta_key_defs)
  show ?thesis using assms by (simp add: estate_of_def view_of_def f m v)
qed

lemma pidx_family:
  assumes "\<And>k. g k \<noteq> None \<longleftrightarrow>
      (\<exists>i d v. D i = Some d \<and> map_of (sd_metadata d) field = Some v \<and> k = pidx_key jt field v i) \<or> old k"
    and "\<And>k. old k \<longleftrightarrow> (\<exists>i d f v. D i = Some d \<and> f \<in> F \<and> map_of (sd_metadata d) f = Some v \<and> k = pidx_key jt f v i)"
    and "set fs' = insert field F"
  shows "family_of (pidx_rows jt fs') g D"
  unfolding family_of_def pidx_rows_def assms(1,2,3) by blast

lemma iff_or: "(A \<longleftrightarrow> P \<or> G) \<Longrightarrow> (G \<or> P \<longleftrightarrow> R \<or> P) \<Longrightarrow> (A \<longleftrightarrow> P \<or> R)"
  by blast

lemma index_effect:
  assumes est: "estate_of S analyze fs db D" and st: "ids_stored D" and ok: "db_ok dbx" "db_ok db'"
    and docs: "\<And>k. get_cf dbx CfDocs k = get_cf db CfDocs k"
    and get: "\<And>c k. get_cf db' c k = (if c = CfPidx \<and> k \<in> set (field_keys S field (iter_all dbx CfDocs)) then Some [] else g c k)"
    and frame: "\<And>c k. c \<noteq> CfPidx \<Longrightarrow> c \<noteq> CfMeta \<or> k \<noteq> META_PIDX \<Longrightarrow> g c k = get_cf db c k"
    and idx: "indexed_fields S db' = Inr fs'" "set fs' = insert field F" "F \<subseteq> set fs"
    and old: "\<And>k. g CfPidx k \<noteq> None \<or> (\<exists>i d v. D i = Some d \<and> map_of (sd_metadata d) field = Some v \<and> k = pidx_key (js_value S) field v i) \<longleftrightarrow>
      (\<exists>i d f v. D i = Some d \<and> f \<in> F \<and> map_of (sd_metadata d) f = Some v \<and> k = pidx_key (js_value S) f v i) \<or>
      (\<exists>i d v. D i = Some d \<and> map_of (sd_metadata d) field = Some v \<and> k = pidx_key (js_value S) field v i)"
  shows "estate_of S analyze fs' db' D"
proof (rule estate_reindex [OF est ok(2)])
  have d: "docs_of S (get_cf dbx) D" using est docs by (simp add: estate_of_def view_of_def docs_of_def)
  show "get_cf db' c k = get_cf db c k" if "c \<noteq> CfPidx" "c \<noteq> CfMeta \<or> k \<noteq> META_PIDX" for c k
    using frame [OF that] that by (simp add: get)
  have "get_cf db' CfPidx k \<noteq> None \<longleftrightarrow>
      (\<exists>i d v. D i = Some d \<and> map_of (sd_metadata d) field = Some v \<and> k = pidx_key (js_value S) field v i) \<or>
      (\<exists>i d f v. D i = Some d \<and> f \<in> F \<and> map_of (sd_metadata d) f = Some v \<and> k = pidx_key (js_value S) f v i)"
    (is "_ \<longleftrightarrow> ?own \<or> ?rest") for k
  proof -
    have "get_cf db' CfPidx k \<noteq> None \<longleftrightarrow> ?own \<or> g CfPidx k \<noteq> None"
      unfolding get set_field_keys [OF ok(1) d st, of k field] by (cases ?own) (simp_all only: simp_thms if_True if_False option.distinct)
    then show ?thesis using old [of k] by (rule iff_or)
  qed
  then show "family_of (pidx_rows (js_value S) fs') (get_cf db' CfPidx) D"
    by (rule pidx_family) (rule refl, rule idx(2))
qed (rule idx(1))

lemma create_index_estate:
  assumes est: "estate_of S analyze fs db D" and st: "ids_stored D"
    and js: "js_names_of S (js_names S (fs @ [field])) = Some (fs @ [field])"
  shows "\<exists>db'. create_payload_index S field db = (db', None) \<and>
    estate_of S analyze (if field \<in> set fs then fs else fs @ [field]) db' D"
proof (cases "field \<in> set fs")
  case True
  then show ?thesis using est by (simp add: create_payload_index_def estate_of_def)
next
  case False
  let ?db1 = "put_json (js_names S) (fs @ [field]) CfMeta META_PIDX db" and ?fs = "fs @ [field]"
  have ok: "db_ok db" "db_ok ?db1" and fs: "indexed_fields S db = Inr fs" using est by (auto simp: estate_of_def put_json_def)
  have g1: "get_cf ?db1 c k = (if c = CfMeta \<and> k = META_PIDX then Some (js_names S ?fs) else get_cf db c k)" for c k
    by (simp add: put_json_def ok)
  have d1: "docs_of S (get_cf ?db1) D" using est g1 by (simp add: estate_of_def view_of_def docs_of_def)
  obtain db2 ks where bf: "backfill S field (iter_all ?db1 CfDocs) [] 0 ?db1 = (db2, Inr (index_puts ks))" "db_ok db2"
    "\<And>c k. get_cf (db_write db2 (index_puts ks)) c k =
      get_cf (db_write ?db1 (index_puts (field_keys S field (iter_all ?db1 CfDocs)))) c k"
    using backfill_spec [OF ok(2) doc_rows(1) [OF ok(2) d1], of field "[]" 0] by auto
  let ?db' = "db_write db2 (index_puts ks)"
  have get: "get_cf ?db' c k =
      (if c = CfPidx \<and> k \<in> set (field_keys S field (iter_all ?db1 CfDocs)) then Some [] else get_cf ?db1 c k)" for c k
    unfolding bf(3) by (rule get_index_puts [OF ok(2)])
  have "estate_of S analyze ?fs ?db' D"
  proof (rule index_effect [where dbx = ?db1 and g = "get_cf ?db1" and F = "set fs", OF est st ok(2) _ _ get])
    show "indexed_fields S ?db' = Inr ?fs" by (simp add: indexed_fields_def get_json_def get g1 js)
    show "(get_cf ?db1 CfPidx k \<noteq> None \<or> (\<exists>i d v. D i = Some d \<and> map_of (sd_metadata d) field = Some v \<and> k = pidx_key (js_value S) field v i)) =
      ((\<exists>i d f v. D i = Some d \<and> f \<in> set fs \<and> map_of (sd_metadata d) f = Some v \<and> k = pidx_key (js_value S) f v i) \<or>
       (\<exists>i d v. D i = Some d \<and> map_of (sd_metadata d) field = Some v \<and> k = pidx_key (js_value S) field v i))" for k
      by (simp only: g1 index_rows [OF est] cf.distinct simp_thms if_False)
  qed (use bf(2) in \<open>auto simp: g1\<close>)
  moreover have "create_payload_index S field db = (?db', None)"
    by (simp add: create_payload_index_def fs False Let_def bf(1))
  ultimately show ?thesis using False by auto
qed

lemma get_deletes_puts:
  assumes "db_ok db"
  shows "get_cf (db_write db (map (\<lambda>kv. OpDelete CfPidx (fst kv)) r @ index_puts ks)) c k =
    (if c = CfPidx \<and> k \<in> set ks then Some [] else if c = CfPidx \<and> k \<in> fst ` set r then None else get_cf db c k)"
proof -
  have "list_all plain_op (map (\<lambda>kv. OpDelete CfPidx (fst kv)) r @ index_puts ks)"
    using plain_index_puts [of ks] by (auto simp: list_all_iff)
  moreover have "fold (op_effect c k) (map (\<lambda>kv. OpDelete CfPidx (fst kv)) r) old =
      (if c = CfPidx \<and> k \<in> fst ` set r then None else old)" for old
    by (induction r arbitrary: old) (auto simp: op_effect_def)
  moreover have "fold (op_effect c k) (index_puts ks) old = (if c = CfPidx \<and> k \<in> set ks then Some [] else old)" for old
    by (induction ks arbitrary: old) (auto simp: op_effect_def)
  ultimately show ?thesis by (simp add: get_write_plain [OF assms])
qed

lemma rebuild_index_estate:
  assumes est: "estate_of S analyze fs db0 D" and st: "ids_stored D" and ok: "db_ok db"
    and clean: "\<forall>f \<in> set fs. SEP \<notin> set f" and mem: "field \<in> set fs"
    and damage: "\<And>c k. c = CfPidx \<longrightarrow> \<not> prefix (pidx_field_prefix field) k \<Longrightarrow> get_cf db c k = get_cf db0 c k"
  shows "\<exists>db'. rebuild_payload_index S field db = Inr db' \<and> estate_of S analyze fs db' D"
proof -
  let ?p = "pidx_field_prefix field"
  have ok0: "db_ok db0" and fs0: "indexed_fields S db0 = Inr fs" using est by (auto simp: estate_of_def)
  have fs: "indexed_fields S db = Inr fs" using fs0 damage [of CfMeta] by (simp add: indexed_fields_def get_json_def)
  have d: "docs_of S (get_cf db) D" using est damage [of CfDocs] by (simp add: estate_of_def view_of_def docs_of_def)
  define g where "g c k = (if c = CfPidx \<and> prefix ?p k then None else get_cf db c k)" for c k
  let ?b = "map (\<lambda>kv. OpDelete CfPidx (fst kv)) (scan_cf db CfPidx ?p) @ index_puts (field_keys S field (iter_all db CfDocs))"
  have get: "get_cf (db_write db ?b) c k =
      (if c = CfPidx \<and> k \<in> set (field_keys S field (iter_all db CfDocs)) then Some [] else g c k)" for c k
    unfolding get_deletes_puts [OF ok] g_def scan_cf_keys [OF ok] by auto
  have own: "prefix ?p (pidx_key (js_value S) f v i) \<longleftrightarrow> f = field" if "f \<in> set fs" for f v i
    using clean that mem sep_split_unique [of f field]
    by (auto simp: pidx_field_prefix_def key_prefix_def pidx_key_alt prefix_def)
  have "estate_of S analyze fs (db_write db ?b) D"
  proof (rule index_effect [where dbx = db and g = g and F = "set fs - {field}", OF est st ok _ _ get])
    show "indexed_fields S (db_write db ?b) = Inr fs" using fs by (simp add: indexed_fields_def get_json_def get g_def)
    show "(g CfPidx k \<noteq> None \<or> (\<exists>i d v. D i = Some d \<and> map_of (sd_metadata d) field = Some v \<and> k = pidx_key (js_value S) field v i)) =
      ((\<exists>i d f v. D i = Some d \<and> f \<in> set fs - {field} \<and> map_of (sd_metadata d) f = Some v \<and> k = pidx_key (js_value S) f v i) \<or>
       (\<exists>i d v. D i = Some d \<and> map_of (sd_metadata d) field = Some v \<and> k = pidx_key (js_value S) field v i))" (is "?l = (?r \<or> ?own)") for k
    proof (cases "prefix ?p k")
      case True
      then have "g CfPidx k = None" by (simp add: g_def)
      moreover have "\<not> ?r" using own True by blast
      ultimately show ?thesis by blast
    next
      case False
      then have "g CfPidx k = get_cf db0 CfPidx k" using damage by (simp add: g_def)
      moreover have "\<not> ?own" using own [OF mem] False by blast
      moreover have "get_cf db0 CfPidx k \<noteq> None \<longleftrightarrow> ?r" unfolding index_rows [OF est] using own False mem by blast
      ultimately show ?thesis by simp
    qed
    show "set fs = insert field (set fs - {field})" using mem by blast
  qed (use ok damage in \<open>auto simp: g_def\<close>)
  moreover have "rebuild_payload_index S field db = Inr (db_write db ?b)"
    by (simp add: rebuild_payload_index_def fs mem index_rows_of_parsed [OF doc_rows(1) [OF ok d]])
  ultimately show ?thesis by blast
qed

text \<open>A new estate without indexes, holding the sample document.\<close>

definition plain_db :: db where
  "plain_db = put_cf (\<lambda>_. []) CfMeta META_ESTATE ''i''"

lemma plain_get: "db_ok plain_db" "get_cf plain_db c k = (if c = CfMeta \<and> k = META_ESTATE then Some ''i'' else None)"
proof -
  have e: "db_ok (\<lambda>_. [])" "get_cf (\<lambda>_. []) c k = None" by (simp_all add: db_ok_def rows_ok_def get_cf_def row_get_def)
  show "db_ok plain_db" by (simp add: plain_db_def e)
  show "get_cf plain_db c k = (if c = CfMeta \<and> k = META_ESTATE then Some ''i'' else None)" by (simp add: plain_db_def e)
qed

lemma plain_estate: "estate_of sample_serde sample_words [] plain_db Map.empty"
  by (simp add: estate_of_def plain_get view_of_def docs_of_def ids_clean_def family_of_def get_u64_def meta_key_defs
      indexed_fields_def get_json_def counter_of_def doc_freq_def)

lemma plain_run:
  "\<exists>db' p'. run_transaction sample_serde sample_words 7 True [WUpsert [sample_record]] (plain_db, pending_new) = Some ((db', p'), None)"
  by (simp add: sample_unfold plain_get) (simp add: sample_unfold plain_get Let_def)

lemma plain_after: "\<exists>db. estate_of sample_serde sample_words [] db sample_docs_map"
proof -
  obtain db' p' where run: "run_transaction sample_serde sample_words 7 True [WUpsert [sample_record]] (plain_db, pending_new) = Some ((db', p'), None)"
    using plain_run by blast
  from run_upsert_estate [OF plain_estate run _ sample_records] show ?thesis by auto
qed

lemma sample_ids: "ids_stored sample_docs_map"
  by (simp add: ids_stored_def add_docs_def)

text \<open>C12: creating a payload index always succeeds on an estate whose stored forms read back, and
  turns it into the estate of the longer list of fields: the backfill misses no document, in however
  many batches it is written.\<close>

theorem create_payload_index_refines:
  assumes "estate_of S analyze fs db D" "ids_stored D" "js_names_of S (js_names S (fs @ [field])) = Some (fs @ [field])"
  shows "\<exists>db'. create_payload_index S field db = (db', None) \<and>
    estate_of S analyze (if field \<in> set fs then fs else fs @ [field]) db' D"
  by (rule create_index_estate [OF assms])

theorem create_payload_index_refines_witness:
  "\<exists>db db'. estate_of sample_serde sample_words [] db sample_docs_map \<and>
     create_payload_index sample_serde ''tag'' db = (db', None) \<and>
     estate_of sample_serde sample_words [''tag''] db' sample_docs_map"
proof -
  obtain db where est: "estate_of sample_serde sample_words [] db sample_docs_map" using plain_after by blast
  have "js_names_of sample_serde (js_names sample_serde ([] @ [''tag''])) = Some ([] @ [''tag''])" by (simp add: sample_serde_def)
  from create_payload_index_refines [OF est sample_ids this] est show ?thesis by auto
qed

text \<open>C38: rebuilding a payload index repairs it: whatever rows of the field were lost or made up, the
  estate afterwards is the one the documents describe, and other fields keep their rows.\<close>

theorem rebuild_payload_index_repairs:
  assumes "estate_of S analyze fs db0 D" "ids_stored D" "db_ok db" "\<forall>f \<in> set fs. SEP \<notin> set f" "field \<in> set fs"
    "\<And>c k. c = CfPidx \<longrightarrow> \<not> prefix (pidx_field_prefix field) k \<Longrightarrow> get_cf db c k = get_cf db0 c k"
  shows "\<exists>db'. rebuild_payload_index S field db = Inr db' \<and> estate_of S analyze fs db' D"
  by (rule rebuild_index_estate [OF assms])

theorem rebuild_payload_index_repairs_witness:
  "\<exists>db db'. estate_of sample_serde sample_words [''tag''] db sample_docs_map \<and>
     rebuild_payload_index sample_serde ''tag'' (put_cf db CfPidx (pidx_field_prefix ''tag'' @ ''junk'') []) = Inr db' \<and>
     estate_of sample_serde sample_words [''tag''] db' sample_docs_map"
proof -
  obtain db where est: "estate_of sample_serde sample_words [''tag''] db sample_docs_map" using sample_after by blast
  have ok: "db_ok db" using est by (simp add: estate_of_def)
  have "\<exists>db'. rebuild_payload_index sample_serde ''tag'' (put_cf db CfPidx (pidx_field_prefix ''tag'' @ ''junk'') []) = Inr db' \<and>
      estate_of sample_serde sample_words [''tag''] db' sample_docs_map"
    by (rule rebuild_payload_index_repairs [OF est sample_ids]) (use ok in \<open>auto simp: SEP_def\<close>)
  with est show ?thesis by blast
qed

section \<open>Counting\<close>

lemma count_matching_spec:
  "parsed S r \<Longrightarrow> count_matching S hav f r n =
     Inr (n + of_nat (length (filter (\<lambda>kv. filter_matches hav f (sd_metadata (the (js_doc_of S (snd kv))))) r)))"
  by (induction r arbitrary: n) (auto simp: parsed_def split: option.split)

lemma count_docs:
  assumes est: "estate_of S analyze fs db D"
  shows "length (filter (\<lambda>kv. P (sd_metadata (the (js_doc_of S (snd kv))))) (iter_all db CfDocs)) =
    card {i. \<exists>d. D i = Some d \<and> P (sd_metadata d)}"
proof -
  have ok: "db_ok db" and d: "docs_of S (get_cf db) D" using est by (simp_all add: estate_of_def view_of_def)
  have dist: "distinct (map fst (iter_all db CfDocs))" using ok by (simp add: iter_all_def db_ok_def rows_ok_distinct)
  let ?r = "filter (\<lambda>kv. P (sd_metadata (the (js_doc_of S (snd kv))))) (iter_all db CfDocs)"
  have "distinct (map fst ?r)" using dist by (rule distinct_map_filter)
  then have "length ?r = card (fst ` set ?r)" using distinct_card [of "map fst ?r"] by simp
  also have "fst ` set ?r = {i. \<exists>d. D i = Some d \<and> P (sd_metadata d)}"
  proof (intro set_eqI iffI)
    fix i assume "i \<in> fst ` set ?r"
    then obtain v where v: "(i, v) \<in> set (iter_all db CfDocs)" "P (sd_metadata (the (js_doc_of S v)))" by auto
    then obtain d' where "js_doc_of S v = Some d'" using doc_rows(1) [OF ok d] by (fastforce simp: parsed_def)
    moreover have "D i = Some d'" using doc_rows(2) [OF ok d, of d' i] v calculation by blast
    ultimately show "i \<in> {i. \<exists>d. D i = Some d \<and> P (sd_metadata d)}" using v(2) by simp
  next
    fix i assume "i \<in> {i. \<exists>d. D i = Some d \<and> P (sd_metadata d)}"
    then obtain d' where d': "D i = Some d'" "P (sd_metadata d')" by blast
    then obtain v where v: "(i, v) \<in> set (iter_all db CfDocs)" "js_doc_of S v = Some d'" using doc_rows(2) [OF ok d, of d' i] by blast
    then have "(i, v) \<in> set ?r" using d' by simp
    then show "i \<in> fst ` set ?r" by (rule image_eqI [rotated]) simp
  qed
  finally show ?thesis .
qed

lemma count_where_docs:
  assumes "estate_of S analyze fs db D" "docs_clean fs D" "text_clean (js_value S)"
    "\<forall>c \<in> set (f_must f @ f_should f @ f_must_not f). cond_clean c"
  shows "count_where S hav bbox db f = Inr (of_nat (card {i. \<exists>d. D i = Some d \<and>
    (if (f_must f \<noteq> [] \<or> f_should f \<noteq> []) \<and> set (filter_keys f) \<subseteq> set fs
     then index_matches (js_value S) hav bbox f (sd_metadata d) else filter_matches hav f (sd_metadata d))}))"
proof (cases "(f_must f \<noteq> [] \<or> f_should f \<noteq> []) \<and> set (filter_keys f) \<subseteq> set fs")
  case True
  have fin: "finite (dom D)" using assms(1) by (simp add: estate_of_def)
  then have "finite {i. \<exists>d. D i = Some d \<and> index_matches (js_value S) hav bbox f (sd_metadata d)}"
    by (rule rev_finite_subset) auto
  then show ?thesis
    using True ids_where_ids [OF assms(1-3) conjunct1 [OF True] conjunct2 [OF True] assms(4), of hav bbox]
    by (simp add: count_where_def)
next
  case False
  have ok: "db_ok db" and d: "docs_of S (get_cf db) D" and fs: "indexed_fields S db = Inr fs"
    using assms(1) by (simp_all add: estate_of_def view_of_def)
  have "ids_where S hav bbox db f = Inr None"
    using False fs by (auto simp: ids_where_def list_all_iff)
  then show ?thesis
    using count_matching_spec [OF doc_rows(1) [OF ok d], of hav f 0] count_docs [OF assms(1), of "filter_matches hav f"]
    by (simp only: count_where_def bind_result_simps option.case False if_False add_0)
qed

text \<open>C39: \<open>count_where\<close> counts documents: those the index reading of the filter accepts when its
  fields are all indexed, and those the filter itself accepts otherwise.\<close>

theorem count_where_counts:
  assumes "estate_of S analyze fs db D" "docs_clean fs D" "text_clean (js_value S)"
    "\<forall>c \<in> set (f_must f @ f_should f @ f_must_not f). cond_clean c"
  shows "count_where S hav bbox db f = Inr (of_nat (card {i. \<exists>d. D i = Some d \<and>
    (if (f_must f \<noteq> [] \<or> f_should f \<noteq> []) \<and> set (filter_keys f) \<subseteq> set fs
     then index_matches (js_value S) hav bbox f (sd_metadata d) else filter_matches hav f (sd_metadata d))}))"
  by (rule count_where_docs [OF assms])

theorem count_where_counts_witness:
  "\<exists>db. count_where sample_serde (\<lambda>_ _ _ _. f64_zero) (\<lambda>_ _ _. ((f64_zero, f64_zero), (f64_zero, f64_zero))) db
      \<lparr>f_must = [], f_should = [], f_must_not = [CExists ''year'']\<rparr> = Inr 1"
proof -
  obtain db where est: "estate_of sample_serde sample_words [''tag''] db sample_docs_map" using sample_after by blast
  show ?thesis
    using count_where_counts [OF est sample_clean, of "\<lparr>f_must = [], f_should = [], f_must_not = [CExists ''year'']\<rparr>"
        "\<lambda>_ _ _ _. f64_zero" "\<lambda>_ _ _. ((f64_zero, f64_zero), (f64_zero, f64_zero))"]
    by (intro exI [of _ db]) (simp add: SEP_def cond_clean_def sample_docs_map filter_matches_def sample_metadata filter_keys_def)
qed

text \<open>A filter that asks one field for one number.\<close>

definition number_filter :: "bytes \<Rightarrow> number \<Rightarrow> filter_dsl" where
  "number_filter field x = \<lparr>f_must = [CEq field (JNum x)], f_should = [], f_must_not = []\<rparr>"

lemma number_filter_sel [simp]:
  "f_must (number_filter field x) = [CEq field (JNum x)]" "f_should (number_filter field x) = []"
  "f_must_not (number_filter field x) = []" "filter_keys (number_filter field x) = [field]"
  by (simp_all add: number_filter_def filter_keys_def)

text \<open>C24: declaring an index changes the answer to a query.  When every document stores the integer
  \<open>n\<close> under a field, a count of the documents whose field equals the float of the same value is 0;
  after the index on that field is created, over the same documents, it is their number: the index
  row of a number is that of its float, and candidates are not checked against the condition again.\<close>

theorem index_changes_answer:
  assumes "estate_of S analyze fs db D" "ids_stored D" "js_names_of S (js_names S (fs @ [field])) = Some (fs @ [field])"
    "field \<notin> set fs" "docs_clean (fs @ [field]) D" "text_clean (js_value S)" "D \<noteq> Map.empty"
    "\<And>i d. D i = Some d \<Longrightarrow> map_of (sd_metadata d) field = Some (JNum (PosInt n))"
  defines "f \<equiv> number_filter field (Float (f64_of_nat (unat n)))"
  shows "count_where S hav bbox db f = Inr 0 \<and>
    (\<exists>db'. create_payload_index S field db = (db', None) \<and> count_where S hav bbox db' f = Inr (of_nat (card (dom D))))"
proof -
  obtain i d where "D i = Some d" using assms(7) by (auto simp: fun_eq_iff)
  then have "value_clean (JNum (PosInt n))" using assms(5,8) unfolding docs_clean_def by blast
  then have clean: "cond_clean (CEq field (JNum (Float (f64_of_nat (unat n)))))" "docs_clean fs D"
    using assms(5) by (auto simp: cond_clean_def value_clean_def as_f64_def docs_clean_def)
  have cc: "\<forall>c \<in> set (f_must f @ f_should f @ f_must_not f). cond_clean c" using clean(1) by (simp add: f_def)
  have off: "\<not> filter_matches hav f m" if "map_of m field = Some (JNum (PosInt n))" for m
    using that by (simp add: f_def filter_matches_def)
  have on: "index_matches (js_value S) hav bbox f m" if "map_of m field = Some (JNum (PosInt n))" for m
    using that by (simp add: f_def index_matches_def index_cond_def encode_pidx_value_def as_f64_def)
  have "count_where S hav bbox db f = Inr 0"
  proof -
    have none: "{i. \<exists>d. D i = Some d \<and> filter_matches hav f (sd_metadata d)} = {}" using off assms(8) by blast
    have "\<not> ((f_must f \<noteq> [] \<or> f_should f \<noteq> []) \<and> set (filter_keys f) \<subseteq> set fs)" using assms(4) by (simp add: f_def)
    then show ?thesis
      using count_where_docs [OF assms(1) clean(2) assms(6) cc, of hav bbox] none by (simp only: if_False) simp
  qed
  moreover obtain db' where db': "create_payload_index S field db = (db', None)" "estate_of S analyze (fs @ [field]) db' D"
    using create_index_estate [OF assms(1-3)] assms(4) by auto
  moreover have "count_where S hav bbox db' f = Inr (of_nat (card (dom D)))"
  proof -
    have all: "{i. \<exists>d. D i = Some d \<and> index_matches (js_value S) hav bbox f (sd_metadata d)} = dom D" using on assms(8) by blast
    have "(f_must f \<noteq> [] \<or> f_should f \<noteq> []) \<and> set (filter_keys f) \<subseteq> set (fs @ [field])" by (simp add: f_def)
    then show ?thesis
      using count_where_docs [OF db'(2) assms(5,6) cc, of hav bbox] all by (simp only: if_True simp_thms)
  qed
  ultimately show ?thesis by blast
qed

definition year_record :: vector_record where
  "year_record = (vector_record_new ''a'' [1, 2] ''cat'')\<lparr>vr_metadata := [(''year'', JNum (PosInt 2024))]\<rparr>"

definition year_serde :: serde where
  "year_serde = sample_serde\<lparr>js_doc_of := \<lambda>_. Some (stored_of sample_words year_record), js_names_of := \<lambda>_. Some [''year'']\<rparr>"

lemma year_estate: "\<exists>db. estate_of year_serde sample_words [] db [''a'' \<mapsto> stored_of sample_words year_record]"
proof -
  have "\<exists>db' p'. run_transaction year_serde sample_words 7 True [WUpsert [year_record]] (plain_db, pending_new) = Some ((db', p'), None)"
    by (simp add: sample_unfold plain_get year_serde_def year_record_def) (simp add: sample_unfold plain_get year_serde_def year_record_def Let_def)
  then obtain db' p' where run: "run_transaction year_serde sample_words 7 True [WUpsert [year_record]] (plain_db, pending_new) = Some ((db', p'), None)"
    by blast
  have "estate_of year_serde sample_words [] plain_db Map.empty"
    by (simp add: estate_of_def plain_get view_of_def docs_of_def ids_clean_def family_of_def get_u64_def meta_key_defs
        indexed_fields_def get_json_def counter_of_def doc_freq_def)
  from run_upsert_estate [OF this run] show ?thesis
    by (auto simp: add_docs_def year_serde_def year_record_def vector_record_new_def SEP_def)
qed

theorem index_changes_answer_witness:
  "\<exists>db db'. count_where year_serde (\<lambda>_ _ _ _. f64_zero) (\<lambda>_ _ _. ((f64_zero, f64_zero), (f64_zero, f64_zero))) db
      (number_filter ''year'' (Float (f64_of_nat 2024))) = Inr 0 \<and>
    create_payload_index year_serde ''year'' db = (db', None) \<and>
    count_where year_serde (\<lambda>_ _ _ _. f64_zero) (\<lambda>_ _ _. ((f64_zero, f64_zero), (f64_zero, f64_zero))) db'
      (number_filter ''year'' (Float (f64_of_nat 2024))) = Inr 1"
proof -
  let ?D = "[''a'' \<mapsto> stored_of sample_words year_record]"
  obtain db where est: "estate_of year_serde sample_words [] db ?D" using year_estate by blast
  have meta: "map_of (sd_metadata (stored_of sample_words year_record)) f = (if f = ''year'' then Some (JNum (PosInt 2024)) else None)" for f
    by (simp add: year_record_def vector_record_new_def)
  have id: "sd_id (stored_of sample_words year_record) = ''a''" by (simp add: year_record_def vector_record_new_def)
  define d where "d = stored_of sample_words year_record"
  note est = est [folded d_def] and meta = meta [folded d_def] and id = id [folded d_def]
  have "utf8_valid ''a''" by code_simp
  moreover have "\<not> is_nan (f64_of_nat 2024)" using f64_of_nat_whole [of 2024] by simp
  ultimately have clean: "docs_clean ([] @ [''year'']) [''a'' \<mapsto> d]"
    by (auto simp: docs_clean_def meta value_clean_def as_f64_def SEP_def split: if_splits)
  have names: "js_names_of year_serde (js_names year_serde ([] @ [''year''])) = Some ([] @ [''year''])" by (simp add: year_serde_def)
  have ids: "ids_stored [''a'' \<mapsto> d]" by (simp add: ids_stored_def id)
  have tc: "text_clean (js_value year_serde)" by (simp add: text_clean_def year_serde_def sample_serde_def SEP_def)
  have all: "map_of (sd_metadata x) ''year'' = Some (JNum (PosInt 2024))" if "[''a'' \<mapsto> d] i = Some x" for i x
    using that meta by (auto split: if_splits)
  have "\<exists>db'. create_payload_index year_serde ''year'' db = (db', None) \<and>
    count_where year_serde (\<lambda>_ _ _ _. f64_zero) (\<lambda>_ _ _. ((f64_zero, f64_zero), (f64_zero, f64_zero))) db'
      (number_filter ''year'' (Float (f64_of_nat (unat (2024 :: 64 word))))) = Inr (of_nat (card (dom [''a'' \<mapsto> d]))) \<and>
    count_where year_serde (\<lambda>_ _ _ _. f64_zero) (\<lambda>_ _ _. ((f64_zero, f64_zero), (f64_zero, f64_zero))) db
      (number_filter ''year'' (Float (f64_of_nat (unat (2024 :: 64 word))))) = Inr 0"
    using index_changes_answer [OF est ids names _ clean tc _ all] by auto
  then show ?thesis by auto
qed

end
