(* ===== verification/TagProps.thy ===== *)
theory TagProps
  imports EstateProps Rels
begin

text \<open>
  Tags and trends: their rows refine a set of pairs and a map of samples, and the listings of
  \<open>estate.rs\<close> are the sorted projections of these.
\<close>

section \<open>Lists with one entry per run\<close>

lemma not_below_SEP [simp]: "\<not> c < SEP" "SEP \<le> c"
  by (simp_all add: SEP_def byte_val_less byte_val_less_eq) (simp_all add: byte_val_def)

lemma sep_key_le:
  assumes "SEP \<notin> set a" "SEP \<notin> set a'" "a @ SEP # b < a' @ SEP # b'"
  shows "a \<le> (a' :: bytes)"
  using assms
proof (induction a arbitrary: a')
  case (Cons c a)
  then show ?case by (cases a') auto
qed simp

lemma sorted_list_unique:
  fixes xs :: "'a :: linorder list"
  shows "sorted_wrt (<) xs \<Longrightarrow> set xs = A \<Longrightarrow> xs = sorted_list_of_set A"
  by (metis sorted_list_of_set.idem_if_sorted_distinct strict_sorted_iff)

definition head_key :: "bytes \<times> bytes \<Rightarrow> bytes \<Rightarrow> bool" where
  "head_key kv h \<longleftrightarrow> clean_id h \<and> (\<exists>b. fst kv = h @ SEP # b)"

lemma heads_loop_spec:
  assumes "list_all2 head_key r hs" "sorted hs" "sorted_wrt (<) out"
    "\<And>x h. x \<in> set out \<Longrightarrow> h \<in> set hs \<Longrightarrow> x \<le> h"
  shows "sorted_wrt (<) (heads_loop out r) \<and> set (heads_loop out r) = set out \<union> set hs"
  using assms
proof (induction r arbitrary: hs out)
  case (Cons kv r)
  obtain k v where kv: "kv = (k, v)" by (cases kv)
  obtain h hs' where hs: "hs = h # hs'" "head_key kv h" "list_all2 head_key r hs'"
    using Cons.prems(1) by (auto simp: list_all2_Cons1)
  then obtain b where k: "k = h @ SEP # b" and h: "clean_id h" by (auto simp: head_key_def kv)
  have sp: "split_compound k = Some (h, b)" "from_utf8_lossy h = h"
    using h by (simp_all add: k split_compound_compound clean_id_def)
  show ?case
  proof (cases "out = [] \<or> last out \<noteq> h")
    case True
    have "x < h" if "x \<in> set out" for x
    proof -
      have "x \<le> last out" using that Cons.prems(3) by (cases out rule: rev_cases) (auto simp: sorted_wrt_append)
      also have "last out < h" using True that Cons.prems(4) [of "last out" h] last_in_set [of out] by (cases "out = []") (auto simp: hs order_less_le)
      finally show ?thesis .
    qed
    then have "sorted_wrt (<) (out @ [h])" using Cons.prems(3) by (simp add: sorted_wrt_append)
    with Cons.IH [OF hs(3), of "out @ [h]"] Cons.prems(2,4) show ?thesis
      using True by (auto simp: kv hs sp)
  next
    case False
    then have "h \<in> set out" by auto
    with Cons.IH [OF hs(3), of out] Cons.prems(2,3,4) False show ?thesis by (auto simp: kv hs sp)
  qed
qed simp

lemma heads_of_rows:
  assumes ok: "rows_ok r" and heads: "\<And>k. k \<in> fst ` set r \<Longrightarrow> clean_id (hd_of k) \<and> (\<exists>b. k = hd_of k @ SEP # b)"
  shows "heads_loop [] r = sorted_list_of_set (hd_of ` fst ` set r)"
proof -
  let ?hs = "map (\<lambda>kv. hd_of (fst kv)) r"
  have "list_all2 head_key r ?hs" using heads by (auto simp: list_all2_conv_all_nth head_key_def)
  moreover have "sorted ?hs"
  proof (rule sorted_wrt_mono_rel [where P = "\<lambda>x y. x \<le> y" and xs = ?hs, rotated])
    show "sorted_wrt (\<le>) ?hs" unfolding sorted_wrt_map
    proof (rule sorted_wrt_mono_rel [where P = "\<lambda>x y. fst x < fst y"])
      show "sorted_wrt (\<lambda>x y. fst x < fst y) r" using ok by (simp add: rows_ok_def sorted_wrt_map)
      fix x y assume xy: "x \<in> set r" "y \<in> set r" "fst x < fst y"
      obtain b b' where "fst x = hd_of (fst x) @ SEP # b" "fst y = hd_of (fst y) @ SEP # b'"
        "clean_id (hd_of (fst x))" "clean_id (hd_of (fst y))" using heads xy by blast
      with xy(3) sep_key_le [of "hd_of (fst x)" "hd_of (fst y)" b b'] show "hd_of (fst x) \<le> hd_of (fst y)"
        by (simp add: clean_id_def)
    qed
  qed simp
  ultimately have "sorted_wrt (<) (heads_loop [] r) \<and> set (heads_loop [] r) = set [] \<union> set ?hs"
    by (rule heads_loop_spec) simp_all
  then show ?thesis by (intro sorted_list_unique) (auto simp: image_image)
qed

text \<open>The rows under a prefix, with the prefix taken off.\<close>

lemma scan_suffixes:
  assumes "db_ok db"
  shows "map (\<lambda>kv. drop (length p) (fst kv)) (scan_cf db c p) = sorted_list_of_set {s. get_cf db c (p @ s) \<noteq> None}"
proof (rule sorted_list_unique)
  have pre: "prefix p (fst x)" if "x \<in> set (scan_cf db c p)" for x
    using scan_cf_set [OF assms, of "fst x" "snd x" c p] that by simp
  have "sorted_wrt (\<lambda>x y. fst x < fst y) (scan_cf db c p)" using scan_cf_sorted [OF assms, of c p] by (simp add: sorted_wrt_map)
  then show "sorted_wrt (<) (map (\<lambda>kv. drop (length p) (fst kv)) (scan_cf db c p))" unfolding sorted_wrt_map
  proof (rule sorted_wrt_mono_rel [rotated])
    fix x y assume "x \<in> set (scan_cf db c p)" "y \<in> set (scan_cf db c p)" "fst x < fst y"
    with pre [of x] pre [of y] show "drop (length p) (fst x) < drop (length p) (fst y)" by (auto simp: prefix_def)
  qed
  show "set (map (\<lambda>kv. drop (length p) (fst kv)) (scan_cf db c p)) = {s. get_cf db c (p @ s) \<noteq> None}"
  proof (rule set_eqI)
    fix s
    have "s \<in> set (map (\<lambda>kv. drop (length p) (fst kv)) (scan_cf db c p)) \<longleftrightarrow> p @ s \<in> fst ` set (scan_cf db c p)"
      using pre by (force simp: image_iff prefix_def)
    then show "s \<in> set (map (\<lambda>kv. drop (length p) (fst kv)) (scan_cf db c p)) \<longleftrightarrow> s \<in> {s. get_cf db c (p @ s) \<noteq> None}"
      by (simp add: scan_cf_keys [OF assms])
  qed
qed

section \<open>Tags\<close>

definition tags_of :: "db \<Rightarrow> (bytes \<times> bytes) set \<Rightarrow> bool" where
  "tags_of db T \<longleftrightarrow>
     db_ok db \<and> (\<forall>td \<in> T. clean_id (fst td) \<and> utf8_valid (snd td)) \<and>
     (\<forall>k. get_cf db CfTags k \<noteq> None \<longleftrightarrow> (\<exists>td \<in> T. k = tag_key (fst td) (snd td)))"

lemma map_filter_all_some: "(\<And>x. x \<in> set xs \<Longrightarrow> g x = Some (f x)) \<Longrightarrow> List.map_filter g xs = map f xs"
  by (induction xs) (simp_all add: List.map_filter_simps)

lemma tag_key_alt: "tag_key t d = t @ SEP # d"
  by (simp add: tag_key_def compound_def)

lemma tag_doc_step:
  assumes "tags_of db T" "clean_id t" "utf8_valid d"
  shows "tags_of (put_cf db CfTags (tag_key t d) []) (insert (t, d) T)"
  using assms by (auto simp: tags_of_def)

lemma tag_doc_refines:
  "tags_of db T \<Longrightarrow> \<forall>t \<in> set ts. clean_id t \<Longrightarrow> utf8_valid d \<Longrightarrow>
   tags_of (tag_doc d ts db) ((\<lambda>t. (t, d)) ` set ts \<union> T)"
proof (induction ts arbitrary: db T)
  case (Cons t ts)
  have "tags_of (put_cf db CfTags (tag_key t d) []) (insert (t, d) T)" by (rule tag_doc_step) (use Cons.prems in auto)
  from Cons.IH [OF this] Cons.prems show ?case by (simp add: tag_doc_def)
qed (simp add: tag_doc_def)

lemma docs_by_tag_sorted:
  assumes "tags_of db T" "clean_id t"
  shows "docs_by_tag db t = sorted_list_of_set {d. (t, d) \<in> T}"
proof -
  let ?p = "tag_prefix t"
  have ok: "db_ok db" and T: "\<And>td. td \<in> T \<Longrightarrow> clean_id (fst td) \<and> utf8_valid (snd td)"
    and rows: "\<And>k. get_cf db CfTags k \<noteq> None \<longleftrightarrow> (\<exists>td \<in> T. k = tag_key (fst td) (snd td))"
    using assms(1) unfolding tags_of_def by blast+
  have p: "?p @ s = t @ SEP # s" for s by (simp add: tag_prefix_def key_prefix_def)
  have own: "get_cf db CfTags (?p @ s) \<noteq> None \<longleftrightarrow> (t, s) \<in> T" for s
  proof -
    have "t @ SEP # s = fst td @ SEP # snd td \<longleftrightarrow> td = (t, s)" if "td \<in> T" for td
      using T [OF that] assms(2) sep_split_unique [of t "fst td" s "snd td"] by (cases td) (auto simp: clean_id_def)
    then show ?thesis unfolding rows p tag_key_alt by blast
  qed
  have "map_option (\<lambda>(_, doc). from_utf8_lossy doc) (split_compound (fst kv)) = Some (drop (length ?p) (fst kv))"
    if "kv \<in> set (scan_cf db CfTags ?p)" for kv
  proof -
    from that have "get_cf db CfTags (fst kv) = Some (snd kv)" "prefix ?p (fst kv)"
      using scan_cf_set [OF ok, of "fst kv" "snd kv" CfTags ?p] by simp_all
    then obtain s where k: "fst kv = ?p @ s" by (auto simp: prefix_def)
    have s: "(t, s) \<in> T" using own [of s] \<open>get_cf db CfTags (fst kv) = Some (snd kv)\<close> by (simp add: k)
    have "split_compound (?p @ s) = Some (t, s)" using assms(2) unfolding p by (intro split_compound_compound) (simp add: clean_id_def)
    then show ?thesis using T [OF s] by (simp add: k)
  qed
  then have "docs_by_tag db t = map (\<lambda>kv. drop (length ?p) (fst kv)) (scan_cf db CfTags ?p)"
    unfolding docs_by_tag_def by (rule map_filter_all_some)
  then show ?thesis unfolding scan_suffixes [OF ok] own .
qed

lemma hd_of_clean:
  "clean_id h \<Longrightarrow> fst (the (split_compound (h @ SEP # b))) = h"
  by (simp add: split_compound_compound clean_id_def)

lemma iter_all_keys: "db_ok db \<Longrightarrow> k \<in> fst ` set (iter_all db c) \<longleftrightarrow> get_cf db c k \<noteq> None"
  using iter_from_rows(2) [of db k c "[]"] by (simp add: iter_from_def rows_from_def iter_all_def)

lemma heads_sorted:
  assumes ok: "db_ok db" and rows: "\<And>k. get_cf db c k \<noteq> None \<longleftrightarrow> (\<exists>hb \<in> T. k = fst hb @ SEP # f (snd hb))"
    and clean: "\<And>hb. hb \<in> T \<Longrightarrow> clean_id (fst hb)"
  shows "heads_loop [] (iter_all db c) = sorted_list_of_set (fst ` T)"
proof -
  let ?hd = "\<lambda>k. fst (the (split_compound k))"
  have keys: "fst ` set (iter_all db c) = (\<lambda>hb. fst hb @ SEP # f (snd hb)) ` T"
    by (rule set_eqI, subst iter_all_keys [OF ok]) (simp only: rows image_iff)
  have "heads_loop [] (iter_all db c) = sorted_list_of_set (?hd ` fst ` set (iter_all db c))"
  proof (rule heads_of_rows)
    show "rows_ok (iter_all db c)" using ok by (simp add: iter_all_def db_ok_def)
    fix k assume "k \<in> fst ` set (iter_all db c)"
    then obtain hb where "hb \<in> T" "k = fst hb @ SEP # f (snd hb)" unfolding keys by auto
    then show "clean_id (?hd k) \<and> (\<exists>b. k = ?hd k @ SEP # b)" using clean hd_of_clean by auto
  qed
  also have "?hd ` fst ` set (iter_all db c) = fst ` T"
    unfolding keys image_image using clean hd_of_clean by (intro image_cong refl) auto
  finally show ?thesis .
qed

text \<open>C40: tags refine a set of pairs: tagging a document adds its pairs, and the documents of a tag
  and the tags of the estate are listed in ascending order, each once.\<close>

theorem tags_refine:
  assumes "tags_of db T" "\<forall>t \<in> set ts. clean_id t" "utf8_valid d" "clean_id t"
  shows "tags_of (tag_doc d ts db) ((\<lambda>t. (t, d)) ` set ts \<union> T) \<and>
    docs_by_tag db t = sorted_list_of_set {d. (t, d) \<in> T} \<and> tags db = sorted_list_of_set (fst ` T)"
proof (intro conjI)
  show "tags_of (tag_doc d ts db) ((\<lambda>t. (t, d)) ` set ts \<union> T)" by (rule tag_doc_refines [OF assms(1-3)])
  show "docs_by_tag db t = sorted_list_of_set {d. (t, d) \<in> T}" by (rule docs_by_tag_sorted [OF assms(1,4)])
  show "tags db = sorted_list_of_set (fst ` T)" unfolding tags_def
    by (rule heads_sorted [where f = "\<lambda>b. b"]) (use assms(1) in \<open>simp_all add: tags_of_def tag_key_alt\<close>)
qed

theorem tags_refine_witness:
  "tags (tag_doc ''d1'' [''red'', ''blue''] (\<lambda>_. [])) = [''blue'', ''red'']"
proof -
  have e: "tags_of (\<lambda>_. []) {}" by (simp add: tags_of_def db_ok_def rows_ok_def get_cf_def row_get_def)
  have c: "clean_id ''red''" "clean_id ''blue''" "utf8_valid ''d1''" unfolding clean_id_def SEP_def by code_simp+
  have "tags_of (tag_doc ''d1'' [''red'', ''blue''] (\<lambda>_. [])) ((\<lambda>t. (t, ''d1'')) ` set [''red'', ''blue''] \<union> {})"
    using tag_doc_refines [OF e, of "[''red'', ''blue'']" "''d1''"] c by simp
  from tags_refine [OF this, of "[]" "''d1''" "''red''"] c
  have "tags (tag_doc ''d1'' [''red'', ''blue''] (\<lambda>_. [])) = sorted_list_of_set {''blue'', ''red''}"
    by (simp add: insert_commute)
  moreover have "sorted_wrt (<) [''blue'', ''red'']" by code_simp
  ultimately show ?thesis using sorted_list_unique [of "[''blue'', ''red'']" "{''blue'', ''red''}"] by simp
qed

section \<open>Trends\<close>

definition trends_of :: "db \<Rightarrow> (bytes \<times> 64 word \<rightharpoonup> f64) \<Rightarrow> bool" where
  "trends_of db T \<longleftrightarrow>
     db_ok db \<and> (\<forall>mt \<in> dom T. clean_id (fst mt)) \<and>
     (\<forall>k. get_cf db CfTrends k \<noteq> None \<longleftrightarrow> (\<exists>mt \<in> dom T. k = trend_key (fst mt) (snd mt))) \<and>
     (\<forall>m t x. T (m, t) = Some x \<longrightarrow> get_cf db CfTrends (trend_key m t) = Some (u64_le (to_bits x)))"

lemma trend_key_alt: "trend_key m t = m @ SEP # u64_be t"
  by (simp add: trend_key_def)

lemma trend_key_inject:
  "clean_id m \<Longrightarrow> clean_id m' \<Longrightarrow> trend_key m t = trend_key m' t' \<longleftrightarrow> m = m' \<and> t = t'"
  using u64_codec.enc_inject by (auto simp: trend_key_alt clean_id_def sep_split_unique)

lemma record_trend_refines:
  assumes "trends_of db T" "clean_id m"
  shows "trends_of (record_trend now m x db) (T((m, now) \<mapsto> x))"
proof -
  have ok: "db_ok db" and T: "\<And>mt. mt \<in> dom T \<Longrightarrow> clean_id (fst mt)" using assms(1) unfolding trends_of_def by blast+
  have inj: "trend_key m' t = trend_key m now \<longleftrightarrow> m' = m \<and> t = now" if "T (m', t) = Some y" for m' t y
    using T [of "(m', t)"] that assms(2) trend_key_inject by auto
  have g: "get_cf (record_trend now m x db) CfTrends k =
      (if k = trend_key m now then Some (u64_le (to_bits x)) else get_cf db CfTrends k)" for k
    by (simp add: record_trend_def ok)
  have a: "db_ok (record_trend now m x db)" using ok by (simp add: record_trend_def)
  have b: "clean_id (fst mt)" if "mt \<in> dom (T((m, now) \<mapsto> x))" for mt
    using that T assms(2) by (cases "mt = (m, now)") auto
  have c: "get_cf (record_trend now m x db) CfTrends k \<noteq> None \<longleftrightarrow>
      (\<exists>mt \<in> dom (T((m, now) \<mapsto> x)). k = trend_key (fst mt) (snd mt))" for k
  proof -
    have "get_cf db CfTrends k \<noteq> None \<longleftrightarrow> (\<exists>mt \<in> dom T. k = trend_key (fst mt) (snd mt))"
      using assms(1) unfolding trends_of_def by blast
    then show ?thesis by (simp add: g)
  qed
  have d: "get_cf (record_trend now m x db) CfTrends (trend_key m' t) = Some (u64_le (to_bits y))"
    if "(T((m, now) \<mapsto> x)) (m', t) = Some y" for m' t y
    using that assms(1) inj [of m' t] unfolding trends_of_def g by (cases "m' = m \<and> t = now") auto
  show ?thesis unfolding trends_of_def using a b c d by blast
qed

lemma of_u64_le_bits: "word_of_nat (of_le (take 8 (u64_le w))) = w"
  by simp

text \<open>Trends refine a map of samples: recording one is an update, the series of a metric is read
  back without panic as its samples in the order of time, in milliseconds, and the metrics are listed
  in ascending order, each once.\<close>

lemma trends_refine:
  assumes "trends_of db T" "clean_id m"
  shows "trends_of (record_trend now m x db) (T((m, now) \<mapsto> x)) \<and>
    trend db m = Some (map (\<lambda>t. \<lparr>tp_at = t div 1000000, tp_value = the (T (m, t))\<rparr>)
      (sorted_list_of_set {t. (m, t) \<in> dom T})) \<and>
    trend_metrics db = sorted_list_of_set (fst ` dom T)"
proof (intro conjI)
  have ok: "db_ok db" and T: "\<And>mt. mt \<in> dom T \<Longrightarrow> clean_id (fst mt)"
    and rows: "\<And>k. get_cf db CfTrends k \<noteq> None \<longleftrightarrow> (\<exists>mt \<in> dom T. k = trend_key (fst mt) (snd mt))"
    and vals: "\<And>m t x. T (m, t) = Some x \<Longrightarrow> get_cf db CfTrends (trend_key m t) = Some (u64_le (to_bits x))"
    using assms(1) unfolding trends_of_def by blast+
  show "trends_of (record_trend now m x db) (T((m, now) \<mapsto> x))" by (rule record_trend_refines [OF assms])
  show "trend_metrics db = sorted_list_of_set (fst ` dom T)" unfolding trend_metrics_def
    by (rule heads_sorted [OF ok, where f = u64_be]) (use rows T in \<open>simp_all only: trend_key_alt\<close>)
  let ?p = "trend_prefix m" and ?row = "\<lambda>t. \<lparr>tp_at = t div 1000000, tp_value = the (T (m, t))\<rparr>"
  have own: "get_cf db CfTrends (?p @ s) \<noteq> None \<longleftrightarrow> (\<exists>t. s = u64_be t \<and> (m, t) \<in> dom T)" for s
  proof -
    have "?p @ s = trend_key (fst mt) (snd mt) \<longleftrightarrow> fst mt = m \<and> s = u64_be (snd mt)" if "mt \<in> dom T" for mt
      using T [OF that] assms(2) sep_split_unique [of m "fst mt"] by (auto simp: trend_prefix_def trend_key_alt clean_id_def)
    then have "get_cf db CfTrends (?p @ s) \<noteq> None \<longleftrightarrow> (\<exists>mt \<in> dom T. fst mt = m \<and> s = u64_be (snd mt))"
      unfolding rows by (rule bex_cong [OF refl])
    also have "\<dots> \<longleftrightarrow> (\<exists>t. s = u64_be t \<and> (m, t) \<in> dom T)" by force
    finally show ?thesis .
  qed
  let ?ts = "map (\<lambda>kv. of_u64_be (drop (length ?p) (fst kv))) (scan_cf db CfTrends ?p)"
  have row: "trend_row ?p kv = Some (?row (of_u64_be (drop (length ?p) (fst kv)))) \<and>
      (\<exists>t. fst kv = ?p @ u64_be t \<and> (m, t) \<in> dom T)" if kv: "kv \<in> set (scan_cf db CfTrends ?p)" for kv
  proof -
    have g: "get_cf db CfTrends (fst kv) = Some (snd kv)" "prefix ?p (fst kv)"
      using scan_cf_set [OF ok, of "fst kv" "snd kv" CfTrends ?p] kv by simp_all
    then obtain s where k: "fst kv = ?p @ s" by (auto simp: prefix_def)
    obtain t where s: "s = u64_be t" "(m, t) \<in> dom T" using own [of s] g(1) by (auto simp: k)
    obtain y where y: "T (m, t) = Some y" using s(2) by auto
    have "snd kv = u64_le (to_bits y)" using vals [OF y] g(1) by (simp add: k s trend_key_alt trend_prefix_def)
    moreover have "length (u64_be t) = 8" by simp
    ultimately have "trend_row ?p kv = Some (?row (of_u64_be (drop (length ?p) (fst kv))))"
      by (simp add: trend_row_def Let_def k s y u64_le_def del: of_u64_le) (use of_u64_le_bits [of "to_bits y"] in \<open>simp add: u64_le_def\<close>)
    moreover have "fst kv = ?p @ u64_be t" by (simp add: k s)
    ultimately show ?thesis using s(2) by blast
  qed
  have "all_some (map (trend_row ?p) xs) = Some (map ?row (map (\<lambda>kv. of_u64_be (drop (length ?p) (fst kv))) xs))"
    if "set xs \<subseteq> set (scan_cf db CfTrends ?p)" for xs
    using that row by (induction xs) auto
  then have tr: "trend db m = Some (map ?row ?ts)" by (simp add: trend_def Let_def)
  have "?ts = sorted_list_of_set {t. (m, t) \<in> dom T}"
  proof (rule sorted_list_unique)
    have "sorted_wrt (\<lambda>x y. fst x < fst y) (scan_cf db CfTrends ?p)" using scan_cf_sorted [OF ok, of CfTrends ?p] by (simp add: sorted_wrt_map)
    then show "sorted_wrt (<) ?ts" unfolding sorted_wrt_map
    proof (rule sorted_wrt_mono_rel [rotated])
      fix a b assume "a \<in> set (scan_cf db CfTrends ?p)" "b \<in> set (scan_cf db CfTrends ?p)" "fst a < fst b"
      moreover obtain t t' where "fst a = ?p @ u64_be t" "fst b = ?p @ u64_be t'" using row calculation(1,2) by blast
      ultimately show "of_u64_be (drop (length ?p) (fst a)) < of_u64_be (drop (length ?p) (fst b))"
        by (simp add: u64_be_less word_less_nat_alt)
    qed
    have "t \<in> set ?ts \<longleftrightarrow> (m, t) \<in> dom T" for t
    proof
      assume "t \<in> set ?ts"
      then show "(m, t) \<in> dom T" using row by force
    next
      assume "(m, t) \<in> dom T"
      then have "?p @ u64_be t \<in> fst ` set (scan_cf db CfTrends ?p)" using own by (auto simp: scan_cf_keys [OF ok])
      then show "t \<in> set ?ts" by (auto intro!: image_eqI)
    qed
    then show "set ?ts = {t. (m, t) \<in> dom T}" by blast
  qed
  with tr show "trend db m = Some (map ?row (sorted_list_of_set {t. (m, t) \<in> dom T}))" by (simp only:)
qed

lemma trends_refine_witness:
  "trend (record_trend 5000000 ''load'' f64_zero (\<lambda>_. [])) ''load'' = Some [\<lparr>tp_at = 5, tp_value = f64_zero\<rparr>]"
proof -
  have e: "trends_of (\<lambda>_. []) Map.empty" by (simp add: trends_of_def db_ok_def rows_ok_def get_cf_def row_get_def)
  have c: "clean_id ''load''" unfolding clean_id_def SEP_def by code_simp
  have "trends_of (record_trend 5000000 ''load'' f64_zero (\<lambda>_. [])) [(''load'', 5000000) \<mapsto> f64_zero]"
    by (rule record_trend_refines [OF e c])
  from trends_refine [OF this c] show ?thesis by simp
qed

end
