(* ===== verification/Feed.thy ===== *)
theory Feed
  imports EstateProps
begin

text \<open>
  The changefeed and the vectors as state: a list of changes, one row each, whose last entry for an id
  says whether the document is there.  Every write keeps this (\<open>leads\<close>).
\<close>

section \<open>The feed of a view\<close>

definition feed_row :: "nat \<Rightarrow> bytes" where
  "feed_row n = u64_be (of_nat n)"

definition feed_view :: "serde \<Rightarrow> view \<Rightarrow> change list \<Rightarrow> bool" where
  "feed_view S v cs \<longleftrightarrow>
     (\<forall>k. v CfFeed k \<noteq> None \<longleftrightarrow> (\<exists>n < length cs. k = feed_row n)) \<and>
     (\<forall>n < length cs. Option.bind (v CfFeed (feed_row n)) (js_change_of S) = Some (cs ! n) \<and> ch_seq (cs ! n) = of_nat n)"

definition vecs_view :: "view \<Rightarrow> (bytes \<rightharpoonup> vec) \<Rightarrow> bool" where
  "vecs_view v V \<longleftrightarrow> (\<forall>i. map_option decode_vec (v CfVecs i) = V i)"

definition log_change :: "epoch_ms \<Rightarrow> change_op \<Rightarrow> bytes \<Rightarrow> change list \<Rightarrow> change list" where
  "log_change now c i cs = cs @ [\<lparr>ch_seq = of_nat (length cs), ch_op = c, ch_doc_id = i, ch_at = now\<rparr>]"

definition log_upserts :: "epoch_ms \<Rightarrow> vector_record list \<Rightarrow> change list \<Rightarrow> change list" where
  "log_upserts now rs cs = fold (\<lambda>r. log_change now ChUpsert (vr_id r)) rs cs"

definition log_docs :: "change list \<Rightarrow> bytes set" where
  "log_docs cs = fold (\<lambda>c A. case ch_op c of ChUpsert \<Rightarrow> insert (ch_doc_id c) A | ChRemove \<Rightarrow> A - {ch_doc_id c}) cs {}"

definition reads_changes :: "serde \<Rightarrow> bool" where
  "reads_changes S \<longleftrightarrow> (\<forall>c. js_change_of S (js_change S c) = Some c)"

lemma log_change_length [simp]: "length (log_change now c i cs) = Suc (length cs)"
  by (simp add: log_change_def)

lemma log_docs_change [simp]:
  "log_docs (log_change now ChUpsert i cs) = insert i (log_docs cs)"
  "log_docs (log_change now ChRemove i cs) = log_docs cs - {i}"
  by (simp_all add: log_docs_def log_change_def)

lemma log_upserts_simps [simp]:
  "log_upserts now [] cs = cs"
  "log_upserts now (r # rs) cs = log_upserts now rs (log_change now ChUpsert (vr_id r) cs)"
  by (simp_all add: log_upserts_def)

lemma log_upserts_length [simp]: "length (log_upserts now rs cs) = length cs + length rs"
  by (induction rs arbitrary: cs) simp_all

lemma log_docs_upserts: "log_docs (log_upserts now rs cs) = log_docs cs \<union> vr_id ` set rs"
  by (induction rs arbitrary: cs) auto

lemma feed_row_inject:
  assumes "n < 2 ^ 64" "m < 2 ^ 64"
  shows "feed_row n = feed_row m \<longleftrightarrow> n = m"
proof -
  have "of_nat n = (of_nat m :: 64 word) \<longleftrightarrow> n = m"
    using assms by (metis unat_of_nat64)
  then show ?thesis by (simp add: feed_row_def u64_codec.enc_inject)
qed

lemma feed_view_cong: "(\<And>k. v CfFeed k = w CfFeed k) \<Longrightarrow> feed_view S v cs = feed_view S w cs"
  by (simp add: feed_view_def)

lemma feed_view_step:
  assumes feed: "feed_view S v cs" and cf: "on_cf CfFeed b = [feed_op S now c i (of_nat (length cs))]"
    and js: "reads_changes S" and room: "length cs < 2 ^ 64 - 1"
  shows "feed_view S (apply_view b v) (log_change now c i cs)"
proof -
  let ?c = "\<lparr>ch_seq = of_nat (length cs), ch_op = c, ch_doc_id = i, ch_at = now\<rparr>"
  have get: "apply_view b v CfFeed k = (if k = feed_row (length cs) then Some (js_change S ?c) else v CfFeed k)" for k
    by (simp add: apply_view_on_cf cf feed_op_def op_effect_def feed_row_def)
  have other: "feed_row n \<noteq> feed_row (length cs)" if "n < length cs" for n
    using that room by (simp add: feed_row_inject)
  have "apply_view b v CfFeed k \<noteq> None \<longleftrightarrow> (\<exists>n < length (log_change now c i cs). k = feed_row n)" for k
    using feed by (auto simp: get feed_view_def less_Suc_eq)
  moreover have "Option.bind (apply_view b v CfFeed (feed_row n)) (js_change_of S) = Some (log_change now c i cs ! n) \<and>
      ch_seq (log_change now c i cs ! n) = of_nat n" if "n < length (log_change now c i cs)" for n
  proof (cases "n < length cs")
    case True
    then show ?thesis using feed other by (simp add: get feed_view_def log_change_def nth_append)
  next
    case False
    then have "n = length cs" using that by simp
    then show ?thesis using js by (simp add: get log_change_def reads_changes_def)
  qed
  ultimately show ?thesis by (simp add: feed_view_def)
qed

text \<open>The changes a scan reads.\<close>

lemma changes_loop_all:
  assumes "map (\<lambda>kv. js_change_of S (snd kv)) r = map Some cs"
  shows "changes_loop S limit r out = Inr (out @ take (limit - length out) cs)"
  using assms
proof (induction S limit r out arbitrary: cs rule: changes_loop.induct)
  case (2 S limit k v r out)
  then obtain c cs' where cs: "cs = c # cs'" "js_change_of S v = Some c" "map (\<lambda>kv. js_change_of S (snd kv)) r = map Some cs'"
    by auto
  show ?case
  proof (cases "limit \<le> length out")
    case False
    then have "limit - length out = Suc (limit - Suc (length out))" by simp
    then show ?thesis using "2.IH" [OF False cs(2,3)] cs False by simp
  qed simp
qed simp

lemma feed_rows:
  assumes ok: "db_ok db" and feed: "feed_view S (get_cf db) cs" and room: "length cs < 2 ^ 64" and m: "m \<le> length cs"
  shows "map fst (iter_from db CfFeed (feed_row m)) = map feed_row [m..<length cs]"
proof (rule strict_sorted_equal)
  show "sorted_wrt (<) (map fst (iter_from db CfFeed (feed_row m)))" by (rule iter_from_rows(1) [OF ok])
  have less: "feed_row a < feed_row b \<longleftrightarrow> a < b" if "a < 2 ^ 64" "b < 2 ^ 64" for a b
  proof -
    have "unat (of_nat a :: 64 word) = a" "unat (of_nat b :: 64 word) = b" using that by (simp_all add: unat_of_nat64)
    then show ?thesis by (simp add: feed_row_def u64_be_less)
  qed
  show "sorted_wrt (<) (map feed_row [m..<length cs])"
    unfolding sorted_wrt_map
    by (rule sorted_wrt_mono_rel [OF _ sorted_wrt_upt]) (use less room in auto)
  have "k \<in> set (map fst (iter_from db CfFeed (feed_row m))) \<longleftrightarrow> k \<in> set (map feed_row [m..<length cs])" for k
  proof -
    have "k \<in> set (map fst (iter_from db CfFeed (feed_row m))) \<longleftrightarrow> get_cf db CfFeed k \<noteq> None \<and> feed_row m \<le> k"
      using iter_from_rows(2) [OF ok, of k CfFeed "feed_row m"] by simp
    also have "\<dots> \<longleftrightarrow> (\<exists>n < length cs. k = feed_row n \<and> feed_row m \<le> feed_row n)" using feed by (auto simp: feed_view_def)
    also have "\<dots> \<longleftrightarrow> (\<exists>n < length cs. k = feed_row n \<and> m \<le> n)" using less [of _ m] room m by (auto simp: not_less [symmetric])
    finally show ?thesis by auto
  qed
  then show "set (map fst (iter_from db CfFeed (feed_row m))) = set (map feed_row [m..<length cs])" by blast
qed

lemma changes_of:
  assumes ok: "db_ok db" and feed: "feed_view S (get_cf db) cs" and room: "length cs < 2 ^ 64" and since: "unat since \<le> length cs"
  shows "changes S since limit db = Inr (take limit (drop (unat since) cs))"
proof -
  let ?m = "unat since" and ?r = "iter_from db CfFeed (feed_row (unat since))"
  have keys: "map fst ?r = map feed_row [?m..<length cs]" by (rule feed_rows [OF ok feed room since])
  then have len: "length ?r = length cs - ?m" by (metis length_map length_upt)
  have "js_change_of S (snd (?r ! n)) = Some (drop ?m cs ! n)" if "n < length cs - ?m" for n
  proof -
    have k: "fst (?r ! n) = feed_row (?m + n)" using arg_cong [OF keys, of "\<lambda>l. l ! n"] that len by simp
    have "?r ! n \<in> set ?r" using that len by simp
    then have "(fst (?r ! n), snd (?r ! n)) \<in> set (db CfFeed)" by (auto simp: iter_from_def rows_from_def dest: set_dropWhileD)
    then have "get_cf db CfFeed (feed_row (?m + n)) = Some (snd (?r ! n))"
      using row_get_iff [of "db CfFeed"] ok unfolding k by (simp add: get_cf_def db_ok_def)
    moreover have "Option.bind (get_cf db CfFeed (feed_row (?m + n))) (js_change_of S) = Some (cs ! (?m + n))"
      using feed that by (simp add: feed_view_def)
    ultimately show ?thesis using since by simp
  qed
  then have "map (\<lambda>kv. js_change_of S (snd kv)) ?r = map Some (drop ?m cs)"
    by (intro nth_equalityI) (simp_all add: len)
  from changes_loop_all [OF this, of limit "[]"] show ?thesis by (simp add: changes_def feed_row_def)
qed

section \<open>The loop over the records\<close>

definition add_vecs :: "vector_record list \<Rightarrow> (bytes \<rightharpoonup> vec) \<Rightarrow> (bytes \<rightharpoonup> vec)" where
  "add_vecs rs V = fold (\<lambda>r V. V(vr_id r \<mapsto> vr_embedding r)) rs V"

definition log_inv :: "serde \<Rightarrow> db \<Rightarrow> (bytes \<rightharpoonup> vec) \<Rightarrow> change list \<Rightarrow> transaction \<Rightarrow> bool" where
  "log_inv S db V cs tx \<longleftrightarrow>
     feed_view S (apply_view (tx_batch tx) (get_cf db)) cs \<and> vecs_view (apply_view (tx_batch tx) (get_cf db)) V \<and>
     tx_feed_seq tx = of_nat (length cs) \<and> tx_dirty tx \<and>
     list_all plain_op (tx_batch tx) \<and> on_cf CfMeta (tx_batch tx) = [] \<and> on_cf CfTdf (tx_batch tx) = []"

lemma upsert_ops_feed:
  "on_cf CfFeed (upsert_ops S analyze now fs r prev seq) = [feed_op S now ChUpsert (vr_id r) seq]"
  unfolding upsert_ops_def prev_ops_def record_ops_alt
  by (cases prev; simp add: retract_ops_alt on_cf_map_filter feed_op_def)

lemma log_inv_step:
  assumes inv: "log_inv S db V cs tx" and b: "tx_batch tx' = tx_batch tx @ b" "tx_feed_seq tx' = tx_feed_seq tx + 1" "tx_dirty tx' = tx_dirty tx"
    and plain: "list_all plain_op b" "on_cf CfMeta b = []" "on_cf CfTdf b = []"
    and feed: "on_cf CfFeed b = [feed_op S now c i (tx_feed_seq tx)]"
    and vec: "\<And>j old. map_option decode_vec (fold (op_effect CfVecs j) (on_cf CfVecs b) old) = (if j = i then n else map_option decode_vec old)"
    and js: "reads_changes S" and room: "length cs < 2 ^ 64 - 1"
  shows "log_inv S db (V(i := n)) (log_change now c i cs) tx'"
proof -
  note v = inv [unfolded log_inv_def]
  have "feed_view S (apply_view b (apply_view (tx_batch tx) (get_cf db))) (log_change now c i cs)"
    by (rule feed_view_step [OF _ _ js room]) (use v feed in simp_all)
  moreover have "vecs_view (apply_view b (apply_view (tx_batch tx) (get_cf db))) (V(i := n))"
    using v by (simp add: vecs_view_def apply_view_on_cf [of b] vec)
  ultimately show ?thesis using v b plain by (simp add: log_inv_def)
qed

lemma upsert_records_log:
  assumes "upsert_records S analyze now fs db rs (tx, df) = Inr (tx', df')" "docs_of S (get_cf db) D0"
    "log_inv S db V cs tx" "reads_changes S" "length cs + length rs < 2 ^ 64"
  shows "log_inv S db (add_vecs rs V) (log_upserts now rs cs) tx' \<and> (\<forall>r \<in> set rs. \<not> key_too_long (vr_id r))"
  using assms(1,3,5)
proof (induction rs arbitrary: tx df V cs)
  case (Cons r rs)
  from Cons.prems(1) obtain tx1 df1 where u: "upsert_record S analyze now fs db r (tx, df) = Inr (tx1, df1)"
    and us: "upsert_records S analyze now fs db rs (tx1, df1) = Inr (tx', df')"
    by (auto simp: bind_result_Inr_iff)
  note s = upsert_record_step [OF u assms(2)]
  have inv: "log_inv S db (V(vr_id r := Some (vr_embedding r))) (log_change now ChUpsert (vr_id r) cs) tx1"
    by (rule log_inv_step [OF Cons.prems(2), where b = "upsert_ops S analyze now fs r (D0 (vr_id r)) (tx_feed_seq tx)"])
      (use s Cons.prems(3) assms(4) in \<open>simp_all add: upsert_ops_plain upsert_ops_feed upsert_family_ops(7) op_effect_def decode_encode_vec\<close>)
  have "log_inv S db (add_vecs rs (V(vr_id r := Some (vr_embedding r)))) (log_upserts now rs (log_change now ChUpsert (vr_id r) cs)) tx' \<and>
      (\<forall>r \<in> set rs. \<not> key_too_long (vr_id r))"
    by (rule Cons.IH [OF us inv]) (use Cons.prems(3) in simp)
  moreover have "add_vecs (r # rs) V = add_vecs rs (V(vr_id r := Some (vr_embedding r)))" by (simp add: add_vecs_def)
  ultimately show ?case using s by simp
qed (simp add: add_vecs_def)

section \<open>Writes keep the log\<close>

definition leads :: "serde \<Rightarrow> (bytes \<Rightarrow> bytes list) \<Rightarrow> bytes list \<Rightarrow> db \<Rightarrow> docs \<Rightarrow> (bytes \<rightharpoonup> vec) \<Rightarrow> change list \<Rightarrow> bool" where
  "leads S analyze fs db D V cs \<longleftrightarrow>
     estate_of S analyze fs db D \<and> feed_view S (get_cf db) cs \<and> vecs_view (get_cf db) V \<and> dom V = dom D \<and>
     log_docs cs = dom D \<and> length cs < 2 ^ 64 \<and> get_u64 db META_FEED_SEQ = of_nat (length cs) \<and>
     (\<forall>i \<in> dom D. \<not> key_too_long i)"

lemma card_log_docs: "finite (log_docs cs) \<and> card (log_docs cs) \<le> length cs"
proof (induction cs rule: rev_induct)
  case (snoc c cs)
  then show ?case
    by (cases "ch_op c") (auto simp: log_docs_def card_insert_if intro: le_trans [OF card_Diff1_le])
qed (simp add: log_docs_def)

lemma leads_same:
  assumes "leads S analyze fs db D V cs" "same_but_declared db db'"
  shows "leads S analyze fs db' D V cs"
proof -
  have est: "estate_of S analyze fs db' D" by (rule estate_same [OF _ assms(2)]) (use assms(1) in \<open>simp add: leads_def\<close>)
  have ok: "db_ok db" using assms(1) by (simp add: leads_def estate_of_def)
  then have g: "get_cf db' c k = get_cf db c k" if "c \<noteq> CfMeta \<or> (k \<noteq> META_ESTATE \<and> k \<noteq> META_COLLECTIONS)" for c k
    using assms(2) that by (simp add: same_but_declared_def)
  have "feed_view S (get_cf db') cs = feed_view S (get_cf db) cs" by (rule feed_view_cong) (simp add: g)
  moreover have "get_u64 db' META_FEED_SEQ = get_u64 db META_FEED_SEQ" using g by (simp add: get_u64_def meta_key_defs)
  ultimately show ?thesis using assms(1) est g by (simp add: leads_def vecs_view_def)
qed

lemma commit_log:
  fixes p :: "(bytes, vec) pstate"
  assumes ok: "db_ok db" and inv: "log_inv S db V cs tx" and df: "list_all batch_op df" "\<And>v. apply_view df v = v"
  defines "db' \<equiv> fst (tx_commit S (add_ops df tx) (db, p))"
  shows "feed_view S (get_cf db') cs \<and> vecs_view (get_cf db') V \<and> get_u64 db' META_FEED_SEQ = of_nat (length cs)"
proof -
  note v = inv [unfolded log_inv_def]
  have "list_all batch_op (tx_batch tx)" by (rule batch_op_plain) (use v in auto)
  then have b: "list_all batch_op (tx_batch (add_ops df tx))" "tx_dirty (add_ops df tx)" using v df by (simp_all add: list_all_append)
  note c = commit_get [OF ok b, where S = S]
  have g: "get_cf db' c k = apply_view (tx_batch tx) (get_cf db) c k" if "c \<noteq> CfMeta" "c \<noteq> CfTdf" for c k
    using c(2) [OF that] df(2) by (simp add: db'_def tx_commit_def)
  have "feed_view S (get_cf db') cs = feed_view S (apply_view (tx_batch tx) (get_cf db)) cs"
    by (rule feed_view_cong) (simp add: g)
  moreover have "vecs_view (get_cf db') V" using v unfolding vecs_view_def by (simp only: g cf.distinct not_False_eq_True) simp
  moreover have "get_u64 db' META_FEED_SEQ = of_nat (length cs)" using v c(6) by (simp add: db'_def tx_commit_def)
  ultimately show ?thesis using v by blast
qed

lemma log_begin:
  assumes "leads S analyze fs db D V cs" "tx_begin S db = Inr tx0"
  shows "log_inv S db V cs (touch_counters tx0)"
  using assms tx_begin_sel [OF assms(2)] by (simp add: log_inv_def leads_def)

lemma dom_add_docs: "dom (add_docs analyze rs D) = dom D \<union> vr_id ` set rs"
  by (induction rs arbitrary: D) (auto simp: add_docs_def)

lemma dom_add_vecs: "dom (add_vecs rs V) = dom V \<union> vr_id ` set rs"
  by (induction rs arbitrary: V) (auto simp: add_vecs_def)

lemma upsert_leads:
  assumes lead: "leads S analyze fs db D V cs"
    and run: "run_transaction S analyze now True [WUpsert rs] (db, p) = Some ((db', p'), None)"
    and rs: "distinct (map vr_id rs)"
      "\<forall>r \<in> set rs. SEP \<notin> set (vr_id r) \<and> js_doc_of S (js_doc S (stored_of analyze r)) = Some (stored_of analyze r)"
    and js: "reads_changes S" and room: "length cs + length rs < 2 ^ 64"
  shows "leads S analyze fs db' (add_docs analyze rs D) (add_vecs rs V) (log_upserts now rs cs)"
proof -
  note l = lead [unfolded leads_def]
  have card: "card (dom D) + length rs < 2 ^ 64" using card_log_docs [of cs] l room by simp
  have est: "estate_of S analyze fs db' (add_docs analyze rs D)"
    using run_upsert_estate [OF _ run rs card] l by blast
  obtain tx0 dbm tx where tx0: "tx_begin S db = Inr tx0"
    and u: "upsert_into S analyze now True rs db tx0 = Some (dbm, Inr tx)" and c: "(db', p') = tx_commit S tx (dbm, p)"
    by (rule run_upsert [OF run])
  have ok: "db_ok db" and fs: "indexed_fields S db = Inr fs" using l by (simp_all add: estate_of_def)
  from upsert_into_result [OF u] ok fs obtain tx1 df where same: "same_but_declared db dbm" and tx: "tx = add_ops (df_ops True df) tx1"
    and ups: "upsert_records S analyze now fs dbm rs (touch_counters tx0, []) = Inr (tx1, df)" by auto
  have lm: "leads S analyze fs dbm D V cs" by (rule leads_same [OF lead same])
  then have okm: "db_ok dbm" and docs: "docs_of S (get_cf dbm) D" by (simp_all add: leads_def estate_of_def view_of_def)
  have seq: "get_u64 dbm META_FEED_SEQ = of_nat (length cs)" using lm by (simp add: leads_def)
  have "log_inv S dbm V cs (touch_counters tx0)"
    using lm tx_begin_sel [OF tx0] l by (simp add: log_inv_def leads_def)
  note inv = upsert_records_log [OF ups docs this js room]
  have "feed_view S (get_cf db') (log_upserts now rs cs) \<and> vecs_view (get_cf db') (add_vecs rs V) \<and>
      get_u64 db' META_FEED_SEQ = of_nat (length (log_upserts now rs cs))"
    using commit_log [OF okm conjunct1 [OF inv] df_ops_batch apply_df_ops, of True df p] c by (metis tx fst_conv)
  then show ?thesis using est l room inv
    by (auto simp: leads_def dom_add_docs dom_add_vecs log_docs_upserts)
qed

lemma remove_ops_plain_feed:
  "on_cf CfFeed (remove_ops S analyze stats fs i old @ [feed_op S now ChRemove i seq]) = [feed_op S now ChRemove i seq]"
  "on_cf CfVecs (remove_ops S analyze stats fs i old @ [feed_op S now ChRemove i seq]) = [OpDelete CfVecs i]"
  unfolding remove_ops_alt by (simp_all add: remove_terms_cf feed_op_def)

lemma remove_leads:
  assumes lead: "leads S analyze fs db D V cs"
    and run: "run_transaction S analyze now True [WRemove i] (db, p) = Some ((db', p'), None)"
    and js: "reads_changes S" and room: "length cs + 1 < 2 ^ 64"
  shows "leads S analyze fs db' (D(i := None)) (V(i := None)) (if D i = None then cs else log_change now ChRemove i cs)"
proof (cases "D i")
  case None
  have est: "estate_of S analyze fs db D" and dom: "dom V = dom D" using lead by (simp_all add: leads_def)
  then have "V i = None" using None by blast
  then show ?thesis using run_remove_none [OF est None run] lead None by (simp add: fun_upd_idem)
next
  case (Some old)
  note l = lead [unfolded leads_def]
  have est0: "estate_of S analyze fs db D" and ok: "db_ok db" using l by (simp_all add: estate_of_def)
  have est: "estate_of S analyze fs db' (D(i := None))" using run_remove_estate [OF est0 run] by blast
  let ?b = "remove_ops S analyze True fs i old @ [feed_op S now ChRemove i (get_u64 db META_FEED_SEQ)]"
  obtain tx where c: "(db', p') = tx_commit S tx (db, p)" and b: "tx_batch tx = ?b" "tx_dirty tx"
    and seq: "tx_feed_seq tx = get_u64 db META_FEED_SEQ + 1"
    by (rule run_remove_some [OF est0 Some run])
  have bo: "list_all batch_op (tx_batch tx)" unfolding b(1) by (rule remove_batch)
  note g = commit_get [OF ok bo b(2), where S = S]
  have db': "db' = db_write db (tx_batch tx @ counter_ops S tx)" using c by (simp add: tx_commit_def)
  have get: "get_cf db' c k = apply_view ?b (get_cf db) c k" if "c \<noteq> CfMeta" "c \<noteq> CfTdf" for c k
    using g(2) [OF that] by (simp add: db' b(1))
  have "feed_view S (apply_view ?b (get_cf db)) (log_change now ChRemove i cs)"
    by (rule feed_view_step [OF _ _ js]) (use l room in \<open>simp_all add: remove_ops_plain_feed(1) [simplified]\<close>)
  moreover have "feed_view S (get_cf db') cs' = feed_view S (apply_view ?b (get_cf db)) cs'" for cs'
    by (rule feed_view_cong) (simp add: get)
  moreover have "vecs_view (get_cf db') (V(i := None))"
    unfolding vecs_view_def
  proof
    fix j
    have "map_option decode_vec (get_cf db CfVecs j) = V j" using l by (simp add: vecs_view_def)
    then show "map_option decode_vec (get_cf db' CfVecs j) = (V(i := None)) j"
      by (simp only: get cf.distinct not_False_eq_True apply_view_on_cf remove_ops_plain_feed(2)) (simp add: op_effect_def)
  qed
  moreover have "get_u64 db' META_FEED_SEQ = of_nat (length (log_change now ChRemove i cs))"
    using g(6) l seq by (simp add: db' add.commute)
  ultimately show ?thesis using est l room Some by (simp add: leads_def Diff_eq)
qed

section \<open>Payload mutations\<close>

text \<open>The document after a mutation of its metadata.\<close>

definition with_metadata :: "metadata \<Rightarrow> stored_doc \<Rightarrow> stored_doc" where
  "with_metadata m d = d\<lparr>sd_metadata := m, sd_shape := shape_of m\<rparr>"

lemma with_metadata_sel [simp]:
  "sd_text (with_metadata m d) = sd_text d" "sd_metadata (with_metadata m d) = m" "sd_collection (with_metadata m d) = sd_collection d"
  "sd_sparse_dims (with_metadata m d) = sd_sparse_dims d" "sd_named_spaces (with_metadata m d) = sd_named_spaces d"
  "sd_id (with_metadata m d) = sd_id d"
  by (simp_all add: with_metadata_def)

lemma family_same:
  assumes "family_of rows f D" "D i = Some d" "rows i d' = rows i d"
  shows "family_of rows f (D(i \<mapsto> d'))"
proof -
  have "(\<exists>j e. (D(i \<mapsto> d')) j = Some e \<and> k \<in> rows j e) \<longleftrightarrow> (\<exists>j e. D j = Some e \<and> k \<in> rows j e)" for k
  proof -
    have "(\<exists>e. (D(i \<mapsto> d')) j = Some e \<and> k \<in> rows j e) \<longleftrightarrow> (\<exists>e. D j = Some e \<and> k \<in> rows j e)" for j
      using assms(2,3) by (cases "j = i") auto
    then show ?thesis by (rule ex_cong1)
  qed
  then show ?thesis using assms(1) unfolding family_of_def by (simp only:) blast
qed

definition mutation_ops :: "serde \<Rightarrow> epoch_ms \<Rightarrow> bytes list \<Rightarrow> bytes \<Rightarrow> stored_doc \<Rightarrow> metadata \<Rightarrow> (bytes \<times> 64 word) list \<Rightarrow> 64 word \<Rightarrow> batch" where
  "mutation_ops S now fs i doc m census seq =
     map (OpDelete CfPidx) (pidx_keys (js_value S) fs (sd_metadata doc) i) @
     map (\<lambda>k. OpPut CfPidx k []) (pidx_keys (js_value S) fs m i) @
     [OpPut CfDocs i (js_doc S (with_metadata m doc)), feed_op S now ChUpsert i seq,
      OpPut CfMeta META_FEED_SEQ (u64_le (seq + 1)), OpPut CfMeta META_SHAPES (js_shapes S census)]"

lemma mutate_payload_write:
  assumes "estate_of S analyze fs db D" "D i = Some doc" "get_json (js_shapes_of S) db CfMeta META_SHAPES = Inr sh"
  shows "\<exists>census. mutate_payload S now i f db =
    Inr (db_write db (mutation_ops S now fs i doc (f (sd_metadata doc)) census (get_u64 db META_FEED_SEQ)))"
proof -
  have docs: "docs_of S (get_cf db) D" and fs: "indexed_fields S db = Inr fs" using assms(1) by (simp_all add: estate_of_def view_of_def)
  show ?thesis
    by (simp add: mutate_payload_def get_json_doc [OF docs] assms(2,3) fs Let_def pidx_ops_map mutation_ops_def with_metadata_def) blast
qed

lemma mutation_ops_plain: "list_all plain_op (mutation_ops S now fs i doc m census seq)"
  by (auto simp: mutation_ops_def feed_op_def list_all_iff)

lemma mutation_view:
  assumes "db_ok db"
  shows "get_cf (db_write db (mutation_ops S now fs i doc m census seq)) c k =
    apply_view (mutation_ops S now fs i doc m census seq) (get_cf db) c k"
  using get_write_plain [OF assms mutation_ops_plain] by (simp add: apply_view_def)

lemma mutation_cf:
  fixes S now fs i doc m census seq
  defines "b \<equiv> mutation_ops S now fs i doc m census seq"
  shows "on_cf CfPidx b = map (\<lambda>k. OpDelete CfPidx k) (pidx_keys (js_value S) fs (sd_metadata doc) i) @
      map (\<lambda>k. OpPut CfPidx k []) (pidx_keys (js_value S) fs m i)"
    and "on_cf CfDocs b = [OpPut CfDocs i (js_doc S (with_metadata m doc))]"
    and "on_cf CfFeed b = [feed_op S now ChUpsert i seq]"
    and "on_cf CfMeta b = [OpPut CfMeta META_FEED_SEQ (u64_le (seq + 1)), OpPut CfMeta META_SHAPES (js_shapes S census)]"
    and "c \<notin> {CfPidx, CfDocs, CfFeed, CfMeta} \<Longrightarrow> on_cf c b = []"
  unfolding b_def mutation_ops_def by (auto simp: feed_op_def)

lemma get_u64_some: "get_cf db CfMeta k = Some (u64_le x) \<Longrightarrow> get_u64 db k = x"
  by (simp add: get_u64_def)

lemma mutate_estate:
  assumes est: "estate_of S analyze fs db D" and doc: "D i = Some doc"
    and js: "js_doc_of S (js_doc S (with_metadata m doc)) = Some (with_metadata m doc)"
  shows "estate_of S analyze fs (db_write db (mutation_ops S now fs i doc m census seq)) (D(i \<mapsto> with_metadata m doc))"
proof -
  let ?db = "db_write db (mutation_ops S now fs i doc m census seq)" and ?D = "D(i \<mapsto> with_metadata m doc)"
  have ok: "db_ok db" and v: "view_of S analyze fs (get_cf db) D" using est by (simp_all add: estate_of_def)
  have clean: "ids_clean D" "SEP \<notin> set i" using v doc by (auto simp: view_of_def ids_clean_def)
  note get = mutation_view [OF ok] and cf = mutation_cf [where S = S and now = now and fs = fs and i = i and doc = doc and m = m and census = census and seq = seq]
  have same: "get_cf ?db c k = get_cf db c k" if "c \<notin> {CfPidx, CfDocs, CfFeed, CfMeta}" for c k
    using cf(5) [OF that] by (simp add: get apply_view_on_cf)
  then have cfs: "get_cf ?db c = get_cf db c" if "c \<notin> {CfPidx, CfDocs, CfFeed, CfMeta}" for c
    using that by (simp add: fun_eq_iff)
  have fam: "family_of (term_rows analyze) (get_cf ?db CfTerms) ?D" "family_of sparse_rows (get_cf ?db CfSparse) ?D"
    "family_of nvec_rows (get_cf ?db CfNvecs) ?D" "family_of coll_rows (get_cf ?db CfColl) ?D"
    by (rule family_same [where D = D and i = i and d = doc], use v in \<open>simp add: view_of_def cfs\<close>, rule doc,
        simp add: term_rows_def sparse_rows_def nvec_rows_def coll_rows_def)+
  have pidx: "family_of (pidx_rows (js_value S) fs) (get_cf ?db CfPidx) ?D"
  proof (rule family_step [OF _ rows_end(5) clean])
    show "family_of (pidx_rows (js_value S) fs) (get_cf db CfPidx) D" using v by (simp add: view_of_def)
    show "get_cf ?db CfPidx k \<noteq> None \<longleftrightarrow> k \<in> (\<lambda>k. k) ` set (pidx_keys (js_value S) fs m i) \<or>
        (get_cf db CfPidx k \<noteq> None \<and> k \<notin> (\<lambda>k. k) ` set (old_list (D i) (\<lambda>d. pidx_keys (js_value S) fs (sd_metadata d) i)))" for k
      unfolding get using family_after [OF cf(1) [folded list.map_id, unfolded id_def]] by (simp add: old_list_def doc)
  qed (use set_pidx_keys [of S fs "with_metadata m doc" i] in \<open>simp_all add: set_pidx_keys\<close>)
  have docs: "docs_of S (get_cf ?db) ?D"
    using v js by (auto simp: docs_of_def view_of_def get apply_view_on_cf cf(2) op_effect_def)
  have "ids_clean ?D" using clean by (auto simp: ids_clean_def)
  then have view: "view_of S analyze fs (get_cf ?db) ?D" using docs fam pidx by (simp add: view_of_def)
  have meta: "get_cf ?db CfMeta k = get_cf db CfMeta k" if "k \<noteq> META_FEED_SEQ" "k \<noteq> META_SHAPES" for k
    using that by (simp add: get apply_view_on_cf cf(4) op_effect_def)
  have "get_u64 ?db META_DOC_COUNT = get_u64 db META_DOC_COUNT" using meta by (simp add: get_u64_def meta_key_defs)
  moreover have "indexed_fields S ?db = indexed_fields S db" using meta by (simp add: indexed_fields_def get_json_def meta_key_defs)
  moreover have "doc_freq analyze ?D t = doc_freq analyze D t" for t
    using doc_freq_update [of D analyze i "Some (with_metadata m doc)" t] est doc
    by (simp add: doc_freq_def) (rule arg_cong [where f = card], auto split: if_splits)
  moreover have "dom ?D = dom D" using doc by auto
  ultimately show ?thesis using est view same by (simp add: estate_of_def)
qed

lemma mutate_leads:
  assumes lead: "leads S analyze fs db D V cs" and doc: "D i = Some doc"
    and sh: "get_json (js_shapes_of S) db CfMeta META_SHAPES = Inr sh"
    and js: "js_doc_of S (js_doc S (with_metadata (f (sd_metadata doc)) doc)) = Some (with_metadata (f (sd_metadata doc)) doc)"
      "reads_changes S" and room: "length cs + 1 < 2 ^ 64"
  shows "\<exists>db'. mutate_payload S now i f db = Inr db' \<and>
    leads S analyze fs db' (D(i \<mapsto> with_metadata (f (sd_metadata doc)) doc)) V (log_change now ChUpsert i cs)"
proof -
  note l = lead [unfolded leads_def]
  have est: "estate_of S analyze fs db D" and ok: "db_ok db" using l by (simp_all add: estate_of_def)
  let ?m = "f (sd_metadata doc)" and ?seq = "get_u64 db META_FEED_SEQ"
  obtain census where run: "mutate_payload S now i f db = Inr (db_write db (mutation_ops S now fs i doc ?m census ?seq))"
    using mutate_payload_write [OF est doc sh] by blast
  let ?b = "mutation_ops S now fs i doc ?m census ?seq" and ?db = "db_write db (mutation_ops S now fs i doc ?m census ?seq)"
  note get = mutation_view [OF ok] and cf = mutation_cf [where S = S and now = now and fs = fs and i = i and doc = doc and m = ?m and census = census and seq = ?seq]
  have "feed_view S (apply_view ?b (get_cf db)) (log_change now ChUpsert i cs)"
    by (rule feed_view_step [OF _ _ js(2)]) (use l room cf(3) in simp_all)
  moreover have "feed_view S (get_cf ?db) cs' = feed_view S (apply_view ?b (get_cf db)) cs'" for cs'
    by (rule feed_view_cong) (simp add: get)
  moreover have "vecs_view (get_cf ?db) V" using l cf(5) [where c = CfVecs] by (simp add: vecs_view_def get apply_view_on_cf)
  moreover have "get_u64 ?db META_FEED_SEQ = of_nat (length (log_change now ChUpsert i cs))"
  proof -
    have "get_cf ?db CfMeta META_FEED_SEQ = Some (u64_le (?seq + 1))"
      by (simp add: get apply_view_on_cf cf(4) op_effect_def) (simp add: meta_key_defs)
    from get_u64_some [OF this] show ?thesis using l by (simp add: add.commute)
  qed
  moreover have "insert i (dom D) = dom D" using doc by auto
  ultimately have "leads S analyze fs ?db (D(i \<mapsto> with_metadata ?m doc)) V (log_change now ChUpsert i cs)"
    using mutate_estate [OF est doc js(1)] l room by (simp add: leads_def)
  then show ?thesis using run by blast
qed

text \<open>C21: a payload mutation refines an update of one document's metadata: the document's shape and
  every index row follow, its other families, the counts and the frequencies stay, and an id without
  a document is an error that changes nothing.\<close>

theorem mutate_payload_refines:
  assumes "estate_of S analyze fs db D" "get_json (js_shapes_of S) db CfMeta META_SHAPES = Inr sh"
    "\<forall>d. D i = Some d \<longrightarrow> js_doc_of S (js_doc S (with_metadata (f (sd_metadata d)) d)) = Some (with_metadata (f (sd_metadata d)) d)"
  shows "\<exists>db'. mutate_payload S now i f db = (if D i = None then Inl (NoDocument i) else Inr db') \<and>
    estate_of S analyze fs db' (D(i := map_option (\<lambda>d. with_metadata (f (sd_metadata d)) d) (D i)))"
proof (cases "D i")
  case None
  have "docs_of S (get_cf db) D" using assms(1) by (simp add: estate_of_def view_of_def)
  with None show ?thesis using assms(1)
    by (intro exI [of _ db]) (simp add: mutate_payload_def get_json_doc fun_upd_idem)
next
  case (Some doc)
  obtain shapes' where "mutate_payload S now i f db =
      Inr (db_write db (mutation_ops S now fs i doc (f (sd_metadata doc)) shapes' (get_u64 db META_FEED_SEQ)))"
    using mutate_payload_write [OF assms(1) Some assms(2)] by blast
  with mutate_estate [OF assms(1) Some] assms(3) Some show ?thesis by auto
qed

theorem mutate_payload_refines_witness:
  "\<exists>db db'. estate_of sample_serde sample_words [''tag''] db sample_docs_map \<and>
     mutate_payload sample_serde 9 ''a'' (set_payload [(''tag'', JBool True)]) db = Inr db' \<and>
     estate_of sample_serde sample_words [''tag''] db' sample_docs_map"
proof -
  obtain db where est: "estate_of sample_serde sample_words [''tag''] db sample_docs_map" using sample_after by blast
  have sh: "get_json (js_shapes_of sample_serde) db CfMeta META_SHAPES = Inr (map_option (\<lambda>_. []) (get_cf db CfMeta META_SHAPES))"
    by (simp add: get_json_def sample_serde_def split: option.split)
  have same: "with_metadata (set_payload [(''tag'', JBool True)] (sd_metadata d)) d = d" if "sample_docs_map ''a'' = Some d" for d
    using that unfolding sample_docs_map
    by (auto simp: with_metadata_def set_payload_def stored_of_def sample_metadata)
  have js: "js_doc_of sample_serde (js_doc sample_serde d) = Some d" if "sample_docs_map ''a'' = Some d" for d
    using that sample_js unfolding sample_docs_map by auto
  have d: "sample_docs_map(''a'' := map_option (\<lambda>d. with_metadata (set_payload [(''tag'', JBool True)] (sd_metadata d)) d) (sample_docs_map ''a'')) = sample_docs_map"
    using same by (cases "sample_docs_map ''a''") (auto simp: fun_upd_idem)
  have "sample_docs_map ''a'' \<noteq> None" unfolding sample_docs_map by simp
  with mutate_payload_refines [OF est sh, where i = "''a''" and now = 9 and f = "set_payload [(''tag'', JBool True)]", unfolded d] same js est
  show ?thesis by auto
qed

end
