(* ===== verification/Replica.thy ===== *)
theory Replica
  imports Feed
begin

text \<open>
  Follower-side replication, \<open>crates/rro-engine/src/replica.rs\<close>, against the \<open>replicate\<close> verb of
  \<open>crates/rro-engine/src/handler.rs\<close>.  The message and its transport are left out: a poll is answered
  from the leader's database, and a refusal is its error.
\<close>

section \<open>The verb\<close>

text \<open>The cap of 4096 on the entries of one reply is the handler's.\<close>

definition replicate_verb :: "serde \<Rightarrow> 64 word \<Rightarrow> nat \<Rightarrow> db \<Rightarrow> store_error + repl_entry list" where
  "replicate_verb S since limit db = replication_batch S since (min limit 4096) db"

section \<open>The follower\<close>

record replica =
  rp_store :: "db \<times> (bytes, vec) pstate"
  rp_cursor :: "64 word"

definition replica_new :: "db \<times> (bytes, vec) pstate \<Rightarrow> replica" where
  "replica_new st = \<lparr>rp_store = st, rp_cursor = 0\<rparr>"

definition from_cursor :: "64 word \<Rightarrow> replica \<Rightarrow> replica" where
  "from_cursor c rp = rp\<lparr>rp_cursor := c\<rparr>"

definition apply_entry ::
  "serde \<Rightarrow> (bytes \<Rightarrow> bytes list) \<Rightarrow> epoch_ms \<Rightarrow> quotas \<Rightarrow> repl_entry \<Rightarrow> db \<times> (bytes, vec) pstate \<Rightarrow>
   ((db \<times> (bytes, vec) pstate) \<times> store_error option) option" where
  "apply_entry S analyze now q e st =
     (case re_op e of
        ChUpsert \<Rightarrow> (case re_record e of
                       None \<Rightarrow> Some (st, None)
                     | Some r \<Rightarrow> recall_upsert S analyze now True q [into_record r] st)
      | ChRemove \<Rightarrow> recall_remove S analyze now True (re_doc_id e) st)"

text \<open>An error ends the loop with the cursor at the last entry applied.\<close>

fun apply_entries ::
  "serde \<Rightarrow> (bytes \<Rightarrow> bytes list) \<Rightarrow> epoch_ms \<Rightarrow> quotas \<Rightarrow> repl_entry list \<Rightarrow> replica \<Rightarrow> (replica \<times> store_error option) option" where
  "apply_entries S analyze now q [] rp = Some (rp, None)"
| "apply_entries S analyze now q (e # es) rp =
     (case apply_entry S analyze now q e (rp_store rp) of
        None \<Rightarrow> None
      | Some (st, Some err) \<Rightarrow> Some (rp\<lparr>rp_store := st\<rparr>, Some err)
      | Some (st, None) \<Rightarrow> apply_entries S analyze now q es \<lparr>rp_store = st, rp_cursor = re_seq e + 1\<rparr>)"

definition sync_once ::
  "serde \<Rightarrow> (bytes \<Rightarrow> bytes list) \<Rightarrow> epoch_ms \<Rightarrow> quotas \<Rightarrow> nat \<Rightarrow> db \<Rightarrow> replica \<Rightarrow> (replica \<times> (store_error + nat)) option" where
  "sync_once S analyze now q limit leader rp =
     (case replicate_verb S (rp_cursor rp) limit leader of
        Inl e \<Rightarrow> Some (rp, Inl e)
      | Inr es \<Rightarrow>
          (case apply_entries S analyze now q es rp of
             None \<Rightarrow> None
           | Some (rp', Some e) \<Rightarrow> Some (rp', Inl e)
           | Some (rp', None) \<Rightarrow> Some (rp', Inr (length es))))"

text \<open>
  The loop may run for ever (a limit of 0), so it has fuel, one unit for each poll; \<open>None\<close> is also a
  panic of a poll.  The leader's database stands still meanwhile.
\<close>

fun sync_loop ::
  "serde \<Rightarrow> (bytes \<Rightarrow> bytes list) \<Rightarrow> epoch_ms \<Rightarrow> quotas \<Rightarrow> nat \<Rightarrow> db \<Rightarrow> nat \<Rightarrow> nat \<Rightarrow> replica \<Rightarrow> (replica \<times> (store_error + nat)) option" where
  "sync_loop S analyze now q limit leader 0 count rp = None"
| "sync_loop S analyze now q limit leader (Suc fuel) count rp =
     (case sync_once S analyze now q limit leader rp of
        None \<Rightarrow> None
      | Some (rp', Inl e) \<Rightarrow> Some (rp', Inl e)
      | Some (rp', Inr n) \<Rightarrow>
          if n < limit then Some (rp', Inr (count + n)) else sync_loop S analyze now q limit leader fuel (count + n) rp')"

definition sync_to_head ::
  "serde \<Rightarrow> (bytes \<Rightarrow> bytes list) \<Rightarrow> epoch_ms \<Rightarrow> quotas \<Rightarrow> nat \<Rightarrow> nat \<Rightarrow> db \<Rightarrow> replica \<Rightarrow> (replica \<times> (store_error + nat)) option" where
  "sync_to_head S analyze now q fuel limit leader rp = sync_loop S analyze now q limit leader fuel 0 rp"

end
