(* ===== verification/ReplicaProps.thy ===== *)
theory ReplicaProps
  imports Replica
begin

text \<open>
  Replication converges.  \<open>repl_reach\<close> are the states writes on the leader and polls of the follower
  lead to, in any order; its invariant is that an id the rest of the feed does not mention has the same
  contents on both sides.
\<close>

section \<open>A store that takes every record\<close>

text \<open>Without limits, without a schema and with readable metadata, records of one dimension are accepted.\<close>

definition quotas_default :: quotas where
  "quotas_default = \<lparr>qt_max_docs = None, qt_max_payload_bytes = None, qt_max_top_k = None, qt_max_batch = None\<rparr>"

definition accepts :: "serde \<Rightarrow> nat \<Rightarrow> db \<Rightarrow> bool" where
  "accepts S dim db \<longleftrightarrow>
     (\<exists>info. get_json (js_info_of S) db CfMeta META_ESTATE = Inr (Some info) \<and> ei_dim info \<in> {None, Some dim}) \<and>
     get_cf db CfMeta META_SCHEMA = None \<and>
     (\<exists>s. get_json (js_shapes_of S) db CfMeta META_SHAPES = Inr s) \<and>
     (\<exists>n. get_json (js_names_of S) db CfMeta META_COLLECTIONS = Inr n)"

text \<open>What the serializer must do: read back a change, and read what it wrote of the other blobs.\<close>

definition codec_ok :: "serde \<Rightarrow> nat \<Rightarrow> bool" where
  "codec_ok S dim \<longleftrightarrow>
     reads_changes S \<and> (\<forall>x. \<exists>y. js_shapes_of S (js_shapes S x) = Some y) \<and> (\<forall>x. \<exists>y. js_names_of S (js_names S x) = Some y) \<and>
     (\<forall>x. ei_dim x = Some dim \<longrightarrow> (\<exists>y. js_info_of S (js_info S x) = Some y \<and> ei_dim y \<in> {None, Some dim}))"

definition readable :: "serde \<Rightarrow> stored_doc \<Rightarrow> bool" where
  "readable S d \<longleftrightarrow> js_doc_of S (js_doc S d) = Some d"

definition plain_record :: "nat \<Rightarrow> vector_record \<Rightarrow> bool" where
  "plain_record dim r \<longleftrightarrow> length (vr_embedding r) = dim \<and> vr_named r = [] \<and> vr_multi r = [] \<and>
     \<not> key_too_long (vr_id r) \<and> SEP \<notin> set (vr_id r)"

lemma check_schema_none: "check_schema [] rs = None"
proof (induction rs)
  case (Cons r rs)
  have "Option.bind (vr_collection r) (\<lambda>_. None :: (bytes \<times> bytes) list option) = None" by (cases "vr_collection r") simp_all
  with Cons show ?case by simp
qed simp

lemma accepts_put:
  assumes "accepts S dim db" "db_ok db" "codec_ok S dim"
  shows "ei_dim x = Some dim \<Longrightarrow> accepts S dim (put_json (js_info S) x CfMeta META_ESTATE db)"
    and "accepts S dim (put_json (js_names S) ns CfMeta META_COLLECTIONS db)"
proof -
  have g: "get_json f (put_json w y CfMeta k db) CfMeta k' =
      (if k' = k then (case f (w y) of None \<Rightarrow> Inl BadJson | Some z \<Rightarrow> Inr (Some z)) else get_json f db CfMeta k')" for f :: "bytes \<Rightarrow> 'z option" and w and y :: "'y" and k k'
    using assms(2) by (simp add: get_json_def put_json_def)
  have c: "get_cf (put_json w y CfMeta k db) CfMeta k' = (if k' = k then Some (w y) else get_cf db CfMeta k')" for w and y :: "'y" and k k'
    using assms(2) by (simp add: put_json_def)
  show "accepts S dim (put_json (js_info S) x CfMeta META_ESTATE db)" if d: "ei_dim x = Some dim"
  proof -
    obtain y where "js_info_of S (js_info S x) = Some y" "ei_dim y \<in> {None, Some dim}"
      using assms(3) d unfolding codec_ok_def by blast
    then show ?thesis using assms(1) by (simp add: accepts_def g c meta_key_defs)
  qed
  obtain z where "js_names_of S (js_names S ns) = Some z" using assms(3) unfolding codec_ok_def by blast
  then show "accepts S dim (put_json (js_names S) ns CfMeta META_COLLECTIONS db)"
    using assms(1) by (simp add: accepts_def g c meta_key_defs)
qed

lemma accepts_commit:
  fixes p :: "(bytes, vec) pstate"
  assumes "accepts S dim db" "db_ok db" "codec_ok S dim" "list_all batch_op (tx_batch tx)" "tx_dirty tx"
  shows "accepts S dim (fst (tx_commit S tx (db, p)))"
proof -
  let ?db = "db_write db (tx_batch tx @ counter_ops S tx)"
  note g = commit_get [OF assms(2,4,5), where S = S]
  have m: "get_cf ?db CfMeta META_ESTATE = get_cf db CfMeta META_ESTATE" "get_cf ?db CfMeta META_SCHEMA = get_cf db CfMeta META_SCHEMA"
    "get_cf ?db CfMeta META_COLLECTIONS = get_cf db CfMeta META_COLLECTIONS"
    by (rule g(8); simp add: meta_key_defs)+
  obtain z where "js_shapes_of S (js_shapes S (tx_shapes tx)) = Some z"
    using assms(3) unfolding codec_ok_def by blast
  then show ?thesis using assms(1) g(7) m by (simp add: accepts_def tx_commit_def get_json_def)
qed

lemma upsert_into_accepts:
  assumes acc: "accepts S dim db" and ok: "db_ok db" and codec: "codec_ok S dim" and r: "plain_record dim r"
    and est: "docs_of S (get_cf db) D" "indexed_fields S db = Inr []"
  shows "\<exists>db2 tx1 df. upsert_into S analyze now True [r] db tx0 = Some (db2, Inr (add_ops (df_ops True df) tx1)) \<and>
    accepts S dim db2 \<and> db_ok db2 \<and> upsert_records S analyze now [] db2 [r] (touch_counters tx0, []) = Inr (tx1, df)"
proof -
  obtain info0 where info0: "get_json (js_info_of S) db CfMeta META_ESTATE = Inr (Some info0)" "ei_dim info0 \<in> {None, Some dim}"
    using acc unfolding accepts_def by blast
  define info where "info = (case ei_dim info0 of None \<Rightarrow> info0\<lparr>ei_dim := Some dim\<rparr> | Some _ \<Rightarrow> info0)"
  define db1 where "db1 = (case ei_dim info0 of None \<Rightarrow> put_json (js_info S) info CfMeta META_ESTATE db | Some _ \<Rightarrow> db)"
  have dim: "ei_dim info = Some dim" using info0(2) by (auto simp: info_def)
  have acc1: "accepts S dim db1" using acc accepts_put(1) [OF acc ok codec dim] by (simp add: db1_def split: option.split)
  have same1: "same_but_declared db db1" by (simp add: db1_def same_put split: option.split)
  then have ok1: "db_ok db1" using ok by (simp add: same_but_declared_def)
  have emb: "length (vr_embedding r) = dim" and named: "vr_named r = []" "vr_multi r = []" and key: "\<not> key_too_long (vr_id r)"
    using r by (simp_all add: plain_record_def)
  have sch: "get_json (js_schema_of S) db1 CfMeta META_SCHEMA = Inr None" using acc1 by (simp add: accepts_def get_json_def)
  have "upsert_into S analyze now True [r] db tx0 = Some (upsert_checked S analyze now True [r] info db1 tx0)"
    using info0 sch unfolding upsert_into_def Let_def info_def db1_def
    by (cases "ei_dim info0") (simp_all add: emb check_dims_def check_schema_none)
  moreover obtain reg0 where reg0: "get_json (js_names_of S) db1 CfMeta META_COLLECTIONS = Inr reg0"
    using acc1 unfolding accepts_def by blast
  define reg where "reg = (case reg0 of None \<Rightarrow> [] | Some x \<Rightarrow> x)"
  define db2 where "db2 = (if register_collections [r] reg = reg then db1
    else put_json (js_names S) (sort (register_collections [r] reg)) CfMeta META_COLLECTIONS db1)"
  have acc2: "accepts S dim db2" using acc1 accepts_put(2) [OF acc1 ok1 codec] by (simp add: db2_def)
  have same2: "same_but_declared db db2" using same1 unfolding db2_def by (simp del: register_collections.simps add: same_trans [OF same1 same_put])
  then have ok2: "db_ok db2" using ok by (simp add: same_but_declared_def)
  have docs2: "docs_of S (get_cf db2) D" using est(1) same2 ok by (simp add: docs_of_def same_but_declared_def)
  obtain tx1 df where rec: "upsert_record S analyze now [] db2 r (touch_counters tx0, []) = Inr (tx1, df)"
    by (cases "D (vr_id r)") (auto simp: upsert_record_def key get_json_doc [OF docs2] Let_def)
  have idx: "indexed_fields S db1 = Inr []" using indexed_fields_same [OF same1 ok] est(2) by simp
  have cn: "check_named [r] (ei_named_dims info) = Inr (ei_named_dims info)" by (simp add: named)
  have ups: "upsert_records S analyze now [] db2 [r] (touch_counters tx0, []) = Inr (tx1, df)" by (simp add: rec)
  have "upsert_checked S analyze now True [r] info db1 tx0 = (db2, Inr (add_ops (df_ops True df) tx1))"
    by (simp only: upsert_checked_def Let_def idx reg0 sum.case cn simp_thms if_True reg_def [symmetric] db2_def [symmetric] ups prod.case)
  ultimately show ?thesis using acc2 ok2 rec by auto
qed

lemma upsert_runs:
  assumes acc: "accepts S dim db" and codec: "codec_ok S dim" and r: "plain_record dim r"
    and lead: "leads S analyze [] db D V cs" and js: "readable S (stored_of analyze r)" and room: "length cs + 1 < 2 ^ 64"
  shows "\<exists>db' p'. recall_upsert S analyze now True quotas_default [r] (db, p) = Some ((db', p'), None) \<and>
    run_transaction S analyze now True [WUpsert [r]] (db, p) = Some ((db', p'), None) \<and> accepts S dim db' \<and>
    leads S analyze [] db' (D(vr_id r \<mapsto> stored_of analyze r)) (V(vr_id r \<mapsto> vr_embedding r)) (log_change now ChUpsert (vr_id r) cs)"
proof -
  have ok: "db_ok db" and docs: "docs_of S (get_cf db) D" and fs: "indexed_fields S db = Inr []"
    using lead by (simp_all add: leads_def estate_of_def view_of_def)
  obtain s where s: "get_json (js_shapes_of S) db CfMeta META_SHAPES = Inr s" using acc unfolding accepts_def by blast
  then obtain tx0 where tx0: "tx_begin S db = Inr tx0" by (simp add: tx_begin_def)
  obtain db2 tx1 df where u: "upsert_into S analyze now True [r] db tx0 = Some (db2, Inr (add_ops (df_ops True df) tx1))"
    and acc2: "accepts S dim db2" and ok2: "db_ok db2"
    and rec: "upsert_records S analyze now [] db2 [r] (touch_counters tx0, []) = Inr (tx1, df)"
    using upsert_into_accepts [OF acc ok codec r docs fs] by blast
  define db' p' where "db' = fst (tx_commit S (add_ops (df_ops True df) tx1) (db2, p))"
    and "p' = snd (tx_commit S (add_ops (df_ops True df) tx1) (db2, p))"
  have run: "run_transaction S analyze now True [WUpsert [r]] (db, p) = Some ((db', p'), None)"
    by (simp add: run_transaction_def tx0 apply_write_def u db'_def p'_def)
  have lead': "leads S analyze [] db' (add_docs analyze [r] D) (add_vecs [r] V) (log_upserts now [r] cs)"
    by (rule upsert_leads [OF lead run])
      (use r js codec room in \<open>simp_all add: plain_record_def readable_def codec_ok_def\<close>)
  have docs2: "docs_of S (get_cf db2) D"
    using upsert_into_result [OF u] docs ok by (simp add: docs_of_def same_but_declared_def)
  have "upsert_record S analyze now [] db2 r (touch_counters tx0, []) = Inr (tx1, df)" using rec by (auto simp: bind_result_Inr_iff)
  note st = upsert_record_step [OF this docs2]
  have "list_all batch_op (tx_batch tx1)"
    by (rule batch_op_plain) (use st tx_begin_sel [OF tx0] in \<open>simp_all add: upsert_ops_plain\<close>)
  then have "accepts S dim db'" unfolding db'_def
    by (intro accepts_commit [OF acc2 ok2 codec]) (use st df_ops_batch in \<open>simp_all add: list_all_append\<close>)
  moreover have "recall_upsert S analyze now True quotas_default [r] (db, p) = Some ((db', p'), None)"
    using run by (simp add: recall_upsert_def quotas_default_def batch_error_def payload_error_def docs_error_def)
  ultimately show ?thesis using run lead' by (auto simp: add_docs_def add_vecs_def)
qed

lemma remove_runs:
  assumes acc: "accepts S dim db" and codec: "codec_ok S dim"
    and lead: "leads S analyze fs db D V cs" and room: "length cs + 1 < 2 ^ 64"
  shows "\<exists>db' p'. recall_remove S analyze now True i (db, p) = Some ((db', p'), None) \<and> accepts S dim db' \<and>
    leads S analyze fs db' (D(i := None)) (V(i := None)) (if D i = None then cs else log_change now ChRemove i cs)"
proof -
  have est: "estate_of S analyze fs db D" using lead by (simp add: leads_def)
  then have ok: "db_ok db" and docs: "docs_of S (get_cf db) D" and fs: "indexed_fields S db = Inr fs"
    by (simp_all add: estate_of_def view_of_def)
  obtain s where s: "get_json (js_shapes_of S) db CfMeta META_SHAPES = Inr s" using acc unfolding accepts_def by blast
  then obtain tx0 where tx0: "tx_begin S db = Inr tx0" by (simp add: tx_begin_def)
  obtain tx where "remove_into S analyze now True i db tx0 = Inr tx"
    by (cases "D i") (auto simp: remove_into_def get_json_doc [OF docs] fs Let_def)
  then obtain db' p' where run: "run_transaction S analyze now True [WRemove i] (db, p) = Some ((db', p'), None)"
    by (cases "tx_commit S tx (db, p)") (simp add: run_transaction_def tx0 apply_write_def)
  have "accepts S dim db'"
  proof (cases "D i")
    case None
    then show ?thesis using run_remove_none [OF est None run] acc by simp
  next
    case (Some old)
    obtain tx where c: "(db', p') = tx_commit S tx (db, p)"
      and b: "tx_batch tx = remove_ops S analyze True fs i old @ [feed_op S now ChRemove i (get_u64 db META_FEED_SEQ)]" "tx_dirty tx"
      by (rule run_remove_some [OF est Some run])
    have "list_all batch_op (tx_batch tx)" unfolding b(1) by (rule remove_batch)
    from accepts_commit [OF acc ok codec this b(2), of p] c show ?thesis by (metis fst_conv)
  qed
  moreover have "leads S analyze fs db' (D(i := None)) (V(i := None)) (if D i = None then cs else log_change now ChRemove i cs)"
    by (rule remove_leads [OF lead run _ room]) (use codec in \<open>simp add: codec_ok_def\<close>)
  ultimately show ?thesis using run by (auto simp: recall_remove_def)
qed

section \<open>What a follower mirrors\<close>

type_synonym contents = "bytes \<times> metadata \<times> bytes option \<times> vec"

definition content :: "docs \<Rightarrow> (bytes \<rightharpoonup> vec) \<Rightarrow> bytes \<Rightarrow> contents option" where
  "content D V i =
     (case (D i, V i) of (Some d, Some v) \<Rightarrow> Some (sd_text d, sd_metadata d, sd_collection d, v) | _ \<Rightarrow> None)"

text \<open>The text, metadata, collection and vector a store has for an id.\<close>

definition mirrored :: "serde \<Rightarrow> db \<Rightarrow> bytes \<Rightarrow> contents option" where
  "mirrored S db i =
     (case (recall_doc S i db, vector_of i db) of
        (Inr (Some d), Some v) \<Rightarrow> Some (sd_text d, sd_metadata d, sd_collection d, v)
      | _ \<Rightarrow> None)"

lemma leads_reads:
  assumes "leads S analyze fs db D V cs"
  shows "recall_doc S i db = Inr (D i)" "vector_of i db = V i" "mirrored S db i = content D V i"
proof -
  have docs: "docs_of S (get_cf db) D" and vecs: "vecs_view (get_cf db) V"
    using assms by (simp_all add: leads_def estate_of_def view_of_def)
  show r: "recall_doc S i db = Inr (D i)" by (simp add: recall_doc_def get_json_doc [OF docs])
  show v: "vector_of i db = V i" using vecs by (simp add: vector_of_def vecs_view_def)
  show "mirrored S db i = content D V i" by (simp add: mirrored_def content_def r v split: option.split)
qed

lemma content_dom: "dom V = dom D \<Longrightarrow> content D V i \<noteq> None \<longleftrightarrow> i \<in> dom D"
  by (auto simp: content_def split: option.split)

definition record_of :: "docs \<Rightarrow> (bytes \<rightharpoonup> vec) \<Rightarrow> bytes \<Rightarrow> repl_record option" where
  "record_of D V i =
     (case (V i, D i) of
        (Some e, Some d) \<Rightarrow> Some \<lparr>rr_id = i, rr_embedding = e, rr_text = sd_text d, rr_metadata = sd_metadata d, rr_collection = sd_collection d\<rparr>
      | _ \<Rightarrow> None)"

definition entry_of :: "docs \<Rightarrow> (bytes \<rightharpoonup> vec) \<Rightarrow> change \<Rightarrow> repl_entry" where
  "entry_of D V c =
     \<lparr>re_seq = ch_seq c, re_op = ch_op c, re_doc_id = ch_doc_id c,
      re_record = (case ch_op c of ChRemove \<Rightarrow> None | ChUpsert \<Rightarrow> record_of D V (ch_doc_id c))\<rparr>"

lemma repl_entries_leads:
  assumes "leads S analyze fs db D V cs"
  shows "repl_entries S l db = Inr (map (entry_of D V) l)"
  by (induction l) (auto simp: repl_record_of_def leads_reads [OF assms] entry_of_def record_of_def split: change_op.split option.split)

lemma replicate_leads:
  assumes lead: "leads S analyze fs db D V cs" and since: "unat since \<le> length cs"
  shows "replicate_verb S since limit db = Inr (map (entry_of D V) (take (min limit 4096) (drop (unat since) cs)))"
proof -
  have l: "db_ok db" "feed_view S (get_cf db) cs" "length cs < 2 ^ 64" using lead by (simp_all add: leads_def estate_of_def)
  show ?thesis
    by (simp add: replicate_verb_def replication_batch_def changes_of [OF l since] repl_entries_leads [OF lead])
qed

text \<open>The document a follower stores for a record.\<close>

definition follower_doc :: "(bytes \<Rightarrow> bytes list) \<Rightarrow> repl_record \<Rightarrow> stored_doc" where
  "follower_doc analyze r = stored_of analyze (into_record r)"

lemma into_record_sel [simp]:
  "vr_id (into_record r) = rr_id r" "vr_embedding (into_record r) = rr_embedding r" "vr_named (into_record r) = []"
  "vr_multi (into_record r) = []" "vr_text (into_record r) = rr_text r" "vr_metadata (into_record r) = rr_metadata r"
  "vr_collection (into_record r) = rr_collection r"
  by (simp_all add: into_record_def vector_record_new_def)

text \<open>What one entry does to the contents of the follower.\<close>

definition absorb :: "(bytes \<Rightarrow> contents option) \<Rightarrow> change \<Rightarrow> (bytes \<Rightarrow> contents option) \<Rightarrow> (bytes \<Rightarrow> contents option)" where
  "absorb L c F =
     (case ch_op c of
        ChRemove \<Rightarrow> F(ch_doc_id c := None)
      | ChUpsert \<Rightarrow> (if L (ch_doc_id c) = None then F else F(ch_doc_id c := L (ch_doc_id c))))"

definition mirrorable :: "serde \<Rightarrow> (bytes \<Rightarrow> bytes list) \<Rightarrow> nat \<Rightarrow> docs \<Rightarrow> (bytes \<rightharpoonup> vec) \<Rightarrow> bool" where
  "mirrorable S analyzeF dim D V \<longleftrightarrow>
     (\<forall>i r. record_of D V i = Some r \<longrightarrow> readable S (follower_doc analyzeF r) \<and> length (rr_embedding r) = dim \<and>
        \<not> key_too_long i \<and> SEP \<notin> set i)"

lemma apply_entry_runs:
  assumes acc: "accepts S dim fdb" and codec: "codec_ok S dim" and lead: "leads S analyzeF [] fdb Df Vf csf"
    and mir: "mirrorable S analyzeF dim D V" and room: "length csf + 1 < 2 ^ 64"
  shows "\<exists>fdb' fp' Df' Vf' csf'. apply_entry S analyzeF now quotas_default (entry_of D V c) (fdb, fp) = Some ((fdb', fp'), None) \<and>
    accepts S dim fdb' \<and> leads S analyzeF [] fdb' Df' Vf' csf' \<and> length csf' \<le> length csf + 1 \<and>
    content Df' Vf' = absorb (content D V) c (content Df Vf)"
proof (cases "ch_op c")
  case ChRemove
  obtain fdb' fp' where "recall_remove S analyzeF now True (ch_doc_id c) (fdb, fp) = Some ((fdb', fp'), None)" "accepts S dim fdb'"
    "leads S analyzeF [] fdb' (Df(ch_doc_id c := None)) (Vf(ch_doc_id c := None))
       (if Df (ch_doc_id c) = None then csf else log_change now ChRemove (ch_doc_id c) csf)"
    using remove_runs [OF acc codec lead room, of now "ch_doc_id c" fp] by blast
  moreover have "content (Df(ch_doc_id c := None)) (Vf(ch_doc_id c := None)) = absorb (content D V) c (content Df Vf)"
    by (simp add: fun_eq_iff content_def absorb_def ChRemove)
  ultimately show ?thesis by (fastforce simp: apply_entry_def entry_of_def ChRemove)
next
  case ChUpsert
  let ?i = "ch_doc_id c"
  show ?thesis
  proof (cases "record_of D V ?i")
    case None
    then have "content D V ?i = None" by (auto simp: record_of_def content_def split: option.splits)
    then show ?thesis using acc lead None ChUpsert
      by (intro exI [of _ fdb] exI [of _ fp] exI [of _ Df] exI [of _ Vf] exI [of _ csf])
        (simp add: apply_entry_def entry_of_def absorb_def)
  next
    case (Some r)
    have rid: "rr_id r = ?i" and ct: "content D V ?i = Some (rr_text r, rr_metadata r, rr_collection r, rr_embedding r)"
      using Some by (auto simp: record_of_def content_def split: option.splits)
    have m: "readable S (stored_of analyzeF (into_record r))" "plain_record dim (into_record r)"
      using mir Some rid unfolding mirrorable_def plain_record_def by (auto simp: follower_doc_def)
    obtain fdb' fp' where run: "recall_upsert S analyzeF now True quotas_default [into_record r] (fdb, fp) = Some ((fdb', fp'), None)" "accepts S dim fdb'"
      "leads S analyzeF [] fdb' (Df(?i \<mapsto> stored_of analyzeF (into_record r))) (Vf(?i \<mapsto> rr_embedding r)) (log_change now ChUpsert ?i csf)"
      using upsert_runs [OF acc codec m(2) lead m(1) room, of now fp] by (auto simp: rid)
    moreover have "content (Df(?i \<mapsto> stored_of analyzeF (into_record r))) (Vf(?i \<mapsto> rr_embedding r)) = absorb (content D V) c (content Df Vf)"
    proof -
      have "content (Df(?i \<mapsto> stored_of analyzeF (into_record r))) (Vf(?i \<mapsto> rr_embedding r)) =
          (content Df Vf)(?i \<mapsto> (rr_text r, rr_metadata r, rr_collection r, rr_embedding r))"
        by (simp add: fun_eq_iff content_def)
      then show ?thesis by (simp add: absorb_def ChUpsert ct)
    qed
    ultimately show ?thesis
      by (intro exI [of _ fdb'] exI [of _ fp'] exI conjI, simp add: apply_entry_def entry_of_def ChUpsert Some) auto
  qed
qed

lemma apply_entries_runs:
  assumes codec: "codec_ok S dim" and mir: "mirrorable S analyzeF dim D V"
  shows "accepts S dim (fst (rp_store rp)) \<Longrightarrow> leads S analyzeF [] (fst (rp_store rp)) Df Vf csf \<Longrightarrow>
    length csf + length l < 2 ^ 64 \<Longrightarrow>
    \<exists>rp' Df' Vf' csf'. apply_entries S analyzeF now quotas_default (map (entry_of D V) l) rp = Some (rp', None) \<and>
      accepts S dim (fst (rp_store rp')) \<and> leads S analyzeF [] (fst (rp_store rp')) Df' Vf' csf' \<and>
      length csf' \<le> length csf + length l \<and>
      rp_cursor rp' = (if l = [] then rp_cursor rp else ch_seq (last l) + 1) \<and>
      content Df' Vf' = fold (absorb (content D V)) l (content Df Vf)"
proof (induction l arbitrary: rp Df Vf csf)
  case Nil
  then show ?case by auto
next
  case (Cons c l)
  obtain fdb fp where st: "rp_store rp = (fdb, fp)" by (cases "rp_store rp")
  have room: "length csf + 1 < 2 ^ 64" using Cons.prems(3) by simp
  obtain fdb' fp' Df1 Vf1 csf1 where e: "apply_entry S analyzeF now quotas_default (entry_of D V c) (fdb, fp) = Some ((fdb', fp'), None)"
    "accepts S dim fdb'" "leads S analyzeF [] fdb' Df1 Vf1 csf1" "length csf1 \<le> length csf + 1"
    "content Df1 Vf1 = absorb (content D V) c (content Df Vf)"
    using apply_entry_runs [OF _ codec _ mir room, where fdb = fdb and Df = Df and Vf = Vf and now = now and c = c and fp = fp] Cons.prems(1,2) by (auto simp: st)
  let ?rp = "\<lparr>rp_store = (fdb', fp'), rp_cursor = re_seq (entry_of D V c) + 1\<rparr>"
  have "length csf1 + length l < 2 ^ 64" using e(4) Cons.prems(3) by simp
  from Cons.IH [where rp = ?rp and Df = Df1 and Vf = Vf1 and csf = csf1, OF _ _ this] e(2,3)
  obtain rp' Df' Vf' csf' where r: "apply_entries S analyzeF now quotas_default (map (entry_of D V) l) ?rp = Some (rp', None)"
    "accepts S dim (fst (rp_store rp'))" "leads S analyzeF [] (fst (rp_store rp')) Df' Vf' csf'"
    "length csf' \<le> length csf1 + length l" "rp_cursor rp' = (if l = [] then rp_cursor ?rp else ch_seq (last l) + 1)"
    "content Df' Vf' = fold (absorb (content D V)) l (content Df1 Vf1)" by auto
  have "apply_entries S analyzeF now quotas_default (map (entry_of D V) (c # l)) rp = Some (rp', None)"
    using e(1) r(1) by (simp add: st)
  moreover have "rp_cursor rp' = ch_seq (last (c # l)) + 1" using r(5) by (simp add: entry_of_def)
  moreover have "content Df' Vf' = fold (absorb (content D V)) (c # l) (content Df Vf)" using r(6) e(5) by simp
  moreover have "length csf' \<le> length csf + length (c # l)" using r(4) e(4) by simp
  ultimately show ?case using r(2,3) by auto
qed

section \<open>The last change of an id decides\<close>

definition log_step :: "change \<Rightarrow> bytes set \<Rightarrow> bytes set" where
  "log_step c A = (case ch_op c of ChUpsert \<Rightarrow> insert (ch_doc_id c) A | ChRemove \<Rightarrow> A - {ch_doc_id c})"

lemma log_docs_fold: "log_docs cs = fold log_step cs {}"
  by (simp add: log_docs_def log_step_def [abs_def])

lemma log_docs_append: "log_docs (a @ b) = fold log_step b (log_docs a)"
  by (simp add: log_docs_fold)

lemma log_step_other: "i \<notin> ch_doc_id ` set b \<Longrightarrow> i \<in> fold log_step b A \<longleftrightarrow> i \<in> A"
  by (induction b arbitrary: A) (auto simp: log_step_def split: change_op.split)

lemma absorb_other: "i \<notin> ch_doc_id ` set b \<Longrightarrow> fold (absorb L) b F i = F i"
  by (induction b arbitrary: F) (auto simp: absorb_def split: change_op.split)

lemma absorb_last:
  assumes "i \<in> ch_doc_id ` set l" "L i \<noteq> None \<longleftrightarrow> i \<in> fold log_step l A"
  shows "fold (absorb L) l F i = L i"
  using assms
proof (induction l rule: rev_induct)
  case (snoc c l)
  show ?case
  proof (cases "ch_doc_id c = i")
    case True
    then show ?thesis using snoc.prems(2) by (cases "ch_op c"; cases "L (ch_doc_id c)") (auto simp: absorb_def log_step_def)
  next
    case False
    then have "fold (absorb L) l F i = L i"
      using snoc by (auto simp: log_step_def split: change_op.splits)
    then show ?thesis using False by (auto simp: absorb_def [of L c] split: change_op.split)
  qed
qed simp

text \<open>The follower agrees with the leader on the ids the feed does not mention from the cursor on.\<close>

definition agree :: "(bytes \<Rightarrow> contents option) \<Rightarrow> change list \<Rightarrow> nat \<Rightarrow> (bytes \<Rightarrow> contents option) \<Rightarrow> bool" where
  "agree L cs n F \<longleftrightarrow> (\<forall>i. i \<notin> ch_doc_id ` set (drop n cs) \<longrightarrow> F i = L i)"

lemma agree_sync:
  assumes "agree L cs n F" "\<And>i. L i \<noteq> None \<longleftrightarrow> i \<in> log_docs cs"
  shows "agree L cs (n + k) (fold (absorb L) (take k (drop n cs)) F)"
  unfolding agree_def
proof (intro allI impI)
  fix i assume i: "i \<notin> ch_doc_id ` set (drop (n + k) cs)"
  have split: "drop n cs = take k (drop n cs) @ drop (n + k) cs" by (metis append_take_drop_id add.commute drop_drop)
  show "fold (absorb L) (take k (drop n cs)) F i = L i"
  proof (cases "i \<in> ch_doc_id ` set (take k (drop n cs))")
    case True
    have "log_docs cs = fold log_step (drop (n + k) cs) (fold log_step (take k (drop n cs)) (log_docs (take n cs)))"
      by (metis append_take_drop_id log_docs_append split fold_append o_apply)
    then have "L i \<noteq> None \<longleftrightarrow> i \<in> fold log_step (take k (drop n cs)) (log_docs (take n cs))"
      using assms(2) log_step_other [OF i] by simp
    then show ?thesis by (rule absorb_last [where L = L, OF True])
  next
    case False
    then have "i \<notin> ch_doc_id ` set (drop n cs)" using i by (subst split) auto
    then show ?thesis using assms(1) absorb_other [OF False] by (simp add: agree_def)
  qed
qed

lemma agree_write:
  assumes "agree L cs n F" "\<And>i. i \<notin> ch_doc_id ` set new \<Longrightarrow> L' i = L i" "n \<le> length cs"
  shows "agree L' (cs @ new) n F"
  using assms by (simp add: agree_def image_Un)

section \<open>Leaders and followers\<close>

text \<open>The record the leader would send for a document of its database.\<close>

definition repl_of :: "bytes \<Rightarrow> vec \<Rightarrow> stored_doc \<Rightarrow> repl_record" where
  "repl_of i v d = \<lparr>rr_id = i, rr_embedding = v, rr_text = sd_text d, rr_metadata = sd_metadata d, rr_collection = sd_collection d\<rparr>"

text \<open>
  States of a leader and a follower that began empty: committed and failed statements, payload
  mutations, and polls with any limit.  The premises of a write say that the vectors have the
  dimension \<open>dim\<close> (which the code enforces from the first one on), that keys have no separator, that
  the serializer reads back what is stored, and that the 64-bit feed counter has room.
\<close>

inductive repl_reach ::
  "serde \<Rightarrow> (bytes \<Rightarrow> bytes list) \<Rightarrow> (bytes \<Rightarrow> bytes list) \<Rightarrow> nat \<Rightarrow> bytes list \<Rightarrow> db \<times> (bytes, vec) pstate \<Rightarrow> replica \<Rightarrow> bool"
  for S analyze analyzeF dim fs where
  start: "leads S analyze fs db Map.empty Map.empty [] \<Longrightarrow> leads S analyzeF [] fdb Map.empty Map.empty [] \<Longrightarrow> accepts S dim fdb \<Longrightarrow>
    repl_reach S analyze analyzeF dim fs (db, p) (replica_new (fdb, fp))"
| upserted: "repl_reach S analyze analyzeF dim fs (db, p) rp \<Longrightarrow>
    run_transaction S analyze now True [WUpsert rs] (db, p) = Some ((db', p'), None) \<Longrightarrow> distinct (map vr_id rs) \<Longrightarrow>
    \<forall>r \<in> set rs. length (vr_embedding r) = dim \<and> SEP \<notin> set (vr_id r) \<and> readable S (stored_of analyze r) \<and>
      readable S (follower_doc analyzeF (repl_of (vr_id r) (vr_embedding r) (stored_of analyze r))) \<Longrightarrow>
    unat (get_u64 db META_FEED_SEQ) + length rs < 2 ^ 64 \<Longrightarrow> repl_reach S analyze analyzeF dim fs (db', p') rp"
| removed: "repl_reach S analyze analyzeF dim fs (db, p) rp \<Longrightarrow>
    run_transaction S analyze now True [WRemove i] (db, p) = Some ((db', p'), None) \<Longrightarrow>
    unat (get_u64 db META_FEED_SEQ) + 1 < 2 ^ 64 \<Longrightarrow> repl_reach S analyze analyzeF dim fs (db', p') rp"
| failed: "repl_reach S analyze analyzeF dim fs (db, p) rp \<Longrightarrow>
    run_transaction S analyze now True ws (db, p) = Some ((db', p'), Some e) \<Longrightarrow> repl_reach S analyze analyzeF dim fs (db', p') rp"
| mutated: "repl_reach S analyze analyzeF dim fs (db, p) rp \<Longrightarrow> mutate_payload S now i f db = Inr db' \<Longrightarrow>
    \<forall>d v. recall_doc S i db = Inr (Some d) \<longrightarrow> vector_of i db = Some v \<longrightarrow>
      readable S (with_metadata (f (sd_metadata d)) d) \<and> readable S (follower_doc analyzeF (repl_of i v (with_metadata (f (sd_metadata d)) d))) \<Longrightarrow>
    unat (get_u64 db META_FEED_SEQ) + 1 < 2 ^ 64 \<Longrightarrow> repl_reach S analyze analyzeF dim fs (db', p) rp"
| polled: "repl_reach S analyze analyzeF dim fs (db, p) rp \<Longrightarrow>
    sync_once S analyzeF now quotas_default limit db rp = Some (rp', res) \<Longrightarrow> repl_reach S analyze analyzeF dim fs (db, p) rp'"

definition repl_inv ::
  "serde \<Rightarrow> (bytes \<Rightarrow> bytes list) \<Rightarrow> (bytes \<Rightarrow> bytes list) \<Rightarrow> nat \<Rightarrow> bytes list \<Rightarrow> db \<Rightarrow> replica \<Rightarrow>
   docs \<Rightarrow> (bytes \<rightharpoonup> vec) \<Rightarrow> change list \<Rightarrow> docs \<Rightarrow> (bytes \<rightharpoonup> vec) \<Rightarrow> change list \<Rightarrow> bool" where
  "repl_inv S analyze analyzeF dim fs db rp D V cs Df Vf csf \<longleftrightarrow>
     leads S analyze fs db D V cs \<and> mirrorable S analyzeF dim D V \<and>
     leads S analyzeF [] (fst (rp_store rp)) Df Vf csf \<and> accepts S dim (fst (rp_store rp)) \<and>
     length csf \<le> unat (rp_cursor rp) \<and> unat (rp_cursor rp) \<le> length cs \<and>
     agree (content D V) cs (unat (rp_cursor rp)) (content Df Vf)"

lemma content_log:
  assumes "leads S analyze fs db D V cs"
  shows "content D V i \<noteq> None \<longleftrightarrow> i \<in> log_docs cs"
  using assms content_dom [of V D i] by (simp add: leads_def)

lemma ch_seq_leads: "leads S analyze fs db D V cs \<Longrightarrow> n < length cs \<Longrightarrow> ch_seq (cs ! n) = of_nat n"
  by (simp add: leads_def feed_view_def)

lemma sync_once_runs:
  assumes codec: "codec_ok S dim" and inv: "repl_inv S analyze analyzeF dim fs db rp D V cs Df Vf csf"
  shows "\<exists>rp' Df' Vf' csf'. sync_once S analyzeF now quotas_default limit db rp =
      Some (rp', Inr (min (min limit 4096) (length cs - unat (rp_cursor rp)))) \<and>
    unat (rp_cursor rp') = unat (rp_cursor rp) + min (min limit 4096) (length cs - unat (rp_cursor rp)) \<and>
    repl_inv S analyze analyzeF dim fs db rp' D V cs Df' Vf' csf'"
proof -
  note v = inv [unfolded repl_inv_def]
  have lead: "leads S analyze fs db D V cs" and mir: "mirrorable S analyzeF dim D V" and n: "unat (rp_cursor rp) \<le> length cs"
    and acc: "accepts S dim (fst (rp_store rp))" and flead: "leads S analyzeF [] (fst (rp_store rp)) Df Vf csf"
    and ag: "agree (content D V) cs (unat (rp_cursor rp)) (content Df Vf)" and csf: "length csf \<le> unat (rp_cursor rp)"
    using v by blast+
  have big: "length cs < 2 ^ 64" using lead by (simp add: leads_def)
  let ?n = "unat (rp_cursor rp)" and ?k = "min limit 4096"
  let ?l = "take ?k (drop ?n cs)"
  have len: "length ?l = min ?k (length cs - ?n)" by simp
  have "length csf + length ?l < 2 ^ 64" using csf n big by simp
  from apply_entries_runs [OF codec mir acc flead this, of now]
  obtain rp' Df' Vf' csf' where a: "apply_entries S analyzeF now quotas_default (map (entry_of D V) ?l) rp = Some (rp', None)"
    "accepts S dim (fst (rp_store rp'))" "leads S analyzeF [] (fst (rp_store rp')) Df' Vf' csf'" "length csf' \<le> length csf + length ?l"
    "rp_cursor rp' = (if ?l = [] then rp_cursor rp else ch_seq (last ?l) + 1)"
    "content Df' Vf' = fold (absorb (content D V)) ?l (content Df Vf)" by blast
  have cur: "unat (rp_cursor rp') = ?n + length ?l"
  proof (cases "?l = []")
    case True
    then have "rp_cursor rp' = rp_cursor rp" using a(5) by (simp only: simp_thms if_True)
    moreover have "length ?l = 0" using True by (simp only: list.size)
    ultimately show ?thesis by (simp only: add_0_right)
  next
    case False
    then have pos: "0 < length ?l" by blast
    have "last ?l = ?l ! (length ?l - 1)" using False by (rule last_conv_nth)
    also have "\<dots> = drop ?n cs ! (length ?l - 1)" using pos len by (intro nth_take) linarith
    also have "\<dots> = cs ! (?n + (length ?l - 1))" using n by (rule nth_drop)
    finally have "last ?l = cs ! (?n + (length ?l - 1))" .
    moreover have less: "?n + (length ?l - 1) < length cs" using pos len by linarith
    ultimately have "ch_seq (last ?l) = of_nat (?n + (length ?l - 1))" using ch_seq_leads [OF lead less] by simp
    then have "rp_cursor rp' = of_nat (Suc (?n + (length ?l - 1)))" using False a(5) by simp
    also have "Suc (?n + (length ?l - 1)) = ?n + length ?l" using pos by linarith
    finally have "rp_cursor rp' = of_nat (?n + length ?l)" .
    moreover have "?n + length ?l < 2 ^ 64" using big n len by linarith
    ultimately show ?thesis by (simp only: unat_of_nat64)
  qed
  have "agree (content D V) cs (?n + ?k) (content Df' Vf')"
    unfolding a(6) by (rule agree_sync [OF ag content_log [OF lead]])
  moreover have "drop (?n + ?k) cs = drop (?n + length ?l) cs" using n by (cases "?k \<le> length cs - ?n") simp_all
  ultimately have "agree (content D V) cs (unat (rp_cursor rp')) (content Df' Vf')" by (simp only: agree_def cur)
  then have "repl_inv S analyze analyzeF dim fs db rp' D V cs Df' Vf' csf'"
    using lead mir a(2,3,4) csf n cur by (simp add: repl_inv_def)
  moreover have "sync_once S analyzeF now quotas_default limit db rp = Some (rp', Inr (length ?l))"
    using a(1) by (simp add: sync_once_def replicate_leads [OF lead n])
  ultimately show ?thesis using cur len by (intro exI [of _ rp'] exI [of _ Df'] exI [of _ Vf'] exI [of _ csf']) simp
qed

lemma log_upserts_new: "\<exists>new. log_upserts now rs cs = cs @ new \<and> ch_doc_id ` set new = vr_id ` set rs"
proof (induction rs arbitrary: cs)
  case (Cons r rs)
  obtain new where "log_upserts now rs (log_change now ChUpsert (vr_id r) cs) = log_change now ChUpsert (vr_id r) cs @ new"
    "ch_doc_id ` set new = vr_id ` set rs" using Cons.IH by blast
  then show ?case by (simp add: log_change_def)
qed simp

lemma record_of_some: "record_of D V i = Some r \<longleftrightarrow> (\<exists>d v. D i = Some d \<and> V i = Some v \<and> r = repl_of i v d)"
  by (auto simp: record_of_def repl_of_def split: option.splits)

lemma add_other: "i \<notin> vr_id ` set rs \<Longrightarrow> add_docs analyze rs D i = D i \<and> add_vecs rs V i = V i"
  by (induction rs arbitrary: D V) (auto simp: add_docs_def add_vecs_def)

lemma add_own:
  "i \<in> vr_id ` set rs \<Longrightarrow> \<exists>r \<in> set rs. vr_id r = i \<and> add_docs analyze rs D i = Some (stored_of analyze r) \<and> add_vecs rs V i = Some (vr_embedding r)"
proof (induction rs rule: rev_induct)
  case (snoc r rs)
  then show ?case by (cases "vr_id r = i") (auto simp: add_docs_def add_vecs_def)
qed simp

lemma inv_upserted:
  assumes inv: "repl_inv S analyze analyzeF dim fs db rp D V cs Df Vf csf" and codec: "codec_ok S dim"
    and run: "run_transaction S analyze now True [WUpsert rs] (db, p) = Some ((db', p'), None)" "distinct (map vr_id rs)"
    and rs: "\<forall>r \<in> set rs. length (vr_embedding r) = dim \<and> SEP \<notin> set (vr_id r) \<and> readable S (stored_of analyze r) \<and>
      readable S (follower_doc analyzeF (repl_of (vr_id r) (vr_embedding r) (stored_of analyze r)))"
    and room: "unat (get_u64 db META_FEED_SEQ) + length rs < 2 ^ 64"
  shows "repl_inv S analyze analyzeF dim fs db' rp (add_docs analyze rs D) (add_vecs rs V) (log_upserts now rs cs) Df Vf csf"
proof -
  note v = inv [unfolded repl_inv_def]
  have lead: "leads S analyze fs db D V cs" and mir: "mirrorable S analyzeF dim D V" using v by blast+
  have len: "length cs + length rs < 2 ^ 64" using lead room by (simp add: leads_def unat_of_nat64)
  have lead': "leads S analyze fs db' (add_docs analyze rs D) (add_vecs rs V) (log_upserts now rs cs)"
    by (rule upsert_leads [OF lead run(1,2) _ _ len]) (use rs codec in \<open>auto simp: readable_def codec_ok_def\<close>)
  have mir': "mirrorable S analyzeF dim (add_docs analyze rs D) (add_vecs rs V)"
    unfolding mirrorable_def
  proof (intro allI impI)
    fix i r assume r: "record_of (add_docs analyze rs D) (add_vecs rs V) i = Some r"
    show "readable S (follower_doc analyzeF r) \<and> length (rr_embedding r) = dim \<and> \<not> key_too_long i \<and> SEP \<notin> set i"
    proof (cases "i \<in> vr_id ` set rs")
      case True
      from add_own [OF this, of analyze D V] obtain x where x: "x \<in> set rs" "vr_id x = i" "r = repl_of i (vr_embedding x) (stored_of analyze x)"
        using r by (auto simp: record_of_some)
      moreover have "i \<in> dom (add_docs analyze rs D)" using r by (auto simp: record_of_some)
      then have "\<not> key_too_long i" using lead' by (simp add: leads_def)
      ultimately show ?thesis using rs by (auto simp: repl_of_def)
    next
      case False
      then have "record_of D V i = Some r" using r add_other [OF False, of analyze D V] by (simp add: record_of_def)
      then show ?thesis using mir unfolding mirrorable_def by blast
    qed
  qed
  obtain new where new: "log_upserts now rs cs = cs @ new" "ch_doc_id ` set new = vr_id ` set rs" using log_upserts_new by blast
  have "agree (content (add_docs analyze rs D) (add_vecs rs V)) (cs @ new) (unat (rp_cursor rp)) (content Df Vf)"
  proof (rule agree_write)
    show "agree (content D V) cs (unat (rp_cursor rp)) (content Df Vf)" "unat (rp_cursor rp) \<le> length cs" using v by blast+
    show "content (add_docs analyze rs D) (add_vecs rs V) i = content D V i" if "i \<notin> ch_doc_id ` set new" for i
      using add_other [of i rs analyze D V] that new(2) by (simp add: content_def)
  qed
  then show ?thesis using v lead' mir' new(1) by (simp add: repl_inv_def)
qed

lemma inv_one:
  assumes inv: "repl_inv S analyze analyzeF dim fs db rp D V cs Df Vf csf"
    and lead: "leads S analyze fs db' D' V' (log_change now c i cs)" and mir: "mirrorable S analyzeF dim D' V'"
    and other: "\<And>j. j \<noteq> i \<Longrightarrow> D' j = D j \<and> V' j = V j"
  shows "repl_inv S analyze analyzeF dim fs db' rp D' V' (log_change now c i cs) Df Vf csf"
proof -
  note v = inv [unfolded repl_inv_def]
  have "agree (content D' V') (log_change now c i cs) (unat (rp_cursor rp)) (content Df Vf)"
    unfolding log_change_def
  proof (rule agree_write)
    show "agree (content D V) cs (unat (rp_cursor rp)) (content Df Vf)" "unat (rp_cursor rp) \<le> length cs" using v by blast+
    show "content D' V' j = content D V j"
      if "j \<notin> ch_doc_id ` set [\<lparr>ch_seq = of_nat (length cs), ch_op = c, ch_doc_id = i, ch_at = now\<rparr>]" for j
      using other [of j] that by (simp add: content_def)
  qed
  then show ?thesis using v lead mir by (simp add: repl_inv_def)
qed

lemma repl_reach_inv:
  assumes "repl_reach S analyze analyzeF dim fs st rp" and codec: "codec_ok S dim"
  shows "\<exists>D V cs Df Vf csf. repl_inv S analyze analyzeF dim fs (fst st) rp D V cs Df Vf csf"
  using assms(1)
proof (induction rule: repl_reach.induct)
  case (start db fdb p fp)
  have "mirrorable S analyzeF dim Map.empty Map.empty" by (simp add: mirrorable_def record_of_def)
  moreover have "agree (content Map.empty Map.empty) [] 0 (content Map.empty Map.empty)" by (simp add: agree_def)
  ultimately have "repl_inv S analyze analyzeF dim fs db (replica_new (fdb, fp)) Map.empty Map.empty [] Map.empty Map.empty []"
    using start by (simp add: repl_inv_def replica_new_def)
  then show ?case unfolding fst_conv by blast
next
  case (upserted db p rp now rs db' p')
  then obtain D V cs Df Vf csf where "repl_inv S analyze analyzeF dim fs db rp D V cs Df Vf csf" by auto
  from inv_upserted [OF this codec upserted.hyps(2-5)] show ?case unfolding fst_conv by blast
next
  case (removed db p rp now i db' p')
  then obtain D V cs Df Vf csf where inv: "repl_inv S analyze analyzeF dim fs db rp D V cs Df Vf csf" by auto
  then have lead: "leads S analyze fs db D V cs" and mir: "mirrorable S analyzeF dim D V" by (simp_all add: repl_inv_def)
  have "length cs + 1 < 2 ^ 64" using removed.hyps(3) lead by (simp add: leads_def unat_of_nat64)
  from remove_leads [OF lead removed.hyps(2) _ this] codec
  have lead': "leads S analyze fs db' (D(i := None)) (V(i := None)) (if D i = None then cs else log_change now ChRemove i cs)"
    by (simp add: codec_ok_def)
  show ?case
  proof (cases "D i")
    case None
    then have "db' = db" using run_remove_none [where D = D and fs = fs, OF _ None removed.hyps(2)] lead by (simp add: leads_def)
    then show ?thesis using inv unfolding fst_conv by blast
  next
    case (Some d)
    have "mirrorable S analyzeF dim (D(i := None)) (V(i := None))"
      using mir by (auto simp: mirrorable_def record_of_some)
    from inv_one [OF inv _ this] lead' Some show ?thesis by fastforce
  qed
next
  case (failed db p rp now ws db' p' e)
  then obtain D V cs Df Vf csf where inv: "repl_inv S analyze analyzeF dim fs db rp D V cs Df Vf csf" by auto
  then have "leads S analyze fs db' D V cs"
    using leads_same run_failed_same [OF failed.hyps(2)] by (auto simp: repl_inv_def)
  with inv have "repl_inv S analyze analyzeF dim fs db' rp D V cs Df Vf csf" by (simp add: repl_inv_def)
  then show ?case unfolding fst_conv by blast
next
  case (mutated db p rp now i f db')
  then obtain D V cs Df Vf csf where inv: "repl_inv S analyze analyzeF dim fs db rp D V cs Df Vf csf" by auto
  then have lead: "leads S analyze fs db D V cs" and mir: "mirrorable S analyzeF dim D V" by (simp_all add: repl_inv_def)
  note reads = leads_reads [OF lead]
  have docs: "docs_of S (get_cf db) D" using lead by (simp add: leads_def estate_of_def view_of_def)
  have len: "length cs + 1 < 2 ^ 64" using mutated.hyps(4) lead by (simp add: leads_def unat_of_nat64)
  from mutated.hyps(2) obtain doc sh where doc: "D i = Some doc" and sh: "get_json (js_shapes_of S) db CfMeta META_SHAPES = Inr sh"
    by (auto simp: mutate_payload_def get_json_doc [OF docs] bind_result_Inr_iff split: option.splits)
  let ?d = "with_metadata (f (sd_metadata doc)) doc"
  have "i \<in> dom V" using lead doc by (simp add: leads_def domI)
  then obtain v where v: "V i = Some v" by blast
  have read: "readable S ?d" "readable S (follower_doc analyzeF (repl_of i v ?d))"
    using mutated.hyps(3) doc v by (simp_all add: reads)
  have "reads_changes S" using codec by (simp add: codec_ok_def)
  from mutate_leads [where f = f and now = now, OF lead doc sh read(1) [unfolded readable_def] this len] mutated.hyps(2)
  have "leads S analyze fs db' (D(i \<mapsto> ?d)) V (log_change now ChUpsert i cs)" by auto
  moreover have "mirrorable S analyzeF dim (D(i \<mapsto> ?d)) V"
    unfolding mirrorable_def
  proof (intro allI impI)
    fix j r assume r: "record_of (D(i \<mapsto> ?d)) V j = Some r"
    show "readable S (follower_doc analyzeF r) \<and> length (rr_embedding r) = dim \<and> \<not> key_too_long j \<and> SEP \<notin> set j"
    proof (cases "j = i")
      case True
      then have "r = repl_of i v ?d" using r v by (simp add: record_of_some)
      moreover have "record_of D V i = Some (repl_of i v doc)" using doc v by (simp add: record_of_some)
      with mir have "length (rr_embedding (repl_of i v doc)) = dim \<and> \<not> key_too_long i \<and> SEP \<notin> set i"
        unfolding mirrorable_def by blast
      ultimately show ?thesis using read(2) True by (simp add: repl_of_def)
    next
      case False
      then have "record_of D V j = Some r" using r by (simp add: record_of_def)
      then show ?thesis using mir unfolding mirrorable_def by blast
    qed
  qed
  ultimately have "repl_inv S analyze analyzeF dim fs db' rp (D(i \<mapsto> ?d)) V (log_change now ChUpsert i cs) Df Vf csf"
    by (rule inv_one [OF inv]) simp
  then show ?case unfolding fst_conv by blast
next
  case (polled db p rp now limit rp' res)
  then obtain D V cs Df Vf csf where inv: "repl_inv S analyze analyzeF dim fs db rp D V cs Df Vf csf" by auto
  obtain rp1 n Df' Vf' csf' where one: "sync_once S analyzeF now quotas_default limit db rp = Some (rp1, Inr n)"
    and inv': "repl_inv S analyze analyzeF dim fs db rp1 D V cs Df' Vf' csf'"
    using sync_once_runs [OF codec inv, of now limit] by blast
  have "rp1 = rp'" using one polled.hyps(2) by simp
  then show ?case using inv' unfolding fst_conv by blast
qed

section \<open>Convergence\<close>

lemma sync_loop_runs:
  assumes codec: "codec_ok S dim" and limit: "0 < limit" "limit \<le> 4096"
  shows "repl_inv S analyze analyzeF dim fs db rp D V cs Df Vf csf \<Longrightarrow> length cs - unat (rp_cursor rp) < fuel \<Longrightarrow>
    \<exists>rp' Df' Vf' csf'. sync_loop S analyzeF now quotas_default limit db fuel n rp =
      Some (rp', Inr (n + (length cs - unat (rp_cursor rp)))) \<and>
    unat (rp_cursor rp') = length cs \<and> repl_inv S analyze analyzeF dim fs db rp' D V cs Df' Vf' csf'"
proof (induction fuel arbitrary: rp n Df Vf csf)
  case (Suc fuel)
  let ?lag = "length cs - unat (rp_cursor rp)"
  have le: "unat (rp_cursor rp) \<le> length cs" using Suc.prems(1) by (simp add: repl_inv_def)
  obtain rp1 Df1 Vf1 csf1 where one: "sync_once S analyzeF now quotas_default limit db rp = Some (rp1, Inr (min limit ?lag))"
    "unat (rp_cursor rp1) = unat (rp_cursor rp) + min limit ?lag"
    and inv: "repl_inv S analyze analyzeF dim fs db rp1 D V cs Df1 Vf1 csf1"
    using sync_once_runs [OF codec Suc.prems(1), of now limit] limit by (auto simp: min_def)
  show ?case
  proof (cases "?lag < limit")
    case True
    then show ?thesis using one inv le by (intro exI [of _ rp1] exI [of _ Df1] exI [of _ Vf1] exI [of _ csf1]) simp
  next
    case False
    then have "length cs - unat (rp_cursor rp1) < fuel" using Suc.prems(2) one(2) limit by simp
    from Suc.IH [OF inv this, of "n + limit"] False one le show ?thesis by (auto simp: min_def)
  qed
qed simp

lemma head_of: "repl_inv S analyze analyzeF dim fs db rp D V cs Df Vf csf \<Longrightarrow> unat (get_u64 db META_FEED_SEQ) = length cs"
  by (simp add: repl_inv_def leads_def unat_of_nat64)

lemma caught_up:
  assumes "repl_inv S analyze analyzeF dim fs db rp D V cs Df Vf csf" "unat (rp_cursor rp) = length cs"
  shows "mirrored S (fst (rp_store rp)) i = mirrored S db i"
proof -
  note v = assms(1) [unfolded repl_inv_def]
  have "agree (content D V) cs (length cs) (content Df Vf)" using v assms(2) by auto
  then have "content Df Vf i = content D V i" by (simp add: agree_def)
  moreover have "mirrored S db i = content D V i" "mirrored S (fst (rp_store rp)) i = content Df Vf i"
    using v leads_reads(3) by blast+
  ultimately show ?thesis by simp
qed

text \<open>
  A sample: the serializer of \<open>sample_serde\<close> with the changes written out, and one record, written
  again and again.
\<close>

definition log_serde :: serde where
  "log_serde = sample_serde\<lparr>
     js_change := \<lambda>c. u64_be (ch_seq c) @ u64_be (ch_at c) @ (case ch_op c of ChUpsert \<Rightarrow> CHR ''u'' | ChRemove \<Rightarrow> CHR ''r'') # ch_doc_id c,
     js_change_of := \<lambda>b. if length b < 17 then None else
       Some \<lparr>ch_seq = of_u64_be (take 8 b), ch_op = (if b ! 16 = CHR ''u'' then ChUpsert else ChRemove),
             ch_doc_id = drop 17 b, ch_at = of_u64_be (take 8 (drop 8 b))\<rparr>\<rparr>"

lemma log_codec: "codec_ok log_serde 2"
proof -
  have len: "length (u64_be x) = 8" for x by simp
  have "js_change_of log_serde (js_change log_serde c) = Some c" for c
    by (cases c; cases "ch_op c") (simp_all add: log_serde_def nth_append)
  then show ?thesis by (simp add: codec_ok_def reads_changes_def) (simp add: log_serde_def sample_serde_def)
qed

lemma log_serde_sel [simp]:
  "js_doc log_serde = js_doc sample_serde" "js_doc_of log_serde = js_doc_of sample_serde" "js_info_of log_serde = js_info_of sample_serde"
  "js_shapes_of log_serde = js_shapes_of sample_serde" "js_names_of log_serde = js_names_of sample_serde" "js_value log_serde = js_value sample_serde"
  by (simp_all add: log_serde_def)

lemma plain_leads: "leads log_serde sample_words [] plain_db Map.empty Map.empty []"
  by (simp add: leads_def feed_view_def vecs_view_def log_docs_def plain_get get_u64_def estate_of_def view_of_def docs_of_def
      ids_clean_def family_of_def meta_key_defs indexed_fields_def get_json_def counter_of_def doc_freq_def)

lemma plain_accepts: "accepts log_serde 2 plain_db"
  by (simp add: accepts_def plain_get get_json_def meta_key_defs) (simp add: sample_serde_def)

lemma sample_plain: "plain_record 2 sample_record" "readable log_serde (stored_of sample_words sample_record)"
  "into_record (repl_of (vr_id sample_record) (vr_embedding sample_record) (stored_of sample_words sample_record)) = sample_record"
  using sample_js
  by (simp_all add: plain_record_def readable_def sample_record_def vector_record_new_def key_too_long_def max_key_len_def SEP_def
      into_record_def repl_of_def)

lemma sample_log:
  "n < 2 ^ 63 \<Longrightarrow> \<exists>db p D V cs. repl_reach log_serde sample_words sample_words 2 [] (db, p) (replica_new (plain_db, pending_new)) \<and>
     accepts log_serde 2 db \<and> leads log_serde sample_words [] db D V cs \<and> length cs = n"
proof (induction n)
  case 0
  have "repl_reach log_serde sample_words sample_words 2 [] (plain_db, pending_new) (replica_new (plain_db, pending_new))"
    by (rule repl_reach.start [OF plain_leads plain_leads plain_accepts])
  then show ?case using plain_leads plain_accepts by blast
next
  case (Suc n)
  then obtain db p D V cs where r: "repl_reach log_serde sample_words sample_words 2 [] (db, p) (replica_new (plain_db, pending_new))"
    and acc: "accepts log_serde 2 db" and lead: "leads log_serde sample_words [] db D V cs" and n: "length cs = n" by auto
  obtain db' p' where run: "run_transaction log_serde sample_words 0 True [WUpsert [sample_record]] (db, p) = Some ((db', p'), None)"
    and acc': "accepts log_serde 2 db'"
    and lead': "leads log_serde sample_words [] db' (D(vr_id sample_record \<mapsto> stored_of sample_words sample_record))
      (V(vr_id sample_record \<mapsto> vr_embedding sample_record)) (log_change 0 ChUpsert (vr_id sample_record) cs)"
    using upsert_runs [OF acc log_codec sample_plain(1) lead sample_plain(2), of 0 p] Suc.prems n by auto
  have "repl_reach log_serde sample_words sample_words 2 [] (db', p') (replica_new (plain_db, pending_new))"
    by (rule repl_reach.upserted [OF r run])
      (use sample_plain Suc.prems n lead in \<open>simp_all add: plain_record_def follower_doc_def leads_def unat_of_nat64\<close>)
  then show ?case using acc' lead' n by (intro exI conjI) (assumption | simp)+
qed

text \<open>C10: replication converges.  After any interleaving of writes and polls, a follower whose cursor is
  at the leader's head has the text, metadata, collection and vector of every id; and with a limit
  between 1 and 4096, syncing to the head ends, without an error, at the head.\<close>

theorem replication_converges:
  assumes "repl_reach S analyze analyzeF dim fs (db, p) rp" "codec_ok S dim"
  shows "(rp_cursor rp = get_u64 db META_FEED_SEQ \<longrightarrow> (\<forall>i. mirrored S (fst (rp_store rp)) i = mirrored S db i)) \<and>
    (\<forall>limit. 0 < limit \<and> limit \<le> 4096 \<longrightarrow>
      (\<exists>fuel rp' n. sync_to_head S analyzeF now quotas_default fuel limit db rp = Some (rp', Inr n) \<and>
        rp_cursor rp' = get_u64 db META_FEED_SEQ \<and> (\<forall>i. mirrored S (fst (rp_store rp')) i = mirrored S db i)))"
proof -
  obtain D V cs Df Vf csf where inv: "repl_inv S analyze analyzeF dim fs db rp D V cs Df Vf csf"
    using repl_reach_inv [OF assms] by auto
  have "\<exists>fuel rp' n. sync_to_head S analyzeF now quotas_default fuel limit db rp = Some (rp', Inr n) \<and>
      rp_cursor rp' = get_u64 db META_FEED_SEQ \<and> (\<forall>i. mirrored S (fst (rp_store rp')) i = mirrored S db i)"
    if limit: "0 < limit" "limit \<le> 4096" for limit
  proof -
    obtain rp' Df' Vf' csf' where s: "sync_to_head S analyzeF now quotas_default (Suc (length cs - unat (rp_cursor rp))) limit db rp =
        Some (rp', Inr (length cs - unat (rp_cursor rp)))" "unat (rp_cursor rp') = length cs"
      "repl_inv S analyze analyzeF dim fs db rp' D V cs Df' Vf' csf'"
      using sync_loop_runs [OF assms(2) limit inv lessI, of now 0] by (auto simp: sync_to_head_def)
    moreover have "rp_cursor rp' = get_u64 db META_FEED_SEQ" using s(2) head_of [OF inv] by (simp add: word_unat_eq_iff)
    ultimately show ?thesis using caught_up [OF s(3) s(2)] by blast
  qed
  moreover have "mirrored S (fst (rp_store rp)) i = mirrored S db i" if "rp_cursor rp = get_u64 db META_FEED_SEQ" for i
    by (rule caught_up [OF inv]) (use that head_of [OF inv] in simp)
  ultimately show ?thesis by blast
qed

theorem replication_converges_witness:
  "\<exists>db p fuel rp' n. repl_reach log_serde sample_words sample_words 2 [] (db, p) (replica_new (plain_db, pending_new)) \<and>
     get_u64 db META_FEED_SEQ = 5 \<and>
     sync_to_head log_serde sample_words 0 quotas_default fuel 2 db (replica_new (plain_db, pending_new)) = Some (rp', Inr n) \<and>
     (\<forall>i. mirrored log_serde (fst (rp_store rp')) i = mirrored log_serde db i)"
proof -
  obtain db p D V cs where r: "repl_reach log_serde sample_words sample_words 2 [] (db, p) (replica_new (plain_db, pending_new))"
    and lead: "leads log_serde sample_words [] db D V cs" "length cs = 5" using sample_log [of 5] by auto
  have "get_u64 db META_FEED_SEQ = 5" using lead by (simp add: leads_def)
  with r conjunct2 [OF replication_converges [OF r log_codec, of 0], rule_format, of 2] show ?thesis by fastforce
qed

text \<open>C22: a poll returns at most 4096 entries, whatever its limit, and syncing takes a short reply for
  the head: with a limit above 4096 a follower further behind than that returns as if it had caught
  up.  With a limit of 0 syncing never returns.\<close>

theorem sync_stops_early:
  assumes "repl_reach S analyze analyzeF dim fs (db, p) rp" "codec_ok S dim"
    "unat (rp_cursor rp) + 4096 < unat (get_u64 db META_FEED_SEQ)" "4096 < limit"
  shows "(\<exists>rp'. sync_to_head S analyzeF now quotas_default 1 limit db rp = Some (rp', Inr 4096) \<and>
      unat (rp_cursor rp') < unat (get_u64 db META_FEED_SEQ)) \<and>
    sync_to_head S analyzeF now quotas_default fuel 0 db rp = None"
proof
  obtain D V cs Df Vf csf where inv: "repl_inv S analyze analyzeF dim fs db rp D V cs Df Vf csf"
    using repl_reach_inv [OF assms(1,2)] by auto
  obtain rp1 Df1 Vf1 csf1 where one: "sync_once S analyzeF now quotas_default limit db rp = Some (rp1, Inr 4096)"
    "unat (rp_cursor rp1) = unat (rp_cursor rp) + 4096"
    using sync_once_runs [OF assms(2) inv, of now limit] assms(3,4) head_of [OF inv] by auto
  have "sync_to_head S analyzeF now quotas_default 1 limit db rp = Some (rp1, Inr 4096)"
    using one(1) assms(4) by (simp add: sync_to_head_def)
  then show "\<exists>rp'. sync_to_head S analyzeF now quotas_default 1 limit db rp = Some (rp', Inr 4096) \<and>
      unat (rp_cursor rp') < unat (get_u64 db META_FEED_SEQ)" using one(2) assms(3) by auto
  have "sync_loop S analyzeF now quotas_default 0 db fuel n rp' = None" if "repl_inv S analyze analyzeF dim fs db rp' D V cs Df' Vf' csf'" for n rp' Df' Vf' csf'
    using that
  proof (induction fuel arbitrary: n rp' Df' Vf' csf')
    case (Suc fuel)
    from sync_once_runs [OF assms(2) Suc.prems, of now 0] Suc.IH show ?case by auto
  qed simp
  then show "sync_to_head S analyzeF now quotas_default fuel 0 db rp = None" using inv by (auto simp: sync_to_head_def)
qed

theorem sync_stops_early_witness:
  "\<exists>db p rp'. repl_reach log_serde sample_words sample_words 2 [] (db, p) (replica_new (plain_db, pending_new)) \<and>
     get_u64 db META_FEED_SEQ = 5000 \<and>
     sync_to_head log_serde sample_words 0 quotas_default 1 10000 db (replica_new (plain_db, pending_new)) = Some (rp', Inr 4096) \<and>
     unat (rp_cursor rp') < 5000"
proof -
  obtain db p D V cs where r: "repl_reach log_serde sample_words sample_words 2 [] (db, p) (replica_new (plain_db, pending_new))"
    and lead: "leads log_serde sample_words [] db D V cs" "length cs = 5000" using sample_log [of 5000] by auto
  have h: "get_u64 db META_FEED_SEQ = 5000" using lead by (simp add: leads_def)
  have "unat (rp_cursor (replica_new (plain_db, pending_new))) + 4096 < unat (get_u64 db META_FEED_SEQ)"
    by (simp add: h replica_new_def)
  from sync_stops_early [OF r log_codec this, of 10000 0 0] r h show ?thesis by auto
qed

end
