(* ===== verification/Float32.thy ===== *)
theory Float32
  imports Float64 Complex_Main
begin

text \<open>
  Rust's \<open>f32\<close> on its bit pattern, a 32-bit word: comparisons, the total order of \<open>total_cmp\<close>,
  conversion from integers, and correctly rounded addition, subtraction, multiplication, division
  and square root.  A finite value is an integer times \<open>2 ^ -149\<close>, so everything computes on natural
  numbers.  The lemmas are what the scores of a search need: rounding is monotone and leaves floats
  alone, hence sums of non-negative floats are monotone and only grow.
\<close>

unbundle bit_operations_syntax

section \<open>Bit patterns and order\<close>

type_synonym f32 = "32 word"

definition f32_sign :: "f32 \<Rightarrow> bool" where
  "f32_sign x = bit x 31"

definition f32_mag :: "f32 \<Rightarrow> nat" where
  "f32_mag x = unat (take_bit 31 x)"

definition f32_inf_mag :: nat where
  "f32_inf_mag = 255 * 2 ^ 23"

definition f32_is_nan :: "f32 \<Rightarrow> bool" where
  "f32_is_nan x \<longleftrightarrow> f32_inf_mag < f32_mag x"

definition f32_is_finite :: "f32 \<Rightarrow> bool" where
  "f32_is_finite x \<longleftrightarrow> f32_mag x < f32_inf_mag"

text \<open>The magnitude in units of \<open>2 ^ -149\<close>.\<close>

definition f32_mag_scaled :: "nat \<Rightarrow> nat" where
  "f32_mag_scaled m =
     (let e = m div 2 ^ 23; f = m mod 2 ^ 23 in if e = 0 then f else (2 ^ 23 + f) * 2 ^ (e - 1))"

definition f32_scaled :: "f32 \<Rightarrow> int" where
  "f32_scaled x = (if f32_sign x then - int (f32_mag_scaled (f32_mag x)) else int (f32_mag_scaled (f32_mag x)))"

definition f32_rank :: "f32 \<Rightarrow> int" where
  "f32_rank x = (if f32_sign x then - int (f32_mag x) else int (f32_mag x))"

definition f32_lt :: "f32 \<Rightarrow> f32 \<Rightarrow> bool" where
  "f32_lt x y \<longleftrightarrow> \<not> f32_is_nan x \<and> \<not> f32_is_nan y \<and> f32_rank x < f32_rank y"

definition f32_le :: "f32 \<Rightarrow> f32 \<Rightarrow> bool" where
  "f32_le x y \<longleftrightarrow> \<not> f32_is_nan x \<and> \<not> f32_is_nan y \<and> f32_rank x \<le> f32_rank y"

definition f32_eq :: "f32 \<Rightarrow> f32 \<Rightarrow> bool" where
  "f32_eq x y \<longleftrightarrow> \<not> f32_is_nan x \<and> \<not> f32_is_nan y \<and> f32_rank x = f32_rank y"

text \<open>\<open>a.total_cmp(&b)\<close> compares these keys: negative patterns descend below the positive ones.\<close>

definition f32_key :: "f32 \<Rightarrow> int" where
  "f32_key x = (if f32_sign x then - int (f32_mag x) - 1 else int (f32_mag x))"

definition f32_infinity :: f32 where "f32_infinity = 0x7F800000"
definition f32_neg_infinity :: f32 where "f32_neg_infinity = 0xFF800000"
definition f32_nan :: f32 where "f32_nan = 0x7FC00000"

text \<open>\<open>lo.min(s)\<close> and \<open>hi.max(s)\<close>: a NaN operand is dropped.\<close>

definition f32_min :: "f32 \<Rightarrow> f32 \<Rightarrow> f32" where
  "f32_min x y = (if f32_is_nan x then y else if f32_is_nan y then x else if f32_lt y x then y else x)"

definition f32_max :: "f32 \<Rightarrow> f32 \<Rightarrow> f32" where
  "f32_max x y = (if f32_is_nan x then y else if f32_is_nan y then x else if f32_lt x y then y else x)"

section \<open>Rounding\<close>

text \<open>The magnitude pattern nearest to \<open>n / d\<close>, ties to even: \<open>e\<close> is the exponent, \<open>k\<close> that of the last place.\<close>

definition f32_mantissa :: "nat \<Rightarrow> nat \<Rightarrow> int \<Rightarrow> nat" where
  "f32_mantissa n d k =
     (if k < 0 then div_half_even (n * 2 ^ nat (- k)) d else div_half_even n (d * 2 ^ nat k))"

definition f32_round_at :: "nat \<Rightarrow> nat \<Rightarrow> int \<Rightarrow> nat" where
  "f32_round_at n d e = min f32_inf_mag (nat (e + 126) * 2 ^ 23 + f32_mantissa n d (e - 23))"

definition f32_round_mag :: "nat \<Rightarrow> nat \<Rightarrow> nat" where
  "f32_round_mag n d = (if n = 0 then 0 else f32_round_at n d (max (- 126) (ratio_log2 n d)))"

definition f32_of_mag :: "bool \<Rightarrow> nat \<Rightarrow> f32" where
  "f32_of_mag neg m = (if neg then 0x80000000 else 0) OR of_nat m"

definition f32_of_ratio :: "bool \<Rightarrow> nat \<Rightarrow> nat \<Rightarrow> f32" where
  "f32_of_ratio neg n d = f32_of_mag neg (f32_round_mag n d)"

text \<open>\<open>n as f32\<close> for an unsigned integer.\<close>

definition f32_of_nat :: "nat \<Rightarrow> f32" where
  "f32_of_nat n = f32_of_ratio False n 1"

section \<open>Arithmetic\<close>

definition f32_signed_inf :: "bool \<Rightarrow> f32" where
  "f32_signed_inf neg = (if neg then f32_neg_infinity else f32_infinity)"

definition f32_neg :: "f32 \<Rightarrow> f32" where
  "f32_neg x = x XOR 0x80000000"

definition f32_abs :: "f32 \<Rightarrow> f32" where
  "f32_abs x = take_bit 31 x"

definition f32_add :: "f32 \<Rightarrow> f32 \<Rightarrow> f32" where
  "f32_add x y =
     (if f32_is_nan x \<or> f32_is_nan y then f32_nan
      else if \<not> f32_is_finite x then (if \<not> f32_is_finite y \<and> f32_sign x \<noteq> f32_sign y then f32_nan else x)
      else if \<not> f32_is_finite y then y
      else let s = f32_scaled x + f32_scaled y in
           if s = 0 then (if f32_sign x \<and> f32_sign y then 0x80000000 else 0)
           else f32_of_ratio (s < 0) (nat \<bar>s\<bar>) (2 ^ 149))"

definition f32_sub :: "f32 \<Rightarrow> f32 \<Rightarrow> f32" where
  "f32_sub x y = f32_add x (f32_neg y)"

definition f32_mul :: "f32 \<Rightarrow> f32 \<Rightarrow> f32" where
  "f32_mul x y =
     (let neg = (f32_sign x \<noteq> f32_sign y); m = f32_mag_scaled (f32_mag x); n = f32_mag_scaled (f32_mag y) in
      if f32_is_nan x \<or> f32_is_nan y then f32_nan
      else if \<not> f32_is_finite x \<or> \<not> f32_is_finite y
           then (if f32_mag x = 0 \<or> f32_mag y = 0 then f32_nan else f32_signed_inf neg)
      else f32_of_ratio neg (m * n) (2 ^ 298))"

definition f32_div :: "f32 \<Rightarrow> f32 \<Rightarrow> f32" where
  "f32_div x y =
     (let neg = (f32_sign x \<noteq> f32_sign y); m = f32_mag_scaled (f32_mag x); n = f32_mag_scaled (f32_mag y) in
      if f32_is_nan x \<or> f32_is_nan y then f32_nan
      else if \<not> f32_is_finite x then (if \<not> f32_is_finite y then f32_nan else f32_signed_inf neg)
      else if \<not> f32_is_finite y then f32_of_ratio neg 0 1
      else if n = 0 then (if m = 0 then f32_nan else f32_signed_inf neg)
      else f32_of_ratio neg m n)"

text \<open>
  The square root.  \<open>isqrt\<close> of the scaled value carries 74 bits or more, so one sticky bit decides
  every tie.
\<close>

function isqrt :: "nat \<Rightarrow> nat" where
  "isqrt n = (if n = 0 then 0 else let r = 2 * isqrt (n div 4) in if (r + 1) * (r + 1) \<le> n then r + 1 else r)"
  by pat_completeness auto
termination by (relation "measure id") auto

declare isqrt.simps [simp del]

definition f32_sqrt :: "f32 \<Rightarrow> f32" where
  "f32_sqrt x =
     (if f32_is_nan x then f32_nan
      else if f32_mag x = 0 then x
      else if f32_sign x then f32_nan
      else if \<not> f32_is_finite x then x
      else let n = f32_mag_scaled (f32_mag x) * 2 ^ 149; q = isqrt n in
           f32_of_ratio False (2 * q + (if q * q = n then 0 else 1)) (2 ^ 150))"

text \<open>\<open>iter().sum()\<close> of floats: from \<open>-0.0\<close>, the neutral element of the addition.\<close>

definition f32_sum :: "f32 list \<Rightarrow> f32" where
  "f32_sum xs = foldl f32_add 0x80000000 xs"

section \<open>Evaluation\<close>

fun num_len :: "num \<Rightarrow> num" where
  "num_len num.One = num.One"
| "num_len (num.Bit0 n) = Num.inc (num_len n)"
| "num_len (num.Bit1 n) = Num.inc (num_len n)"

lemma bit_length_numeral [simp]:
  "bit_length 0 = 0" "bit_length (Suc 0) = 1" "bit_length (numeral n) = numeral (num_len n)"
proof -
  have e: "numeral (num.Bit0 n) div 2 = (numeral n :: nat)" "numeral (num.Bit1 n) div 2 = (numeral n :: nat)" for n
    by simp_all
  show "bit_length (numeral n) = numeral (num_len n)"
    by (induction n)
      (simp_all only: bit_length.simps [of "numeral (_ _)"] e num_len.simps numeral_inc, simp_all add: bit_length.simps)
qed (simp_all add: bit_length.simps [of 0] bit_length.simps [of "Suc 0"])

definition half_even_pick :: "nat \<Rightarrow> nat \<Rightarrow> nat \<Rightarrow> nat" where
  "half_even_pick q r d = (if 2 * r < d then q else if d < 2 * r then Suc q else if even q then q else Suc q)"

lemma div_half_even_pick: "div_half_even n d = half_even_pick (n div d) (n mod d) d"
  by (simp add: div_half_even_def half_even_pick_def)

definition log2_pick :: "int \<Rightarrow> nat \<Rightarrow> nat \<Rightarrow> int" where
  "log2_pick l n d =
     (if (if l < 0 then d else d * 2 ^ nat l) \<le> (if l < 0 then n * 2 ^ nat (- l) else n) then l else l - 1)"

lemma ratio_log2_pick: "ratio_log2 n d = log2_pick (int (bit_length n) - int (bit_length d)) n d"
  by (simp add: ratio_log2_def log2_pick_def)

text \<open>The equations that evaluate an operation on literals, by \<open>simp add: f32_add_def f32_eval\<close> and the like.\<close>

lemmas f32_eval =
  f32_is_nan_def f32_is_finite_def f32_mag_def f32_inf_mag_def f32_scaled_def f32_mag_scaled_def f32_sign_def
  f32_of_ratio_def f32_of_mag_def f32_round_mag_def f32_round_at_def f32_mantissa_def ratio_log2_pick
  log2_pick_def div_half_even_pick half_even_pick_def f32_key_def f32_rank_def f32_lt_def f32_eq_def f32_le_def
  f32_infinity_def f32_neg_infinity_def f32_nan_def

section \<open>Rounding is monotone\<close>

lemma div_half_even_bounds:
  assumes "0 < d"
  shows "2 * n \<le> (2 * div_half_even n d + 1) * d" "2 * div_half_even n d * d \<le> 2 * n + d"
    "2 * n = (2 * div_half_even n d + 1) * d \<Longrightarrow> even (div_half_even n d)"
    "2 * div_half_even n d * d = 2 * n + d \<Longrightarrow> even (div_half_even n d)"
proof -
  define q r where "q = n div d" and "r = n mod d"
  then have n: "n = d * q + r" "r < d" using assms by simp_all
  have "div_half_even n d = half_even_pick q r d" by (simp add: div_half_even_pick q_def r_def)
  then have "div_half_even n d = q \<and> 2 * r \<le> d \<and> (2 * r = d \<longrightarrow> even q) \<or>
    div_half_even n d = Suc q \<and> d \<le> 2 * r \<and> (2 * r = d \<longrightarrow> odd q)"
    using n(2) by (auto simp: half_even_pick_def)
  then show "2 * n \<le> (2 * div_half_even n d + 1) * d" "2 * div_half_even n d * d \<le> 2 * n + d"
    "2 * n = (2 * div_half_even n d + 1) * d \<Longrightarrow> even (div_half_even n d)"
    "2 * div_half_even n d * d = 2 * n + d \<Longrightarrow> even (div_half_even n d)"
    using n by (auto simp: algebra_simps)
qed

lemma div_half_even_mono:
  assumes "0 < d" "0 < d'" "n * d' \<le> n' * d"
  shows "div_half_even n d \<le> div_half_even n' d'"
proof (rule ccontr)
  let ?q = "div_half_even n d" and ?q' = "div_half_even n' d'"
  assume "\<not> ?q \<le> ?q'"
  then have lt: "?q' + 1 \<le> ?q" by simp
  have a: "2 * ?q * d \<le> 2 * n + d" "2 * n' \<le> (2 * ?q' + 1) * d'" using div_half_even_bounds assms by blast+
  from a(1) have a1: "2 * ?q * d * d' \<le> (2 * n + d) * d'" by (rule mult_right_mono) simp
  from a(2) have a2: "2 * n' * d \<le> (2 * ?q' + 1) * d' * d" by (rule mult_right_mono) simp
  have "(2 * ?q' + 2) * (d * d') \<le> 2 * ?q * (d * d')" using lt by (intro mult_right_mono) simp_all
  then have b: "(2 * ?q' + 1) * d' * d + d * d' \<le> 2 * ?q * d * d'" by (simp add: algebra_simps)
  have c: "(2 * n + d) * d' = 2 * (n * d') + d * d'" by (simp add: algebra_simps)
  have d: "2 * n' * d = 2 * (n' * d)" by simp
  from a1 a2 b c d assms(3) have eq: "n * d' = n' * d" "(2 * ?q' + 1) * d' * d = 2 * n' * d" "2 * ?q * d * d' = (2 * n + d) * d'"
    "2 * ?q * (d * d') = (2 * ?q' + 2) * (d * d')"
    by (simp_all add: algebra_simps)
  from eq(3) assms have "2 * ?q * d = 2 * n + d" by simp
  moreover from eq(2) assms have "2 * n' = (2 * ?q' + 1) * d'" by simp
  ultimately have "even ?q" "even ?q'" using div_half_even_bounds assms by blast+
  moreover have "0 < d * d'" using assms by simp
  with eq(4) have "2 * ?q = 2 * ?q' + 2" by (metis mult_right_cancel less_numeral_extra(3))
  then have "?q = ?q' + 1" by simp
  ultimately show False by simp
qed

lemma div_half_even_mult [simp]: "0 < d \<Longrightarrow> div_half_even (a * d) d = a"
  by (simp add: div_half_even_def)

lemma div_half_even_ge: "0 < d \<Longrightarrow> a * d \<le> n \<Longrightarrow> a \<le> div_half_even n d"
  using div_half_even_mono [of 1 d a n] div_half_even_mult [of 1 a] by simp

lemma div_half_even_le: "0 < d \<Longrightarrow> n \<le> a * d \<Longrightarrow> div_half_even n d \<le> a"
  using div_half_even_mono [of d 1 n a] div_half_even_mult [of 1 a] by simp

text \<open>The exponent of a ratio, over the reals.\<close>

lemma two_powi_less: "2 powi a < (2 :: real) powi b \<Longrightarrow> a < b"
  using power_int_increasing [of b a "2 :: real"] by force

lemma ratio_log2_bounds:
  assumes "0 < n" "0 < d"
  shows "2 powi ratio_log2 n d * real d \<le> real n" "real n < 2 powi (ratio_log2 n d + 1) * real d"
proof -
  define bn bd where "bn = bit_length n - 1" and "bd = bit_length d - 1"
  have bl: "bit_length n = Suc bn" "bit_length d = Suc bd" using bit_length_bounds assms by (simp_all add: bn_def bd_def)
  have nat: "2 ^ bn \<le> n" "n < 2 * 2 ^ bn" "2 ^ bd \<le> d" "d < 2 * 2 ^ bd"
    using bit_length_bounds [OF assms(1)] bit_length_bounds [OF assms(2)] by (simp_all add: bl)
  have n: "2 ^ bn \<le> real n" "real n < 2 * 2 ^ bn" and d: "2 ^ bd \<le> real d" "real d < 2 * 2 ^ bd"
    using nat [folded of_nat_le_iff [where 'a = real] of_nat_less_iff [where 'a = real]] by simp_all
  define l where "l = int bn - int bd"
  have lp: "2 powi l = (2::real) ^ bn / 2 ^ bd" by (simp add: l_def power_int_diff)
  have "(if (if l < 0 then d else d * 2 ^ nat l) \<le> (if l < 0 then n * 2 ^ nat (- l) else n) then l else l - 1) = ratio_log2 n d"
    unfolding ratio_log2_pick log2_pick_def bl l_def by simp
  moreover have "(if l < 0 then d else d * 2 ^ nat l) \<le> (if l < 0 then n * 2 ^ nat (- l) else n) \<longleftrightarrow>
      2 powi l * real d \<le> real n"
  proof (cases "l < 0")
    case True
    then obtain k where k: "l = - int k" by (metis nonpos_int_cases less_imp_le)
    have "2 powi l * real d \<le> real n \<longleftrightarrow> real d \<le> real (n * 2 ^ k)"
      by (simp add: k power_int_minus field_simps)
    also have "\<dots> \<longleftrightarrow> d \<le> n * 2 ^ k" by (rule of_nat_le_iff)
    finally show ?thesis using True k by simp
  next
    case False
    then obtain k where k: "l = int k" by (metis nonneg_int_cases not_less)
    have "2 powi l * real d \<le> real n \<longleftrightarrow> real (d * 2 ^ k) \<le> real n" by (simp add: k mult.commute)
    also have "\<dots> \<longleftrightarrow> d * 2 ^ k \<le> n" by (rule of_nat_le_iff)
    finally show ?thesis using k by simp
  qed
  ultimately have r: "ratio_log2 n d = (if 2 powi l * real d \<le> real n then l else l - 1)" by simp
  have "2 ^ bn * real d < 2 ^ bn * (2 * 2 ^ bd)" using d by simp
  also have "\<dots> \<le> 2 * 2 ^ bd * real n" using n by simp
  finally have lo: "2 powi l * real d < 2 * real n" unfolding lp by (simp add: field_simps)
  have "2 ^ bd * real n < 2 ^ bd * (2 * 2 ^ bn)" using n by simp
  also have "\<dots> \<le> 2 * 2 ^ bn * real d" using d by simp
  finally have hi: "real n < 2 * 2 powi l * real d" unfolding lp by (simp add: field_simps)
  have p: "2 powi (l + 1) = (2::real) * 2 powi l" "2 powi l = (2::real) * 2 powi (l - 1)"
    by (simp_all add: power_int_add power_int_diff)
  show "2 powi ratio_log2 n d * real d \<le> real n" using lo p(2) by (auto simp: r)
  show "real n < 2 powi (ratio_log2 n d + 1) * real d" using hi p(1) by (auto simp: r)
qed

lemma ratio_log2_unique:
  assumes "0 < n" "0 < d" "2 powi l * real d \<le> real n" "real n < 2 powi (l + 1) * real d"
  shows "ratio_log2 n d = l"
proof -
  have "2 powi a * real d < 2 powi b * real d \<Longrightarrow> a < b" for a b
    using assms(2) two_powi_less [of a b] by simp
  from this [of "ratio_log2 n d" "l + 1"] this [of l "ratio_log2 n d + 1"] ratio_log2_bounds [OF assms(1,2)] assms(3,4)
  show ?thesis by force
qed

lemma ratio_log2_mono:
  assumes "0 < n" "0 < d" "0 < n'" "0 < d'" "n * d' \<le> n' * d"
  shows "ratio_log2 n d \<le> ratio_log2 n' d'"
proof -
  have "real n * real d' \<le> real n' * real d" using assms(5) by (simp flip: of_nat_mult)
  then have le: "real n / real d \<le> real n' / real d'" using assms by (simp add: field_simps)
  have "2 powi ratio_log2 n d \<le> real n / real d" using ratio_log2_bounds(1) [OF assms(1,2)] assms by (simp add: field_simps)
  also note le
  also have "real n' / real d' < 2 powi (ratio_log2 n' d' + 1)" using ratio_log2_bounds(2) [OF assms(3,4)] assms by (simp add: field_simps)
  finally have "ratio_log2 n d < ratio_log2 n' d' + 1" by (rule two_powi_less)
  then show ?thesis by simp
qed

lemma f32_mantissa_mono:
  assumes "0 < d" "0 < d'" "n * d' \<le> n' * d"
  shows "f32_mantissa n d k \<le> f32_mantissa n' d' k"
proof (cases "k < 0")
  case True
  have "n * d' * 2 ^ nat (- k) \<le> n' * d * 2 ^ nat (- k)" using assms(3) by (rule mult_right_mono) simp
  then have "n * 2 ^ nat (- k) * d' \<le> n' * 2 ^ nat (- k) * d" by (simp add: algebra_simps)
  then show ?thesis using True assms by (simp add: f32_mantissa_def div_half_even_mono)
next
  case False
  have "n * d' * 2 ^ nat k \<le> n' * d * 2 ^ nat k" using assms(3) by (rule mult_right_mono) simp
  then have "n * (d' * 2 ^ nat k) \<le> n' * (d * 2 ^ nat k)" by (simp add: algebra_simps)
  then show ?thesis using False assms by (simp add: f32_mantissa_def div_half_even_mono)
qed

lemma f32_mantissa_bounds:
  assumes "0 < d"
  shows "2 powi (k + 23) * real d \<le> real n \<Longrightarrow> 2 ^ 23 \<le> f32_mantissa n d k"
    "real n \<le> 2 powi (k + 24) * real d \<Longrightarrow> f32_mantissa n d k \<le> 2 ^ 24"
proof -
  have p: "2 powi (k + 23) = (2::real) powi k * 2 ^ 23" "2 powi (k + 24) = (2::real) powi k * 2 ^ 24"
    by (simp_all add: power_int_add)
  have "(2 ^ j * real d * 2 powi k \<le> real n \<longrightarrow> 2 ^ j \<le> f32_mantissa n d k) \<and>
        (real n \<le> 2 ^ j * real d * 2 powi k \<longrightarrow> f32_mantissa n d k \<le> 2 ^ j)" for j
  proof (cases "k < 0")
    case True
    then obtain i where k: "k = - int i" by (metis nonpos_int_cases less_imp_le)
    have "2 ^ j * real d * 2 powi k \<le> real n \<longleftrightarrow> real (2 ^ j * d) \<le> real (n * 2 ^ i)"
      "real n \<le> 2 ^ j * real d * 2 powi k \<longleftrightarrow> real (n * 2 ^ i) \<le> real (2 ^ j * d)"
      by (simp_all add: k power_int_minus field_simps)
    then show ?thesis using True k div_half_even_ge [OF assms, of "2 ^ j" "n * 2 ^ i"] div_half_even_le [OF assms, of "n * 2 ^ i" "2 ^ j"]
      by (simp only: f32_mantissa_def of_nat_le_iff) simp
  next
    case False
    then obtain i where k: "k = int i" by (metis nonneg_int_cases not_less)
    have "2 ^ j * real d * 2 powi k \<le> real n \<longleftrightarrow> real (2 ^ j * (d * 2 ^ i)) \<le> real n"
      "real n \<le> 2 ^ j * real d * 2 powi k \<longleftrightarrow> real n \<le> real (2 ^ j * (d * 2 ^ i))"
      by (simp_all add: k field_simps)
    moreover have "0 < d * 2 ^ i" using assms by simp
    ultimately show ?thesis using False k div_half_even_ge [of "d * 2 ^ i" "2 ^ j" n] div_half_even_le [of "d * 2 ^ i" n "2 ^ j"]
      by (simp only: f32_mantissa_def of_nat_le_iff) simp
  qed
  from this [of 23] this [of 24]
  show "2 powi (k + 23) * real d \<le> real n \<Longrightarrow> 2 ^ 23 \<le> f32_mantissa n d k"
    "real n \<le> 2 powi (k + 24) * real d \<Longrightarrow> f32_mantissa n d k \<le> 2 ^ 24"
    unfolding p by (simp_all only: mult.commute mult.left_commute simp_thms)
qed

lemma f32_round_mono:
  assumes "0 < d" "0 < d'" "n * d' \<le> n' * d"
  shows "f32_round_mag n d \<le> f32_round_mag n' d'"
proof (cases "n = 0")
  case False
  then have n': "0 < n'" and n: "0 < n" using assms by (cases "n' = 0"; simp)+
  define e e' where "e = max (- 126) (ratio_log2 n d)" and "e' = max (- 126) (ratio_log2 n' d')"
  have le: "e \<le> e'" unfolding e_def e'_def using ratio_log2_mono [OF n assms(1) n' assms(2,3)] by simp
  have "nat (e + 126) * 2 ^ 23 + f32_mantissa n d (e - 23) \<le> nat (e' + 126) * 2 ^ 23 + f32_mantissa n' d' (e' - 23)"
  proof (cases "e = e'")
    case True
    then show ?thesis using f32_mantissa_mono [OF assms] by simp
  next
    case False
    have lt: "e < e'" "- 126 \<le> e" using le False by linarith (simp add: e_def)
    then have e': "e' = ratio_log2 n' d'" by (simp add: e'_def split: if_splits)
    have "2 ^ 23 \<le> f32_mantissa n' d' (e' - 23)"
      using f32_mantissa_bounds(1) [OF assms(2), of "e' - 23" n'] ratio_log2_bounds(1) [OF n' assms(2)] by (simp add: e')
    moreover have "real n \<le> 2 powi (e + 1) * real d"
    proof -
      have "real n \<le> 2 powi (ratio_log2 n d + 1) * real d" using ratio_log2_bounds(2) [OF n assms(1)] by simp
      also have "\<dots> \<le> 2 powi (e + 1) * real d"
        by (intro mult_right_mono power_int_increasing) (simp_all add: e_def)
      finally show ?thesis .
    qed
    then have "f32_mantissa n d (e - 23) \<le> 2 ^ 24" using f32_mantissa_bounds(2) [OF assms(1), of n "e - 23"] by (simp add: add.commute)
    moreover have "(nat (e + 126) + 1) * 2 ^ 23 \<le> nat (e' + 126) * (2 ^ 23 :: nat)"
      using lt by (intro mult_right_mono) simp_all
    ultimately show ?thesis by simp
  qed
  then show ?thesis using n n' by (simp add: f32_round_mag_def f32_round_at_def e_def e'_def min_le_iff_disj)
qed (simp add: f32_round_mag_def)

lemma f32_round_le_inf: "f32_round_mag n d \<le> f32_inf_mag"
  by (simp add: f32_round_mag_def f32_round_at_def)

section \<open>Floats round to themselves\<close>

lemma f32_round_exact:
  assumes "m < f32_inf_mag"
  shows "f32_round_mag (f32_mag_scaled m) (2 ^ 149) = m"
proof -
  define E f where "E = m div 2 ^ 23" and "f = m mod 2 ^ 23"
  have m: "m = E * 2 ^ 23 + f" and f: "f < 2 ^ 23" by (simp_all add: E_def f_def)
  show ?thesis
  proof (cases "E = 0")
    case True
    then have mf: "m < 2 ^ 23" by (simp add: E_def div_eq_0_iff)
    then have sc: "f32_mag_scaled m = m" by (simp add: f32_mag_scaled_def)
    show ?thesis
    proof (cases "m = 0")
      case False
      have "ratio_log2 m (2 ^ 149) < - 126"
      proof (rule two_powi_less)
        have "2 powi ratio_log2 m (2 ^ 149) * 2 ^ 149 \<le> real m"
          using ratio_log2_bounds(1) [of m "2 ^ 149"] False by simp
        also have "real m < 2 ^ 23" using mf by simp
        finally have "2 powi ratio_log2 m (2 ^ 149) < (2::real) ^ 23 / 2 ^ 149" by (simp add: field_simps)
        also have "(2::real) ^ 23 / 2 ^ 149 = 2 powi (- 126)" by (simp add: power_int_minus)
        finally show "2 powi ratio_log2 m (2 ^ 149) < (2::real) powi (- 126)" .
      qed
      then have "max (- 126) (ratio_log2 m (2 ^ 149)) = - 126" by simp
      moreover have "f32_mantissa m (2 ^ 149) (- 149) = m" by (simp add: f32_mantissa_def)
      ultimately show ?thesis using False assms unfolding sc by (simp add: f32_round_mag_def f32_round_at_def)
    qed (simp add: f32_round_mag_def f32_mag_scaled_def)
  next
    case False
    then obtain k where E: "E = Suc k" by (cases E) auto
    define a where "a = 2 ^ 23 + f"
    have sc: "f32_mag_scaled m = a * 2 ^ k" unfolding f32_mag_scaled_def E_def [symmetric] f_def [symmetric] a_def using E by simp
    have a: "2 ^ 23 \<le> a" "a < 2 ^ 24" using f by (simp_all add: a_def)
    have "ratio_log2 (a * 2 ^ k) (2 ^ 149) = int k - 126"
    proof (rule ratio_log2_unique)
      have p: "2 powi (int k - 126) = (2::real) ^ k / 2 ^ 126" "2 powi (int k - 126 + 1) = (2::real) ^ k / 2 ^ 125"
        by (simp_all add: power_int_diff power_int_add)
      have ar: "2 ^ 23 \<le> real a" "real a < 2 ^ 24"
        using a [folded of_nat_le_iff [where 'a = real] of_nat_less_iff [where 'a = real]] by simp_all
      have c: "(2::real) ^ k / 2 ^ 126 * real (2 ^ 149) = 2 ^ 23 * 2 ^ k" "(2::real) ^ k / 2 ^ 125 * real (2 ^ 149) = 2 ^ 24 * 2 ^ k"
        by simp_all
      show "2 powi (int k - 126) * real (2 ^ 149) \<le> real (a * 2 ^ k)"
        unfolding p c using mult_right_mono [OF ar(1), of "2 ^ k"] by simp
      show "real (a * 2 ^ k) < 2 powi (int k - 126 + 1) * real (2 ^ 149)"
        unfolding p c using mult_strict_right_mono [OF ar(2), of "2 ^ k"] by simp
    qed (use a in simp_all)
    moreover have "f32_mantissa (a * 2 ^ k) (2 ^ 149) (int k - 149) = a"
    proof (cases "int k - 149 < 0")
      case True
      then have "k + nat (- (int k - 149)) = 149" by simp
      then have "a * 2 ^ k * 2 ^ nat (- (int k - 149)) = a * 2 ^ 149" by (simp only: mult.assoc flip: power_add)
      then have "div_half_even (a * 2 ^ k * 2 ^ nat (- (int k - 149))) (2 ^ 149) = a" by (simp only: div_half_even_mult zero_less_power zero_less_numeral)
      then show ?thesis using True by (simp only: f32_mantissa_def if_True)
    next
      case False
      then have "149 + nat (int k - 149) = k" by simp
      then have "(2::nat) ^ 149 * 2 ^ nat (int k - 149) = 2 ^ k" by (simp only: flip: power_add)
      then have "div_half_even (a * 2 ^ k) (2 ^ 149 * 2 ^ nat (int k - 149)) = a" by (simp only: div_half_even_mult zero_less_power zero_less_numeral)
      then show ?thesis using False by (simp only: f32_mantissa_def if_False)
    qed
    moreover have "nat (int k - 126 + 126) * 2 ^ 23 + a = m" using m E by (simp add: a_def)
    ultimately show ?thesis using assms a unfolding sc by (simp add: f32_round_mag_def f32_round_at_def)
  qed
qed

section \<open>Sums of non-negative floats\<close>

lemma f32_of_mag_fields:
  assumes "m < 2 ^ 31"
  shows "f32_mag (f32_of_mag neg m) = m" "f32_sign (f32_of_mag neg m) = neg"
proof -
  have u: "unat (word_of_nat m :: f32) = m" using assms by (simp add: unat_of_nat take_bit_nat_eq_self)
  then have "bit (word_of_nat m :: f32) 31 = bit m 31"
    using bit_unsigned_iff [of "word_of_nat m :: f32" 31, where 'a = nat] by simp
  also have "\<dots> = False" using assms by (simp add: bit_iff_odd)
  finally show "f32_sign (f32_of_mag neg m) = neg" by (simp add: f32_sign_def f32_of_mag_def bit_simps)
  have "take_bit 31 (f32_of_mag neg m) = take_bit 31 (word_of_nat m)"
    by (simp add: f32_of_mag_def take_bit_or)
  moreover have "unat (take_bit 31 (word_of_nat m :: f32)) = m"
    using assms by (simp only: unsigned_take_bit_eq u) (simp add: take_bit_nat_eq_self)
  ultimately show "f32_mag (f32_of_mag neg m) = m" by (simp add: f32_mag_def)
qed

text \<open>The non-negative floats and infinity, ordered by magnitude.\<close>

definition f32_pos :: "f32 \<Rightarrow> bool" where
  "f32_pos x \<longleftrightarrow> \<not> f32_sign x \<and> \<not> f32_is_nan x"

lemma f32_pos_key: "f32_pos x \<Longrightarrow> f32_key x = int (f32_mag x)"
  by (simp add: f32_pos_def f32_key_def)

lemma f32_pos_lt: "f32_pos x \<Longrightarrow> f32_pos y \<Longrightarrow> f32_lt x y \<longleftrightarrow> f32_mag x < f32_mag y"
  by (simp add: f32_pos_def f32_lt_def f32_rank_def)

lemma f32_pos_0 [simp]: "f32_pos 0" "f32_mag 0 = 0"
  by (simp_all add: f32_pos_def f32_sign_def f32_mag_def f32_is_nan_def)

lemma f32_inf_mag_less: "f32_inf_mag < 2 ^ 31"
  by (simp add: f32_inf_mag_def)

lemma f32_scaled_mono: "m \<le> n \<Longrightarrow> f32_mag_scaled m \<le> f32_mag_scaled n"
proof (induction rule: dec_induct)
  case (step n)
  have "f32_mag_scaled n \<le> f32_mag_scaled (Suc n)"
  proof (cases "Suc (n mod 2 ^ 23) = 2 ^ 23")
    case True
    then have "Suc n div 2 ^ 23 = Suc (n div 2 ^ 23)" "Suc n mod 2 ^ 23 = 0"
      by (simp_all add: div_Suc mod_Suc)
    with True show ?thesis by (cases "n div 2 ^ 23") (simp_all add: f32_mag_scaled_def)
  next
    case False
    then have "Suc n div 2 ^ 23 = n div 2 ^ 23" "Suc n mod 2 ^ 23 = Suc (n mod 2 ^ 23)"
      by (simp_all add: div_Suc mod_Suc)
    then show ?thesis by (simp add: f32_mag_scaled_def Let_def)
  qed
  with step show ?case by simp
qed simp

definition add_mag :: "nat \<Rightarrow> nat \<Rightarrow> nat" where
  "add_mag m n =
     (if m = f32_inf_mag \<or> n = f32_inf_mag then f32_inf_mag
      else f32_round_mag (f32_mag_scaled m + f32_mag_scaled n) (2 ^ 149))"

lemma f32_pos_add:
  assumes "f32_pos x" "f32_pos y"
  shows "f32_pos (f32_add x y)" "f32_mag (f32_add x y) = add_mag (f32_mag x) (f32_mag y)"
proof -
  have r: "f32_pos (f32_of_ratio False n d)" "f32_mag (f32_of_ratio False n d) = f32_round_mag n d" for n d
    using f32_round_le_inf [of n d] f32_inf_mag_less f32_of_mag_fields [of "f32_round_mag n d" False]
    by (simp_all add: f32_of_ratio_def f32_pos_def f32_is_nan_def)
  have c: "\<not> f32_is_nan x" "\<not> f32_is_nan y" "\<not> f32_sign x" "\<not> f32_sign y" using assms by (simp_all add: f32_pos_def)
  have fin: "f32_is_finite z \<longleftrightarrow> f32_mag z \<noteq> f32_inf_mag" if "\<not> f32_is_nan z" for z
    using that by (auto simp: f32_is_finite_def f32_is_nan_def)
  show "f32_pos (f32_add x y)" "f32_mag (f32_add x y) = add_mag (f32_mag x) (f32_mag y)"
    using c assms r by (auto simp: f32_add_def fin f32_scaled_def add_mag_def Let_def f32_round_mag_def nat_add_distrib)
qed

lemma add_mag_mono: "m \<le> m' \<Longrightarrow> n \<le> n' \<Longrightarrow> m' \<le> f32_inf_mag \<Longrightarrow> n' \<le> f32_inf_mag \<Longrightarrow> add_mag m n \<le> add_mag m' n'"
  using f32_round_le_inf
  by (auto simp: add_mag_def intro!: f32_round_mono add_mono f32_scaled_mono)

lemma add_mag_0 [simp]: "m \<le> f32_inf_mag \<Longrightarrow> add_mag m 0 = m" "m \<le> f32_inf_mag \<Longrightarrow> add_mag 0 m = m"
  using f32_round_exact [of m] by (auto simp: add_mag_def f32_mag_scaled_def [of 0])

lemma add_mag_ge: "m \<le> f32_inf_mag \<Longrightarrow> n \<le> f32_inf_mag \<Longrightarrow> m \<le> add_mag m n"
  using add_mag_mono [of m m 0 n] by simp

lemma f32_pos_mag: "f32_pos x \<Longrightarrow> f32_mag x \<le> f32_inf_mag"
  by (simp add: f32_pos_def f32_is_nan_def)

lemma f32_eqI:
  assumes "f32_sign x = f32_sign y" "f32_mag x = f32_mag y"
  shows "x = y"
proof (rule bit_word_eqI)
  fix n assume n: "n < LENGTH(32)"
  have "take_bit 31 x = take_bit 31 y" using assms(2) unfolding f32_mag_def by (simp only: word_unat_eq_iff)
  then have "bit (take_bit 31 x) n = bit (take_bit 31 y) n" by simp
  then show "bit x n = bit y n"
    using n assms(1) by (cases "n = 31") (auto simp: bit_take_bit_iff f32_sign_def)
qed

text \<open>\<open>sum()\<close> of a non-empty list of non-negative floats starts with its first element.\<close>

lemma f32_add_zeros:
  assumes "f32_pos x"
  shows "f32_add 0 x = x" "f32_add 0x80000000 x = x"
proof -
  note p = f32_pos_add [OF f32_pos_0(1) assms]
  show z: "f32_add 0 x = x"
    using p assms f32_pos_mag [OF assms] by (intro f32_eqI) (simp_all add: f32_pos_def)
  have "f32_add 0x80000000 x = f32_add 0 x"
  proof -
    have n: "\<not> f32_is_nan 0x80000000" "f32_is_finite 0x80000000" "f32_scaled 0x80000000 = 0"
      "\<not> f32_is_nan 0" "f32_is_finite 0" "f32_scaled 0 = 0"
      by (simp_all add: f32_is_nan_def f32_is_finite_def f32_scaled_def f32_mag_def f32_mag_scaled_def f32_inf_mag_def)
    show ?thesis using assms by (simp add: f32_add_def n f32_pos_def)
  qed
  then show "f32_add 0x80000000 x = x" using z by simp
qed

lemma f32_sum_pos:
  assumes "xs \<noteq> []" "f32_pos (hd xs)"
  shows "f32_sum xs = foldl f32_add 0 xs"
  using assms by (cases xs) (simp_all add: f32_sum_def f32_add_zeros)

end
