(* ===== verification/Fusion.thy ===== *)
theory Fusion
  imports Float32 Model Query "HOL-Library.Product_Lexorder" "HOL-Library.Multiset"
begin

text \<open>
  Vectors and rankings: the kernels of \<open>crates/rro-core/src/simd.rs\<close>, the similarities of
  \<open>crates/rro-core/src/types.rs\<close>, and BM25 scoring and rank fusion of \<open>crates/connxism/src/index.rs\<close>.
  Floats are the 32-bit patterns of theory \<open>Float32\<close>; the natural logarithm, whose precision the
  platform decides, is an argument.
\<close>

section \<open>Kernels\<close>

text \<open>Four lanes over the whole chunks of four, then the lanes summed, then the remainder.\<close>

fun dot_lanes ::
  "f32 \<times> f32 \<times> f32 \<times> f32 \<Rightarrow> vec \<Rightarrow> vec \<Rightarrow> (f32 \<times> f32 \<times> f32 \<times> f32) \<times> vec \<times> vec" where
  "dot_lanes (s0, s1, s2, s3) (a0 # a1 # a2 # a3 # a) (b0 # b1 # b2 # b3 # b) =
     dot_lanes (f32_add s0 (f32_mul a0 b0), f32_add s1 (f32_mul a1 b1),
                f32_add s2 (f32_mul a2 b2), f32_add s3 (f32_mul a3 b3)) a b"
| "dot_lanes s a b = (s, a, b)"

definition simd_dot :: "vec \<Rightarrow> vec \<Rightarrow> f32" where
  "simd_dot a b =
     (let n = min (length a) (length b) in
      case dot_lanes (0, 0, 0, 0) (take n a) (take n b) of ((s0, s1, s2, s3), ra, rb) \<Rightarrow>
        foldl (\<lambda>s (x, y). f32_add s (f32_mul x y)) (f32_add (f32_add (f32_add s0 s1) s2) s3) (zip ra rb))"

definition norm_sq :: "vec \<Rightarrow> f32" where
  "norm_sq a = simd_dot a a"

section \<open>Embeddings\<close>

definition emb_dot :: "vec \<Rightarrow> vec \<Rightarrow> f32" where
  "emb_dot a b = (if length a \<noteq> length b then 0 else simd_dot a b)"

definition emb_norm :: "vec \<Rightarrow> f32" where
  "emb_norm a = f32_sqrt (norm_sq a)"

definition cosine :: "vec \<Rightarrow> vec \<Rightarrow> f32" where
  "cosine a b =
     (let denom = f32_mul (emb_norm a) (emb_norm b) in
      if f32_eq denom 0 then 0 else f32_div (emb_dot a b) denom)"

definition normalized :: "vec \<Rightarrow> vec" where
  "normalized a = (let n = emb_norm a in if f32_eq n 0 then a else map (\<lambda>x. f32_div x n) a)"

definition euclidean :: "vec \<Rightarrow> vec \<Rightarrow> f32" where
  "euclidean a b =
     (if length a \<noteq> length b then f32_infinity
      else f32_sqrt (f32_sum (map (\<lambda>(x, y). f32_mul (f32_sub x y) (f32_sub x y)) (zip a b))))"

definition manhattan :: "vec \<Rightarrow> vec \<Rightarrow> f32" where
  "manhattan a b =
     (if length a \<noteq> length b then f32_infinity
      else f32_sum (map (\<lambda>(x, y). f32_abs (f32_sub x y)) (zip a b)))"

text \<open>The merge join over ascending indices.\<close>

function sparse_dot_from :: "(32 word \<times> f32) list \<Rightarrow> (32 word \<times> f32) list \<Rightarrow> f32 \<Rightarrow> f32" where
  "sparse_dot_from ((i, x) # a) ((j, y) # b) acc =
     (if i < j then sparse_dot_from a ((j, y) # b) acc
      else if j < i then sparse_dot_from ((i, x) # a) b acc
      else sparse_dot_from a b (f32_add acc (f32_mul x y)))"
| "sparse_dot_from [] b acc = acc"
| "sparse_dot_from (x # a) [] acc = acc"
  by pat_completeness auto
termination by (relation "measure (\<lambda>(a, b, acc). length a + length b)") auto

definition sparse_dot :: "sparse_vector \<Rightarrow> sparse_vector \<Rightarrow> f32" where
  "sparse_dot u v = sparse_dot_from (sparse_iter u) (sparse_iter v) 0"

text \<open>The best document token of each query token; a query token without one (an empty document) is dropped.\<close>

definition maxsim :: "vec list \<Rightarrow> vec list \<Rightarrow> f32" where
  "maxsim query doc =
     f32_sum (filter f32_is_finite
       (map (\<lambda>q. foldl f32_max f32_neg_infinity (map (\<lambda>d. emb_dot q d) doc)) query))"

section \<open>Score tables\<close>

type_synonym scored = "(bytes \<times> f32) list"

text \<open>
  \<open>*scores.entry(id).or_insert(0.0) += s\<close>.  The order of a hash map is not observed: every table is
  sorted by a total order before it is read.
\<close>

fun add_score :: "bytes \<Rightarrow> f32 \<Rightarrow> scored \<Rightarrow> scored" where
  "add_score i s [] = [(i, f32_add 0 s)]"
| "add_score i s ((j, x) # r) = (if i = j then (j, f32_add x s) # r else (j, x) # add_score i s r)"

text \<open>\<open>sort_by(|a, b| b.1.total_cmp(&a.1).then_with(|| a.0.cmp(&b.0)))\<close>, a stable sort.\<close>

definition rank_key :: "bytes \<times> f32 \<Rightarrow> int \<times> bytes" where
  "rank_key x = (- f32_key (snd x), fst x)"

definition rank_sort :: "scored \<Rightarrow> scored" where
  "rank_sort xs = sort_key rank_key xs"

section \<open>BM25\<close>

record posting =
  po_tf :: "32 word"
  po_len :: "32 word"

record bm25_params =
  bp_k1 :: f32
  bp_b :: f32

text \<open>1.2 and 0.75.\<close>

definition bm25_default :: bm25_params where
  "bm25_default = \<lparr>bp_k1 = 0x3F99999A, bp_b = 0x3F400000\<rparr>"

definition f32_half :: f32 where "f32_half = 0x3F000000"

text \<open>\<open>((n - df + 0.5) / (df + 0.5) + 1.0).ln().max(0.0)\<close>.\<close>

definition bm25_idf :: "(f32 \<Rightarrow> f32) \<Rightarrow> f32 \<Rightarrow> f32 \<Rightarrow> f32" where
  "bm25_idf lnf n df =
     f32_max (lnf (f32_add (f32_div (f32_add (f32_sub n df) f32_half) (f32_add df f32_half)) f32_one)) 0"

text \<open>\<open>idf * (f * (k1 + 1.0)) / (f + k1 * (1.0 - b + b * dl / avgdl))\<close>.\<close>

definition bm25_term :: "bm25_params \<Rightarrow> f32 \<Rightarrow> posting \<Rightarrow> f32 \<Rightarrow> f32" where
  "bm25_term P idf p avgdl =
     (let f = f32_of_nat (unat (po_tf p)); dl = f32_of_nat (unat (po_len p)) in
      f32_div (f32_mul idf (f32_mul f (f32_add (bp_k1 P) f32_one)))
        (f32_add f (f32_mul (bp_k1 P)
           (f32_add (f32_sub f32_one (bp_b P)) (f32_div (f32_mul (bp_b P) dl) avgdl)))))"

definition bm25_scores ::
  "(f32 \<Rightarrow> f32) \<Rightarrow> bm25_params \<Rightarrow> 64 word \<Rightarrow> f32 \<Rightarrow> (bytes \<times> (bytes \<times> posting) list) list \<Rightarrow> scored" where
  "bm25_scores lnf P n_docs avgdl0 tps =
     (let n = f32_of_nat (unat (max n_docs 1)); avgdl = f32_max avgdl0 f32_one in
      fold (\<lambda>(tm, postings) scores.
              let df = f32_of_nat (length postings) in
              if f32_eq df 0 then scores
              else let idf = bm25_idf lnf n df in
                   fold (\<lambda>(i, p). add_score i (bm25_term P idf p avgdl)) postings scores)
        tps [])"

section \<open>Fusion\<close>

definition weight_at :: "f32 list \<Rightarrow> nat \<Rightarrow> f32" where
  "weight_at ws li = (if li < length ws then ws ! li else f32_one)"

text \<open>One list's votes: \<open>w / (k + (i as f32 + 1.0))\<close> for the id at rank \<open>i\<close>.\<close>

definition rrf_votes :: "f32 \<Rightarrow> f32 \<Rightarrow> bytes list \<Rightarrow> scored" where
  "rrf_votes w k ids =
     map (\<lambda>(i, d). (d, f32_div w (f32_add k (f32_add (f32_of_nat i) f32_one)))) (enumerate 0 ids)"

definition add_votes :: "scored \<Rightarrow> scored \<Rightarrow> scored" where
  "add_votes votes acc = fold (\<lambda>(i, s). add_score i s) votes acc"

definition rrf_weighted :: "bytes list list \<Rightarrow> f32 list \<Rightarrow> f32 \<Rightarrow> scored" where
  "rrf_weighted arms ws k =
     rank_sort (fold (\<lambda>(li, ids) acc.
                        let w = weight_at ws li in
                        if f32_eq w 0 then acc else add_votes (rrf_votes w k ids) acc)
                  (enumerate 0 arms) [])"

definition rrf :: "bytes list list \<Rightarrow> f32 \<Rightarrow> scored" where
  "rrf arms k = rrf_weighted arms [] k"

definition f32_epsilon :: f32 where "f32_epsilon = 0x34000000"

definition dbsf_votes :: "f32 \<Rightarrow> scored \<Rightarrow> scored" where
  "dbsf_votes w l =
     (let lo = foldl (\<lambda>m x. f32_min m (snd x)) f32_infinity l;
          hi = foldl (\<lambda>m x. f32_max m (snd x)) f32_neg_infinity l;
          span = f32_sub hi lo in
      map (\<lambda>(i, s). (i, f32_mul w (if f32_lt f32_epsilon span then f32_div (f32_sub s lo) span else f32_one))) l)"

definition dbsf :: "scored list \<Rightarrow> f32 list \<Rightarrow> scored" where
  "dbsf arms ws =
     rank_sort (fold (\<lambda>(li, l) acc.
                        let w = weight_at ws li in
                        if f32_eq w 0 \<or> l = [] then acc else add_votes (dbsf_votes w l) acc)
                  (enumerate 0 arms) [])"

definition fuse :: "fusion_mode \<Rightarrow> scored list \<Rightarrow> f32 list \<Rightarrow> f32 \<Rightarrow> scored" where
  "fuse mode arms ws k =
     (case mode of
        Rrf \<Rightarrow> rrf_weighted (map (map fst) arms) ws k
      | Dbsf \<Rightarrow> dbsf arms ws)"

section \<open>Rankings\<close>

lemma set_rank_sort [simp]: "set (rank_sort xs) = set xs"
  by (simp add: rank_sort_def)

lemma rank_sort_nil [simp]: "rank_sort [] = []"
  by (simp add: rank_sort_def)

lemma length_rank_sort [simp]: "length (rank_sort xs) = length xs"
  by (simp add: rank_sort_def)

lemma distinct_fst_rank_sort [simp]: "distinct (map fst (rank_sort xs)) \<longleftrightarrow> distinct (map fst xs)"
proof -
  have "mset (map fst (rank_sort xs)) = mset (map fst xs)" by (simp add: rank_sort_def)
  then show ?thesis by (metis mset_eq_imp_distinct_iff)
qed

lemma rank_sort_sorted: "sorted (map rank_key (rank_sort xs))"
  by (simp add: rank_sort_def)

text \<open>A table without repeated ids has one ranking, whatever order its entries are met in.\<close>

lemma rank_key_inj: "rank_key x = rank_key y \<Longrightarrow> fst x = fst y"
  by (simp add: rank_key_def)

lemma rank_sort_perm:
  assumes "distinct (map fst xs)" "distinct (map fst ys)" "set xs = set ys"
  shows "rank_sort xs = rank_sort ys"
proof -
  have inj: "inj_on rank_key (set ys)"
    using assms(2) rank_key_inj by (auto intro!: inj_onI) (metis eq_key_imp_eq_value)
  have "mset xs = mset ys" using assms by (metis distinct_map set_eq_iff_mset_eq_distinct)
  then show ?thesis unfolding rank_sort_def
    by (intro sort_key_inj_key_eq) (use inj assms(3) in simp_all)
qed

lemma add_score_keys [simp]: "fst ` set (add_score i s m) = insert i (fst ` set m)"
  by (induction i s m rule: add_score.induct) (auto simp: insert_commute)

lemma add_score_distinct: "distinct (map fst m) \<Longrightarrow> distinct (map fst (add_score i s m))"
  by (induction i s m rule: add_score.induct) auto

lemma map_of_add_score:
  "map_of (add_score i s m) j = (if j = i then Some (f32_add (case map_of m i of None \<Rightarrow> 0 | Some x \<Rightarrow> x) s) else map_of m j)"
  by (induction m) auto

lemma add_votes_keys [simp]: "fst ` set (add_votes vs m) = fst ` set vs \<union> fst ` set m"
  by (induction vs arbitrary: m) (simp_all add: add_votes_def split_def)

lemma add_votes_distinct: "distinct (map fst m) \<Longrightarrow> distinct (map fst (add_votes vs m))"
  by (induction vs arbitrary: m) (auto simp: add_votes_def add_score_distinct)

end
