(* ===== verification/Search.thy ===== *)
theory Search
  imports Estate Fusion
begin

text \<open>
  The searches of \<open>crates/connxism/src/store.rs\<close>: lexical (with its max-score pruning), dense, sparse,
  named-space, hybrid, scoped and filter-aware search, and the late-interaction rescoring.  The graph
  index is seen through the three reads the searches make of it (\<open>ann_view\<close>); the analyzer, the
  logarithm and the distance of a geo radius are fields of \<open>recall_env\<close>.
\<close>

section \<open>Candidates\<close>

record candidate =
  cd_id :: bytes
  cd_text :: bytes
  cd_score :: f32
  cd_metadata :: metadata
  cd_vector :: "vec option"
  cd_highlights :: "(nat \<times> nat) list"

definition candidate_new :: "bytes \<Rightarrow> bytes \<Rightarrow> f32 \<Rightarrow> candidate" where
  "candidate_new i txt s =
     \<lparr>cd_id = i, cd_text = txt, cd_score = s, cd_metadata = [], cd_vector = None, cd_highlights = []\<rparr>"

definition scored_ids :: "candidate list \<Rightarrow> scored" where
  "scored_ids cs = map (\<lambda>c. (cd_id c, cd_score c)) cs"

text \<open>An error of the store, or a panic.\<close>

datatype search_fail = Failed store_error | Panicked

definition lift_err :: "store_error + 'a \<Rightarrow> search_fail + 'a" where
  "lift_err r = (case r of Inl e \<Rightarrow> Inl (Failed e) | Inr x \<Rightarrow> Inr x)"

text \<open>\<open>Vec::map\<close> with \<open>?\<close>: the first failure ends it.\<close>

fun map_result :: "('a \<Rightarrow> 'e + 'b) \<Rightarrow> 'a list \<Rightarrow> 'e + 'b list" where
  "map_result f [] = Inr []"
| "map_result f (x # xs) = bind_result (f x) (\<lambda>y. bind_result (map_result f xs) (\<lambda>ys. Inr (y # ys)))"

section \<open>The environment of a search\<close>

datatype quantizer = QNone | QSq8 | QBq | QPq nat

definition is_lossy :: "quantizer \<Rightarrow> bool" where
  "is_lossy q \<longleftrightarrow> q \<noteq> QNone"

record ann_view =
  av_len :: nat
  av_search :: "vec \<Rightarrow> nat \<Rightarrow> nat \<Rightarrow> scored"
  av_search_filtered :: "vec \<Rightarrow> nat \<Rightarrow> nat \<Rightarrow> bytes set \<Rightarrow> scored"

record recall_env =
  rc_serde :: serde
  rc_posting_of :: "bytes \<Rightarrow> posting option"
  rc_analyze :: "bytes \<Rightarrow> bytes list"
  rc_highlight :: "bytes \<Rightarrow> bytes \<Rightarrow> (nat \<times> nat) list"
  rc_ln :: "f32 \<Rightarrow> f32"
  rc_hav :: haversine
  rc_bbox :: "f64 \<Rightarrow> f64 \<Rightarrow> f64 \<Rightarrow> (f64 \<times> f64) \<times> (f64 \<times> f64)"
  rc_params :: bm25_params
  rc_ann :: ann_view
  rc_quantizer :: quantizer
  rc_quotas :: quotas

type_synonym recall_state = "db \<times> (bytes, vec) pstate"

definition sat_mul :: "nat \<Rightarrow> nat \<Rightarrow> nat" where
  "sat_mul a b = min usize_max (a * b)"

definition fusion_depth_factor :: nat where "fusion_depth_factor = 4"
definition rrf_k :: f32 where "rrf_k = 0x42700000"
definition ann_min_corpus :: nat where "ann_min_corpus = 1024"

section \<open>Postings\<close>

definition decode_posting :: "recall_env \<Rightarrow> bytes \<Rightarrow> store_error + posting" where
  "decode_posting E v =
     (if length v = 8 then Inr \<lparr>po_tf = of_nat (of_le (take 4 v)), po_len = of_nat (of_le (drop 4 v))\<rparr>
      else case rc_posting_of E v of None \<Rightarrow> Inl BadJson | Some p \<Rightarrow> Inr p)"

text \<open>The ids and values of the rows under a prefix.\<close>

definition id_rows :: "db \<Rightarrow> cf \<Rightarrow> bytes \<Rightarrow> (bytes \<times> bytes) list" where
  "id_rows db c p = map (\<lambda>(k, v). (from_utf8_lossy (drop (length p) k), v)) (scan_cf db c p)"

definition scan_postings :: "recall_env \<Rightarrow> db \<Rightarrow> bytes \<Rightarrow> store_error + (bytes \<times> posting) list" where
  "scan_postings E db tm =
     map_result (\<lambda>(i, v). bind_result (decode_posting E v) (\<lambda>p. Inr (i, p))) (id_rows db CfTerms (term_prefix tm))"

section \<open>Lexical search\<close>

definition to_candidates :: "scored \<Rightarrow> candidate list" where
  "to_candidates xs = map (\<lambda>(i, s). candidate_new i [] s) xs"

definition lexical_blocking :: "recall_env \<Rightarrow> db \<Rightarrow> bytes list \<Rightarrow> nat \<Rightarrow> store_error + candidate list" where
  "lexical_blocking E db tms k =
     (let n = get_u64 db META_DOC_COUNT; total = get_u64 db META_TOTAL_TOKENS;
          avgdl = (if n = 0 then f32_one else f32_div (f32_of_nat (unat total)) (f32_of_nat (unat n))) in
      bind_result (map_result (\<lambda>t. bind_result (scan_postings E db t) (\<lambda>ps. Inr (t, ps))) tms) (\<lambda>tps.
        Inr (to_candidates (take k (rank_sort (bm25_scores (rc_ln E) (rc_params E) n avgdl tps))))))"

text \<open>One \<open>(term, idf, upper bound)\<close> per distinct query term of the corpus.\<close>

type_synonym term_info = "bytes \<times> f32 \<times> f32"

fun term_infos :: "recall_env \<Rightarrow> db \<Rightarrow> f32 \<Rightarrow> bytes list \<Rightarrow> bytes list \<Rightarrow> term_info list" where
  "term_infos E db n done [] = []"
| "term_infos E db n done (t # ts) =
     (if t \<in> set done then term_infos E db n done ts
      else let df = term_df db t in
           if sint df \<le> 0 then term_infos E db n (t # done) ts
           else let idf = bm25_idf (rc_ln E) n (f32_of_nat (unat df)) in
                (t, idf, f32_mul idf (f32_add (bp_k1 (rc_params E)) f32_one)) # term_infos E db n (t # done) ts)"

definition bound_sort :: "term_info list \<Rightarrow> term_info list" where
  "bound_sort infos = sort_key (\<lambda>(t, idf, ub). - f32_key ub) infos"

text \<open>One term's postings added to the accumulators.\<close>

definition add_postings ::
  "recall_env \<Rightarrow> db \<Rightarrow> f32 \<Rightarrow> bytes \<Rightarrow> f32 \<Rightarrow> scored \<Rightarrow> store_error + scored" where
  "add_postings E db avgdl tm idf acc =
     bind_result (scan_postings E db tm) (\<lambda>ps.
       Inr (add_votes (map (\<lambda>(i, p). (i, bm25_term (rc_params E) idf p avgdl)) ps) acc))"

text \<open>The k-th best accumulator.\<close>

definition kth_best :: "nat \<Rightarrow> scored \<Rightarrow> f32" where
  "kth_best k acc = sort_key (\<lambda>s. - f32_key s) (map snd acc) ! (k - 1)"

fun scan_terms ::
  "recall_env \<Rightarrow> db \<Rightarrow> f32 \<Rightarrow> nat \<Rightarrow> term_info list \<Rightarrow> scored \<Rightarrow> f32 \<Rightarrow> store_error + scored \<times> term_info list" where
  "scan_terms E db avgdl k [] acc flr = Inr (acc, [])"
| "scan_terms E db avgdl k ((t, idf, ub) # r) acc flr =
     (if k \<le> length acc \<and> f32_lt (f32_sum (map (\<lambda>(t, idf, ub). ub) ((t, idf, ub) # r))) flr
      then Inr (acc, (t, idf, ub) # r)
      else bind_result (add_postings E db avgdl t idf acc) (\<lambda>acc'.
             scan_terms E db avgdl k r acc' (if k \<le> length acc' then kth_best k acc' else flr)))"

text \<open>The pruned tail: every accumulator completed by point lookups.\<close>

definition complete_score ::
  "recall_env \<Rightarrow> db \<Rightarrow> f32 \<Rightarrow> term_info \<Rightarrow> bytes \<times> f32 \<Rightarrow> store_error + bytes \<times> f32" where
  "complete_score E db avgdl info x =
     (case (info, x) of ((t, idf, ub), (i, s)) \<Rightarrow>
        (case get_cf db CfTerms (term_key t i) of
           None \<Rightarrow> Inr (i, s)
         | Some v \<Rightarrow> bind_result (decode_posting E v) (\<lambda>p. Inr (i, f32_add s (bm25_term (rc_params E) idf p avgdl)))))"

fun complete_tail ::
  "recall_env \<Rightarrow> db \<Rightarrow> f32 \<Rightarrow> term_info list \<Rightarrow> scored \<Rightarrow> store_error + scored" where
  "complete_tail E db avgdl [] acc = Inr acc"
| "complete_tail E db avgdl (info # r) acc =
     bind_result (map_result (complete_score E db avgdl info) acc) (complete_tail E db avgdl r)"

definition lexical_topk_blocking :: "recall_env \<Rightarrow> db \<Rightarrow> bytes list \<Rightarrow> nat \<Rightarrow> store_error + candidate list" where
  "lexical_topk_blocking E db tms k =
     (if get_cf db CfMeta META_LEXSTATS = None then lexical_blocking E db tms k
      else let n_docs = get_u64 db META_DOC_COUNT; total = get_u64 db META_TOTAL_TOKENS in
        if n_docs = 0 \<or> k = 0 then Inr []
        else let n = f32_of_nat (unat n_docs);
                 avgdl = f32_max (f32_div (f32_of_nat (unat total)) n) f32_one;
                 infos = bound_sort (term_infos E db n [] tms) in
          if infos = [] then Inr []
          else bind_result (scan_terms E db avgdl k infos [] 0) (\<lambda>(acc, tail).
                 bind_result (complete_tail E db avgdl tail acc) (\<lambda>acc'.
                   Inr (to_candidates (take k (rank_sort acc'))))))"

definition lexical_search :: "recall_env \<Rightarrow> db \<Rightarrow> bytes \<Rightarrow> nat \<Rightarrow> store_error + candidate list" where
  "lexical_search E db q k =
     (let tms = rc_analyze E q in
      if tms = [] \<or> k = 0 then Inr [] else lexical_topk_blocking E db tms k)"

section \<open>Dense search\<close>

definition hydrated :: "stored_doc \<Rightarrow> f32 \<Rightarrow> candidate" where
  "hydrated doc s = (candidate_new (sd_id doc) (sd_text doc) s)\<lparr>cd_metadata := sd_metadata doc\<rparr>"

text \<open>The candidates of an exact scan, or of the graph merged with the pending overlay and rescored when lossy.\<close>

definition overlaid :: "recall_env \<Rightarrow> (bytes, vec) pstate \<Rightarrow> vec \<Rightarrow> nat \<Rightarrow> scored \<Rightarrow> scored" where
  "overlaid E p q fetch found =
     (case overlay (\<lambda>v. cosine q v) p of (ups, dels) \<Rightarrow>
        if ups = [] \<and> dels = [] then found
        else take fetch (rank_sort (filter (\<lambda>x. fst x \<notin> set dels \<and> fst x \<notin> fst ` set ups) found @ ups)))"

definition rescored :: "db \<Rightarrow> vec \<Rightarrow> nat \<Rightarrow> scored \<Rightarrow> scored" where
  "rescored db q k xs =
     take k (rank_sort (map (\<lambda>(i, s). (i, case get_cf db CfVecs i of None \<Rightarrow> s | Some b \<Rightarrow> cosine q (decode_vec b))) xs))"

definition exact_scan :: "db \<Rightarrow> vec \<Rightarrow> nat \<Rightarrow> scored" where
  "exact_scan db q k =
     take k (rank_sort (map (\<lambda>(i, v). (from_utf8_lossy i, cosine q (decode_vec v))) (iter_all db CfVecs)))"

definition dense_scored :: "recall_env \<Rightarrow> recall_state \<Rightarrow> vec \<Rightarrow> nat \<Rightarrow> scored" where
  "dense_scored E st q k =
     (let lossy = is_lossy (rc_quantizer E);
          (factor, ef_floor) = (case rc_quantizer E of QNone \<Rightarrow> (1, 64) | QSq8 \<Rightarrow> (2, 64) | QPq m \<Rightarrow> (6, 200) | QBq \<Rightarrow> (8, 200));
          fetch = sat_mul k factor in
      if ann_min_corpus \<le> av_len (rc_ann E) then
        let found = overlaid E (snd st) q fetch (av_search (rc_ann E) q fetch (max fetch ef_floor)) in
        if lossy then rescored (fst st) q k found else found
      else exact_scan (fst st) q k)"

definition dense_blocking :: "recall_env \<Rightarrow> recall_state \<Rightarrow> vec \<Rightarrow> nat \<Rightarrow> bool \<Rightarrow> store_error + candidate list" where
  "dense_blocking E st q k fetch_payload =
     map_result (\<lambda>(i, s).
        if fetch_payload then
          bind_result (recall_doc (rc_serde E) i (fst st)) (\<lambda>doc.
            Inr (case doc of Some d \<Rightarrow> hydrated d s | None \<Rightarrow> candidate_new i [] s))
        else Inr (candidate_new i [] s))
      (dense_scored E st q k)"

definition dense_search :: "recall_env \<Rightarrow> recall_state \<Rightarrow> vec \<Rightarrow> nat \<Rightarrow> store_error + candidate list" where
  "dense_search E st q k = (if k = 0 then Inr [] else dense_blocking E st q k True)"

text \<open>Winners with their payload; an id without a document is skipped.\<close>

fun hydrate_winners :: "serde \<Rightarrow> db \<Rightarrow> scored \<Rightarrow> store_error + candidate list" where
  "hydrate_winners S db [] = Inr []"
| "hydrate_winners S db ((i, s) # r) =
     bind_result (recall_doc S i db) (\<lambda>doc.
       bind_result (hydrate_winners S db r) (\<lambda>cs.
         Inr (case doc of None \<Rightarrow> cs | Some d \<Rightarrow> hydrated d s # cs)))"

definition hybrid_weighted ::
  "recall_env \<Rightarrow> recall_state \<Rightarrow> bytes \<Rightarrow> vec \<Rightarrow> nat \<Rightarrow> hybrid_weights \<Rightarrow> fusion_mode \<Rightarrow> store_error + candidate list" where
  "hybrid_weighted E st txt q k ws mode =
     (if k = 0 then Inr []
      else let tms = rc_analyze E txt; depth = max (sat_mul k fusion_depth_factor) k in
        bind_result (dense_blocking E st q depth False) (\<lambda>dense.
          bind_result (if tms = [] then Inr [] else lexical_topk_blocking E (fst st) tms depth) (\<lambda>lexical.
            hydrate_winners (rc_serde E) (fst st)
              (take k (fuse mode [scored_ids dense, scored_ids lexical] (weights_as_slice ws) rrf_k)))))"

definition hybrid_search :: "recall_env \<Rightarrow> recall_state \<Rightarrow> bytes \<Rightarrow> vec \<Rightarrow> nat \<Rightarrow> store_error + candidate list" where
  "hybrid_search E st txt q k = hybrid_weighted E st txt q k hybrid_weights_default Rrf"

section \<open>Sparse and named search\<close>

text \<open>A stored weight shorter than four bytes makes \<open>copy_from_slice\<close> panic.\<close>

definition sparse_votes :: "db \<Rightarrow> 32 word \<times> f32 \<Rightarrow> search_fail + scored" where
  "sparse_votes db dw =
     (case dw of (dm, qw) \<Rightarrow>
        map_result (\<lambda>(i, v). if length v < 4 then Inl Panicked else Inr (i, f32_mul qw (of_nat (of_le (take 4 v)))))
          (id_rows db CfSparse (sparse_prefix dm)))"

definition sparse_search :: "db \<Rightarrow> (32 word \<times> f32) list \<Rightarrow> nat \<Rightarrow> search_fail + candidate list" where
  "sparse_search db q k =
     (if q = [] \<or> k = 0 then Inr []
      else bind_result (map_result (sparse_votes db) q) (\<lambda>vs.
             Inr (to_candidates (take k (rank_sort (fold add_votes vs []))))))"

definition named_search :: "db \<Rightarrow> bytes \<Rightarrow> vec \<Rightarrow> nat \<Rightarrow> candidate list" where
  "named_search db space q k =
     (if k = 0 then []
      else to_candidates (take k (rank_sort
             (map (\<lambda>(i, v). (i, cosine q (decode_vec v))) (id_rows db CfNvecs (nvec_prefix space))))))"

definition similarity_matrix :: "db \<Rightarrow> bytes list \<Rightarrow> (bytes \<times> bytes \<times> f32) list" where
  "similarity_matrix db ids =
     (let known = List.map_filter (\<lambda>i. map_option (\<lambda>b. (i, decode_vec b)) (get_cf db CfVecs i)) ids; n = length known in
      concat (map (\<lambda>i. map (\<lambda>j. (fst (known ! i), fst (known ! j), cosine (snd (known ! i)) (snd (known ! j))))
                         [i + 1..<n]) [0..<n]))"

section \<open>Late interaction\<close>

definition maxsim_of :: "db \<Rightarrow> vec list \<Rightarrow> bytes \<Rightarrow> search_fail + f32 option" where
  "maxsim_of db q i =
     (case get_cf db CfMvecs i of
        None \<Rightarrow> Inr None
      | Some b \<Rightarrow> (case decode_multi b of None \<Rightarrow> Inl Panicked | Some vs \<Rightarrow> Inr (Some (maxsim q vs))))"

definition candidate_sort :: "candidate list \<Rightarrow> candidate list" where
  "candidate_sort cs = sort_key (\<lambda>c. rank_key (cd_id c, cd_score c)) cs"

definition maxsim_rescore :: "db \<Rightarrow> candidate list \<Rightarrow> vec list \<Rightarrow> search_fail + candidate list" where
  "maxsim_rescore db cs q =
     (if q = [] \<or> cs = [] then Inr cs
      else bind_result (map_result (\<lambda>c. maxsim_of db q (cd_id c)) cs) (\<lambda>ss.
             let scored = List.map_filter (\<lambda>(c, s). map_option (\<lambda>x. c\<lparr>cd_score := x\<rparr>) s) (zip cs ss);
                 others = map fst (filter (\<lambda>(c, s). s = None) (zip cs ss)) in
             Inr (candidate_sort scored @ others)))"

section \<open>Scoped and filter-aware search\<close>

definition scoped_search ::
  "recall_env \<Rightarrow> db \<Rightarrow> bytes \<Rightarrow> vec \<Rightarrow> nat \<Rightarrow> bytes list \<Rightarrow> store_error + candidate list" where
  "scoped_search E db txt q k scope =
     (if k = 0 \<or> scope = [] then Inr []
      else let tms = rc_analyze E txt;
               dense = rank_sort (List.map_filter (\<lambda>i. map_option (\<lambda>b. (i, cosine q (decode_vec b))) (get_cf db CfVecs i)) scope) in
        bind_result (if tms = [] then Inr [] else lexical_blocking E db tms usize_max) (\<lambda>lex.
          let lexical = filter (\<lambda>c. cd_id c \<in> set scope) lex in
          hydrate_winners (rc_serde E) db (take k (rrf [map fst dense, map cd_id lexical] rrf_k))))"

text \<open>
  \<open>top_k * 4\<close> is not saturating: a release build wraps.  The allowed ids are a set; the scope handed on
  for a small corpus is that set in some order, here ascending (its order is not observed).
\<close>

fun filter_winners :: "recall_env \<Rightarrow> db \<Rightarrow> vec \<Rightarrow> bytes list \<Rightarrow> store_error + candidate list" where
  "filter_winners E db q [] = Inr []"
| "filter_winners E db q (i # r) =
     (case get_cf db CfVecs i of
        None \<Rightarrow> filter_winners E db q r
      | Some b \<Rightarrow>
          bind_result (recall_doc (rc_serde E) i db) (\<lambda>doc.
            bind_result (filter_winners E db q r) (\<lambda>cs.
              let c = candidate_new i [] (cosine q (decode_vec b)) in
              Inr ((case doc of None \<Rightarrow> c | Some d \<Rightarrow> c\<lparr>cd_text := sd_text d, cd_metadata := sd_metadata d\<rparr>) # cs))))"

definition filter_aware_search ::
  "recall_env \<Rightarrow> db \<Rightarrow> bytes \<Rightarrow> vec \<Rightarrow> nat \<Rightarrow> bytes set \<Rightarrow> hybrid_weights \<Rightarrow> fusion_mode \<Rightarrow> store_error + candidate list" where
  "filter_aware_search E db txt q k allow ws mode =
     (if k = 0 \<or> allow = {} then Inr []
      else if av_len (rc_ann E) < ann_min_corpus then scoped_search E db txt q k (sorted_list_of_set allow)
      else let tms = rc_analyze E txt; dense = av_search_filtered (rc_ann E) q k (max k 64) allow in
        bind_result (if tms = [] then Inr [] else lexical_blocking E db tms (k * 4 mod 2 ^ 64)) (\<lambda>lex.
          let lexical = filter (\<lambda>x. fst x \<in> allow) (scored_ids lex);
              fused = (if lexical = [] then map fst dense
                       else map fst (fuse mode [dense, lexical] (weights_as_slice ws) rrf_k)) in
          bind_result (filter_winners E db q (take k fused)) (\<lambda>cs. Inr (candidate_sort cs))))"

end
