(* ===== verification/QueryPlane.thy ===== *)
theory QueryPlane
  imports Search
begin

text \<open>
  Query execution, \<open>crates/connxism/src/query.rs\<close>: the typed query with its quota, prefetch stages,
  scope and collection, the three filter strategies, fusion, rescoring and paging; and facets, distinct
  values, counts and the scroll of the estate.
\<close>

section \<open>Retrieval paths\<close>

definition filter_overfetch :: nat where "filter_overfetch = 8"
definition exact_scope_max :: nat where "exact_scope_max = 65536"
definition max_prefetch_depth :: nat where "max_prefetch_depth = 3"

definition sat_add :: "nat \<Rightarrow> nat \<Rightarrow> nat" where
  "sat_add a b = min usize_max (a + b)"

definition unscoped ::
  "recall_env \<Rightarrow> recall_state \<Rightarrow> bytes \<Rightarrow> vec \<Rightarrow> bool \<Rightarrow> nat \<Rightarrow> hybrid_weights \<Rightarrow> fusion_mode \<Rightarrow> store_error + candidate list" where
  "unscoped E st txt v has_vector fetch ws mode =
     (if has_vector then hybrid_weighted E st txt v fetch ws mode else lexical_search E (fst st) txt fetch)"

definition rehydrate :: "serde \<Rightarrow> db \<Rightarrow> candidate \<Rightarrow> store_error + candidate" where
  "rehydrate S db c =
     bind_result (recall_doc S (cd_id c) db) (\<lambda>doc.
       Inr (case doc of None \<Rightarrow> c | Some d \<Rightarrow> c\<lparr>cd_text := sd_text d, cd_metadata := sd_metadata d\<rparr>))"

definition named_hybrid ::
  "recall_env \<Rightarrow> db \<Rightarrow> bytes \<Rightarrow> bytes \<Rightarrow> vec \<Rightarrow> nat \<Rightarrow> hybrid_weights \<Rightarrow> fusion_mode \<Rightarrow> store_error + candidate list" where
  "named_hybrid E db space txt v fetch ws mode =
     (let dense = named_search db space v fetch in
      bind_result (if txt = [] then Inr [] else lexical_search E db txt fetch) (\<lambda>lexical.
        if lexical = [] then map_result (rehydrate (rc_serde E) db) dense
        else hydrate_winners (rc_serde E) db
               (take fetch (fuse mode [scored_ids dense, scored_ids lexical] (weights_as_slice ws) rrf_k))))"

section \<open>The flat query\<close>

definition resolve_alias :: "serde \<Rightarrow> db \<Rightarrow> bytes \<Rightarrow> store_error + bytes" where
  "resolve_alias S db name =
     bind_result (aliases S db) (\<lambda>al. Inr (case map_of al name of None \<Rightarrow> name | Some t \<Rightarrow> t))"

text \<open>A collection restricts like a scope; both given is the intersection, in the order of the scope.\<close>

definition query_scope :: "serde \<Rightarrow> db \<Rightarrow> estate_query \<Rightarrow> store_error + bytes list option" where
  "query_scope S db q =
     (case q_collection q of
        None \<Rightarrow> Inr (q_scope q)
      | Some coll \<Rightarrow>
          bind_result (resolve_alias S db coll) (\<lambda>c.
            let members = collection_members db c in
            Inr (Some (case q_scope q of None \<Rightarrow> members | Some explicit \<Rightarrow> filter (\<lambda>i. i \<in> set members) explicit))))"

text \<open>The first candidates, whether they satisfy the filter already, and the ids they are restricted to.\<close>

definition first_phase ::
  "recall_env \<Rightarrow> recall_state \<Rightarrow> estate_query \<Rightarrow> filter_dsl \<Rightarrow> nat \<Rightarrow> nat \<Rightarrow> bytes list option \<Rightarrow>
   store_error + candidate list \<times> bool \<times> bytes set option" where
  "first_phase E st q dsl want fetch scope =
     (let txt = (case q_text q of None \<Rightarrow> [] | Some t \<Rightarrow> t); v = (case q_vector q of None \<Rightarrow> [] | Some v \<Rightarrow> v);
          free = (\<lambda>_ :: unit. bind_result (unscoped E st txt v (q_vector q \<noteq> None) fetch (q_fusion q) (q_fusion_mode q))
                    (\<lambda>cs. Inr (cs, False, None))) in
      case scope of
        Some ids \<Rightarrow> bind_result (scoped_search E (fst st) txt v fetch ids) (\<lambda>cs. Inr (cs, False, Some (set ids)))
      | None \<Rightarrow>
          if \<not> filter_is_empty dsl then
            bind_result (ids_where (rc_serde E) (rc_hav E) (rc_bbox E) (fst st) dsl) (\<lambda>r.
              case r of
                Some ids \<Rightarrow>
                  if length ids \<le> exact_scope_max then
                    bind_result (if ids = [] then Inr [] else scoped_search E (fst st) txt v want ids)
                      (\<lambda>cs. Inr (cs, True, Some (set ids)))
                  else bind_result (filter_aware_search E (fst st) txt v want (set ids) (q_fusion q) (q_fusion_mode q))
                      (\<lambda>cs. Inr (cs, True, Some (set ids)))
              | None \<Rightarrow> free ())
          else (case (q_using q, q_vector q) of
                  (Some space, Some w) \<Rightarrow>
                    bind_result (named_hybrid E (fst st) space txt w fetch (q_fusion q) (q_fusion_mode q))
                      (\<lambda>cs. Inr (cs, False, None))
                | _ \<Rightarrow> free ()))"

text \<open>The sparse ranking fused in, restricted like the first phase.\<close>

definition fuse_sparse ::
  "recall_env \<Rightarrow> db \<Rightarrow> estate_query \<Rightarrow> nat \<Rightarrow> bytes set option \<Rightarrow> candidate list \<Rightarrow> search_fail + candidate list" where
  "fuse_sparse E db q fetch allowed results =
     (case q_sparse q of
        None \<Rightarrow> Inr results
      | Some sv \<Rightarrow>
          if sv = [] then Inr results
          else bind_result (sparse_search db sv fetch) (\<lambda>sp.
            let sparse = (case allowed of None \<Rightarrow> sp | Some ids \<Rightarrow> filter (\<lambda>c. cd_id c \<in> ids) sp) in
            if sparse = [] then Inr results
            else lift_err (hydrate_winners (rc_serde E) db
                   (take fetch (fuse (q_fusion_mode q) [scored_ids results, scored_ids sparse]
                                  (weights_as_slice (q_fusion q)) rrf_k)))))"

text \<open>Late interaction, then the payload of winners from lean paths.\<close>

definition fill_text :: "serde \<Rightarrow> db \<Rightarrow> candidate \<Rightarrow> store_error + candidate" where
  "fill_text S db c =
     (if cd_text c \<noteq> [] then Inr c
      else bind_result (recall_doc S (cd_id c) db) (\<lambda>doc.
        Inr (case doc of
               None \<Rightarrow> c
             | Some d \<Rightarrow> c\<lparr>cd_text := sd_text d, cd_metadata := (if cd_metadata c = [] then sd_metadata d else cd_metadata c)\<rparr>)))"

definition rescore_multi :: "recall_env \<Rightarrow> db \<Rightarrow> estate_query \<Rightarrow> candidate list \<Rightarrow> search_fail + candidate list" where
  "rescore_multi E db q results =
     (case q_multi q of
        None \<Rightarrow> Inr results
      | Some ts \<Rightarrow>
          if ts = [] then Inr results
          else bind_result (maxsim_rescore db results ts) (\<lambda>cs. lift_err (map_result (fill_text (rc_serde E) db) cs)))"

definition fill_payload :: "serde \<Rightarrow> db \<Rightarrow> candidate \<Rightarrow> store_error + candidate" where
  "fill_payload S db c =
     (if cd_metadata c \<noteq> [] then Inr c
      else bind_result (recall_doc S (cd_id c) db) (\<lambda>doc.
        Inr (case doc of
               None \<Rightarrow> c
             | Some d \<Rightarrow> c\<lparr>cd_metadata := sd_metadata d, cd_text := (if cd_text c = [] then sd_text d else cd_text c)\<rparr>)))"

definition post_filter ::
  "recall_env \<Rightarrow> db \<Rightarrow> filter_dsl \<Rightarrow> bool \<Rightarrow> candidate list \<Rightarrow> store_error + candidate list" where
  "post_filter E db dsl prefiltered results =
     (if filter_is_empty dsl \<or> prefiltered then Inr results
      else bind_result (map_result (fill_payload (rc_serde E) db) results) (\<lambda>cs.
             Inr (filter (\<lambda>c. filter_matches (rc_hav E) dsl (cd_metadata c)) cs)))"

text \<open>Threshold, page, payload, vectors, highlights.\<close>

definition finish_page :: "recall_env \<Rightarrow> db \<Rightarrow> estate_query \<Rightarrow> candidate list \<Rightarrow> candidate list" where
  "finish_page E db q results =
     (let cs1 = (case q_score_threshold q of None \<Rightarrow> results | Some t \<Rightarrow> filter (\<lambda>c. f32_le t (cd_score c)) results);
          cs2 = take (q_top_k q) (drop (q_offset q) cs1);
          cs3 = (if q_with_payload q then cs2 else map (\<lambda>c. c\<lparr>cd_text := [], cd_metadata := []\<rparr>) cs2);
          cs4 = (if q_with_vectors q then map (\<lambda>c. c\<lparr>cd_vector := vector_of (cd_id c) db\<rparr>) cs3 else cs3) in
      case (q_highlight q, q_text q) of
        (True, Some qt) \<Rightarrow> map (\<lambda>c. if cd_text c = [] then c else c\<lparr>cd_highlights := rc_highlight E (cd_text c) qt\<rparr>) cs4
      | _ \<Rightarrow> cs4)"

definition query_flat :: "recall_env \<Rightarrow> recall_state \<Rightarrow> estate_query \<Rightarrow> search_fail + candidate list" where
  "query_flat E st q =
     (if q_top_k q = 0 then Inr []
      else let dsl = effective_filter q; want = sat_add (q_top_k q) (q_offset q);
               fetch = (if filter_is_empty dsl \<and> q_multi q = None then want else sat_mul want filter_overfetch) in
        bind_result (lift_err (query_scope (rc_serde E) (fst st) q)) (\<lambda>scope.
          bind_result (lift_err (first_phase E st q dsl want fetch scope)) (\<lambda>(results, prefiltered, allowed).
            bind_result (fuse_sparse E (fst st) q fetch allowed results) (\<lambda>r1.
              bind_result (rescore_multi E (fst st) q r1) (\<lambda>r2.
                bind_result (lift_err (post_filter E (fst st) dsl prefiltered r2)) (\<lambda>r3.
                  Inr (finish_page E (fst st) q r3)))))))"

section \<open>Prefetch and the query\<close>

definition inner_query :: "estate_query \<Rightarrow> nat \<Rightarrow> estate_query" where
  "inner_query q limit =
     EstateQuery (q_text q) (q_vector q) (q_sparse q) (q_using q) (q_collection q) (q_multi q) limit
       (q_filter q) (q_dsl q) (q_scope q) (q_score_threshold q) False (q_offset q)
       (q_with_vectors q) (q_highlight q) (q_prefetch q) (q_fusion q) (q_fusion_mode q)"

definition scoped_query :: "estate_query \<Rightarrow> bytes list \<Rightarrow> estate_query" where
  "scoped_query q ids =
     EstateQuery (q_text q) (q_vector q) (q_sparse q) (q_using q) (q_collection q) (q_multi q) (q_top_k q)
       (q_filter q) (q_dsl q)
       (Some (case q_scope q of None \<Rightarrow> ids | Some explicit \<Rightarrow> filter (\<lambda>i. i \<in> set explicit) ids))
       (q_score_threshold q) (q_with_payload q) (q_offset q)
       (q_with_vectors q) (q_highlight q) [] (q_fusion q) (q_fusion_mode q)"

fun add_ids :: "bytes list \<Rightarrow> candidate list \<Rightarrow> bytes list" where
  "add_ids un [] = un"
| "add_ids un (c # cs) = add_ids (if cd_id c \<in> set un then un else un @ [cd_id c]) cs"

fun prefetch_union ::
  "(estate_query \<Rightarrow> search_fail + candidate list) \<Rightarrow> (estate_query \<times> nat) list \<Rightarrow> bytes list \<Rightarrow> search_fail + bytes list" where
  "prefetch_union run [] un = Inr un"
| "prefetch_union run ((iq, limit) # r) un =
     bind_result (run (inner_query iq limit)) (\<lambda>cs. prefetch_union run r (add_ids un cs))"

text \<open>The argument is the number of levels left below \<open>max_prefetch_depth\<close>.\<close>

primrec query_depth :: "nat \<Rightarrow> recall_env \<Rightarrow> recall_state \<Rightarrow> estate_query \<Rightarrow> search_fail + candidate list" where
  "query_depth 0 E st q =
     (if q_prefetch q = [] then query_flat E st q else Inl (Failed (Rejected ''prefetch nesting'')))"
| "query_depth (Suc levels) E st q =
     (if q_prefetch q = [] then query_flat E st q
      else bind_result (prefetch_union (query_depth levels E st) (q_prefetch q) []) (\<lambda>un.
             query_flat E st (scoped_query q un)))"

definition run_query :: "recall_env \<Rightarrow> recall_state \<Rightarrow> estate_query \<Rightarrow> search_fail + candidate list" where
  "run_query E st q =
     (case qt_max_top_k (rc_quotas E) of
        Some cap \<Rightarrow> if cap < q_top_k q then Inl (Failed (Quota (q_top_k q) cap)) else query_depth max_prefetch_depth E st q
      | None \<Rightarrow> query_depth max_prefetch_depth E st q)"

section \<open>Facets, counts and the scroll\<close>

text \<open>\<open>*out.entry(key).or_insert(0) += 1\<close> on a \<open>BTreeMap\<close>.\<close>

definition bump_facet :: "bytes \<Rightarrow> (bytes \<times> 64 word) list \<Rightarrow> (bytes \<times> 64 word) list" where
  "bump_facet k m = map_insert k ((case map_of m k of None \<Rightarrow> 0 | Some n \<Rightarrow> n) + 1) m"

definition facet_key :: "(json \<Rightarrow> bytes) \<Rightarrow> json \<Rightarrow> bytes" where
  "facet_key jt v = (case v of JStr s \<Rightarrow> s | other \<Rightarrow> jt other)"

fun facet_scan :: "serde \<Rightarrow> bytes \<Rightarrow> rows \<Rightarrow> (bytes \<times> 64 word) list \<Rightarrow> store_error + (bytes \<times> 64 word) list" where
  "facet_scan S field [] m = Inr m"
| "facet_scan S field ((k, v) # r) m =
     (case js_doc_of S v of
        None \<Rightarrow> Inl BadJson
      | Some doc \<Rightarrow>
          facet_scan S field r (case map_of (sd_metadata doc) field of None \<Rightarrow> m | Some x \<Rightarrow> bump_facet (facet_key (js_value S) x) m))"

text \<open>
  One index row: the tag, then the value up to the last separator.  A row without either is skipped, and
  a tag other than a string's or a boolean's sends the facet back to the scan (\<open>None\<close>).
\<close>

fun facet_rows :: "nat \<Rightarrow> rows \<Rightarrow> (bytes \<times> 64 word) list \<Rightarrow> (bytes \<times> 64 word) list option" where
  "facet_rows n [] m = Some m"
| "facet_rows n ((k, v) # r) m =
     (case drop n k of
        [] \<Rightarrow> facet_rows n r m
      | tag # payload \<Rightarrow>
          if SEP \<notin> set payload then facet_rows n r m
          else let val = rev (tl (dropWhile (\<lambda>b. b \<noteq> SEP) (rev payload))) in
            if tag = PIDX_STR then facet_rows n r (bump_facet (from_utf8_lossy val) m)
            else if tag = PIDX_BOOL then facet_rows n r (bump_facet (if val = [CHR 0x01] then ''true'' else ''false'') m)
            else None)"

definition facet_from_index :: "db \<Rightarrow> bytes \<Rightarrow> (bytes \<times> 64 word) list option" where
  "facet_from_index db field =
     (let p = pidx_field_prefix field in facet_rows (length p) (scan_cf db CfPidx p) [])"

definition facet :: "serde \<Rightarrow> db \<Rightarrow> bytes \<Rightarrow> store_error + (bytes \<times> 64 word) list" where
  "facet S db field =
     bind_result (indexed_fields S db) (\<lambda>fs.
       case (if field \<in> set fs then facet_from_index db field else None) of
         Some counts \<Rightarrow> Inr counts
       | None \<Rightarrow> facet_scan S field (iter_all db CfDocs) [])"

definition distinct_values :: "serde \<Rightarrow> db \<Rightarrow> bytes \<Rightarrow> store_error + bytes list" where
  "distinct_values S db field = bind_result (facet S db field) (\<lambda>m. Inr (map fst m))"

definition matches_filter :: "metadata \<Rightarrow> metadata \<Rightarrow> bool" where
  "matches_filter m f = list_all (\<lambda>(k, v). case map_of m k of None \<Rightarrow> False | Some w \<Rightarrow> json_eq w v) f"

fun count_scan :: "serde \<Rightarrow> metadata \<Rightarrow> rows \<Rightarrow> 64 word \<Rightarrow> store_error + 64 word" where
  "count_scan S f [] n = Inr n"
| "count_scan S f ((k, v) # r) n =
     (case js_doc_of S v of
        None \<Rightarrow> Inl BadJson
      | Some doc \<Rightarrow> count_scan S f r (if matches_filter (sd_metadata doc) f then n + 1 else n))"

definition count_filtered :: "serde \<Rightarrow> db \<Rightarrow> metadata \<Rightarrow> store_error + 64 word" where
  "count_filtered S db f =
     (if f = [] then Inr (get_u64 db META_DOC_COUNT) else count_scan S f (iter_all db CfDocs) 0)"

text \<open>The page is checked for its size after each document pushed, so a limit of 0 returns one.\<close>

fun scroll_loop :: "serde \<Rightarrow> bytes option \<Rightarrow> nat \<Rightarrow> rows \<Rightarrow> stored_doc list \<Rightarrow> store_error + stored_doc list" where
  "scroll_loop S after limit [] out = Inr out"
| "scroll_loop S after limit ((k, v) # r) out =
     (if after = Some k then scroll_loop S after limit r out
      else case js_doc_of S v of
             None \<Rightarrow> Inl BadJson
           | Some d \<Rightarrow> if limit \<le> length (out @ [d]) then Inr (out @ [d]) else scroll_loop S after limit r (out @ [d]))"

definition scroll :: "serde \<Rightarrow> db \<Rightarrow> bytes option \<Rightarrow> nat \<Rightarrow> store_error + stored_doc list" where
  "scroll S db after limit =
     scroll_loop S after limit (case after of Some a \<Rightarrow> iter_from db CfDocs a | None \<Rightarrow> iter_all db CfDocs) []"

end
