(* ===== verification/Votes.thy ===== *)
theory Votes
  imports Fusion
begin

text \<open>
  Tables of votes (ids with non-negative float scores): what a table holds after the votes of several
  terms, how its scores grow, what bounds them, and when the best of a part are the best of the whole.
\<close>

section \<open>Tables of votes\<close>

definition cast_vote :: "f32 option \<Rightarrow> f32 option \<Rightarrow> f32 option" where
  "cast_vote c s = (case c of None \<Rightarrow> s | Some x \<Rightarrow> Some (f32_add (case s of None \<Rightarrow> 0 | Some y \<Rightarrow> y) x))"

lemma cast_vote_simps [simp]:
  "cast_vote None s = s" "cast_vote (Some x) None = Some (f32_add 0 x)" "cast_vote (Some x) (Some y) = Some (f32_add y x)"
  by (simp_all add: cast_vote_def)

lemma map_of_add_votes:
  "distinct (map fst vs) \<Longrightarrow> map_of (add_votes vs m) i = cast_vote (map_of vs i) (map_of m i)"
proof (induction vs arbitrary: m)
  case (Cons v vs)
  obtain j x where v: "v = (j, x)" by (cases v)
  have "map_of vs j = None" using Cons.prems v by (simp add: map_of_eq_None_iff)
  moreover have "map_of (add_votes (v # vs) m) i = cast_vote (map_of vs i) (map_of (add_score j x m) i)"
    using Cons.IH [of "add_score j x m"] Cons.prems v by (simp add: add_votes_def)
  ultimately show ?case by (simp add: v map_of_add_score cast_vote_def)
qed (simp add: add_votes_def)

text \<open>A table after the votes of several terms.\<close>

definition ballot :: "('t \<Rightarrow> scored) \<Rightarrow> 't list \<Rightarrow> f32 option \<Rightarrow> bytes \<Rightarrow> f32 option" where
  "ballot V ts s i = fold (\<lambda>t. cast_vote (map_of (V t) i)) ts s"

lemma ballot_simps [simp]:
  "ballot V [] s i = s" "ballot V (t # ts) s i = ballot V ts (cast_vote (map_of (V t) i) s) i"
  by (simp_all add: ballot_def)

lemma map_of_fold_votes:
  "\<forall>t \<in> set ts. distinct (map fst (V t)) \<Longrightarrow> map_of (fold (\<lambda>t. add_votes (V t)) ts m) i = ballot V ts (map_of m i) i"
  by (induction ts arbitrary: m) (simp_all add: map_of_add_votes)

lemma distinct_fold_votes:
  "distinct (map fst m) \<Longrightarrow> distinct (map fst (fold (\<lambda>t. add_votes (V t)) ts m))"
  by (induction ts arbitrary: m) (simp_all add: add_votes_distinct)

text \<open>Votes are non-negative and bounded term by term.\<close>

definition bounded_votes :: "('t \<Rightarrow> scored) \<Rightarrow> ('t \<Rightarrow> f32) \<Rightarrow> 't list \<Rightarrow> bool" where
  "bounded_votes V ub ts \<longleftrightarrow>
     (\<forall>t \<in> set ts. distinct (map fst (V t)) \<and> f32_pos (ub t) \<and>
        (\<forall>x \<in> snd ` set (V t). f32_pos x \<and> f32_mag x \<le> f32_mag (ub t)))"

lemma bounded_votes_tl: "bounded_votes V ub (t # ts) \<Longrightarrow> bounded_votes V ub ts"
  by (simp add: bounded_votes_def)

lemma bounded_votes_hd: "bounded_votes V ub (t # ts) \<Longrightarrow> bounded_votes V ub [t]"
  by (simp add: bounded_votes_def)

lemma bounded_vote:
  assumes "bounded_votes V ub [t]" "map_of (V t) i = Some x"
  shows "f32_pos x" "f32_mag x \<le> f32_mag (ub t)" "f32_pos (ub t)"
  using assms map_of_SomeD [OF assms(2)] by (force simp: bounded_votes_def)+

text \<open>A started score only grows.\<close>

lemma ballot_grows:
  assumes "bounded_votes V ub ts" "f32_pos s"
  shows "\<exists>s'. ballot V ts (Some s) i = Some s' \<and> f32_pos s' \<and> f32_mag s \<le> f32_mag s'"
  using assms
proof (induction ts arbitrary: s)
  case (Cons t ts)
  show ?case
  proof (cases "map_of (V t) i")
    case None
    then show ?thesis using Cons.IH [OF bounded_votes_tl [OF Cons.prems(1)] Cons.prems(2)] by simp
  next
    case (Some x)
    note t = bounded_votes_hd [OF Cons.prems(1)] bounded_votes_tl [OF Cons.prems(1)]
    have x: "f32_pos x" by (rule bounded_vote [OF t(1) Some])
    have "f32_pos (f32_add s x)" "f32_mag s \<le> f32_mag (f32_add s x)"
      using f32_pos_add [OF Cons.prems(2) x] add_mag_ge f32_pos_mag Cons.prems(2) x by simp_all
    then show ?thesis using Cons.IH [OF t(2), of "f32_add s x"] Some by force
  qed
qed simp

text \<open>An unseen id scores at most the sum of the bounds.\<close>

lemma ballot_bounded:
  assumes "bounded_votes V ub ts" "f32_pos s" "f32_pos b" "f32_mag s \<le> f32_mag b" "ballot V ts (Some s) i = Some s'"
  shows "f32_pos (foldl f32_add b (map ub ts))" "f32_mag s' \<le> f32_mag (foldl f32_add b (map ub ts))"
proof -
  have "f32_pos (foldl f32_add b (map ub ts)) \<and> f32_mag s' \<le> f32_mag (foldl f32_add b (map ub ts))"
    using assms
  proof (induction ts arbitrary: s b)
    case (Cons t ts)
    note t = bounded_votes_hd [OF Cons.prems(1)] bounded_votes_tl [OF Cons.prems(1)]
    have u: "f32_pos (ub t)" using t(1) by (simp add: bounded_votes_def)
    note b = f32_pos_add [OF Cons.prems(3) u]
    have bu: "f32_mag b \<le> f32_mag (f32_add b (ub t))"
      using b add_mag_ge f32_pos_mag Cons.prems(3) u by simp
    show ?case
    proof (cases "map_of (V t) i")
      case None
      then show ?thesis using Cons.IH [OF t(2) Cons.prems(2) b(1)] Cons.prems(4,5) bu by simp
    next
      case (Some x)
      note x = bounded_vote [OF t(1) Some]
      note s = f32_pos_add [OF Cons.prems(2) x(1)]
      have "f32_mag (f32_add s x) \<le> f32_mag (f32_add b (ub t))"
        unfolding s(2) b(2) using Cons.prems(3,4) x(2) u f32_pos_mag by (intro add_mag_mono)
      then show ?thesis using Cons.IH [OF t(2) s(1) b(1)] Cons.prems(5) Some by simp
    qed
  qed simp
  then show "f32_pos (foldl f32_add b (map ub ts))" "f32_mag s' \<le> f32_mag (foldl f32_add b (map ub ts))" by blast+
qed

lemma ballot_None:
  assumes "bounded_votes V ub ts" "ballot V ts None i = Some s'"
  shows "\<exists>s. f32_mag s = 0 \<and> f32_pos s \<and> ballot V ts (Some s) i = Some s'"
  using assms
proof (induction ts)
  case (Cons t ts)
  show ?case
  proof (cases "map_of (V t) i")
    case None
    then show ?thesis using Cons.IH [OF bounded_votes_tl [OF Cons.prems(1)]] Cons.prems(2) by simp
  next
    case (Some x)
    then show ?thesis using Cons.prems by (intro exI [of _ 0]) simp
  qed
qed simp


section \<open>The best of a part\<close>

lemma kth_count:
  assumes "0 < k" "k \<le> length xs"
  shows "k \<le> length (filter (\<lambda>s. f32_key (sort_key (\<lambda>s. - f32_key s) xs ! (k - 1)) \<le> f32_key s) xs)"
proof -
  define ys where "ys = sort_key (\<lambda>s. - f32_key s) xs"
  let ?P = "\<lambda>s. f32_key (ys ! (k - 1)) \<le> f32_key s"
  have len: "k \<le> length ys" using assms by (simp add: ys_def)
  have m: "mset (filter ?P xs) = mset (filter ?P ys)" by (simp add: ys_def)
  have sorted: "sorted (map (\<lambda>s. - f32_key s) ys)" by (simp add: ys_def)
  have "filter ?P (take k ys) = take k ys"
  proof (rule filter_True, rule ballI)
    fix x assume "x \<in> set (take k ys)"
    then obtain i where i: "i < k" "x = ys ! i" using len by (auto simp: in_set_conv_nth)
    have "map (\<lambda>s. - f32_key s) ys ! i \<le> map (\<lambda>s. - f32_key s) ys ! (k - 1)"
      using sorted i assms(1) len by (intro sorted_nth_mono) auto
    then show "?P x" using i assms(1) len by simp
  qed
  then have "take k ys = filter ?P (take k ys)" by simp
  then have "k \<le> length (filter ?P (take k ys @ drop k ys))" using len by (metis filter_append le_add1 length_append length_take min.absorb2)
  then have "k \<le> length (filter ?P ys)" by simp
  then show ?thesis using m by (metis size_mset ys_def)
qed

lemma take_rank_part:
  assumes ys: "distinct (map fst ys)" and xs: "distinct (map fst xs)" "set xs = {x \<in> set ys. P x}"
    and many: "k \<le> length (filter Q xs)"
    and less: "\<And>x y. x \<in> set xs \<Longrightarrow> Q x \<Longrightarrow> y \<in> set ys \<Longrightarrow> \<not> P y \<Longrightarrow> rank_key x < rank_key y"
  shows "take k (rank_sort ys) = take k (rank_sort xs)"
proof -
  define L where "L = rank_sort ys"
  have dys: "distinct ys" "distinct xs" using ys xs(1) by (simp_all add: distinct_map)
  have "distinct (map fst (filter P ys))" using ys by (induction ys) auto
  then have "rank_sort xs = rank_sort (filter P ys)" using xs by (intro rank_sort_perm) auto
  also have "\<dots> = filter P L" by (simp add: L_def rank_sort_def filter_sort)
  finally have part: "rank_sort xs = filter P L" .
  have sorted: "sorted (map rank_key L)" by (simp add: L_def rank_sort_sorted)
  have setL: "set L = set ys" by (simp add: L_def)
  have "card (set xs) \<le> card (set ys)" using xs(2) by (intro card_mono) auto
  then have "length xs \<le> length ys" using dys by (simp add: distinct_card)
  then have len: "k \<le> length L" unfolding L_def length_rank_sort using many length_filter_le [of Q xs] by linarith
  have first: "P (L ! j)" if "j < k" for j
  proof (rule ccontr)
    assume "\<not> P (L ! j)"
    moreover have j: "j < length L" using that len by simp
    ultimately have y: "L ! j \<in> set ys" "\<not> P (L ! j)" using setL by (metis nth_mem)+
    have "set (filter Q xs) \<subseteq> set (take j L)"
    proof
      fix x assume "x \<in> set (filter Q xs)"
      then have x: "x \<in> set xs" "Q x" by simp_all
      then have "x \<in> set L" using xs(2) setL by simp
      then obtain i where i: "i < length L" "x = L ! i" by (metis in_set_conv_nth)
      have "rank_key x < rank_key (L ! j)" by (rule less [OF x y])
      then have "i < j" using sorted_nth_mono [OF sorted, of j i] i j by (metis length_map linorder_not_le nth_map)
      then show "x \<in> set (take j L)" using i by (auto simp: in_set_conv_nth)
    qed
    then have "card (set (filter Q xs)) \<le> card (set (take j L))" by (intro card_mono) auto
    also have "\<dots> \<le> j" using card_length [of "take j L"] by simp
    finally have "length (filter Q xs) \<le> j" using distinct_card [of "filter Q xs"] dys(2) by (simp only: distinct_filter)
    then show False using many that by simp
  qed
  have "filter P (take k L) = take k L"
  proof (rule filter_True, rule ballI)
    fix x assume "x \<in> set (take k L)"
    then obtain i where "i < k" "x = L ! i" by (auto simp: in_set_conv_nth)
    then show "P x" using first by simp
  qed
  then have "filter P L = take k L @ filter P (drop k L)" by (metis append_take_drop_id filter_append)
  then have "take k (filter P L) = take k L" using len by simp
  then show ?thesis by (simp add: part L_def)
qed

section \<open>Pruning\<close>

text \<open>
  A table \<open>acc\<close> holds the votes of some terms, the k-th best of its scores is above the sum of the
  bounds of the others.  Completing the scores of the ids it has gives the same page as adding all votes.
\<close>

lemma pruned_page:
  assumes votes: "bounded_votes V ub ts" "bounded_votes V ub us" and ne: "us \<noteq> []"
    and acc: "acc = fold (\<lambda>t. add_votes (V t)) ts []"
    and k: "0 < k" "k \<le> length acc"
    and above: "f32_lt (f32_sum (map ub us)) (sort_key (\<lambda>s. - f32_key s) (map snd acc) ! (k - 1))"
    and fin: "map fst acc' = map fst acc" "\<And>i. i \<in> fst ` set acc \<Longrightarrow> map_of acc' i = ballot V us (map_of acc i) i"
  shows "take k (rank_sort (fold (\<lambda>t. add_votes (V t)) (ts @ us) [])) = take k (rank_sort acc')"
proof -
  define full where "full = fold (\<lambda>t. add_votes (V t)) (ts @ us) []"
  define kth where "kth = sort_key (\<lambda>s. - f32_key s) (map snd acc) ! (k - 1)"
  have dV: "\<forall>t \<in> set ts. distinct (map fst (V t))" "\<forall>t \<in> set us. distinct (map fst (V t))"
    using votes by (simp_all add: bounded_votes_def)
  have dacc: "distinct (map fst acc)" by (simp add: acc distinct_fold_votes)
  then have dacc': "distinct (map fst acc')" by (simp add: fin)
  have dfull: "distinct (map fst full)" unfolding full_def by (rule distinct_fold_votes) simp
  have full: "map_of full i = ballot V us (map_of acc i) i" for i
    unfolding full_def fold_append o_apply acc [symmetric] using dV(2) by (rule map_of_fold_votes)
  have accs: "map_of acc i = ballot V ts None i" for i unfolding acc using map_of_fold_votes [OF dV(1), of "[]"] by simp
  have pos: "f32_pos s" if "(i, s) \<in> set acc" for i s
  proof -
    have "map_of acc i = Some s" using that dacc by simp
    then have "ballot V ts None i = Some s" by (simp only: accs)
    then obtain z where "f32_pos z" "ballot V ts (Some z) i = Some s" using ballot_None [OF votes(1)] by blast
    then show ?thesis using ballot_grows [OF votes(1), of z i] by auto
  qed
  have kin: "kth \<in> snd ` set acc"
  proof -
    have "kth \<in> set (sort_key (\<lambda>s. - f32_key s) (map snd acc))" unfolding kth_def using k by (intro nth_mem) simp
    then show ?thesis by simp
  qed
  then have kpos: "f32_pos kth" using pos by auto
  have hd: "f32_pos (hd (map ub us))" using votes(2) ne by (cases us) (simp_all add: bounded_votes_def)
  have sum: "f32_sum (map ub us) = foldl f32_add 0 (map ub us)" by (rule f32_sum_pos) (use ne hd in simp_all)
  have keys: "fst ` set acc' = fst ` set acc" using fin(1) by (metis list.set_map)
  have same: "map_of acc' i = map_of full i" if "i \<in> fst ` set acc" for i using fin(2) [OF that] full by simp
  have keep: "y \<in> set acc'" if y: "y \<in> set full" "fst y \<in> fst ` set acc" for y
  proof -
    have "map_of full (fst y) = Some (snd y)" using y(1) dfull by simp
    then have "map_of acc' (fst y) = Some (snd y)" using same [OF y(2)] by simp
    then show ?thesis using map_of_SomeD by fastforce
  qed
  have sub: "x \<in> set full" if x: "x \<in> set acc'" for x
  proof -
    have "fst x \<in> fst ` set acc" using x keys by auto
    moreover have "map_of acc' (fst x) = Some (snd x)" using x dacc' by simp
    ultimately have "map_of full (fst x) = Some (snd x)" using same by simp
    then show ?thesis using map_of_SomeD by fastforce
  qed
  show ?thesis unfolding full_def [symmetric]
  proof (rule take_rank_part [OF dfull dacc'])
    show "set acc' = {x \<in> set full. x \<in> set acc'}" using sub by auto
    let ?Q = "\<lambda>x. f32_key kth \<le> f32_key (snd x)"
    have grown: "\<exists>s'. map_of acc' i = Some s' \<and> f32_key s \<le> f32_key s' \<and> f32_pos s'" if "(i, s) \<in> set acc" for i s
    proof -
      have "map_of acc' i = ballot V us (Some s) i" using fin(2) [of i] that dacc by force
      then show ?thesis using ballot_grows [OF votes(2) pos [OF that], of i] pos [OF that] by (auto simp: f32_pos_key)
    qed
    have "k \<le> length (filter (\<lambda>s. f32_key kth \<le> f32_key s) (map snd acc))"
      unfolding kth_def by (rule kth_count) (use k in simp_all)
    also have "\<dots> = length (filter ?Q acc)" by (simp add: filter_map o_def)
    also have "\<dots> = card (fst ` set (filter ?Q acc))"
      using distinct_card [OF distinct_map_filter [OF dacc], of ?Q] by (simp only: list.set_map length_map)
    also have "\<dots> \<le> card (fst ` set (filter ?Q acc'))"
    proof (rule card_mono)
      show "fst ` set (filter ?Q acc) \<subseteq> fst ` set (filter ?Q acc')"
        using grown dacc' by (force dest: map_of_SomeD)
    qed simp
    also have "\<dots> \<le> card (set (filter ?Q acc'))" by (rule card_image_le) simp
    also have "\<dots> \<le> length (filter ?Q acc')" by (rule card_length)
    finally show "k \<le> length (filter ?Q acc')" .
    fix x y assume x: "x \<in> set acc'" "?Q x" and y: "y \<in> set full" "y \<notin> set acc'"
    obtain i s where yi: "y = (i, s)" by (cases y)
    have "map_of acc i = None" using keep [OF y(1)] y(2) yi by (auto simp: map_of_eq_None_iff)
    then have "ballot V us None i = Some s" using full [of i] y(1) yi dfull by simp
    then obtain z where z: "f32_mag z = 0" "f32_pos z" "ballot V us (Some z) i = Some s" using ballot_None [OF votes(2)] by blast
    have spos: "f32_pos s" using ballot_grows [OF votes(2) z(2), of i] z(3) by auto
    note b = ballot_bounded [OF votes(2) z(2) f32_pos_0(1) _ z(3)]
    have "f32_mag s < f32_mag kth"
      using b above [folded kth_def, unfolded sum] z(1) kpos by (force simp: f32_pos_lt)
    then have "f32_key s < f32_key kth" using spos kpos by (simp add: f32_pos_key)
    then show "rank_key x < rank_key y" using x(2) yi by (simp add: rank_key_def less_prod_def')
  qed
qed

end
