(* ===== verification/LexicalProps.thy ===== *)
theory LexicalProps
  imports QueryPlane Votes StoreRuns
begin

text \<open>
  The max-score pruning of lexical search is exact: \<open>lexical_topk_blocking\<close> returns the page of the
  exhaustive scan of every query term.
\<close>

section \<open>The postings of a term\<close>

definition posting_of :: "bytes \<Rightarrow> posting" where
  "posting_of v = \<lparr>po_tf = of_nat (of_le (take 4 v)), po_len = of_nat (of_le (drop 4 v))\<rparr>"

text \<open>Every posting row of the terms is a binary one, of a document id that is text.\<close>

definition postings_clean :: "db \<Rightarrow> bytes list \<Rightarrow> bool" where
  "postings_clean db tms \<longleftrightarrow> db_ok db \<and>
     (\<forall>t \<in> set tms. \<forall>i v. get_cf db CfTerms (term_key t i) = Some v \<longrightarrow> length v = 8 \<and> utf8_valid i)"

lemma term_key_prefix: "term_key t i = term_prefix t @ i"
  by (simp add: term_key_def term_prefix_def compound_def key_prefix_def)

definition term_ids :: "db \<Rightarrow> bytes \<Rightarrow> (bytes \<times> posting) list" where
  "term_ids db t = map (\<lambda>(k, v). (drop (length (term_prefix t)) k, posting_of v)) (scan_cf db CfTerms (term_prefix t))"

lemma map_result_Inr: "\<forall>x \<in> set xs. f x = Inr (g x) \<Longrightarrow> map_result f xs = Inr (map g xs)"
  by (induction xs) simp_all

lemma term_row:
  assumes clean: "postings_clean db tms" and "t \<in> set tms" "(k, v) \<in> set (scan_cf db CfTerms (term_prefix t))"
  shows "k = term_prefix t @ drop (length (term_prefix t)) k" "length v = 8"
    "utf8_valid (drop (length (term_prefix t)) k)" "get_cf db CfTerms k = Some v"
proof -
  have ok: "db_ok db" using clean by (simp add: postings_clean_def)
  have g: "get_cf db CfTerms k = Some v" "prefix (term_prefix t) k" using assms(3) by (simp_all add: scan_cf_set [OF ok])
  then show k: "k = term_prefix t @ drop (length (term_prefix t)) k" by (auto simp: prefix_def)
  from g k show "length v = 8" "utf8_valid (drop (length (term_prefix t)) k)" "get_cf db CfTerms k = Some v"
    using clean assms(2) by (metis postings_clean_def term_key_prefix)+
qed

lemma scan_postings_ids:
  assumes clean: "postings_clean db tms" and "t \<in> set tms"
  shows "scan_postings E db t = Inr (term_ids db t)"
proof -
  have "id_rows db CfTerms (term_prefix t) = map (\<lambda>(k, v). (drop (length (term_prefix t)) k, v)) (scan_cf db CfTerms (term_prefix t))"
    unfolding id_rows_def using term_row(3) [OF assms] by (intro map_cong refl) (auto simp: case_prod_beta)
  moreover have "length v = 8" if "(k, v) \<in> set (scan_cf db CfTerms (term_prefix t))" for k v
    using term_row(2) [OF assms that] .
  ultimately show ?thesis unfolding scan_postings_def
    by (subst map_result_Inr [where g = "\<lambda>(i, v). (i, posting_of v)"])
      (auto simp: decode_posting_def posting_of_def term_ids_def o_def case_prod_beta)
qed

lemma term_ids_distinct:
  assumes clean: "postings_clean db tms" and "t \<in> set tms"
  shows "distinct (map fst (term_ids db t))"
proof -
  let ?p = "term_prefix t" and ?rows = "scan_cf db CfTerms (term_prefix t)"
  have ok: "db_ok db" using clean by (simp add: postings_clean_def)
  have "distinct (map fst ?rows)" using scan_cf_sorted [OF ok, of CfTerms ?p] strict_sorted_iff by blast
  moreover have "inj_on (drop (length ?p)) (set (map fst ?rows))"
  proof (rule inj_onI)
    fix k k' assume "k \<in> set (map fst ?rows)" "k' \<in> set (map fst ?rows)" "drop (length ?p) k = drop (length ?p) k'"
    then show "k = k'" using term_row(1) [OF assms] by (metis (no_types, lifting) imageE list.set_map prod.collapse)
  qed
  ultimately have "distinct (map (drop (length ?p)) (map fst ?rows))" by (simp only: distinct_map)
  then show ?thesis by (simp add: term_ids_def o_def case_prod_beta)
qed

lemma map_of_term_ids:
  assumes clean: "postings_clean db tms" and "t \<in> set tms"
  shows "map_of (term_ids db t) i = map_option posting_of (get_cf db CfTerms (term_key t i))"
proof -
  have ok: "db_ok db" using clean by (simp add: postings_clean_def)
  have "map_of (term_ids db t) i = Some p \<longleftrightarrow> map_option posting_of (get_cf db CfTerms (term_key t i)) = Some p" for p
  proof -
    have "map_of (term_ids db t) i = Some p \<longleftrightarrow> (i, p) \<in> set (term_ids db t)"
      using term_ids_distinct [OF assms] by simp
    also have "\<dots> \<longleftrightarrow> (\<exists>v. (term_key t i, v) \<in> set (scan_cf db CfTerms (term_prefix t)) \<and> p = posting_of v)"
      unfolding term_ids_def term_key_prefix using term_row(1) [OF assms] by (force simp: image_iff)
    also have "\<dots> \<longleftrightarrow> (\<exists>v. get_cf db CfTerms (term_key t i) = Some v \<and> p = posting_of v)"
      by (simp add: scan_cf_set [OF ok] term_key_prefix)
    finally show ?thesis by auto
  qed
  then show ?thesis by (metis option.exhaust)
qed

section \<open>The scan and the completion\<close>

definition term_votes :: "recall_env \<Rightarrow> db \<Rightarrow> f32 \<Rightarrow> term_info \<Rightarrow> scored" where
  "term_votes E db avgdl info =
     (case info of (t, idf, ub) \<Rightarrow> map (\<lambda>(i, p). (i, bm25_term (rc_params E) idf p avgdl)) (term_ids db t))"

abbreviation bound_of :: "term_info \<Rightarrow> f32" where
  "bound_of info \<equiv> snd (snd info)"

lemma add_postings_votes:
  assumes "postings_clean db tms" "t \<in> set tms"
  shows "add_postings E db avgdl t idf acc = Inr (add_votes (term_votes E db avgdl (t, idf, ub)) acc)"
  by (simp add: add_postings_def scan_postings_ids [OF assms] term_votes_def)

text \<open>The exhaustive accumulation, which the pruned one is compared with.\<close>

fun scan_all_terms :: "recall_env \<Rightarrow> db \<Rightarrow> f32 \<Rightarrow> term_info list \<Rightarrow> scored \<Rightarrow> store_error + scored" where
  "scan_all_terms E db avgdl [] acc = Inr acc"
| "scan_all_terms E db avgdl ((t, idf, ub) # r) acc =
     bind_result (add_postings E db avgdl t idf acc) (scan_all_terms E db avgdl r)"

lemma scan_all_votes:
  assumes "postings_clean db tms"
  shows "fst ` set infos \<subseteq> set tms \<Longrightarrow>
    scan_all_terms E db avgdl infos acc = Inr (fold (\<lambda>t. add_votes (term_votes E db avgdl t)) infos acc)"
proof (induction infos arbitrary: acc)
  case (Cons info r)
  obtain t idf ub where info: "info = (t, idf, ub)" by (cases info)
  then have "t \<in> set tms" using Cons.prems by simp
  with Cons show ?case by (simp add: info add_postings_votes [OF assms, where ub = ub])
qed simp

lemma scan_terms_split:
  assumes clean: "postings_clean db tms" and "fst ` set infos \<subseteq> set tms" "0 < k"
    and "acc = fold (\<lambda>t. add_votes (term_votes E db avgdl t)) pre []"
    and "k \<le> length acc \<longrightarrow> flr = kth_best k acc"
  shows "\<exists>mid tl acc'. infos = mid @ tl \<and> scan_terms E db avgdl k infos acc flr = Inr (acc', tl) \<and>
    acc' = fold (\<lambda>t. add_votes (term_votes E db avgdl t)) (pre @ mid) [] \<and>
    (tl \<noteq> [] \<longrightarrow> k \<le> length acc' \<and> f32_lt (f32_sum (map bound_of tl)) (kth_best k acc'))"
  using assms(2-)
proof (induction infos arbitrary: acc flr pre)
  case Nil
  then show ?case by simp
next
  case (Cons info r)
  obtain t idf ub where info: "info = (t, idf, ub)" by (cases info)
  have b: "map (\<lambda>(t, idf, ub). ub) (info # r) = map bound_of (info # r)" by (simp add: case_prod_beta)
  show ?case
  proof (cases "k \<le> length acc \<and> f32_lt (f32_sum (map (\<lambda>(t, idf, ub). ub) (info # r))) flr")
    case True
    then have "scan_terms E db avgdl k (info # r) acc flr = Inr (acc, info # r)" by (simp add: info)
    then show ?thesis using True Cons.prems unfolding b by (intro exI [of _ "[]"] exI [of _ "info # r"] exI [of _ acc]) simp
  next
    case False
    let ?acc = "add_votes (term_votes E db avgdl info) acc" and ?flr = "\<lambda>a. if k \<le> length a then kth_best k a else flr"
    have t: "t \<in> set tms" using Cons.prems(1) info by simp
    have step: "scan_terms E db avgdl k (info # r) acc flr = scan_terms E db avgdl k r ?acc (?flr ?acc)"
      using False unfolding info
      by (simp only: scan_terms.simps if_False add_postings_votes [OF clean t, where ub = ub] bind_result_simps)
    have "\<exists>mid tl acc'. r = mid @ tl \<and> scan_terms E db avgdl k r ?acc (?flr ?acc) = Inr (acc', tl) \<and>
      acc' = fold (\<lambda>t. add_votes (term_votes E db avgdl t)) ((pre @ [info]) @ mid) [] \<and>
      (tl \<noteq> [] \<longrightarrow> k \<le> length acc' \<and> f32_lt (f32_sum (map bound_of tl)) (kth_best k acc'))"
      using Cons.prems by (intro Cons.IH) simp_all
    then obtain mid tl acc' where "r = mid @ tl" "scan_terms E db avgdl k r ?acc (?flr ?acc) = Inr (acc', tl)"
      "acc' = fold (\<lambda>t. add_votes (term_votes E db avgdl t)) (pre @ info # mid) []"
      "tl \<noteq> [] \<longrightarrow> k \<le> length acc' \<and> f32_lt (f32_sum (map bound_of tl)) (kth_best k acc')" by auto
    then show ?thesis unfolding step by (intro exI [of _ "info # mid"] exI [of _ tl] exI [of _ acc']) simp
  qed
qed

lemma scan_terms_start:
  assumes "postings_clean db tms" "fst ` set infos \<subseteq> set tms" "0 < k"
  shows "\<exists>mid tl acc'. infos = mid @ tl \<and> scan_terms E db avgdl k infos [] 0 = Inr (acc', tl) \<and>
    acc' = fold (\<lambda>t. add_votes (term_votes E db avgdl t)) mid [] \<and>
    (tl \<noteq> [] \<longrightarrow> k \<le> length acc' \<and> f32_lt (f32_sum (map bound_of tl)) (kth_best k acc'))"
  using scan_terms_split [OF assms, where acc = "[]" and pre = "[]" and flr = 0] assms(3) by simp

lemma map_of_term_votes:
  assumes "postings_clean db tms" "t \<in> set tms"
  shows "map_of (term_votes E db avgdl (t, idf, ub)) i =
    map_option (\<lambda>v. bm25_term (rc_params E) idf (posting_of v) avgdl) (get_cf db CfTerms (term_key t i))"
proof -
  have "map_of (map (\<lambda>(i, p). (i, f p)) xs) i = map_option f (map_of xs i)" for f :: "posting \<Rightarrow> f32" and xs
    by (induction xs) auto
  then show ?thesis by (simp add: term_votes_def map_of_term_ids [OF assms] option.map_comp o_def)
qed

lemma complete_tail_votes:
  assumes clean: "postings_clean db tms" and "fst ` set infos \<subseteq> set tms"
  shows "\<exists>acc'. complete_tail E db avgdl infos acc = Inr acc' \<and> map fst acc' = map fst acc \<and>
    (distinct (map fst acc) \<longrightarrow> (\<forall>i \<in> fst ` set acc. map_of acc' i = ballot (term_votes E db avgdl) infos (map_of acc i) i))"
  using assms(2)
proof (induction infos arbitrary: acc)
  case (Cons info r)
  obtain t idf ub where info: "info = (t, idf, ub)" by (cases info)
  have t: "t \<in> set tms" using Cons.prems info by simp
  define f where "f = (\<lambda>x. (fst x, the (cast_vote (map_of (term_votes E db avgdl info) (fst x)) (Some (snd x)))))"
  have f: "complete_score E db avgdl info x = Inr (f x)" for x
  proof (cases "get_cf db CfTerms (term_key t (fst x))")
    case (Some v)
    then have "length v = 8" using clean t by (simp add: postings_clean_def)
    then have "decode_posting E v = Inr (posting_of v)" by (simp add: decode_posting_def posting_of_def)
    then show ?thesis using Some
      by (cases x) (simp add: complete_score_def info f_def map_of_term_votes [OF clean t])
  qed (cases x, simp add: complete_score_def info f_def map_of_term_votes [OF clean t])
  then have step: "complete_tail E db avgdl (info # r) acc = complete_tail E db avgdl r (map f acc)"
    by (simp add: map_result_Inr [where g = f])
  have fst: "map fst (map f acc) = map fst acc" by (simp add: f_def)
  have val: "map_of (map f acc) i = cast_vote (map_of (term_votes E db avgdl info) i) (map_of acc i)" if "i \<in> fst ` set acc" for i
  proof -
    have "map_of (map f acc) i = map_option (\<lambda>s. the (cast_vote (map_of (term_votes E db avgdl info) i) (Some s))) (map_of acc i)"
      by (induction acc) (auto simp: f_def)
    then show ?thesis using that by (auto simp: cast_vote_def split: option.splits) (metis map_of_eq_None_iff image_eqI fst_conv option.distinct(1))+
  qed
  obtain acc' where acc': "complete_tail E db avgdl r (map f acc) = Inr acc'" "map fst acc' = map fst (map f acc)"
    "distinct (map fst (map f acc)) \<longrightarrow>
      (\<forall>i \<in> fst ` set (map f acc). map_of acc' i = ballot (term_votes E db avgdl) r (map_of (map f acc) i) i)"
    using Cons.IH [of "map f acc"] Cons.prems by auto
  have "fst ` set (map f acc) = fst ` set acc" using fst by (metis list.set_map)
  then show ?case using acc' val unfolding step fst by simp
qed simp

section \<open>Pruning is exact\<close>

definition average_length :: "db \<Rightarrow> f32" where
  "average_length db =
     f32_max (f32_div (f32_of_nat (unat (get_u64 db META_TOTAL_TOKENS))) (f32_of_nat (unat (get_u64 db META_DOC_COUNT)))) f32_one"

definition query_infos :: "recall_env \<Rightarrow> db \<Rightarrow> bytes list \<Rightarrow> term_info list" where
  "query_infos E db tms = bound_sort (term_infos E db (f32_of_nat (unat (get_u64 db META_DOC_COUNT))) [] tms)"

text \<open>The search without pruning: every posting of every term is added.\<close>

definition lexical_exhaustive :: "recall_env \<Rightarrow> db \<Rightarrow> bytes list \<Rightarrow> nat \<Rightarrow> store_error + candidate list" where
  "lexical_exhaustive E db tms k =
     (if get_cf db CfMeta META_LEXSTATS = None then lexical_blocking E db tms k
      else if get_u64 db META_DOC_COUNT = 0 \<or> k = 0 then Inr []
      else bind_result (scan_all_terms E db (average_length db) (query_infos E db tms) []) (\<lambda>acc.
             Inr (to_candidates (take k (rank_sort acc)))))"

text \<open>
  What the pruning relies on: a posting contributes a non-negative float, at most the bound of its term
  (\<open>idf * (k1 + 1)\<close>, the limit of the contribution as the term frequency grows).
\<close>

definition bounds_hold :: "recall_env \<Rightarrow> db \<Rightarrow> bytes list \<Rightarrow> bool" where
  "bounds_hold E db tms \<longleftrightarrow>
     (\<forall>(t, idf, ub) \<in> set (query_infos E db tms). f32_pos ub \<and>
        (\<forall>i v. get_cf db CfTerms (term_key t i) = Some v \<longrightarrow>
           f32_pos (bm25_term (rc_params E) idf (posting_of v) (average_length db)) \<and>
           f32_mag (bm25_term (rc_params E) idf (posting_of v) (average_length db)) \<le> f32_mag ub))"

lemma term_infos_terms: "fst ` set (term_infos E db n used ts) \<subseteq> set ts"
  by (induction ts arbitrary: used) (auto simp: Let_def)

lemma query_infos_terms: "fst ` set (query_infos E db tms) \<subseteq> set tms"
  using term_infos_terms by (simp add: query_infos_def bound_sort_def)

lemma bounds_hold_votes:
  assumes clean: "postings_clean db tms" and bounds: "bounds_hold E db tms"
    and infos: "set infos \<subseteq> set (query_infos E db tms)"
  shows "bounded_votes (term_votes E db (average_length db)) bound_of infos"
  unfolding bounded_votes_def
proof (intro ballI conjI)
  fix info assume "info \<in> set infos"
  then have q: "info \<in> set (query_infos E db tms)" using infos by blast
  obtain t idf ub where info: "info = (t, idf, ub)" by (cases info)
  have t: "t \<in> set tms" using q query_infos_terms [of E db tms] info by force
  have d: "distinct (map fst (term_votes E db (average_length db) info))"
    using term_ids_distinct [OF clean t] by (simp add: term_votes_def info o_def case_prod_beta)
  then show "distinct (map fst (term_votes E db (average_length db) info))" .
  have b: "f32_pos ub" "\<And>i v. get_cf db CfTerms (term_key t i) = Some v \<Longrightarrow>
      f32_pos (bm25_term (rc_params E) idf (posting_of v) (average_length db)) \<and>
      f32_mag (bm25_term (rc_params E) idf (posting_of v) (average_length db)) \<le> f32_mag ub"
    using bounds q info unfolding bounds_hold_def by fast+
  then show "f32_pos (bound_of info)" by (simp add: info)
  fix x assume "x \<in> snd ` set (term_votes E db (average_length db) info)"
  then obtain i where "(i, x) \<in> set (term_votes E db (average_length db) info)" by auto
  then have "map_of (term_votes E db (average_length db) info) i = Some x" using d by simp
  then have "f32_pos x \<and> f32_mag x \<le> f32_mag ub" using b(2) by (auto simp: info map_of_term_votes [OF clean t])
  then show "f32_pos x" "f32_mag x \<le> f32_mag (bound_of info)" by (simp_all add: info)
qed

text \<open>C9: lexical search skips the postings of common terms once no unseen document can reach the page,
  and completes the accumulated scores by point lookups; its page is the page of the exhaustive search,
  float for float.\<close>

theorem lexical_pruning_exact:
  assumes clean: "postings_clean db tms" and bounds: "bounds_hold E db tms"
  shows "lexical_topk_blocking E db tms k = lexical_exhaustive E db tms k \<and>
    (\<exists>cs. lexical_topk_blocking E db tms k = Inr cs)"
proof -
  let ?infos = "query_infos E db tms" and ?avg = "average_length db" and ?n = "get_u64 db META_DOC_COUNT"
  let ?V = "term_votes E db ?avg"
  consider "get_cf db CfMeta META_LEXSTATS = None" | "get_cf db CfMeta META_LEXSTATS \<noteq> None" "?n = 0 \<or> k = 0"
    | "get_cf db CfMeta META_LEXSTATS \<noteq> None" "?n \<noteq> 0" "0 < k" by blast
  then show ?thesis
  proof cases
    case 1
    have "map_result (\<lambda>t. bind_result (scan_postings E db t) (\<lambda>ps. Inr (t, ps))) tms = Inr (map (\<lambda>t. (t, term_ids db t)) tms)"
      by (rule map_result_Inr) (simp add: scan_postings_ids [OF clean])
    then show ?thesis using 1 by (simp add: lexical_topk_blocking_def lexical_exhaustive_def lexical_blocking_def Let_def)
  next
    case 2
    then show ?thesis by (auto simp: lexical_topk_blocking_def lexical_exhaustive_def)
  next
    case 3
    let ?full = "fold (\<lambda>t. add_votes (?V t)) ?infos []"
    have ex: "lexical_exhaustive E db tms k = Inr (to_candidates (take k (rank_sort ?full)))"
      using 3 by (auto simp: lexical_exhaustive_def scan_all_votes [OF clean query_infos_terms])
    have top: "lexical_topk_blocking E db tms k =
      (if ?infos = [] then Inr [] else bind_result (scan_terms E db ?avg k ?infos [] 0) (\<lambda>(acc, tail).
         bind_result (complete_tail E db ?avg tail acc) (\<lambda>acc'. Inr (to_candidates (take k (rank_sort acc'))))))"
      using 3 by (auto simp: lexical_topk_blocking_def query_infos_def average_length_def Let_def)
    from scan_terms_start [OF clean query_infos_terms [of E db tms] 3(3), of E ?avg]
    obtain mid tl acc where split: "?infos = mid @ tl" "scan_terms E db ?avg k ?infos [] 0 = Inr (acc, tl)"
      "acc = fold (\<lambda>t. add_votes (?V t)) mid []"
      "tl \<noteq> [] \<longrightarrow> k \<le> length acc \<and> f32_lt (f32_sum (map bound_of tl)) (kth_best k acc)"
      by blast
    have sub: "fst ` set tl \<subseteq> set tms" using query_infos_terms [of E db tms] split(1) by auto
    obtain acc' where tail: "complete_tail E db ?avg tl acc = Inr acc'" "map fst acc' = map fst acc"
      "distinct (map fst acc) \<longrightarrow> (\<forall>i \<in> fst ` set acc. map_of acc' i = ballot ?V tl (map_of acc i) i)"
      using complete_tail_votes [OF clean sub] by blast
    have dacc: "distinct (map fst acc)" unfolding split(3) by (rule distinct_fold_votes) simp
    have "take k (rank_sort ?full) = take k (rank_sort acc')"
    proof (cases "tl = []")
      case True
      then show ?thesis using tail split by simp
    next
      case False
      have "bounded_votes ?V bound_of mid" "bounded_votes ?V bound_of tl"
        using split(1) by (auto intro!: bounds_hold_votes [OF clean bounds])
      from pruned_page [OF this False split(3) 3(3) _ _ tail(2)] False split(4) tail(3) dacc
      show ?thesis unfolding split(1) kth_best_def by blast
    qed
    then have "lexical_topk_blocking E db tms k = Inr (to_candidates (take k (rank_sort ?full))) \<or> ?infos = []"
      unfolding top split(2) by (simp add: tail(1))
    then show ?thesis using ex top by (auto simp: to_candidates_def)
  qed
qed

text \<open>One document of two tokens, one posting, statistics on; a logarithm that is one everywhere.\<close>

definition lexical_env :: recall_env where
  "lexical_env =
     \<lparr>rc_serde = sample_serde, rc_posting_of = \<lambda>_. None, rc_analyze = sample_words, rc_highlight = \<lambda>_ _. [],
      rc_ln = \<lambda>_. f32_one, rc_hav = \<lambda>_ _ _ _. f64_zero, rc_bbox = \<lambda>_ _ _. ((f64_zero, f64_zero), (f64_zero, f64_zero)),
      rc_params = bm25_default, rc_ann = \<lparr>av_len = 0, av_search = \<lambda>_ _ _. [], av_search_filtered = \<lambda>_ _ _ _. []\<rparr>,
      rc_quantizer = QNone, rc_quotas = quotas_strict\<rparr>"

definition lexical_posting :: bytes where
  "lexical_posting = [CHR 0x01, CHR 0x00, CHR 0x00, CHR 0x00, CHR 0x02, CHR 0x00, CHR 0x00, CHR 0x00]"

definition lexical_db :: db where
  "lexical_db =
     put_cf (put_cf (put_cf (put_cf (put_cf (\<lambda>_. []) CfMeta META_LEXSTATS []) CfMeta META_DOC_COUNT (u64_le 1))
       CfMeta META_TOTAL_TOKENS (u64_le 2)) CfTdf ''cat'' (i64_le 1)) CfTerms (term_key ''cat'' ''a'') lexical_posting"

lemma lexical_db_get: "db_ok lexical_db"
  "get_cf lexical_db c k =
     (if c = CfTerms \<and> k = term_key ''cat'' ''a'' then Some lexical_posting
      else if c = CfTdf \<and> k = ''cat'' then Some (i64_le 1)
      else if c = CfMeta \<and> k = META_TOTAL_TOKENS then Some (u64_le 2)
      else if c = CfMeta \<and> k = META_DOC_COUNT then Some (u64_le 1)
      else if c = CfMeta \<and> k = META_LEXSTATS then Some [] else None)"
proof -
  have e: "db_ok (\<lambda>_. [])" "get_cf (\<lambda>_. []) c k = None" by (simp_all add: db_ok_def rows_ok_def get_cf_def row_get_def)
  show "db_ok lexical_db" by (simp add: lexical_db_def e)
  show "get_cf lexical_db c k =
     (if c = CfTerms \<and> k = term_key ''cat'' ''a'' then Some lexical_posting
      else if c = CfTdf \<and> k = ''cat'' then Some (i64_le 1)
      else if c = CfMeta \<and> k = META_TOTAL_TOKENS then Some (u64_le 2)
      else if c = CfMeta \<and> k = META_DOC_COUNT then Some (u64_le 1)
      else if c = CfMeta \<and> k = META_LEXSTATS then Some [] else None)"
    by (simp add: lexical_db_def e)
qed

lemma lexical_values:
  "average_length lexical_db = 0x40000000" "posting_of lexical_posting = \<lparr>po_tf = 1, po_len = 2\<rparr>"
  "bm25_idf (\<lambda>_. f32_one) n d = f32_one" "f32_mul f32_one (f32_add 0x3F99999A f32_one) = 0x400CCCCD"
  "bm25_term bm25_default f32_one \<lparr>po_tf = 1, po_len = 2\<rparr> 0x40000000 = 0x3F800000"
proof -
  have n: "f32_of_nat 1 = 0x3F800000" "f32_of_nat 2 = 0x40000000" by (simp_all add: f32_of_nat_def f32_eval)
  have c: "get_u64 lexical_db META_TOTAL_TOKENS = 2" "get_u64 lexical_db META_DOC_COUNT = 1"
    by (simp_all add: get_u64_def lexical_db_get meta_key_defs)
  have d: "f32_div 0x40000000 0x3F800000 = 0x40000000" by (simp add: f32_div_def f32_eval)
  have m: "f32_max 0x40000000 f32_one = 0x40000000" "f32_max f32_one 0 = f32_one" by (simp_all add: f32_max_def f32_one_def f32_eval)
  show "average_length lexical_db = 0x40000000" using n d m by (simp add: average_length_def c)
  show "posting_of lexical_posting = \<lparr>po_tf = 1, po_len = 2\<rparr>" by (simp add: posting_of_def lexical_posting_def of_le_def of_be_def byte_val_def)
  show "bm25_idf (\<lambda>_. f32_one) n d = f32_one" by (simp add: bm25_idf_def m)
  have a: "f32_add 0x3F99999A f32_one = 0x400CCCCD" by (simp add: f32_add_def f32_one_def f32_eval)
  show "f32_mul f32_one (f32_add 0x3F99999A f32_one) = 0x400CCCCD" unfolding a by (simp add: f32_mul_def f32_one_def f32_eval)
  have "f32_sub f32_one 0x3F400000 = 0x3E800000" by (simp add: f32_sub_def f32_neg_def f32_add_def f32_one_def f32_eval)
  moreover have "f32_mul 0x3F400000 0x40000000 = 0x3FC00000" "f32_mul 0x3F99999A 0x3F800000 = 0x3F99999A"
    "f32_mul 0x3F800000 0x400CCCCD = 0x400CCCCD" by (simp_all add: f32_mul_def f32_eval)
  moreover have "f32_div 0x3FC00000 0x40000000 = 0x3F400000" "f32_div 0x400CCCCD 0x400CCCCD = 0x3F800000"
    by (simp_all add: f32_div_def f32_eval)
  moreover have "f32_add 0x3E800000 0x3F400000 = 0x3F800000" "f32_add 0x3F800000 0x3F99999A = 0x400CCCCD"
    by (simp_all add: f32_add_def f32_eval)
  ultimately show "bm25_term bm25_default f32_one \<lparr>po_tf = 1, po_len = 2\<rparr> 0x40000000 = 0x3F800000"
    using n a by (simp add: bm25_term_def bm25_default_def f32_one_def)
qed

theorem lexical_pruning_exact_witness:
  "lexical_topk_blocking lexical_env lexical_db [''cat''] 1 = lexical_exhaustive lexical_env lexical_db [''cat''] 1 \<and>
   query_infos lexical_env lexical_db [''cat''] = [(''cat'', f32_one, 0x400CCCCD)]"
proof -
  have row: "get_cf lexical_db CfTerms (term_key ''cat'' i) = Some v \<longleftrightarrow> i = ''a'' \<and> v = lexical_posting" for i v
    by (auto simp: lexical_db_get term_key_prefix)
  have "utf8_valid ''a''" by code_simp
  then have clean: "postings_clean lexical_db [''cat'']"
    by (simp add: postings_clean_def lexical_db_get(1) row) (simp add: lexical_posting_def)
  have df: "term_df lexical_db ''cat'' = 1"
    by (simp add: term_df_def lexical_db_get read_i64_def i64_le_def)
  have infos: "query_infos lexical_env lexical_db [''cat''] = [(''cat'', f32_one, 0x400CCCCD)]"
    using lexical_values(3,4) by (simp add: query_infos_def bound_sort_def df lexical_env_def bm25_default_def Let_def)
  have "bounds_hold lexical_env lexical_db [''cat'']"
    unfolding bounds_hold_def infos
    by (simp add: row lexical_values lexical_env_def) (simp add: f32_pos_def f32_eval)
  from lexical_pruning_exact [OF clean this] infos show ?thesis by blast
qed

end
