(* ===== verification/SearchProps.thy ===== *)
theory SearchProps
  imports LexicalProps FilterProps
begin

text \<open>
  What a query answers: documents of the estate only, inside the scope, the collection and the filter,
  above the threshold and at most the page asked for.
\<close>

section \<open>Fused ids\<close>

lemma fold_votes_keys:
  assumes "\<And>li x. fst ` set (W li x) \<subseteq> ids x"
  shows "fst ` set (fold (\<lambda>(li, x) acc. if C li x then acc else add_votes (W li x) acc) xs acc) \<subseteq>
    fst ` set acc \<union> \<Union> (ids ` snd ` set xs)"
proof (induction xs arbitrary: acc)
  case (Cons y xs)
  obtain li x where y: "y = (li, x)" by (cases y)
  show ?case
  proof (cases "C li x")
    case True
    then show ?thesis using Cons.IH [of acc] by (auto simp: y)
  next
    case False
    have "fst ` set (fold (\<lambda>(li, x) acc. if C li x then acc else add_votes (W li x) acc) xs (add_votes (W li x) acc)) \<subseteq>
        (fst ` set (W li x) \<union> fst ` set acc) \<union> \<Union> (ids ` snd ` set xs)"
      using Cons.IH [of "add_votes (W li x) acc"] by simp
    also have "\<dots> \<subseteq> (ids x \<union> fst ` set acc) \<union> \<Union> (ids ` snd ` set xs)" using assms [of li x] by blast
    finally show ?thesis using False by (simp add: y Un_commute Un_left_commute Un_assoc)
  qed
qed simp

lemma fuse_keys:
  "fst ` set (fuse mode [a, b] ws k) \<subseteq> fst ` set a \<union> fst ` set b"
proof -
  have e: "snd ` set (enumerate 0 [x, y]) = {x, y}" for x y :: 'a by (simp add: enumerate_eq_zip)
  have r: "fst ` set (rrf_votes w k ids) \<subseteq> set ids" for w ids
    by (auto simp: rrf_votes_def enumerate_eq_zip dest: set_zip_rightD)
  have d: "fst ` set (dbsf_votes w l) \<subseteq> fst ` set l" for w l by (force simp: dbsf_votes_def Let_def)
  show ?thesis
  proof (cases mode)
    case Rrf
    have "fst ` set (fuse mode [a, b] ws k) \<subseteq> \<Union> (set ` snd ` set (enumerate 0 [map fst a, map fst b]))"
      using fold_votes_keys [where W = "\<lambda>li. rrf_votes (weight_at ws li) k" and ids = set and C = "\<lambda>li x. f32_eq (weight_at ws li) 0"
          and xs = "enumerate 0 [map fst a, map fst b]" and acc = "[]"] r
      by (simp add: Rrf fuse_def rrf_weighted_def Let_def)
    then show ?thesis unfolding e by simp
  next
    case Dbsf
    have "fst ` set (fuse mode [a, b] ws k) \<subseteq> \<Union> ((\<lambda>l. fst ` set l) ` snd ` set (enumerate 0 [a, b]))"
      using fold_votes_keys [where W = "\<lambda>li. dbsf_votes (weight_at ws li)" and ids = "\<lambda>l. fst ` set l"
          and C = "\<lambda>li x. f32_eq (weight_at ws li) 0 \<or> x = []" and xs = "enumerate 0 [a, b]" and acc = "[]"] d
      by (simp add: Dbsf fuse_def dbsf_def Let_def)
    then show ?thesis unfolding e by simp
  qed
qed

lemma rrf_keys: "fst ` set (rrf [a, b] k) \<subseteq> set a \<union> set b"
  using fuse_keys [of Rrf "map (\<lambda>i. (i, 0)) a" "map (\<lambda>i. (i, 0)) b" "[]" k]
  by (simp add: fuse_def rrf_def image_image o_def)

section \<open>The estate a search reads\<close>

text \<open>Rows of postings, vectors and named vectors belong to documents, which carry their own ids.\<close>

definition search_view :: "recall_env \<Rightarrow> db \<Rightarrow> docs \<Rightarrow> bool" where
  "search_view E db D \<longleftrightarrow>
     db_ok db \<and> docs_of (rc_serde E) (get_cf db) D \<and>
     (\<forall>i d. D i = Some d \<longrightarrow> sd_id d = i \<and> utf8_valid i) \<and>
     (\<forall>t i. get_cf db CfTerms (term_prefix t @ i) \<noteq> None \<longrightarrow> i \<in> dom D) \<and>
     (\<forall>sp i. get_cf db CfNvecs (nvec_prefix sp @ i) \<noteq> None \<longrightarrow> i \<in> dom D) \<and>
     (\<forall>i. get_cf db CfVecs i \<noteq> None \<longrightarrow> i \<in> dom D)"

text \<open>The index families of \<open>estate_of\<close> give it, when no token and no space name holds a separator.\<close>

lemma one_sep:
  assumes "p @ SEP # i = q @ SEP # j" "SEP \<notin> set p" "SEP \<notin> set i"
  shows "p = q \<and> i = j"
proof -
  from assms(1) obtain us where "p = q @ us \<and> us @ SEP # i = SEP # j \<or> p @ us = q \<and> SEP # i = us @ SEP # j"
    by (auto simp: append_eq_append_conv2)
  then show ?thesis using assms(2,3) by (cases us) auto
qed

lemma estate_search_view:
  assumes est: "estate_of (rc_serde E) (rc_analyze E) fs db D"
    and docs: "\<And>i d. D i = Some d \<Longrightarrow> sd_id d = i \<and> utf8_valid i \<and>
      (\<forall>t \<in> set (rc_analyze E (sd_text d)) \<union> set (sd_named_spaces d). SEP \<notin> set t)"
    and vecs: "\<And>i. get_cf db CfVecs i \<noteq> None \<Longrightarrow> i \<in> dom D"
  shows "search_view E db D"
proof -
  have v: "db_ok db" "docs_of (rc_serde E) (get_cf db) D" "ids_clean D"
    "family_of (term_rows (rc_analyze E)) (get_cf db CfTerms) D" "family_of nvec_rows (get_cf db CfNvecs) D"
    using est by (simp_all add: estate_of_def view_of_def)
  have "i \<in> dom D" if row: "get_cf db CfTerms (term_prefix t @ i) \<noteq> None" for t i
  proof -
    obtain j d u where j: "D j = Some d" "u \<in> set (rc_analyze E (sd_text d))" "term_prefix t @ i = term_key u j"
      using v(4) row unfolding family_of_def term_rows_def by blast
    have "u @ SEP # j = t @ SEP # i" using j(3) by (simp add: term_key_prefix term_prefix_def key_prefix_def)
    moreover have "SEP \<notin> set u" "SEP \<notin> set j" using docs [OF j(1)] j v(3) by (auto simp: ids_clean_def)
    ultimately show ?thesis using one_sep [of u j t i] j(1) by auto
  qed
  moreover have "i \<in> dom D" if row: "get_cf db CfNvecs (nvec_prefix sp @ i) \<noteq> None" for sp i
  proof -
    obtain j d u where j: "D j = Some d" "u \<in> set (sd_named_spaces d)" "nvec_prefix sp @ i = nvec_key u j"
      using v(5) row unfolding family_of_def nvec_rows_def by blast
    have "u @ SEP # j = sp @ SEP # i" using j(3) by (simp add: nvec_key_def compound_def nvec_prefix_def key_prefix_def)
    moreover have "SEP \<notin> set u" "SEP \<notin> set j" using docs [OF j(1)] j v(3) by (auto simp: ids_clean_def)
    ultimately show ?thesis using one_sep [of u j sp i] j(1) by auto
  qed
  ultimately show ?thesis using v vecs docs by (simp add: search_view_def)
qed

section \<open>Candidates that are documents\<close>

text \<open>A document of the estate, inside the allowed ids, whose payload is the document's where it has one.\<close>

definition from_docs :: "docs \<Rightarrow> bytes set option \<Rightarrow> candidate \<Rightarrow> bool" where
  "from_docs D A c \<longleftrightarrow>
     (\<exists>d. D (cd_id c) = Some d \<and> (cd_metadata c = [] \<or> cd_metadata c = sd_metadata d) \<and>
        (cd_text c = [] \<or> cd_text c = sd_text d)) \<and>
     (\<forall>ids. A = Some ids \<longrightarrow> cd_id c \<in> ids)"

lemma from_docs_new: "from_docs D A (candidate_new i [] s) \<longleftrightarrow> i \<in> dom D \<and> (\<forall>ids. A = Some ids \<longrightarrow> i \<in> ids)"
  by (auto simp: from_docs_def candidate_new_def)

lemma from_docs_hydrated:
  "D (sd_id d) = Some d \<Longrightarrow> (\<And>ids. A = Some ids \<Longrightarrow> sd_id d \<in> ids) \<Longrightarrow> from_docs D A (hydrated d s)"
  by (auto simp: from_docs_def hydrated_def candidate_new_def)

lemma bind_result_Inr: "bind_result r f = Inr y \<longleftrightarrow> (\<exists>x. r = Inr x \<and> f x = Inr y)"
  by (cases r) simp_all

lemma lift_err_Inr [simp]: "lift_err r = Inr x \<longleftrightarrow> r = Inr x"
  by (cases r) (simp_all add: lift_err_def)

lemma map_result_set:
  assumes "map_result f xs = Inr ys"
  shows "\<forall>y \<in> set ys. \<exists>x \<in> set xs. f x = Inr y" "length ys = length xs"
proof -
  show "\<forall>y \<in> set ys. \<exists>x \<in> set xs. f x = Inr y"
    using assms by (induction xs arbitrary: ys) (simp, fastforce simp: bind_result_Inr)
  show "length ys = length xs"
    using assms by (induction xs arbitrary: ys) (auto simp: bind_result_Inr)
qed

lemma search_view_doc:
  assumes "search_view E db D"
  shows "recall_doc (rc_serde E) i db = Inr (D i)" "D i = Some d \<Longrightarrow> sd_id d = i"
  using assms get_json_doc [of "rc_serde E" db D i] by (simp_all add: search_view_def recall_doc_def)

lemma hydrate_winners_docs:
  assumes view: "search_view E db D" and "hydrate_winners (rc_serde E) db xs = Inr cs"
    and ids: "\<And>ids. A = Some ids \<Longrightarrow> fst ` set xs \<subseteq> ids"
  shows "\<forall>c \<in> set cs. from_docs D A c"
  using assms(2) ids
proof (induction xs arbitrary: cs)
  case (Cons x xs)
  obtain i s where x: "x = (i, s)" by (cases x)
  obtain r where r: "hydrate_winners (rc_serde E) db xs = Inr r"
    "cs = (case D i of None \<Rightarrow> r | Some d \<Rightarrow> hydrated d s # r)"
    using Cons.prems(1) by (auto simp: x bind_result_Inr search_view_doc(1) [OF view])
  have "\<forall>c \<in> set r. from_docs D A c" using Cons.IH [OF r(1)] Cons.prems(2) by auto
  moreover have "from_docs D A (hydrated d s)" if "D i = Some d" for d
  proof (rule from_docs_hydrated)
    have id: "sd_id d = i" using search_view_doc(2) [OF view that] .
    show "D (sd_id d) = Some d" using that id by simp
    show "sd_id d \<in> ids" if "A = Some ids" for ids using Cons.prems(2) [OF that] id x by auto
  qed
  ultimately show ?case using r(2) by (auto split: option.splits)
qed simp

section \<open>Lexical, scoped and hybrid searches answer documents\<close>

lemma id_rows_docs:
  assumes view: "search_view E db D" and rows: "\<And>i. get_cf db c (p @ i) \<noteq> None \<Longrightarrow> i \<in> dom D"
  shows "fst ` set (id_rows db c p) \<subseteq> dom D"
proof
  fix j assume "j \<in> fst ` set (id_rows db c p)"
  then obtain k v where k: "(k, v) \<in> set (scan_cf db c p)" "j = from_utf8_lossy (drop (length p) k)"
    by (auto simp: id_rows_def)
  have ok: "db_ok db" using view by (simp add: search_view_def)
  from k(1) have "get_cf db c k = Some v" "prefix p k" by (simp_all add: scan_cf_set [OF ok])
  then obtain i where i: "k = p @ i" "get_cf db c (p @ i) \<noteq> None" by (auto simp: prefix_def)
  then have "i \<in> dom D" using rows by blast
  then have "utf8_valid i" using view by (auto simp: search_view_def)
  then show "j \<in> dom D" using k(2) i(1) \<open>i \<in> dom D\<close> by simp
qed

lemma scan_postings_docs:
  assumes view: "search_view E db D" and "scan_postings E db t = Inr ps"
  shows "fst ` set ps \<subseteq> dom D"
proof
  fix i assume "i \<in> fst ` set ps"
  then obtain p where "(i, p) \<in> set ps" by auto
  from map_result_set(1) [OF assms(2) [unfolded scan_postings_def], rule_format, OF this]
  have "i \<in> fst ` set (id_rows db CfTerms (term_prefix t))" by (force simp: bind_result_Inr)
  moreover have "fst ` set (id_rows db CfTerms (term_prefix t)) \<subseteq> dom D"
    using view by (intro id_rows_docs [OF view]) (auto simp: search_view_def)
  ultimately show "i \<in> dom D" by blast
qed

lemma bm25_scores_keys: "fst ` set (bm25_scores lnf P n avgdl tps) \<subseteq> \<Union> ((\<lambda>x. fst ` set (snd x)) ` set tps)"
proof -
  have one: "fst ` set (fold (\<lambda>(i, p). add_score i (f p)) ps m) = fst ` set ps \<union> fst ` set m" for f :: "posting \<Rightarrow> f32" and ps m
    by (induction ps arbitrary: m) (simp_all add: split_def)
  have "fst ` set (fold (\<lambda>(tm, postings) scores. if C postings then scores
      else fold (\<lambda>(i, p). add_score i (g postings p)) postings scores) tps m) \<subseteq> fst ` set m \<union> \<Union> ((\<lambda>x. fst ` set (snd x)) ` set tps)"
    for C and g :: "(bytes \<times> posting) list \<Rightarrow> posting \<Rightarrow> f32" and m
  proof (induction tps arbitrary: m)
    case (Cons x tps)
    show ?case
      using Cons.IH [of m] Cons.IH [of "fold (\<lambda>(i, p). add_score i (g (snd x) p)) (snd x) m"]
      by (cases x) (auto simp: one)
  qed simp
  from this [where m = "[]" and C = "\<lambda>ps. f32_eq (f32_of_nat (length ps)) 0"
      and g = "\<lambda>ps p. bm25_term P (bm25_idf lnf (f32_of_nat (unat (max n 1))) (f32_of_nat (length ps))) p (f32_max avgdl f32_one)"]
  show ?thesis unfolding bm25_scores_def Let_def by simp
qed

lemma to_candidates_docs:
  assumes "fst ` set xs \<subseteq> dom D"
  shows "\<forall>c \<in> set (to_candidates (take k (rank_sort xs))). from_docs D None c"
  using assms set_take_subset [of k "rank_sort xs"] by (force simp: to_candidates_def from_docs_new)

lemma lexical_blocking_docs:
  assumes view: "search_view E db D" and "lexical_blocking E db tms k = Inr cs"
  shows "\<forall>c \<in> set cs. from_docs D None c"
proof -
  obtain tps n a where tps: "map_result (\<lambda>t. bind_result (scan_postings E db t) (\<lambda>ps. Inr (t, ps))) tms = Inr tps"
    and cs: "Inr (to_candidates (take k (rank_sort (bm25_scores (rc_ln E) (rc_params E) n a tps)))) = (Inr cs :: store_error + _)"
    using assms(2) unfolding lexical_blocking_def Let_def bind_result_Inr by (elim exE conjE) (rule that)
  have "\<Union> ((\<lambda>x. fst ` set (snd x)) ` set tps) \<subseteq> dom D"
  proof (rule UN_least)
    fix x assume "x \<in> set tps"
    then obtain t where "bind_result (scan_postings E db t) (\<lambda>ps. Inr (t, ps)) = Inr x" using map_result_set(1) [OF tps] by blast
    then have "scan_postings E db t = Inr (snd x)" by (auto simp: bind_result_Inr)
    then show "fst ` set (snd x) \<subseteq> dom D" by (rule scan_postings_docs [OF view])
  qed
  then have "fst ` set (bm25_scores (rc_ln E) (rc_params E) n a tps) \<subseteq> dom D"
    using bm25_scores_keys by (rule subset_trans [rotated])
  from to_candidates_docs [OF this] show ?thesis using cs [unfolded sum.inject, symmetric] by simp
qed

lemma add_postings_docs:
  assumes "search_view E db D" "add_postings E db avgdl t idf acc = Inr acc'" "fst ` set acc \<subseteq> dom D"
  shows "fst ` set acc' \<subseteq> dom D"
proof -
  obtain ps where ps: "scan_postings E db t = Inr ps"
    "acc' = add_votes (map (\<lambda>(i, p). (i, bm25_term (rc_params E) idf p avgdl)) ps) acc"
    using assms(2) by (auto simp: add_postings_def bind_result_Inr)
  have "fst ` (\<lambda>(i, p). (i, f p)) ` X = fst ` X" for f :: "posting \<Rightarrow> f32" and X :: "(bytes \<times> posting) set" by force
  then show ?thesis using scan_postings_docs [OF assms(1) ps(1)] assms(3) ps(2) by simp
qed

lemma scan_terms_docs:
  assumes view: "search_view E db D"
  shows "scan_terms E db avgdl k infos acc flr = Inr (acc', rest) \<Longrightarrow> fst ` set acc \<subseteq> dom D \<Longrightarrow> fst ` set acc' \<subseteq> dom D"
proof (induction infos arbitrary: acc flr)
  case (Cons info r)
  obtain t idf ub where info: "info = (t, idf, ub)" by (cases info)
  have "acc' = acc \<or> (\<exists>x flr'. add_postings E db avgdl t idf acc = Inr x \<and> scan_terms E db avgdl k r x flr' = Inr (acc', rest))"
    using Cons.prems(1) unfolding info by (auto simp: bind_result_Inr split: if_splits)
  then show ?case using Cons.IH add_postings_docs [OF view] Cons.prems(2) by blast
qed simp

lemma complete_tail_keys:
  "complete_tail E db avgdl infos acc = Inr acc' \<Longrightarrow> fst ` set acc' \<subseteq> fst ` set acc"
proof (induction infos arbitrary: acc)
  case (Cons info r)
  obtain acc1 where a: "map_result (complete_score E db avgdl info) acc = Inr acc1" "complete_tail E db avgdl r acc1 = Inr acc'"
    using Cons.prems by (auto simp: bind_result_Inr)
  have "fst y = fst x" if "complete_score E db avgdl info x = Inr y" for x y
    using that by (cases info; cases x) (auto simp: complete_score_def bind_result_Inr split: option.splits)
  then have "fst y \<in> fst ` set acc" if "y \<in> set acc1" for y using map_result_set(1) [OF a(1)] that by fastforce
  then have "fst ` set acc1 \<subseteq> fst ` set acc" by blast
  then show ?case using Cons.IH [OF a(2)] by blast
qed simp

lemma lexical_topk_docs:
  assumes view: "search_view E db D" and "lexical_topk_blocking E db tms k = Inr cs"
  shows "\<forall>c \<in> set cs. from_docs D None c"
proof (cases "get_cf db CfMeta META_LEXSTATS = None")
  case True
  then show ?thesis using assms lexical_blocking_docs by (simp add: lexical_topk_blocking_def)
next
  case False
  then have "cs = [] \<or> (\<exists>acc rest acc' avg infos. scan_terms E db avg k infos [] 0 = Inr (acc, rest) \<and>
      complete_tail E db avg rest acc = Inr acc' \<and> cs = to_candidates (take k (rank_sort acc')))"
    using assms(2) by (auto simp: lexical_topk_blocking_def bind_result_Inr Let_def split: if_splits) blast+
  then show ?thesis
  proof
    assume "\<exists>acc rest acc' avg infos. scan_terms E db avg k infos [] 0 = Inr (acc, rest) \<and>
      complete_tail E db avg rest acc = Inr acc' \<and> cs = to_candidates (take k (rank_sort acc'))"
    then obtain acc rest acc' avg infos where a: "scan_terms E db avg k infos [] 0 = Inr (acc, rest)"
      "complete_tail E db avg rest acc = Inr acc'" "cs = to_candidates (take k (rank_sort acc'))" by blast
    have "fst ` set acc' \<subseteq> dom D" using scan_terms_docs [OF view a(1)] complete_tail_keys [OF a(2)] by auto
    then show ?thesis using to_candidates_docs a(3) by blast
  qed simp
qed

lemma lexical_search_docs:
  assumes "search_view E db D" "lexical_search E db txt k = Inr cs"
  shows "\<forall>c \<in> set cs. from_docs D None c"
  using assms(2) lexical_topk_docs [OF assms(1)] by (cases "rc_analyze E txt = [] \<or> k = 0") (auto simp: lexical_search_def Let_def)

lemma scoped_search_docs:
  assumes view: "search_view E db D" and "scoped_search E db txt q k scope = Inr cs"
  shows "\<forall>c \<in> set cs. from_docs D (Some (set scope)) c"
proof (cases "k = 0 \<or> scope = []")
  case True
  then show ?thesis using assms(2) by (auto simp: scoped_search_def)
next
  case False
  define dense where "dense = rank_sort (List.map_filter (\<lambda>i. map_option (\<lambda>b. (i, cosine q (decode_vec b))) (get_cf db CfVecs i)) scope)"
  obtain lex :: "candidate list" where h: "hydrate_winners (rc_serde E) db
      (take k (rrf [map fst dense, map cd_id (filter (\<lambda>c. cd_id c \<in> set scope) lex)] rrf_k)) = Inr cs"
    using assms(2) False unfolding scoped_search_def Let_def dense_def [symmetric] by (simp only: if_False bind_result_Inr) (elim exE conjE, rule that)
  have "fst ` set dense \<subseteq> set scope" unfolding dense_def by (auto simp: map_filter_def split: option.splits)
  then have "fst ` set (rrf [map fst dense, map cd_id (filter (\<lambda>c. cd_id c \<in> set scope) lex)] rrf_k) \<subseteq> set scope"
    using rrf_keys [of "map fst dense" "map cd_id (filter (\<lambda>c. cd_id c \<in> set scope) lex)" rrf_k] by (auto dest!: subsetD)
  then show ?thesis using set_take_subset by (intro hydrate_winners_docs [OF view h]) fast
qed

lemma hybrid_weighted_docs:
  assumes view: "search_view E (fst st) D" and "hybrid_weighted E st txt q k ws mode = Inr cs"
  shows "\<forall>c \<in> set cs. from_docs D None c"
proof (cases "k = 0")
  case False
  then obtain xs where "hydrate_winners (rc_serde E) (fst st) xs = Inr cs"
    using assms(2) False unfolding hybrid_weighted_def Let_def by (simp only: if_False bind_result_Inr) (elim exE conjE, rule that)
  then show ?thesis by (rule hydrate_winners_docs [OF view]) simp
qed (use assms(2) in \<open>simp add: hybrid_weighted_def\<close>)

section \<open>Filter-aware and named searches answer documents\<close>

lemma from_docs_widen:
  "from_docs D (Some ids) c \<Longrightarrow> A = None \<or> A = Some ids \<Longrightarrow> from_docs D A c"
  by (auto simp: from_docs_def)

lemma filter_winners_docs:
  assumes view: "search_view E db D"
  shows "filter_winners E db q xs = Inr cs \<Longrightarrow> set xs \<subseteq> ids \<Longrightarrow> \<forall>c \<in> set cs. from_docs D (Some ids) c"
proof (induction xs arbitrary: cs)
  case (Cons i xs)
  show ?case
  proof (cases "get_cf db CfVecs i")
    case None
    then show ?thesis using Cons by simp
  next
    case (Some b)
    then obtain d where d: "D i = Some d" using view unfolding search_view_def by (metis domD option.distinct(1))
    obtain r where r: "filter_winners E db q xs = Inr r"
      "cs = (candidate_new i [] (cosine q (decode_vec b)))\<lparr>cd_text := sd_text d, cd_metadata := sd_metadata d\<rparr> # r"
      using Cons.prems(1) Some by (auto simp: bind_result_Inr search_view_doc(1) [OF view] d Let_def)
    then show ?thesis using Cons.IH [OF r(1)] Cons.prems(2) d by (auto simp: from_docs_def candidate_new_def)
  qed
qed simp

lemma set_take_map_fst: "fst ` set xs \<subseteq> ids \<Longrightarrow> set (take k (map fst xs)) \<subseteq> ids"
  using set_take_subset [of k "map fst xs"] by auto

lemma filter_aware_search_docs:
  assumes view: "search_view E db D" and fin: "finite allow"
    and ann: "\<And>v k ef al. fst ` set (av_search_filtered (rc_ann E) v k ef al) \<subseteq> al"
    and run: "filter_aware_search E db txt q k allow ws mode = Inr cs"
  shows "\<forall>c \<in> set cs. from_docs D (Some allow) c"
proof (cases "k = 0 \<or> allow = {} \<or> av_len (rc_ann E) < ann_min_corpus")
  case True
  then have "cs = [] \<or> scoped_search E db txt q k (sorted_list_of_set allow) = Inr cs"
    using run by (auto simp: filter_aware_search_def split: if_splits)
  then show ?thesis using scoped_search_docs [OF view] fin by fastforce
next
  case False
  define dense where "dense = av_search_filtered (rc_ann E) q k (max k 64) allow"
  define lexical where "lexical lex = filter (\<lambda>x. fst x \<in> allow) (scored_ids lex)" for lex
  define fused where "fused lex = (if lexical lex = [] then map fst dense
    else map fst (fuse mode [dense, lexical lex] (weights_as_slice ws) rrf_k))" for lex
  have eq: "filter_aware_search E db txt q k allow ws mode =
      bind_result (if rc_analyze E txt = [] then Inr [] else lexical_blocking E db (rc_analyze E txt) (k * 4 mod 2 ^ 64)) (\<lambda>lex.
        bind_result (filter_winners E db q (take k (fused lex))) (\<lambda>cs. Inr (candidate_sort cs)))"
    using False unfolding fused_def lexical_def dense_def by (simp add: filter_aware_search_def Let_def)
  obtain lex ws' where w: "filter_winners E db q (take k (fused lex)) = Inr ws'" "cs = candidate_sort ws'"
    using run unfolding eq by (auto simp: bind_result_Inr)
  have "fst ` set dense \<subseteq> allow" unfolding dense_def by (rule ann)
  moreover have "fst ` set (lexical lex) \<subseteq> allow" by (auto simp: lexical_def)
  ultimately have "set (take k (fused lex)) \<subseteq> allow"
    using fuse_keys [of mode dense "lexical lex" "weights_as_slice ws" rrf_k] unfolding fused_def
    by (cases "lexical lex = []") (simp_all add: set_take_map_fst subset_trans [OF fuse_keys])
  from filter_winners_docs [OF view w(1) this] show ?thesis by (simp add: w(2) candidate_sort_def)
qed

lemma rehydrate_docs:
  assumes view: "search_view E db D" and "cd_id c \<in> dom D" "rehydrate (rc_serde E) db c = Inr c'"
  shows "from_docs D None c'"
  using assms(2,3) by (auto simp: rehydrate_def bind_result_Inr search_view_doc(1) [OF view] from_docs_def)

lemma named_search_docs:
  assumes "search_view E db D"
  shows "\<forall>c \<in> set (named_search db sp q k). from_docs D None c"
proof (cases "k = 0")
  case False
  have "fst ` set (id_rows db CfNvecs (nvec_prefix sp)) \<subseteq> dom D"
    using assms by (intro id_rows_docs [OF assms]) (simp add: search_view_def)
  moreover have "fst ` (\<lambda>(i, v). (i, cosine q (decode_vec v))) ` X = fst ` X" for X :: "(bytes \<times> bytes) set" by force
  ultimately have "fst ` set (map (\<lambda>(i, v). (i, cosine q (decode_vec v))) (id_rows db CfNvecs (nvec_prefix sp))) \<subseteq> dom D" by simp
  from to_candidates_docs [OF this] show ?thesis using False by (simp add: named_search_def)
qed (simp add: named_search_def)

lemma named_hybrid_docs:
  assumes view: "search_view E db D" and run: "named_hybrid E db sp txt v fetch ws mode = Inr cs"
  shows "\<forall>c \<in> set cs. from_docs D None c"
proof -
  obtain lexical where "(if lexical = [] then map_result (rehydrate (rc_serde E) db) (named_search db sp v fetch)
      else hydrate_winners (rc_serde E) db (take fetch
        (fuse mode [scored_ids (named_search db sp v fetch), scored_ids lexical] (weights_as_slice ws) rrf_k))) = Inr cs"
    using run by (auto simp: named_hybrid_def Let_def bind_result_Inr)
  then consider "map_result (rehydrate (rc_serde E) db) (named_search db sp v fetch) = Inr cs"
    | xs where "hydrate_winners (rc_serde E) db xs = Inr cs" by (auto split: if_splits)
  then show ?thesis
  proof cases
    case 1
    then show ?thesis using map_result_set(1) [OF 1] rehydrate_docs [OF view] named_search_docs [OF view]
      by (fastforce simp: from_docs_def)
  next
    case 2
    then show ?thesis by (rule hydrate_winners_docs [OF view]) simp
  qed
qed

section \<open>The stages of a query\<close>

text \<open>The ids the first phase is restricted to satisfy the filter by its index, or come from the scope.\<close>

definition allowed_by :: "recall_env \<Rightarrow> db \<Rightarrow> filter_dsl \<Rightarrow> bytes list option \<Rightarrow> bool \<Rightarrow> bytes set option \<Rightarrow> bool" where
  "allowed_by E db dsl scope prefiltered allowed \<longleftrightarrow>
     (\<forall>ids. scope = Some ids \<longrightarrow> allowed = Some (set ids)) \<and>
     (prefiltered \<longrightarrow> (\<exists>ids. ids_where (rc_serde E) (rc_hav E) (rc_bbox E) db dsl = Inr (Some ids) \<and> allowed = Some (set ids)))"

lemma unscoped_docs:
  assumes "search_view E (fst st) D" "unscoped E st txt v hv fetch ws mode = Inr cs"
  shows "\<forall>c \<in> set cs. from_docs D None c"
  using assms(2) hybrid_weighted_docs [OF assms(1)] lexical_search_docs [OF assms(1)]
  by (cases hv) (auto simp: unscoped_def)

lemma first_phase_docs:
  assumes view: "search_view E (fst st) D"
    and ann: "\<And>v k ef al. fst ` set (av_search_filtered (rc_ann E) v k ef al) \<subseteq> al"
    and run: "first_phase E st q dsl want fetch scope = Inr (cs, prefiltered, allowed)"
  shows "allowed_by E (fst st) dsl scope prefiltered allowed \<and> (\<forall>c \<in> set cs. from_docs D allowed c)"
proof -
  define qt where "qt = (case q_text q of None \<Rightarrow> [] | Some t \<Rightarrow> t)"
  define qv where "qv = (case q_vector q of None \<Rightarrow> [] | Some v \<Rightarrow> v)"
  define free where "free = bind_result (unscoped E st qt qv (q_vector q \<noteq> None) fetch (q_fusion q) (q_fusion_mode q))
    (\<lambda>cs. Inr (cs, False, None :: bytes set option))"
  have free: ?thesis if "free = Inr (cs, prefiltered, allowed)" "scope = None"
    using that unscoped_docs [OF view] by (auto simp: free_def bind_result_Inr allowed_by_def)
  show ?thesis
  proof (cases scope)
    case (Some ids)
    then have "scoped_search E (fst st) qt qv fetch ids = Inr cs" "\<not> prefiltered" "allowed = Some (set ids)"
      using run by (auto simp: first_phase_def Let_def qt_def qv_def bind_result_Inr)
    then show ?thesis using Some scoped_search_docs [OF view] by (simp add: allowed_by_def)
  next
    case None
    show ?thesis
    proof (cases "filter_is_empty dsl")
      case True
      show ?thesis
      proof (cases "\<exists>space w. q_using q = Some space \<and> q_vector q = Some w")
        case True
        then obtain sp w where "q_using q = Some sp" "q_vector q = Some w" by blast
        then have "named_hybrid E (fst st) sp qt w fetch (q_fusion q) (q_fusion_mode q) = Inr cs" "\<not> prefiltered" "allowed = None"
          using run None \<open>filter_is_empty dsl\<close> by (auto simp: first_phase_def Let_def qt_def bind_result_Inr)
        then show ?thesis using None named_hybrid_docs [OF view] by (simp add: allowed_by_def)
      next
        case False
        then have "free = Inr (cs, prefiltered, allowed)"
          using run None True unfolding free_def qt_def qv_def
          by (cases "q_using q"; cases "q_vector q") (simp_all add: first_phase_def Let_def)
        then show ?thesis using free None by blast
      qed
    next
      case False
      obtain r where r: "ids_where (rc_serde E) (rc_hav E) (rc_bbox E) (fst st) dsl = Inr r"
        "(case r of
            Some ids \<Rightarrow>
              if length ids \<le> exact_scope_max then
                bind_result (if ids = [] then Inr [] else scoped_search E (fst st) qt qv want ids)
                  (\<lambda>cs. Inr (cs, True, Some (set ids)))
              else bind_result (filter_aware_search E (fst st) qt qv want (set ids) (q_fusion q) (q_fusion_mode q))
                  (\<lambda>cs. Inr (cs, True, Some (set ids)))
          | None \<Rightarrow> free) = Inr (cs, prefiltered, allowed)"
        using run None False unfolding first_phase_def Let_def qt_def [symmetric] qv_def [symmetric] free_def [symmetric]
        by (auto simp: bind_result_Inr)
      show ?thesis
      proof (cases r)
        case Nor: None
        then show ?thesis using r(2) free None by simp
      next
        case (Some ids)
        have "cs = [] \<or> scoped_search E (fst st) qt qv want ids = Inr cs
          \<or> filter_aware_search E (fst st) qt qv want (set ids) (q_fusion q) (q_fusion_mode q) = Inr cs"
          using r(2) unfolding Some option.case by (cases "length ids \<le> exact_scope_max"; cases "ids = []") (simp_all add: bind_result_Inr)
        then consider "cs = []" | "scoped_search E (fst st) qt qv want ids = Inr cs"
          | "filter_aware_search E (fst st) qt qv want (set ids) (q_fusion q) (q_fusion_mode q) = Inr cs" by blast
        then have "\<forall>c \<in> set cs. from_docs D (Some (set ids)) c"
        proof cases
          case 1
          then show ?thesis by simp
        next
          case 2
          then show ?thesis by (rule scoped_search_docs [OF view])
        next
          case 3
          show ?thesis by (rule filter_aware_search_docs [OF view _ ann 3]) simp
        qed
        moreover have "prefiltered \<and> allowed = Some (set ids)"
          using r(2) unfolding Some option.case by (cases "length ids \<le> exact_scope_max") (auto simp: bind_result_Inr)
        ultimately show ?thesis using r(1) Some None by (simp add: allowed_by_def)
      qed
    qed
  qed
qed

lemma fuse_sparse_docs:
  assumes view: "search_view E db D" and cs: "\<forall>c \<in> set cs. from_docs D allowed c"
    and run: "fuse_sparse E db q fetch allowed cs = Inr cs'"
  shows "\<forall>c \<in> set cs'. from_docs D allowed c"
proof (cases "cs' = cs")
  case False
  define sparse where "sparse sp = (case allowed of None \<Rightarrow> sp | Some ids \<Rightarrow> filter (\<lambda>c. cd_id c \<in> ids) sp)"
    for sp :: "candidate list"
  have "\<exists>sp. hydrate_winners (rc_serde E) db (take fetch (fuse (q_fusion_mode q) [scored_ids cs, scored_ids (sparse sp)]
      (weights_as_slice (q_fusion q)) rrf_k)) = Inr cs'"
    using run False unfolding fuse_sparse_def Let_def sparse_def [symmetric]
    by (auto simp: bind_result_Inr split: option.splits if_splits)
  then obtain sp where h: "hydrate_winners (rc_serde E) db (take fetch (fuse (q_fusion_mode q) [scored_ids cs, scored_ids (sparse sp)]
      (weights_as_slice (q_fusion q)) rrf_k)) = Inr cs'" by blast
  show ?thesis
  proof (rule hydrate_winners_docs [OF view h])
    fix ids assume a: "allowed = Some ids"
    have "fst ` set (scored_ids cs) \<subseteq> ids" "fst ` set (scored_ids (sparse sp)) \<subseteq> ids"
      using cs by (auto simp: a scored_ids_def sparse_def from_docs_def)
    then have "fst ` set (fuse (q_fusion_mode q) [scored_ids cs, scored_ids (sparse sp)] (weights_as_slice (q_fusion q)) rrf_k) \<subseteq> ids"
      by (intro subset_trans [OF fuse_keys]) simp
    then show "fst ` set (take fetch (fuse (q_fusion_mode q) [scored_ids cs, scored_ids (sparse sp)]
        (weights_as_slice (q_fusion q)) rrf_k)) \<subseteq> ids"
      by (rule subset_trans [OF image_mono [OF set_take_subset]])
  qed
qed (use cs in simp)

lemma maxsim_rescore_ids:
  assumes "maxsim_rescore db cs q = Inr cs'"
  shows "\<forall>c' \<in> set cs'. \<exists>c \<in> set cs. \<exists>s. c' = c\<lparr>cd_score := s\<rparr>"
proof -
  have zip: "(c, s) \<in> set (zip cs ss) \<Longrightarrow> c \<in> set cs" for c s ss by (rule set_zip_leftD)
  have same: "\<exists>c' \<in> set cs. \<exists>s. c = c'\<lparr>cd_score := s\<rparr>" if "c \<in> set cs" for c
    by (rule bexI [OF _ that], rule exI [of _ "cd_score c"]) simp
  show ?thesis
  proof (cases "cs' = cs")
    case True
    then show ?thesis using same by simp
  next
    case False
    then obtain ss :: "f32 option list" where ss: "cs' = candidate_sort (List.map_filter (\<lambda>(c, s). map_option (\<lambda>x. c\<lparr>cd_score := x\<rparr>) s) (zip cs ss))
        @ map fst (filter (\<lambda>(c, s). s = None) (zip cs ss))"
      using assms by (auto simp: maxsim_rescore_def bind_result_Inr Let_def split: if_splits)
    show ?thesis
    proof
      fix c' assume "c' \<in> set cs'"
      then consider c s where "(c, Some s) \<in> set (zip cs ss)" "c' = c\<lparr>cd_score := s\<rparr>" | "(c', None) \<in> set (zip cs ss)"
        unfolding ss by (auto simp: candidate_sort_def map_filter_def)
      then show "\<exists>c \<in> set cs. \<exists>s. c' = c\<lparr>cd_score := s\<rparr>" 
      proof cases
        case 1
        show ?thesis using zip [OF 1(1)] 1(2) by (intro bexI [of _ c] exI [of _ s])
      next
        case 2
        from zip [OF this] show ?thesis by (rule same)
      qed
    qed
  qed
qed

lemma fill_text_docs:
  assumes view: "search_view E db D" and "from_docs D A c" "fill_text (rc_serde E) db c = Inr c'"
  shows "from_docs D A c'"
proof -
  obtain d where d: "D (cd_id c) = Some d" using assms(2) by (auto simp: from_docs_def)
  have "c' = (if cd_text c \<noteq> [] then c else c\<lparr>cd_text := sd_text d, cd_metadata := (if cd_metadata c = [] then sd_metadata d else cd_metadata c)\<rparr>)"
    using assms(3) d search_view_doc(1) [OF view, of "cd_id c"] by (cases "cd_text c = []") (simp_all add: fill_text_def)
  with assms(2) d show ?thesis unfolding from_docs_def by (cases "cd_text c = []"; cases "cd_metadata c = []") simp_all
qed

lemma rescore_multi_docs:
  assumes view: "search_view E db D" and cs: "\<forall>c \<in> set cs. from_docs D A c" and run: "rescore_multi E db q cs = Inr cs'"
  shows "\<forall>c \<in> set cs'. from_docs D A c"
proof (cases "cs' = cs")
  case False
  then obtain ts cs1 where m: "maxsim_rescore db cs ts = Inr cs1" "map_result (fill_text (rc_serde E) db) cs1 = Inr cs'"
    using run by (auto simp: rescore_multi_def bind_result_Inr split: option.splits if_splits)
  have "\<forall>c \<in> set cs1. from_docs D A c" using maxsim_rescore_ids [OF m(1)] cs by (fastforce simp: from_docs_def)
  then show ?thesis using map_result_set(1) [OF m(2)] fill_text_docs [OF view] by blast
qed (use cs in simp)

lemma fill_payload_docs:
  assumes view: "search_view E db D" and "from_docs D A c" "fill_payload (rc_serde E) db c = Inr c'"
  shows "from_docs D A c' \<and> (\<exists>d. D (cd_id c') = Some d \<and> cd_metadata c' = sd_metadata d)"
proof -
  obtain d where d: "D (cd_id c) = Some d" using assms(2) by (auto simp: from_docs_def)
  have "c' = (if cd_metadata c \<noteq> [] then c else c\<lparr>cd_metadata := sd_metadata d, cd_text := (if cd_text c = [] then sd_text d else cd_text c)\<rparr>)"
    using assms(3) d search_view_doc(1) [OF view, of "cd_id c"] by (cases "cd_metadata c = []") (simp_all add: fill_payload_def)
  with assms(2) d show ?thesis unfolding from_docs_def by (cases "cd_text c = []"; cases "cd_metadata c = []") simp_all
qed

definition filtered_by :: "recall_env \<Rightarrow> db \<Rightarrow> docs \<Rightarrow> filter_dsl \<Rightarrow> bytes \<Rightarrow> bool" where
  "filtered_by E db D dsl i \<longleftrightarrow>
     (\<exists>d. D i = Some d \<and> filter_matches (rc_hav E) dsl (sd_metadata d)) \<or>
     (\<exists>ids. ids_where (rc_serde E) (rc_hav E) (rc_bbox E) db dsl = Inr (Some ids) \<and> i \<in> set ids)"

lemma post_filter_docs:
  assumes view: "search_view E db D" and cs: "\<forall>c \<in> set cs. from_docs D A c"
    and alw: "allowed_by E db dsl scope prefiltered A" and run: "post_filter E db dsl prefiltered cs = Inr cs'"
  shows "\<forall>c \<in> set cs'. from_docs D A c \<and> filtered_by E db D dsl (cd_id c)"
proof (cases "filter_is_empty dsl \<or> prefiltered")
  case True
  then have eq: "cs' = cs" using run by (auto simp: post_filter_def)
  show ?thesis
  proof
    fix c assume c: "c \<in> set cs'"
    then have f: "from_docs D A c" using cs eq by blast
    have "filtered_by E db D dsl (cd_id c)"
    proof (cases prefiltered)
      case True
      then show ?thesis using alw f by (auto simp: allowed_by_def filtered_by_def from_docs_def)
    next
      case False
      then have "filter_is_empty dsl" using True by simp
      then have "filter_matches (rc_hav E) dsl m" for m by (auto simp: filter_is_empty_def filter_matches_def)
      then show ?thesis using f by (auto simp: filtered_by_def from_docs_def)
    qed
    then show "from_docs D A c \<and> filtered_by E db D dsl (cd_id c)" using f by blast
  qed
next
  case False
  then obtain cs1 where c1: "map_result (fill_payload (rc_serde E) db) cs = Inr cs1"
    "cs' = filter (\<lambda>c. filter_matches (rc_hav E) dsl (cd_metadata c)) cs1"
    using run by (auto simp: post_filter_def bind_result_Inr)
  have "\<forall>c \<in> set cs1. from_docs D A c \<and> (\<exists>d. D (cd_id c) = Some d \<and> cd_metadata c = sd_metadata d)"
    using map_result_set(1) [OF c1(1)] cs fill_payload_docs [OF view] by blast
  then show ?thesis unfolding c1(2) filtered_by_def by fastforce
qed

lemma finish_page_docs:
  assumes cs: "\<forall>c \<in> set cs. from_docs D A c \<and> F (cd_id c)"
  shows "length (finish_page E db q cs) \<le> q_top_k q \<and>
    (\<forall>c \<in> set (finish_page E db q cs). from_docs D A c \<and> F (cd_id c) \<and>
       (\<forall>t. q_score_threshold q = Some t \<longrightarrow> f32_le t (cd_score c)))"
proof -
  define G where "G c \<longleftrightarrow> from_docs D A c \<and> F (cd_id c) \<and> (\<forall>t. q_score_threshold q = Some t \<longrightarrow> f32_le t (cd_score c))"
    for c
  define cs1 where "cs1 = (case q_score_threshold q of None \<Rightarrow> cs | Some t \<Rightarrow> filter (\<lambda>c. f32_le t (cd_score c)) cs)"
  define cs2 where "cs2 = take (q_top_k q) (drop (q_offset q) cs1)"
  define cs3 where "cs3 = (if q_with_payload q then cs2 else map (\<lambda>c. c\<lparr>cd_text := [], cd_metadata := []\<rparr>) cs2)"
  define cs4 where "cs4 = (if q_with_vectors q then map (\<lambda>c. c\<lparr>cd_vector := vector_of (cd_id c) db\<rparr>) cs3 else cs3)"
  have "\<forall>c \<in> set cs1. G c" using cs by (cases "q_score_threshold q") (auto simp: cs1_def G_def)
  then have "\<forall>c \<in> set cs2. G c" unfolding cs2_def by (meson in_set_dropD in_set_takeD)
  then have "\<forall>c \<in> set cs3. G c" by (auto simp: cs3_def G_def from_docs_def)
  then have "\<forall>c \<in> set cs4. G c" by (auto simp: cs4_def G_def from_docs_def)
  moreover have "length cs4 \<le> q_top_k q" by (simp add: cs4_def cs3_def cs2_def)
  moreover have "finish_page E db q cs = cs4 \<or>
      (\<exists>qt. finish_page E db q cs = map (\<lambda>c. if cd_text c = [] then c else c\<lparr>cd_highlights := rc_highlight E (cd_text c) qt\<rparr>) cs4)"
    unfolding finish_page_def Let_def cs1_def [symmetric] cs2_def [symmetric] cs3_def [symmetric] cs4_def [symmetric]
    by (cases "q_highlight q"; cases "q_text q") auto
  ultimately have "length (finish_page E db q cs) \<le> q_top_k q \<and> (\<forall>c \<in> set (finish_page E db q cs). G c)"
    by (elim disjE exE) (auto simp: G_def from_docs_def)
  then show ?thesis by (simp add: G_def)
qed

text \<open>What a query promises of its answer.\<close>

definition answers :: "recall_env \<Rightarrow> db \<Rightarrow> docs \<Rightarrow> estate_query \<Rightarrow> candidate list \<Rightarrow> bool" where
  "answers E db D q cs \<longleftrightarrow>
     length cs \<le> q_top_k q \<and>
     (\<forall>c \<in> set cs.
        cd_id c \<in> dom D \<and>
        (\<forall>ids. q_scope q = Some ids \<longrightarrow> cd_id c \<in> set ids) \<and>
        (\<forall>coll. q_collection q = Some coll \<longrightarrow>
           (\<exists>name. resolve_alias (rc_serde E) db coll = Inr name \<and> cd_id c \<in> set (collection_members db name))) \<and>
        filtered_by E db D (effective_filter q) (cd_id c) \<and>
        (\<forall>t. q_score_threshold q = Some t \<longrightarrow> f32_le t (cd_score c)))"

lemma query_scope_within:
  assumes "query_scope S db q = Inr scope"
  shows "(\<forall>ids. q_scope q = Some ids \<longrightarrow> (\<exists>s. scope = Some s \<and> set s \<subseteq> set ids)) \<and>
    (\<forall>coll. q_collection q = Some coll \<longrightarrow>
       (\<exists>name s. resolve_alias S db coll = Inr name \<and> scope = Some s \<and> set s \<subseteq> set (collection_members db name)))"
proof (cases "q_collection q")
  case (Some coll)
  then obtain name where "resolve_alias S db coll = Inr name"
    "scope = Some (case q_scope q of None \<Rightarrow> collection_members db name
      | Some explicit \<Rightarrow> filter (\<lambda>i. i \<in> set (collection_members db name)) explicit)"
    using assms by (auto simp: query_scope_def bind_result_Inr Let_def)
  then show ?thesis using Some by (cases "q_scope q") auto
qed (use assms in \<open>simp add: query_scope_def\<close>)

lemma query_flat_answers:
  assumes view: "search_view E (fst st) D"
    and ann: "\<And>v k ef al. fst ` set (av_search_filtered (rc_ann E) v k ef al) \<subseteq> al"
    and run: "query_flat E st q = Inr cs"
  shows "answers E (fst st) D q cs"
proof (cases "q_top_k q = 0")
  case False
  obtain scope want fetch r0 prefiltered allowed r1 r2 r3 where
    s: "query_scope (rc_serde E) (fst st) q = Inr scope"
    and f: "first_phase E st q (effective_filter q) want fetch scope = Inr (r0, prefiltered, allowed)"
    and r1: "fuse_sparse E (fst st) q fetch allowed r0 = Inr r1"
    and r2: "rescore_multi E (fst st) q r1 = Inr r2"
    and r3: "post_filter E (fst st) (effective_filter q) prefiltered r2 = Inr r3"
    and cs: "finish_page E (fst st) q r3 = cs"
    using run [unfolded query_flat_def Let_def, unfolded if_not_P [OF False] bind_result_Inr lift_err_Inr split_paired_Ex prod.case sum.inject]
    by (elim exE conjE) (rule that)
  have p: "allowed_by E (fst st) (effective_filter q) scope prefiltered allowed" "\<forall>c \<in> set r0. from_docs D allowed c"
    using first_phase_docs [OF view ann f] by blast+
  have "\<forall>c \<in> set r3. from_docs D allowed c \<and> filtered_by E (fst st) D (effective_filter q) (cd_id c)"
    by (rule post_filter_docs [OF view rescore_multi_docs [OF view fuse_sparse_docs [OF view p(2) r1] r2] p(1) r3])
  from finish_page_docs [OF this, where E = E and db = "fst st" and q = q] show ?thesis
    using query_scope_within [OF s] p(1) unfolding cs answers_def
    by (fastforce simp: from_docs_def allowed_by_def)
qed (use run in \<open>simp add: query_flat_def answers_def\<close>)

section \<open>Prefetch\<close>

lemma scoped_query_answers:
  assumes "answers E db D (scoped_query q un) cs"
  shows "answers E db D q cs \<and> cd_id ` set cs \<subseteq> set un"
proof -
  have f: "effective_filter (scoped_query q un) = effective_filter q" by (simp add: effective_filter_def scoped_query_def)
  have "q_scope q = Some ids \<Longrightarrow> set (filter (\<lambda>i. i \<in> set ids) un) \<subseteq> set ids" for ids by auto
  then show ?thesis using assms unfolding answers_def f
    by (cases "q_scope q") (auto simp: scoped_query_def)
qed

lemma add_ids_set: "set (add_ids un cs) = set un \<union> cd_id ` set cs"
  by (induction un cs rule: add_ids.induct) auto

text \<open>Every id of the union was answered by one of the stages.\<close>

lemma prefetch_union_ids:
  "prefetch_union run stages un = Inr un' \<Longrightarrow>
   \<forall>i \<in> set un'. i \<in> set un \<or> (\<exists>(iq, limit) \<in> set stages. \<exists>r. run (inner_query iq limit) = Inr r \<and> i \<in> cd_id ` set r)"
proof (induction stages arbitrary: un)
  case (Cons x stages)
  obtain iq limit where x: "x = (iq, limit)" by (cases x)
  obtain cs where cs: "run (inner_query iq limit) = Inr cs" "prefetch_union run stages (add_ids un cs) = Inr un'"
    using Cons.prems by (auto simp: x bind_result_Inr)
  show ?case using Cons.IH [OF cs(2)] cs(1) unfolding add_ids_set x by auto
qed simp

definition stage_answer :: "recall_env \<Rightarrow> recall_state \<Rightarrow> estate_query \<Rightarrow> bytes \<Rightarrow> bool" where
  "stage_answer E st q i \<longleftrightarrow>
     (\<exists>(iq, limit) \<in> set (q_prefetch q). \<exists>n r. query_depth n E st (inner_query iq limit) = Inr r \<and> i \<in> cd_id ` set r)"

lemma query_depth_plain: "q_prefetch q = [] \<Longrightarrow> query_depth n E st q = query_flat E st q"
  by (cases n) simp_all

lemma query_depth_answers:
  assumes view: "search_view E (fst st) D"
    and ann: "\<And>v k ef al. fst ` set (av_search_filtered (rc_ann E) v k ef al) \<subseteq> al"
    and run: "query_depth n E st q = Inr cs"
  shows "answers E (fst st) D q cs \<and> (q_prefetch q \<noteq> [] \<longrightarrow> (\<forall>c \<in> set cs. stage_answer E st q (cd_id c)))"
proof (cases "q_prefetch q = []")
  case True
  then have "query_flat E st q = Inr cs" using run by (simp add: query_depth_plain)
  then show ?thesis using True query_flat_answers [OF view ann] by blast
next
  case False
  then obtain m un where n: "n = Suc m" "prefetch_union (query_depth m E st) (q_prefetch q) [] = Inr un"
    "query_flat E st (scoped_query q un) = Inr cs" using run by (cases n) (auto simp: bind_result_Inr)
  have "answers E (fst st) D q cs \<and> cd_id ` set cs \<subseteq> set un"
    by (rule scoped_query_answers [OF query_flat_answers [OF view ann n(3)]])
  moreover have "\<forall>i \<in> set un. stage_answer E st q i"
    using prefetch_union_ids [OF n(2)] unfolding stage_answer_def by fastforce
  ultimately show ?thesis by blast
qed

text \<open>C2: whatever path a query takes (scoped, index-first, filter-aware, named, hybrid or lexical; with
  sparse fusion, late interaction and prefetch), when it answers, the page has at most \<open>top_k\<close> candidates
  and each of them is a document of the estate, in the explicit scope, in the collection behind the alias,
  accepted by the filter (by its own metadata, or by the index-first answer to that filter), at or above
  the threshold; with prefetch stages, each is an answer of one of the stages.  What it assumes of the
  graph index is that its filtered search returns allowed ids only.\<close>

theorem query_answers:
  assumes view: "search_view E (fst st) D"
    and ann: "\<And>v k ef al. fst ` set (av_search_filtered (rc_ann E) v k ef al) \<subseteq> al"
    and run: "run_query E st q = Inr cs"
  shows "answers E (fst st) D q cs \<and> (q_prefetch q \<noteq> [] \<longrightarrow> (\<forall>c \<in> set cs. stage_answer E st q (cd_id c)))"
proof -
  have "query_depth max_prefetch_depth E st q = Inr cs"
    using run by (auto simp: run_query_def split: option.splits if_splits)
  then show ?thesis by (rule query_depth_answers [OF view ann])
qed

text \<open>The document of \<open>sample_serde\<close> with a vector, searched in a scope of two ids under a filter.\<close>

definition answer_db :: db where
  "answer_db = put_cf (put_cf (\<lambda>_. []) CfDocs ''a'' ''d'') CfVecs ''a'' ''unit''"

lemma answer_db_get: "db_ok answer_db"
  "get_cf answer_db c k =
     (if c = CfVecs \<and> k = ''a'' then Some ''unit'' else if c = CfDocs \<and> k = ''a'' then Some ''d'' else None)"
proof -
  have e: "db_ok (\<lambda>_. [])" "get_cf (\<lambda>_. []) c k = None" by (simp_all add: db_ok_def rows_ok_def get_cf_def row_get_def)
  show "db_ok answer_db" by (simp add: answer_db_def e)
  show "get_cf answer_db c k =
     (if c = CfVecs \<and> k = ''a'' then Some ''unit'' else if c = CfDocs \<and> k = ''a'' then Some ''d'' else None)"
    by (simp add: answer_db_def e)
qed

definition answer_query :: estate_query where
  "answer_query =
     EstateQuery None (Some [f32_one]) None None None None 1 [(''tag'', JBool True)] None (Some [''a'', ''b'']) None
       True 0 False False [] hybrid_weights_default Rrf"

lemma answer_view: "search_view lexical_env answer_db sample_docs_map"
proof -
  have "utf8_valid ''a''" by code_simp
  moreover have "sd_id (stored_of sample_words sample_record) = ''a''" by (simp add: sample_record_def vector_record_new_def)
  ultimately show ?thesis unfolding sample_docs_map search_view_def
    by (auto simp: answer_db_get docs_of_def lexical_env_def sample_serde_def split: if_splits)
qed

lemma answer_run: "\<exists>cs. run_query lexical_env (answer_db, pending_new) answer_query = Inr cs \<and> map cd_id cs = [''a'']"
proof -
  have one: "rank_sort [x] = [x]" for x by (simp add: rank_sort_def)
  have w: "\<not> f32_eq f32_one 0" by (simp add: f32_one_def f32_eval)
  obtain s where s: "rrf [[''a''], []] rrf_k = [(''a'', s)]"
    by (simp add: rrf_def rrf_weighted_def rrf_votes_def add_votes_def weight_at_def Let_def w one)
  have doc: "recall_doc sample_serde ''a'' answer_db = Inr (Some (stored_of sample_words sample_record))"
    by (simp add: recall_doc_def get_json_def answer_db_get sample_serde_def)
  have sc: "scoped_search lexical_env answer_db [] [f32_one] 8 [''a'', ''b''] = Inr [hydrated (stored_of sample_words sample_record) s]"
    by (simp add: scoped_search_def answer_db_get map_filter_def one Let_def lexical_env_def s doc sample_words_def)
  define f where "f = effective_filter answer_query"
  have f: "f = \<lparr>f_must = [CEq ''tag'' (JBool True)], f_should = [], f_must_not = []\<rparr>"
    by (simp add: f_def effective_filter_def answer_query_def filter_default_def)
  let ?c = "hydrated (stored_of sample_words sample_record) s"
  have c: "cd_metadata ?c = [(''tag'', JBool True)]" "cd_id ?c = ''a''"
    by (simp_all add: hydrated_def candidate_new_def sample_record_def vector_record_new_def)
  have first: "first_phase lexical_env (answer_db, pending_new) answer_query f 1 8 (Some [''a'', ''b'']) =
      Inr ([?c], False, Some {''a'', ''b''})"
    by (simp add: first_phase_def answer_query_def Let_def sc)
  have post: "post_filter lexical_env answer_db f False [?c] = Inr [?c]"
    by (simp add: post_filter_def f filter_is_empty_def fill_payload_def c filter_matches_def)
  have "query_flat lexical_env (answer_db, pending_new) answer_query = Inr [?c]"
    unfolding query_flat_def f_def [symmetric] using first post
    by (simp add: f filter_is_empty_def query_scope_def fuse_sparse_def rescore_multi_def finish_page_def answer_query_def
        Let_def sat_add_def sat_mul_def usize_max_def filter_overfetch_def lift_err_def)
  moreover have "q_prefetch answer_query = []" "q_top_k answer_query = 1" by (simp_all add: answer_query_def)
  moreover have "qt_max_top_k (rc_quotas lexical_env) = Some 1024" by (simp add: lexical_env_def quotas_strict_def)
  ultimately have "run_query lexical_env (answer_db, pending_new) answer_query = Inr [?c]" by (simp add: run_query_def query_depth_plain)
  then show ?thesis using c by simp
qed

theorem query_answers_witness:
  "\<exists>cs. run_query lexical_env (answer_db, pending_new) answer_query = Inr cs \<and> map cd_id cs = [''a''] \<and>
     answers lexical_env answer_db sample_docs_map answer_query cs"
proof -
  obtain cs where run: "run_query lexical_env (answer_db, pending_new) answer_query = Inr cs" "map cd_id cs = [''a'']"
    using answer_run by (elim exE conjE) (rule that)
  have "answers lexical_env answer_db sample_docs_map answer_query cs"
  proof (rule conjunct1 [OF query_answers [OF _ _ run(1), unfolded fst_conv]])
    show "search_view lexical_env answer_db sample_docs_map" by (rule answer_view)
  qed (simp add: lexical_env_def)
  then show ?thesis using run by (intro exI [of _ cs] conjI) simp_all
qed

end
