(* ===== verification/Quant.thy ===== *)
theory Quant
  imports Fusion
begin

text \<open>
  The vector codes of \<open>crates/recall/src/quant.rs\<close>: one byte, one bit and one byte per subspace.
  \<open>None\<close> is a panic (a slice or an index out of range).  The lemmas: a binary code compares as the
  signs it was made of, a product code has one centroid per subspace and decodes in range.
\<close>

section \<open>Slices and casts\<close>

text \<open>\<open>&xs[i..j]\<close>.\<close>

definition slice :: "'a list \<Rightarrow> nat \<Rightarrow> nat \<Rightarrow> 'a list option" where
  "slice xs i j = (if i \<le> j \<and> j \<le> length xs then Some (take (j - i) (drop i xs)) else None)"

definition index_opt :: "'a list \<Rightarrow> nat \<Rightarrow> 'a option" where
  "index_opt xs i = (if i < length xs then Some (xs ! i) else None)"

text \<open>\<open>x.round()\<close> (halves away from zero), \<open>x.clamp(lo, hi)\<close>, and \<open>x as u8\<close>, which saturates.\<close>

definition f32_round_away :: "f32 \<Rightarrow> f32" where
  "f32_round_away x =
     (if \<not> f32_is_finite x then x
      else f32_of_ratio (f32_sign x) ((f32_mag_scaled (f32_mag x) + 2 ^ 148) div 2 ^ 149) 1)"

definition f32_clamp :: "f32 \<Rightarrow> f32 \<Rightarrow> f32 \<Rightarrow> f32" where
  "f32_clamp x lo hi = (if f32_lt x lo then lo else if f32_lt hi x then hi else x)"

definition f32_to_u8 :: "f32 \<Rightarrow> 8 word" where
  "f32_to_u8 x =
     (if f32_is_nan x \<or> f32_sign x then 0
      else if \<not> f32_is_finite x then 255
      else of_nat (min 255 (f32_mag_scaled (f32_mag x) div 2 ^ 149)))"

section \<open>Scalar quantization\<close>

record sq_params =
  sq_scale :: f32
  sq_offset :: f32
  sq_code_sum :: f32

definition f32_255 :: f32 where "f32_255 = 0x437F0000"

definition sq_code :: "f32 \<Rightarrow> f32 \<Rightarrow> f32 \<Rightarrow> 8 word" where
  "sq_code scale lo x =
     (if f32_lt 0 scale then f32_to_u8 (f32_clamp (f32_round_away (f32_div (f32_sub x lo) scale)) 0 f32_255) else 0)"

definition quantize_into :: "vec \<Rightarrow> 8 word list \<Rightarrow> 8 word list \<times> sq_params" where
  "quantize_into v codes =
     (let lo = foldl f32_min f32_infinity v; hi = foldl f32_max f32_neg_infinity v in
      if v = [] then (codes, \<lparr>sq_scale = 0, sq_offset = 0, sq_code_sum = 0\<rparr>)
      else let range = f32_sub hi lo;
               scale = (if f32_lt f32_epsilon range then f32_div range f32_255 else 0);
               cs = map (sq_code scale lo) v in
        (codes @ cs,
         \<lparr>sq_scale = scale, sq_offset = lo, sq_code_sum = foldl (\<lambda>s c. f32_add s (f32_of_nat (unat c))) 0 cs\<rparr>))"

definition sq_dot_query :: "8 word list \<Rightarrow> sq_params \<Rightarrow> vec \<Rightarrow> f32 \<Rightarrow> f32" where
  "sq_dot_query codes p q qsum =
     (let acc = foldl (\<lambda>s (c, x). f32_add s (f32_mul (f32_of_nat (unat c)) x)) 0 (zip codes q) in
      f32_add (f32_mul (sq_scale p) acc) (f32_mul (sq_offset p) qsum))"

text \<open>The integer sum is a \<open>u32\<close>.\<close>

definition sq_dot_codes :: "8 word list \<Rightarrow> sq_params \<Rightarrow> 8 word list \<Rightarrow> sq_params \<Rightarrow> f32" where
  "sq_dot_codes a pa b pb =
     (let acc = foldl (\<lambda>s (x, y). s + ucast x * ucast y) (0 :: 32 word) (zip a b); d = f32_of_nat (length a) in
      f32_add (f32_add (f32_add
        (f32_mul (f32_mul (sq_scale pa) (sq_scale pb)) (f32_of_nat (unat acc)))
        (f32_mul (f32_mul (sq_scale pa) (sq_offset pb)) (sq_code_sum pa)))
        (f32_mul (f32_mul (sq_offset pa) (sq_scale pb)) (sq_code_sum pb)))
        (f32_mul (f32_mul d (sq_offset pa)) (sq_offset pb)))"

definition sq_decode :: "8 word list \<Rightarrow> sq_params \<Rightarrow> vec" where
  "sq_decode codes p = map (\<lambda>c. f32_add (f32_mul (f32_of_nat (unat c)) (sq_scale p)) (sq_offset p)) codes"

section \<open>Binary quantization\<close>

definition bq_bytes :: "nat \<Rightarrow> nat" where
  "bq_bytes n = (n + 7) div 8"

text \<open>Byte \<open>b\<close> of the code: bit \<open>i mod 8\<close> of byte \<open>i div 8\<close> is set for every positive component \<open>i\<close>.\<close>

definition bq_encode_into :: "vec \<Rightarrow> 8 word list \<Rightarrow> 8 word list" where
  "bq_encode_into v bits =
     fold (\<lambda>(i, x) bs. let j = length bits + i div 8 in if f32_lt 0 x then bs[j := bs ! j OR push_bit (i mod 8) 1] else bs)
       (enumerate 0 v) (bits @ replicate (bq_bytes (length v)) 0)"

definition bq_set :: "8 word list \<Rightarrow> nat \<Rightarrow> bool option" where
  "bq_set bits i = map_option (\<lambda>b. bit b (i mod 8)) (index_opt bits (i div 8))"

definition bq_dot_query :: "8 word list \<Rightarrow> vec \<Rightarrow> f32 option" where
  "bq_dot_query bits q =
     fold (\<lambda>(i, x) acc. case (acc, bq_set bits i) of
         (Some a, Some pos) \<Rightarrow> Some (f32_add a (if pos then x else f32_neg x)) | _ \<Rightarrow> None)
       (enumerate 0 q) (Some 0)"

text \<open>\<open>count_ones\<close>, and the number of bits in which two codes differ.\<close>

definition count_ones :: "8 word \<Rightarrow> nat" where
  "count_ones w = length (filter (bit w) [0..<8])"

definition hamming :: "8 word list \<Rightarrow> 8 word list \<Rightarrow> nat" where
  "hamming a b = sum_list (map (\<lambda>(x, y). count_ones (x XOR y)) (zip a b))"

definition f32_two :: f32 where "f32_two = 0x40000000"

definition bq_dot_codes :: "8 word list \<Rightarrow> 8 word list \<Rightarrow> nat \<Rightarrow> f32" where
  "bq_dot_codes a b n = f32_sub (f32_of_nat n) (f32_mul f32_two (f32_of_nat (hamming a b)))"

definition bq_decode :: "8 word list \<Rightarrow> nat \<Rightarrow> vec option" where
  "bq_decode bits n =
     (let s = f32_div f32_one (f32_sqrt (f32_of_nat n)) in
      those (map (\<lambda>i. map_option (\<lambda>pos. if pos then s else f32_neg s) (bq_set bits i)) [0..<n]))"

section \<open>Product quantization\<close>

record pq_codebook =
  pq_m :: nat
  pq_k :: nat
  pq_sub_dim :: nat
  pq_centroids :: "f32 list"

definition l2_sq :: "vec \<Rightarrow> vec \<Rightarrow> f32" where
  "l2_sq a b = f32_sum (map (\<lambda>(x, y). f32_mul (f32_sub x y) (f32_sub x y)) (zip a b))"

text \<open>The first centroid of least distance; index 0 when no distance is below infinity.\<close>

definition nearest_of :: "f32 list \<Rightarrow> nat" where
  "nearest_of ds =
     fst (foldl (\<lambda>(best, best_d) (c, d). if f32_lt d best_d then (c, d) else (best, best_d)) (0, f32_infinity) (enumerate 0 ds))"

text \<open>One iteration of Lloyd's algorithm; the flat centroid array is the list of its \<open>k\<close> rows.\<close>

definition vec_add :: "vec \<Rightarrow> vec \<Rightarrow> vec" where
  "vec_add a b = map (\<lambda>(x, y). f32_add x y) (zip a b)"

definition lloyd :: "vec list \<Rightarrow> nat \<Rightarrow> vec list \<Rightarrow> vec list" where
  "lloyd points sub_dim cents =
     (let assign = map (\<lambda>p. nearest_of (map (l2_sq p) cents)) points in
      map (\<lambda>(c, old).
        let mine = map fst (filter (\<lambda>(p, a). a = c) (zip points assign)) in
        if mine = [] then old
        else map (\<lambda>s. f32_div s (f32_of_nat (length mine))) (foldl vec_add (replicate sub_dim 0) mine))
        (enumerate 0 cents))"

definition kmeans :: "vec list \<Rightarrow> nat \<Rightarrow> nat \<Rightarrow> nat \<Rightarrow> vec list option" where
  "kmeans points sub_dim k iters =
     (let n = length points; k' = max 1 (min k n) in
      if points = [] then None
      else Some ((lloyd points sub_dim ^^ iters) (map (\<lambda>c. points ! (c * n div k')) [0..<k'])))"

definition pq_train :: "vec list \<Rightarrow> nat \<Rightarrow> nat \<Rightarrow> nat \<Rightarrow> pq_codebook option" where
  "pq_train sample n m iters =
     (if m = 0 \<or> n mod m \<noteq> 0 then None
      else let sub_dim = n div m; k = max 1 (min 256 (length sample)) in
        Option.bind (those (map (\<lambda>s.
            Option.bind (those (map (\<lambda>v. slice v (s * sub_dim) ((s + 1) * sub_dim)) sample)) (\<lambda>subs.
              kmeans subs sub_dim k iters)) [0..<m])) (\<lambda>rows.
          Some \<lparr>pq_m = m, pq_k = k, pq_sub_dim = sub_dim, pq_centroids = concat (concat rows)\<rparr>))"

definition pq_centroid :: "pq_codebook \<Rightarrow> nat \<Rightarrow> nat \<Rightarrow> vec option" where
  "pq_centroid cb s code =
     (let base = (s * pq_k cb + code) * pq_sub_dim cb in slice (pq_centroids cb) base (base + pq_sub_dim cb))"

definition pq_nearest :: "pq_codebook \<Rightarrow> nat \<Rightarrow> vec \<Rightarrow> 8 word option" where
  "pq_nearest cb s sub =
     Option.bind (those (map (pq_centroid cb s) [0..<pq_k cb])) (\<lambda>cents. Some (of_nat (nearest_of (map (l2_sq sub) cents))))"

definition pq_encode_into :: "vec \<Rightarrow> pq_codebook \<Rightarrow> 8 word list \<Rightarrow> 8 word list option" where
  "pq_encode_into v cb codes =
     Option.bind (those (map (\<lambda>s. Option.bind (slice v (s * pq_sub_dim cb) ((s + 1) * pq_sub_dim cb)) (pq_nearest cb s)) [0..<pq_m cb]))
       (\<lambda>cs. Some (codes @ cs))"

definition pq_dot :: "vec \<Rightarrow> vec \<Rightarrow> f32" where
  "pq_dot a b = f32_sum (map (\<lambda>(x, y). f32_mul x y) (zip a b))"

definition pq_dot_query :: "8 word list \<Rightarrow> pq_codebook \<Rightarrow> vec \<Rightarrow> f32 option" where
  "pq_dot_query codes cb q =
     Option.bind (those (map (\<lambda>s.
         Option.bind (slice q (s * pq_sub_dim cb) ((s + 1) * pq_sub_dim cb)) (\<lambda>qsub.
         Option.bind (Option.bind (index_opt codes s) (\<lambda>c. pq_centroid cb s (unat c))) (\<lambda>cent.
           Some (pq_dot qsub cent)))) [0..<pq_m cb]))
       (\<lambda>ds. Some (foldl f32_add 0 ds))"

definition pq_dot_codes :: "8 word list \<Rightarrow> 8 word list \<Rightarrow> pq_codebook \<Rightarrow> f32 option" where
  "pq_dot_codes a b cb =
     Option.bind (those (map (\<lambda>s.
         Option.bind (Option.bind (index_opt a s) (\<lambda>c. pq_centroid cb s (unat c))) (\<lambda>ca.
         Option.bind (Option.bind (index_opt b s) (\<lambda>c. pq_centroid cb s (unat c))) (\<lambda>cb'.
           Some (pq_dot ca cb')))) [0..<pq_m cb]))
       (\<lambda>ds. Some (foldl f32_add 0 ds))"

definition pq_decode :: "8 word list \<Rightarrow> pq_codebook \<Rightarrow> vec option" where
  "pq_decode codes cb =
     Option.bind (those (map (\<lambda>(s, c). pq_centroid cb s (unat c)) (enumerate 0 codes))) (\<lambda>rows. Some (concat rows))"

section \<open>Binary codes compare as signs\<close>

lemma bq_fold:
  "\<lbrakk>L + (m + length v) \<le> L + 8 * N; length bs = L + N\<rbrakk> \<Longrightarrow>
   length (fold (\<lambda>(i, x) bs. let j = L + i div 8 in if f32_lt 0 x then bs[j := bs ! j OR push_bit (i mod 8) 1] else bs)
     (enumerate m v) bs) = L + N \<and>
   (\<forall>q < L + N. \<forall>k < 8. bit (fold (\<lambda>(i, x) bs. let j = L + i div 8 in
        if f32_lt 0 x then bs[j := bs ! j OR push_bit (i mod 8) 1] else bs) (enumerate m v) (bs :: 8 word list) ! q) k \<longleftrightarrow>
      bit (bs ! q) k \<or> (\<exists>i < length v. q = L + (m + i) div 8 \<and> k = (m + i) mod 8 \<and> f32_lt 0 (v ! i)))"
proof (induction v arbitrary: m bs)
  case (Cons x v)
  let ?bs = "if f32_lt 0 x then bs[L + m div 8 := bs ! (L + m div 8) OR push_bit (m mod 8) 1] else bs"
  have j: "L + m div 8 < length bs" using Cons.prems by simp
  have b: "bit (?bs ! q) k \<longleftrightarrow> bit (bs ! q) k \<or> q = L + m div 8 \<and> k = m mod 8 \<and> f32_lt 0 x"
    if "q < L + N" "k < 8" for q k
    using that j by (cases "q = L + m div 8") (auto simp: bit_simps)
  have IH: "length (fold (\<lambda>(i, x) bs. let j = L + i div 8 in if f32_lt 0 x then bs[j := bs ! j OR push_bit (i mod 8) 1] else bs)
      (enumerate (Suc m) v) ?bs) = L + N \<and>
    (\<forall>q < L + N. \<forall>k < 8. bit (fold (\<lambda>(i, x) bs. let j = L + i div 8 in
        if f32_lt 0 x then bs[j := bs ! j OR push_bit (i mod 8) 1] else bs) (enumerate (Suc m) v) ?bs ! q) k \<longleftrightarrow>
      bit (?bs ! q) k \<or> (\<exists>i < length v. q = L + (Suc m + i) div 8 \<and> k = (Suc m + i) mod 8 \<and> f32_lt 0 (v ! i)))"
    by (rule Cons.IH) (use Cons.prems in simp_all)
  have ex: "(\<exists>i < length (x # v). Q i ((x # v) ! i)) \<longleftrightarrow> Q 0 x \<or> (\<exists>i < length v. Q (Suc i) (v ! i))" for Q
    by (auto simp: less_Suc_eq_0_disj)
  have fold1: "fold (\<lambda>(i, x) bs. let j = L + i div 8 in if f32_lt 0 x then bs[j := bs ! j OR push_bit (i mod 8) 1] else bs)
      (enumerate m (x # v)) bs = fold (\<lambda>(i, x) bs. let j = L + i div 8 in if f32_lt 0 x then bs[j := bs ! j OR push_bit (i mod 8) 1] else bs)
      (enumerate (Suc m) v) ?bs" by (simp add: Let_def)
  show ?case unfolding fold1
  proof (intro conjI allI impI)
    fix q k :: nat assume q: "q < L + N" "k < 8"
    note ex [of "\<lambda>i y. q = L + (m + i) div 8 \<and> k = (m + i) mod 8 \<and> f32_lt 0 y"]
    then show "bit (fold (\<lambda>(i, x) bs. let j = L + i div 8 in
          if f32_lt 0 x then bs[j := bs ! j OR push_bit (i mod 8) 1] else bs) (enumerate (Suc m) v) ?bs ! q) k \<longleftrightarrow>
        bit (bs ! q) k \<or> (\<exists>i < length (x # v). q = L + (m + i) div 8 \<and> k = (m + i) mod 8 \<and> f32_lt 0 ((x # v) ! i))"
      using IH b [OF q] q by auto
  qed (use IH in blast)
qed simp

lemma bq_encode_bits:
  "length (bq_encode_into v bits) = length bits + bq_bytes (length v)"
  "\<lbrakk>q < length bits; k < 8\<rbrakk> \<Longrightarrow> bit (bq_encode_into v bits ! q) k = bit (bits ! q) k"
  "\<lbrakk>j < bq_bytes (length v); k < 8\<rbrakk> \<Longrightarrow>
     bit (bq_encode_into v bits ! (length bits + j)) k \<longleftrightarrow> 8 * j + k < length v \<and> f32_lt 0 (v ! (8 * j + k))"
proof -
  have n: "length v \<le> 8 * bq_bytes (length v)" by (simp add: bq_bytes_def)
  note f = bq_fold [where L = "length bits" and m = 0 and v = v and N = "bq_bytes (length v)"
      and bs = "bits @ replicate (bq_bytes (length v)) 0", folded bq_encode_into_def]
  from f n show "length (bq_encode_into v bits) = length bits + bq_bytes (length v)" by simp
  show "\<lbrakk>q < length bits; k < 8\<rbrakk> \<Longrightarrow> bit (bq_encode_into v bits ! q) k = bit (bits ! q) k"
    using f n by (auto simp: nth_append)
  show "\<lbrakk>j < bq_bytes (length v); k < 8\<rbrakk> \<Longrightarrow>
      bit (bq_encode_into v bits ! (length bits + j)) k \<longleftrightarrow> 8 * j + k < length v \<and> f32_lt 0 (v ! (8 * j + k))"
    using f n by (auto simp: nth_append)
qed

lemma filter_blocks: "length (filter P [0..<8 * n]) = (\<Sum>j\<leftarrow>[0..<n]. length (filter (\<lambda>k. P (8 * j + k)) [0..<8]))"
proof (induction n)
  case (Suc n)
  have "[0..<8 * Suc n] = [0..<8 * n] @ map (\<lambda>k. 8 * n + k) [0..<8]"
    using upt_add_eq_append [of 0 "8 * n" 8] map_add_upt [of "8 * n" 8] by (simp add: ac_simps)
  then show ?case using Suc by (simp add: filter_map o_def)
qed simp

text \<open>The signs in which two vectors differ.\<close>

definition sign_differences :: "vec \<Rightarrow> vec \<Rightarrow> nat" where
  "sign_differences v w = length (filter (\<lambda>(x, y). f32_lt 0 x \<noteq> f32_lt 0 y) (zip v w))"

lemma hamming_signs:
  assumes "length v = length w"
  shows "hamming (bq_encode_into v []) (bq_encode_into w []) = sign_differences v w"
proof -
  let ?n = "length v" and ?a = "bq_encode_into v []" and ?b = "bq_encode_into w []"
  define P where "P i \<longleftrightarrow> i < ?n \<and> (f32_lt 0 (v ! i) \<noteq> f32_lt 0 (w ! i))" for i
  have len: "length ?a = bq_bytes ?n" "length ?b = bq_bytes ?n" using assms by (simp_all add: bq_encode_bits)
  have "count_ones (?a ! j XOR ?b ! j) = length (filter (\<lambda>k. P (8 * j + k)) [0..<8])" if "j < bq_bytes ?n" for j
  proof -
    have "filter (bit (?a ! j XOR ?b ! j)) [0..<8] = filter (\<lambda>k. P (8 * j + k)) [0..<8]"
    proof (rule filter_cong [OF refl])
      fix k :: nat assume "k \<in> set [0..<8]"
      then show "bit (?a ! j XOR ?b ! j) k = P (8 * j + k)"
        using bq_encode_bits(3) [of j v k "[]"] bq_encode_bits(3) [of j w k "[]"] that assms
        by (auto simp: bit_xor_iff P_def)
    qed
    then show ?thesis by (simp add: count_ones_def)
  qed
  then have "hamming ?a ?b = (\<Sum>j\<leftarrow>[0..<bq_bytes ?n]. length (filter (\<lambda>k. P (8 * j + k)) [0..<8]))"
    unfolding hamming_def using len by (intro arg_cong [where f = sum_list] nth_equalityI) simp_all
  also have "\<dots> = length (filter P [0..<8 * bq_bytes ?n])" by (rule filter_blocks [symmetric])
  also have "filter P [0..<8 * bq_bytes ?n] = filter P [0..<?n]"
  proof -
    have "?n \<le> 8 * bq_bytes ?n" by (simp add: bq_bytes_def)
    then have "[0..<8 * bq_bytes ?n] = [0..<?n] @ [?n..<8 * bq_bytes ?n]" using upt_add_eq_append [of 0 ?n "8 * bq_bytes ?n - ?n"] by simp
    moreover have "filter P [?n..<8 * bq_bytes ?n] = []" by (auto simp: P_def filter_empty_conv)
    ultimately show ?thesis by simp
  qed
  also have "length (filter P [0..<?n]) = length (filter (\<lambda>(x, y). f32_lt 0 x \<noteq> f32_lt 0 y) (map (\<lambda>i. (v ! i, w ! i)) [0..<?n]))"
    unfolding filter_map length_map by (intro arg_cong [where f = length] filter_cong) (auto simp: P_def)
  also have "map (\<lambda>i. (v ! i, w ! i)) [0..<?n] = zip v w"
    using assms by (intro nth_equalityI) simp_all
  finally show ?thesis by (simp add: sign_differences_def)
qed

section \<open>Product codes stay in range\<close>

definition pq_ok :: "pq_codebook \<Rightarrow> bool" where
  "pq_ok cb \<longleftrightarrow> length (pq_centroids cb) = pq_m cb * pq_k cb * pq_sub_dim cb \<and> 0 < pq_k cb \<and> pq_k cb \<le> 256"

definition codes_ok :: "pq_codebook \<Rightarrow> 8 word list \<Rightarrow> bool" where
  "codes_ok cb codes \<longleftrightarrow> length codes = pq_m cb \<and> (\<forall>c \<in> set codes. unat c < pq_k cb)"

lemma slice_Some: "i \<le> j \<Longrightarrow> j \<le> length xs \<Longrightarrow> \<exists>ys. slice xs i j = Some ys \<and> length ys = j - i"
  by (simp add: slice_def)

lemma slice_length: "slice xs i j = Some ys \<Longrightarrow> length ys = j - i"
  by (auto simp: slice_def split: if_splits)

lemma those_map:
  "(\<And>x. x \<in> set xs \<Longrightarrow> f x = Some (g x)) \<Longrightarrow> those (map f xs) = Some (map g xs)"
  by (induction xs) simp_all

lemma those_length: "those xs = Some ys \<Longrightarrow> length ys = length xs"
  by (induction xs arbitrary: ys) (auto split: option.splits)

lemma those_nth: "those xs = Some ys \<Longrightarrow> i < length xs \<Longrightarrow> xs ! i = Some (ys ! i)"
  by (induction xs arbitrary: ys i) (auto split: option.splits simp: nth_Cons')

lemma those_total: "\<forall>x \<in> set xs. x \<noteq> None \<Longrightarrow> \<exists>ys. those xs = Some ys"
  by (induction xs) auto

lemma block_le: "s < m \<Longrightarrow> c < k \<Longrightarrow> (s * k + c) * d + d \<le> m * k * (d :: nat)"
proof -
  assume "s < m" "c < k"
  have "(s * k + c) * d + d = (s * k + (c + 1)) * d" by (simp add: algebra_simps)
  also have "\<dots> \<le> (s * k + k) * d" using \<open>c < k\<close> by (intro mult_right_mono) simp_all
  also have "\<dots> = (s + 1) * k * d" by (simp add: algebra_simps)
  also have "\<dots> \<le> m * k * d" using \<open>s < m\<close> by (intro mult_right_mono) simp_all
  finally show ?thesis .
qed

lemma pq_centroid_Some:
  assumes "pq_ok cb" "s < pq_m cb" "c < pq_k cb"
  shows "\<exists>v. pq_centroid cb s c = Some v \<and> length v = pq_sub_dim cb"
proof -
  define base where "base = (s * pq_k cb + c) * pq_sub_dim cb"
  have "base + pq_sub_dim cb \<le> length (pq_centroids cb)"
    using block_le [OF assms(2,3), of "pq_sub_dim cb"] assms(1) by (simp add: base_def pq_ok_def)
  from slice_Some [OF _ this, of base] show ?thesis by (simp add: pq_centroid_def Let_def base_def)
qed

lemma nearest_of_less: "ds \<noteq> [] \<Longrightarrow> nearest_of ds < length ds"
proof -
  assume "ds \<noteq> []"
  have "fst (foldl (\<lambda>(best, best_d) (c, d). if f32_lt d best_d then (c, d) else (best, best_d)) acc (enumerate m xs)) < n"
    if "fst acc < n" "m + length xs \<le> n" for acc m n and xs :: "f32 list"
    using that
  proof (induction xs arbitrary: acc m)
    case (Cons x xs)
    then show ?case using Cons.IH [of "if f32_lt x (snd acc) then (m, x) else acc" "Suc m"] by (cases acc) simp
  qed simp
  from this [of "(0, f32_infinity)" "length ds" 0 ds] \<open>ds \<noteq> []\<close> show ?thesis by (simp add: nearest_of_def)
qed

lemma pq_nearest_Some:
  assumes "pq_ok cb" "s < pq_m cb"
  shows "\<exists>c. pq_nearest cb s sub = Some c \<and> unat c < pq_k cb"
proof -
  obtain cents where c: "those (map (pq_centroid cb s) [0..<pq_k cb]) = Some cents"
    using those_total [of "map (pq_centroid cb s) [0..<pq_k cb]"] pq_centroid_Some [OF assms] by fastforce
  then have "length cents = pq_k cb" using those_length by fastforce
  moreover from this have "cents \<noteq> []" using assms(1) by (auto simp: pq_ok_def)
  ultimately have n: "nearest_of (map (l2_sq sub) cents) < pq_k cb" using nearest_of_less [of "map (l2_sq sub) cents"] by simp
  moreover have "pq_k cb \<le> 256" using assms(1) by (simp add: pq_ok_def)
  ultimately have "unat (of_nat (nearest_of (map (l2_sq sub) cents)) :: 8 word) < pq_k cb" by (simp add: unat_of_nat)
  then show ?thesis using c by (simp add: pq_nearest_def)
qed

lemma block_slice: "s < m \<Longrightarrow> length v = m * d \<Longrightarrow> \<exists>x. slice v (s * d) ((s + 1) * d) = Some x \<and> length x = d"
  using slice_Some [of "s * d" "(s + 1) * d" v] mult_right_mono [of "s + 1" m d] by (simp add: algebra_simps)

text \<open>A vector of the codebook's dimension is encoded to one code in range per subspace.\<close>

lemma pq_encode_ok:
  assumes "pq_ok cb" "length v = pq_m cb * pq_sub_dim cb"
  shows "\<exists>cs. pq_encode_into v cb codes = Some (codes @ cs) \<and> codes_ok cb cs"
proof -
  let ?f = "\<lambda>s. Option.bind (slice v (s * pq_sub_dim cb) ((s + 1) * pq_sub_dim cb)) (pq_nearest cb s)"
  have f: "\<exists>c. ?f s = Some c \<and> unat c < pq_k cb" if s: "s < pq_m cb" for s
    using block_slice [OF s assms(2)] pq_nearest_Some [OF assms(1) s] by (metis bind.bind_lunit)
  obtain cs where cs: "those (map ?f [0..<pq_m cb]) = Some cs" using those_total [of "map ?f [0..<pq_m cb]"] f by fastforce
  have len: "length cs = pq_m cb" using those_length [OF cs] by simp
  have "unat (cs ! s) < pq_k cb" if "s < pq_m cb" for s using f [OF that] those_nth [OF cs, of s] that by auto
  then have "codes_ok cb cs" using len by (auto simp: codes_ok_def in_set_conv_nth)
  then show ?thesis using cs by (simp add: pq_encode_into_def)
qed

lemma concat_length: "\<forall>x \<in> set xs. length x = d \<Longrightarrow> length (concat xs) = length xs * d"
  by (induction xs) simp_all

lemma pq_decode_ok:
  assumes "pq_ok cb" "codes_ok cb codes"
  shows "\<exists>v. pq_decode codes cb = Some v \<and> length v = pq_m cb * pq_sub_dim cb"
proof -
  let ?f = "\<lambda>(s, c). pq_centroid cb s (unat c)"
  have f: "\<exists>v. ?f x = Some v \<and> length v = pq_sub_dim cb" if "x \<in> set (enumerate 0 codes)" for x
  proof -
    have x: "fst x < length codes" "snd x = codes ! fst x" using that by (auto simp: in_set_enumerate_eq)
    then have "snd x \<in> set codes" by simp
    then show ?thesis using x pq_centroid_Some [OF assms(1), of "fst x" "unat (snd x)"] assms(2) by (simp add: codes_ok_def split_def)
  qed
  obtain rows where r: "those (map ?f (enumerate 0 codes)) = Some rows" using those_total [of "map ?f (enumerate 0 codes)"] f by fastforce
  have len: "length rows = pq_m cb" using those_length [OF r] assms(2) by (simp add: codes_ok_def)
  have "length (rows ! i) = pq_sub_dim cb" if "i < length rows" for i
    using f [of "enumerate 0 codes ! i"] those_nth [OF r, of i] that those_length [OF r] by fastforce
  then have "\<forall>x \<in> set rows. length x = pq_sub_dim cb" by (auto simp: in_set_conv_nth)
  then have "length (concat rows) = pq_m cb * pq_sub_dim cb" using len concat_length [of rows "pq_sub_dim cb"] by simp
  then show ?thesis using r by (simp add: pq_decode_def)
qed

lemma vec_add_length [simp]: "length (vec_add a b) = min (length a) (length b)"
  by (simp add: vec_add_def)

lemma fold_vec_add_length: "length a = d \<Longrightarrow> \<forall>v \<in> set vs. length v = d \<Longrightarrow> length (foldl vec_add a vs) = d"
  by (induction vs arbitrary: a) simp_all

lemma lloyd_shape:
  assumes "\<forall>p \<in> set points. length p = d" "\<forall>c \<in> set cents. length c = d"
  shows "length (lloyd points d cents) = length cents \<and> (\<forall>c \<in> set (lloyd points d cents). length c = d)"
proof -
  have mine: "\<forall>p \<in> set (map fst (filter (\<lambda>(p, a). a = c) (zip points xs))). length p = d" for c :: nat and xs
    using assms(1) by (auto dest: set_zip_leftD)
  have "length (foldl vec_add (replicate d 0) (map fst (filter (\<lambda>(p, a). a = c) (zip points xs)))) = d" for c :: nat and xs
    by (rule fold_vec_add_length [OF _ mine]) simp
  then show ?thesis using assms(2) by (auto simp: lloyd_def Let_def in_set_enumerate_eq dest: nth_mem)
qed

lemma kmeans_shape:
  assumes "points \<noteq> []" "\<forall>p \<in> set points. length p = d" "k \<le> length points" "0 < k"
  shows "\<exists>cents. kmeans points d k iters = Some cents \<and> length cents = k \<and> (\<forall>c \<in> set cents. length c = d)"
proof -
  let ?init = "map (\<lambda>c. points ! (c * length points div k)) [0..<k]"
  have "c * length points div k < length points" if "c < k" for c
    using that assms(1,4) by (simp add: div_less_iff_less_mult)
  then have init: "length ?init = k" "\<forall>c \<in> set ?init. length c = d" using assms(2) by auto
  have "length ((lloyd points d ^^ iters) ?init) = k \<and> (\<forall>c \<in> set ((lloyd points d ^^ iters) ?init). length c = d)"
  proof (induction iters)
    case (Suc i)
    then show ?case using lloyd_shape [OF assms(2), of "(lloyd points d ^^ i) ?init"] by simp
  qed (use init in simp)
  moreover have "max 1 (min k (length points)) = k" using assms by simp
  ultimately show ?thesis using assms(1) by (simp add: kmeans_def Let_def)
qed

text \<open>Training on a sample of the dimension gives a codebook of that shape.\<close>

lemma pq_train_ok:
  assumes "0 < m" "n mod m = 0" "sample \<noteq> []" "\<forall>v \<in> set sample. length v = n"
  shows "\<exists>cb. pq_train sample n m iters = Some cb \<and> pq_ok cb \<and> pq_m cb = m \<and> pq_m cb * pq_sub_dim cb = n"
proof -
  define d k where "d = n div m" and "k = max 1 (min 256 (length sample))"
  have n: "m * d = n" using assms(2) unfolding d_def by (metis dvd_mult_div_cancel mod_0_imp_dvd)
  have k: "0 < k" "k \<le> 256" "k \<le> length sample" using assms(3) by (cases sample; auto simp: k_def)+
  define row where "row s = Option.bind (those (map (\<lambda>v. slice v (s * d) ((s + 1) * d)) sample)) (\<lambda>subs. kmeans subs d k iters)" for s
  have row: "\<exists>cents. row s = Some cents \<and> length cents = k \<and> (\<forall>c \<in> set cents. length c = d)" if s: "s < m" for s
  proof -
    have "\<exists>x. slice v (s * d) ((s + 1) * d) = Some x \<and> length x = d" if "v \<in> set sample" for v
      using block_slice [OF s, of v d] assms(4) that n by simp
    then obtain g where g: "\<And>v. v \<in> set sample \<Longrightarrow> slice v (s * d) ((s + 1) * d) = Some (g v) \<and> length (g v) = d" by metis
    then have "those (map (\<lambda>v. slice v (s * d) ((s + 1) * d)) sample) = Some (map g sample)" by (intro those_map) simp
    moreover have "\<exists>cents. kmeans (map g sample) d k iters = Some cents \<and> length cents = k \<and> (\<forall>c \<in> set cents. length c = d)"
      by (rule kmeans_shape) (use assms(3) g k in auto)
    ultimately show ?thesis by (simp add: row_def)
  qed
  obtain rows where r: "those (map row [0..<m]) = Some rows" using those_total [of "map row [0..<m]"] row by fastforce
  have len: "length rows = m" using those_length [OF r] by simp
  have "length x = k \<and> (\<forall>c \<in> set x. length c = d)" if x: "x \<in> set rows" for x
  proof -
    obtain s where s: "s < m" "x = rows ! s" using x len by (auto simp: in_set_conv_nth)
    then have "row s = Some x" using those_nth [OF r, of s] by simp
    then show ?thesis using row [OF s(1)] by auto
  qed
  then have "length (concat (concat rows)) = m * k * d"
    using concat_length [of rows k] concat_length [of "concat rows" d] len by auto
  then have "pq_ok \<lparr>pq_m = m, pq_k = k, pq_sub_dim = d, pq_centroids = concat (concat rows)\<rparr>" using k by (simp add: pq_ok_def)
  moreover have "pq_train sample n m iters = Some \<lparr>pq_m = m, pq_k = k, pq_sub_dim = d, pq_centroids = concat (concat rows)\<rparr>"
    using assms(1,2) r unfolding pq_train_def Let_def d_def [symmetric] k_def [symmetric] row_def [symmetric] by simp
  ultimately show ?thesis using n by simp
qed

end
