(* ===== verification/VecStore.thy ===== *)
theory VecStore
  imports Quant Search
begin

text \<open>
  The vector storage of \<open>crates/recall/src/ann.rs\<close>: a base paged from a file, through a bounded cache of
  least recently used pages, and a tail in memory; and the four stores of a graph on top of it.  \<open>None\<close>
  is a panic.
\<close>

section \<open>The page cache\<close>

record 'a page_cache =
  pc_cap :: nat
  pc_tick :: nat
  pc_map :: "(nat \<times> 'a list \<times> nat) list"

definition cache_new :: "nat \<Rightarrow> 'a page_cache" where
  "cache_new cap = \<lparr>pc_cap = cap, pc_tick = 0, pc_map = []\<rparr>"

definition cache_get :: "nat \<Rightarrow> 'a page_cache \<Rightarrow> 'a list option \<times> 'a page_cache" where
  "cache_get idx c =
     (let t = pc_tick c + 1; c1 = c\<lparr>pc_tick := t\<rparr> in
      case map_of (pc_map c) idx of
        None \<Rightarrow> (None, c1)
      | Some (page, _) \<Rightarrow> (Some page, c1\<lparr>pc_map := AList.update idx (page, t) (pc_map c)\<rparr>))"

text \<open>The oldest entry; ticks are distinct.\<close>

definition cache_victim :: "(nat \<times> 'a list \<times> nat) list \<Rightarrow> nat" where
  "cache_victim m = fst (hd (sort_key (\<lambda>(i, p, t). t) m))"

definition cache_put :: "nat \<Rightarrow> 'a list \<Rightarrow> 'a page_cache \<Rightarrow> 'a page_cache" where
  "cache_put idx page c =
     (let m = (if map_of (pc_map c) idx = None \<and> pc_cap c \<le> length (pc_map c) \<and> pc_map c \<noteq> []
               then AList.delete (cache_victim (pc_map c)) (pc_map c) else pc_map c);
          t = pc_tick c + 1 in
      c\<lparr>pc_tick := t, pc_map := AList.update idx (page, t) m\<rparr>)"

definition cache_resident :: "'a page_cache \<Rightarrow> nat" where
  "cache_resident c = sum_list (map (\<lambda>(i, p, t). length p) (pc_map c))"

section \<open>The paged base\<close>

text \<open>The file's elements in node order; its sizes count elements of \<open>elem_bytes\<close> bytes each.\<close>

record 'a paged_base =
  pb_file :: "'a list"
  pb_unit :: nat
  pb_per_page :: nat
  pb_total :: nat

definition page_bytes :: nat where "page_bytes = 64 * 1024"

definition paged_new :: "'a list \<Rightarrow> nat \<Rightarrow> nat \<Rightarrow> nat \<Rightarrow> nat \<Rightarrow> 'a paged_base \<times> 'a page_cache" where
  "paged_new file unit n budget elem_bytes =
     (let vec_bytes = unit * elem_bytes; per_page = max 1 (page_bytes div max 1 vec_bytes);
          pb = per_page * vec_bytes; cap = max 1 (budget div max 1 pb) in
      (\<lparr>pb_file = file, pb_unit = unit, pb_per_page = per_page, pb_total = n\<rparr>, cache_new cap))"

text \<open>The page read from the file: the underflow of \<open>total - start\<close> and a read past the end panic.\<close>

definition read_page :: "'a paged_base \<Rightarrow> nat \<Rightarrow> 'a list option" where
  "read_page pb idx =
     (let start = idx * pb_per_page pb in
      if pb_total pb < start then None
      else let count = min (pb_total pb - start) (pb_per_page pb) in
        slice (pb_file pb) (start * pb_unit pb) (start * pb_unit pb + count * pb_unit pb))"

definition page :: "'a paged_base \<Rightarrow> nat \<Rightarrow> 'a page_cache \<Rightarrow> ('a list \<times> 'a page_cache) option" where
  "page pb idx c =
     (case cache_get idx c of
        (Some p, c1) \<Rightarrow> Some (p, c1)
      | (None, c1) \<Rightarrow> map_option (\<lambda>p. (p, cache_put idx p c1)) (read_page pb idx))"

definition paged_with :: "'a paged_base \<Rightarrow> nat \<Rightarrow> 'a page_cache \<Rightarrow> ('a list \<times> 'a page_cache) option" where
  "paged_with pb node c =
     Option.bind (page pb (node div pb_per_page pb) c) (\<lambda>(p, c').
       let off = (node mod pb_per_page pb) * pb_unit pb in
       map_option (\<lambda>v. (v, c')) (slice p off (off + pb_unit pb)))"

text \<open>A cache that holds only pages of the file, each under its index, at most \<open>cap\<close> of them.\<close>

definition cache_ok :: "'a paged_base \<Rightarrow> 'a page_cache \<Rightarrow> bool" where
  "cache_ok pb c \<longleftrightarrow>
     distinct (map fst (pc_map c)) \<and> 0 < pc_cap c \<and> length (pc_map c) \<le> pc_cap c \<and>
     (\<forall>i p t. map_of (pc_map c) i = Some (p, t) \<longrightarrow> read_page pb i = Some p)"

definition paged_ok :: "'a paged_base \<Rightarrow> bool" where
  "paged_ok pb \<longleftrightarrow> 0 < pb_per_page pb \<and> length (pb_file pb) = pb_total pb * pb_unit pb"

lemma cache_new_ok: "0 < cap \<Longrightarrow> cache_ok pb (cache_new cap)"
  by (simp add: cache_ok_def cache_new_def)

lemma update_keys_length:
  "distinct (map fst m) \<Longrightarrow> length (AList.update k v m) = (if map_of m k = None then Suc (length m) else length m)"
  by (induction m) (force simp: map_of_eq_None_iff)+

lemma delete_length: "distinct (map fst m) \<Longrightarrow> k \<in> fst ` set m \<Longrightarrow> Suc (length (AList.delete k m)) = length m"
proof (induction m)
  case (Cons x m)
  show ?case
  proof (cases "fst x = k")
    case True
    then have "filter (\<lambda>(k', _). k \<noteq> k') m = m" using Cons.prems(1) True by (intro filter_True) (auto simp: image_iff)
    then show ?thesis using True by (cases x) (simp add: AList.delete_eq)
  next
    case False
    then show ?thesis using Cons by (cases x) (auto simp: AList.delete_eq)
  qed
qed simp

lemma cache_victim_mem: "m \<noteq> [] \<Longrightarrow> cache_victim m \<in> fst ` set m"
proof -
  assume "m \<noteq> []"
  then have "sort_key (\<lambda>(i, p, t). t) m \<noteq> []" by (metis sort_key_simps(1) length_sort length_0_conv)
  then have "hd (sort_key (\<lambda>(i, p, t). t) m) \<in> set m" by (metis hd_in_set set_sort)
  then show ?thesis by (simp add: cache_victim_def)
qed

lemma cache_get_ok:
  assumes "cache_ok pb c" "cache_get idx c = (r, c')"
  shows "cache_ok pb c' \<and> (\<forall>p. r = Some p \<longrightarrow> read_page pb idx = Some p)"
proof (cases "map_of (pc_map c) idx")
  case None
  then show ?thesis using assms by (auto simp: cache_get_def Let_def cache_ok_def simp del: map_of_eq_Some_iff)
next
  case (Some x)
  then show ?thesis using assms
    by (cases x) (auto simp: cache_get_def Let_def cache_ok_def update_conv' distinct_update update_keys_length
        simp del: map_of_eq_Some_iff split: if_splits)
qed

lemma cache_put_ok:
  assumes ok: "cache_ok pb c" and p: "read_page pb idx = Some p"
  shows "cache_ok pb (cache_put idx p c)"
proof -
  define m where "m = (if map_of (pc_map c) idx = None \<and> pc_cap c \<le> length (pc_map c) \<and> pc_map c \<noteq> []
    then AList.delete (cache_victim (pc_map c)) (pc_map c) else pc_map c)"
  have put: "cache_put idx p c = c\<lparr>pc_tick := pc_tick c + 1, pc_map := AList.update idx (p, pc_tick c + 1) m\<rparr>"
    by (simp add: cache_put_def Let_def m_def)
  have d: "distinct (map fst m)" using ok by (simp add: m_def cache_ok_def distinct_delete)
  have sub: "map_of m i = Some y \<Longrightarrow> map_of (pc_map c) i = Some y" for i y
    by (auto simp: m_def delete_conv' split: if_splits)
  have "length (AList.update idx (p, pc_tick c + 1) m) \<le> pc_cap c"
  proof (cases "map_of (pc_map c) idx = None")
    case True
    then have none: "map_of m idx = None" by (auto simp: m_def delete_conv')
    show ?thesis
    proof (cases "pc_cap c \<le> length (pc_map c)")
      case True
      then have "pc_map c \<noteq> []" using ok by (auto simp: cache_ok_def)
      then have "Suc (length m) = length (pc_map c)"
        using True \<open>map_of (pc_map c) idx = None\<close> ok delete_length [OF _ cache_victim_mem, of "pc_map c"] by (simp add: m_def cache_ok_def)
      then show ?thesis using ok none d by (simp add: update_keys_length cache_ok_def)
    next
      case False
      then have "m = pc_map c" by (simp add: m_def)
      then show ?thesis using False none d by (simp add: update_keys_length)
    qed
  next
    case False
    then have "m = pc_map c" by (auto simp: m_def)
    then show ?thesis using ok False update_keys_length [of "pc_map c" idx] by (simp add: cache_ok_def del: not_None_eq)
  qed
  then show ?thesis using ok p sub d unfolding put cache_ok_def
    by (auto simp: distinct_update update_conv' simp del: map_of_eq_Some_iff split: if_splits)
qed

text \<open>A read through any such cache is the node's vector in the file, and keeps the cache so.\<close>

lemma paged_with_reads:
  assumes ok: "paged_ok pb" "cache_ok pb c" and node: "node < pb_total pb"
  shows "\<exists>c'. paged_with pb node c = Some (take (pb_unit pb) (drop (node * pb_unit pb) (pb_file pb)), c') \<and> cache_ok pb c'"
proof -
  let ?P = "pb_per_page pb" and ?u = "pb_unit pb"
  define idx where "idx = node div ?P"
  define start where "start = idx * ?P"
  define count where "count = min (pb_total pb - start) ?P"
  define pg where "pg = take (count * ?u) (drop (start * ?u) (pb_file pb))"
  have P: "0 < ?P" and len: "length (pb_file pb) = pb_total pb * ?u" using ok(1) by (simp_all add: paged_ok_def)
  have node_eq: "node = start + node mod ?P" by (simp add: start_def idx_def)
  have within: "node mod ?P < count" using P node node_eq by (auto simp: count_def)
  have sc: "start + count \<le> pb_total pb" using node node_eq by (auto simp: count_def)
  then have "start * ?u + count * ?u \<le> length (pb_file pb)" unfolding len by (metis add_mult_distrib mult_le_mono1)
  then have rd: "read_page pb idx = Some pg"
    using node node_eq by (simp add: read_page_def Let_def slice_def pg_def flip: start_def count_def)
  obtain r c1 where g: "cache_get idx c = (r, c1)" by (cases "cache_get idx c")
  note g_ok = cache_get_ok [OF ok(2) g]
  obtain c' where pc: "page pb idx c = Some (pg, c')" "cache_ok pb c'"
    using g g_ok rd cache_put_ok [of pb c1 idx pg] by (cases r) (auto simp: page_def)
  have "length pg = count * ?u" using \<open>start * ?u + count * ?u \<le> length (pb_file pb)\<close> by (simp add: pg_def)
  moreover have "(node mod ?P) * ?u + ?u \<le> count * ?u" using within by (metis add.commute mult_Suc mult_le_mono1 Suc_leI)
  ultimately have "slice pg ((node mod ?P) * ?u) ((node mod ?P) * ?u + ?u) = Some (take ?u (drop (node mod ?P * ?u) pg))"
    by (simp add: slice_def)
  also have "take ?u (drop (node mod ?P * ?u) pg) = take ?u (drop (node * ?u) (pb_file pb))"
  proof -
    have "take ?u (drop (node mod ?P * ?u) pg) = take ?u (drop (node mod ?P * ?u + start * ?u) (pb_file pb))"
      using \<open>(node mod ?P) * ?u + ?u \<le> count * ?u\<close> by (simp add: pg_def drop_take take_take min_def)
    also have "node mod ?P * ?u + start * ?u = node * ?u" by (subst (2) node_eq) (simp add: add_mult_distrib)
    finally show ?thesis .
  qed
  finally show ?thesis using pc by (simp add: paged_with_def Let_def idx_def)
qed

section \<open>Vectors by node\<close>

text \<open>The length of the base is in elements; reads do not depend on the cache, so they are written without it.\<close>

record 'a mapped =
  mv_base :: "'a paged_base option"
  mv_base_len :: nat
  mv_tail :: "'a list"

definition in_ram :: "'a mapped" where
  "in_ram = \<lparr>mv_base = None, mv_base_len = 0, mv_tail = []\<rparr>"

definition paged_vec :: "'a paged_base \<Rightarrow> nat \<Rightarrow> 'a mapped" where
  "paged_vec pb n = \<lparr>mv_base = Some pb, mv_base_len = n, mv_tail = []\<rparr>"

definition base_read :: "'a paged_base \<Rightarrow> nat \<Rightarrow> 'a list option" where
  "base_read pb node = map_option fst (paged_with pb node (cache_new 1))"

definition mv_with :: "'a mapped \<Rightarrow> nat \<Rightarrow> nat \<Rightarrow> 'a list option" where
  "mv_with mv node unit =
     (case mv_base mv of
        None \<Rightarrow> slice (mv_tail mv) (node * unit) (node * unit + unit)
      | Some pb \<Rightarrow>
          if unit = 0 then None
          else let base_count = mv_base_len mv div unit in
            if node < base_count then base_read pb node
            else slice (mv_tail mv) ((node - base_count) * unit) ((node - base_count) * unit + unit))"

definition mv_push :: "'a mapped \<Rightarrow> 'a list \<Rightarrow> 'a mapped" where
  "mv_push mv block = mv\<lparr>mv_tail := mv_tail mv @ block\<rparr>"

definition mv_len :: "'a mapped \<Rightarrow> nat" where
  "mv_len mv = mv_base_len mv + length (mv_tail mv)"

definition mv_all :: "'a mapped \<Rightarrow> 'a list" where
  "mv_all mv = (case mv_base mv of None \<Rightarrow> [] | Some pb \<Rightarrow> pb_file pb) @ mv_tail mv"

definition mv_needs_flush :: "'a mapped \<Rightarrow> bool" where
  "mv_needs_flush mv \<longleftrightarrow> mv_base mv = None \<or> mv_tail mv \<noteq> []"

text \<open>Vectors of \<open>n\<close> nodes, \<open>unit\<close> elements each.\<close>

definition mapped_ok :: "nat \<Rightarrow> nat \<Rightarrow> 'a mapped \<Rightarrow> bool" where
  "mapped_ok n unit mv \<longleftrightarrow>
     length (mv_all mv) = n * unit \<and>
     (case mv_base mv of
        None \<Rightarrow> mv_base_len mv = 0
      | Some pb \<Rightarrow> paged_ok pb \<and> 0 < unit \<and> pb_unit pb = unit \<and> mv_base_len mv = pb_total pb * unit)"

lemma mv_with_reads:
  assumes ok: "mapped_ok n unit mv" and node: "node < n"
  shows "mv_with mv node unit = Some (take unit (drop (node * unit) (mv_all mv)))"
    "length (take unit (drop (node * unit) (mv_all mv))) = unit"
proof -
  have u: "node * unit + unit \<le> n * unit" using node by (metis add.commute mult_Suc mult_le_mono1 Suc_leI)
  have len: "length (mv_all mv) = n * unit" using ok by (simp add: mapped_ok_def)
  then show "length (take unit (drop (node * unit) (mv_all mv))) = unit" using u by simp
  show "mv_with mv node unit = Some (take unit (drop (node * unit) (mv_all mv)))"
  proof (cases "mv_base mv")
    case None
    then show ?thesis using u len by (simp add: mv_with_def slice_def mv_all_def)
  next
    case (Some pb)
    then have b: "paged_ok pb" "0 < unit" "pb_unit pb = unit" "mv_base_len mv div unit = pb_total pb"
      using ok by (auto simp: mapped_ok_def)
    have flen: "length (pb_file pb) = pb_total pb * unit" using b by (simp add: paged_ok_def)
    show ?thesis
    proof (cases "node < pb_total pb")
      case True
      have "node * unit + unit \<le> length (pb_file pb)" unfolding flen using True by (metis add.commute mult_Suc mult_le_mono1 Suc_leI)
      moreover have "base_read pb node = Some (take unit (drop (node * unit) (pb_file pb)))"
        using paged_with_reads [OF b(1) cache_new_ok [of 1 pb] True] b(3) by (auto simp: base_read_def)
      ultimately show ?thesis using True Some b by (simp add: mv_with_def mv_all_def)
    next
      case False
      then have "node * unit = pb_total pb * unit + (node - pb_total pb) * unit" by (simp flip: add_mult_distrib)
      then show ?thesis using False Some b u len flen by (simp add: mv_with_def mv_all_def slice_def)
    qed
  qed
qed

lemma mv_push_ok: "mapped_ok n unit mv \<Longrightarrow> length block = unit \<Longrightarrow> mapped_ok (Suc n) unit (mv_push mv block)"
  by (auto simp: mapped_ok_def mv_push_def mv_all_def split: option.splits)

lemma mv_push_all [simp]: "mv_all (mv_push mv block) = mv_all mv @ block"
  by (simp add: mv_push_def mv_all_def)

lemma in_ram_ok [simp]: "mapped_ok 0 unit in_ram" "mv_all in_ram = []"
  by (simp_all add: mapped_ok_def in_ram_def mv_all_def)

section \<open>The stores of a graph\<close>

datatype vstore =
    SFull "f32 mapped"
  | SSq8 "8 word mapped" "sq_params list"
  | SBq "8 word mapped"
  | SPq "pq_codebook option" "f32 list" "8 word mapped" nat

definition pq_train_size :: nat where "pq_train_size = 4096"
definition pq_train_iters :: nat where "pq_train_iters = 12"

text \<open>\<open>chunks_exact\<close>: the whole chunks; a chunk size of 0 panics, which its callers exclude.\<close>

definition chunks_exact :: "nat \<Rightarrow> 'a list \<Rightarrow> 'a list list" where
  "chunks_exact n xs = map (\<lambda>i. take n (drop (i * n) xs)) [0..<length xs div n]"

definition train_pq :: "f32 list \<Rightarrow> nat \<Rightarrow> nat \<Rightarrow> pq_codebook option" where
  "train_pq warmup d m = pq_train (chunks_exact d warmup) d m pq_train_iters"

definition store_empty :: "quantizer \<Rightarrow> vstore" where
  "store_empty q =
     (case q of QNone \<Rightarrow> SFull in_ram | QSq8 \<Rightarrow> SSq8 in_ram [] | QBq \<Rightarrow> SBq in_ram | QPq m \<Rightarrow> SPq None [] in_ram m)"

definition store_quantizer :: "vstore \<Rightarrow> quantizer" where
  "store_quantizer s = (case s of SFull v \<Rightarrow> QNone | SSq8 c p \<Rightarrow> QSq8 | SBq b \<Rightarrow> QBq | SPq cb w c m \<Rightarrow> QPq m)"

definition encode_chunks :: "pq_codebook \<Rightarrow> f32 list list \<Rightarrow> 8 word list \<Rightarrow> 8 word list option" where
  "encode_chunks cb chunks codes = fold (\<lambda>c acc. Option.bind acc (pq_encode_into c cb)) chunks (Some codes)"

text \<open>Training ends the warm-up: every held vector is encoded.\<close>

definition train_now :: "nat \<Rightarrow> f32 list \<Rightarrow> 8 word mapped \<Rightarrow> nat \<Rightarrow> vstore option" where
  "train_now d warmup codes m =
     Option.bind (train_pq warmup d m) (\<lambda>cb.
     Option.bind (encode_chunks cb (chunks_exact d warmup) (mv_tail codes)) (\<lambda>t.
       Some (SPq (Some cb) [] (codes\<lparr>mv_tail := t\<rparr>) m)))"

definition store_push :: "vec \<Rightarrow> vstore \<Rightarrow> vstore option" where
  "store_push v s =
     (case s of
        SFull vs \<Rightarrow> Some (SFull (mv_push vs v))
      | SSq8 codes params \<Rightarrow> (case quantize_into v (mv_tail codes) of (t, p) \<Rightarrow> Some (SSq8 (codes\<lparr>mv_tail := t\<rparr>) (params @ [p])))
      | SBq bits \<Rightarrow> Some (SBq (bits\<lparr>mv_tail := bq_encode_into v (mv_tail bits)\<rparr>))
      | SPq (Some cb) warmup codes m \<Rightarrow>
          map_option (\<lambda>t. SPq (Some cb) warmup (codes\<lparr>mv_tail := t\<rparr>) m) (pq_encode_into v cb (mv_tail codes))
      | SPq None warmup codes m \<Rightarrow>
          let w = warmup @ v; d = length v in
          if 0 < d \<and> pq_train_size \<le> length w div d then train_now d w codes m else Some (SPq None w codes m))"

definition store_seal :: "nat \<Rightarrow> vstore \<Rightarrow> vstore option" where
  "store_seal d s =
     (case s of
        SPq None warmup codes m \<Rightarrow> if warmup \<noteq> [] \<and> 0 < d then train_now d warmup codes m else Some s
      | _ \<Rightarrow> Some s)"

definition dot_query :: "vstore \<Rightarrow> nat \<Rightarrow> nat \<Rightarrow> vec \<Rightarrow> f32 \<Rightarrow> f32 option" where
  "dot_query s node d q qsum =
     (case s of
        SFull vs \<Rightarrow> map_option (\<lambda>v. simd_dot v q) (mv_with vs node d)
      | SSq8 codes params \<Rightarrow>
          Option.bind (mv_with codes node d) (\<lambda>c. map_option (\<lambda>p. sq_dot_query c p q qsum) (index_opt params node))
      | SBq bits \<Rightarrow> Option.bind (mv_with bits node (bq_bytes d)) (\<lambda>b. bq_dot_query b q)
      | SPq None warmup codes m \<Rightarrow> map_option (\<lambda>v. simd_dot v q) (slice warmup (node * d) (node * d + d))
      | SPq (Some cb) warmup codes m \<Rightarrow> Option.bind (mv_with codes node m) (\<lambda>c. pq_dot_query c cb q))"

definition dot_nodes :: "vstore \<Rightarrow> nat \<Rightarrow> nat \<Rightarrow> nat \<Rightarrow> f32 option" where
  "dot_nodes s a b d =
     (case s of
        SFull vs \<Rightarrow> Option.bind (mv_with vs a d) (\<lambda>va. map_option (simd_dot va) (mv_with vs b d))
      | SSq8 codes params \<Rightarrow>
          Option.bind (mv_with codes a d) (\<lambda>ca. Option.bind (mv_with codes b d) (\<lambda>cb.
          Option.bind (index_opt params a) (\<lambda>pa. map_option (\<lambda>pb. sq_dot_codes ca pa cb pb) (index_opt params b))))
      | SBq bits \<Rightarrow>
          Option.bind (mv_with bits a (bq_bytes d)) (\<lambda>ba. map_option (\<lambda>bb. bq_dot_codes ba bb d) (mv_with bits b (bq_bytes d)))
      | SPq None warmup codes m \<Rightarrow>
          Option.bind (slice warmup (a * d) (a * d + d)) (\<lambda>va. map_option (simd_dot va) (slice warmup (b * d) (b * d + d)))
      | SPq (Some cb) warmup codes m \<Rightarrow>
          Option.bind (mv_with codes a m) (\<lambda>ca. Option.bind (mv_with codes b m) (\<lambda>cb'. pq_dot_codes ca cb' cb)))"

definition materialize :: "vstore \<Rightarrow> nat \<Rightarrow> nat \<Rightarrow> vec option" where
  "materialize s node d =
     (case s of
        SFull vs \<Rightarrow> mv_with vs node d
      | SSq8 codes params \<Rightarrow> Option.bind (mv_with codes node d) (\<lambda>c. map_option (sq_decode c) (index_opt params node))
      | SBq bits \<Rightarrow> Option.bind (mv_with bits node (bq_bytes d)) (\<lambda>b. bq_decode b d)
      | SPq None warmup codes m \<Rightarrow> slice warmup (node * d) (node * d + d)
      | SPq (Some cb) warmup codes m \<Rightarrow> Option.bind (mv_with codes node m) (\<lambda>c. pq_decode c cb))"

text \<open>Sizes in bytes; \<open>heap\<close> leaves out the base and counts what the cache holds.\<close>

definition store_bytes :: "vstore \<Rightarrow> nat" where
  "store_bytes s =
     (case s of
        SFull vs \<Rightarrow> mv_len vs * 4
      | SSq8 codes params \<Rightarrow> mv_len codes + length params * 12
      | SBq bits \<Rightarrow> mv_len bits
      | SPq cb warmup codes m \<Rightarrow>
          length warmup * 4 + mv_len codes + (case cb of None \<Rightarrow> 0 | Some c \<Rightarrow> length (pq_centroids c) * 4))"

section \<open>Stores of one dimension\<close>

definition store_ok :: "nat \<Rightarrow> nat \<Rightarrow> vstore \<Rightarrow> bool" where
  "store_ok n d s =
     (case s of
        SFull vs \<Rightarrow> mapped_ok n d vs
      | SSq8 codes params \<Rightarrow> mapped_ok n d codes \<and> length params = n
      | SBq bits \<Rightarrow> mapped_ok n (bq_bytes d) bits
      | SPq None warmup codes m \<Rightarrow>
          length warmup = n * d \<and> mapped_ok 0 m codes \<and> mv_base codes = None \<and> 0 < m \<and> d mod m = 0
      | SPq (Some cb) warmup codes m \<Rightarrow>
          warmup = [] \<and> pq_ok cb \<and> pq_m cb = m \<and> m * pq_sub_dim cb = d \<and> mapped_ok n m codes \<and>
          (\<forall>c \<in> set (mv_all codes). unat c < pq_k cb))"

lemma bq_encode_append: "bq_encode_into v bits = bits @ bq_encode_into v []"
proof (rule nth_equalityI)
  show "length (bq_encode_into v bits) = length (bits @ bq_encode_into v [])" by (simp add: bq_encode_bits(1))
  fix q assume q: "q < length (bq_encode_into v bits)"
  show "bq_encode_into v bits ! q = (bits @ bq_encode_into v []) ! q"
  proof (rule bit_word_eqI)
    fix k :: nat assume k: "k < LENGTH(8)"
    show "bit (bq_encode_into v bits ! q) k = bit ((bits @ bq_encode_into v []) ! q) k"
    proof (cases "q < length bits")
      case True
      then show ?thesis using bq_encode_bits(2) [of q bits k v] k by (simp add: nth_append)
    next
      case False
      then show ?thesis using bq_encode_bits(3) [of "q - length bits" v k bits] bq_encode_bits(3) [of "q - length bits" v k "[]"] k q
        by (simp add: nth_append bq_encode_bits(1) less_diff_conv2)
    qed
  qed
qed

lemma tail_push: "mv\<lparr>mv_tail := mv_tail mv @ b\<rparr> = mv_push mv b"
  by (simp add: mv_push_def)

lemma quantize_into_append: "\<exists>cs p. quantize_into v t = (t @ cs, p) \<and> length cs = length v"
  by (simp add: quantize_into_def Let_def)

lemma encode_chunks_ok:
  assumes "pq_ok cb" "\<forall>c \<in> set chunks. length c = pq_m cb * pq_sub_dim cb"
  shows "\<exists>cs. encode_chunks cb chunks codes = Some (codes @ cs) \<and> length cs = length chunks * pq_m cb \<and> (\<forall>c \<in> set cs. unat c < pq_k cb)"
  using assms(2)
proof (induction chunks arbitrary: codes)
  case (Cons c chunks)
  obtain cs where cs: "pq_encode_into c cb codes = Some (codes @ cs)" "codes_ok cb cs"
    using pq_encode_ok [OF assms(1), of c codes] Cons.prems by auto
  obtain ds where ds: "encode_chunks cb chunks (codes @ cs) = Some ((codes @ cs) @ ds)" "length ds = length chunks * pq_m cb"
    "\<forall>c \<in> set ds. unat c < pq_k cb"
    using Cons.IH [of "codes @ cs"] Cons.prems by auto
  then have "encode_chunks cb (c # chunks) codes = Some (codes @ (cs @ ds))" using cs(1) by (simp add: encode_chunks_def)
  then show ?case using cs(2) ds by (fastforce simp: codes_ok_def)
qed (simp add: encode_chunks_def)

lemma chunks_exact_ok:
  "0 < d \<Longrightarrow> length w = n * d \<Longrightarrow> length (chunks_exact d w) = n \<and> (\<forall>c \<in> set (chunks_exact d w). length c = d)"
proof -
  assume d: "0 < d" and w: "length w = n * d"
  have "min (n * d - i * d) d = d" if "i < n" for i
  proof -
    have "i * d + d \<le> n * d" using that by (metis add.commute mult_Suc mult_le_mono1 Suc_leI)
    then show ?thesis by simp
  qed
  then show ?thesis using d w by (auto simp: chunks_exact_def)
qed

lemma train_now_ok:
  assumes d: "0 < d" "length w = n * d" "w \<noteq> []" and codes: "mapped_ok 0 m codes" "mv_base codes = None" "0 < m" "d mod m = 0"
  shows "\<exists>s. train_now d w codes m = Some s \<and> store_ok n d s \<and> store_quantizer s = QPq m"
proof -
  note ch = chunks_exact_ok [OF d(1,2)]
  have "chunks_exact d w \<noteq> []" using ch d by (metis length_0_conv mult_zero_left)
  then obtain cb where cb: "train_pq w d m = Some cb" "pq_ok cb" "pq_m cb = m" "pq_m cb * pq_sub_dim cb = d"
    using pq_train_ok [OF codes(3,4), of "chunks_exact d w" pq_train_iters] ch by (auto simp: train_pq_def)
  have t: "mv_tail codes = []" using codes(1,2) by (simp add: mapped_ok_def mv_all_def)
  obtain cs where cs: "encode_chunks cb (chunks_exact d w) [] = Some cs" "length cs = n * m" "\<forall>c \<in> set cs. unat c < pq_k cb"
    using encode_chunks_ok [OF cb(2), of "chunks_exact d w" "[]"] ch cb(3,4) by auto
  show ?thesis using cb cs codes by (auto simp: train_now_def t store_ok_def mapped_ok_def mv_all_def store_quantizer_def)
qed

lemma store_push_ok:
  assumes ok: "store_ok n d s" and v: "length v = d"
  shows "\<exists>s'. store_push v s = Some s' \<and> store_ok (Suc n) d s' \<and> store_quantizer s' = store_quantizer s"
proof (cases s)
  case (SFull vs)
  then show ?thesis using ok v by (simp add: store_push_def store_ok_def mv_push_ok store_quantizer_def)
next
  case (SSq8 codes params)
  obtain cs p where "quantize_into v (mv_tail codes) = (mv_tail codes @ cs, p)" "length cs = d"
    using quantize_into_append [of v "mv_tail codes"] v by blast
  then show ?thesis using SSq8 ok by (simp add: store_push_def store_ok_def tail_push mv_push_ok store_quantizer_def)
next
  case (SBq bits)
  have "store_push v s = Some (SBq (mv_push bits (bq_encode_into v [])))"
    unfolding SBq store_push_def vstore.case by (subst bq_encode_append) (simp add: tail_push)
  then show ?thesis using SBq ok v by (simp add: store_ok_def mv_push_ok bq_encode_bits(1) store_quantizer_def)
next
  case (SPq cb w codes m)
  show ?thesis
  proof (cases cb)
    case None
    then have w: "length w = n * d" "mapped_ok 0 m codes" "mv_base codes = None" "0 < m" "d mod m = 0"
      using ok SPq by (simp_all add: store_ok_def)
    have l: "length (w @ v) = Suc n * d" using w v by simp
    show ?thesis
    proof (cases "0 < d \<and> pq_train_size \<le> length (w @ v) div d")
      case True
      then have "w @ v \<noteq> []" using v by auto
      with train_now_ok [OF _ l this w(2-5)] True show ?thesis using SPq None v
        by (auto simp: store_push_def store_quantizer_def)
    next
      case False
      then show ?thesis using SPq None v w l by (auto simp: store_push_def store_ok_def Let_def store_quantizer_def)
    qed
  next
    case (Some c)
    then have o: "pq_ok c" "pq_m c = m" "m * pq_sub_dim c = d" "mapped_ok n m codes" "w = []"
      "\<forall>x \<in> set (mv_all codes). unat x < pq_k c" using ok SPq by (simp_all add: store_ok_def)
    obtain cs where "pq_encode_into v c (mv_tail codes) = Some (mv_tail codes @ cs)" "codes_ok c cs"
      using pq_encode_ok [OF o(1), of v "mv_tail codes"] o v by auto
    then show ?thesis using SPq Some o
      by (auto simp: store_push_def store_ok_def tail_push mv_push_ok codes_ok_def store_quantizer_def)
  qed
qed

lemma bq_set_ok: "i < 8 * length bits \<Longrightarrow> bq_set bits i \<noteq> None"
  by (simp add: bq_set_def index_opt_def less_mult_imp_div_less ac_simps)

lemma bq_dot_query_ok: "length q \<le> 8 * length bits \<Longrightarrow> \<exists>x. bq_dot_query bits q = Some x"
proof -
  have "\<exists>x. fold (\<lambda>(i, x) acc. case (acc, bq_set bits i) of
      (Some a, Some pos) \<Rightarrow> Some (f32_add a (if pos then x else f32_neg x)) | _ \<Rightarrow> None) (enumerate m q) (Some a) = Some x"
    if "m + length q \<le> 8 * length bits" for m a
    using that
  proof (induction q arbitrary: m a)
    case (Cons y q)
    obtain b where "bq_set bits m = Some b" using bq_set_ok [of m bits] Cons.prems by auto
    then show ?case using Cons.IH [of "Suc m"] Cons.prems by simp
  qed simp
  from this [of 0 0] show "length q \<le> 8 * length bits \<Longrightarrow> \<exists>x. bq_dot_query bits q = Some x" by (simp add: bq_dot_query_def)
qed

lemma bq_bytes_ge: "n \<le> 8 * bq_bytes n"
  by (simp add: bq_bytes_def)

lemma warmup_slice: "length w = n * d \<Longrightarrow> node < n \<Longrightarrow> \<exists>v. slice w (node * d) (node * d + d) = Some v \<and> length v = d"
  using block_slice [of node n w d] by (simp add: add.commute)

lemma codes_of_node:
  assumes "mapped_ok n m codes" "node < n" "\<forall>c \<in> set (mv_all codes). unat c < pq_k cb" "pq_m cb = m"
  shows "\<exists>c. mv_with codes node m = Some c \<and> codes_ok cb c"
  using mv_with_reads [OF assms(1,2)] assms(3,4) by (auto simp: codes_ok_def dest!: in_set_takeD in_set_dropD)

lemma pq_dots_ok:
  assumes "pq_ok cb" "codes_ok cb a"
  shows "length q = pq_m cb * pq_sub_dim cb \<Longrightarrow> \<exists>x. pq_dot_query a cb q = Some x"
    "codes_ok cb b \<Longrightarrow> \<exists>x. pq_dot_codes a b cb = Some x"
proof -
  have cent: "\<exists>x v. index_opt c s = Some x \<and> pq_centroid cb s (unat x) = Some v" if "s < pq_m cb" "codes_ok cb c" for s c
    using that pq_centroid_Some [OF assms(1) that(1), of "unat (c ! s)"] by (auto simp: codes_ok_def index_opt_def)
  show "length q = pq_m cb * pq_sub_dim cb \<Longrightarrow> \<exists>x. pq_dot_query a cb q = Some x"
  proof -
    assume q: "length q = pq_m cb * pq_sub_dim cb"
    let ?f = "\<lambda>s. Option.bind (slice q (s * pq_sub_dim cb) ((s + 1) * pq_sub_dim cb)) (\<lambda>qsub.
         Option.bind (Option.bind (index_opt a s) (\<lambda>c. pq_centroid cb s (unat c))) (\<lambda>cent. Some (pq_dot qsub cent)))"
    have "?f s \<noteq> None" if "s < pq_m cb" for s using block_slice [OF that q] cent [OF that assms(2)] by auto
    then have "\<exists>ds. those (map ?f [0..<pq_m cb]) = Some ds" by (intro those_total) auto
    then show ?thesis by (auto simp: pq_dot_query_def)
  qed
  show "codes_ok cb b \<Longrightarrow> \<exists>x. pq_dot_codes a b cb = Some x"
  proof -
    assume b: "codes_ok cb b"
    let ?f = "\<lambda>s. Option.bind (Option.bind (index_opt a s) (\<lambda>c. pq_centroid cb s (unat c))) (\<lambda>ca.
         Option.bind (Option.bind (index_opt b s) (\<lambda>c. pq_centroid cb s (unat c))) (\<lambda>cb'. Some (pq_dot ca cb')))"
    have "?f s \<noteq> None" if "s < pq_m cb" for s using cent [OF that assms(2)] cent [OF that b] by auto
    then have "\<exists>ds. those (map ?f [0..<pq_m cb]) = Some ds" by (intro those_total) auto
    then show ?thesis by (auto simp: pq_dot_codes_def)
  qed
qed

text \<open>No read of a node panics.\<close>

lemma store_reads_ok:
  assumes ok: "store_ok n d s" and a: "a < n"
  shows "length q = d \<Longrightarrow> \<exists>x. dot_query s a d q qsum = Some x"
    "b < n \<Longrightarrow> \<exists>x. dot_nodes s a b d = Some x"
    "\<exists>v. materialize s a d = Some v \<and> length v = d"
proof -
  have "(length q = d \<longrightarrow> (\<exists>x. dot_query s a d q qsum = Some x)) \<and> (b < n \<longrightarrow> (\<exists>x. dot_nodes s a b d = Some x)) \<and>
    (\<exists>v. materialize s a d = Some v \<and> length v = d)"
  proof (cases s)
    case (SFull vs)
    then show ?thesis using ok a mv_with_reads by (fastforce simp: store_ok_def dot_query_def dot_nodes_def materialize_def)
  next
    case (SSq8 codes params)
    then show ?thesis using ok a mv_with_reads
      by (fastforce simp: store_ok_def dot_query_def dot_nodes_def materialize_def index_opt_def sq_decode_def)
  next
    case (SBq bits)
    then have m: "mapped_ok n (bq_bytes d) bits" using ok by (simp add: store_ok_def)
    have r: "\<exists>v. mv_with bits x (bq_bytes d) = Some v \<and> length v = bq_bytes d" if "x < n" for x
      using mv_with_reads [OF m that] by blast
    have dec: "\<exists>v. bq_decode b d = Some v \<and> length v = d" if "length b = bq_bytes d" for b
    proof -
      have "\<exists>v. those (map (\<lambda>i. map_option g (bq_set b i)) [0..<d]) = Some v" for g :: "bool \<Rightarrow> f32"
        using bq_set_ok [of _ b] bq_bytes_ge [of d] that by (intro those_total) fastforce
      then show ?thesis unfolding bq_decode_def Let_def using those_length by fastforce
    qed
    show ?thesis using SBq r [OF a] r [of b] dec bq_dot_query_ok bq_bytes_ge [of d]
      by (fastforce simp: dot_query_def dot_nodes_def materialize_def)
  next
    case (SPq cb w codes m)
    show ?thesis
    proof (cases cb)
      case None
      then have "length w = n * d" using ok SPq by (simp add: store_ok_def)
      then show ?thesis using SPq None warmup_slice [of w n d a] warmup_slice [of w n d b] a
        by (auto simp: dot_query_def dot_nodes_def materialize_def)
    next
      case (Some c)
      then have o: "pq_ok c" "pq_m c = m" "m * pq_sub_dim c = d" "mapped_ok n m codes"
        "\<forall>x \<in> set (mv_all codes). unat x < pq_k c" using ok SPq by (simp_all add: store_ok_def)
      note cs = codes_of_node [OF o(4) _ o(5,2)]
      show ?thesis using SPq Some o cs [OF a] cs [of b] pq_dots_ok [OF o(1)] pq_decode_ok [OF o(1)]
        by (fastforce simp: dot_query_def dot_nodes_def materialize_def)
    qed
  qed
  then show "length q = d \<Longrightarrow> \<exists>x. dot_query s a d q qsum = Some x" "b < n \<Longrightarrow> \<exists>x. dot_nodes s a b d = Some x"
    "\<exists>v. materialize s a d = Some v \<and> length v = d" by blast+
qed

end
