(* ===== verification/Heap.thy ===== *)
theory Heap
  imports "HOL-Library.Multiset"
begin

text \<open>
  The binary heap of the standard library, on which the searches of \<open>crates/recall/src/ann.rs\<close> depend:
  the array, \<open>push\<close> (sift up), \<open>pop\<close> (sift down to the bottom, then up) and \<open>peek\<close>, ordered by a
  key.  What its clients need is the locale \<open>max_queue\<close>, interpreted on it.
\<close>

section \<open>The array\<close>

function sift_up :: "('a \<Rightarrow> int) \<Rightarrow> 'a list \<Rightarrow> nat \<Rightarrow> 'a list" where
  "sift_up key xs pos =
     (if pos = 0 \<or> key (xs ! pos) \<le> key (xs ! ((pos - 1) div 2)) then xs
      else sift_up key (xs[pos := xs ! ((pos - 1) div 2), (pos - 1) div 2 := xs ! pos]) ((pos - 1) div 2))"
  by pat_completeness auto
termination by (relation "measure (\<lambda>(key, xs, pos). pos)") auto

definition larger_child :: "('a \<Rightarrow> int) \<Rightarrow> 'a list \<Rightarrow> nat \<Rightarrow> nat" where
  "larger_child key xs c = (if key (xs ! c) \<le> key (xs ! (c + 1)) then c + 1 else c)"

text \<open>The hole goes down along the larger children, whatever its element.\<close>

function sift_down :: "('a \<Rightarrow> int) \<Rightarrow> 'a list \<Rightarrow> nat \<Rightarrow> 'a list \<times> nat" where
  "sift_down key xs pos =
     (if 2 * pos + 3 \<le> length xs then
        let c = larger_child key xs (2 * pos + 1) in sift_down key (xs[pos := xs ! c, c := xs ! pos]) c
      else if 2 * pos + 2 = length xs then (xs[pos := xs ! (2 * pos + 1), 2 * pos + 1 := xs ! pos], 2 * pos + 1)
      else (xs, pos))"
  by pat_completeness auto
termination by (relation "measure (\<lambda>(key, xs, pos). length xs - pos)") (auto simp: larger_child_def)

declare sift_up.simps [simp del] sift_down.simps [simp del]

definition heap_push :: "('a \<Rightarrow> int) \<Rightarrow> 'a \<Rightarrow> 'a list \<Rightarrow> 'a list" where
  "heap_push key x h = sift_up key (h @ [x]) (length h)"

definition heap_pop :: "('a \<Rightarrow> int) \<Rightarrow> 'a list \<Rightarrow> ('a \<times> 'a list) option" where
  "heap_pop key h =
     (if h = [] then None
      else if butlast h = [] then Some (last h, [])
      else case sift_down key ((butlast h)[0 := last h]) 0 of (h', pos) \<Rightarrow> Some (hd h, sift_up key h' pos))"

definition heap_peek :: "'a list \<Rightarrow> 'a option" where
  "heap_peek h = (if h = [] then None else Some (hd h))"

section \<open>The elements\<close>

lemma mset_swap2: "i < length xs \<Longrightarrow> j < length xs \<Longrightarrow> mset (xs[i := xs ! j, j := xs ! i]) = mset xs"
  using mset_swap [of j xs i] by (cases "i = j") (simp_all add: list_update_swap)

lemma sift_up_mset: "pos < length xs \<Longrightarrow> mset (sift_up key xs pos) = mset xs"
proof (induction key xs pos rule: sift_up.induct)
  case (1 key xs pos)
  then show ?case by (subst sift_up.simps) (auto simp: mset_swap2)
qed

lemma sift_down_mset:
  "pos < length xs \<Longrightarrow> sift_down key xs pos = (ys, p) \<Longrightarrow> mset ys = mset xs \<and> p < length ys"
proof (induction key xs pos arbitrary: ys p rule: sift_down.induct)
  case (1 key xs pos)
  let ?c = "larger_child key xs (2 * pos + 1)"
  show ?case
  proof (cases "2 * pos + 3 \<le> length xs")
    case True
    then have c: "?c < length xs" by (simp add: larger_child_def)
    have "sift_down key (xs[pos := xs ! ?c, ?c := xs ! pos]) ?c = (ys, p)" using "1.prems"(2) True by (subst (asm) sift_down.simps) (simp add: Let_def)
    then show ?thesis using "1.IH" [OF True refl] c "1.prems"(1) by (auto simp: mset_swap2 dest: mset_eq_length)
  next
    case False
    then show ?thesis using "1.prems" by (subst (asm) sift_down.simps) (auto simp: mset_swap2 split: if_splits)
  qed
qed

section \<open>The heap order\<close>

definition parent :: "nat \<Rightarrow> nat" where "parent i = (i - 1) div 2"

definition is_heap :: "('a \<Rightarrow> int) \<Rightarrow> 'a list \<Rightarrow> bool" where
  "is_heap key xs \<longleftrightarrow> (\<forall>i. 0 < i \<and> i < length xs \<longrightarrow> key (xs ! i) \<le> key (xs ! parent i))"

text \<open>A heap apart from the element at \<open>pos\<close>; below it everything is at most what is above it.\<close>

definition hole_heap :: "('a \<Rightarrow> int) \<Rightarrow> 'a list \<Rightarrow> nat \<Rightarrow> bool" where
  "hole_heap key xs pos \<longleftrightarrow>
     (\<forall>i. 0 < i \<and> i < length xs \<and> i \<noteq> pos \<and> parent i \<noteq> pos \<longrightarrow> key (xs ! i) \<le> key (xs ! parent i)) \<and>
     (\<forall>i. 0 < i \<and> i < length xs \<and> parent i = pos \<and> 0 < pos \<longrightarrow> key (xs ! i) \<le> key (xs ! parent pos))"

definition children_below :: "('a \<Rightarrow> int) \<Rightarrow> 'a list \<Rightarrow> nat \<Rightarrow> bool" where
  "children_below key xs pos \<longleftrightarrow> (\<forall>i. 0 < i \<and> i < length xs \<and> parent i = pos \<longrightarrow> key (xs ! i) \<le> key (xs ! pos))"

lemma parent_less: "0 < i \<Longrightarrow> parent i < i"
  by (simp add: parent_def)

lemma parent_child: "0 < i \<Longrightarrow> parent i = p \<longleftrightarrow> i = 2 * p + 1 \<or> i = 2 * p + 2"
  by (auto simp: parent_def)

lemma sift_up_heap:
  "pos < length xs \<Longrightarrow> hole_heap key xs pos \<Longrightarrow> children_below key xs pos \<Longrightarrow> is_heap key (sift_up key xs pos)"
proof (induction key xs pos rule: sift_up.induct)
  case (1 key xs pos)
  note len = "1.prems"(1)
  have h: "\<And>i. 0 < i \<Longrightarrow> i < length xs \<Longrightarrow> i \<noteq> pos \<Longrightarrow> parent i \<noteq> pos \<Longrightarrow> key (xs ! i) \<le> key (xs ! parent i)"
    "\<And>i. 0 < i \<Longrightarrow> i < length xs \<Longrightarrow> parent i = pos \<Longrightarrow> 0 < pos \<Longrightarrow> key (xs ! i) \<le> key (xs ! parent pos)"
    "\<And>i. 0 < i \<Longrightarrow> i < length xs \<Longrightarrow> parent i = pos \<Longrightarrow> key (xs ! i) \<le> key (xs ! pos)"
    using "1.prems" by (simp_all add: hole_heap_def children_below_def)
  show ?case
  proof (cases "pos = 0 \<or> key (xs ! pos) \<le> key (xs ! parent pos)")
    case True
    then have "key (xs ! i) \<le> key (xs ! parent i)" if "0 < i" "i < length xs" for i
      using h(1,3) [of i] that by (cases "i = pos"; cases "parent i = pos") auto
    then have "is_heap key xs" by (simp add: is_heap_def)
    then show ?thesis using True by (subst sift_up.simps) (simp add: parent_def)
  next
    case False
    then have pos: "0 < pos" "key (xs ! parent pos) < key (xs ! pos)" by auto
    let ?p = "parent pos" and ?ys = "xs[pos := xs ! parent pos, parent pos := xs ! pos]"
    have p: "?p < pos" "?p < length xs" using parent_less [OF pos(1)] len by simp_all
    have nth: "?ys ! i = (if i = ?p then xs ! pos else if i = pos then xs ! ?p else xs ! i)" if "i < length xs" for i
      using that p len by (simp add: nth_list_update)
    have "hole_heap key ?ys ?p"
      unfolding hole_heap_def
    proof (intro conjI allI impI)
      fix i assume i: "0 < i \<and> i < length ?ys \<and> i \<noteq> ?p \<and> parent i \<noteq> ?p"
      then have "i \<noteq> pos" by auto
      moreover have "parent i < length xs" using i parent_less [of i] by simp
      ultimately show "key (?ys ! i) \<le> key (?ys ! parent i)"
        using i h(1,2) [of i] nth pos p by (cases "parent i = pos") auto
    next
      fix i assume i: "0 < i \<and> i < length ?ys \<and> parent i = ?p \<and> 0 < ?p"
      have pp: "parent ?p < length xs" "parent ?p \<noteq> ?p" "parent ?p \<noteq> pos" using i p parent_less [of ?p] by auto
      have "key (xs ! ?p) \<le> key (xs ! parent ?p)" using h(1) [of ?p] i p pp by auto
      moreover have "i \<noteq> pos \<Longrightarrow> key (xs ! i) \<le> key (xs ! ?p)" using h(1) [of i] i p by auto
      moreover have "i \<noteq> ?p" using i parent_less [of i] by auto
      ultimately show "key (?ys ! i) \<le> key (?ys ! parent ?p)" using nth i pp p by (cases "i = pos") auto
    qed
    moreover have "children_below key ?ys ?p"
      unfolding children_below_def
    proof (intro allI impI)
      fix i assume i: "0 < i \<and> i < length ?ys \<and> parent i = ?p"
      then have "i \<noteq> ?p" using parent_less [of i] by auto
      moreover have "i \<noteq> pos \<Longrightarrow> key (xs ! i) \<le> key (xs ! ?p)" using h(1) [of i] i p by auto
      ultimately show "key (?ys ! i) \<le> key (?ys ! ?p)" using nth i p pos by (cases "i = pos") auto
    qed
    ultimately have "is_heap key (sift_up key ?ys ?p)"
      using "1.IH" False p by (simp add: parent_def)
    then show ?thesis using False by (subst sift_up.simps) (simp add: parent_def)
  qed
qed

lemma sift_down_hole:
  "pos < length xs \<Longrightarrow> hole_heap key xs pos \<Longrightarrow> sift_down key xs pos = (ys, p) \<Longrightarrow>
   hole_heap key ys p \<and> children_below key ys p"
proof (induction key xs pos arbitrary: ys p rule: sift_down.induct)
  case (1 key xs pos)
  have h: "\<And>i. 0 < i \<Longrightarrow> i < length xs \<Longrightarrow> i \<noteq> pos \<Longrightarrow> parent i \<noteq> pos \<Longrightarrow> key (xs ! i) \<le> key (xs ! parent i)"
    "\<And>i. 0 < i \<Longrightarrow> i < length xs \<Longrightarrow> parent i = pos \<Longrightarrow> 0 < pos \<Longrightarrow> key (xs ! i) \<le> key (xs ! parent pos)"
    using "1.prems" by (simp_all add: hole_heap_def)
  have move: "hole_heap key (xs[pos := xs ! c, c := xs ! pos]) c"
    if c: "c = 2 * pos + 1 \<or> c = 2 * pos + 2" "c < length xs"
      and big: "\<And>i. i < length xs \<Longrightarrow> i = 2 * pos + 1 \<or> i = 2 * pos + 2 \<Longrightarrow> key (xs ! i) \<le> key (xs ! c)" for c
  proof -
    let ?ys = "xs[pos := xs ! c, c := xs ! pos]"
    have pc: "parent c = pos" "c \<noteq> pos" using c by (auto simp: parent_child)
    have nth: "?ys ! i = (if i = c then xs ! pos else if i = pos then xs ! c else xs ! i)" if "i < length xs" for i
      using that c "1.prems"(1) by (simp add: nth_list_update)
    have child: "i < length xs \<Longrightarrow> 0 < i \<Longrightarrow> parent i = pos \<Longrightarrow> key (xs ! i) \<le> key (xs ! c)" for i
      using big [of i] parent_child [of i pos] by blast
    show ?thesis
      unfolding hole_heap_def
    proof (intro conjI allI impI)
      fix i assume i: "0 < i \<and> i < length ?ys \<and> i \<noteq> c \<and> parent i \<noteq> c"
      then have pl: "parent i < length xs" "parent i \<noteq> i" using parent_less [of i] by simp_all
      show "key (?ys ! i) \<le> key (?ys ! parent i)"
      proof (cases "i = pos")
        case True
        then show ?thesis using i nth pl h(2) [of c] c pc by auto
      next
        case False
        then show ?thesis using i nth pl h(1) [of i] child [of i] by (cases "parent i = pos") auto
      qed
    next
      fix i assume i: "0 < i \<and> i < length ?ys \<and> parent i = c \<and> 0 < c"
      then have "i \<noteq> c" "i \<noteq> pos" using parent_less [of i] parent_less [of c] pc by auto
      then show "key (?ys ! i) \<le> key (?ys ! parent c)" using i h(1) [of i] nth pc "1.prems"(1) by auto
    qed
  qed
  show ?case
  proof (cases "2 * pos + 3 \<le> length xs")
    case True
    let ?c = "larger_child key xs (2 * pos + 1)"
    have c: "?c = 2 * pos + 1 \<or> ?c = 2 * pos + 2" "?c < length xs" using True by (auto simp: larger_child_def)
    have "hole_heap key (xs[pos := xs ! ?c, ?c := xs ! pos]) ?c" by (rule move [OF c]) (auto simp: larger_child_def)
    moreover have "sift_down key (xs[pos := xs ! ?c, ?c := xs ! pos]) ?c = (ys, p)"
      using "1.prems"(3) True by (subst (asm) sift_down.simps) (simp add: Let_def)
    ultimately show ?thesis using "1.IH" [OF True refl] c by simp
  next
    case False
    show ?thesis
    proof (cases "2 * pos + 2 = length xs")
      case True
      then have "sift_down key xs pos = (xs[pos := xs ! (2 * pos + 1), 2 * pos + 1 := xs ! pos], 2 * pos + 1)"
        by (subst sift_down.simps) simp
      then have eq: "ys = xs[pos := xs ! (2 * pos + 1), 2 * pos + 1 := xs ! pos]" "p = 2 * pos + 1"
        using "1.prems"(3) by simp_all
      have "hole_heap key ys p" unfolding eq by (rule move) (use True in auto)
      moreover have "children_below key ys p" unfolding children_below_def eq using True by (auto simp: parent_child)
      ultimately show ?thesis by blast
    next
      case no: False
      then have "sift_down key xs pos = (xs, pos)" using False by (subst sift_down.simps) simp
      then have "ys = xs" "p = pos" using "1.prems"(3) by simp_all
      moreover have "length xs \<le> i" if "0 < i" "parent i = pos" for i using that parent_child [OF that(1), of pos] no False by auto
      then have "children_below key xs pos" unfolding children_below_def by (metis not_le)
      ultimately show ?thesis using "1.prems"(2) by simp
    qed
  qed
qed

lemma is_heap_top: "is_heap key xs \<Longrightarrow> i < length xs \<Longrightarrow> key (xs ! i) \<le> key (xs ! 0)"
proof (induction i rule: less_induct)
  case (less i)
  show ?case
  proof (cases "i = 0")
    case False
    then have "key (xs ! i) \<le> key (xs ! parent i)" using less.prems by (simp add: is_heap_def)
    also have "\<dots> \<le> key (xs ! 0)" using less parent_less [of i] False by simp
    finally show ?thesis .
  qed simp
qed

section \<open>A queue that gives the largest first\<close>

locale max_queue =
  fixes key :: "'a \<Rightarrow> int"
    and push :: "'a \<Rightarrow> 'a list \<Rightarrow> 'a list"
    and pop :: "'a list \<Rightarrow> ('a \<times> 'a list) option"
    and peek :: "'a list \<Rightarrow> 'a option"
    and ok :: "'a list \<Rightarrow> bool"
  assumes empty_ok: "ok []"
    and push_ok: "ok q \<Longrightarrow> ok (push x q)"
    and push_mset: "mset (push x q) = add_mset x (mset q)"
    and pop_none: "pop q = None \<longleftrightarrow> q = []"
    and pop_mset: "pop q = Some (x, r) \<Longrightarrow> mset q = add_mset x (mset r)"
    and pop_ok: "ok q \<Longrightarrow> pop q = Some (x, r) \<Longrightarrow> ok r"
    and pop_max: "ok q \<Longrightarrow> pop q = Some (x, r) \<Longrightarrow> y \<in> set r \<Longrightarrow> key y \<le> key x"
    and peek_max: "ok q \<Longrightarrow> peek q = Some x \<Longrightarrow> y \<in> set q \<Longrightarrow> key y \<le> key x"
    and peek_none: "peek q = None \<longleftrightarrow> q = []"
begin

lemma push_set [simp]: "set (push x q) = insert x (set q)"
  using push_mset [of x q, THEN arg_cong [where f = set_mset]] by simp

lemma push_length [simp]: "length (push x q) = Suc (length q)"
  using push_mset [of x q, THEN arg_cong [where f = size]] by simp

lemma pop_set: "pop q = Some (x, r) \<Longrightarrow> set q = insert x (set r)"
  using pop_mset [of q x r, THEN arg_cong [where f = set_mset]] by simp

lemma pop_length: "pop q = Some (x, r) \<Longrightarrow> length q = Suc (length r)"
  using pop_mset [of q x r, THEN arg_cong [where f = size]] by simp

text \<open>Push, then drop the largest when the queue is over its capacity.\<close>

lemma bounded_push:
  assumes "ok q" "cap < length (push x q)" "pop (push x q) = Some (y, r)"
  shows "ok r" "add_mset y (mset r) = add_mset x (mset q)" "z \<in> set r \<Longrightarrow> key z \<le> key y"
  using pop_ok [OF push_ok [OF assms(1)] assms(3)] pop_mset [OF assms(3)] push_mset [of x q]
    pop_max [OF push_ok [OF assms(1)] assms(3)] by simp_all

end

interpretation heap: max_queue key "heap_push key" "heap_pop key" heap_peek "is_heap key" for key :: "'a \<Rightarrow> int"
proof unfold_locales
  fix q :: "'a list" and x r y
  show "is_heap key []" by (simp add: is_heap_def)
  show "mset (heap_push key x q) = add_mset x (mset q)" by (simp add: heap_push_def sift_up_mset)
  show "is_heap key (heap_push key x q)" if q: "is_heap key q"
    unfolding heap_push_def
  proof (rule sift_up_heap)
    have "parent i < length q" if "0 < i" "i \<le> length q" for i using parent_less [OF that(1)] that(2) by simp
    moreover have "parent i \<noteq> length q" if "0 < i" "i \<le> length q" for i using parent_less [OF that(1)] that(2) by simp
    ultimately show "hole_heap key (q @ [x]) (length q)" "children_below key (q @ [x]) (length q)"
      using q by (auto simp: hole_heap_def children_below_def is_heap_def nth_append less_Suc_eq_le)
  qed simp
  show "heap_pop key q = None \<longleftrightarrow> q = []" by (simp add: heap_pop_def split: prod.splits)
  show "heap_peek q = None \<longleftrightarrow> q = []" by (simp add: heap_peek_def)
  show "key y \<le> key x" if "is_heap key q" "heap_peek q = Some x" "y \<in> set q"
    using that is_heap_top [of key q] by (auto simp: heap_peek_def hd_conv_nth in_set_conv_nth split: if_splits)
  have pop: "mset q = add_mset x (mset r) \<and> x = q ! 0 \<and> (is_heap key q \<longrightarrow> is_heap key r)" if p: "heap_pop key q = Some (x, r)"
  proof (cases "butlast q = []")
    case True
    with p obtain z where "q = [z]" by (cases q rule: rev_cases) (auto simp: heap_pop_def)
    then show ?thesis using p by (auto simp: heap_pop_def is_heap_def)
  next
    case False
    then obtain b bs z where q: "q = (b # bs) @ [z]" by (cases q rule: rev_cases) (auto simp: neq_Nil_conv)
    obtain h' pos where s: "sift_down key (z # bs) 0 = (h', pos)" by (cases "sift_down key (z # bs) 0")
    have r: "x = b" "r = sift_up key h' pos" using p s by (auto simp: heap_pop_def q)
    have d: "mset h' = mset (z # bs)" "pos < length h'" using sift_down_mset [OF _ s] by auto
    have "is_heap key r" if h: "is_heap key q"
    proof -
      have hn: "\<And>i. 0 < i \<Longrightarrow> i < length (z # bs) \<Longrightarrow> parent i \<noteq> 0 \<Longrightarrow> key ((z # bs) ! i) \<le> key ((z # bs) ! parent i)"
      proof -
        fix i assume i: "0 < i" "i < length (z # bs)" "parent i \<noteq> 0"
        have "i < length q" using i by (simp add: q)
        then have "key (q ! i) \<le> key (q ! parent i)" using h i(1) by (simp add: is_heap_def)
        moreover have "q ! j = (z # bs) ! j" if "0 < j" "j \<le> length bs" for j
          using that by (cases j) (simp_all add: q nth_append)
        moreover have "i \<le> length bs" "parent i \<le> length bs" "0 < parent i" using i parent_less [OF i(1)] by simp_all
        ultimately show "key ((z # bs) ! i) \<le> key ((z # bs) ! parent i)" using i(1) by metis
      qed
      then have "hole_heap key (z # bs) 0" by (auto simp: hole_heap_def)
      then show ?thesis using sift_down_hole [OF _ _ s] sift_up_heap d(2) r(2) by auto
    qed
    moreover have "mset r = mset (z # bs)" using d r(2) by (simp add: sift_up_mset)
    ultimately show ?thesis using r(1) by (simp add: q)
  qed
  show "mset q = add_mset x (mset r)" if "heap_pop key q = Some (x, r)" using pop [OF that] by blast
  show "is_heap key r" if "is_heap key q" "heap_pop key q = Some (x, r)" using pop [OF that(2)] that(1) by blast
  show "key y \<le> key x" if "is_heap key q" "heap_pop key q = Some (x, r)" "y \<in> set r"
  proof -
    have "y \<in> set q" using pop [OF that(2)] that(3) by (metis insert_iff set_mset_add_mset_insert set_mset_mset)
    then show ?thesis using pop [OF that(2)] is_heap_top [OF that(1)] by (auto simp: in_set_conv_nth)
  qed
qed

end
