(* ===== verification/Graph.thy ===== *)
theory Graph
  imports VecStore Heap
begin

text \<open>
  The layered graph of \<open>crates/recall/src/ann.rs\<close>: insertion with greedy descent, beam and diverse
  selection, tombstones, and the two searches.  Nodes are numbers below \<open>2 ^ 32\<close>; \<open>None\<close> is a panic.
  The natural logarithm of the level draw is an argument.
\<close>

section \<open>The graph\<close>

record ann_config =
  ac_m :: nat
  ac_ef_construction :: nat
  ac_ef_search :: nat
  ac_quantizer :: quantizer

definition ann_config_default :: ann_config where
  "ann_config_default = \<lparr>ac_m = 16, ac_ef_construction = 100, ac_ef_search = 64, ac_quantizer = QNone\<rparr>"

record ann_index =
  ai_config :: ann_config
  ai_dim :: "nat option"
  ai_store :: vstore
  ai_ids :: "bytes list"
  ai_by_id :: "bytes \<rightharpoonup> nat"
  ai_deleted :: "bool list"
  ai_links :: "nat list list list"
  ai_entry :: "(nat \<times> nat) option"
  ai_rng :: "64 word"
  ai_live :: nat

definition ann_new :: "ann_config \<Rightarrow> ann_index" where
  "ann_new config =
     \<lparr>ai_config = config, ai_dim = None, ai_store = store_empty (ac_quantizer config), ai_ids = [], ai_by_id = Map.empty,
      ai_deleted = [], ai_links = [], ai_entry = None, ai_rng = 0x9E3779B97F4A7C15, ai_live = 0\<rparr>"

definition ann_node_count :: "ann_index \<Rightarrow> nat" where
  "ann_node_count G = length (ai_ids G)"

definition ann_tombstones :: "ann_index \<Rightarrow> nat" where
  "ann_tombstones G = length (ai_ids G) - ai_live G"

section \<open>Levels\<close>

definition f64_max :: "f64 \<Rightarrow> f64 \<Rightarrow> f64" where
  "f64_max x y = (if is_nan x then y else if is_nan y then x else if f64_lt x y then y else x)"

definition f64_min :: "f64 \<Rightarrow> f64 \<Rightarrow> f64" where
  "f64_min x y = (if is_nan x then y else if is_nan y then x else if f64_lt y x then y else x)"

definition f64_ceil :: "f64 \<Rightarrow> f64" where
  "f64_ceil x =
     (if \<not> is_finite x \<or> \<not> has_fract x then x
      else let m = mag_scaled (f64_mag x) in
        f64_of_ratio (f64_sign x) (if f64_sign x then m div 2 ^ 1074 else m div 2 ^ 1074 + 1) 1)"

definition f64_1em12 :: f64 where "f64_1em12 = F64 0x3D719799812DEA11"

definition xorshift :: "64 word \<Rightarrow> 64 word" where
  "xorshift r0 =
     (let r1 = r0 XOR push_bit 13 r0; r2 = r1 XOR drop_bit 7 r1 in r2 XOR push_bit 17 r2)"

definition next_level :: "(f64 \<Rightarrow> f64) \<Rightarrow> nat \<Rightarrow> 64 word \<Rightarrow> nat \<times> 64 word" where
  "next_level ln64 m rng =
     (let r = xorshift rng; u = f64_div (f64_of_nat (unat (drop_bit 11 r))) (f64_of_nat (2 ^ 53));
          ml = f64_div (f64_of_nat 1) (ln64 (f64_of_nat m)) in
      (min 16 (f64_to_usize (f64_mul (f64_neg (ln64 (f64_max u f64_1em12))) ml)), r))"

section \<open>Distances and neighbours\<close>

definition dist_to :: "ann_index \<Rightarrow> vec \<Rightarrow> f32 \<Rightarrow> nat \<Rightarrow> f32 option" where
  "dist_to G q qsum node =
     map_option (\<lambda>d. f32_sub f32_one d)
       (dot_query (ai_store G) node (case ai_dim G of None \<Rightarrow> 0 | Some d \<Rightarrow> d) q qsum)"

text \<open>\<open>self.links[node].get(layer)\<close>: the node is indexed, the layer is not.\<close>

definition neighbours :: "ann_index \<Rightarrow> nat \<Rightarrow> nat \<Rightarrow> nat list option" where
  "neighbours G layer node =
     map_option (\<lambda>ls. if layer < length ls then ls ! layer else []) (index_opt (ai_links G) node)"

section \<open>The greedy climb\<close>

fun greedy_scan :: "(nat \<Rightarrow> f32 option) \<Rightarrow> nat list \<Rightarrow> nat \<Rightarrow> f32 \<Rightarrow> bool \<Rightarrow> (nat \<times> f32 \<times> bool) option" where
  "greedy_scan dst [] cur d imp = Some (cur, d, imp)"
| "greedy_scan dst (nb # ns) cur d imp =
     (case dst nb of
        None \<Rightarrow> None
      | Some x \<Rightarrow> if f32_lt x d then greedy_scan dst ns nb x True else greedy_scan dst ns cur d imp)"

definition all_links :: "ann_index \<Rightarrow> nat set" where
  "all_links G = \<Union> (set ` \<Union> (set ` set (ai_links G)))"

definition closer :: "ann_index \<Rightarrow> (nat \<Rightarrow> f32 option) \<Rightarrow> f32 \<Rightarrow> nat set" where
  "closer G dst d = {nb \<in> all_links G. \<exists>x. dst nb = Some x \<and> f32_lt x d}"

lemma finite_closer: "finite (closer G dst d)"
  by (simp add: closer_def all_links_def)

lemma neighbours_links: "neighbours G layer node = Some ns \<Longrightarrow> set ns \<subseteq> all_links G"
proof -
  assume "neighbours G layer node = Some ns"
  then have n: "node < length (ai_links G)" "ns = (if layer < length (ai_links G ! node) then ai_links G ! node ! layer else [])"
    by (auto simp: neighbours_def index_opt_def split: if_splits)
  then have "ai_links G ! node \<in> set (ai_links G)" by simp
  moreover have "ns = [] \<or> ns \<in> set (ai_links G ! node)" using n(2) by (auto split: if_splits)
  ultimately show ?thesis unfolding all_links_def by fastforce
qed

lemma f32_lt_trans: "f32_lt x y \<Longrightarrow> f32_lt y z \<Longrightarrow> f32_lt x z"
  by (auto simp: f32_lt_def)

lemma greedy_scan_improves:
  "greedy_scan dst ns cur d imp = Some (cur', d', imp') \<Longrightarrow>
   (cur' = cur \<and> d' = d \<and> imp' = imp) \<or> (imp' \<and> cur' \<in> set ns \<and> dst cur' = Some d' \<and> f32_lt d' d)"
proof (induction ns arbitrary: cur d imp)
  case (Cons nb ns)
  then obtain x where x: "dst nb = Some x" by (auto split: option.splits)
  show ?case
  proof (cases "f32_lt x d")
    case True
    then have "greedy_scan dst ns nb x True = Some (cur', d', imp')" using Cons.prems x by simp
    from Cons.IH [OF this] show ?thesis using True x f32_lt_trans by auto
  next
    case False
    then have "greedy_scan dst ns cur d imp = Some (cur', d', imp')" using Cons.prems x by simp
    from Cons.IH [OF this] show ?thesis by auto
  qed
qed simp

text \<open>The distance falls with every move, so the climb ends on every graph.\<close>

function greedy_loop :: "ann_index \<Rightarrow> (nat \<Rightarrow> f32 option) \<Rightarrow> nat \<Rightarrow> nat \<Rightarrow> f32 \<Rightarrow> nat option" where
  "greedy_loop G dst layer cur d =
     (case neighbours G layer cur of
        None \<Rightarrow> None
      | Some ns \<Rightarrow>
          (case greedy_scan dst ns cur d False of
             None \<Rightarrow> None
           | Some (cur', d', imp) \<Rightarrow> if imp then greedy_loop G dst layer cur' d' else Some cur'))"
  by pat_completeness auto
termination
proof (relation "measure (\<lambda>(G, dst, layer, cur, d). card (closer G dst d))")
  fix G :: ann_index and dst layer cur d ns x cur' y d' imp
  assume ns: "neighbours G layer cur = Some ns" and s: "greedy_scan dst ns cur d False = Some x" "(cur', y) = x" "(d', imp) = y" "imp"
  then have "greedy_scan dst ns cur d False = Some (cur', d', True)" by simp
  from greedy_scan_improves [OF this] have g: "cur' \<in> set ns" "dst cur' = Some d'" "f32_lt d' d" by simp_all
  have "closer G dst d' \<subseteq> closer G dst d" using g(3) f32_lt_trans by (auto simp: closer_def)
  moreover have "cur' \<in> closer G dst d" using g neighbours_links [OF ns] by (auto simp: closer_def)
  moreover have "cur' \<notin> closer G dst d'" using g(2) by (auto simp: closer_def f32_lt_def)
  ultimately have "card (closer G dst d') < card (closer G dst d)" by (intro psubset_card_mono [OF finite_closer]) auto
  then show "((G, dst, layer, cur', d'), G, dst, layer, cur, d) \<in> measure (\<lambda>(G, dst, layer, cur, d). card (closer G dst d))" by simp
qed (rule wf_measure)

declare greedy_loop.simps [simp del]

definition greedy_at :: "ann_index \<Rightarrow> (nat \<Rightarrow> f32 option) \<Rightarrow> nat \<Rightarrow> nat \<Rightarrow> nat option" where
  "greedy_at G dst layer start = Option.bind (dst start) (greedy_loop G dst layer start)"

text \<open>The descent through the layers \<open>hi, \<dots>, low\<close>.\<close>

definition descend :: "ann_index \<Rightarrow> (nat \<Rightarrow> f32 option) \<Rightarrow> nat \<Rightarrow> nat \<Rightarrow> nat \<Rightarrow> nat option" where
  "descend G dst low hi start =
     fold (\<lambda>layer acc. Option.bind acc (greedy_at G dst layer)) (rev [low..<hi + 1]) (Some start)"

section \<open>The beam\<close>

type_synonym ann_scored = "f32 \<times> nat"

definition near_key :: "ann_scored \<Rightarrow> int" where "near_key s = - f32_key (fst s)"
definition far_key :: "ann_scored \<Rightarrow> int" where "far_key s = f32_key (fst s)"

definition worst :: "ann_scored list \<Rightarrow> f32" where
  "worst res = (case heap_peek res of None \<Rightarrow> f32_infinity | Some s \<Rightarrow> fst s)"

text \<open>Whether a node enters the result: live (or construction), and admitted.\<close>

definition admits :: "ann_index \<Rightarrow> bool \<Rightarrow> (nat \<Rightarrow> bool option) \<Rightarrow> nat \<Rightarrow> bool option" where
  "admits G include_deleted admit node =
     (if include_deleted then admit node
      else case index_opt (ai_deleted G) node of None \<Rightarrow> None | Some True \<Rightarrow> Some False | Some False \<Rightarrow> admit node)"

definition keep_best :: "nat \<Rightarrow> ann_scored \<Rightarrow> ann_scored list \<Rightarrow> ann_scored list" where
  "keep_best ef s res =
     (let r = heap_push far_key s res in
      if ef < length r then (case heap_pop far_key r of None \<Rightarrow> r | Some (_, r') \<Rightarrow> r') else r)"

type_synonym beam_state = "bool list \<times> ann_scored list \<times> ann_scored list"

fun expand ::
  "(nat \<Rightarrow> f32 option) \<Rightarrow> (nat \<Rightarrow> bool option) \<Rightarrow> nat \<Rightarrow> nat list \<Rightarrow> beam_state \<Rightarrow> beam_state option" where
  "expand dst adm ef [] st = Some st"
| "expand dst adm ef (nb # ns) (vis, cand, res) =
     (case index_opt vis nb of
        None \<Rightarrow> None
      | Some True \<Rightarrow> expand dst adm ef ns (vis, cand, res)
      | Some False \<Rightarrow>
          (case dst nb of
             None \<Rightarrow> None
           | Some d \<Rightarrow>
               if f32_lt d (worst res) \<or> length res < ef then
                 (case adm nb of
                    None \<Rightarrow> None
                  | Some a \<Rightarrow> expand dst adm ef ns
                      (vis[nb := True], heap_push near_key (d, nb) cand, if a then keep_best ef (d, nb) res else res))
               else expand dst adm ef ns (vis[nb := True], cand, res)))"

definition unvisited :: "bool list \<Rightarrow> nat" where
  "unvisited vis = length (filter Not vis)"

lemma unvisited_update: "i < length vis \<Longrightarrow> \<not> vis ! i \<Longrightarrow> Suc (unvisited (vis[i := True])) = unvisited vis"
proof (induction vis arbitrary: i)
  case (Cons v vis)
  then show ?case by (cases i) (auto simp: unvisited_def)
qed simp

lemma expand_measure:
  "expand dst adm ef ns (vis, cand, res) = Some (vis', cand', res') \<Longrightarrow>
   unvisited vis' + length cand' \<le> unvisited vis + length cand"
proof (induction ns arbitrary: vis cand res)
  case (Cons nb ns)
  then obtain v where v: "index_opt vis nb = Some v" by (auto split: option.splits)
  show ?case
  proof (cases v)
    case True
    then show ?thesis using Cons v by simp
  next
    case False
    then have u: "Suc (unvisited (vis[nb := True])) = unvisited vis"
      using v unvisited_update [of nb vis] by (auto simp: index_opt_def split: if_splits)
    from Cons.prems v False obtain cand1 res1 where
      "expand dst adm ef ns (vis[nb := True], cand1, res1) = Some (vis', cand', res')" "length cand1 \<le> Suc (length cand)"
      by (auto split: option.splits if_splits)
    from Cons.IH [OF this(1)] this(2) show ?thesis using u by simp
  qed
qed simp

text \<open>Each round pops a candidate, and a candidate is pushed once per node, so the beam ends.\<close>

function beam_loop ::
  "ann_index \<Rightarrow> (nat \<Rightarrow> f32 option) \<Rightarrow> (nat \<Rightarrow> bool option) \<Rightarrow> nat \<Rightarrow> nat \<Rightarrow> beam_state \<Rightarrow> ann_scored list option" where
  "beam_loop G dst adm layer ef (vis, cand, res) =
     (case heap_pop near_key cand of
        None \<Rightarrow> Some res
      | Some ((d, node), cand') \<Rightarrow>
          if f32_lt (worst res) d \<and> ef \<le> length res then Some res
          else (case neighbours G layer node of
                  None \<Rightarrow> None
                | Some ns \<Rightarrow>
                    (case expand dst adm ef ns (vis, cand', res) of
                       None \<Rightarrow> None
                     | Some st \<Rightarrow> beam_loop G dst adm layer ef st)))"
  by pat_completeness auto
termination
proof (relation "measure (\<lambda>(G, dst, adm, layer, ef, vis, cand, res). unvisited vis + length cand)")
  fix G :: ann_index and dst adm layer ef vis cand res x y cand' d node ns st
  assume "heap_pop near_key cand = Some x" "(y, cand') = x" "(d, node) = y"
  then have "heap_pop near_key cand = Some ((d, node), cand')" by simp
  from heap.pop_length [OF this] have c: "length cand = Suc (length cand')" .
  assume "expand dst adm ef ns (vis, cand', res) = Some st"
  then show "((G, dst, adm, layer, ef, st), G, dst, adm, layer, ef, vis, cand, res) \<in>
      measure (\<lambda>(G, dst, adm, layer, ef, vis, cand, res). unvisited vis + length cand)"
    using expand_measure [of dst adm ef ns vis cand' res] c by (cases st) fastforce
qed (rule wf_measure)

declare beam_loop.simps [simp del]

definition beam_admit ::
  "ann_index \<Rightarrow> (nat \<Rightarrow> f32 option) \<Rightarrow> nat \<Rightarrow> nat \<Rightarrow> nat \<Rightarrow> bool \<Rightarrow> (nat \<Rightarrow> bool option) \<Rightarrow> ann_scored list option" where
  "beam_admit G dst start layer ef include_deleted admit =
     (let n = length (ai_ids G); adm = admits G include_deleted admit in
      if n \<le> start then None
      else Option.bind (dst start) (\<lambda>d.
        Option.bind (adm start) (\<lambda>a.
        Option.bind (beam_loop G dst adm layer ef
            ((replicate n False)[start := True], heap_push near_key (d, start) [], if a then heap_push far_key (d, start) [] else []))
          (\<lambda>res. Some (sort_key far_key res)))))"

definition beam :: "ann_index \<Rightarrow> (nat \<Rightarrow> f32 option) \<Rightarrow> nat \<Rightarrow> nat \<Rightarrow> nat \<Rightarrow> bool \<Rightarrow> ann_scored list option" where
  "beam G dst start layer ef include_deleted = beam_admit G dst start layer ef include_deleted (\<lambda>_. Some True)"

section \<open>Diverse neighbours\<close>

fun any_opt :: "('a \<Rightarrow> bool option) \<Rightarrow> 'a list \<Rightarrow> bool option" where
  "any_opt p [] = Some False"
| "any_opt p (x # xs) = (case p x of None \<Rightarrow> None | Some True \<Rightarrow> Some True | Some False \<Rightarrow> any_opt p xs)"

fun keep_diverse ::
  "(nat \<Rightarrow> nat \<Rightarrow> f32 option) \<Rightarrow> nat \<Rightarrow> ann_scored list \<Rightarrow> ann_scored list \<Rightarrow> ann_scored list option" where
  "keep_diverse dots m [] kept = Some kept"
| "keep_diverse dots m ((d, c) # cs) kept =
     (if m \<le> length kept then Some kept
      else case any_opt (\<lambda>(_, s). map_option (\<lambda>x. f32_lt (f32_sub f32_one x) d) (dots c s)) kept of
             None \<Rightarrow> None
           | Some dominated \<Rightarrow> keep_diverse dots m cs (if dominated then kept else kept @ [(d, c)]))"

fun pad_nearest :: "nat \<Rightarrow> ann_scored list \<Rightarrow> ann_scored list \<Rightarrow> ann_scored list" where
  "pad_nearest m [] kept = kept"
| "pad_nearest m ((d, c) # cs) kept =
     (if m \<le> length kept then kept
      else pad_nearest m cs (if c \<in> snd ` set kept then kept else kept @ [(d, c)]))"

definition select_diverse :: "ann_index \<Rightarrow> ann_scored list \<Rightarrow> nat \<Rightarrow> ann_scored list option" where
  "select_diverse G cs m =
     (let d = (case ai_dim G of None \<Rightarrow> 0 | Some d \<Rightarrow> d) in
      map_option (\<lambda>kept. if length kept < m then pad_nearest m cs kept else kept)
        (keep_diverse (\<lambda>a b. dot_nodes (ai_store G) a b d) m cs []))"

section \<open>Linking\<close>

definition links_at :: "ann_index \<Rightarrow> nat \<Rightarrow> nat \<Rightarrow> nat list option" where
  "links_at G node layer = Option.bind (index_opt (ai_links G) node) (\<lambda>ls. index_opt ls layer)"

definition set_links :: "ann_index \<Rightarrow> nat \<Rightarrow> nat \<Rightarrow> nat list \<Rightarrow> ann_index" where
  "set_links G node layer ns = G\<lparr>ai_links := (ai_links G)[node := (ai_links G ! node)[layer := ns]]\<rparr>"

definition push_link :: "nat \<Rightarrow> nat \<Rightarrow> nat \<Rightarrow> ann_index \<Rightarrow> ann_index option" where
  "push_link node layer nb G = map_option (\<lambda>ns. set_links G node layer (ns @ [nb])) (links_at G node layer)"

definition prune :: "nat \<Rightarrow> nat \<Rightarrow> nat \<Rightarrow> ann_index \<Rightarrow> ann_index option" where
  "prune node layer max_links G =
     Option.bind (materialize (ai_store G) node (case ai_dim G of None \<Rightarrow> 0 | Some d \<Rightarrow> d)) (\<lambda>query.
     Option.bind (links_at G node layer) (\<lambda>ns.
     Option.bind (those (map (\<lambda>nb. map_option (\<lambda>d. (d, nb)) (dist_to G query (f32_sum query) nb)) ns)) (\<lambda>scored.
     Option.bind (select_diverse G (sort_key far_key scored) max_links) (\<lambda>kept.
       Some (set_links G node layer (map snd kept))))))"

definition link_one :: "nat \<Rightarrow> nat \<Rightarrow> nat \<Rightarrow> nat \<Rightarrow> ann_index \<Rightarrow> ann_index option" where
  "link_one node layer max_links nb G =
     Option.bind (push_link node layer nb G) (\<lambda>G1.
     Option.bind (push_link nb layer node G1) (\<lambda>G2.
     Option.bind (links_at G2 nb layer) (\<lambda>ns.
       if max_links < length ns then prune nb layer max_links G2 else Some G2)))"

definition connect_layer :: "nat \<Rightarrow> vec \<Rightarrow> f32 \<Rightarrow> nat \<Rightarrow> ann_index \<times> nat \<Rightarrow> (ann_index \<times> nat) option" where
  "connect_layer node q qsum layer st =
     (case st of (G, cur) \<Rightarrow>
        Option.bind (beam G (dist_to G q qsum) cur layer (ac_ef_construction (ai_config G)) True) (\<lambda>found.
          let m = ac_m (ai_config G); max_links = (if layer = 0 then m * 2 else m) in
          Option.bind (select_diverse G found m) (\<lambda>chosen.
          Option.bind (fold (\<lambda>(_, nb) acc. Option.bind acc (link_one node layer max_links nb)) chosen (Some G)) (\<lambda>G'.
            Some (G', case chosen of [] \<Rightarrow> cur | (_, c) # _ \<Rightarrow> c)))))"

section \<open>Insert, remove, search\<close>

definition bury :: "nat \<Rightarrow> ann_index \<Rightarrow> ann_index option" where
  "bury node G =
     Option.bind (index_opt (ai_deleted G) node) (\<lambda>gone.
       Some (if gone then G else G\<lparr>ai_deleted := (ai_deleted G)[node := True], ai_live := ai_live G - 1\<rparr>))"

definition add_node :: "(f64 \<Rightarrow> f64) \<Rightarrow> bytes \<Rightarrow> vec \<Rightarrow> ann_index \<Rightarrow> (ann_index \<times> nat \<times> nat) option" where
  "add_node ln64 i v G =
     (case next_level ln64 (ac_m (ai_config G)) (ai_rng G) of (level, rng) \<Rightarrow>
        let node = length (ai_ids G) mod 2 ^ 32 in
        map_option (\<lambda>s.
          (G\<lparr>ai_dim := (case ai_dim G of None \<Rightarrow> Some (length v) | Some d \<Rightarrow> Some d), ai_store := s, ai_rng := rng,
             ai_ids := ai_ids G @ [i], ai_by_id := (ai_by_id G)(i \<mapsto> node), ai_deleted := ai_deleted G @ [False],
             ai_links := ai_links G @ [replicate (level + 1) []], ai_live := ai_live G + 1\<rparr>, node, level))
          (store_push v (ai_store G)))"

definition ann_insert :: "(f64 \<Rightarrow> f64) \<Rightarrow> bytes \<Rightarrow> vec \<Rightarrow> ann_index \<Rightarrow> ann_index option" where
  "ann_insert ln64 i emb G =
     Option.bind (case ai_by_id G i of None \<Rightarrow> Some G | Some old \<Rightarrow> bury old G) (\<lambda>G0.
       let v = normalized emb in
       Option.bind (add_node ln64 i v G0) (\<lambda>(G1, node, level).
         case ai_entry G1 of
           None \<Rightarrow> Some (G1\<lparr>ai_entry := Some (node, level)\<rparr>)
         | Some (start, hi) \<Rightarrow>
             let qsum = f32_sum v in
             Option.bind (descend G1 (dist_to G1 v qsum) (level + 1) hi start) (\<lambda>cur.
             Option.bind (fold (\<lambda>layer acc. Option.bind acc (connect_layer node v qsum layer))
                 (rev [0..<min level hi + 1]) (Some (G1, cur))) (\<lambda>(G2, _).
               Some (if hi < level then G2\<lparr>ai_entry := Some (node, level)\<rparr> else G2)))))"

definition ann_remove :: "bytes \<Rightarrow> ann_index \<Rightarrow> ann_index option" where
  "ann_remove i G = (case ai_by_id G i of None \<Rightarrow> Some G | Some node \<Rightarrow> bury node G)"

definition ann_hits :: "ann_index \<Rightarrow> nat \<Rightarrow> ann_scored list \<Rightarrow> scored option" where
  "ann_hits G k found =
     those (map (\<lambda>(d, node). map_option (\<lambda>i. (i, f32_sub f32_one d)) (index_opt (ai_ids G) node)) (take k found))"

definition ann_search :: "ann_index \<Rightarrow> vec \<Rightarrow> nat \<Rightarrow> nat \<Rightarrow> scored option" where
  "ann_search G query k ef =
     (case ai_entry G of
        None \<Rightarrow> Some []
      | Some (start, hi) \<Rightarrow>
          if k = 0 \<or> ai_dim G \<noteq> Some (length query) then Some []
          else let q = normalized query; dst = dist_to G q (f32_sum q) in
            Option.bind (descend G dst 1 hi start) (\<lambda>cur.
            Option.bind (beam G dst cur 0 (max (max ef (ac_ef_search (ai_config G))) k) False) (ann_hits G k)))"

text \<open>The beam is widened by the inverse of the selectivity, up to the number of nodes.\<close>

definition widened :: "nat \<Rightarrow> nat \<Rightarrow> nat \<Rightarrow> nat" where
  "widened ef allowed n =
     (let sel = f64_max (f64_div (f64_of_nat allowed) (f64_of_nat (max n 1))) (f64_div (f64_of_nat 1) (f64_of_nat 4096)) in
      f64_to_usize (f64_min (f64_ceil (f64_div (f64_of_nat ef) sel)) (f64_of_nat n)))"

definition ann_search_filtered :: "ann_index \<Rightarrow> vec \<Rightarrow> nat \<Rightarrow> nat \<Rightarrow> bytes set \<Rightarrow> scored option" where
  "ann_search_filtered G query k ef allow =
     (case ai_entry G of
        None \<Rightarrow> Some []
      | Some (start, hi) \<Rightarrow>
          if k = 0 \<or> ai_dim G \<noteq> Some (length query) \<or> allow = {} then Some []
          else let q = normalized query; dst = dist_to G q (f32_sum q);
                   ef' = widened (max (max ef (ac_ef_search (ai_config G))) k) (card allow) (length (ai_ids G)) in
            Option.bind (descend G dst 1 hi start) (\<lambda>cur.
            Option.bind (beam_admit G dst cur 0 ef' False (\<lambda>node. map_option (\<lambda>i. i \<in> allow) (index_opt (ai_ids G) node)))
              (ann_hits G k)))"

end
