(* ===== verification/GraphFile.thy ===== *)
theory GraphFile
  imports Graph
begin

text \<open>
  The binary form of the vector graph in \<open>crates/recall/src/ann.rs\<close>: one blob, or a structure blob beside a
  file of vectors that is paged.  A reader of the blob rejects it, or panics where the code reserves more
  memory than an allocation may have.
\<close>

section \<open>The reader\<close>

datatype 'a loaded = Loaded 'a | Rejected | Overflowed

type_synonym 'a reader = "bytes \<Rightarrow> ('a \<times> bytes) loaded"

definition r_done :: "'a \<Rightarrow> 'a reader" where
  "r_done x b = Loaded (x, b)"

definition r_reject :: "'a reader" where
  "r_reject b = Rejected"

definition r_then :: "'a reader \<Rightarrow> ('a \<Rightarrow> 'b reader) \<Rightarrow> 'b reader" where
  "r_then r f b = (case r b of Loaded (x, b') \<Rightarrow> f x b' | Rejected \<Rightarrow> Rejected | Overflowed \<Rightarrow> Overflowed)"

definition r_take :: "nat \<Rightarrow> bytes reader" where
  "r_take n b = (if n \<le> length b then Loaded (take n b, drop n b) else Rejected)"

definition r_u8 :: "nat reader" where "r_u8 = r_then (r_take 1) (\<lambda>s. r_done (of_le s))"
definition r_u32 :: "nat reader" where "r_u32 = r_then (r_take 4) (\<lambda>s. r_done (of_le s))"
definition r_u64 :: "nat reader" where "r_u64 = r_then (r_take 8) (\<lambda>s. r_done (of_le s))"
definition r_f32 :: "f32 reader" where "r_f32 = r_then (r_take 4) (\<lambda>s. r_done (of_nat (of_le s)))"

text \<open>\<open>for _ in 0..n { xs.push(r?) }\<close>, and \<open>Vec::reserve\<close> of \<open>n\<close> elements of \<open>k\<close> bytes.\<close>

primrec r_times :: "nat \<Rightarrow> 'a reader \<Rightarrow> 'a list reader" where
  "r_times 0 r = r_done []"
| "r_times (Suc n) r = r_then r (\<lambda>x. r_then (r_times n r) (\<lambda>xs. r_done (x # xs)))"

definition isize_max :: nat where "isize_max = 2 ^ 63 - 1"

definition r_reserve :: "nat \<Rightarrow> nat \<Rightarrow> unit reader" where
  "r_reserve n k b = (if isize_max < n * k then Overflowed else Loaded ((), b))"

section \<open>The head\<close>

record ann_head =
  hd_dim :: "nat option"
  hd_rng :: "64 word"
  hd_live :: nat
  hd_entry :: "(nat \<times> nat) option"
  hd_ids :: "bytes list"
  hd_by_id :: "bytes \<rightharpoonup> nat"
  hd_deleted :: "bool list"
  hd_links :: "nat list list list"

abbreviation w_u32 :: "nat \<Rightarrow> bytes" where "w_u32 n \<equiv> le_bytes 4 n"
abbreviation w_u64 :: "nat \<Rightarrow> bytes" where "w_u64 n \<equiv> le_bytes 8 n"
abbreviation w_f32 :: "f32 \<Rightarrow> bytes" where "w_f32 x \<equiv> le_bytes 4 (unat x)"

definition w_id :: "bytes \<Rightarrow> bytes" where
  "w_id i = w_u32 (length i) @ i"

definition w_layer :: "nat list \<Rightarrow> bytes" where
  "w_layer ns = w_u32 (length ns) @ concat (map w_u32 ns)"

definition w_node_links :: "nat list list \<Rightarrow> bytes" where
  "w_node_links ls = w_u32 (length ls) @ concat (map w_layer ls)"

definition w_flag :: "bool \<Rightarrow> bytes" where
  "w_flag d = [char_of (if d then 1 else 0 :: nat)]"

definition write_head :: "ann_index \<Rightarrow> bytes" where
  "write_head G =
     w_u32 (case ai_dim G of None \<Rightarrow> 0 | Some d \<Rightarrow> d) @ w_u64 (unat (ai_rng G)) @ w_u64 (ai_live G) @
     (case ai_entry G of Some (node, layer) \<Rightarrow> w_flag True @ w_u32 node @ w_u32 layer | None \<Rightarrow> w_flag False) @
     w_u32 (length (ai_ids G)) @ concat (map w_id (ai_ids G)) @ concat (map w_flag (ai_deleted G)) @
     concat (map w_node_links (ai_links G))"

definition r_id :: "bytes reader" where
  "r_id = r_then r_u32 (\<lambda>n. r_then (r_take n) (\<lambda>s. if utf8_valid s then r_done s else r_reject))"

definition r_layer :: "nat list reader" where
  "r_layer = r_then r_u32 (\<lambda>count. r_times count r_u32)"

definition r_node_links :: "nat list list reader" where
  "r_node_links = r_then r_u32 (\<lambda>n. r_times n r_layer)"

definition r_entry :: "(nat \<times> nat) option reader" where
  "r_entry = r_then r_u8 (\<lambda>t.
     if t = 1 then r_then r_u32 (\<lambda>node. r_then r_u32 (\<lambda>layer. r_done (Some (node, layer)))) else r_done None)"

text \<open>The last node of an id wins, as each \<open>by_id.insert\<close> replaces.  The capacities \<open>head_read\<close> reserves are
  32-bit counts, which cannot overflow.\<close>

definition by_id_of :: "bytes list \<Rightarrow> bytes \<rightharpoonup> nat" where
  "by_id_of ids = fold (\<lambda>(node, i) m. m(i \<mapsto> node)) (enumerate 0 ids) Map.empty"

definition head_read :: "ann_head reader" where
  "head_read =
     r_then r_u32 (\<lambda>dim_raw. r_then r_u64 (\<lambda>rng. r_then r_u64 (\<lambda>live. r_then r_entry (\<lambda>entry.
     r_then r_u32 (\<lambda>n. r_then (r_times n r_id) (\<lambda>ids. r_then (r_times n r_u8) (\<lambda>deleted. r_then (r_times n r_node_links) (\<lambda>links.
       r_done \<lparr>hd_dim = (if dim_raw = 0 then None else Some dim_raw), hd_rng = of_nat rng, hd_live = live, hd_entry = entry,
         hd_ids = ids, hd_by_id = by_id_of ids, hd_deleted = map (\<lambda>d. d \<noteq> 0) deleted, hd_links = links\<rparr>))))))))"

definition into_index :: "ann_head \<Rightarrow> ann_config \<Rightarrow> vstore \<Rightarrow> ann_index" where
  "into_index h config s =
     \<lparr>ai_config = config, ai_dim = hd_dim h, ai_store = s, ai_ids = hd_ids h, ai_by_id = hd_by_id h, ai_deleted = hd_deleted h,
      ai_links = hd_links h, ai_entry = hd_entry h, ai_rng = hd_rng h, ai_live = hd_live h\<rparr>"

section \<open>Parameters and codebooks\<close>

definition w_param :: "sq_params \<Rightarrow> bytes" where
  "w_param p = w_f32 (sq_scale p) @ w_f32 (sq_offset p) @ w_f32 (sq_code_sum p)"

definition write_params :: "sq_params list \<Rightarrow> bytes" where
  "write_params ps = w_u32 (length ps) @ concat (map w_param ps)"

definition r_param :: "sq_params reader" where
  "r_param = r_then r_f32 (\<lambda>s. r_then r_f32 (\<lambda>off. r_then r_f32 (\<lambda>c.
     r_done \<lparr>sq_scale = s, sq_offset = off, sq_code_sum = c\<rparr>)))"

definition read_params :: "sq_params list reader" where
  "read_params = r_then r_u32 (\<lambda>n. r_times n r_param)"

definition write_pq :: "nat \<Rightarrow> pq_codebook option \<Rightarrow> bytes" where
  "write_pq m codebook =
     w_u32 m @
     (case codebook of
        Some cb \<Rightarrow> w_flag True @ w_u32 (pq_k cb) @ w_u32 (pq_sub_dim cb) @ concat (map w_f32 (pq_centroids cb))
      | None \<Rightarrow> w_flag False)"

definition usize_limit :: nat where "usize_limit = 2 ^ 64"

definition read_pq :: "(nat \<times> pq_codebook option) reader" where
  "read_pq =
     r_then r_u32 (\<lambda>m. r_then r_u8 (\<lambda>t.
       if t = 0 then r_done (m, None)
       else if t = 1 then
         r_then r_u32 (\<lambda>k. r_then r_u32 (\<lambda>sub_dim.
           if usize_limit \<le> m * k \<or> usize_limit \<le> m * k * sub_dim then r_reject
           else r_then (r_reserve (m * k * sub_dim) 4) (\<lambda>_.
             r_then (r_times (m * k * sub_dim) r_f32) (\<lambda>cents.
               r_done (m, Some \<lparr>pq_m = m, pq_k = k, pq_sub_dim = sub_dim, pq_centroids = cents\<rparr>)))))
       else r_reject))"

section \<open>The vectors\<close>

text \<open>\<open>write_all\<close> and the stream: base, then tail, little-endian.\<close>

definition code_bytes :: "8 word mapped \<Rightarrow> bytes" where
  "code_bytes mv = map (\<lambda>c. char_of (unat c)) (mv_all mv)"

definition float_bytes :: "f32 mapped \<Rightarrow> bytes" where
  "float_bytes mv = concat (map w_f32 (mv_all mv))"

definition codes_of :: "bytes \<Rightarrow> 8 word list" where
  "codes_of b = map (\<lambda>c. of_nat (byte_val c)) b"

definition ram_vec :: "'a list \<Rightarrow> 'a mapped" where
  "ram_vec xs = in_ram\<lparr>mv_tail := xs\<rparr>"

definition write_vectors :: "ann_index \<Rightarrow> bytes" where
  "write_vectors G =
     (case ai_store G of
        SFull v \<Rightarrow> float_bytes v | SSq8 codes params \<Rightarrow> code_bytes codes | SBq bits \<Rightarrow> code_bytes bits
      | SPq cb warmup codes m \<Rightarrow> code_bytes codes)"

definition needs_vector_flush :: "ann_index \<Rightarrow> bool" where
  "needs_vector_flush G =
     (case ai_store G of
        SFull v \<Rightarrow> mv_needs_flush v | SSq8 codes params \<Rightarrow> mv_needs_flush codes | SBq bits \<Rightarrow> mv_needs_flush bits
      | SPq cb warmup codes m \<Rightarrow> mv_needs_flush codes)"

definition ann_seal :: "ann_index \<Rightarrow> ann_index option" where
  "ann_seal G = map_option (\<lambda>s. G\<lparr>ai_store := s\<rparr>) (store_seal (case ai_dim G of None \<Rightarrow> 0 | Some d \<Rightarrow> d) (ai_store G))"

section \<open>One blob\<close>

definition w_tag :: "nat \<Rightarrow> bytes" where
  "w_tag t = [char_of t]"

definition blob_magic :: bytes where "blob_magic = ''RROG''"
definition structure_magic :: bytes where "structure_magic = ''RROS''"

definition to_bytes :: "ann_index \<Rightarrow> bytes" where
  "to_bytes G =
     blob_magic @ w_tag 1 @ write_head G @
     (case ai_store G of
        SFull v \<Rightarrow> w_tag 0 @ w_u64 (mv_len v) @ float_bytes v
      | SSq8 codes params \<Rightarrow> w_tag 1 @ w_u64 (mv_len codes) @ code_bytes codes @ write_params params
      | SBq bits \<Rightarrow> w_tag 2 @ w_u64 (mv_len bits) @ code_bytes bits
      | SPq cb warmup codes m \<Rightarrow> w_tag 3 @ write_pq m cb @ w_u64 (mv_len codes) @ code_bytes codes)"

definition r_magic :: "bytes \<Rightarrow> unit reader" where
  "r_magic magic = r_then (r_take 4) (\<lambda>s. if s \<noteq> magic then r_reject else r_then r_u8 (\<lambda>v. if v \<noteq> 1 then r_reject else r_done ()))"

definition r_codes :: "8 word mapped reader" where
  "r_codes = r_then r_u64 (\<lambda>n. r_then (r_take n) (\<lambda>b. r_done (ram_vec (codes_of b))))"

definition r_store :: "nat \<Rightarrow> vstore reader" where
  "r_store n =
     r_then r_u8 (\<lambda>t.
       if t = 0 then
         r_then r_u64 (\<lambda>len. r_then (r_reserve len 4) (\<lambda>_. r_then (r_times len r_f32) (\<lambda>xs. r_done (SFull (ram_vec xs)))))
       else if t = 1 then r_then r_codes (\<lambda>codes. r_then read_params (\<lambda>ps. r_done (SSq8 codes ps)))
       else if t = 2 then r_then r_codes (\<lambda>bits. r_done (SBq bits))
       else if t = 3 then
         r_then read_pq (\<lambda>(m, cb). r_then r_codes (\<lambda>codes.
           if 0 < n \<and> (cb = None \<or> mv_len codes \<noteq> n * m) then r_reject else r_done (SPq cb [] codes m)))
       else r_reject)"

definition from_bytes :: "bytes \<Rightarrow> ann_config \<Rightarrow> ann_index loaded" where
  "from_bytes b config =
     (case r_then (r_magic blob_magic) (\<lambda>_. r_then head_read (\<lambda>h. r_then (r_store (length (hd_ids h))) (\<lambda>s. r_done (h, s)))) b of
        Loaded ((h, s), _) \<Rightarrow> if store_quantizer s \<noteq> ac_quantizer config then Rejected else Loaded (into_index h config s)
      | Rejected \<Rightarrow> Rejected
      | Overflowed \<Rightarrow> Overflowed)"

section \<open>Structure and paged vectors\<close>

definition to_structure_bytes :: "ann_index \<Rightarrow> bytes" where
  "to_structure_bytes G =
     structure_magic @ w_tag 1 @ write_head G @
     (case ai_store G of
        SFull v \<Rightarrow> w_tag 0 | SSq8 codes params \<Rightarrow> w_tag 1 @ write_params params | SBq bits \<Rightarrow> w_tag 2
      | SPq cb warmup codes m \<Rightarrow> w_tag 3 @ write_pq m cb)"

text \<open>The side data of a store: its quantizer, its parameters, its codebook.\<close>

definition r_side :: "(quantizer \<times> sq_params list \<times> pq_codebook option) reader" where
  "r_side =
     r_then r_u8 (\<lambda>t.
       if t = 0 then r_done (QNone, [], None)
       else if t = 1 then r_then read_params (\<lambda>ps. r_done (QSq8, ps, None))
       else if t = 2 then r_done (QBq, [], None)
       else if t = 3 then r_then read_pq (\<lambda>(m, cb). r_done (QPq m, [], cb))
       else r_reject)"

definition file_unit :: "quantizer \<Rightarrow> nat \<Rightarrow> nat" where
  "file_unit q d = (case q of QNone \<Rightarrow> d | QSq8 \<Rightarrow> d | QBq \<Rightarrow> bq_bytes d | QPq m \<Rightarrow> m)"

definition elem_bytes :: "quantizer \<Rightarrow> nat" where
  "elem_bytes q = (if q = QNone then 4 else 1)"

definition paged_codes :: "bytes \<Rightarrow> nat \<Rightarrow> nat \<Rightarrow> nat \<Rightarrow> 8 word mapped" where
  "paged_codes vectors unit n budget = paged_vec (fst (paged_new (codes_of vectors) unit n budget 1)) (n * unit)"

definition paged_floats :: "bytes \<Rightarrow> nat \<Rightarrow> nat \<Rightarrow> nat \<Rightarrow> f32 mapped" where
  "paged_floats vectors unit n budget = paged_vec (fst (paged_new (decode_vec vectors) unit n budget 4)) (n * unit)"

definition paged_store :: "quantizer \<Rightarrow> sq_params list \<Rightarrow> pq_codebook option \<Rightarrow> bytes \<Rightarrow> nat \<Rightarrow> nat \<Rightarrow> nat \<Rightarrow> vstore option" where
  "paged_store q params cb vectors unit n budget =
     (case q of
        QNone \<Rightarrow> Some (SFull (paged_floats vectors unit n budget))
      | QSq8 \<Rightarrow> Some (SSq8 (paged_codes vectors unit n budget) params)
      | QBq \<Rightarrow> Some (SBq (paged_codes vectors unit n budget))
      | QPq m \<Rightarrow> (case cb of None \<Rightarrow> None | Some c \<Rightarrow> Some (SPq (Some c) [] (paged_codes vectors unit n budget) m)))"

text \<open>The product of the size check wraps at the width of \<open>usize\<close>.\<close>

definition from_paged :: "bytes \<Rightarrow> bytes \<Rightarrow> ann_config \<Rightarrow> nat \<Rightarrow> ann_index loaded" where
  "from_paged structure vectors config budget =
     (case r_then (r_magic structure_magic) (\<lambda>_. r_then head_read (\<lambda>h. r_then r_side (\<lambda>s. r_done (h, s)))) structure of
        Loaded ((h, q, params, cb), _) \<Rightarrow>
          let n = length (hd_ids h); d = (case hd_dim h of None \<Rightarrow> 0 | Some d \<Rightarrow> d); unit = file_unit q d in
          if q \<noteq> ac_quantizer config then Rejected
          else if n = 0 then Loaded (into_index h config (store_empty q))
          else if q = QSq8 \<and> length params \<noteq> n then Rejected
          else if length vectors \<noteq> (n * unit * elem_bytes q) mod usize_limit then Rejected
          else (case paged_store q params cb vectors unit n budget of
                  None \<Rightarrow> Rejected
                | Some s \<Rightarrow> Loaded (into_index h config s))
      | Rejected \<Rightarrow> Rejected
      | Overflowed \<Rightarrow> Overflowed)"

end
