(* ===== verification/BeamProps.thy ===== *)
theory BeamProps
  imports Graph
begin

text \<open>
  The beam and the climb on a closed set of nodes: they do not panic, they stay inside the set, a beam
  returns each node once, nearest first, and a beam as wide as the graph returns every admitted node
  that can be reached.
\<close>

section \<open>Closed sets of nodes\<close>

text \<open>A set of nodes closed under the links of a layer, on which the distance and the admission are defined.\<close>

definition closed_at :: "ann_index \<Rightarrow> nat \<Rightarrow> nat set \<Rightarrow> bool" where
  "closed_at G layer S \<longleftrightarrow>
     S \<subseteq> {..<length (ai_ids G)} \<and> (\<forall>x \<in> S. \<exists>ns. neighbours G layer x = Some ns \<and> set ns \<subseteq> S)"

definition defined_on :: "nat set \<Rightarrow> (nat \<Rightarrow> 'a option) \<Rightarrow> bool" where
  "defined_on S f \<longleftrightarrow> (\<forall>x \<in> S. \<exists>y. f x = Some y)"

lemma defined_onE: "defined_on S f \<Longrightarrow> x \<in> S \<Longrightarrow> (\<And>y. f x = Some y \<Longrightarrow> P) \<Longrightarrow> P"
  by (auto simp: defined_on_def)

lemma greedy_scan_defined:
  "defined_on S dst \<Longrightarrow> set ns \<subseteq> S \<Longrightarrow> \<exists>r. greedy_scan dst ns cur d imp = Some r"
  by (induction ns arbitrary: cur d imp) (auto simp: defined_on_def)

lemma greedy_loop_ok:
  "closed_at G layer S \<Longrightarrow> defined_on S dst \<Longrightarrow> cur \<in> S \<Longrightarrow> \<exists>x \<in> S. greedy_loop G dst layer cur d = Some x"
proof (induction G dst layer cur d rule: greedy_loop.induct)
  case (1 G dst layer cur d)
  obtain ns where ns: "neighbours G layer cur = Some ns" "set ns \<subseteq> S" using "1.prems" by (auto simp: closed_at_def)
  obtain cur' d' imp where s: "greedy_scan dst ns cur d False = Some (cur', d', imp)"
    using greedy_scan_defined [OF "1.prems"(2) ns(2)] by (metis prod_cases3)
  have "cur' \<in> S" using greedy_scan_improves [OF s] ns(2) "1.prems"(3) by auto
  then show ?case using "1.IH" [OF ns(1) s refl refl _ "1.prems"(1,2)] ns s
    by (cases imp) (simp_all add: greedy_loop.simps [of G dst layer cur])
qed

lemma greedy_at_ok:
  "closed_at G layer S \<Longrightarrow> defined_on S dst \<Longrightarrow> start \<in> S \<Longrightarrow> \<exists>x \<in> S. greedy_at G dst layer start = Some x"
proof -
  assume a: "closed_at G layer S" "defined_on S dst" "start \<in> S"
  obtain d where "dst start = Some d" using a(2,3) by (rule defined_onE)
  then show ?thesis using greedy_loop_ok [OF a, of d] by (simp add: greedy_at_def)
qed

section \<open>The rounds of a beam\<close>

definition beam_inv :: "nat set \<Rightarrow> (nat \<Rightarrow> f32 option) \<Rightarrow> (nat \<Rightarrow> bool option) \<Rightarrow> nat \<Rightarrow> nat \<Rightarrow> beam_state \<Rightarrow> bool" where
  "beam_inv S dst adm n ef st \<longleftrightarrow>
     (case st of (vis, cand, res) \<Rightarrow>
        length vis = n \<and> (\<forall>x < n. vis ! x \<longrightarrow> x \<in> S) \<and>
        (\<forall>(d, x) \<in> set cand. x < n \<and> vis ! x \<and> dst x = Some d) \<and>
        (\<forall>(d, x) \<in> set res. x < n \<and> vis ! x \<and> dst x = Some d \<and> adm x = Some True) \<and>
        distinct (map snd res) \<and> is_heap near_key cand \<and> is_heap far_key res \<and> length res \<le> max 1 ef)"

lemma keep_best_sub:
  assumes "is_heap far_key res"
  shows "is_heap far_key (keep_best ef s res)" "mset (keep_best ef s res) \<subseteq># add_mset s (mset res)"
    "length res \<le> max 1 ef \<Longrightarrow> length (keep_best ef s res) \<le> max 1 ef"
    "length res < ef \<Longrightarrow> mset (keep_best ef s res) = add_mset s (mset res)"
proof -
  let ?r = "heap_push far_key s res"
  have len: "length ?r = Suc (length res)" by simp
  have hr: "is_heap far_key ?r" by (rule heap.push_ok [OF assms])
  have "is_heap far_key (keep_best ef s res) \<and> mset (keep_best ef s res) \<subseteq># add_mset s (mset res) \<and>
    (length res \<le> max 1 ef \<longrightarrow> length (keep_best ef s res) \<le> max 1 ef) \<and>
    (length res < ef \<longrightarrow> mset (keep_best ef s res) = add_mset s (mset res))"
  proof (cases "ef < length ?r")
    case True
    obtain y r' where p: "heap_pop far_key ?r = Some (y, r')" using heap.pop_none [of far_key ?r] len by fastforce
    note b = heap.bounded_push [OF assms True p]
    have "length r' = length res" using heap.pop_length [OF p] len by simp
    then show ?thesis using True p b(1) b(2) [symmetric] len by (simp add: keep_best_def Let_def)
  next
    case False
    then show ?thesis using hr len by (simp add: keep_best_def Let_def heap.push_mset)
  qed
  then show "is_heap far_key (keep_best ef s res)" "mset (keep_best ef s res) \<subseteq># add_mset s (mset res)"
    "length res \<le> max 1 ef \<Longrightarrow> length (keep_best ef s res) \<le> max 1 ef"
    "length res < ef \<Longrightarrow> mset (keep_best ef s res) = add_mset s (mset res)" by blast+
qed

lemma mset_sub_distinct: "mset xs \<subseteq># mset ys \<Longrightarrow> distinct (map f ys) \<Longrightarrow> distinct (map f xs)"
proof -
  have c: "distinct zs \<longleftrightarrow> (\<forall>a. count (mset zs) a \<le> 1)" for zs :: "'b list"
    by (induction zs) (auto simp: not_in_iff [symmetric] le_Suc_eq)
  assume "mset xs \<subseteq># mset ys" "distinct (map f ys)"
  then have sub: "mset (map f xs) \<subseteq># mset (map f ys)" and d: "\<forall>a. count (mset (map f ys)) a \<le> 1"
    by (simp_all add: image_mset_subseteq_mono c)
  have "count (mset (map f xs)) a \<le> 1" for a
    by (rule le_trans [OF mset_subset_eq_count [OF sub]]) (use d in blast)
  then show "distinct (map f xs)" unfolding c by blast
qed

text \<open>One neighbour, seen for the first time and within reach of the beam.\<close>

lemma beam_inv_visit:
  assumes inv: "beam_inv S dst adm n ef (vis, cand, res)" and x: "x < n" "\<not> vis ! x" "x \<in> S" "dst x = Some d"
  shows "beam_inv S dst adm n ef (vis[x := True], cand, res)"
    "adm x = Some a \<Longrightarrow>
     beam_inv S dst adm n ef (vis[x := True], heap_push near_key (d, x) cand, if a then keep_best ef (d, x) res else res)"
proof -
  have i: "length vis = n" "\<forall>y < n. vis ! y \<longrightarrow> y \<in> S" "\<forall>(e, y) \<in> set cand. y < n \<and> vis ! y \<and> dst y = Some e"
    "\<forall>(e, y) \<in> set res. y < n \<and> vis ! y \<and> dst y = Some e \<and> adm y = Some True" "distinct (map snd res)"
    "is_heap near_key cand" "is_heap far_key res" "length res \<le> max 1 ef"
    using inv by (simp_all add: beam_inv_def)
  have v: "\<And>y. y < n \<Longrightarrow> vis[x := True] ! y \<longleftrightarrow> y = x \<or> vis ! y" using i(1) x(1) by (simp add: nth_list_update)
  show one: "beam_inv S dst adm n ef (vis[x := True], cand, res)"
    using i v x by (auto simp: beam_inv_def)
  assume a: "adm x = Some a"
  have fresh: "x \<notin> snd ` set res" using i(4) x(2) by auto
  have "distinct (map snd ((d, x) # res))" using i(5) fresh by simp
  then have "distinct (map snd (keep_best ef (d, x) res))"
    using mset_sub_distinct [of "keep_best ef (d, x) res" "(d, x) # res" snd] keep_best_sub(2) [OF i(7)] by simp
  moreover have sub: "set (keep_best ef (d, x) res) \<subseteq> insert (d, x) (set res)"
    using set_mset_mono [OF keep_best_sub(2) [OF i(7), of ef "(d, x)"]] by simp
  moreover have "y < n \<and> vis[x := True] ! y \<and> dst y = Some e \<and> adm y = Some True"
    if "(e, y) \<in> set (keep_best ef (d, x) res)" a for e y
  proof -
    have "(e, y) = (d, x) \<or> (e, y) \<in> set res" using that(1) sub by blast
    then show ?thesis using i(4) v x a that(2) by auto
  qed
  ultimately show "beam_inv S dst adm n ef (vis[x := True], heap_push near_key (d, x) cand, if a then keep_best ef (d, x) res else res)"
    using i v x keep_best_sub(1,3) [OF i(7)] heap.push_ok [OF i(6)] unfolding beam_inv_def prod.case
    by (cases a) auto
qed

lemma expand_ok:
  assumes S: "S \<subseteq> {..<n}" "defined_on S dst" "defined_on S adm"
  shows "set ns \<subseteq> S \<Longrightarrow> beam_inv S dst adm n ef (vis, cand, res) \<Longrightarrow>
    \<exists>vis' cand' res'. expand dst adm ef ns (vis, cand, res) = Some (vis', cand', res') \<and>
      beam_inv S dst adm n ef (vis', cand', res') \<and> (\<forall>x < n. vis ! x \<longrightarrow> vis' ! x) \<and> (\<forall>x \<in> set ns. vis' ! x) \<and>
      (n \<le> ef \<longrightarrow> (\<forall>x < n. vis' ! x \<and> \<not> vis ! x \<longrightarrow> x \<in> snd ` set cand' \<and> (adm x = Some True \<longrightarrow> x \<in> snd ` set res')) \<and>
         set cand \<subseteq> set cand' \<and> set res \<subseteq> set res')"
proof (induction ns arbitrary: vis cand res)
  case (Cons x ns)
  have x: "x \<in> S" "x < n" using Cons.prems(1) S(1) by auto
  have len: "length vis = n" using Cons.prems(2) by (simp add: beam_inv_def)
  then have ix: "index_opt vis x = Some (vis ! x)" using x by (simp add: index_opt_def)
  show ?case
  proof (cases "vis ! x")
    case True
    then have eq: "expand dst adm ef (x # ns) (vis, cand, res) = expand dst adm ef ns (vis, cand, res)" using ix by simp
    have "set ns \<subseteq> S" using Cons.prems(1) by simp
    from Cons.IH [OF this Cons.prems(2)] obtain vis' cand' res' where r: "expand dst adm ef ns (vis, cand, res) = Some (vis', cand', res')"
      "beam_inv S dst adm n ef (vis', cand', res')" "\<forall>x < n. vis ! x \<longrightarrow> vis' ! x" "\<forall>x \<in> set ns. vis' ! x"
      "n \<le> ef \<longrightarrow> (\<forall>x < n. vis' ! x \<and> \<not> vis ! x \<longrightarrow> x \<in> snd ` set cand' \<and> (adm x = Some True \<longrightarrow> x \<in> snd ` set res')) \<and>
         set cand \<subseteq> set cand' \<and> set res \<subseteq> set res'" by blast
    have "\<forall>y \<in> set (x # ns). vis' ! y" using r(3,4) True x(2) by simp
    then show ?thesis unfolding eq using r by blast
  next
    case False
    obtain d where d: "dst x = Some d" using S(2) x(1) by (rule defined_onE)
    obtain a where a: "adm x = Some a" using S(3) x(1) by (rule defined_onE)
    note inv = beam_inv_visit [OF Cons.prems(2) x(2) False x(1) d]
    have v: "vis[x := True] ! y \<longleftrightarrow> y = x \<or> vis ! y" if "y < n" for y using that len x(2) by (simp add: nth_list_update)
    have sub: "set ns \<subseteq> S" using Cons.prems(1) by simp
    have room: "length res < ef" if "n \<le> ef"
    proof -
      have "set (map snd res) \<subseteq> {..<n} - {x}" "distinct (map snd res)"
        using Cons.prems(2) False by (auto simp: beam_inv_def)
      then have "length res \<le> card ({..<n} - {x})" by (metis card_mono distinct_card finite_Diff finite_lessThan length_map)
      also have "\<dots> < n" using x(2) by simp
      finally show ?thesis using that by simp
    qed
    show ?thesis
    proof (cases "f32_lt d (worst res) \<or> length res < ef")
      case near: True
      let ?c = "heap_push near_key (d, x) cand" and ?r = "if a then keep_best ef (d, x) res else res"
      have eq: "expand dst adm ef (x # ns) (vis, cand, res) = expand dst adm ef ns (vis[x := True], ?c, ?r)"
        using ix False d a near by simp
      obtain vis' cand' res' where r: "expand dst adm ef ns (vis[x := True], ?c, ?r) = Some (vis', cand', res')"
        "beam_inv S dst adm n ef (vis', cand', res')" "\<forall>y < n. vis[x := True] ! y \<longrightarrow> vis' ! y" "\<forall>y \<in> set ns. vis' ! y"
        and big: "n \<le> ef \<longrightarrow> (\<forall>y < n. vis' ! y \<and> \<not> vis[x := True] ! y \<longrightarrow> y \<in> snd ` set cand' \<and> (adm y = Some True \<longrightarrow> y \<in> snd ` set res')) \<and>
           set ?c \<subseteq> set cand' \<and> set ?r \<subseteq> set res'"
        using Cons.IH [OF sub inv(2) [OF a]] by blast
      have "set ?r = (if a then insert (d, x) (set res) else set res)" if "n \<le> ef"
        using room [OF that] keep_best_sub(4) [of res ef "(d, x)", THEN arg_cong [where f = set_mset]] Cons.prems(2) by (simp add: beam_inv_def)
      then have big': "n \<le> ef \<longrightarrow> (d, x) \<in> set cand' \<and> set cand \<subseteq> set cand' \<and> set res \<subseteq> set res' \<and> (a \<longrightarrow> (d, x) \<in> set res')"
        using big by (auto split: if_splits)
      show ?thesis unfolding eq
      proof (intro exI conjI)
        show "expand dst adm ef ns (vis[x := True], ?c, ?r) = Some (vis', cand', res')" by (rule r(1))
        show "beam_inv S dst adm n ef (vis', cand', res')" by (rule r(2))
        show "\<forall>y < n. vis ! y \<longrightarrow> vis' ! y" using r(3) v by blast
        show "\<forall>y \<in> set (x # ns). vis' ! y" using r(3,4) v x(2) by auto
        show "n \<le> ef \<longrightarrow> (\<forall>y < n. vis' ! y \<and> \<not> vis ! y \<longrightarrow> y \<in> snd ` set cand' \<and> (adm y = Some True \<longrightarrow> y \<in> snd ` set res')) \<and>
            set cand \<subseteq> set cand' \<and> set res \<subseteq> set res'"
        proof (intro impI conjI allI)
          fix y assume n: "n \<le> ef" and y: "y < n" "vis' ! y \<and> \<not> vis ! y"
          have old: "y \<noteq> x \<Longrightarrow> y \<in> snd ` set cand' \<and> (adm y = Some True \<longrightarrow> y \<in> snd ` set res')"
            using big n y v [OF y(1)] by blast
          have new: "(d, x) \<in> set cand'" "a \<Longrightarrow> (d, x) \<in> set res'" using big' n by blast+
          show "y \<in> snd ` set cand'" using old image_eqI [OF _ new(1), of y snd] by (cases "y = x") simp_all
          show "y \<in> snd ` set res'" if "adm y = Some True"
            using old that a image_eqI [OF _ new(2), of y snd] by (cases "y = x") simp_all
        qed (use big' in blast)+
      qed
    next
      case far: False
      have eq: "expand dst adm ef (x # ns) (vis, cand, res) = expand dst adm ef ns (vis[x := True], cand, res)"
        using ix False d far by simp
      obtain vis' cand' res' where r: "expand dst adm ef ns (vis[x := True], cand, res) = Some (vis', cand', res')"
        "beam_inv S dst adm n ef (vis', cand', res')" "\<forall>y < n. vis[x := True] ! y \<longrightarrow> vis' ! y" "\<forall>y \<in> set ns. vis' ! y"
        using Cons.IH [OF sub inv(1)] by blast
      have "\<not> n \<le> ef" using room far by blast
      show ?thesis unfolding eq
      proof (intro exI conjI)
        show "expand dst adm ef ns (vis[x := True], cand, res) = Some (vis', cand', res')" by (rule r(1))
        show "beam_inv S dst adm n ef (vis', cand', res')" by (rule r(2))
        show "\<forall>y < n. vis ! y \<longrightarrow> vis' ! y" using r(3) v by blast
        show "\<forall>y \<in> set (x # ns). vis' ! y" using r(3,4) v x(2) by auto
      qed (use \<open>\<not> n \<le> ef\<close> in blast)
    qed
  qed
qed auto

section \<open>What a beam returns\<close>

text \<open>The links of a layer, and the nodes they reach.\<close>

definition layer_links :: "ann_index \<Rightarrow> nat \<Rightarrow> (nat \<times> nat) set" where
  "layer_links G layer = {(x, y). \<exists>ns. neighbours G layer x = Some ns \<and> y \<in> set ns}"

definition reach :: "ann_index \<Rightarrow> nat \<Rightarrow> nat \<Rightarrow> nat set" where
  "reach G layer start = (layer_links G layer)\<^sup>* `` {start}"

text \<open>Every visited node is a candidate still, or all its neighbours are visited; nothing admitted is missing.\<close>

definition full_inv :: "ann_index \<Rightarrow> nat \<Rightarrow> nat \<Rightarrow> (nat \<Rightarrow> bool option) \<Rightarrow> nat \<Rightarrow> beam_state \<Rightarrow> bool" where
  "full_inv G layer start adm n st \<longleftrightarrow>
     (case st of (vis, cand, res) \<Rightarrow>
        vis ! start \<and>
        (\<forall>x < n. vis ! x \<longrightarrow> x \<in> snd ` set cand \<or> (\<forall>y. (x, y) \<in> layer_links G layer \<longrightarrow> vis ! y)) \<and>
        (\<forall>x < n. vis ! x \<and> adm x = Some True \<longrightarrow> x \<in> snd ` set res))"

lemma reach_visited:
  assumes S: "closed_at G layer S" "start \<in> S" and n: "n = length (ai_ids G)"
    and vis: "vis ! start" "\<forall>x < n. vis ! x \<longrightarrow> (\<forall>y. (x, y) \<in> layer_links G layer \<longrightarrow> vis ! y)"
    and x: "x \<in> reach G layer start"
  shows "x \<in> S \<and> vis ! x"
proof -
  from x have "(start, x) \<in> (layer_links G layer)\<^sup>*" by (simp add: reach_def)
  then show ?thesis
  proof induction
    case (step y z)
    have "y < n" using S(1) step.IH n by (auto simp: closed_at_def)
    moreover have "z \<in> S" using S(1) step by (fastforce simp: closed_at_def layer_links_def)
    ultimately show ?case using vis(2) step by blast
  qed (use S vis in simp)
qed

lemma reach_sub: "closed_at G layer S \<Longrightarrow> start \<in> S \<Longrightarrow> reach G layer start \<subseteq> S"
  using reach_visited [of G layer S start "length (ai_ids G)" "replicate (length (ai_ids G)) True"]
proof -
  assume S: "closed_at G layer S" "start \<in> S"
  have "x \<in> S" if "(start, x) \<in> (layer_links G layer)\<^sup>*" for x
    using that by induction (use S in \<open>fastforce simp: closed_at_def layer_links_def\<close>)+
  then show ?thesis by (auto simp: reach_def)
qed

lemma full_inv_step:
  assumes full: "full_inv G layer start adm n (vis, cand, res)" and pop: "set cand = insert (d, node) (set cand')"
    and ns: "neighbours G layer node = Some ns"
    and old: "\<forall>x < n. vis ! x \<longrightarrow> vis' ! x" "\<forall>x \<in> set ns. vis' ! x" "start < n" "layer_links G layer \<subseteq> {..<n} \<times> {..<n}"
    and new: "\<forall>x < n. vis' ! x \<and> \<not> vis ! x \<longrightarrow> x \<in> snd ` set cand'' \<and> (adm x = Some True \<longrightarrow> x \<in> snd ` set res')"
      "set cand' \<subseteq> set cand''" "set res \<subseteq> set res'"
  shows "full_inv G layer start adm n (vis', cand'', res')"
proof -
  have f: "vis ! start" "\<And>x. x < n \<Longrightarrow> vis ! x \<Longrightarrow> x \<in> snd ` set cand \<or> (\<forall>y. (x, y) \<in> layer_links G layer \<longrightarrow> vis ! y)"
    "\<And>x. x < n \<Longrightarrow> vis ! x \<Longrightarrow> adm x = Some True \<Longrightarrow> x \<in> snd ` set res"
    using full by (simp_all add: full_inv_def)
  have 1: "x \<in> snd ` set cand'' \<or> (\<forall>y. (x, y) \<in> layer_links G layer \<longrightarrow> vis' ! y)" if x: "x < n" "vis' ! x" for x
  proof (cases "vis ! x")
    case False
    then show ?thesis using new(1) x by blast
  next
    case True
    from f(2) [OF x(1) True] consider "x = node" | "x \<in> snd ` set cand'" | "\<forall>y. (x, y) \<in> layer_links G layer \<longrightarrow> vis ! y"
      unfolding pop by auto
    then show ?thesis
    proof cases
      case 1
      then show ?thesis using ns old(2) by (auto simp: layer_links_def)
    next
      case 2
      then show ?thesis using new(2) by blast
    next
      case 3
      then show ?thesis using old(1,4) by blast
    qed
  qed
  have 2: "x \<in> snd ` set res'" if x: "x < n" "vis' ! x" "adm x = Some True" for x
  proof (cases "vis ! x")
    case False
    then show ?thesis using new(1) x by blast
  next
    case True
    then show ?thesis using f(3) [OF x(1) True x(3)] new(3) by blast
  qed
  have "vis' ! start" using f(1) old(1,3) by blast
  then show ?thesis unfolding full_inv_def prod.case using 1 2 by blast
qed

lemma beam_loop_ok:
  "\<lbrakk>closed_at G layer S; defined_on S dst; defined_on S adm; n = length (ai_ids G); start \<in> S;
    beam_inv S dst adm n ef (vis, cand, res)\<rbrakk> \<Longrightarrow>
    \<exists>vis' cand' res'. beam_loop G dst adm layer ef (vis, cand, res) = Some res' \<and> beam_inv S dst adm n ef (vis', cand', res') \<and>
      (n \<le> ef \<and> layer_links G layer \<subseteq> {..<n} \<times> {..<n} \<and> full_inv G layer start adm n (vis, cand, res) \<longrightarrow>
         (\<forall>x \<in> reach G layer start. adm x = Some True \<longrightarrow> x \<in> snd ` set res'))"
proof (induction G dst adm layer ef "(vis, cand, res)" arbitrary: vis cand res rule: beam_loop.induct)
  case (1 G dst adm layer ef vis cand res)
  note S = "1.prems"(1-3) and n = "1.prems"(4) and start = "1.prems"(5) and inv = "1.prems"(6)
  have Sn: "S \<subseteq> {..<n}" using S(1) n by (simp add: closed_at_def)
  show ?case
  proof (cases "heap_pop near_key cand")
    case None
    then have c: "cand = []" using heap.pop_none [of near_key cand] by simp
    have "x \<in> snd ` set res" if full: "full_inv G layer start adm n (vis, cand, res)" and x: "x \<in> reach G layer start" "adm x = Some True" for x
    proof -
      have "x \<in> S \<and> vis ! x" using full c by (intro reach_visited [OF S(1) start n _ _ x(1)]) (simp_all add: full_inv_def)
      then show ?thesis using full x(2) Sn by (auto simp: full_inv_def)
    qed
    then show ?thesis using None inv beam_loop.simps [of G dst adm layer ef vis cand res] by auto
  next
    case (Some p)
    obtain d node cand' where p: "p = ((d, node), cand')" by (cases p) auto
    note pop = Some [unfolded p]
    have setc: "set cand = insert (d, node) (set cand')" by (rule heap.pop_set [OF pop])
    show ?thesis
    proof (cases "f32_lt (worst res) d \<and> ef \<le> length res")
      case True
      then have eq: "beam_loop G dst adm layer ef (vis, cand, res) = Some res" using pop by (simp add: beam_loop.simps)
      have "x \<in> snd ` set res" if big: "n \<le> ef" and x: "x \<in> reach G layer start" for x
      proof -
        have r: "set (map snd res) \<subseteq> {..<n}" "distinct (map snd res)" using inv by (auto simp: beam_inv_def)
        have "card (set (map snd res)) = length res" using distinct_card [OF r(2)] by simp
        then have "set (map snd res) = {..<n}" using r(1) True big by (intro card_seteq) simp_all
        moreover have "x < n" using reach_sub [OF S(1) start] x Sn by auto
        ultimately show ?thesis by auto
      qed
      then show ?thesis unfolding eq using inv by blast
    next
      case far: False
      have node: "node \<in> S" using inv setc by (auto simp: beam_inv_def)
      obtain ns where ns: "neighbours G layer node = Some ns" "set ns \<subseteq> S" using S(1) node by (auto simp: closed_at_def)
      have inv': "beam_inv S dst adm n ef (vis, cand', res)"
        using inv setc heap.pop_ok [OF _ pop] by (auto simp: beam_inv_def)
      obtain vis' cand'' res' where e: "expand dst adm ef ns (vis, cand', res) = Some (vis', cand'', res')"
        "beam_inv S dst adm n ef (vis', cand'', res')" "\<forall>x < n. vis ! x \<longrightarrow> vis' ! x" "\<forall>x \<in> set ns. vis' ! x"
        and big: "n \<le> ef \<longrightarrow> (\<forall>x < n. vis' ! x \<and> \<not> vis ! x \<longrightarrow> x \<in> snd ` set cand'' \<and> (adm x = Some True \<longrightarrow> x \<in> snd ` set res')) \<and>
          set cand' \<subseteq> set cand'' \<and> set res \<subseteq> set res'"
        using expand_ok [OF Sn S(2,3) ns(2) inv'] by blast
      have eq: "beam_loop G dst adm layer ef (vis, cand, res) = beam_loop G dst adm layer ef (vis', cand'', res')"
        using pop far ns(1) e(1) by (subst beam_loop.simps) auto
      have full: "full_inv G layer start adm n (vis', cand'', res')"
        if "n \<le> ef" "layer_links G layer \<subseteq> {..<n} \<times> {..<n}" "full_inv G layer start adm n (vis, cand, res)"
        using that big start Sn by (intro full_inv_step [OF that(3) setc ns(1) e(3,4) _ that(2)]) auto
      show ?thesis unfolding eq
        using "1.hyps" [OF pop refl refl far ns(1) e(1) S n start e(2)] full by blast
    qed
  qed
qed

text \<open>A beam from a node of the set.\<close>

lemma beam_admit_ok:
  assumes S: "closed_at G layer S" "start \<in> S" and n: "n = length (ai_ids G)"
    and def: "defined_on S dst" "defined_on S (admits G inc admit)"
  shows "\<exists>xs. beam_admit G dst start layer ef inc admit = Some xs \<and>
    sorted (map far_key xs) \<and> distinct (map snd xs) \<and> length xs \<le> max 1 ef \<and>
    (\<forall>(d, x) \<in> set xs. x \<in> S \<and> dst x = Some d \<and> admits G inc admit x = Some True) \<and>
    (n \<le> ef \<and> layer_links G layer \<subseteq> {..<n} \<times> {..<n} \<longrightarrow>
       (\<forall>x \<in> reach G layer start. admits G inc admit x = Some True \<longrightarrow> x \<in> snd ` set xs))"
proof -
  have sn: "start < n" using S n by (auto simp: closed_at_def)
  obtain d where d: "dst start = Some d" using def(1) S(2) by (rule defined_onE)
  obtain a where a: "admits G inc admit start = Some a" using def(2) S(2) by (rule defined_onE)
  let ?vis = "(replicate n False)[start := True]" and ?cand = "heap_push near_key (d, start) []"
    and ?res = "if a then heap_push far_key (d, start) [] else []"
  have v: "?vis ! x \<longleftrightarrow> x = start" if "x < n" for x using that sn by (simp add: nth_list_update)
  have l1: "length (heap_push far_key (d, start) []) = 1" "set (heap_push far_key (d, start) []) = {(d, start)}" by simp_all
  then have one: "heap_push far_key (d, start) [] = [(d, start)]" by (cases "heap_push far_key (d, start) []") auto
  have inv: "beam_inv S dst (admits G inc admit) n ef (?vis, ?cand, ?res)"
    using v sn d a S heap.push_ok [OF heap.empty_ok, of near_key "(d, start)"] heap.push_ok [OF heap.empty_ok, of far_key "(d, start)"] one
    by (auto simp: beam_inv_def heap.empty_ok)
  have full: "full_inv G layer start (admits G inc admit) n (?vis, ?cand, ?res)"
    using v sn a by (auto simp: full_inv_def)
  obtain vis' cand' res where r: "beam_loop G dst (admits G inc admit) layer ef (?vis, ?cand, ?res) = Some res"
    "beam_inv S dst (admits G inc admit) n ef (vis', cand', res)"
    "n \<le> ef \<and> layer_links G layer \<subseteq> {..<n} \<times> {..<n} \<longrightarrow> (\<forall>x \<in> reach G layer start. admits G inc admit x = Some True \<longrightarrow> x \<in> snd ` set res)"
    using beam_loop_ok [OF S(1) def n S(2) inv] full by blast
  have eq: "beam_admit G dst start layer ef inc admit = Some (sort_key far_key res)"
    using sn d a r(1) n by (simp add: beam_admit_def Let_def)
  have dis: "distinct (map snd (sort_key far_key res))"
    using mset_sub_distinct [of "sort_key far_key res" res snd] r(2) by (simp add: beam_inv_def)
  show ?thesis unfolding eq using r dis by (auto simp: beam_inv_def)
qed

end
