(* ===== verification/GraphProps.thy ===== *)
theory GraphProps
  imports BeamProps
begin

text \<open>
  The graph invariant: insertion, removal and both searches never panic on a graph that has it, and keep
  it.  A graph refines the map from its live ids to vectors, and a search answers live ids of that map,
  nearest first.
\<close>

section \<open>Diverse selection\<close>

lemma any_opt_defined: "\<forall>x \<in> set xs. \<exists>b. p x = Some b \<Longrightarrow> \<exists>b. any_opt p xs = Some b"
proof (induction xs)
  case (Cons x xs)
  obtain b where "p x = Some b" using Cons.prems by auto
  then show ?case using Cons by (cases b) auto
qed (rule exI [of _ False], simp)

lemma keep_diverse_ok:
  "\<lbrakk>\<forall>a \<in> N. \<forall>b \<in> N. \<exists>x. dots a b = Some x; snd ` set (kept @ cs) \<subseteq> N\<rbrakk> \<Longrightarrow>
   \<exists>r. keep_diverse dots m cs kept = Some r \<and> set r \<subseteq> set (kept @ cs) \<and>
     (distinct (map snd (kept @ cs)) \<longrightarrow> distinct (map snd r)) \<and> (length kept \<le> m \<longrightarrow> length r \<le> m)"
proof (induction cs arbitrary: kept)
  case (Cons y cs)
  obtain d c where y: "y = (d, c)" by (cases y)
  show ?case
  proof (cases "m \<le> length kept")
    case True
    then show ?thesis by (auto simp: y)
  next
    case False
    have "\<exists>b. any_opt (\<lambda>(_, s). map_option (\<lambda>x. f32_lt (f32_sub f32_one x) d) (dots c s)) kept = Some b"
      using Cons.prems by (intro any_opt_defined) (force simp: y)
    then obtain b where b: "any_opt (\<lambda>(_, s). map_option (\<lambda>x. f32_lt (f32_sub f32_one x) d) (dots c s)) kept = Some b" by blast
    let ?k = "if b then kept else kept @ [(d, c)]"
    have "snd ` set (?k @ cs) \<subseteq> N" using Cons.prems(2) by (auto simp: y)
    from Cons.IH [OF Cons.prems(1) this] obtain r where r: "keep_diverse dots m cs ?k = Some r" "set r \<subseteq> set (?k @ cs)"
      "distinct (map snd (?k @ cs)) \<longrightarrow> distinct (map snd r)" "length ?k \<le> m \<longrightarrow> length r \<le> m" by blast
    have "keep_diverse dots m (y # cs) kept = Some r" using False b r(1) by (simp add: y)
    moreover have "set r \<subseteq> set (kept @ y # cs)" using r(2) by (auto simp: y split: if_splits)
    moreover have "distinct (map snd (kept @ y # cs)) \<longrightarrow> distinct (map snd (?k @ cs))" by (auto simp: y)
    ultimately show ?thesis using r(3,4) False by (auto split: if_splits)
  qed
qed auto

lemma pad_nearest_ok:
  "set (pad_nearest m cs kept) \<subseteq> set kept \<union> set cs \<and> (distinct (map snd kept) \<longrightarrow> distinct (map snd (pad_nearest m cs kept))) \<and>
   (length kept \<le> m \<longrightarrow> length (pad_nearest m cs kept) \<le> m)"
proof (induction m cs kept rule: pad_nearest.induct)
  case (2 m d c cs kept)
  show ?case
  proof (cases "m \<le> length kept")
    case False
    define k where "k = (if c \<in> snd ` set kept then kept else kept @ [(d, c)])"
    have "distinct (map snd kept) \<longrightarrow> distinct (map snd k)" by (auto simp: k_def)
    moreover have "set k \<subseteq> set kept \<union> {(d, c)}" "length kept \<le> m \<longrightarrow> length k \<le> m" using False by (auto simp: k_def)
    moreover have eq: "pad_nearest m ((d, c) # cs) kept = pad_nearest m cs k" using False by (simp add: k_def)
    moreover have "set (pad_nearest m cs k) \<subseteq> set k \<union> set cs \<and>
        (distinct (map snd k) \<longrightarrow> distinct (map snd (pad_nearest m cs k))) \<and> (length k \<le> m \<longrightarrow> length (pad_nearest m cs k) \<le> m)"
      using "2.IH" [OF False] by (simp add: k_def)
    ultimately show ?thesis unfolding eq by auto
  qed auto
qed simp

lemma select_diverse_ok:
  assumes "\<forall>a \<in> N. \<forall>b \<in> N. \<exists>x. dot_nodes (ai_store G) a b (case ai_dim G of None \<Rightarrow> 0 | Some d \<Rightarrow> d) = Some x"
    and "snd ` set cs \<subseteq> N" "distinct (map snd cs)"
  shows "\<exists>r. select_diverse G cs m = Some r \<and> set r \<subseteq> set cs \<and> distinct (map snd r) \<and> length r \<le> m"
proof -
  obtain r where r: "keep_diverse (\<lambda>a b. dot_nodes (ai_store G) a b (case ai_dim G of None \<Rightarrow> 0 | Some d \<Rightarrow> d)) m cs [] = Some r"
    "set r \<subseteq> set cs" "distinct (map snd r)" "length r \<le> m"
    using keep_diverse_ok [OF assms(1), of "[]" cs m] assms(2,3) by auto
  then show ?thesis using pad_nearest_ok [of m cs r] by (auto simp: select_diverse_def Let_def)
qed

section \<open>The links\<close>

definition link_cap :: "nat \<Rightarrow> nat \<Rightarrow> nat" where
  "link_cap m layer = (if layer = 0 then m * 2 else m)"

text \<open>Neighbours are other nodes of the layer, each once, at most the cap of them.\<close>

definition links_ok :: "nat \<Rightarrow> nat list list list \<Rightarrow> bool" where
  "links_ok m lk \<longleftrightarrow>
     (\<forall>x < length lk. 0 < length (lk ! x) \<and>
        (\<forall>l < length (lk ! x). distinct (lk ! x ! l) \<and> length (lk ! x ! l) \<le> link_cap m l \<and>
           (\<forall>y \<in> set (lk ! x ! l). y < length lk \<and> y \<noteq> x \<and> l < length (lk ! y))))"

lemma links_okD:
  assumes "links_ok m lk" "x < length lk"
  shows "0 < length (lk ! x)"
    "l < length (lk ! x) \<Longrightarrow> distinct (lk ! x ! l)"
    "l < length (lk ! x) \<Longrightarrow> length (lk ! x ! l) \<le> link_cap m l"
    "l < length (lk ! x) \<Longrightarrow> \<forall>y \<in> set (lk ! x ! l). y < length lk \<and> y \<noteq> x \<and> l < length (lk ! y)"
  using assms unfolding links_ok_def by blast+

text \<open>A change of one list of the links.\<close>

definition upd_links :: "nat list list list \<Rightarrow> nat \<Rightarrow> nat \<Rightarrow> nat list \<Rightarrow> nat list list list" where
  "upd_links lk x l ns = lk[x := (lk ! x)[l := ns]]"

lemma upd_links_simps [simp]:
  "length (upd_links lk x l ns) = length lk"
  "length (upd_links lk x l ns ! y) = length (lk ! y)"
  "x < length lk \<Longrightarrow> l < length (lk ! x) \<Longrightarrow>
     upd_links lk x l ns ! y ! k = (if y = x \<and> k = l then ns else lk ! y ! k)"
proof -
  show "length (upd_links lk x l ns) = length lk" by (simp add: upd_links_def)
  show "length (upd_links lk x l ns ! y) = length (lk ! y)"
    by (cases "x < length lk") (auto simp: upd_links_def nth_list_update list_update_beyond)
  show "x < length lk \<Longrightarrow> l < length (lk ! x) \<Longrightarrow> upd_links lk x l ns ! y ! k = (if y = x \<and> k = l then ns else lk ! y ! k)"
    by (auto simp: upd_links_def nth_list_update)
qed

lemma set_links_upd: "set_links G x l ns = G\<lparr>ai_links := upd_links (ai_links G) x l ns\<rparr>"
  by (simp add: set_links_def upd_links_def)

lemma links_at_Some: "x < length (ai_links G) \<Longrightarrow> l < length (ai_links G ! x) \<Longrightarrow> links_at G x l = Some (ai_links G ! x ! l)"
  by (simp add: links_at_def index_opt_def)

lemma upd_links_ok:
  assumes "links_ok m lk" "x < length lk" "l < length (lk ! x)" "distinct ns" "length ns \<le> link_cap m l"
    "\<forall>y \<in> set ns. y < length lk \<and> y \<noteq> x \<and> l < length (lk ! y)"
  shows "links_ok m (upd_links lk x l ns)"
  unfolding links_ok_def upd_links_simps(1,2)
proof (intro allI impI conjI)
  fix y assume y: "y < length lk"
  note old = links_okD [OF assms(1) y]
  show "0 < length (lk ! y)" by (rule old(1))
  fix k assume k: "k < length (lk ! y)"
  have at: "upd_links lk x l ns ! y ! k = (if y = x \<and> k = l then ns else lk ! y ! k)" by (rule upd_links_simps(3) [OF assms(2,3)])
  show "distinct (upd_links lk x l ns ! y ! k)" unfolding at using old(2) [OF k] assms(4) by presburger
  show "length (upd_links lk x l ns ! y ! k) \<le> link_cap m k" unfolding at using old(3) [OF k] assms(5) by presburger
  show "\<forall>z \<in> set (upd_links lk x l ns ! y ! k). z < length lk \<and> z \<noteq> y \<and> k < length (lk ! z)"
    unfolding at using old(4) [OF k] assms(6) by presburger
qed

text \<open>The vectors of the graph: all of one dimension, one per node.\<close>

definition vectors_ok :: "ann_index \<Rightarrow> nat \<Rightarrow> bool" where
  "vectors_ok G d \<longleftrightarrow> ai_dim G = Some d \<and> store_ok (length (ai_links G)) d (ai_store G)"

lemma vectors_reads:
  assumes "vectors_ok G d"
  shows "length q = d \<Longrightarrow> defined_on {..<length (ai_links G)} (dist_to G q qsum)"
    "\<forall>a \<in> {..<length (ai_links G)}. \<forall>b \<in> {..<length (ai_links G)}.
       \<exists>x. dot_nodes (ai_store G) a b (case ai_dim G of None \<Rightarrow> 0 | Some d \<Rightarrow> d) = Some x"
  using assms store_reads_ok by (fastforce simp: vectors_ok_def defined_on_def dist_to_def)+

lemma distinct_sort_key: "distinct (map f (sort_key g xs)) = distinct (map f xs)"
  using mset_sub_distinct [of "sort_key g xs" xs f] mset_sub_distinct [of xs "sort_key g xs" f] by auto

text \<open>Pruning a list over its cap.\<close>

lemma prune_ok:
  assumes vec: "vectors_ok G d" and x: "x < length (ai_links G)" "l < length (ai_links G ! x)"
    and ns: "distinct (ai_links G ! x ! l)" "\<forall>y \<in> set (ai_links G ! x ! l). y < length (ai_links G)"
  shows "\<exists>ms. prune x l cap G = Some (G\<lparr>ai_links := upd_links (ai_links G) x l ms\<rparr>) \<and>
    set ms \<subseteq> set (ai_links G ! x ! l) \<and> distinct ms \<and> length ms \<le> cap"
proof -
  let ?n = "length (ai_links G)" and ?ns = "ai_links G ! x ! l"
  have dim: "ai_dim G = Some d" and st: "store_ok ?n d (ai_store G)" using vec by (simp_all add: vectors_ok_def)
  obtain q where q: "materialize (ai_store G) x d = Some q" "length q = d" using store_reads_ok(3) [OF st x(1)] by blast
  have "\<exists>e. dist_to G q (f32_sum q) y = Some e" if "y \<in> set ?ns" for y
    using vectors_reads(1) [OF vec q(2)] ns(2) that by (auto simp: defined_on_def)
  then obtain f where f: "\<And>y. y \<in> set ?ns \<Longrightarrow> dist_to G q (f32_sum q) y = Some (f y)" by metis
  let ?sc = "map (\<lambda>y. (f y, y)) ?ns"
  have sc: "those (map (\<lambda>nb. map_option (\<lambda>d. (d, nb)) (dist_to G q (f32_sum q) nb)) ?ns) = Some ?sc"
    by (rule those_map) (simp add: f)
  have "map snd ?sc = ?ns" by (simp add: o_def)
  then have "distinct (map snd (sort_key far_key ?sc))" "snd ` set (sort_key far_key ?sc) \<subseteq> {..<?n}"
    using ns by (auto simp: distinct_sort_key)
  from select_diverse_ok [OF vectors_reads(2) [OF vec] this(2,1), of cap] obtain r where r:
    "select_diverse G (sort_key far_key ?sc) cap = Some r" "set r \<subseteq> set ?sc" "distinct (map snd r)" "length r \<le> cap" by auto
  have "prune x l cap G = Some (set_links G x l (map snd r))"
    using q sc r(1) by (simp add: prune_def dim links_at_Some [OF x])
  moreover have "set (map snd r) \<subseteq> set ?ns" using r(2) by auto
  ultimately show ?thesis using r(3,4) unfolding set_links_upd by (metis length_map)
qed

text \<open>A link to a node that is in neither list.\<close>

lemma link_one_ok:
  assumes vec: "vectors_ok G d" and lk: "links_ok m lk" "lk = ai_links G"
    and x: "x < length lk" "l < length (lk ! x)" and y: "y < length lk" "l < length (lk ! y)" "y \<noteq> x"
    and new: "y \<notin> set (lk ! x ! l)" "x \<notin> set (lk ! y ! l)" and room: "length (lk ! x ! l) < link_cap m l"
  shows "\<exists>lk'. link_one x l (link_cap m l) y G = Some (G\<lparr>ai_links := lk'\<rparr>) \<and> links_ok m lk' \<and>
    length lk' = length lk \<and> (\<forall>z. length (lk' ! z) = length (lk ! z)) \<and>
    lk' ! x ! l = lk ! x ! l @ [y] \<and> (\<forall>z k. (z \<noteq> x \<or> k \<noteq> l) \<and> (z \<noteq> y \<or> k \<noteq> l) \<longrightarrow> lk' ! z ! k = lk ! z ! k)"
proof -
  define lk1 where "lk1 = upd_links lk x l (lk ! x ! l @ [y])"
  define lk2 where "lk2 = upd_links lk1 y l (lk ! y ! l @ [x])"
  let ?G1 = "G\<lparr>ai_links := lk1\<rparr>" and ?G2 = "G\<lparr>ai_links := lk2\<rparr>"
  have old: "distinct (lk ! z ! l)" "length (lk ! z ! l) \<le> link_cap m l"
    "\<forall>w \<in> set (lk ! z ! l). w < length lk \<and> w \<noteq> z \<and> l < length (lk ! w)" if "z < length lk" "l < length (lk ! z)" for z
    using links_okD [OF lk(1) that(1)] that(2) by blast+
  have ok1: "links_ok m lk1"
    unfolding lk1_def using old [OF x] new(1) room y by (intro upd_links_ok [OF lk(1) x]) auto
  have sz1: "length lk1 = length lk" "\<And>z. length (lk1 ! z) = length (lk ! z)" by (simp_all add: lk1_def)
  have at1: "lk1 ! z ! k = (if z = x \<and> k = l then lk ! x ! l @ [y] else lk ! z ! k)" for z k using x by (simp add: lk1_def)
  have p1: "push_link x l y G = Some ?G1"
    using x by (simp add: push_link_def links_at_Some set_links_upd lk(2) [symmetric] lk1_def)
  have p2: "push_link y l x ?G1 = Some ?G2"
    using y by (simp add: push_link_def links_at_Some set_links_upd sz1 at1 lk2_def)
  have sz2: "length lk2 = length lk" "\<And>z. length (lk2 ! z) = length (lk ! z)" by (simp_all add: lk2_def sz1)
  have at2: "lk2 ! z ! k = (if z = y \<and> k = l then lk ! y ! l @ [x] else if z = x \<and> k = l then lk ! x ! l @ [y] else lk ! z ! k)" for z k
    using y sz1 by (simp add: lk2_def at1)
  have la: "links_at ?G2 y l = Some (lk ! y ! l @ [x])" using y sz2 by (simp add: links_at_Some at2)
  show ?thesis
  proof (cases "link_cap m l < length (lk ! y ! l @ [x])")
    case False
    have "links_ok m lk2"
      unfolding lk2_def using old [OF y(1,2)] new(2) False x y sz1 by (intro upd_links_ok [OF ok1]) auto
    moreover have "link_one x l (link_cap m l) y G = Some ?G2" using False la by (simp add: link_one_def p1 p2)
    ultimately show ?thesis using sz2 at2 y(3) by (intro exI [of _ lk2]) auto
  next
    case True
    have vec2: "vectors_ok ?G2 d" using vec lk(2) sz2(1) by (simp add: vectors_ok_def)
    have "distinct (ai_links ?G2 ! y ! l)" "\<forall>w \<in> set (ai_links ?G2 ! y ! l). w < length (ai_links ?G2)"
      using old [OF y(1,2)] new(2) x(1) sz2(1) by (auto simp: at2)
    from prune_ok [OF vec2 _ _ this, of "link_cap m l"] y sz2 obtain ms where
      ms: "prune y l (link_cap m l) ?G2 = Some (?G2\<lparr>ai_links := upd_links lk2 y l ms\<rparr>)"
        "set ms \<subseteq> set (lk ! y ! l @ [x])" "distinct ms" "length ms \<le> link_cap m l" by (auto simp: at2)
    let ?lk3 = "upd_links lk2 y l ms"
    have eq3: "?lk3 = upd_links lk1 y l ms" using y(1) sz1(1) by (simp add: lk2_def upd_links_def)
    have "links_ok m ?lk3"
      unfolding eq3 using ms old [OF y(1,2)] x y sz1 by (intro upd_links_ok [OF ok1]) auto
    moreover have "link_one x l (link_cap m l) y G = Some (G\<lparr>ai_links := ?lk3\<rparr>)" using True la ms(1) by (simp add: link_one_def p1 p2)
    moreover have "?lk3 ! z ! k = (if z = y \<and> k = l then ms else lk2 ! z ! k)" for z k using y sz2 by simp
    ultimately show ?thesis using sz2 at2 y(3) by (intro exI [of _ ?lk3]) auto
  qed
qed

section \<open>Connecting a layer\<close>

text \<open>The new node has no links at the layers up to \<open>l\<close>, in either direction.\<close>

definition isolated :: "nat list list list \<Rightarrow> nat \<Rightarrow> nat \<Rightarrow> bool" where
  "isolated lk x l \<longleftrightarrow> (\<forall>k \<le> l. k < length (lk ! x) \<longrightarrow> lk ! x ! k = []) \<and> (\<forall>k \<le> l. \<forall>z < length lk. k < length (lk ! z) \<longrightarrow> x \<notin> set (lk ! z ! k))"

text \<open>The nodes of a layer without the new one, a closed set.\<close>

definition layer_nodes :: "nat list list list \<Rightarrow> nat \<Rightarrow> nat \<Rightarrow> nat set" where
  "layer_nodes lk x l = {z. z < length lk \<and> l < length (lk ! z) \<and> z \<noteq> x}"

lemma layer_nodes_closed:
  assumes "links_ok m (ai_links G)" "length (ai_ids G) = length (ai_links G)"
    "\<forall>z < length (ai_links G). l < length (ai_links G ! z) \<longrightarrow> x \<notin> set (ai_links G ! z ! l)"
  shows "closed_at G l (layer_nodes (ai_links G) x l)"
  unfolding closed_at_def
proof (intro conjI ballI)
  show "layer_nodes (ai_links G) x l \<subseteq> {..<length (ai_ids G)}" using assms(2) by (auto simp: layer_nodes_def)
  fix z assume "z \<in> layer_nodes (ai_links G) x l"
  then have z: "z < length (ai_links G)" "l < length (ai_links G ! z)" by (simp_all add: layer_nodes_def)
  have "neighbours G l z = Some (ai_links G ! z ! l)" using z by (simp add: neighbours_def index_opt_def)
  moreover have "set (ai_links G ! z ! l) \<subseteq> layer_nodes (ai_links G) x l"
    using links_okD(4) [OF assms(1) z] assms(3) z by (auto simp: layer_nodes_def)
  ultimately show "\<exists>ns. neighbours G l z = Some ns \<and> set ns \<subseteq> layer_nodes (ai_links G) x l" by blast
qed

lemma links_fold_ok:
  assumes vec: "vectors_ok G d" and m: "length (ai_ids G) = length (ai_links G)"
  shows "\<lbrakk>links_ok m lk; length lk = length (ai_links G); x < length lk; l < length (lk ! x);
    \<forall>(e, y) \<in> set cs. y < length lk \<and> l < length (lk ! y) \<and> y \<noteq> x \<and> y \<notin> set (lk ! x ! l) \<and> x \<notin> set (lk ! y ! l);
    distinct (map snd cs); length (lk ! x ! l) + length cs \<le> link_cap m l\<rbrakk> \<Longrightarrow>
    \<exists>lk'. fold (\<lambda>(_, nb) acc. Option.bind acc (link_one x l (link_cap m l) nb)) cs (Some (G\<lparr>ai_links := lk\<rparr>)) =
        Some (G\<lparr>ai_links := lk'\<rparr>) \<and> links_ok m lk' \<and> length lk' = length lk \<and> (\<forall>z. length (lk' ! z) = length (lk ! z)) \<and>
      (\<forall>z k. k \<noteq> l \<longrightarrow> lk' ! z ! k = lk ! z ! k)"
proof (induction cs arbitrary: lk)
  case (Cons c cs)
  obtain e y where c: "c = (e, y)" by (cases c)
  have y: "y < length lk" "l < length (lk ! y)" "y \<noteq> x" "y \<notin> set (lk ! x ! l)" "x \<notin> set (lk ! y ! l)"
    using Cons.prems(5) by (auto simp: c)
  have vec': "vectors_ok (G\<lparr>ai_links := lk\<rparr>) d" using vec Cons.prems(2) by (simp add: vectors_ok_def)
  have room: "length (lk ! x ! l) < link_cap m l" using Cons.prems(7) by simp
  from link_one_ok [OF vec' Cons.prems(1) _ Cons.prems(3,4) y(1,2,3,4,5) room] obtain lk1 where
    lk1: "link_one x l (link_cap m l) y (G\<lparr>ai_links := lk\<rparr>) = Some (G\<lparr>ai_links := lk1\<rparr>)" "links_ok m lk1"
      "length lk1 = length lk" "\<forall>z. length (lk1 ! z) = length (lk ! z)" "lk1 ! x ! l = lk ! x ! l @ [y]"
      "\<forall>z k. (z \<noteq> x \<or> k \<noteq> l) \<and> (z \<noteq> y \<or> k \<noteq> l) \<longrightarrow> lk1 ! z ! k = lk ! z ! k" by auto
  have d: "\<forall>(e', y') \<in> set cs. y' \<noteq> y" using Cons.prems(6) by (auto simp: c image_iff)
  have "\<forall>(e', y') \<in> set cs. y' < length lk1 \<and> l < length (lk1 ! y') \<and> y' \<noteq> x \<and> y' \<notin> set (lk1 ! x ! l) \<and> x \<notin> set (lk1 ! y' ! l)"
  proof (clarify, intro conjI)
    fix e' y' assume c': "(e', y') \<in> set cs"
    then have o: "y' < length lk" "l < length (lk ! y')" "y' \<noteq> x" "y' \<notin> set (lk ! x ! l)" "x \<notin> set (lk ! y' ! l)" "y' \<noteq> y"
      using Cons.prems(5) d by auto
    show "y' < length lk1" "l < length (lk1 ! y')" "y' \<notin> set (lk1 ! x ! l)" using o lk1(3,4,5) by auto
    show "x \<notin> set (lk1 ! y' ! l)" using o lk1(6) by metis
  qed (use Cons.prems(5) in auto)
  from Cons.IH [OF lk1(2) _ _ _ this] obtain lk' where
    "fold (\<lambda>(_, nb) acc. Option.bind acc (link_one x l (link_cap m l) nb)) cs (Some (G\<lparr>ai_links := lk1\<rparr>)) = Some (G\<lparr>ai_links := lk'\<rparr>)"
    "links_ok m lk'" "length lk' = length lk1" "\<forall>z. length (lk' ! z) = length (lk1 ! z)" "\<forall>z k. k \<noteq> l \<longrightarrow> lk' ! z ! k = lk1 ! z ! k"
    using Cons.prems(2,3,4,6,7) lk1(3,4,5) by auto
  then show ?case using lk1(1,3,4,6) by (intro exI [of _ lk']) (simp add: c)
qed auto

lemma connect_layer_ok:
  assumes vec: "vectors_ok G d" and lk: "links_ok m (ai_links G)" and n: "length (ai_ids G) = length (ai_links G)"
    and m: "ac_m (ai_config G) = m" and x: "x < length (ai_links G)" "l < length (ai_links G ! x)"
    and iso: "isolated (ai_links G) x l" and q: "length q = d" and cur: "cur \<in> layer_nodes (ai_links G) x l"
  shows "\<exists>lk' cur'. connect_layer x q qsum l (G, cur) = Some (G\<lparr>ai_links := lk'\<rparr>, cur') \<and> links_ok m lk' \<and>
    length lk' = length (ai_links G) \<and> (\<forall>z. length (lk' ! z) = length (ai_links G ! z)) \<and>
    (\<forall>z k. k \<noteq> l \<longrightarrow> lk' ! z ! k = ai_links G ! z ! k) \<and> cur' \<in> layer_nodes (ai_links G) x l"
proof -
  let ?lk = "ai_links G" and ?S = "layer_nodes (ai_links G) x l"
  have away: "\<forall>z < length ?lk. l < length (?lk ! z) \<longrightarrow> x \<notin> set (?lk ! z ! l)" and own: "?lk ! x ! l = []"
    using iso x by (auto simp: isolated_def)
  note S = layer_nodes_closed [OF lk n away]
  have Sn: "?S \<subseteq> {..<length ?lk}" by (auto simp: layer_nodes_def)
  have def: "defined_on ?S (dist_to G q qsum)" using vectors_reads(1) [OF vec q] Sn by (auto simp: defined_on_def)
  have adm: "defined_on ?S (admits G True (\<lambda>_. Some True))"
    by (auto simp: defined_on_def admits_def intro: exI [of _ True])
  obtain found where f: "beam G (dist_to G q qsum) cur l (ac_ef_construction (ai_config G)) True = Some found"
    "distinct (map snd found)" and "\<forall>(e, z) \<in> set found. z \<in> ?S \<and> dist_to G q qsum z = Some e \<and> admits G True (\<lambda>_. Some True) z = Some True"
    using beam_admit_ok [OF S cur refl def adm, of "ac_ef_construction (ai_config G)"] unfolding beam_def by blast
  then have f3: "\<forall>(e, z) \<in> set found. z \<in> ?S" by auto
  have fn: "snd ` set found \<subseteq> {..<length ?lk}" using f3 Sn by auto
  obtain ch where ch: "select_diverse G found m = Some ch" "set ch \<subseteq> set found" "distinct (map snd ch)" "length ch \<le> m"
    using select_diverse_ok [OF vectors_reads(2) [OF vec] fn f(2)] by blast
  have "\<forall>(e, y) \<in> set ch. y < length ?lk \<and> l < length (?lk ! y) \<and> y \<noteq> x \<and> y \<notin> set (?lk ! x ! l) \<and> x \<notin> set (?lk ! y ! l)"
    using ch(2) f3 away own by (fastforce simp: layer_nodes_def)
  moreover have "length (?lk ! x ! l) + length ch \<le> link_cap m l" using ch(4) own by (simp add: link_cap_def)
  ultimately obtain lk' where lk': "fold (\<lambda>(_, nb) acc. Option.bind acc (link_one x l (link_cap m l) nb)) ch (Some G) = Some (G\<lparr>ai_links := lk'\<rparr>)"
    "links_ok m lk'" "length lk' = length ?lk" "\<forall>z. length (lk' ! z) = length (?lk ! z)" "\<forall>z k. k \<noteq> l \<longrightarrow> lk' ! z ! k = ?lk ! z ! k"
    using links_fold_ok [OF vec n lk refl x _ ch(3)] by auto
  define cur' where "cur' = (case ch of [] \<Rightarrow> cur | (_, c) # _ \<Rightarrow> c)"
  have "cur' \<in> ?S" using cur ch(2) f3 by (cases ch) (auto simp: cur'_def)
  moreover have "connect_layer x q qsum l (G, cur) = Some (G\<lparr>ai_links := lk'\<rparr>, cur')"
    unfolding connect_layer_def prod.case Let_def m link_cap_def [symmetric] cur'_def using f(1) ch(1) lk'(1) by simp
  ultimately show ?thesis using lk' by blast
qed

section \<open>The invariant\<close>

definition graph_ok :: "ann_index \<Rightarrow> bool" where
  "graph_ok G \<longleftrightarrow>
     length (ai_deleted G) = length (ai_ids G) \<and> length (ai_links G) = length (ai_ids G) \<and> length (ai_ids G) \<le> 2 ^ 32 \<and>
     ai_live G = unvisited (ai_deleted G) \<and>
     (\<forall>i x. ai_by_id G i = Some x \<longrightarrow> x < length (ai_ids G) \<and> ai_ids G ! x = i) \<and>
     (\<forall>x < length (ai_ids G). \<not> ai_deleted G ! x \<longrightarrow> ai_by_id G (ai_ids G ! x) = Some x) \<and>
     (\<forall>x < length (ai_ids G). \<exists>y \<ge> x. ai_by_id G (ai_ids G ! x) = Some y) \<and>
     links_ok (ac_m (ai_config G)) (ai_links G) \<and>
     (case ai_dim G of
        None \<Rightarrow> ai_ids G = [] \<and> ai_store G = store_empty (ac_quantizer (ai_config G))
      | Some d \<Rightarrow> store_ok (length (ai_ids G)) d (ai_store G) \<and> store_quantizer (ai_store G) = ac_quantizer (ai_config G)) \<and>
     (case ai_entry G of
        None \<Rightarrow> ai_ids G = []
      | Some (e, hi) \<Rightarrow> e < length (ai_ids G) \<and> length (ai_links G ! e) = hi + 1 \<and> (\<forall>x < length (ai_ids G). length (ai_links G ! x) \<le> hi + 1))"

text \<open>The map a graph stands for: the vector of every live id.\<close>

definition ann_map :: "ann_index \<Rightarrow> bytes \<rightharpoonup> vec" where
  "ann_map G i =
     (case ai_by_id G i of
        None \<Rightarrow> None
      | Some x \<Rightarrow> if ai_deleted G ! x then None else materialize (ai_store G) x (case ai_dim G of None \<Rightarrow> 0 | Some d \<Rightarrow> d))"

lemma graph_new_ok: "graph_ok (ann_new config)"
  by (simp add: graph_ok_def ann_new_def unvisited_def links_ok_def)

lemma graph_live:
  assumes "graph_ok G"
  shows "i \<in> dom (ann_map G) \<longleftrightarrow> (\<exists>x < length (ai_ids G). ai_ids G ! x = i \<and> \<not> ai_deleted G ! x)"
proof -
  have g: "\<And>j x. ai_by_id G j = Some x \<Longrightarrow> x < length (ai_ids G) \<and> ai_ids G ! x = j"
    "\<And>x. x < length (ai_ids G) \<Longrightarrow> \<not> ai_deleted G ! x \<Longrightarrow> ai_by_id G (ai_ids G ! x) = Some x"
    using assms unfolding graph_ok_def by blast+
  have m: "\<exists>v. materialize (ai_store G) x (case ai_dim G of None \<Rightarrow> 0 | Some d \<Rightarrow> d) = Some v" if x: "x < length (ai_ids G)" for x
  proof -
    from x have "ai_ids G \<noteq> []" by auto
    then obtain d where d: "ai_dim G = Some d" "store_ok (length (ai_ids G)) d (ai_store G)"
      using assms by (cases "ai_dim G") (auto simp: graph_ok_def)
    then show ?thesis using store_reads_ok(3) [OF d(2) x] by auto
  qed
  show ?thesis
  proof
    assume "i \<in> dom (ann_map G)"
    then obtain x where x: "ai_by_id G i = Some x" "\<not> ai_deleted G ! x" by (auto simp: ann_map_def split: option.splits if_splits)
    then show "\<exists>x < length (ai_ids G). ai_ids G ! x = i \<and> \<not> ai_deleted G ! x" using g(1) by blast
  next
    assume "\<exists>x < length (ai_ids G). ai_ids G ! x = i \<and> \<not> ai_deleted G ! x"
    then obtain x where x: "x < length (ai_ids G)" "ai_ids G ! x = i" "\<not> ai_deleted G ! x" by blast
    then have "ai_by_id G i = Some x" using g(2) by blast
    then show "i \<in> dom (ann_map G)" using x m [OF x(1)] by (auto simp: ann_map_def)
  qed
qed

section \<open>Removal\<close>

lemma bury_ok:
  assumes ok: "graph_ok G" and x: "ai_by_id G i = Some x"
  shows "\<exists>G'. bury x G = Some G' \<and> graph_ok G' \<and> ann_map G' = (ann_map G)(i := None) \<and>
    ai_deleted G' ! x \<and> G' = G\<lparr>ai_deleted := ai_deleted G', ai_live := ai_live G'\<rparr>"
proof -
  let ?G' = "G\<lparr>ai_deleted := (ai_deleted G)[x := True], ai_live := ai_live G - 1\<rparr>"
  have g: "length (ai_deleted G) = length (ai_ids G)" "\<And>j y. ai_by_id G j = Some y \<Longrightarrow> y < length (ai_ids G) \<and> ai_ids G ! y = j"
    using ok unfolding graph_ok_def by blast+
  have xn: "x < length (ai_ids G)" "ai_ids G ! x = i" using g(2) [OF x] by blast+
  have other: "ai_by_id G j = Some y \<Longrightarrow> j \<noteq> i \<Longrightarrow> y \<noteq> x" for j y using g(2) xn(2) by blast
  show ?thesis
  proof (cases "ai_deleted G ! x")
    case True
    have "(ann_map G) i = None" using x True by (simp add: ann_map_def)
    then have "ann_map G = (ann_map G)(i := None)" by (simp add: fun_upd_idem)
    then show ?thesis using True ok xn g(1) by (simp add: bury_def index_opt_def)
  next
    case False
    have "bury x G = Some ?G'" using False xn g(1) by (simp add: bury_def index_opt_def)
    moreover have "graph_ok ?G'"
      using ok unvisited_update [of x "ai_deleted G"] xn g(1) False unfolding graph_ok_def
      by (auto simp: nth_list_update split: option.splits)
    moreover have "ann_map ?G' = (ann_map G)(i := None)"
      using x xn g other by (auto simp: ann_map_def fun_eq_iff nth_list_update split: option.splits)
    ultimately show ?thesis using xn g(1) by auto
  qed
qed

section \<open>Insertion\<close>

lemma normalized_length [simp]: "length (normalized v) = length v"
  by (simp add: normalized_def Let_def)

text \<open>The quantizer can store vectors of the dimension.\<close>

definition dim_ok :: "quantizer \<Rightarrow> nat \<Rightarrow> bool" where
  "dim_ok q d \<longleftrightarrow> (case q of QPq m \<Rightarrow> 0 < m \<and> d mod m = 0 | _ \<Rightarrow> True)"

lemma store_empty_ok: "dim_ok q d \<Longrightarrow> store_ok 0 d (store_empty q)" "store_quantizer (store_empty q) = q"
  by (cases q; simp add: dim_ok_def store_ok_def store_empty_def store_quantizer_def; simp add: in_ram_def)+

lemma full_push:
  assumes "store_ok n d (SFull vs)" "length v = d"
  shows "x < n \<Longrightarrow> materialize (SFull (mv_push vs v)) x d = materialize (SFull vs) x d"
    "materialize (SFull (mv_push vs v)) n d = Some v"
proof -
  have m: "mapped_ok n d vs" "mapped_ok (Suc n) d (mv_push vs v)" using assms mv_push_ok by (auto simp: store_ok_def)
  have len: "length (mv_all vs) = n * d" using m(1) by (simp add: mapped_ok_def)
  show "x < n \<Longrightarrow> materialize (SFull (mv_push vs v)) x d = materialize (SFull vs) x d"
  proof -
    assume x: "x < n"
    then have "x * d + d \<le> n * d" by (metis add.commute mult_Suc mult_le_mono1 Suc_leI)
    then show ?thesis using mv_with_reads(1) [OF m(1) x] mv_with_reads(1) [OF m(2), of x] x len by (simp add: materialize_def)
  qed
  show "materialize (SFull (mv_push vs v)) n d = Some v"
    using mv_with_reads(1) [OF m(2), of n] len assms(2) by (simp add: materialize_def)
qed

lemma descend_ok:
  assumes "low \<le> hi" and S: "\<And>l. low \<le> l \<Longrightarrow> l \<le> hi \<Longrightarrow> closed_at G l (S l) \<and> defined_on (S l) dst"
    and sub: "\<And>l. S (Suc l) \<subseteq> S l" and start: "start \<in> S hi"
  shows "\<exists>x \<in> S low. descend G dst low hi start = Some x"
proof -
  have "\<forall>s \<in> S h. \<exists>x \<in> S low. fold (\<lambda>layer acc. Option.bind acc (greedy_at G dst layer)) (rev [low..<Suc h]) (Some s) = Some x"
    if "low \<le> h" "h \<le> hi" for h
    using that
  proof (induction h rule: nat_induct_at_least)
    case base
    show ?case using greedy_at_ok S [of low] base by auto
  next
    case (Suc h)
    show ?case
    proof
      fix s assume "s \<in> S (Suc h)"
      then obtain y where y: "greedy_at G dst (Suc h) s = Some y" "y \<in> S (Suc h)"
        using greedy_at_ok [of G "Suc h" "S (Suc h)" dst s] S [of "Suc h"] Suc.hyps Suc.prems by auto
      have "rev [low..<Suc (Suc h)] = Suc h # rev [low..<Suc h]" using Suc.hyps by simp
      moreover have "y \<in> S h" using y(2) sub by blast
      ultimately show "\<exists>x \<in> S low. fold (\<lambda>layer acc. Option.bind acc (greedy_at G dst layer)) (rev [low..<Suc (Suc h)]) (Some s) = Some x"
        using Suc.IH Suc.prems y(1) by simp
    qed
  qed
  then show ?thesis using assms(1) start by (simp add: descend_def)
qed

lemma layer_nodes_cong:
  "length lk' = length lk \<Longrightarrow> \<forall>z. length (lk' ! z) = length (lk ! z) \<Longrightarrow> layer_nodes lk' x l = layer_nodes lk x l"
  by (simp add: layer_nodes_def)

lemma connect_fold_ok:
  assumes vec: "vectors_ok G d" and n: "length (ai_ids G) = length (ai_links G)" and m: "ac_m (ai_config G) = m"
    and x: "x < length (ai_links G)" and q: "length q = d"
  shows "\<lbrakk>links_ok m lk; length lk = length (ai_links G); \<forall>z. length (lk ! z) = length (ai_links G ! z); l < length (lk ! x);
      isolated lk x l; cur \<in> layer_nodes lk x l\<rbrakk> \<Longrightarrow>
    \<exists>lk' cur'. fold (\<lambda>layer acc. Option.bind acc (connect_layer x q qsum layer)) (rev [0..<l + 1]) (Some (G\<lparr>ai_links := lk\<rparr>, cur)) =
        Some (G\<lparr>ai_links := lk'\<rparr>, cur') \<and> links_ok m lk' \<and> length lk' = length (ai_links G) \<and> (\<forall>z. length (lk' ! z) = length (ai_links G ! z))"
proof (induction l arbitrary: lk cur)
  case (0 lk cur)
  have "vectors_ok (G\<lparr>ai_links := lk\<rparr>) d" using vec "0.prems"(2) by (simp add: vectors_ok_def)
  then show ?case
    using connect_layer_ok [of "G\<lparr>ai_links := lk\<rparr>" d m x 0 q cur qsum] "0.prems" n m x q by auto
next
  case (Suc l lk cur)
  have vec': "vectors_ok (G\<lparr>ai_links := lk\<rparr>) d" using vec Suc.prems(2) by (simp add: vectors_ok_def)
  obtain lk1 cur1 where c: "connect_layer x q qsum (Suc l) (G\<lparr>ai_links := lk\<rparr>, cur) = Some (G\<lparr>ai_links := lk1\<rparr>, cur1)"
    "links_ok m lk1" "length lk1 = length lk" "\<forall>z. length (lk1 ! z) = length (lk ! z)"
    "\<forall>z k. k \<noteq> Suc l \<longrightarrow> lk1 ! z ! k = lk ! z ! k" "cur1 \<in> layer_nodes lk x (Suc l)"
    using connect_layer_ok [of "G\<lparr>ai_links := lk\<rparr>" d m x "Suc l" q cur qsum] Suc.prems vec' n m x q by auto
  have "isolated lk1 x l" using Suc.prems(5) c(3,4,5) by (simp add: isolated_def)
  moreover have "cur1 \<in> layer_nodes lk1 x l" using c(3,4,6) by (auto simp: layer_nodes_def)
  ultimately obtain lk' cur' where
    "fold (\<lambda>layer acc. Option.bind acc (connect_layer x q qsum layer)) (rev [0..<l + 1]) (Some (G\<lparr>ai_links := lk1\<rparr>, cur1)) =
       Some (G\<lparr>ai_links := lk'\<rparr>, cur')"
    "links_ok m lk'" "length lk' = length (ai_links G)" "\<forall>z. length (lk' ! z) = length (ai_links G ! z)"
    using Suc.IH [of lk1 cur1] c(2,3,4) Suc.prems(2,3,4) by auto
  then show ?case using c(1) by (intro exI [of _ lk'] exI [of _ cur']) simp
qed

text \<open>The state after the node is added, before it is linked.\<close>

definition added :: "ann_index \<Rightarrow> bytes \<Rightarrow> vec \<Rightarrow> nat \<Rightarrow> ann_index \<Rightarrow> bool" where
  "added G i v level G' \<longleftrightarrow>
     ai_links G' = ai_links G @ [replicate (level + 1) []] \<and> ai_ids G' = ai_ids G @ [i] \<and>
     ai_deleted G' = ai_deleted G @ [False] \<and> ai_live G' = Suc (ai_live G) \<and> ai_by_id G' = (ai_by_id G)(i \<mapsto> length (ai_ids G)) \<and>
     ai_entry G' = ai_entry G \<and> ai_config G' = ai_config G \<and> vectors_ok G' (length v) \<and>
     store_quantizer (ai_store G') = ac_quantizer (ai_config G) \<and>
     insert i (dom (ann_map G)) = dom (ann_map G') \<and>
     (ac_quantizer (ai_config G) = QNone \<longrightarrow> ann_map G' = (ann_map G)(i \<mapsto> v))"

lemma add_node_ok:
  assumes ok: "graph_ok G" and i: "\<And>x. ai_by_id G i = Some x \<Longrightarrow> ai_deleted G ! x" and n: "length (ai_ids G) < 2 ^ 32"
    and v: "case ai_dim G of None \<Rightarrow> dim_ok (ac_quantizer (ai_config G)) (length v) | Some d \<Rightarrow> length v = d"
  shows "\<exists>level G'. add_node ln64 i v G = Some (G', length (ai_ids G), level) \<and> added G i v level G'"
proof -
  let ?n = "length (ai_ids G)" and ?d = "length v" and ?q = "ac_quantizer (ai_config G)"
  obtain level rng where lv: "next_level ln64 (ac_m (ai_config G)) (ai_rng G) = (level, rng)"
    by (cases "next_level ln64 (ac_m (ai_config G)) (ai_rng G)")
  have g: "length (ai_deleted G) = ?n" "length (ai_links G) = ?n" "\<And>j x. ai_by_id G j = Some x \<Longrightarrow> x < ?n"
    using ok unfolding graph_ok_def by blast+
  have st: "store_ok ?n ?d (ai_store G)" "store_quantizer (ai_store G) = ?q"
    using ok v store_empty_ok(1) [of ?q ?d] store_empty_ok(2) [of ?q] by (auto simp: graph_ok_def split: option.splits)
  obtain s where s: "store_push v (ai_store G) = Some s" "store_ok (Suc ?n) ?d s" "store_quantizer s = ?q"
    using store_push_ok [OF st(1), of v] st(2) by auto
  define G' where "G' = G\<lparr>ai_dim := Some ?d, ai_store := s, ai_rng := rng, ai_ids := ai_ids G @ [i],
    ai_by_id := (ai_by_id G)(i \<mapsto> ?n), ai_deleted := ai_deleted G @ [False],
    ai_links := ai_links G @ [replicate (level + 1) []], ai_live := ai_live G + 1\<rparr>"
  have dim: "(case ai_dim G of None \<Rightarrow> Some ?d | Some d \<Rightarrow> Some d) = Some ?d" using v by (cases "ai_dim G") auto
  have add: "add_node ln64 i v G = Some (G', ?n, level)"
    unfolding add_node_def lv G'_def prod.case dim s(1) using n by (simp add: Let_def)
  have vec: "vectors_ok G' ?d" using s(2) g(2) by (simp add: vectors_ok_def G'_def)
  have map': "ann_map G' j = (if j = i then materialize s ?n ?d else case ai_by_id G j of None \<Rightarrow> None
      | Some x \<Rightarrow> if ai_deleted G ! x then None else materialize s x ?d)" for j
    using g(1) g(3) [of j] by (auto simp: ann_map_def G'_def nth_append split: option.splits)
  have some: "\<exists>w. materialize s x ?d = Some w" if "x \<le> ?n" for x using store_reads_ok(3) [OF s(2), of x] that by auto
  have dim0: "(case ai_dim G of None \<Rightarrow> 0 | Some d \<Rightarrow> d) = ?d \<or> ai_ids G = []"
    using ok v by (auto simp: graph_ok_def split: option.splits)
  have "j \<in> dom (ann_map G') \<longleftrightarrow> j \<in> insert i (dom (ann_map G))" for j
  proof (cases "j = i")
    case True
    then show ?thesis using some [of ?n] by (simp add: map' domIff)
  next
    case False
    have "materialize (ai_store G) x (case ai_dim G of None \<Rightarrow> 0 | Some d \<Rightarrow> d) \<noteq> None" if "ai_by_id G j = Some x" for x
      using store_reads_ok(3) [OF st(1), of x] g(3) [OF that] dim0 by auto
    moreover have "materialize s x ?d \<noteq> None" if "ai_by_id G j = Some x" for x using some [of x] g(3) [OF that] by auto
    ultimately show ?thesis using False by (auto simp: map' domIff ann_map_def [of G] split: option.splits)
  qed
  then have domeq: "insert i (dom (ann_map G)) = dom (ann_map G')" by blast
  have "ann_map G' = (ann_map G)(i \<mapsto> v)" if q: "?q = QNone"
  proof
    fix j
    obtain vs where vs: "ai_store G = SFull vs" using st(2) q by (cases "ai_store G") (simp_all add: store_quantizer_def)
    then have sv: "s = SFull (mv_push vs v)" using s(1) by (simp add: store_push_def)
    note fp = full_push [OF st(1) [unfolded vs] refl]
    show "ann_map G' j = ((ann_map G)(i \<mapsto> v)) j"
    proof (cases "j = i")
      case True
      then show ?thesis using fp(2) by (simp add: map' sv)
    next
      case False
      then show ?thesis using fp(1) g(3) [of j] dim0 by (auto simp: map' sv vs ann_map_def [of G] split: option.splits)
    qed
  qed
  then show ?thesis using add vec domeq s(3) by (intro exI [of _ level] exI [of _ G']) (auto simp: added_def G'_def)
qed

text \<open>The linked graph, with its entry.\<close>

lemma added_graph_ok:
  assumes ok: "graph_ok G" and i: "\<And>x. ai_by_id G i = Some x \<Longrightarrow> ai_deleted G ! x" and n: "length (ai_ids G) < 2 ^ 32"
    and add: "added G i v level G1" and lk: "links_ok (ac_m (ai_config G)) lk" "length lk = Suc (length (ai_ids G))"
    and e: "e < Suc (length (ai_ids G))" "length (lk ! e) = hi + 1" "\<forall>x < Suc (length (ai_ids G)). length (lk ! x) \<le> hi + 1"
  shows "graph_ok (G1\<lparr>ai_links := lk, ai_entry := Some (e, hi)\<rparr>)"
proof -
  have g: "length (ai_deleted G) = length (ai_ids G)" "ai_live G = unvisited (ai_deleted G)"
    "\<And>j x. ai_by_id G j = Some x \<Longrightarrow> x < length (ai_ids G) \<and> ai_ids G ! x = j"
    "\<And>x. x < length (ai_ids G) \<Longrightarrow> \<not> ai_deleted G ! x \<Longrightarrow> ai_by_id G (ai_ids G ! x) = Some x"
    "length (ai_links G) = length (ai_ids G)"
    using ok unfolding graph_ok_def by blast+
  note a = add [unfolded added_def vectors_ok_def]
  have by1: "x < length (ai_ids G1) \<and> ai_ids G1 ! x = j" if "ai_by_id G1 j = Some x" for j x
    using that a g(3) [of j x] by (auto simp: nth_append split: if_splits)
  have by2: "ai_by_id G1 (ai_ids G1 ! x) = Some x" if x: "x < length (ai_ids G1)" "\<not> ai_deleted G1 ! x" for x
  proof (cases "x < length (ai_ids G)")
    case True
    then have "\<not> ai_deleted G ! x" using x(2) a g(1) by (simp add: nth_append)
    moreover from this have "ai_ids G ! x \<noteq> i" using i g(4) [OF True] by auto
    ultimately show ?thesis using True a g(4) [OF True] by (simp add: nth_append)
  next
    case False
    then show ?thesis using x(1) a by (simp add: nth_append)
  qed
  have by3: "\<exists>y \<ge> x. ai_by_id G1 (ai_ids G1 ! x) = Some y" if x: "x < length (ai_ids G1)" for x
  proof (cases "ai_ids G1 ! x = i")
    case True
    then show ?thesis using x a by (intro exI [of _ "length (ai_ids G)"]) simp
  next
    case False
    then have "x < length (ai_ids G)" "ai_ids G1 ! x = ai_ids G ! x" using x a by (auto simp: nth_append less_Suc_eq)
    then show ?thesis using ok False a unfolding graph_ok_def by simp
  qed
  have "unvisited (ai_deleted G1) = ai_live G1" using a g(2) by (simp add: unvisited_def)
  moreover have "length (ai_links G1) = length (ai_ids G1)" using a g(5) by simp
  then have "store_ok (length (ai_ids G1)) (length v) (ai_store G1)" using a by metis
  ultimately show ?thesis unfolding graph_ok_def
    using by1 by2 by3 a lk e n g(1) by simp
qed

lemma added_links:
  assumes ok: "graph_ok G" and add: "added G i v level G1"
  shows "links_ok (ac_m (ai_config G)) (ai_links G1)" "length (ai_links G1) = Suc (length (ai_ids G))"
    "isolated (ai_links G1) (length (ai_ids G)) l"
    "x < length (ai_ids G) \<Longrightarrow> ai_links G1 ! x = ai_links G ! x"
    "ai_links G1 ! length (ai_ids G) = replicate (level + 1) []"
proof -
  let ?n = "length (ai_ids G)"
  have g: "length (ai_links G) = ?n" "links_ok (ac_m (ai_config G)) (ai_links G)" using ok by (simp_all add: graph_ok_def)
  have lk: "ai_links G1 = ai_links G @ [replicate (level + 1) []]" using add by (simp add: added_def)
  show len: "length (ai_links G1) = Suc ?n" by (simp add: lk g(1))
  show old: "ai_links G1 ! x = ai_links G ! x" if "x < ?n" for x using that by (simp add: lk g(1) nth_append)
  show new: "ai_links G1 ! ?n = replicate (level + 1) []" by (simp add: lk g(1) [symmetric] nth_append)
  note D = links_okD [OF g(2), unfolded g(1)]
  show "links_ok (ac_m (ai_config G)) (ai_links G1)"
    unfolding links_ok_def
  proof (intro allI impI)
    fix x assume x: "x < length (ai_links G1)"
    show "0 < length (ai_links G1 ! x) \<and>
        (\<forall>l < length (ai_links G1 ! x). distinct (ai_links G1 ! x ! l) \<and> length (ai_links G1 ! x ! l) \<le> link_cap (ac_m (ai_config G)) l \<and>
           (\<forall>y \<in> set (ai_links G1 ! x ! l). y < length (ai_links G1) \<and> y \<noteq> x \<and> l < length (ai_links G1 ! y)))"
    proof (cases "x = ?n")
      case True
      have "ai_links G1 ! ?n ! l = []" if "l < length (ai_links G1 ! ?n)" for l
        using that unfolding new by (simp del: replicate_Suc)
      then show ?thesis using new True by simp
    next
      case False
      then have xn: "x < ?n" using x len by simp
      have "\<forall>y \<in> set (ai_links G ! x ! l). y < Suc ?n \<and> y \<noteq> x \<and> l < length (ai_links G1 ! y)" if "l < length (ai_links G ! x)" for l
        using D(4) [OF xn that] old by auto
      then show ?thesis using D(1-3) [OF xn] unfolding old [OF xn] len by blast
    qed
  qed
  have "?n \<notin> set (ai_links G1 ! z ! k)" if z: "z < Suc ?n" "k < length (ai_links G1 ! z)" for z k
  proof (cases "z = ?n")
    case True
    then show ?thesis using z new by (simp del: replicate_Suc)
  next
    case False
    then have zn: "z < ?n" using z(1) by simp
    then show ?thesis using D(4) [OF zn, of k] z(2) old [OF zn] by auto
  qed
  then show "isolated (ai_links G1) ?n l" using new len by (auto simp: isolated_def simp del: replicate_Suc)
qed

end
