(* ===== verification/GraphRefine.thy ===== *)
theory GraphRefine
  imports GraphProps
begin

text \<open>
  Insertion, removal and search on a graph with its invariant: a run of upserts and removals refines the
  map from ids to vectors, and a search answers live ids, nearest first.
\<close>

section \<open>Linking a new node\<close>

text \<open>The nodes of a layer, with no node left out.\<close>

lemma all_nodes_closed:
  assumes "links_ok m (ai_links G)" "length (ai_ids G) = length (ai_links G)"
  shows "closed_at G l (layer_nodes (ai_links G) (length (ai_links G)) l)"
  using links_okD(4) [OF assms(1)] by (intro layer_nodes_closed [OF assms]) blast

lemma layer_nodes_mono: "k \<le> l \<Longrightarrow> layer_nodes lk x l \<subseteq> layer_nodes lk x k"
  by (auto simp: layer_nodes_def)

lemma layer_nodes_defined:
  "vectors_ok G d \<Longrightarrow> length q = d \<Longrightarrow> defined_on (layer_nodes (ai_links G) x l) (dist_to G q qsum)"
  using vectors_reads(1) [of G d q qsum] by (auto simp: defined_on_def layer_nodes_def)

definition link_new :: "nat \<Rightarrow> nat \<Rightarrow> vec \<Rightarrow> ann_index \<Rightarrow> ann_index option" where
  "link_new node level v G1 =
     (case ai_entry G1 of
        None \<Rightarrow> Some (G1\<lparr>ai_entry := Some (node, level)\<rparr>)
      | Some (start, hi) \<Rightarrow>
          let qsum = f32_sum v in
          Option.bind (descend G1 (dist_to G1 v qsum) (level + 1) hi start) (\<lambda>cur.
          Option.bind (fold (\<lambda>layer acc. Option.bind acc (connect_layer node v qsum layer))
              (rev [0..<min level hi + 1]) (Some (G1, cur))) (\<lambda>(G2, _).
            Some (if hi < level then G2\<lparr>ai_entry := Some (node, level)\<rparr> else G2))))"

lemma ann_insert_link_new:
  "ann_insert ln64 i emb G =
     Option.bind (case ai_by_id G i of None \<Rightarrow> Some G | Some old \<Rightarrow> bury old G) (\<lambda>G0.
     Option.bind (add_node ln64 i (normalized emb) G0) (\<lambda>(G1, node, level). link_new node level (normalized emb) G1))"
  by (simp add: ann_insert_def link_new_def Let_def)

lemma link_new_ok:
  assumes ok: "graph_ok G" and i: "\<And>x. ai_by_id G i = Some x \<Longrightarrow> ai_deleted G ! x" and n: "length (ai_ids G) < 2 ^ 32"
    and add: "added G i v level G1"
  shows "\<exists>lk en. link_new (length (ai_ids G)) level v G1 = Some (G1\<lparr>ai_links := lk, ai_entry := en\<rparr>) \<and>
    graph_ok (G1\<lparr>ai_links := lk, ai_entry := en\<rparr>)"
proof (cases "ai_entry G")
  case None
  then have e: "ai_entry G1 = None" "ai_ids G = []" using add ok by (simp_all add: added_def graph_ok_def)
  have "graph_ok (G1\<lparr>ai_links := ai_links G1, ai_entry := Some (0, level)\<rparr>)"
    using added_links [OF ok add] e(2) by (intro added_graph_ok [OF ok i n add]) simp_all
  then show ?thesis using e by (intro exI [of _ "ai_links G1"] exI [of _ "Some (0, level)"]) (simp add: link_new_def)
next
  case (Some p)
  obtain start hi where p: "p = (start, hi)" by (cases p)
  let ?n = "length (ai_ids G)" and ?lk = "ai_links G1" and ?m = "ac_m (ai_config G)"
  let ?S = "layer_nodes ?lk ?n" and ?q = "f32_sum v"
  have e: "ai_entry G1 = Some (start, hi)" and vec: "vectors_ok G1 (length v)" and cf: "ac_m (ai_config G1) = ?m"
    and ids: "length (ai_ids G1) = length ?lk"
    using add Some p added_links(2) [OF ok add] by (simp_all add: added_def)
  have old: "start < ?n" "length (ai_links G ! start) = hi + 1" "\<forall>x < ?n. length (ai_links G ! x) \<le> hi + 1"
    using ok Some p by (simp_all add: graph_ok_def)
  note lk = added_links [OF ok add]
  have away: "\<forall>z < length ?lk. l < length (?lk ! z) \<longrightarrow> ?n \<notin> set (?lk ! z ! l)" for l
    using lk(3) [of l] by (simp add: isolated_def)
  have S: "closed_at G1 l (?S l) \<and> defined_on (?S l) (dist_to G1 v ?q)" for l
    using layer_nodes_closed [OF lk(1) ids away] layer_nodes_defined [OF vec refl] by blast
  have st: "start \<in> ?S hi" using old(1,2) lk(2,4) by (simp add: layer_nodes_def)
  obtain cur where cur: "descend G1 (dist_to G1 v ?q) (level + 1) hi start = Some cur" "cur \<in> ?S (min level hi)"
  proof (cases "level + 1 \<le> hi")
    case True
    from descend_ok [OF True S _ st] obtain x where "descend G1 (dist_to G1 v ?q) (level + 1) hi start = Some x" "x \<in> ?S (level + 1)"
      using layer_nodes_mono [of _ "Suc _"] by (metis le_SucI order_refl)
    then show ?thesis using that True layer_nodes_mono [of level "level + 1" ?lk ?n] by (auto simp: min_def)
  next
    case False
    then show ?thesis using that st by (simp add: descend_def)
  qed
  have "min level hi < length (?lk ! ?n)" unfolding lk(5) by simp
  with connect_fold_ok [OF vec ids cf _ refl lk(1), of ?n "min level hi" cur ?q] cur(2) lk(2,3,5) obtain lk' cur' where
    c: "fold (\<lambda>layer acc. Option.bind acc (connect_layer ?n v ?q layer)) (rev [0..<min level hi + 1]) (Some (G1, cur)) =
        Some (G1\<lparr>ai_links := lk'\<rparr>, cur')" "links_ok ?m lk'" "length lk' = length ?lk" "\<forall>z. length (lk' ! z) = length (?lk ! z)"
    by auto
  have run: "link_new ?n level v G1 = Some (if hi < level then (G1\<lparr>ai_links := lk'\<rparr>)\<lparr>ai_entry := Some (?n, level)\<rparr> else G1\<lparr>ai_links := lk'\<rparr>)"
    using e cur(1) c(1) by (simp add: link_new_def Let_def)
  have sz: "length (lk' ! x) = (if x = ?n then level + 1 else length (ai_links G ! x))" if "x < Suc ?n" for x
    using that c(4) lk(4,5) by (cases "x = ?n") simp_all
  have len: "length lk' = Suc ?n" using c(3) lk(2) by simp
  define en where "en = (if hi < level then Some (?n, level) else Some (start, hi))"
  have "graph_ok (G1\<lparr>ai_links := lk', ai_entry := en\<rparr>)"
  proof (cases "hi < level")
    case True
    have "length (lk' ! x) \<le> level + 1" if x: "x < Suc ?n" for x
    proof (cases "x = ?n")
      case False
      then have "length (ai_links G ! x) \<le> hi + 1" using old(3) x by simp
      then show ?thesis using sz [OF x] False True by simp
    qed (use sz [OF x] in simp)
    moreover have "length (lk' ! ?n) = level + 1" using sz [of ?n] by simp
    moreover have "en = Some (?n, level)" using True by (simp add: en_def)
    ultimately show ?thesis using added_graph_ok [OF ok i n add c(2) len, of ?n level] by blast
  next
    case False
    have "length (lk' ! x) \<le> hi + 1" if "x < Suc ?n" for x
      using sz [OF that] old(3) that False by (cases "x = ?n") simp_all
    moreover have "length (lk' ! start) = hi + 1" using sz [of start] old(1,2) by simp
    moreover have "en = Some (start, hi)" using False by (simp add: en_def)
    moreover have "start < Suc ?n" using old(1) by simp
    ultimately show ?thesis using added_graph_ok [OF ok i n add c(2) len, of start hi] by blast
  qed
  moreover have "link_new ?n level v G1 = Some (G1\<lparr>ai_links := lk', ai_entry := en\<rparr>)"
    using run e by (cases "hi < level") (simp_all add: en_def)
  ultimately show ?thesis by blast
qed

section \<open>Insertion and removal\<close>

lemma link_new_map: "ann_map (G\<lparr>ai_links := lk, ai_entry := en\<rparr>) = ann_map G"
  by (simp add: ann_map_def fun_eq_iff split: option.splits)

lemma ann_insert_ok:
  assumes ok: "graph_ok G" and n: "length (ai_ids G) < 2 ^ 32"
    and v: "case ai_dim G of None \<Rightarrow> dim_ok (ac_quantizer (ai_config G)) (length emb) | Some d \<Rightarrow> length emb = d"
  shows "\<exists>G'. ann_insert ln64 i emb G = Some G' \<and> graph_ok G' \<and> dom (ann_map G') = insert i (dom (ann_map G)) \<and>
    (ac_quantizer (ai_config G) = QNone \<longrightarrow> ann_map G' = (ann_map G)(i \<mapsto> normalized emb)) \<and>
    ai_config G' = ai_config G \<and> ai_dim G' = Some (length emb) \<and> length (ai_ids G') = Suc (length (ai_ids G))"
proof -
  obtain G0 where G0: "(case ai_by_id G i of None \<Rightarrow> Some G | Some old \<Rightarrow> bury old G) = Some G0" "graph_ok G0"
    "ann_map G0 = (ann_map G)(i := None)" "\<And>x. ai_by_id G0 i = Some x \<Longrightarrow> ai_deleted G0 ! x"
    and eq: "G0 = G\<lparr>ai_deleted := ai_deleted G0, ai_live := ai_live G0\<rparr>"
  proof (cases "ai_by_id G i")
    case None
    then have "ann_map G = (ann_map G)(i := None)" by (simp add: ann_map_def fun_eq_iff)
    then show ?thesis using that [of G] None ok by simp
  next
    case (Some x)
    from bury_ok [OF ok Some] obtain G0 where G0: "bury x G = Some G0" "graph_ok G0" "ann_map G0 = (ann_map G)(i := None)"
      "ai_deleted G0 ! x" "G0 = G\<lparr>ai_deleted := ai_deleted G0, ai_live := ai_live G0\<rparr>" by blast
    have "ai_by_id G0 = ai_by_id G" by (subst G0(5)) simp
    then show ?thesis using that [of G0] G0 Some by simp
  qed
  have same: "ai_ids G0 = ai_ids G" "ai_dim G0 = ai_dim G" "ai_config G0 = ai_config G" by (subst eq, simp)+
  have n0: "length (ai_ids G0) < 2 ^ 32" and v0: "case ai_dim G0 of None \<Rightarrow> dim_ok (ac_quantizer (ai_config G0)) (length (normalized emb))
      | Some d \<Rightarrow> length (normalized emb) = d"
    using n v by (simp_all add: same split: option.splits)
  from add_node_ok [OF G0(2) G0(4) n0 v0] obtain level G1 where
    a: "add_node ln64 i (normalized emb) G0 = Some (G1, length (ai_ids G0), level)" "added G0 i (normalized emb) level G1" by blast
  from link_new_ok [OF G0(2) G0(4) n0 a(2)] obtain lk en where
    l: "link_new (length (ai_ids G0)) level (normalized emb) G1 = Some (G1\<lparr>ai_links := lk, ai_entry := en\<rparr>)"
      "graph_ok (G1\<lparr>ai_links := lk, ai_entry := en\<rparr>)" by blast
  have run: "ann_insert ln64 i emb G = Some (G1\<lparr>ai_links := lk, ai_entry := en\<rparr>)"
    by (simp add: ann_insert_link_new G0(1) a(1) l(1))
  have d: "dom (ann_map G1) = insert i (dom (ann_map G))" using a(2) G0(3) by (auto simp: added_def)
  have m: "ac_quantizer (ai_config G) = QNone \<longrightarrow> ann_map G1 = (ann_map G)(i \<mapsto> normalized emb)"
    using a(2) G0(3) same(3) by (simp add: added_def)
  show ?thesis
    by (intro exI conjI, rule run, rule l(2)) (use d m a(2) same in \<open>simp_all add: link_new_map added_def vectors_ok_def\<close>)
qed

lemma ann_remove_ok:
  assumes ok: "graph_ok G"
  shows "\<exists>G'. ann_remove i G = Some G' \<and> graph_ok G' \<and> ann_map G' = (ann_map G)(i := None) \<and>
    ai_config G' = ai_config G \<and> ai_dim G' = ai_dim G \<and> ai_ids G' = ai_ids G"
proof (cases "ai_by_id G i")
  case None
  then have "ann_map G = (ann_map G)(i := None)" by (simp add: ann_map_def fun_eq_iff)
  then show ?thesis using None ok by (simp add: ann_remove_def)
next
  case (Some x)
  from bury_ok [OF ok Some] obtain G' where b: "bury x G = Some G'" "graph_ok G'" "ann_map G' = (ann_map G)(i := None)"
    and eq: "G' = G\<lparr>ai_deleted := ai_deleted G', ai_live := ai_live G'\<rparr>" by blast
  have "ai_config G' = ai_config G" "ai_dim G' = ai_dim G" "ai_ids G' = ai_ids G" by (subst eq, simp)+
  then show ?thesis using b Some by (simp add: ann_remove_def)
qed

text \<open>The live count is the size of the map.\<close>

lemma graph_live_count:
  assumes ok: "graph_ok G"
  shows "ai_live G = card (dom (ann_map G))"
proof -
  let ?L = "{x. x < length (ai_ids G) \<and> \<not> ai_deleted G ! x}"
  have g: "length (ai_deleted G) = length (ai_ids G)" "ai_live G = unvisited (ai_deleted G)"
    "\<And>x. x < length (ai_ids G) \<Longrightarrow> \<not> ai_deleted G ! x \<Longrightarrow> ai_by_id G (ai_ids G ! x) = Some x"
    using ok unfolding graph_ok_def by blast+
  have "dom (ann_map G) = (!) (ai_ids G) ` ?L" unfolding set_eq_iff graph_live [OF ok] by auto
  moreover have "inj_on ((!) (ai_ids G)) ?L" proof (rule inj_onI)
    fix x y assume x: "x \<in> ?L" "y \<in> ?L" and e: "ai_ids G ! x = ai_ids G ! y"
    have "ai_by_id G (ai_ids G ! x) = Some x" "ai_by_id G (ai_ids G ! y) = Some y" using x g(3) by blast+
    then show "x = y" unfolding e by (metis option.inject)
  qed
  ultimately have "card (dom (ann_map G)) = card ?L" by (simp add: card_image)
  also have "\<dots> = ai_live G" unfolding g(2) unvisited_def using g(1) by (simp add: length_filter_conv_card)
  finally show ?thesis ..
qed

section \<open>Runs of upserts and removals\<close>

datatype graph_op = GUpsert bytes vec | GRemove bytes

fun graph_apply :: "(f64 \<Rightarrow> f64) \<Rightarrow> graph_op \<Rightarrow> ann_index \<Rightarrow> ann_index option" where
  "graph_apply ln64 (GUpsert i v) G = ann_insert ln64 i v G"
| "graph_apply ln64 (GRemove i) G = ann_remove i G"

definition graph_run :: "(f64 \<Rightarrow> f64) \<Rightarrow> graph_op list \<Rightarrow> ann_index \<Rightarrow> ann_index option" where
  "graph_run ln64 ops G = fold (\<lambda>op acc. Option.bind acc (graph_apply ln64 op)) ops (Some G)"

text \<open>What an operation does to the map.\<close>

fun graph_effect :: "graph_op \<Rightarrow> (bytes \<rightharpoonup> vec) \<Rightarrow> (bytes \<rightharpoonup> vec)" where
  "graph_effect (GUpsert i v) M = M(i \<mapsto> normalized v)"
| "graph_effect (GRemove i) M = M(i := None)"

lemma graph_effect_dom: "dom M = dom M' \<Longrightarrow> dom (graph_effect op M) = dom (graph_effect op M')"
  by (cases op) simp_all

definition graph_op_dim :: "nat \<Rightarrow> graph_op \<Rightarrow> bool" where
  "graph_op_dim d op \<longleftrightarrow> (case op of GUpsert i v \<Rightarrow> length v = d | GRemove i \<Rightarrow> True)"

text \<open>A graph that stands for a map: of its ids always, and of its vectors where the storage is exact.\<close>

definition stands_for :: "ann_index \<Rightarrow> (bytes \<rightharpoonup> vec) \<Rightarrow> bool" where
  "stands_for G M \<longleftrightarrow> graph_ok G \<and> dom (ann_map G) = dom M \<and> (ac_quantizer (ai_config G) = QNone \<longrightarrow> ann_map G = M)"

lemma graph_apply_ok:
  assumes G: "stands_for G M" and n: "length (ai_ids G) < 2 ^ 32" and d: "graph_op_dim d op"
    and v: "case ai_dim G of None \<Rightarrow> dim_ok (ac_quantizer (ai_config G)) d | Some d' \<Rightarrow> d' = d"
  shows "\<exists>G'. graph_apply ln64 op G = Some G' \<and> stands_for G' (graph_effect op M) \<and> ai_config G' = ai_config G \<and>
    length (ai_ids G') \<le> Suc (length (ai_ids G)) \<and>
    (case ai_dim G' of None \<Rightarrow> dim_ok (ac_quantizer (ai_config G')) d | Some d' \<Rightarrow> d' = d)"
proof (cases op)
  case (GUpsert i u)
  have "case ai_dim G of None \<Rightarrow> dim_ok (ac_quantizer (ai_config G)) (length u) | Some d \<Rightarrow> length u = d"
    using v d GUpsert by (auto simp: graph_op_dim_def split: option.splits)
  from ann_insert_ok [OF _ n this, of ln64 i] show ?thesis
    using G d by (auto simp: GUpsert stands_for_def graph_op_dim_def)
next
  case (GRemove i)
  from ann_remove_ok [of G i] obtain G' where r: "ann_remove i G = Some G'" "graph_ok G'" "ann_map G' = (ann_map G)(i := None)"
    "ai_config G' = ai_config G" "ai_dim G' = ai_dim G" "ai_ids G' = ai_ids G" using G by (auto simp: stands_for_def)
  have "case ai_dim G' of None \<Rightarrow> dim_ok (ac_quantizer (ai_config G')) d | Some d' \<Rightarrow> d' = d" unfolding r(4,5) by (rule v)
  then show ?thesis using G r by (auto simp: GRemove stands_for_def)
qed

lemma graph_run_ok:
  "\<lbrakk>stands_for G M; length (ai_ids G) + length ops \<le> 2 ^ 32; \<forall>op \<in> set ops. graph_op_dim d op;
    case ai_dim G of None \<Rightarrow> dim_ok (ac_quantizer (ai_config G)) d | Some d' \<Rightarrow> d' = d\<rbrakk> \<Longrightarrow>
   \<exists>G'. graph_run ln64 ops G = Some G' \<and> stands_for G' (fold graph_effect ops M) \<and> ai_config G' = ai_config G"
proof (induction ops arbitrary: G M)
  case (Cons op ops)
  obtain G' where G': "graph_apply ln64 op G = Some G'" "stands_for G' (graph_effect op M)" "ai_config G' = ai_config G"
    "length (ai_ids G') \<le> Suc (length (ai_ids G))"
    "case ai_dim G' of None \<Rightarrow> dim_ok (ac_quantizer (ai_config G')) d | Some d' \<Rightarrow> d' = d"
    using graph_apply_ok [OF Cons.prems(1) _ _ Cons.prems(4), of op ln64] Cons.prems(2,3) by auto
  have "length (ai_ids G') + length ops \<le> 2 ^ 32" "\<forall>op \<in> set ops. graph_op_dim d op" using G'(4) Cons.prems(2,3) by auto
  from Cons.IH [OF G'(2) this G'(5)] show ?case using G'(1,3) by (simp add: graph_run_def)
qed (simp add: graph_run_def)

lemma graph_new_stands: "stands_for (ann_new c) Map.empty"
  using graph_new_ok [of c] by (simp add: stands_for_def ann_map_def fun_eq_iff ann_new_def)

section \<open>Searches\<close>

text \<open>The nearest of a set of ids, as a search answers them: a score is one less the distance.\<close>

definition nearest_of_set :: "(bytes \<Rightarrow> f32 option) \<Rightarrow> bytes set \<Rightarrow> nat \<Rightarrow> scored \<Rightarrow> bool" where
  "nearest_of_set dst A k rs \<longleftrightarrow>
     (\<exists>ds. rs = map (\<lambda>(d, i). (i, f32_sub f32_one d)) ds \<and> sorted (map (\<lambda>(d, i). f32_key d) ds) \<and>
        distinct (map snd ds) \<and> length ds \<le> k \<and> (\<forall>(d, i) \<in> set ds. i \<in> A \<and> dst i = Some d))"

definition graph_dist :: "ann_index \<Rightarrow> vec \<Rightarrow> bytes \<Rightarrow> f32 option" where
  "graph_dist G q i = Option.bind (ai_by_id G i) (dist_to G (normalized q) (f32_sum (normalized q)))"

lemma ann_hits_ok:
  assumes ok: "graph_ok G" and f: "sorted (map far_key found)" "distinct (map snd found)"
    and live: "\<forall>(d, x) \<in> set found. x < length (ai_ids G) \<and> \<not> ai_deleted G ! x \<and> ai_ids G ! x \<in> A \<and>
      dist_to G (normalized q) (f32_sum (normalized q)) x = Some d"
  shows "\<exists>rs. ann_hits G k found = Some rs \<and> nearest_of_set (graph_dist G q) (dom (ann_map G) \<inter> A) k rs \<and>
    (length found \<le> k \<longrightarrow> fst ` set rs = (\<lambda>x. ai_ids G ! x) ` snd ` set found)"
proof -
  let ?t = "take k found" and ?id = "\<lambda>x. ai_ids G ! x"
  let ?ds = "map (\<lambda>(d, x). (d, ?id x)) ?t" and ?rs = "map (\<lambda>(d, x). (?id x, f32_sub f32_one d)) ?t"
  have l: "x < length (ai_ids G) \<and> \<not> ai_deleted G ! x \<and> ai_ids G ! x \<in> A \<and>
      dist_to G (normalized q) (f32_sum (normalized q)) x = Some d" if "(d, x) \<in> set ?t" for d x
    using live set_take_subset that by fast
  have by_id: "ai_by_id G (?id x) = Some x" if "x < length (ai_ids G)" "\<not> ai_deleted G ! x" for x
    using ok that unfolding graph_ok_def by blast
  have "\<forall>y \<in> set ?t. (case y of (d, node) \<Rightarrow> map_option (\<lambda>i. (i, f32_sub f32_one d)) (index_opt (ai_ids G) node)) =
      Some ((\<lambda>(d, x). (?id x, f32_sub f32_one d)) y)"
    using l by (force simp: index_opt_def)
  then have run: "ann_hits G k found = Some ?rs" unfolding ann_hits_def by (intro those_map) blast
  have inj: "inj_on ?id (snd ` set ?t)"
  proof (rule inj_onI)
    fix x y assume "x \<in> snd ` set ?t" "y \<in> snd ` set ?t" and e: "?id x = ?id y"
    then have "Some x = ai_by_id G (?id x)" "ai_by_id G (?id y) = Some y" using l by_id by fastforce+
    then show "x = y" using e by simp
  qed
  have "distinct (map snd ?t)" using f(2) by (simp add: take_map [symmetric])
  moreover have "map snd ?ds = map ?id (map snd ?t)" by (simp add: case_prod_beta)
  ultimately have dis: "distinct (map snd ?ds)" using inj by (simp only: distinct_map) simp
  have "map (\<lambda>(d, i). f32_key d) ?ds = take k (map far_key found)" by (simp add: take_map far_key_def case_prod_beta)
  then have srt: "sorted (map (\<lambda>(d, i). f32_key d) ?ds)" using f(1) by (simp only: sorted_wrt_take)
  have all: "\<forall>(d, i) \<in> set ?ds. i \<in> dom (ann_map G) \<inter> A \<and> graph_dist G q i = Some d"
  proof (clarify)
    fix d x i assume "(d, i) \<in> set ?ds"
    then obtain x where x: "(d, x) \<in> set ?t" "i = ?id x" by auto
    note L = l [OF x(1)]
    have "i \<in> dom (ann_map G)" using L x(2) graph_live [OF ok] by blast
    then show "i \<in> dom (ann_map G) \<inter> A \<and> graph_dist G q i = Some d" using L by_id by (simp add: graph_dist_def x(2))
  qed
  have "?rs = map (\<lambda>(d, i). (i, f32_sub f32_one d)) ?ds" by (simp add: case_prod_beta)
  then have "nearest_of_set (graph_dist G q) (dom (ann_map G) \<inter> A) k ?rs"
    unfolding nearest_of_set_def using srt dis all by (intro exI [of _ ?ds] conjI) simp_all
  moreover have "length found \<le> k \<longrightarrow> fst ` set ?rs = ?id ` snd ` set found" by (force simp: image_iff)
  ultimately show ?thesis using run by blast
qed

text \<open>Both searches are one, up to the admission and the width of the beam.\<close>

definition search_from :: "ann_index \<Rightarrow> vec \<Rightarrow> nat \<Rightarrow> nat \<Rightarrow> (nat \<Rightarrow> bool option) \<Rightarrow> nat \<Rightarrow> nat \<Rightarrow> scored option" where
  "search_from G query k ef admit start hi =
     (let q = normalized query; dst = dist_to G q (f32_sum q) in
      Option.bind (descend G dst 1 hi start) (\<lambda>cur. Option.bind (beam_admit G dst cur 0 ef False admit) (ann_hits G k)))"

lemma layer_links_bound:
  assumes "links_ok m (ai_links G)"
  shows "layer_links G l \<subseteq> {..<length (ai_links G)} \<times> {..<length (ai_links G)}"
proof (clarify)
  fix x y assume "(x, y) \<in> layer_links G l"
  then have x: "x < length (ai_links G)" "l < length (ai_links G ! x)" "y \<in> set (ai_links G ! x ! l)"
    by (auto simp: layer_links_def neighbours_def index_opt_def split: if_splits)
  then have "y < length (ai_links G)" using links_okD(4) [OF assms x(1,2)] by blast
  then show "x \<in> {..<length (ai_links G)} \<and> y \<in> {..<length (ai_links G)}" using x(1) by simp
qed

lemma search_from_ok:
  assumes ok: "graph_ok G" and e: "ai_entry G = Some (start, hi)" and d: "ai_dim G = Some (length query)"
    and admit: "\<And>x. x < length (ai_ids G) \<Longrightarrow> admit x = Some (ai_ids G ! x \<in> A)"
  shows "\<exists>rs. search_from G query k ef admit start hi = Some rs \<and> nearest_of_set (graph_dist G query) (dom (ann_map G) \<inter> A) k rs \<and>
    (length (ai_ids G) \<le> ef \<and> length (ai_ids G) \<le> k \<longrightarrow>
       (\<exists>cur < length (ai_ids G). \<forall>x \<in> reach G 0 cur. \<not> ai_deleted G ! x \<and> ai_ids G ! x \<in> A \<longrightarrow> ai_ids G ! x \<in> fst ` set rs))"
proof -
  let ?n = "length (ai_ids G)" and ?q = "normalized query"
  let ?dst = "dist_to G ?q (f32_sum ?q)" and ?S = "layer_nodes (ai_links G) (length (ai_links G))"
  have g: "length (ai_links G) = ?n" "length (ai_deleted G) = ?n" "links_ok (ac_m (ai_config G)) (ai_links G)"
    using ok unfolding graph_ok_def by blast+
  have vec: "vectors_ok G (length ?q)" and st: "start < ?n" "length (ai_links G ! start) = hi + 1"
    using ok d e g(1) by (simp_all add: graph_ok_def vectors_ok_def)
  have S: "closed_at G l (?S l) \<and> defined_on (?S l) ?dst" for l
    using all_nodes_closed [OF g(3) g(1) [symmetric]] layer_nodes_defined [OF vec refl] by blast
  have top: "start \<in> ?S hi" using st g(1) by (simp add: layer_nodes_def)
  obtain cur where cur: "descend G ?dst 1 hi start = Some cur" "cur \<in> ?S 0"
  proof (cases "1 \<le> hi")
    case True
    from descend_ok [OF True S _ top] obtain x where "descend G ?dst 1 hi start = Some x" "x \<in> ?S 1"
      using layer_nodes_mono [of _ "Suc _"] by (metis le_SucI order_refl)
    then show ?thesis using that layer_nodes_mono [of 0 1] by blast
  next
    case False
    then show ?thesis using that top layer_nodes_mono [of 0 hi] by (auto simp: descend_def)
  qed
  have adm: "admits G False admit x = Some (\<not> ai_deleted G ! x \<and> ai_ids G ! x \<in> A)" if "x < ?n" for x
    using that admit [OF that] g(2) by (simp add: admits_def index_opt_def split: bool.splits)
  have Sn: "?S 0 \<subseteq> {..<?n}" using g(1) by (auto simp: layer_nodes_def)
  have def: "defined_on (?S 0) (admits G False admit)" using adm Sn by (auto simp: defined_on_def)
  have S0: "closed_at G 0 (?S 0)" "defined_on (?S 0) ?dst" using S by blast+
  obtain found where f: "beam_admit G ?dst cur 0 ef False admit = Some found" "sorted (map far_key found)" "distinct (map snd found)"
    and mem: "\<forall>(d, x) \<in> set found. x \<in> ?S 0 \<and> ?dst x = Some d \<and> admits G False admit x = Some True"
    and all: "?n \<le> ef \<and> layer_links G 0 \<subseteq> {..<?n} \<times> {..<?n} \<longrightarrow>
       (\<forall>x \<in> reach G 0 cur. admits G False admit x = Some True \<longrightarrow> x \<in> snd ` set found)"
    using beam_admit_ok [OF S0(1) cur(2) refl S0(2) def, of ef] by blast
  have live: "\<forall>(d, x) \<in> set found. x < ?n \<and> \<not> ai_deleted G ! x \<and> ai_ids G ! x \<in> A \<and> ?dst x = Some d"
    using mem adm Sn by fastforce
  from ann_hits_ok [OF ok f(2,3) live] obtain rs where rs: "ann_hits G k found = Some rs"
    "nearest_of_set (graph_dist G query) (dom (ann_map G) \<inter> A) k rs"
    "length found \<le> k \<longrightarrow> fst ` set rs = (\<lambda>x. ai_ids G ! x) ` snd ` set found" by blast
  have small: "length found \<le> ?n"
  proof -
    have "set (map snd found) \<subseteq> {..<?n}" using live by auto
    then have "card (set (map snd found)) \<le> ?n" using card_mono [of "{..<?n}"] by fastforce
    then show ?thesis using distinct_card [OF f(3)] by simp
  qed
  have "\<forall>x \<in> reach G 0 cur. \<not> ai_deleted G ! x \<and> ai_ids G ! x \<in> A \<longrightarrow> ai_ids G ! x \<in> fst ` set rs"
    if big: "?n \<le> ef" "?n \<le> k"
  proof (intro ballI impI)
    fix x assume x: "x \<in> reach G 0 cur" "\<not> ai_deleted G ! x \<and> ai_ids G ! x \<in> A"
    have "x < ?n" using reach_sub [OF S0(1) cur(2)] x(1) Sn by auto
    then have "x \<in> snd ` set found" using all layer_links_bound [OF g(3), of 0] big(1) x adm unfolding g(1) by simp
    then show "ai_ids G ! x \<in> fst ` set rs" using rs(3) small big(2) by (metis imageI le_trans)
  qed
  moreover have "cur < ?n" using cur(2) Sn by auto
  moreover have "search_from G query k ef admit start hi = Some rs" using cur(1) f(1) rs(1) by (simp add: search_from_def Let_def)
  ultimately show ?thesis using rs(2) by blast
qed

lemma nearest_empty: "nearest_of_set dst A k []"
  by (simp add: nearest_of_set_def)

lemma nearest_of_set_ids: "nearest_of_set dst A k rs \<Longrightarrow> fst ` set rs \<subseteq> A"
  by (fastforce simp: nearest_of_set_def)

text \<open>The exact storage answers by the map alone.\<close>

lemma graph_dist_map:
  assumes ok: "graph_ok G" and q: "ac_quantizer (ai_config G) = QNone" and i: "i \<in> dom (ann_map G)"
  shows "graph_dist G query i = map_option (\<lambda>v. f32_sub f32_one (simd_dot v (normalized query))) (ann_map G i)"
proof -
  obtain x where x: "ai_by_id G i = Some x" "\<not> ai_deleted G ! x" "x < length (ai_ids G)"
    using i ok by (auto simp: ann_map_def graph_ok_def split: option.splits if_splits)
  then obtain d where d: "ai_dim G = Some d" "store_quantizer (ai_store G) = QNone"
    using ok q by (cases "ai_dim G") (auto simp: graph_ok_def)
  then obtain vs where "ai_store G = SFull vs" by (cases "ai_store G") (simp_all add: store_quantizer_def)
  then show ?thesis using x d
    by (cases "mv_with vs x d") (simp_all add: graph_dist_def dist_to_def dot_query_def ann_map_def materialize_def)
qed

lemma ann_search_from:
  "ann_search G query k ef =
     (case ai_entry G of
        None \<Rightarrow> Some []
      | Some (start, hi) \<Rightarrow>
          if k = 0 \<or> ai_dim G \<noteq> Some (length query) then Some []
          else search_from G query k (max (max ef (ac_ef_search (ai_config G))) k) (\<lambda>_. Some True) start hi)"
  unfolding ann_search_def search_from_def beam_def Let_def ..

lemma ann_search_ok:
  assumes ok: "graph_ok G"
  shows "\<exists>rs. ann_search G query k ef = Some rs \<and> nearest_of_set (graph_dist G query) (dom (ann_map G)) k rs \<and>
    (ai_dim G = Some (length query) \<and> ai_ids G \<noteq> [] \<and> length (ai_ids G) \<le> k \<longrightarrow>
       (\<exists>cur < length (ai_ids G). \<forall>x \<in> reach G 0 cur. \<not> ai_deleted G ! x \<longrightarrow> ai_ids G ! x \<in> fst ` set rs))"
proof (cases "ai_entry G")
  case None
  then have "ai_ids G = []" using ok by (simp add: graph_ok_def)
  then show ?thesis using None by (simp add: ann_search_from nearest_empty)
next
  case (Some p)
  obtain start hi where e: "ai_entry G = Some (start, hi)" using Some by (cases p) simp
  have ne: "ai_ids G \<noteq> []" using ok e by (auto simp: graph_ok_def)
  show ?thesis
  proof (cases "k = 0 \<or> ai_dim G \<noteq> Some (length query)")
    case True
    then show ?thesis using e ne by (auto simp: ann_search_from nearest_empty)
  next
    case False
    then have d: "ai_dim G = Some (length query)" by simp
    have le: "length (ai_ids G) \<le> k \<Longrightarrow> length (ai_ids G) \<le> max (max ef (ac_ef_search (ai_config G))) k" by simp
    from search_from_ok [OF ok e d, of "\<lambda>_. Some True" UNIV k "max (max ef (ac_ef_search (ai_config G))) k"]
    obtain rs where "search_from G query k (max (max ef (ac_ef_search (ai_config G))) k) (\<lambda>_. Some True) start hi = Some rs"
      "nearest_of_set (graph_dist G query) (dom (ann_map G)) k rs"
      "length (ai_ids G) \<le> k \<Longrightarrow>
         \<exists>cur < length (ai_ids G). \<forall>x \<in> reach G 0 cur. \<not> ai_deleted G ! x \<longrightarrow> ai_ids G ! x \<in> fst ` set rs"
      using le by auto
    then show ?thesis using False e by (intro exI [of _ rs]) (simp add: ann_search_from)
  qed
qed

lemma ann_search_filtered_ok:
  assumes ok: "graph_ok G"
  shows "\<exists>rs. ann_search_filtered G query k ef allow = Some rs \<and>
    nearest_of_set (graph_dist G query) (dom (ann_map G) \<inter> allow) k rs"
proof (cases "ai_entry G")
  case None
  then show ?thesis by (simp add: ann_search_filtered_def nearest_empty)
next
  case (Some p)
  obtain start hi where e: "ai_entry G = Some (start, hi)" using Some by (cases p) simp
  show ?thesis
  proof (cases "k = 0 \<or> ai_dim G \<noteq> Some (length query) \<or> allow = {}")
    case True
    then show ?thesis using e by (auto simp: ann_search_filtered_def nearest_empty)
  next
    case False
    define w where "w = widened (max (max ef (ac_ef_search (ai_config G))) k) (card allow) (length (ai_ids G))"
    let ?adm = "\<lambda>node. map_option (\<lambda>i. i \<in> allow) (index_opt (ai_ids G) node)"
    have d: "ai_dim G = Some (length query)" using False by simp
    have adm: "?adm x = Some (ai_ids G ! x \<in> allow)" if "x < length (ai_ids G)" for x using that by (simp add: index_opt_def)
    from search_from_ok [OF ok e d adm, of k w] obtain rs where
      "search_from G query k w ?adm start hi = Some rs" "nearest_of_set (graph_dist G query) (dom (ann_map G) \<inter> allow) k rs" by blast
    moreover have "ann_search_filtered G query k ef allow = search_from G query k w ?adm start hi"
      using False e by (simp add: ann_search_filtered_def search_from_def Let_def w_def)
    ultimately show ?thesis by (intro exI [of _ rs]) simp
  qed
qed

section \<open>The properties of the graph\<close>

text \<open>A run that replaces a vector and removes an id.\<close>

definition sample_ops :: "graph_op list" where
  "sample_ops = [GUpsert ''a'' [f32_one], GUpsert ''b'' [f32_one], GRemove ''a'', GUpsert ''b'' [f32_half]]"

lemma sample_ops_run: "fold graph_effect sample_ops Map.empty = [''b'' \<mapsto> normalized [f32_half]]"
  "\<forall>op \<in> set sample_ops. graph_op_dim 1 op" "dim_ok (ac_quantizer ann_config_default) 1" "length sample_ops \<le> 2 ^ 32"
  by (auto simp: sample_ops_def graph_op_dim_def dim_ok_def ann_config_default_def fun_eq_iff)

text \<open>C6: a graph built by any sequence of upserts and removals of vectors of one dimension (fewer than
  \<open>2 ^ 32\<close> of them, and a dimension its quantizer can store) never panics, has the graph invariant (the links
  lead to nodes of their layer, within the caps; ids, tombstones and entry agree), and stands for the map those
  operations define: its live ids are the domain, its live count the size, and with the exact storage its
  vectors are the normalized vectors of the last upsert of each id.\<close>

theorem graph_refines_map:
  assumes dims: "\<forall>op \<in> set ops. graph_op_dim d op" "dim_ok (ac_quantizer c) d" and n: "length ops \<le> 2 ^ 32"
  shows "\<exists>G. graph_run ln64 ops (ann_new c) = Some G \<and> graph_ok G \<and>
    dom (ann_map G) = dom (fold graph_effect ops Map.empty) \<and>
    ai_live G = card (dom (fold graph_effect ops Map.empty)) \<and>
    (ac_quantizer c = QNone \<longrightarrow> ann_map G = fold graph_effect ops Map.empty)"
proof -
  have "case ai_dim (ann_new c) of None \<Rightarrow> dim_ok (ac_quantizer (ai_config (ann_new c))) d | Some d' \<Rightarrow> d' = d"
    using dims(2) by (simp add: ann_new_def)
  from graph_run_ok [OF graph_new_stands _ dims(1) this, of ln64] obtain G where
    G: "graph_run ln64 ops (ann_new c) = Some G" "stands_for G (fold graph_effect ops Map.empty)" "ai_config G = c"
    using n by (auto simp: ann_new_def)
  then show ?thesis using graph_live_count [of G] by (intro exI [of _ G]) (simp add: stands_for_def)
qed

theorem graph_refines_map_witness:
  "\<forall>ln64. \<exists>G. graph_run ln64 sample_ops (ann_new ann_config_default) = Some G \<and> graph_ok G \<and> ai_live G = 1 \<and>
     ann_map G = [''b'' \<mapsto> normalized [f32_half]]"
proof
  fix ln64
  show "\<exists>G. graph_run ln64 sample_ops (ann_new ann_config_default) = Some G \<and> graph_ok G \<and> ai_live G = 1 \<and>
     ann_map G = [''b'' \<mapsto> normalized [f32_half]]"
    using graph_refines_map [OF sample_ops_run(2,3,4), of ln64] by (auto simp: sample_ops_run(1) ann_config_default_def)
qed

text \<open>C7: on a graph with its invariant both searches return: at most \<open>k\<close> live ids, each once, nearest
  first by the distance of its stored vector to the normalized query, scored one less that distance; the
  filtered search answers allowed ids only.  When \<open>k\<close> covers the graph, the unfiltered search leaves out
  no live node that its entry into the bottom layer reaches.  With the exact storage the distance is that of
  the vector the map holds.\<close>

theorem graph_search_answers:
  assumes ok: "graph_ok G"
  shows "\<exists>rs fs. ann_search G query k ef = Some rs \<and> nearest_of_set (graph_dist G query) (dom (ann_map G)) k rs \<and>
    ann_search_filtered G query k ef allow = Some fs \<and> nearest_of_set (graph_dist G query) (dom (ann_map G) \<inter> allow) k fs \<and>
    (ai_dim G = Some (length query) \<and> ai_ids G \<noteq> [] \<and> length (ai_ids G) \<le> k \<longrightarrow>
       (\<exists>cur < length (ai_ids G). \<forall>x \<in> reach G 0 cur. \<not> ai_deleted G ! x \<longrightarrow> ai_ids G ! x \<in> fst ` set rs)) \<and>
    (ac_quantizer (ai_config G) = QNone \<longrightarrow> (\<forall>i \<in> dom (ann_map G).
       graph_dist G query i = map_option (\<lambda>v. f32_sub f32_one (simd_dot v (normalized query))) (ann_map G i)))"
  using ann_search_ok [OF ok, of query k ef] ann_search_filtered_ok [OF ok, of query k ef allow] graph_dist_map [OF ok, of _ query]
  by blast

theorem graph_search_answers_witness:
  "\<exists>G rs fs. graph_run (\<lambda>x. x) sample_ops (ann_new ann_config_default) = Some G \<and>
     ann_search G [f32_one] 5 0 = Some rs \<and> nearest_of_set (graph_dist G [f32_one]) {''b''} 5 rs \<and>
     ann_search_filtered G [f32_one] 5 0 {''a''} = Some fs \<and> fs = []"
proof -
  have "case ai_dim (ann_new ann_config_default) of None \<Rightarrow> dim_ok (ac_quantizer (ai_config (ann_new ann_config_default))) 1 | Some d' \<Rightarrow> d' = 1"
    using sample_ops_run(3) by (simp add: ann_new_def)
  from graph_run_ok [OF graph_new_stands _ sample_ops_run(2) this, of "\<lambda>x. x"] sample_ops_run(4) obtain G where
    G: "graph_run (\<lambda>x. x) sample_ops (ann_new ann_config_default) = Some G" "stands_for G (fold graph_effect sample_ops Map.empty)"
    by (auto simp: ann_new_def)
  then have ok: "graph_ok G" and d: "dom (ann_map G) = {''b''}" by (simp_all add: stands_for_def sample_ops_run(1))
  obtain rs fs where r: "ann_search G [f32_one] 5 0 = Some rs" "nearest_of_set (graph_dist G [f32_one]) {''b''} 5 rs"
    "ann_search_filtered G [f32_one] 5 0 {''a''} = Some fs" "nearest_of_set (graph_dist G [f32_one]) ({''b''} \<inter> {''a''}) 5 fs"
    using graph_search_answers [OF ok, of "[f32_one]" 5 0 "{''a''}"] unfolding d by blast
  have "fs = []" using nearest_of_set_ids [OF r(4)] by simp
  then show ?thesis using G(1) r by blast
qed

section \<open>The graph behind the estate's searches\<close>

text \<open>The reads the estate makes of its graph; a graph with its invariant does not panic on any of them.\<close>

definition graph_view :: "ann_index \<Rightarrow> ann_view" where
  "graph_view G =
     \<lparr>av_len = ai_live G,
      av_search = (\<lambda>q k ef. case ann_search G q k ef of None \<Rightarrow> [] | Some rs \<Rightarrow> rs),
      av_search_filtered = (\<lambda>q k ef allow. case ann_search_filtered G q k ef allow of None \<Rightarrow> [] | Some rs \<Rightarrow> rs)\<rparr>"

lemma graph_view_allowed:
  assumes "graph_ok G"
  shows "fst ` set (av_search_filtered (graph_view G) q k ef allow) \<subseteq> allow"
proof -
  obtain rs where "ann_search_filtered G q k ef allow = Some rs" "nearest_of_set (graph_dist G q) (dom (ann_map G) \<inter> allow) k rs"
    using ann_search_filtered_ok [OF assms, of q k ef allow] by blast
  then show ?thesis using nearest_of_set_ids by (simp add: graph_view_def) fast
qed

end
