(* ===== verification/GraphFileProps.thy ===== *)
theory GraphFileProps
  imports GraphFile GraphRefine KeysProps
begin

text \<open>
  The binary form of the vector graph is read back: the blob into memory, the structure and its vector file
  as a paged graph, both answering as the graph that was written; every cut of a blob is rejected.  The last
  section has the blobs on which the reader does not hold what its comment says.
\<close>

section \<open>Readers of what was written\<close>

text \<open>The reader takes exactly the text of a value, and rejects every cut of it.\<close>

definition reads :: "'a reader \<Rightarrow> bytes \<Rightarrow> 'a \<Rightarrow> bool" where
  "reads r w x \<longleftrightarrow> (\<forall>rest. r (w @ rest) = Loaded (x, rest)) \<and> (\<forall>p. strict_prefix p w \<longrightarrow> r p = Rejected)"

lemma readsD: "reads r w x \<Longrightarrow> r (w @ rest) = Loaded (x, rest)" "reads r w x \<Longrightarrow> strict_prefix p w \<Longrightarrow> r p = Rejected"
  by (simp_all add: reads_def)

lemma reads_done [simp]: "reads (r_done x) [] x"
  by (simp add: reads_def r_done_def)

lemma reads_then: "reads r w x \<Longrightarrow> reads (f x) w' y \<Longrightarrow> reads (r_then r f) (w @ w') y"
  unfolding reads_def
proof (intro conjI allI impI)
  assume r: "(\<forall>rest. r (w @ rest) = Loaded (x, rest)) \<and> (\<forall>p. strict_prefix p w \<longrightarrow> r p = Rejected)"
    and f: "(\<forall>rest. f x (w' @ rest) = Loaded (y, rest)) \<and> (\<forall>p. strict_prefix p w' \<longrightarrow> f x p = Rejected)"
  show "r_then r f ((w @ w') @ rest) = Loaded (y, rest)" for rest using r f by (simp add: r_then_def)
  fix p assume p: "strict_prefix p (w @ w')"
  show "r_then r f p = Rejected"
  proof (cases "strict_prefix p w")
    case True
    then show ?thesis using r by (simp add: r_then_def)
  next
    case False
    then obtain p' where "p = w @ p'" "strict_prefix p' w'"
      using p by (cases "w' = []") (auto simp: strict_prefix_def prefix_append)
    then show ?thesis using r f by (simp add: r_then_def)
  qed
qed

lemma reads_last: "reads r w x \<Longrightarrow> f x = r_done y \<Longrightarrow> reads (r_then r f) w y"
  using reads_then [of r w x f "[]" y] by simp

lemma reads_take: "length w = n \<Longrightarrow> reads (r_take n) w w"
  by (auto simp: reads_def r_take_def strict_prefix_def prefix_def)

lemma reads_u32: "v < 2 ^ 32 \<Longrightarrow> reads r_u32 (w_u32 v) v"
  unfolding r_u32_def by (rule reads_last [OF reads_take]) simp_all

lemma reads_u64: "v < 2 ^ 64 \<Longrightarrow> reads r_u64 (w_u64 v) v"
  unfolding r_u64_def by (rule reads_last [OF reads_take]) simp_all

lemma reads_f32: "reads r_f32 (w_f32 x) x"
  unfolding r_f32_def by (rule reads_last [OF reads_take]) simp_all

lemma reads_tag: "t < 256 \<Longrightarrow> reads r_u8 (w_tag t) t"
  unfolding r_u8_def by (rule reads_last [OF reads_take]) (simp_all add: w_tag_def of_le_def of_be_def byte_val_def)

lemma reads_flag: "reads r_u8 (w_flag d) (if d then 1 else 0)"
  using reads_tag [of "if d then 1 else 0"] by (simp add: w_flag_def w_tag_def split: if_splits)

lemma reads_times: "\<forall>x \<in> set xs. reads r (w x) (g x) \<Longrightarrow> reads (r_times (length xs) r) (concat (map w xs)) (map g xs)"
proof (induction xs)
  case (Cons x xs)
  then have "reads r (w x) (g x)" "reads (r_then (r_times (length xs) r) (\<lambda>ys. r_done (g x # ys))) (concat (map w xs)) (map g (x # xs))"
    by (auto intro!: reads_last)
  then show ?case by (simp add: reads_then)
qed simp

lemma reads_list:
  assumes "\<forall>x \<in> set xs. reads r (w x) x"
  shows "reads (r_times (length xs) r) (concat (map w xs)) xs"
  using reads_times [of xs r w "\<lambda>x. x"] assms by simp

lemma reads_reserve: "n * k \<le> isize_max \<Longrightarrow> reads (r_reserve n k) [] ()"
  by (simp add: reads_def r_reserve_def)

lemma reads_id: "length i < 2 ^ 32 \<Longrightarrow> utf8_valid i \<Longrightarrow> reads r_id (w_id i) i"
  unfolding r_id_def w_id_def
  by (rule reads_then [OF reads_u32], assumption, rule reads_last [OF reads_take]) simp_all

lemma reads_layer: "length ns < 2 ^ 32 \<Longrightarrow> \<forall>y \<in> set ns. y < 2 ^ 32 \<Longrightarrow> reads r_layer (w_layer ns) ns"
  unfolding r_layer_def w_layer_def
  by (rule reads_then [OF reads_u32], assumption, rule reads_list) (blast intro: reads_u32)

lemma reads_node_links:
  "length ls < 2 ^ 32 \<Longrightarrow> \<forall>ns \<in> set ls. length ns < 2 ^ 32 \<and> (\<forall>y \<in> set ns. y < 2 ^ 32) \<Longrightarrow> reads r_node_links (w_node_links ls) ls"
  unfolding r_node_links_def w_node_links_def
  by (rule reads_then [OF reads_u32], assumption, rule reads_list) (blast intro: reads_layer)

lemma reads_param: "reads r_param (w_param p) p"
  unfolding r_param_def w_param_def
  by (rule reads_then [OF reads_f32])+ (cases p, simp add: reads_last [OF reads_f32])

lemma reads_params: "length ps < 2 ^ 32 \<Longrightarrow> reads read_params (write_params ps) ps"
  unfolding read_params_def write_params_def
  by (rule reads_then [OF reads_u32], assumption, rule reads_list) (blast intro: reads_param)

text \<open>A codebook the format can hold.\<close>

definition pq_fits :: "nat \<Rightarrow> pq_codebook option \<Rightarrow> bool" where
  "pq_fits m cb \<longleftrightarrow>
     m < 2 ^ 32 \<and> (case cb of None \<Rightarrow> True
       | Some c \<Rightarrow> pq_m c = m \<and> pq_k c < 2 ^ 32 \<and> pq_sub_dim c < 2 ^ 32 \<and>
           length (pq_centroids c) = m * pq_k c * pq_sub_dim c \<and> m * pq_k c * pq_sub_dim c * 4 \<le> isize_max)"

lemma reads_pq: "pq_fits m cb \<Longrightarrow> reads read_pq (write_pq m cb) (m, cb)"
  unfolding read_pq_def write_pq_def
proof (rule reads_then [OF reads_u32])
  assume fit: "pq_fits m cb"
  then show "m < 2 ^ 32" by (simp add: pq_fits_def)
  show "reads (r_then r_u8 (\<lambda>t. if t = 0 then r_done (m, None)
       else if t = 1 then r_then r_u32 (\<lambda>k. r_then r_u32 (\<lambda>sub_dim.
           if usize_limit \<le> m * k \<or> usize_limit \<le> m * k * sub_dim then r_reject
           else r_then (r_reserve (m * k * sub_dim) 4) (\<lambda>_. r_then (r_times (m * k * sub_dim) r_f32) (\<lambda>cents.
               r_done (m, Some \<lparr>pq_m = m, pq_k = k, pq_sub_dim = sub_dim, pq_centroids = cents\<rparr>)))))
       else r_reject))
     (case cb of Some c \<Rightarrow> w_flag True @ w_u32 (pq_k c) @ w_u32 (pq_sub_dim c) @ concat (map w_f32 (pq_centroids c))
      | None \<Rightarrow> w_flag False) (m, cb)"
  proof (cases cb)
    case None
    then show ?thesis by (simp add: reads_last [OF reads_flag])
  next
    case (Some c)
    then have f: "pq_m c = m" "pq_k c < 2 ^ 32" "pq_sub_dim c < 2 ^ 32" "length (pq_centroids c) = m * pq_k c * pq_sub_dim c"
      "m * pq_k c * pq_sub_dim c * 4 \<le> isize_max" "m < 2 ^ 32" using fit by (simp_all add: pq_fits_def)
    have lim: "\<not> usize_limit \<le> m * pq_k c * pq_sub_dim c" using f(5) by (simp add: isize_max_def usize_limit_def)
    have "m * pq_k c < 2 ^ 32 * 2 ^ 32" using f(2,6) by (intro mult_strict_mono) simp_all
    then have lim2: "\<not> usize_limit \<le> m * pq_k c" by (simp add: usize_limit_def)
    have c: "\<lparr>pq_m = m, pq_k = pq_k c, pq_sub_dim = pq_sub_dim c, pq_centroids = pq_centroids c\<rparr> = c" using f(1) by simp
    have t: "reads (r_times (m * pq_k c * pq_sub_dim c) r_f32) (concat (map w_f32 (pq_centroids c))) (pq_centroids c)"
      unfolding f(4) [symmetric] by (rule reads_list) (blast intro: reads_f32)
    have "reads (r_then (r_reserve (m * pq_k c * pq_sub_dim c) 4) (\<lambda>_. r_then (r_times (m * pq_k c * pq_sub_dim c) r_f32)
        (\<lambda>cents. r_done (m, Some \<lparr>pq_m = m, pq_k = pq_k c, pq_sub_dim = pq_sub_dim c, pq_centroids = cents\<rparr>))))
      ([] @ concat (map w_f32 (pq_centroids c))) (m, Some c)"
      by (intro reads_then [OF reads_reserve [OF f(5)]] reads_last [OF t]) (simp add: c)
    then have "reads (r_then r_u32 (\<lambda>sub_dim. if usize_limit \<le> m * pq_k c \<or> usize_limit \<le> m * pq_k c * sub_dim then r_reject
           else r_then (r_reserve (m * pq_k c * sub_dim) 4) (\<lambda>_. r_then (r_times (m * pq_k c * sub_dim) r_f32) (\<lambda>cents.
               r_done (m, Some \<lparr>pq_m = m, pq_k = pq_k c, pq_sub_dim = sub_dim, pq_centroids = cents\<rparr>)))))
      (w_u32 (pq_sub_dim c) @ concat (map w_f32 (pq_centroids c))) (m, Some c)"
      using lim lim2 by (intro reads_then [OF reads_u32 [OF f(3)]]) simp
    then show ?thesis unfolding Some option.case
      by (intro reads_then [OF reads_flag]) (simp add: reads_then [OF reads_u32 [OF f(2)]])
  qed
qed

text \<open>The head of a graph the format can hold.\<close>

definition head_fits :: "ann_index \<Rightarrow> bool" where
  "head_fits G \<longleftrightarrow>
     length (ai_ids G) < 2 ^ 32 \<and> (\<forall>i \<in> set (ai_ids G). length i < 2 ^ 32 \<and> utf8_valid i) \<and>
     (case ai_dim G of None \<Rightarrow> True | Some d \<Rightarrow> 0 < d \<and> d < 2 ^ 32) \<and>
     (case ai_entry G of None \<Rightarrow> True | Some (e, hi) \<Rightarrow> hi + 1 < 2 ^ 32) \<and> 2 * ac_m (ai_config G) < 2 ^ 32"

lemma by_id_of_last:
  "by_id_of ids i = (if i \<in> set ids then Some (GREATEST x. x < length ids \<and> ids ! x = i) else None)"
proof (induction ids rule: rev_induct)
  case Nil
  then show ?case by (simp add: by_id_of_def)
next
  case (snoc j ids)
  have eq: "by_id_of (ids @ [j]) = (by_id_of ids)(j \<mapsto> length ids)" by (simp add: by_id_of_def enumerate_append_eq)
  show ?case
  proof (cases "i = j")
    case True
    have "(GREATEST x. x < length (ids @ [j]) \<and> (ids @ [j]) ! x = i) = length ids"
      by (rule Greatest_equality) (simp_all add: True)
    then show ?thesis using True eq by simp
  next
    case False
    then have "(x < length (ids @ [j]) \<and> (ids @ [j]) ! x = i) \<longleftrightarrow> (x < length ids \<and> ids ! x = i)" for x
      by (auto simp: nth_append less_Suc_eq)
    then show ?thesis using False snoc eq by simp
  qed
qed

lemma graph_by_id:
  assumes "graph_ok G"
  shows "by_id_of (ai_ids G) = ai_by_id G"
proof
  fix i
  have g: "\<And>j x. ai_by_id G j = Some x \<Longrightarrow> x < length (ai_ids G) \<and> ai_ids G ! x = j"
    "\<And>x. x < length (ai_ids G) \<Longrightarrow> \<exists>y \<ge> x. ai_by_id G (ai_ids G ! x) = Some y"
    using assms unfolding graph_ok_def by blast+
  show "by_id_of (ai_ids G) i = ai_by_id G i"
  proof (cases "i \<in> set (ai_ids G)")
    case False
    then have "ai_by_id G i = None" using g(1) [of i] by (cases "ai_by_id G i") (auto simp: in_set_conv_nth)
    then show ?thesis using False by (simp add: by_id_of_last)
  next
    case True
    then obtain y where y: "ai_by_id G i = Some y" using g(2) by (auto simp: in_set_conv_nth)
    have "(GREATEST x. x < length (ai_ids G) \<and> ai_ids G ! x = i) = y"
    proof (rule Greatest_equality)
      show "y < length (ai_ids G) \<and> ai_ids G ! y = i" using g(1) [OF y] .
      fix x assume "x < length (ai_ids G) \<and> ai_ids G ! x = i"
      then show "x \<le> y" using g(2) [of x] y by auto
    qed
    then show ?thesis using True y by (simp add: by_id_of_last)
  qed
qed

lemma graph_lengths:
  assumes "graph_ok G" "x < length (ai_ids G)" "length (ai_ids G) < 2 ^ 32" "2 * ac_m (ai_config G) < 2 ^ 32"
    "\<forall>e hi. ai_entry G = Some (e, hi) \<longrightarrow> hi + 1 < 2 ^ 32"
  shows "length (ai_links G ! x) < 2 ^ 32 \<and> (\<forall>ns \<in> set (ai_links G ! x). length ns < 2 ^ 32 \<and> (\<forall>y \<in> set ns. y < 2 ^ 32))"
proof -
  obtain e hi where e: "ai_entry G = Some (e, hi)" using assms(1,2) by (cases "ai_entry G") (auto simp: graph_ok_def)
  then have "length (ai_links G ! x) \<le> hi + 1" using assms(1,2) by (simp add: graph_ok_def)
  then have len: "length (ai_links G ! x) < 2 ^ 32" using assms(5) e le_less_trans by blast
  have lk: "links_ok (ac_m (ai_config G)) (ai_links G)" "x < length (ai_links G)" "length (ai_links G) = length (ai_ids G)"
    using assms(1,2) by (simp_all add: graph_ok_def)
  have "length ns < 2 ^ 32 \<and> (\<forall>y \<in> set ns. y < 2 ^ 32)" if ns: "ns \<in> set (ai_links G ! x)" for ns
  proof -
    obtain l where l: "l < length (ai_links G ! x)" "ns = ai_links G ! x ! l" using ns by (auto simp: in_set_conv_nth)
    have "length ns \<le> link_cap (ac_m (ai_config G)) l" using links_okD(3) [OF lk(1,2) l(1)] l(2) by simp
    also have "\<dots> \<le> 2 * ac_m (ai_config G)" by (simp add: link_cap_def)
    finally have "length ns < 2 ^ 32" using assms(4) by (rule le_less_trans)
    moreover have "\<forall>y \<in> set ns. y < length (ai_links G)" using links_okD(4) [OF lk(1,2) l(1)] l(2) by blast
    then have "\<forall>y \<in> set ns. y < 2 ^ 32" using assms(3) lk(3) less_trans by fastforce
    ultimately show ?thesis by blast
  qed
  then show ?thesis using len by blast
qed

definition head_of :: "ann_index \<Rightarrow> ann_head" where
  "head_of G =
     \<lparr>hd_dim = ai_dim G, hd_rng = ai_rng G, hd_live = ai_live G, hd_entry = ai_entry G, hd_ids = ai_ids G, hd_by_id = ai_by_id G,
      hd_deleted = ai_deleted G, hd_links = ai_links G\<rparr>"

lemma reads_entry:
  "(\<forall>e hi. en = Some (e, hi) \<longrightarrow> e < 2 ^ 32 \<and> hi < 2 ^ 32) \<Longrightarrow>
   reads r_entry (case en of Some (node, layer) \<Rightarrow> w_flag True @ w_u32 node @ w_u32 layer | None \<Rightarrow> w_flag False) en"
proof (cases en)
  case None
  then show ?thesis by (simp add: r_entry_def reads_last [OF reads_flag])
next
  case (Some p)
  moreover assume "\<forall>e hi. en = Some (e, hi) \<longrightarrow> e < 2 ^ 32 \<and> hi < 2 ^ 32"
  ultimately obtain e hi where e: "en = Some (e, hi)" "e < 2 ^ 32" "hi < 2 ^ 32" by (cases p) auto
  show ?thesis unfolding e(1) option.case prod.case r_entry_def
    by (intro reads_then [OF reads_flag]) (simp add: reads_then [OF reads_u32 [OF e(2)]] reads_last [OF reads_u32 [OF e(3)]])
qed

lemma reads_head_fields:
  assumes n: "length (ai_ids G) < 2 ^ 32" "\<forall>i \<in> set (ai_ids G). length i < 2 ^ 32 \<and> utf8_valid i"
    and dim: "case ai_dim G of None \<Rightarrow> True | Some d \<Rightarrow> 0 < d \<and> d < 2 ^ 32" and live: "ai_live G < 2 ^ 64"
    and entry: "\<forall>e hi. ai_entry G = Some (e, hi) \<longrightarrow> e < 2 ^ 32 \<and> hi < 2 ^ 32"
    and len: "length (ai_deleted G) = length (ai_ids G)" "length (ai_links G) = length (ai_ids G)"
    and ls: "\<forall>ls \<in> set (ai_links G). reads r_node_links (w_node_links ls) ls" and by_id: "by_id_of (ai_ids G) = ai_by_id G"
  shows "reads head_read (write_head G) (head_of G)"
proof -
  let ?n = "length (ai_ids G)"
  define raw where "raw = (case ai_dim G of None \<Rightarrow> 0 | Some d \<Rightarrow> d)"
  have raw: "raw < 2 ^ 32" "(if raw = 0 then None else Some raw) = ai_dim G"
    using dim by (auto simp: raw_def split: option.splits)
  have ids: "reads (r_times ?n r_id) (concat (map w_id (ai_ids G))) (ai_ids G)"
    using n(2) by (intro reads_list) (blast intro: reads_id)
  have del: "reads (r_times ?n r_u8) (concat (map w_flag (ai_deleted G))) (map (\<lambda>d. if d then 1 else 0) (ai_deleted G))"
    unfolding len(1) [symmetric] by (rule reads_times) (blast intro: reads_flag)
  have links: "reads (r_times ?n r_node_links) (concat (map w_node_links (ai_links G))) (ai_links G)"
    unfolding len(2) [symmetric] using ls by (rule reads_list)
  have fin: "\<lparr>hd_dim = (if raw = 0 then None else Some raw), hd_rng = word_of_nat (unat (ai_rng G)), hd_live = ai_live G, hd_entry = ai_entry G,
      hd_ids = ai_ids G, hd_by_id = by_id_of (ai_ids G), hd_deleted = map (\<lambda>d. d \<noteq> 0) (map (\<lambda>d. if d then 1 else 0 :: nat) (ai_deleted G)),
      hd_links = ai_links G\<rparr> = head_of G"
    using by_id raw(2) by (simp add: head_of_def o_def)
  have rng: "unat (ai_rng G) < 2 ^ 64" using unsigned_less [of "ai_rng G", where 'a = nat] by simp
  show ?thesis
    unfolding head_read_def write_head_def raw_def [symmetric]
    by (rule reads_then [OF reads_u32 [OF raw(1)]], rule reads_then [OF reads_u64 [OF rng]], rule reads_then [OF reads_u64 [OF live]],
        rule reads_then [OF reads_entry [OF entry]], rule reads_then [OF reads_u32 [OF n(1)]], rule reads_then [OF ids],
        rule reads_then [OF del], rule reads_last [OF links]) (simp only: fin)
qed

lemma reads_head:
  assumes ok: "graph_ok G" and fit: "head_fits G"
  shows "reads head_read (write_head G) (head_of G)"
proof -
  let ?n = "length (ai_ids G)"
  have f: "?n < 2 ^ 32" "\<forall>i \<in> set (ai_ids G). length i < 2 ^ 32 \<and> utf8_valid i" "2 * ac_m (ai_config G) < 2 ^ 32"
    "\<forall>e hi. ai_entry G = Some (e, hi) \<longrightarrow> hi + 1 < 2 ^ 32" "case ai_dim G of None \<Rightarrow> True | Some d \<Rightarrow> 0 < d \<and> d < 2 ^ 32"
    using fit by (auto simp: head_fits_def split: option.splits)
  have g: "length (ai_deleted G) = ?n" "length (ai_links G) = ?n" "ai_live G = unvisited (ai_deleted G)"
    using ok unfolding graph_ok_def by blast+
  have live: "ai_live G < 2 ^ 64" using f(1) g(1,3) length_filter_le [of Not "ai_deleted G"] by (simp add: unvisited_def)
  have entry: "\<forall>e hi. ai_entry G = Some (e, hi) \<longrightarrow> e < 2 ^ 32 \<and> hi < 2 ^ 32"
    using ok f(1,4) by (fastforce simp: graph_ok_def)
  have "reads r_node_links (w_node_links ls) ls" if ls: "ls \<in> set (ai_links G)" for ls
  proof -
    obtain x where x: "x < ?n" "ls = ai_links G ! x" using ls g(2) by (auto simp: in_set_conv_nth)
    show ?thesis unfolding x(2) using graph_lengths [OF ok x(1) f(1,3,4)] by (intro reads_node_links) blast+
  qed
  then show ?thesis using reads_head_fields [OF f(1,2,5) live entry g(1,2) _ graph_by_id [OF ok]] by blast
qed

section \<open>Stores with the same contents\<close>

text \<open>Vectors of the same elements are read alike, wherever the elements are kept.\<close>

lemma mv_with_same:
  assumes a: "mapped_ok n u a" and b: "mapped_ok n u b" and eq: "mv_all a = mv_all b"
  shows "mv_with a x u = mv_with b x u"
proof (cases "x < n")
  case True
  then show ?thesis using mv_with_reads(1) [OF a True] mv_with_reads(1) [OF b True] eq by simp
next
  case False
  have none: "mv_with mv x u = (if u = 0 then Some [] else None)" if mv: "mapped_ok n u mv" for mv :: "'a mapped"
  proof (cases "mv_base mv")
    case None
    have "n * u \<le> x * u" using False by (intro mult_le_mono1) simp
    then have "x * u + u \<le> n * u \<longrightarrow> u = 0" by linarith
    then show ?thesis using None mv by (auto simp: mapped_ok_def mv_all_def mv_with_def slice_def)
  next
    case (Some pb)
    then have p: "0 < u" "mv_base_len mv = pb_total pb * u" "length (pb_file pb) = pb_total pb * u" "length (pb_file pb @ mv_tail mv) = n * u"
      using mv by (auto simp: mapped_ok_def paged_ok_def mv_all_def)
    have "pb_total pb * u \<le> n * u" unfolding p(4) [symmetric] by (simp add: p(3))
    with p(1) have le: "pb_total pb \<le> n" by (simp only: mult_le_cancel2)
    have "length (mv_tail mv) = (n - pb_total pb) * u" using p(3,4) by (simp add: diff_mult_distrib)
    moreover have "(n - pb_total pb) * u \<le> (x - pb_total pb) * u" using False by (intro mult_le_mono1) simp
    ultimately have "\<not> (x - pb_total pb) * u + u \<le> length (mv_tail mv)" using p(1) by linarith
    then show ?thesis using Some p(1,2) le False by (simp add: mv_with_def slice_def)
  qed
  show ?thesis unfolding none [OF a] none [OF b] ..
qed

definition store_like :: "vstore \<Rightarrow> vstore \<Rightarrow> bool" where
  "store_like s s' \<longleftrightarrow>
     (case (s, s') of
        (SFull a, SFull b) \<Rightarrow> mv_all a = mv_all b
      | (SSq8 a ps, SSq8 b qs) \<Rightarrow> mv_all a = mv_all b \<and> ps = qs
      | (SBq a, SBq b) \<Rightarrow> mv_all a = mv_all b
      | (SPq ca wa a m, SPq cb wb b k) \<Rightarrow> ca = cb \<and> wa = wb \<and> mv_all a = mv_all b \<and> m = k
      | _ \<Rightarrow> False)"

lemma store_like_reads:
  assumes "store_ok n d s" "store_ok n d s'" "store_like s s'"
  shows "store_quantizer s' = store_quantizer s" "dot_query s' x d q qsum = dot_query s x d q qsum"
    "materialize s' x d = materialize s x d"
proof -
  have "store_quantizer s' = store_quantizer s \<and> dot_query s' x d q qsum = dot_query s x d q qsum \<and> materialize s' x d = materialize s x d"
  proof (cases s)
    case (SFull a)
    then obtain b where "s' = SFull b" "mv_all a = mv_all b" using assms(3) by (cases s') (simp_all add: store_like_def)
    then show ?thesis using SFull assms(1,2) mv_with_same [of n d a b x]
      by (simp add: store_ok_def store_quantizer_def dot_query_def materialize_def)
  next
    case (SSq8 a ps)
    then obtain b where "s' = SSq8 b ps" "mv_all a = mv_all b" using assms(3) by (cases s') (simp_all add: store_like_def)
    then show ?thesis using SSq8 assms(1,2) mv_with_same [of n d a b x]
      by (simp add: store_ok_def store_quantizer_def dot_query_def materialize_def)
  next
    case (SBq a)
    then obtain b where "s' = SBq b" "mv_all a = mv_all b" using assms(3) by (cases s') (simp_all add: store_like_def)
    then show ?thesis using SBq assms(1,2) mv_with_same [of n "bq_bytes d" a b x]
      by (simp add: store_ok_def store_quantizer_def dot_query_def materialize_def)
  next
    case (SPq cb w a m)
    then obtain b where "s' = SPq cb w b m" "mv_all a = mv_all b" using assms(3) by (cases s') (simp_all add: store_like_def)
    then show ?thesis using SPq assms(1,2) mv_with_same [of n m a b x]
      by (cases cb) (simp_all add: store_ok_def store_quantizer_def dot_query_def materialize_def)
  qed
  then show "store_quantizer s' = store_quantizer s" "dot_query s' x d q qsum = dot_query s x d q qsum"
    "materialize s' x d = materialize s x d" by blast+
qed

lemma greedy_loop_store: "greedy_loop (G\<lparr>ai_store := s\<rparr>) dst layer cur d = greedy_loop G dst layer cur d"
proof (induction G dst layer cur d rule: greedy_loop.induct)
  case (1 G dst layer cur d)
  have n: "neighbours (G\<lparr>ai_store := s\<rparr>) layer cur = neighbours G layer cur" by (simp add: neighbours_def)
  show ?case
    unfolding greedy_loop.simps [of "G\<lparr>ai_store := s\<rparr>" dst layer cur d] greedy_loop.simps [of G dst layer cur d] n
    using "1.IH" by (auto split: option.splits)
qed

lemma beam_loop_store: "beam_loop (G\<lparr>ai_store := s\<rparr>) dst adm layer ef st = beam_loop G dst adm layer ef st"
proof (induction G dst adm layer ef st rule: beam_loop.induct)
  case (1 G dst adm layer ef vis cand res)
  have n: "neighbours (G\<lparr>ai_store := s\<rparr>) layer node = neighbours G layer node" for node by (simp add: neighbours_def)
  show ?case
    unfolding beam_loop.simps [of "G\<lparr>ai_store := s\<rparr>" dst adm layer ef vis cand res] beam_loop.simps [of G dst adm layer ef vis cand res] n
    using "1.IH" by (auto split: option.splits)
qed

lemma search_store:
  assumes "dist_to (G\<lparr>ai_store := s\<rparr>) = dist_to G"
  shows "ann_search (G\<lparr>ai_store := s\<rparr>) q k ef = ann_search G q k ef"
    "ann_search_filtered (G\<lparr>ai_store := s\<rparr>) q k ef allow = ann_search_filtered G q k ef allow"
proof -
  have "greedy_loop (G\<lparr>ai_store := s\<rparr>) = greedy_loop G" by (intro ext) (rule greedy_loop_store)
  then have "greedy_at (G\<lparr>ai_store := s\<rparr>) = greedy_at G" by (intro ext) (simp add: greedy_at_def)
  then have d: "descend (G\<lparr>ai_store := s\<rparr>) = descend G" by (intro ext) (simp only: descend_def)
  have "beam_loop (G\<lparr>ai_store := s\<rparr>) = beam_loop G" by (intro ext) (rule beam_loop_store)
  moreover have "admits (G\<lparr>ai_store := s\<rparr>) = admits G" by (intro ext) (simp add: admits_def)
  ultimately have b: "beam_admit (G\<lparr>ai_store := s\<rparr>) = beam_admit G" by (intro ext) (simp add: beam_admit_def Let_def)
  have f: "ai_entry (G\<lparr>ai_store := s\<rparr>) = ai_entry G" "ai_dim (G\<lparr>ai_store := s\<rparr>) = ai_dim G"
    "ai_config (G\<lparr>ai_store := s\<rparr>) = ai_config G" "ai_ids (G\<lparr>ai_store := s\<rparr>) = ai_ids G" by simp_all
  have h: "ann_hits (G\<lparr>ai_store := s\<rparr>) = ann_hits G" by (simp add: fun_eq_iff ann_hits_def)
  show "ann_search (G\<lparr>ai_store := s\<rparr>) q k ef = ann_search G q k ef"
    "ann_search_filtered (G\<lparr>ai_store := s\<rparr>) q k ef allow = ann_search_filtered G q k ef allow"
    unfolding ann_search_def ann_search_filtered_def beam_def assms d b h f by simp_all
qed

text \<open>A graph over another store of the same contents.\<close>

lemma graph_with_store:
  assumes ok: "graph_ok G" and d: "ai_dim G = Some d" and s: "store_ok (length (ai_ids G)) d s" "store_like (ai_store G) s"
  shows "graph_ok (G\<lparr>ai_store := s\<rparr>)" "ann_map (G\<lparr>ai_store := s\<rparr>) = ann_map G"
    "ann_search (G\<lparr>ai_store := s\<rparr>) q k ef = ann_search G q k ef"
    "ann_search_filtered (G\<lparr>ai_store := s\<rparr>) q k ef allow = ann_search_filtered G q k ef allow"
proof -
  have st: "store_ok (length (ai_ids G)) d (ai_store G)" "store_quantizer (ai_store G) = ac_quantizer (ai_config G)"
    using ok d by (simp_all add: graph_ok_def)
  note r = store_like_reads [OF st(1) s]
  show "graph_ok (G\<lparr>ai_store := s\<rparr>)" using ok d s(1) st(2) r(1) by (cases "ai_entry G") (auto simp: graph_ok_def)
  show "ann_map (G\<lparr>ai_store := s\<rparr>) = ann_map G" using d r(3) by (simp add: fun_eq_iff ann_map_def split: option.splits)
  have "dist_to (G\<lparr>ai_store := s\<rparr>) = dist_to G" using d r(2) by (simp add: fun_eq_iff dist_to_def)
  then show "ann_search (G\<lparr>ai_store := s\<rparr>) q k ef = ann_search G q k ef"
    "ann_search_filtered (G\<lparr>ai_store := s\<rparr>) q k ef allow = ann_search_filtered G q k ef allow" by (rule search_store)+
qed

section \<open>Round trips\<close>

definition ram_store :: "vstore \<Rightarrow> vstore" where
  "ram_store s =
     (case s of
        SFull v \<Rightarrow> SFull (ram_vec (mv_all v)) | SSq8 codes ps \<Rightarrow> SSq8 (ram_vec (mv_all codes)) ps
      | SBq bits \<Rightarrow> SBq (ram_vec (mv_all bits)) | SPq cb w codes m \<Rightarrow> SPq cb w (ram_vec (mv_all codes)) m)"

lemma ram_vec_simps [simp]: "mv_all (ram_vec xs) = xs" "mv_base (ram_vec xs) = None" "mv_len (ram_vec xs) = length xs"
  "mapped_ok n u (ram_vec xs) \<longleftrightarrow> length xs = n * u"
  by (auto simp: ram_vec_def in_ram_def mv_all_def mv_len_def mapped_ok_def)

lemma mv_len_all: "mapped_ok n u mv \<Longrightarrow> mv_len mv = length (mv_all mv)"
  by (auto simp: mapped_ok_def mv_len_def mv_all_def paged_ok_def split: option.splits)

lemma mapped_length: "mapped_ok n u mv \<Longrightarrow> length (mv_all mv) = n * u"
  by (simp add: mapped_ok_def)

lemma ram_store_ok: "store_ok n d s \<Longrightarrow> store_ok n d (ram_store s)" "store_like s (ram_store s)"
proof -
  show "store_ok n d s \<Longrightarrow> store_ok n d (ram_store s)"
    by (cases s) (auto simp: store_ok_def ram_store_def split: option.splits dest: mapped_length)
  show "store_like s (ram_store s)" by (cases s) (simp_all add: store_like_def ram_store_def)
qed

text \<open>A graph the format can hold: no warm-up is pending, and the vectors fit an allocation.\<close>

definition blob_fits :: "ann_index \<Rightarrow> bool" where
  "blob_fits G \<longleftrightarrow>
     head_fits G \<and> length (ai_ids G) * (case ai_dim G of None \<Rightarrow> 0 | Some d \<Rightarrow> d) * 4 \<le> isize_max \<and>
     (case ai_store G of SPq cb w codes m \<Rightarrow> pq_fits m cb \<and> w = [] | _ \<Rightarrow> True)"

lemma codes_of_bytes [simp]: "codes_of (code_bytes mv) = mv_all mv"
proof -
  have "of_nat (byte_val (char_of (unat c))) = c" for c :: "8 word"
  proof -
    have "unat c < 256" using unsigned_less [of c, where 'a = nat] by simp
    then show ?thesis by (simp add: byte_val_def)
  qed
  then show ?thesis by (simp add: codes_of_def code_bytes_def o_def)
qed

lemma reads_codes:
  assumes "mapped_ok n u mv" "n * u < 2 ^ 64"
  shows "reads r_codes (w_u64 (mv_len mv) @ code_bytes mv) (ram_vec (mv_all mv))"
  unfolding r_codes_def
proof (rule reads_then [OF reads_u64])
  have l: "mv_len mv = length (mv_all mv)" "length (mv_all mv) = n * u" using mv_len_all mapped_length assms(1) by blast+
  then show "mv_len mv < 2 ^ 64" using assms(2) by simp
  have "length (code_bytes mv) = mv_len mv" using l(1) by (simp add: code_bytes_def)
  then show "reads (r_then (r_take (mv_len mv)) (\<lambda>b. r_done (ram_vec (codes_of b)))) (code_bytes mv) (ram_vec (mv_all mv))"
    by (rule reads_last [OF reads_take]) simp
qed

definition store_bytes_of :: "vstore \<Rightarrow> bytes" where
  "store_bytes_of s =
     (case s of
        SFull v \<Rightarrow> w_tag 0 @ w_u64 (mv_len v) @ float_bytes v
      | SSq8 codes params \<Rightarrow> w_tag 1 @ (w_u64 (mv_len codes) @ code_bytes codes) @ write_params params
      | SBq bits \<Rightarrow> w_tag 2 @ w_u64 (mv_len bits) @ code_bytes bits
      | SPq cb warmup codes m \<Rightarrow> w_tag 3 @ write_pq m cb @ w_u64 (mv_len codes) @ code_bytes codes)"

lemma to_bytes_eq: "to_bytes G = blob_magic @ w_tag 1 @ write_head G @ store_bytes_of (ai_store G)"
  by (simp add: to_bytes_def store_bytes_of_def split: vstore.splits)

lemma reads_store:
  assumes ok: "store_ok n d s" and n: "n < 2 ^ 32" "n * d * 4 \<le> isize_max" "0 < n \<longrightarrow> 0 < d" "d < 2 ^ 32"
    and pq: "case s of SPq cb w codes m \<Rightarrow> pq_fits m cb \<and> w = [] | _ \<Rightarrow> True"
  shows "reads (r_store n) (store_bytes_of s) (ram_store s)"
proof -
  have small: "n * d < 2 ^ 64" using n(2) by (simp add: isize_max_def)
  show ?thesis
  proof (cases s)
    case (SFull v)
    have m: "mapped_ok n d v" using ok SFull by (simp add: store_ok_def)
    note l = mv_len_all [OF m] mapped_length [OF m]
    have t: "reads (r_times (mv_len v) r_f32) (float_bytes v) (mv_all v)"
      unfolding l(1) float_bytes_def by (rule reads_list) (blast intro: reads_f32)
    have "reads (r_then (r_reserve (mv_len v) 4) (\<lambda>_. r_then (r_times (mv_len v) r_f32) (\<lambda>xs. r_done (SFull (ram_vec xs)))))
        ([] @ float_bytes v) (ram_store s)"
      by (rule reads_then [OF reads_reserve], use n(2) l in simp, rule reads_last [OF t]) (simp add: ram_store_def SFull)
    then have "reads (r_then r_u64 (\<lambda>len. r_then (r_reserve len 4) (\<lambda>_. r_then (r_times len r_f32) (\<lambda>xs. r_done (SFull (ram_vec xs))))))
        (w_u64 (mv_len v) @ float_bytes v) (ram_store s)"
      using small l by (intro reads_then [OF reads_u64]) simp_all
    then show ?thesis unfolding r_store_def store_bytes_of_def SFull vstore.case
      by (intro reads_then [OF reads_tag]) simp_all
  next
    case (SSq8 codes ps)
    have m: "mapped_ok n d codes" "length ps < 2 ^ 32" using ok SSq8 n(1) by (simp_all add: store_ok_def)
    have "reads (r_then r_codes (\<lambda>codes. r_then read_params (\<lambda>ps. r_done (SSq8 codes ps))))
        ((w_u64 (mv_len codes) @ code_bytes codes) @ write_params ps) (ram_store s)"
      by (rule reads_then [OF reads_codes [OF m(1) small]], rule reads_last [OF reads_params [OF m(2)]]) (simp add: ram_store_def SSq8)
    then show ?thesis unfolding r_store_def store_bytes_of_def SSq8 vstore.case
      by (intro reads_then [OF reads_tag]) simp_all
  next
    case (SBq bits)
    have m: "mapped_ok n (bq_bytes d) bits" using ok SBq by (simp add: store_ok_def)
    have "bq_bytes d < 2 ^ 32" using n(4) by (simp add: bq_bytes_def)
    then have "n * bq_bytes d < 2 ^ 32 * 2 ^ 32" using n(1) by (intro mult_strict_mono) simp_all
    then have "reads (r_then r_codes (\<lambda>bits. r_done (SBq bits))) (w_u64 (mv_len bits) @ code_bytes bits) (ram_store s)"
      by (intro reads_last [OF reads_codes [OF m]]) (simp_all add: ram_store_def SBq)
    then show ?thesis unfolding r_store_def store_bytes_of_def SBq vstore.case
      by (intro reads_then [OF reads_tag]) simp_all
  next
    case (SPq cb w codes m)
    have f: "pq_fits m cb" "w = []" using pq by (simp_all add: SPq)
    have "\<exists>k. mapped_ok k m codes \<and> k \<le> n \<and> (0 < n \<longrightarrow> cb \<noteq> None \<and> k = n)"
    proof (cases cb)
      case None
      then have "n * d = 0" "mapped_ok 0 m codes" using ok f(2) by (simp_all add: SPq store_ok_def)
      then show ?thesis using n(3) by (intro exI [of _ 0]) auto
    qed (use ok in \<open>simp add: SPq store_ok_def exI [of _ n]\<close>)
    then obtain k where k: "mapped_ok k m codes" "k \<le> n" "0 < n \<longrightarrow> cb \<noteq> None \<and> k = n" by blast
    have "m < 2 ^ 32" using f(1) by (simp add: pq_fits_def)
    then have sm: "k * m < 2 ^ 32 * 2 ^ 32" using n(1) k(2) by (intro mult_strict_mono) simp_all
    have len: "length (mv_all codes) = k * m" by (rule mapped_length [OF k(1)])
    have "reads (r_then r_codes (\<lambda>codes. if 0 < n \<and> (cb = None \<or> mv_len codes \<noteq> n * m) then r_reject else r_done (SPq cb [] codes m)))
        (w_u64 (mv_len codes) @ code_bytes codes) (ram_store s)"
      using sm k(3) by (intro reads_last [OF reads_codes [OF k(1)]]) (auto simp: len ram_store_def SPq f(2))
    then have "reads (r_then read_pq (\<lambda>(m, cb). r_then r_codes (\<lambda>codes.
           if 0 < n \<and> (cb = None \<or> mv_len codes \<noteq> n * m) then r_reject else r_done (SPq cb [] codes m))))
        (write_pq m cb @ w_u64 (mv_len codes) @ code_bytes codes) (ram_store s)"
      by (intro reads_then [OF reads_pq [OF f(1)]]) simp
    then show ?thesis unfolding r_store_def store_bytes_of_def SPq vstore.case
      by (intro reads_then [OF reads_tag]) simp_all
  qed
qed

section \<open>The persisted graph\<close>

text \<open>A graph that answers as the one it was written from.\<close>

definition restored :: "ann_index \<Rightarrow> ann_index \<Rightarrow> bool" where
  "restored G G' \<longleftrightarrow>
     graph_ok G' \<and> ann_map G' = ann_map G \<and> (\<forall>q k ef. ann_search G' q k ef = ann_search G q k ef) \<and>
     (\<forall>q k ef allow. ann_search_filtered G' q k ef allow = ann_search_filtered G q k ef allow)"

lemma into_index_head: "into_index (head_of G) (ai_config G) s = G\<lparr>ai_store := s\<rparr>"
  by (simp add: into_index_def head_of_def)

lemma reads_magic: "length magic = 4 \<Longrightarrow> reads (r_magic magic) (magic @ w_tag 1) ()"
  unfolding r_magic_def by (rule reads_then [OF reads_take]) (simp_all add: reads_last [OF reads_tag])

lemma graph_dims:
  assumes ok: "graph_ok G" and fit: "blob_fits G"
  defines "d \<equiv> (case ai_dim G of None \<Rightarrow> 0 | Some d \<Rightarrow> d)"
  shows "length (ai_ids G) < 2 ^ 32" "length (ai_ids G) * d * 4 \<le> isize_max" "0 < length (ai_ids G) \<longrightarrow> 0 < d" "d < 2 ^ 32"
    "ai_dim G = None \<or> store_ok (length (ai_ids G)) d (ai_store G)"
    "store_quantizer (ai_store G) = ac_quantizer (ai_config G)"
  using ok fit store_empty_ok(2) by (auto simp: d_def blob_fits_def head_fits_def graph_ok_def split: option.splits)

lemma ram_store_empty: "ram_store (store_empty q) = store_empty q"
  by (cases q) (simp_all add: ram_store_def store_empty_def ram_vec_def in_ram_def mv_all_def)

lemma ram_restored:
  assumes ok: "graph_ok G"
  shows "restored G (G\<lparr>ai_store := ram_store (ai_store G)\<rparr>)"
proof (cases "ai_dim G")
  case None
  then have "ram_store (ai_store G) = ai_store G" using ok ram_store_empty by (simp add: graph_ok_def)
  then show ?thesis using ok by (simp add: restored_def)
next
  case (Some d)
  then have "store_ok (length (ai_ids G)) d (ai_store G)" using ok by (simp add: graph_ok_def)
  from graph_with_store [OF ok Some ram_store_ok(1) [OF this] ram_store_ok(2)] show ?thesis by (simp add: restored_def)
qed

lemma reads_graph_store:
  assumes ok: "graph_ok G" and fit: "blob_fits G"
  shows "reads (r_store (length (ai_ids G))) (store_bytes_of (ai_store G)) (ram_store (ai_store G))"
proof -
  note d = graph_dims [OF ok fit]
  have pq: "case ai_store G of SPq cb w codes m \<Rightarrow> pq_fits m cb \<and> w = [] | _ \<Rightarrow> True" using fit by (simp add: blob_fits_def)
  show ?thesis
  proof (cases "ai_dim G")
    case (Some e)
    then show ?thesis using reads_store [OF _ d(1,2,3,4) pq] d(5) by simp
  next
    case None
    then have s: "ai_ids G = []" "ai_store G = store_empty (ac_quantizer (ai_config G))" using ok by (simp_all add: graph_ok_def)
    have z: "(0 :: nat) < 2 ^ 32" "0 * m * 4 \<le> isize_max" "0 < (0 :: nat) \<longrightarrow> 0 < m" for m by simp_all
    show ?thesis
    proof (cases "ac_quantizer (ai_config G)")
      case (QPq m)
      have "reads (r_store 0) (w_tag 3 @ write_pq m None @ w_u64 0 @ code_bytes in_ram) (SPq None [] (ram_vec []) m)"
      proof -
        have f: "pq_fits m None" using pq by (simp add: s(2) QPq store_empty_def)
        have c: "reads r_codes (w_u64 (mv_len (in_ram :: 8 word mapped)) @ code_bytes in_ram) (ram_vec (mv_all in_ram))" by (rule reads_codes [where n = 0 and u = 0]) simp_all
        have "reads (r_then r_codes (\<lambda>codes. if 0 < (0 :: nat) \<and> (None = None \<or> mv_len codes \<noteq> 0 * m) then r_reject else r_done (SPq None [] codes m)))
            (w_u64 (mv_len (in_ram :: 8 word mapped)) @ code_bytes in_ram) (SPq None [] (ram_vec []) m)"
          by (rule reads_last [OF c]) simp
        then have "reads (r_then read_pq (\<lambda>(m, cb). r_then r_codes (\<lambda>codes.
             if 0 < (0 :: nat) \<and> (cb = None \<or> mv_len codes \<noteq> 0 * m) then r_reject else r_done (SPq cb [] codes m))))
            (write_pq m None @ w_u64 (mv_len (in_ram :: 8 word mapped)) @ code_bytes in_ram) (SPq None [] (ram_vec []) m)"
          by (intro reads_then [OF reads_pq [OF f]]) simp
        then show ?thesis unfolding r_store_def by (intro reads_then [OF reads_tag]) (simp_all add: mv_len_def in_ram_def)
      qed
      then show ?thesis
        by (simp add: s QPq store_empty_def store_bytes_of_def ram_store_def mv_len_def in_ram_def mv_all_def)
    qed (use reads_store [OF store_empty_ok(1) z(1,2,3), of "ac_quantizer (ai_config G)" 0] s in \<open>simp_all add: dim_ok_def store_empty_def\<close>)
  qed
qed

lemma blob_round_trip:
  assumes ok: "graph_ok G" and fit: "blob_fits G"
  shows "from_bytes (to_bytes G) (ai_config G) = Loaded (G\<lparr>ai_store := ram_store (ai_store G)\<rparr>)"
    "strict_prefix p (to_bytes G) \<Longrightarrow> from_bytes p config = Rejected"
proof -
  have hf: "head_fits G" using fit by (simp add: blob_fits_def)
  have ids: "length (hd_ids (head_of G)) = length (ai_ids G)" by (simp add: head_of_def)
  have r: "reads (r_then (r_magic blob_magic) (\<lambda>_. r_then head_read (\<lambda>h. r_then (r_store (length (hd_ids h))) (\<lambda>s. r_done (h, s)))))
      ((blob_magic @ w_tag 1) @ write_head G @ store_bytes_of (ai_store G)) (head_of G, ram_store (ai_store G))"
    by (rule reads_then [OF reads_magic], simp add: blob_magic_def, rule reads_then [OF reads_head [OF ok hf]],
        rule reads_last [OF reads_graph_store [OF ok fit, folded ids]]) simp
  have "store_quantizer (ram_store (ai_store G)) = store_quantizer (ai_store G)"
    by (cases "ai_store G") (simp_all add: ram_store_def store_quantizer_def)
  then show "from_bytes (to_bytes G) (ai_config G) = Loaded (G\<lparr>ai_store := ram_store (ai_store G)\<rparr>)"
    using readsD(1) [OF r, of "[]"] graph_dims(6) [OF ok fit] by (simp add: from_bytes_def to_bytes_eq into_index_head)
  show "strict_prefix p (to_bytes G) \<Longrightarrow> from_bytes p config = Rejected"
    using readsD(2) [OF r, of p] by (simp add: from_bytes_def to_bytes_eq)
qed

text \<open>The structure blob and its side data.\<close>

definition side_bytes :: "vstore \<Rightarrow> bytes" where
  "side_bytes s =
     (case s of
        SFull v \<Rightarrow> w_tag 0 | SSq8 codes params \<Rightarrow> w_tag 1 @ write_params params | SBq bits \<Rightarrow> w_tag 2
      | SPq cb warmup codes m \<Rightarrow> w_tag 3 @ write_pq m cb)"

definition side_of :: "vstore \<Rightarrow> quantizer \<times> sq_params list \<times> pq_codebook option" where
  "side_of s =
     (store_quantizer s, (case s of SSq8 codes params \<Rightarrow> params | _ \<Rightarrow> []), (case s of SPq cb w codes m \<Rightarrow> cb | _ \<Rightarrow> None))"

lemma reads_side:
  assumes "case s of SSq8 codes ps \<Rightarrow> length ps < 2 ^ 32 | SPq cb w codes m \<Rightarrow> pq_fits m cb | _ \<Rightarrow> True"
  shows "reads r_side (side_bytes s) (side_of s)"
proof (cases s)
  case (SFull v)
  then show ?thesis by (simp add: r_side_def side_bytes_def side_of_def store_quantizer_def reads_last [OF reads_tag])
next
  case (SBq v)
  then show ?thesis by (simp add: r_side_def side_bytes_def side_of_def store_quantizer_def reads_last [OF reads_tag])
next
  case (SSq8 codes ps)
  then have "reads read_params (write_params ps) ps" using assms by (intro reads_params) simp
  then have "reads (r_then read_params (\<lambda>ps. r_done (QSq8, ps, None))) (write_params ps) (side_of s)"
    by (rule reads_last) (simp add: SSq8 side_of_def store_quantizer_def)
  then show ?thesis unfolding r_side_def side_bytes_def SSq8 vstore.case by (intro reads_then [OF reads_tag]) simp_all
next
  case (SPq cb w codes m)
  then have "reads read_pq (write_pq m cb) (m, cb)" using assms by (intro reads_pq) simp
  then have "reads (r_then read_pq (\<lambda>(m, cb). r_done (QPq m, [], cb))) (write_pq m cb) (side_of s)"
    by (rule reads_last) (simp add: SPq side_of_def store_quantizer_def)
  then show ?thesis unfolding r_side_def side_bytes_def SPq vstore.case by (intro reads_then [OF reads_tag]) simp_all
qed

lemma paged_vec_ok:
  assumes "0 < u" "length xs = n * u"
  shows "mapped_ok n u (paged_vec (fst (paged_new xs u n budget e)) (n * u))"
    "mv_all (paged_vec (fst (paged_new xs u n budget e)) (n * u)) = xs"
  using assms by (simp_all add: mapped_ok_def paged_vec_def paged_new_def paged_ok_def mv_all_def Let_def)

lemma float_bytes_decode: "decode_vec (float_bytes v) = mv_all v" "length (float_bytes v) = length (mv_all v) * 4"
proof -
  have "float_bytes v = encode_vec (mv_all v)" by (simp add: float_bytes_def encode_vec_def)
  then show "decode_vec (float_bytes v) = mv_all v" by (simp add: decode_encode_vec)
  show "length (float_bytes v) = length (mv_all v) * 4"
    by (simp add: float_bytes_def length_concat o_def sum_list_triv)
qed

lemma paged_store_ok:
  assumes ok: "store_ok n d s" and n: "0 < n" "0 < d" and q: "q = store_quantizer s"
    and pq: "case s of SPq cb w codes m \<Rightarrow> w = [] | _ \<Rightarrow> True"
    and fl: "vecs = write_vectors G" "ai_store G = s" and side: "side_of s = (q, ps, cb)"
  shows "\<exists>s'. paged_store q ps cb vecs (file_unit q d) n budget = Some s' \<and> store_ok n d s' \<and> store_like s s' \<and>
    length vecs = n * file_unit q d * elem_bytes q"
proof (cases s)
  case (SFull v)
  then have m: "length (mv_all v) = n * d" using ok mapped_length by (auto simp: store_ok_def)
  then show ?thesis using SFull q fl side paged_vec_ok [OF n(2) m] float_bytes_decode
    by (simp add: store_quantizer_def paged_store_def paged_floats_def file_unit_def elem_bytes_def write_vectors_def store_ok_def store_like_def)
next
  case (SSq8 codes params)
  then have m: "length (mv_all codes) = n * d" "length params = n" using ok mapped_length by (auto simp: store_ok_def)
  then show ?thesis using SSq8 q fl side paged_vec_ok [OF n(2) m(1)]
    by (simp add: store_quantizer_def paged_store_def paged_codes_def file_unit_def elem_bytes_def write_vectors_def store_ok_def
        store_like_def side_of_def) (simp add: code_bytes_def)
next
  case (SBq bits)
  then have m: "length (mv_all bits) = n * bq_bytes d" using ok mapped_length by (auto simp: store_ok_def)
  have u: "0 < bq_bytes d" using n(2) by (simp add: bq_bytes_def)
  then show ?thesis using SBq q fl paged_vec_ok [OF u m]
    by (simp add: store_quantizer_def paged_store_def paged_codes_def file_unit_def elem_bytes_def write_vectors_def store_ok_def
        store_like_def) (simp add: code_bytes_def m)
next
  case (SPq c w codes m)
  have "w = []" using pq by (simp add: SPq)
  then obtain c' where c: "c = Some c'" using ok n by (cases c) (auto simp: SPq store_ok_def)
  then have s: "s = SPq (Some c') [] codes m" "cb = Some c'" using side \<open>w = []\<close> by (simp_all add: SPq side_of_def)
  have k: "length (mv_all codes) = n * m" "0 < m" using ok n(2) mapped_length by (auto simp: s(1) store_ok_def intro: gr0I)
  then show ?thesis using q fl ok paged_vec_ok [OF k(2,1)] unfolding s
    by (simp add: store_quantizer_def paged_store_def paged_codes_def file_unit_def elem_bytes_def write_vectors_def store_ok_def
        store_like_def) (simp add: code_bytes_def)
qed

lemma paged_round_trip:
  assumes ok: "graph_ok G" and fit: "blob_fits G" and ne: "ai_ids G \<noteq> []"
  shows "\<exists>s. from_paged (to_structure_bytes G) (write_vectors G) (ai_config G) budget = Loaded (G\<lparr>ai_store := s\<rparr>) \<and>
      restored G (G\<lparr>ai_store := s\<rparr>)"
    "strict_prefix p (to_structure_bytes G) \<Longrightarrow> from_paged p vectors config budget = Rejected"
    "length vectors \<noteq> length (write_vectors G) \<Longrightarrow> from_paged (to_structure_bytes G) vectors (ai_config G) budget = Rejected"
proof -
  let ?n = "length (ai_ids G)" and ?q = "store_quantizer (ai_store G)"
  have hf: "head_fits G" using fit by (simp add: blob_fits_def)
  note g = graph_dims [OF ok fit]
  obtain d where d: "ai_dim G = Some d" using ok ne by (cases "ai_dim G") (auto simp: graph_ok_def)
  have n: "0 < ?n" "0 < d" "d < 2 ^ 32" "?n * d * 4 \<le> isize_max" using ne g(2,3,4) d by simp_all
  have st: "store_ok ?n d (ai_store G)" using g(5) d by simp
  obtain ps cb where side: "side_of (ai_store G) = (?q, ps, cb)" by (simp add: side_of_def)
  have pq: "case ai_store G of SPq cb w codes m \<Rightarrow> pq_fits m cb \<and> w = [] | _ \<Rightarrow> True" using fit by (simp add: blob_fits_def)
  have "case ai_store G of SSq8 codes ps \<Rightarrow> length ps < 2 ^ 32 | SPq cb w codes m \<Rightarrow> pq_fits m cb | _ \<Rightarrow> True"
    using st pq g(1) by (cases "ai_store G") (simp_all add: store_ok_def)
  note rs = reads_side [OF this]
  have eq: "to_structure_bytes G = (structure_magic @ w_tag 1) @ write_head G @ side_bytes (ai_store G)"
    by (simp add: to_structure_bytes_def side_bytes_def)
  have r: "reads (r_then (r_magic structure_magic) (\<lambda>_. r_then head_read (\<lambda>h. r_then r_side (\<lambda>s. r_done (h, s)))))
      (to_structure_bytes G) (head_of G, ?q, ps, cb)"
    unfolding eq
    by (rule reads_then [OF reads_magic], simp add: structure_magic_def, rule reads_then [OF reads_head [OF ok hf]], rule reads_last [OF rs])
      (simp add: side)
  have "case ai_store G of SPq cb w codes m \<Rightarrow> w = [] | _ \<Rightarrow> True" using pq by (cases "ai_store G") simp_all
  from paged_store_ok [OF st n(1,2) refl this refl refl side] obtain s where
    s: "paged_store ?q ps cb (write_vectors G) (file_unit ?q d) ?n budget = Some s" "store_ok ?n d s" "store_like (ai_store G) s"
    and len: "length (write_vectors G) = ?n * file_unit ?q d * elem_bytes ?q" by blast
  have "isize_max < usize_limit" by (simp add: isize_max_def usize_limit_def)
  then have lim: "?n * d * 4 < usize_limit" "?n * d < usize_limit" using n(4) by linarith+
  have "?n * file_unit ?q d * elem_bytes ?q < usize_limit"
  proof (cases "ai_store G")
    case (SBq bits)
    have "bq_bytes d < 2 ^ 32" using n(3) by (simp add: bq_bytes_def)
    then have "?n * bq_bytes d < 2 ^ 32 * 2 ^ 32" using g(1) by (intro mult_strict_mono) simp_all
    then show ?thesis by (simp add: SBq store_quantizer_def file_unit_def elem_bytes_def usize_limit_def)
  next
    case (SPq c w codes m)
    then have "m < 2 ^ 32" using pq by (simp add: pq_fits_def)
    then have "?n * m < 2 ^ 32 * 2 ^ 32" using g(1) by (intro mult_strict_mono) simp_all
    then show ?thesis by (simp add: SPq store_quantizer_def file_unit_def elem_bytes_def usize_limit_def)
  qed (use lim in \<open>simp_all add: store_quantizer_def file_unit_def elem_bytes_def\<close>)
  then have size: "length (write_vectors G) = (?n * file_unit ?q d * elem_bytes ?q) mod usize_limit" using len by simp
  have ps: "?q = QSq8 \<Longrightarrow> length ps = ?n" using side st by (cases "ai_store G") (simp_all add: side_of_def store_quantizer_def store_ok_def)
  have h: "hd_ids (head_of G) = ai_ids G" "hd_dim (head_of G) = Some d" by (simp_all add: head_of_def d)
  have load: "from_paged (to_structure_bytes G) (write_vectors G) (ai_config G) budget = Loaded (G\<lparr>ai_store := s\<rparr>)"
    using readsD(1) [OF r, of "[]"] g(6) s(1) ne ps size by (simp add: from_paged_def Let_def h into_index_head)
  moreover have "restored G (G\<lparr>ai_store := s\<rparr>)"
    using graph_with_store [OF ok d s(2,3)] by (simp add: restored_def)
  ultimately show "\<exists>s. from_paged (to_structure_bytes G) (write_vectors G) (ai_config G) budget = Loaded (G\<lparr>ai_store := s\<rparr>) \<and>
      restored G (G\<lparr>ai_store := s\<rparr>)" by blast
  show "strict_prefix p (to_structure_bytes G) \<Longrightarrow> from_paged p vectors config budget = Rejected"
    using readsD(2) [OF r, of p] by (simp add: from_paged_def)
  show "length vectors \<noteq> length (write_vectors G) \<Longrightarrow> from_paged (to_structure_bytes G) vectors (ai_config G) budget = Rejected"
    using readsD(1) [OF r, of "[]"] g(6) ne ps size by (simp add: from_paged_def Let_def h)
qed

section \<open>The properties of the format\<close>

text \<open>A graph of one node.\<close>

definition one_node :: ann_index where
  "one_node =
     \<lparr>ai_config = ann_config_default, ai_dim = Some 1, ai_store = SFull (ram_vec [f32_one]), ai_ids = [''a''],
      ai_by_id = [''a'' \<mapsto> 0], ai_deleted = [False], ai_links = [[[]]], ai_entry = Some (0, 0), ai_rng = 1, ai_live = 1\<rparr>"

lemma one_node_ok: "graph_ok one_node" "blob_fits one_node"
proof -
  have "utf8_valid ''a''" by code_simp
  then show "graph_ok one_node" "blob_fits one_node"
    by (simp_all add: one_node_def graph_ok_def ann_config_default_def links_ok_def unvisited_def store_ok_def store_quantizer_def
        blob_fits_def head_fits_def isize_max_def)
qed

text \<open>C8: a graph with its invariant that the format can hold is read back from its blob, and from its structure
  blob and vector file (paged, with any cache budget), as a graph with the invariant, the same map and the same
  answers to every search; every proper prefix of a blob is rejected, and so is a vector file of another size.\<close>

theorem graph_persists:
  assumes ok: "graph_ok G" and fit: "blob_fits G"
  shows "from_bytes (to_bytes G) (ai_config G) = Loaded (G\<lparr>ai_store := ram_store (ai_store G)\<rparr>) \<and>
    restored G (G\<lparr>ai_store := ram_store (ai_store G)\<rparr>) \<and>
    (\<forall>p config. strict_prefix p (to_bytes G) \<longrightarrow> from_bytes p config = Rejected) \<and>
    (ai_ids G \<noteq> [] \<longrightarrow>
       (\<exists>s. from_paged (to_structure_bytes G) (write_vectors G) (ai_config G) budget = Loaded (G\<lparr>ai_store := s\<rparr>) \<and>
          restored G (G\<lparr>ai_store := s\<rparr>)) \<and>
       (\<forall>p vectors config. strict_prefix p (to_structure_bytes G) \<longrightarrow> from_paged p vectors config budget = Rejected) \<and>
       (\<forall>vectors. length vectors \<noteq> length (write_vectors G) \<longrightarrow>
          from_paged (to_structure_bytes G) vectors (ai_config G) budget = Rejected))"
  using blob_round_trip [OF ok fit] ram_restored [OF ok] paged_round_trip [OF ok fit] by blast

theorem graph_persists_witness:
  "from_bytes (to_bytes one_node) ann_config_default = Loaded one_node \<and>
   (\<exists>s. from_paged (to_structure_bytes one_node) (write_vectors one_node) ann_config_default 0 = Loaded (one_node\<lparr>ai_store := s\<rparr>)) \<and>
   from_paged (to_structure_bytes one_node) [] ann_config_default 0 = Rejected"
proof -
  have c: "ai_config one_node = ann_config_default" "ai_ids one_node \<noteq> []" "one_node\<lparr>ai_store := ram_store (ai_store one_node)\<rparr> = one_node"
    by (simp_all add: one_node_def ram_store_def)
  have "length ([] :: bytes) \<noteq> length (write_vectors one_node)" by (simp add: one_node_def write_vectors_def float_bytes_def)
  then show ?thesis using graph_persists [OF one_node_ok, of 0] c(2) unfolding c(1,3) by blast
qed

text \<open>Two malformed blobs: a vector count that no allocation has, and an entry node that is not there.\<close>

definition huge_blob :: bytes where
  "huge_blob = blob_magic @ w_tag 1 @ write_head (ann_new ann_config_default) @ w_tag 0 @ w_u64 (2 ^ 61)"

definition no_entry :: ann_index where
  "no_entry = (ann_new ann_config_default)\<lparr>ai_dim := Some 1, ai_entry := Some (0, 0)\<rparr>"

lemma huge_blob_reads: "from_bytes huge_blob config = Overflowed"
proof -
  let ?G = "ann_new ann_config_default"
  have fit: "head_fits ?G" by (simp add: head_fits_def ann_new_def ann_config_default_def)
  have "r_magic blob_magic ((blob_magic @ w_tag 1) @ rest) = Loaded ((), rest)" for rest
    by (rule readsD(1) [OF reads_magic]) (simp add: blob_magic_def)
  moreover have "head_read (write_head ?G @ rest) = Loaded (head_of ?G, rest)" for rest
    by (rule readsD(1) [OF reads_head [OF graph_new_ok fit]])
  moreover have "r_store n (w_tag 0 @ w_u64 (2 ^ 61)) = Overflowed" for n
    using readsD(1) [OF reads_tag [of 0]] readsD(1) [OF reads_u64 [of "2 ^ 61"], of "[]"]
    by (simp add: r_store_def r_then_def r_reserve_def isize_max_def)
  ultimately show ?thesis by (simp add: from_bytes_def huge_blob_def r_then_def)
qed

lemma no_entry_blob: "from_bytes (to_bytes no_entry) ann_config_default = Loaded no_entry"
proof -
  have h: "reads head_read (write_head no_entry) (head_of no_entry)"
    by (rule reads_head_fields) (simp_all add: no_entry_def ann_new_def by_id_of_def)
  have s: "reads (r_store 0) (store_bytes_of (ai_store no_entry)) (SFull (ram_vec []))"
    using reads_store [of 0 1 "SFull in_ram"] by (simp add: no_entry_def ann_new_def store_empty_def ann_config_default_def store_ok_def ram_store_def)
  have ids: "length (hd_ids (head_of no_entry)) = 0" by (simp add: head_of_def no_entry_def ann_new_def)
  have r: "reads (r_then (r_magic blob_magic) (\<lambda>_. r_then head_read (\<lambda>h. r_then (r_store (length (hd_ids h))) (\<lambda>s. r_done (h, s)))))
      ((blob_magic @ w_tag 1) @ write_head no_entry @ store_bytes_of (ai_store no_entry)) (head_of no_entry, SFull (ram_vec []))"
    by (rule reads_then [OF reads_magic], simp add: blob_magic_def, rule reads_then [OF h], rule reads_last [OF s [folded ids]]) simp
  have "into_index (head_of no_entry) ann_config_default (SFull (ram_vec [])) = no_entry"
    by (simp add: into_index_def head_of_def no_entry_def ann_new_def store_empty_def ann_config_default_def ram_vec_def in_ram_def)
  then show ?thesis
    using readsD(1) [OF r, of "[]"] by (simp add: from_bytes_def to_bytes_eq store_quantizer_def ann_config_default_def)
qed

text \<open>C25: the reader of a blob is not safe on every malformed one, as its comment says it is: a blob with a
  vector count of \<open>2 ^ 61\<close> panics when the count is reserved, and a blob whose entry node is out of range
  is loaded, with a search that panics on it.\<close>

theorem malformed_blob_panics:
  "from_bytes huge_blob config = Overflowed \<and>
   (\<exists>G. from_bytes (to_bytes no_entry) ann_config_default = Loaded G \<and> ann_search G [f32_one] 1 0 = None)"
proof -
  have "ann_search no_entry [f32_one] 1 0 = None"
    by (simp add: ann_search_def no_entry_def ann_new_def ann_config_default_def descend_def beam_def beam_admit_def Let_def)
  then show ?thesis using huge_blob_reads no_entry_blob by blast
qed

end
