(* ===== verification/Records.thy ===== *)
theory Records
  imports ReplicaProps
begin

text \<open>
  The full contract of the write path.  The abstract state is a map from ids to records and the list
  of changes; \<open>record_rows\<close> says which rows a record has in each family, value by value, and
  \<open>records_of\<close> that the database holds exactly those rows, with the vectors, the changefeed, the
  document count, the document frequencies, the token total and the shape census they determine.
  Upserts and removals refine update and deletion of the map.
\<close>

section \<open>The rows of a record\<close>

type_synonym records = "bytes \<rightharpoonup> vector_record"
type_synonym rows = "(bytes \<times> bytes) list"

text \<open>The rows of a record in a family; when a key occurs twice, the last row counts.\<close>

definition record_rows :: "serde \<Rightarrow> (bytes \<Rightarrow> bytes list) \<Rightarrow> bytes list \<Rightarrow> cf \<Rightarrow> vector_record \<Rightarrow> rows" where
  "record_rows S analyze fs c r =
     (let i = vr_id r; tokens = analyze (vr_text r) in
      case c of
        CfTerms \<Rightarrow> map (\<lambda>t. (term_key t i, posting_value (of_nat (count_list tokens t)) (of_nat (length tokens)))) (remdups tokens)
      | CfSparse \<Rightarrow> map (\<lambda>(d, w). (sparse_key d i, le_bytes 4 (unat w))) (sparse_pairs r)
      | CfNvecs \<Rightarrow> map (\<lambda>(n, v). (nvec_key n i, encode_vec v)) (vr_named r)
      | CfMvecs \<Rightarrow> (if (of_nat (length (vr_multi r)) :: 32 word) = 0 then [] else [(i, encode_multi (vr_multi r))])
      | CfColl \<Rightarrow> (case vr_collection r of None \<Rightarrow> [] | Some name \<Rightarrow> [(coll_key name i, [])])
      | CfPidx \<Rightarrow> map (\<lambda>k. (k, [])) (pidx_keys (js_value S) fs (vr_metadata r) i)
      | CfDocs \<Rightarrow> [(i, js_doc S (stored_of analyze r))]
      | CfVecs \<Rightarrow> [(i, encode_vec (vr_embedding r))]
      | _ \<Rightarrow> [])"

definition row_families :: "cf set" where
  "row_families = {CfTerms, CfSparse, CfNvecs, CfMvecs, CfColl, CfPidx, CfDocs, CfVecs}"

text \<open>The families neither an upsert nor a removal writes.\<close>

definition other_families :: "cf set" where
  "other_families = {CfNodes, CfConns, CfTags, CfTrends, CfRels, CfGraph}"

text \<open>The rows a transaction leaves alone: those families, and the blobs that are neither a counter nor
  in \<open>ks\<close>.\<close>

definition untouched :: "bytes set \<Rightarrow> db \<Rightarrow> db \<Rightarrow> bool" where
  "untouched ks db db' \<longleftrightarrow>
     (\<forall>c \<in> other_families. get_cf db' c = get_cf db c) \<and>
     (\<forall>k. k \<notin> {META_DOC_COUNT, META_TOTAL_TOKENS, META_SHAPES, META_FEED_SEQ} \<union> ks \<longrightarrow> get_cf db' CfMeta k = get_cf db CfMeta k)"

definition row_at :: "rows \<Rightarrow> bytes \<Rightarrow> bytes option" where
  "row_at rows k = map_of (rev rows) k"

definition rows_opt :: "(vector_record \<Rightarrow> rows) \<Rightarrow> vector_record option \<Rightarrow> rows" where
  "rows_opt rows n = (case n of None \<Rightarrow> [] | Some r \<Rightarrow> rows r)"

lemma rows_opt_simps [simp]: "rows_opt rows None = []" "rows_opt rows (Some r) = rows r"
  by (simp_all add: rows_opt_def)

definition family_rows :: "(vector_record \<Rightarrow> rows) \<Rightarrow> (bytes \<Rightarrow> bytes option) \<Rightarrow> records \<Rightarrow> bool" where
  "family_rows rows v R \<longleftrightarrow> (\<forall>k x. v k = Some x \<longleftrightarrow> (\<exists>i r. R i = Some r \<and> row_at (rows r) k = Some x))"

definition own_ids :: "records \<Rightarrow> bool" where
  "own_ids R \<longleftrightarrow> (\<forall>i r. R i = Some r \<longrightarrow> vr_id r = i \<and> SEP \<notin> set i)"

lemma row_at_none: "row_at rows k = None \<longleftrightarrow> k \<notin> fst ` set rows"
  by (simp add: row_at_def map_of_eq_None_iff)

lemma row_at_key: "row_at rows k = Some x \<Longrightarrow> k \<in> fst ` set rows"
  using row_at_none [of rows k] by fastforce

lemma own_ids_update: "own_ids R \<Longrightarrow> SEP \<notin> set (vr_id r) \<Longrightarrow> own_ids (R(vr_id r \<mapsto> r))"
  by (auto simp: own_ids_def)

lemma own_ids_delete: "own_ids R \<Longrightarrow> own_ids (R(i := None))"
  by (auto simp: own_ids_def)

section \<open>Families whose keys name their record\<close>

locale row_family =
  fixes rows :: "vector_record \<Rightarrow> rows"
  assumes owned: "k \<in> fst ` set (rows r) \<Longrightarrow> k \<in> fst ` set (rows r') \<Longrightarrow>
    SEP \<notin> set (vr_id r) \<Longrightarrow> SEP \<notin> set (vr_id r') \<Longrightarrow> vr_id r = vr_id r'"
begin

text \<open>What replacing one record does to a family that first loses the old rows and then gains the new.\<close>

lemma replaced:
  assumes fam: "family_rows rows v R" and ids: "own_ids R" "own_ids (R(i := n))"
    and after: "\<And>k. v' k = (case row_at (rows_opt rows n) k of Some x \<Rightarrow> Some x
      | None \<Rightarrow> if k \<in> fst ` set (rows_opt rows (R i)) then None else v k)"
  shows "family_rows rows v' (R(i := n))"
  unfolding family_rows_def
proof (intro allI)
  fix k x
  have same: "j = i" if "R' j = Some r" "own_ids R'" "k \<in> fst ` set (rows r)" "R'' i = Some r'" "own_ids R''" "k \<in> fst ` set (rows r')"
    for j r r' R' R''
    using owned [OF that(3,6)] that(1,2,4,5) by (auto simp: own_ids_def)
  have old: "v k = Some x \<longleftrightarrow> (\<exists>j r. R j = Some r \<and> row_at (rows r) k = Some x)" using fam by (simp add: family_rows_def)
  show "v' k = Some x \<longleftrightarrow> (\<exists>j r. (R(i := n)) j = Some r \<and> row_at (rows r) k = Some x)" (is "?l \<longleftrightarrow> ?r")
  proof (cases "row_at (rows_opt rows n) k")
    case (Some y)
    then obtain r where r: "n = Some r" "row_at (rows r) k = Some y" by (cases n) (auto simp: row_at_def)
    have i: "(R(i := n)) i = Some r" using r(1) by simp
    have "?r \<longleftrightarrow> x = y"
    proof
      assume ?r
      then obtain j r' where j: "(R(i := n)) j = Some r'" "row_at (rows r') k = Some x" by blast
      have "j = i" by (rule same [OF j(1) ids(2) row_at_key [OF j(2)] i ids(2) row_at_key [OF r(2)]])
      then show "x = y" using i j r(2) by simp
    qed (use i r(2) in blast)
    then show ?thesis using Some after [of k] by auto
  next
    case None
    show ?thesis
    proof (cases "k \<in> fst ` set (rows_opt rows (R i))")
      case True
      then obtain r where r: "R i = Some r" "k \<in> fst ` set (rows r)" by (cases "R i") auto
      have "\<not> ?r"
      proof
        assume ?r
        then obtain j r' where j: "(R(i := n)) j = Some r'" "row_at (rows r') k = Some x" by blast
        have "j = i" by (rule same [OF j(1) ids(2) row_at_key [OF j(2)] r(1) ids(1) r(2)])
        then show False using j None by simp
      qed
      then show ?thesis using None True after [of k] by simp
    next
      case False
      have "(\<exists>j r. (R(i := n)) j = Some r \<and> row_at (rows r) k = Some x) \<longleftrightarrow> (\<exists>j r. R j = Some r \<and> row_at (rows r) k = Some x)"
      proof -
        have "(\<exists>r. (R(i := n)) j = Some r \<and> row_at (rows r) k = Some x) \<longleftrightarrow> (\<exists>r. R j = Some r \<and> row_at (rows r) k = Some x)" for j
          using None False row_at_key [of _ k x] by (cases "j = i") auto
        then show ?thesis by blast
      qed
      then show ?thesis using None False after [of k] old by simp
    qed
  qed
qed

end

lemma record_keys:
  "fst ` set (record_rows S analyze fs CfTerms r) = (\<lambda>t. term_key t (vr_id r)) ` set (analyze (vr_text r))"
  "fst ` set (record_rows S analyze fs CfSparse r) = (\<lambda>d. sparse_key d (vr_id r)) ` fst ` set (sparse_pairs r)"
  "fst ` set (record_rows S analyze fs CfNvecs r) = (\<lambda>n. nvec_key n (vr_id r)) ` fst ` set (vr_named r)"
  "fst ` set (record_rows S analyze fs CfColl r) = (\<lambda>n. coll_key n (vr_id r)) ` set_option (vr_collection r)"
  "fst ` set (record_rows S analyze fs CfPidx r) = set (pidx_keys (js_value S) fs (vr_metadata r) (vr_id r))"
  "fst ` set (record_rows S analyze fs CfMvecs r) = (if (of_nat (length (vr_multi r)) :: 32 word) = 0 then {} else {vr_id r})"
  "fst ` set (record_rows S analyze fs CfDocs r) = {vr_id r}" "fst ` set (record_rows S analyze fs CfVecs r) = {vr_id r}"
  by (cases "vr_collection r"; simp add: record_rows_def Let_def image_image case_prod_unfold)+

lemma record_key_form:
  assumes "k \<in> fst ` set (record_rows S analyze fs c r)"
  shows "if c \<in> {CfMvecs, CfDocs, CfVecs} then k = vr_id r else \<exists>p. k = p @ SEP # vr_id r"
proof -
  have "k \<in> pidx_rows (js_value S) fs (vr_id r) (stored_of analyze r) \<Longrightarrow> \<exists>p. k = p @ SEP # vr_id r"
    using rows_end(5) unfolding ends_with_id_def by blast
  then have "k \<in> set (pidx_keys (js_value S) fs (vr_metadata r) (vr_id r)) \<Longrightarrow> \<exists>p. k = p @ SEP # vr_id r"
    using set_pidx_keys [of S fs "stored_of analyze r" "vr_id r"] by simp
  then show ?thesis using assms
    by (cases c) (auto simp: record_keys [unfolded image_image] term_key_def sparse_key_def nvec_key_def coll_key_def compound_def
        record_rows_def Let_def split: if_splits option.splits intro: exI [of _ "_ :: bytes"])
qed

interpretation rf: row_family "record_rows S analyze fs c" for S analyze fs c
proof
  fix k r r'
  assume k: "k \<in> fst ` set (record_rows S analyze fs c r)" "k \<in> fst ` set (record_rows S analyze fs c r')"
    and clean: "SEP \<notin> set (vr_id r)" "SEP \<notin> set (vr_id r')"
  show "vr_id r = vr_id r'"
  proof (cases "c \<in> {CfMvecs, CfDocs, CfVecs}")
    case True
    then show ?thesis using k [THEN record_key_form] by simp
  next
    case False
    then have "\<exists>p. k = p @ SEP # vr_id r" "\<exists>p. k = p @ SEP # vr_id r'" using k [THEN record_key_form] by (simp_all only: if_False)
    then show ?thesis using last_sep_unique clean by metis
  qed
qed

section \<open>What a batch does to a family\<close>

lemma fold_rows:
  "fold (op_effect c k) (map (OpDelete c) ks @ map (\<lambda>(a, b). OpPut c a b) rows) old =
     (case row_at rows k of Some x \<Rightarrow> Some x | None \<Rightarrow> if k \<in> set ks then None else old)"
proof (induction rows rule: rev_induct)
  case Nil
  show ?case by (induction ks arbitrary: old) (auto simp: op_effect_def row_at_def)
next
  case (snoc kv rows)
  then show ?case by (cases kv) (auto simp: op_effect_def row_at_def)
qed

text \<open>Term frequencies are counts.\<close>

lemma map_of_bump: "map_of (bump k d m) t = (if t = k then Some (d + (case map_of m k of None \<Rightarrow> 0 | Some x \<Rightarrow> x)) else map_of m t)"
  by (induction k d m rule: bump.induct) (auto simp: add.commute split: option.split)

lemma map_of_tally: "map_of (tally ts) t = (if t \<in> set ts then Some (of_nat (count_list ts t)) else None)"
proof -
  have "map_of (fold (\<lambda>t. bump t 1) ts m) t = (if t \<in> set ts then Some ((case map_of m t of None \<Rightarrow> 0 | Some x \<Rightarrow> x) + of_nat (count_list ts t)) else map_of m t)"
    for m :: "(bytes \<times> 32 word) list"
    by (induction ts arbitrary: m) (auto simp: map_of_bump count_list_0_iff add_ac split: option.split)
  from this [of "[]"] show ?thesis by (simp add: tally_def)
qed

lemma row_at_distinct: "distinct (map fst rows) \<Longrightarrow> row_at rows k = Some x \<longleftrightarrow> (k, x) \<in> set rows"
  unfolding row_at_def using map_of_eq_Some_iff [of "rev rows" k x] by (simp add: rev_map [symmetric])

lemma option_ext: "(\<And>x. a = Some x \<longleftrightarrow> b = Some x) \<Longrightarrow> a = b"
  by (cases a; cases b) auto

lemma row_at_tally:
  "row_at (map (\<lambda>tf. (term_key (fst tf) i, posting_value (snd tf) n)) (tally ts)) k =
   row_at (map (\<lambda>t. (term_key t i, posting_value (of_nat (count_list ts t)) n)) (remdups ts)) k"
    (is "row_at ?a k = row_at ?b k")
proof -
  have inj: "inj_on (\<lambda>t. term_key t i) A" for A by (rule inj_onI) (simp add: term_key_def compound_def)
  have "map fst ?a = map (\<lambda>t. term_key t i) (map fst (tally ts))" by (simp add: o_def)
  then have da: "distinct (map fst ?a)" using distinct_tally [of ts] inj by (simp only: distinct_map)
  have "map fst ?b = map (\<lambda>t. term_key t i) (remdups ts)" by (simp add: o_def)
  then have db: "distinct (map fst ?b)" using inj by (simp only: distinct_map distinct_remdups)
  have pairs: "(t, f) \<in> set (tally ts) \<longleftrightarrow> t \<in> set ts \<and> f = of_nat (count_list ts t)" for t f
    using map_of_eq_Some_iff [OF distinct_tally [of ts], of t f] by (auto simp: map_of_tally split: if_splits)
  have "set ?a = set ?b"
  proof
    show "set ?a \<subseteq> set ?b" using pairs by force
    show "set ?b \<subseteq> set ?a"
    proof
      fix x assume "x \<in> set ?b"
      then obtain t where "t \<in> set ts" "x = (term_key t i, posting_value (of_nat (count_list ts t)) n)" by auto
      then show "x \<in> set ?a" using pairs [of t "of_nat (count_list ts t)"] by force
    qed
  qed
  then show ?thesis
    by (intro option_ext) (simp only: row_at_distinct [OF da] row_at_distinct [OF db])
qed

text \<open>The keys the deletions of an old record name are the keys of its rows.\<close>

lemma deleted_keys:
  fixes analyze :: "bytes \<Rightarrow> bytes list"
  assumes "\<And>r0. prev = Some r0 \<Longrightarrow> vr_id r0 = i"
  defines "old \<equiv> map_option (stored_of analyze) prev"
  shows "set (map (\<lambda>t. term_key t i) (old_list old (\<lambda>d. analyze (sd_text d)))) = fst ` set (rows_opt (record_rows S analyze fs CfTerms) prev)"
    and "set (map (\<lambda>n. sparse_key n i) (old_list old sd_sparse_dims)) = fst ` set (rows_opt (record_rows S analyze fs CfSparse) prev)"
    and "set (map (\<lambda>n. nvec_key n i) (old_list old sd_named_spaces)) = fst ` set (rows_opt (record_rows S analyze fs CfNvecs) prev)"
    and "set (map (\<lambda>n. coll_key n i) (old_list old (\<lambda>d. case sd_collection d of None \<Rightarrow> [] | Some c \<Rightarrow> [c]))) =
      fst ` set (rows_opt (record_rows S analyze fs CfColl) prev)"
    and "set (old_list old (\<lambda>d. pidx_keys (js_value S) fs (sd_metadata d) i)) = fst ` set (rows_opt (record_rows S analyze fs CfPidx) prev)"
    and "set (old_list old (\<lambda>d. if 0 < sd_multi_len d then [i] else [])) = fst ` set (rows_opt (record_rows S analyze fs CfMvecs) prev)"
    and "fst ` set (rows_opt (record_rows S analyze fs CfDocs) prev) \<subseteq> {i}" "fst ` set (rows_opt (record_rows S analyze fs CfVecs) prev) \<subseteq> {i}"
proof -
  have i: "prev = None \<or> (\<exists>r0. prev = Some r0 \<and> i = vr_id r0)" using assms(1) by (cases prev) simp_all
  show "set (map (\<lambda>t. term_key t i) (old_list old (\<lambda>d. analyze (sd_text d)))) = fst ` set (rows_opt (record_rows S analyze fs CfTerms) prev)"
    "set (map (\<lambda>n. sparse_key n i) (old_list old sd_sparse_dims)) = fst ` set (rows_opt (record_rows S analyze fs CfSparse) prev)"
    "set (map (\<lambda>n. nvec_key n i) (old_list old sd_named_spaces)) = fst ` set (rows_opt (record_rows S analyze fs CfNvecs) prev)"
    "set (map (\<lambda>n. coll_key n i) (old_list old (\<lambda>d. case sd_collection d of None \<Rightarrow> [] | Some c \<Rightarrow> [c]))) =
      fst ` set (rows_opt (record_rows S analyze fs CfColl) prev)"
    "set (old_list old (\<lambda>d. pidx_keys (js_value S) fs (sd_metadata d) i)) = fst ` set (rows_opt (record_rows S analyze fs CfPidx) prev)"
    "set (old_list old (\<lambda>d. if 0 < sd_multi_len d then [i] else [])) = fst ` set (rows_opt (record_rows S analyze fs CfMvecs) prev)"
    unfolding old_def old_list_def using i
    by (elim disjE exE conjE; simp add: record_keys set_opt_list word_gt_0 image_image)+
  show "fst ` set (rows_opt (record_rows S analyze fs CfDocs) prev) \<subseteq> {i}" "fst ` set (rows_opt (record_rows S analyze fs CfVecs) prev) \<subseteq> {i}"
    using i by (elim disjE exE conjE; simp add: record_keys)+
qed

text \<open>An upsert deletes what the old record had and puts what the new one has.\<close>

definition replaces :: "batch \<Rightarrow> cf \<Rightarrow> bytes set \<Rightarrow> rows \<Rightarrow> bool" where
  "replaces b c old new \<longleftrightarrow>
     (\<forall>v k. apply_view b v c k = (case row_at new k of Some x \<Rightarrow> Some x | None \<Rightarrow> if k \<in> old then None else v c k))"

lemma replacesI:
  assumes "on_cf c b = map (OpDelete c) ks @ map (\<lambda>(a, b). OpPut c a b) rows" "row_at rows = row_at new"
    "\<And>k. k \<notin> fst ` set new \<Longrightarrow> k \<in> set ks \<longleftrightarrow> k \<in> old"
  shows "replaces b c old new"
  unfolding replaces_def
proof (intro allI)
  fix v k
  show "apply_view b v c k = (case row_at new k of Some x \<Rightarrow> Some x | None \<Rightarrow> if k \<in> old then None else v c k)"
    using assms(3) [of k] row_at_none [of new k]
    by (simp only: apply_view_on_cf assms(1,2) fold_rows) (auto split: option.split)
qed

lemma puts_pairs: "map (\<lambda>y. OpPut c (f y) (g y)) ys = map (\<lambda>(a, b). OpPut c a b) (map (\<lambda>y. (f y, g y)) ys)"
  by simp

lemma del_map: "map (\<lambda>x. OpDelete c (f x)) xs = map (OpDelete c) (map f xs)"
  by simp

lemma upsert_replaces:
  assumes c: "c \<in> row_families" and prev: "\<And>r0. prev = Some r0 \<Longrightarrow> vr_id r0 = vr_id r"
  shows "replaces (upsert_ops S analyze now fs r (map_option (stored_of analyze) prev) seq) c
    (fst ` set (rows_opt (record_rows S analyze fs c) prev)) (record_rows S analyze fs c r)"
    (is "replaces ?b c (?old c) (?new c)")
proof -
  note ops = upsert_family_ops [where r = r and prev = "map_option (stored_of analyze) prev" and S = S and analyze = analyze
      and now = now and fs = fs and seq = seq]
  note keys = deleted_keys [OF prev, where S = S and analyze = analyze and fs = fs]
  have "replaces ?b CfTerms (?old CfTerms) (?new CfTerms)"
    by (rule replacesI [OF ops(1) [unfolded puts_pairs del_map [where f = "\<lambda>x. term_key x (vr_id r)"]]])
      (simp_all only: keys(1), simp_all add: fun_eq_iff row_at_tally record_rows_def Let_def)
  moreover have "replaces ?b CfSparse (?old CfSparse) (?new CfSparse)"
    by (rule replacesI [OF ops(2) [unfolded puts_pairs del_map [where f = "\<lambda>x. sparse_key x (vr_id r)"]]])
      (simp_all only: keys(2), simp_all add: record_rows_def Let_def case_prod_unfold)
  moreover have "replaces ?b CfNvecs (?old CfNvecs) (?new CfNvecs)"
    by (rule replacesI [OF ops(3) [unfolded puts_pairs del_map [where f = "\<lambda>x. nvec_key x (vr_id r)"]]])
      (simp_all only: keys(3), simp_all add: record_rows_def Let_def case_prod_unfold)
  moreover have "replaces ?b CfColl (?old CfColl) (?new CfColl)"
    by (rule replacesI [OF ops(4) [unfolded puts_pairs del_map [where f = "\<lambda>x. coll_key x (vr_id r)"]]])
      (simp_all only: keys(4), simp_all add: record_rows_def Let_def split: option.split)
  moreover have "replaces ?b CfPidx (?old CfPidx) (?new CfPidx)"
    by (rule replacesI [OF ops(5) [unfolded puts_pairs]])
      (simp_all only: keys(5), simp_all add: record_rows_def Let_def)
  moreover have "replaces ?b CfMvecs (?old CfMvecs) (?new CfMvecs)"
    by (rule replacesI [where ks = "old_list (map_option (stored_of analyze) prev) (\<lambda>d. if 0 < sd_multi_len d then [vr_id r] else [])"
          and rows = "?new CfMvecs"])
      (simp_all only: keys(6), simp_all add: ops(8) record_rows_def Let_def word_neq_0_conv old_list_def split: option.split)
  moreover have "replaces ?b CfDocs (?old CfDocs) (?new CfDocs)"
    by (rule replacesI [where ks = "[]" and rows = "?new CfDocs"])
      (simp add: ops(6) record_rows_def Let_def, simp, use keys(7) in \<open>auto simp only: record_keys list.set\<close>)
  moreover have "replaces ?b CfVecs (?old CfVecs) (?new CfVecs)"
    by (rule replacesI [where ks = "[]" and rows = "?new CfVecs"])
      (simp add: ops(7) record_rows_def Let_def, simp, use keys(8) in \<open>auto simp only: record_keys list.set\<close>)
  ultimately show ?thesis using c unfolding row_families_def by blast
qed

lemma remove_replaces:
  assumes c: "c \<in> row_families" and i: "vr_id r = i"
  shows "replaces (remove_ops S analyze stats fs i (stored_of analyze r) @ [feed_op S now ChRemove i seq]) c
    (fst ` set (record_rows S analyze fs c r)) []"
    (is "replaces ?b c (?old c) []")
proof -
  note ops = remove_family_ops [where i = i and old = "stored_of analyze r" and S = S and analyze = analyze
      and now = now and fs = fs and seq = seq and stats = stats]
  note keys = deleted_keys [where prev = "Some r" and i = i and S = S and analyze = analyze and fs = fs, simplified, OF i]
  have del: "replaces ?b c (?old c) []" if "on_cf c ?b = map (OpDelete c) ks" "set ks = ?old c" for c ks
    by (rule replacesI [where ks = ks and rows = "[]"]) (use that in \<open>simp_all add: row_at_def\<close>)
  have "replaces ?b CfTerms (?old CfTerms) []" by (rule del [OF ops(1) [unfolded del_map [where f = "\<lambda>x. term_key x i"]]]) (simp add: i record_keys image_image)
  moreover have "replaces ?b CfSparse (?old CfSparse) []" by (rule del [OF ops(2) [unfolded del_map [where f = "\<lambda>x. sparse_key x i"]]]) (simp add: i record_keys image_image)
  moreover have "replaces ?b CfNvecs (?old CfNvecs) []" by (rule del [OF ops(3) [unfolded del_map [where f = "\<lambda>x. nvec_key x i"]]]) (simp add: i record_keys image_image)
  moreover have "replaces ?b CfColl (?old CfColl) []" by (rule del [OF ops(4) [unfolded del_map [where f = "\<lambda>x. coll_key x i"]]]) (simp add: i record_keys set_opt_list)
  moreover have "replaces ?b CfPidx (?old CfPidx) []" by (rule del [OF ops(5)]) (simp add: i record_keys image_image)
  moreover have "replaces ?b CfMvecs (?old CfMvecs) []"
    by (rule del [where ks = "if 0 < sd_multi_len (stored_of analyze r) then [i] else []"]) (simp_all only: ops(8), simp_all add: i record_keys word_gt_0)
  moreover have "replaces ?b CfDocs (?old CfDocs) []" by (rule del [where ks = "[i]"]) (simp_all only: ops(6), simp_all add: i record_keys)
  moreover have "replaces ?b CfVecs (?old CfVecs) []" by (rule del [where ks = "[i]"]) (simp_all only: ops(7), simp_all add: i record_keys)
  ultimately show ?thesis using c unfolding row_families_def by blast
qed

section \<open>Counters\<close>

text \<open>The token count of a record is kept in 32 bits.\<close>

definition record_tokens :: "(bytes \<Rightarrow> bytes list) \<Rightarrow> vector_record \<Rightarrow> nat" where
  "record_tokens analyze r = unat (of_nat (length (analyze (vr_text r))) :: 32 word)"

definition token_total :: "(bytes \<Rightarrow> bytes list) \<Rightarrow> records \<Rightarrow> nat" where
  "token_total analyze R = (\<Sum>i \<in> dom R. record_tokens analyze (the (R i)))"

definition record_shape :: "vector_record \<Rightarrow> bytes" where
  "record_shape r = shape_key (shape_of (vr_metadata r))"

definition shape_count :: "records \<Rightarrow> bytes \<Rightarrow> nat" where
  "shape_count R k = card {i. \<exists>r. R i = Some r \<and> record_shape r = k}"

definition opt_sum :: "(vector_record \<Rightarrow> nat) \<Rightarrow> vector_record option \<Rightarrow> nat" where
  "opt_sum f n = (case n of None \<Rightarrow> 0 | Some r \<Rightarrow> f r)"

lemma opt_sum_simps [simp]: "opt_sum f None = 0" "opt_sum f (Some r) = f r"
  by (simp_all add: opt_sum_def)

lemma sum_update:
  fixes f :: "vector_record \<Rightarrow> nat"
  assumes "finite (dom R)"
  shows "(\<Sum>j \<in> dom (R(i := n)). f (the ((R(i := n)) j))) + opt_sum f (R i) = (\<Sum>j \<in> dom R. f (the (R j))) + opt_sum f n"
proof -
  let ?A = "dom R - {i}"
  have rest: "(\<Sum>j \<in> ?A. f (the ((R(i := n)) j))) = (\<Sum>j \<in> ?A. f (the (R j)))" by (rule sum.cong) auto
  have a: "(\<Sum>j \<in> dom R. f (the (R j))) = (\<Sum>j \<in> ?A. f (the (R j))) + opt_sum f (R i)"
    using sum.remove [OF assms, of i "\<lambda>j. f (the (R j))"] by (cases "R i") (auto simp: domIff)
  have "dom (R(i := n)) = (if n = None then ?A else insert i ?A)" by auto
  then have b: "(\<Sum>j \<in> dom (R(i := n)). f (the ((R(i := n)) j))) = (\<Sum>j \<in> ?A. f (the ((R(i := n)) j))) + opt_sum f n"
  proof (cases n)
    case (Some r)
    have "finite ?A" "i \<notin> ?A" using assms by simp_all
    then have "(\<Sum>j \<in> insert i ?A. f (the ((R(i := n)) j))) = (\<Sum>j \<in> ?A. f (the ((R(i := n)) j))) + opt_sum f n"
      by (subst sum.insert) (simp_all add: Some add.commute)
    then show ?thesis using \<open>dom (R(i := n)) = _\<close> Some by (simp only:) simp
  qed simp
  show ?thesis unfolding a b rest by simp
qed

lemma token_total_update:
  "finite (dom R) \<Longrightarrow> token_total analyze (R(i := n)) + opt_sum (record_tokens analyze) (R i) =
     token_total analyze R + opt_sum (record_tokens analyze) n"
  unfolding token_total_def by (rule sum_update)

lemma shape_count_sum: "finite (dom R) \<Longrightarrow> shape_count R k = (\<Sum>i \<in> dom R. if record_shape (the (R i)) = k then 1 else 0)"
proof -
  assume "finite (dom R)"
  then have "(\<Sum>i \<in> dom R. if record_shape (the (R i)) = k then 1 else 0) = card {i \<in> dom R. record_shape (the (R i)) = k}"
    by (simp add: sum.inter_filter [symmetric])
  also have "{i \<in> dom R. record_shape (the (R i)) = k} = {i. \<exists>r. R i = Some r \<and> record_shape r = k}" by auto
  finally show ?thesis by (simp add: shape_count_def)
qed

lemma shape_count_update:
  assumes "finite (dom R)"
  shows "shape_count (R(i := n)) k + opt_sum (\<lambda>r. if record_shape r = k then 1 else 0) (R i) =
    shape_count R k + opt_sum (\<lambda>r. if record_shape r = k then 1 else 0) n"
proof -
  have "finite (dom (R(i := n)))" using assms by (cases n) simp_all
  from shape_count_sum [OF this] shape_count_sum [OF assms] show ?thesis
    using sum_update [OF assms, of "\<lambda>r. if record_shape r = k then 1 else 0" i n] by (simp only:)
qed

lemma shape_count_le: "finite (dom R) \<Longrightarrow> shape_count R k \<le> card (dom R)"
  unfolding shape_count_def by (rule card_mono) auto

lemma df_value_census: "df_value (census_out k m) t = (if t = k then sat_sub (df_value m t) 1 else df_value m t)"
proof (induction m)
  case (Cons x m)
  then show ?case by (cases x) (auto simp: census_out_def df_value_def)
qed (simp add: census_out_def df_value_def sat_sub_def)

lemma unat_sat_sub: "unat (sat_sub a b) = unat a - unat b"
  by (simp add: sat_sub_def word_le_nat_alt unat_sub)

lemma unat_add_less: "unat a + unat b < 2 ^ 64 \<Longrightarrow> unat (a + b) = unat a + unat b" for a b :: "64 word"
  by (simp add: unat_word_ariths)

lemma tokens_step:
  assumes t: "unat t = token_total analyze R" and fin: "finite (dom R)"
    and room: "token_total analyze R + opt_sum (record_tokens analyze) n < 2 ^ 64"
  shows "unat ((case map_option (stored_of analyze) (R i) of None \<Rightarrow> t | Some old \<Rightarrow> sat_sub t (ucast (sd_token_len old))) +
      (case n of None \<Rightarrow> 0 | Some r \<Rightarrow> ucast (sd_token_len (stored_of analyze r)))) = token_total analyze (R(i := n))"
    (is "unat (?a + ?b) = _")
proof -
  have tok: "unat (ucast (sd_token_len (stored_of analyze r)) :: 64 word) = record_tokens analyze r" for r
  proof -
    have "unat w < 2 ^ 64" for w :: "32 word" using unsigned_less [of w, where 'a = nat] by simp
    then show ?thesis by (simp add: record_tokens_def unsigned_ucast_eq take_bit_nat_eq_self)
  qed
  have a: "unat ?a = token_total analyze R - opt_sum (record_tokens analyze) (R i)"
    using t tok by (cases "R i") (simp_all add: unat_sat_sub)
  have b: "unat ?b = opt_sum (record_tokens analyze) n" using tok by (cases n) simp_all
  have "opt_sum (record_tokens analyze) (R i) \<le> token_total analyze R"
  proof (cases "R i")
    case (Some r)
    have "record_tokens analyze (the (R i)) \<le> token_total analyze R" unfolding token_total_def
      by (rule member_le_sum) (use fin Some in auto)
    then show ?thesis using Some by simp
  qed simp
  moreover have "unat (?a + ?b) = unat ?a + unat ?b" by (rule unat_add_less) (use a b room in linarith)
  ultimately show ?thesis using token_total_update [OF fin, of analyze i n] a b by linarith
qed

lemma census_step:
  fixes analyze :: "bytes \<Rightarrow> bytes list" and i :: bytes
  assumes m: "\<And>k. df_value m k = of_nat (shape_count R k)" and fin: "finite (dom R)" and room: "card (dom R) < 2 ^ 64"
  defines "out \<equiv> (case map_option (stored_of analyze) (R i) of None \<Rightarrow> m | Some old \<Rightarrow> census_out (shape_key (sd_shape old)) m)"
  shows "df_value out k = of_nat (shape_count (R(i := None)) k)"
    and "df_value (bump (shape_key (shape_of (vr_metadata r))) 1 out) k = of_nat (shape_count (R(i \<mapsto> r)) k)"
proof -
  have out: "df_value out k = of_nat (shape_count (R(i := None)) k)" for k
  proof (cases "R i")
    case (Some r)
    have c: "shape_count R k < 2 ^ 64" using shape_count_le [OF fin, of k] room by linarith
    have u: "shape_count (R(i := None)) k + (if record_shape r = k then 1 else 0) = shape_count R k"
      using shape_count_update [OF fin, of i None k] Some by simp
    have s: "sat_sub (of_nat n) 1 = of_nat (n - 1)" if "0 < n" "n < 2 ^ 64" for n
    proof -
      obtain m where n: "n = Suc m" using \<open>0 < n\<close> by (cases n) auto
      have "1 \<le> (of_nat n :: 64 word)" using that unat_of_nat64 [of n] by (simp add: word_le_nat_alt)
      then have "sat_sub (of_nat n) 1 = of_nat n - 1" by (simp add: sat_sub_def)
      then show ?thesis by (simp add: n)
    qed
    show ?thesis
    proof (cases "record_shape r = k")
      case True
      then have "0 < shape_count R k" "shape_count R k - 1 = shape_count (R(i := None)) k" using u by simp_all
      then show ?thesis using s [OF _ c] True Some by (simp add: out_def df_value_census m record_shape_def)
    next
      case False
      then show ?thesis using u Some by (simp add: out_def df_value_census m record_shape_def)
    qed
  qed (simp add: out_def m fun_upd_idem)
  then show "df_value out k = of_nat (shape_count (R(i := None)) k)" .
  have "finite (dom (R(i := None)))" using fin by simp
  from shape_count_update [OF this, of i "Some r" k]
  show "df_value (bump (shape_key (shape_of (vr_metadata r))) 1 out) k = of_nat (shape_count (R(i \<mapsto> r)) k)"
    by (simp add: df_value_bump out record_shape_def)
qed

section \<open>The loop over the records\<close>

definition records_inv ::
  "serde \<Rightarrow> (bytes \<Rightarrow> bytes list) \<Rightarrow> bytes list \<Rightarrow> db \<Rightarrow> records \<Rightarrow> transaction \<Rightarrow> bool" where
  "records_inv S analyze fs db R tx \<longleftrightarrow>
     own_ids R \<and> finite (dom R) \<and>
     (\<forall>c \<in> row_families. family_rows (record_rows S analyze fs c) (apply_view (tx_batch tx) (get_cf db) c) R) \<and>
     (\<forall>c \<in> other_families. \<forall>k. apply_view (tx_batch tx) (get_cf db) c k = get_cf db c k) \<and>
     unat (tx_total_tokens tx) = token_total analyze R \<and>
     (\<forall>k. df_value (tx_shapes tx) k = of_nat (shape_count R k))"

lemma family_replaced:
  assumes "replaces b c (fst ` set (rows_opt (record_rows S analyze fs c) (R i))) (rows_opt (record_rows S analyze fs c) n)"
    "family_rows (record_rows S analyze fs c) (v c) R" "own_ids R" "own_ids (R(i := n))"
  shows "family_rows (record_rows S analyze fs c) (apply_view b v c) (R(i := n))"
  by (rule rf.replaced [OF assms(2-4)]) (use assms(1) in \<open>simp add: replaces_def\<close>)

lemma other_kept: "on_cf c b = [] \<Longrightarrow> apply_view b v c k = v c k"
  by (simp add: apply_view_on_cf)

lemma records_inv_step:
  assumes inv: "records_inv S analyze fs db R tx" and up: "upsert_record S analyze now fs db r (tx, df) = Inr (tx', df')"
    and docs: "docs_of S (get_cf db) D0" and same: "D0 (vr_id r) = map_option (stored_of analyze) (R (vr_id r))"
    and clean: "SEP \<notin> set (vr_id r)" and room: "token_total analyze R + record_tokens analyze r < 2 ^ 64" "card (dom R) < 2 ^ 64"
  shows "records_inv S analyze fs db (R(vr_id r \<mapsto> r)) tx'"
proof -
  let ?i = "vr_id r"
  let ?b = "upsert_ops S analyze now fs r (map_option (stored_of analyze) (R ?i)) (tx_feed_seq tx)"
  note s = upsert_record_step [OF up docs, unfolded same] and v = inv [unfolded records_inv_def]
  have own: "own_ids (R(?i \<mapsto> r))" using v clean own_ids_update by blast
  have fin: "finite (dom R)" using v by blast
  have fam: "family_rows (record_rows S analyze fs c) (apply_view (tx_batch tx') (get_cf db) c) (R(?i \<mapsto> r))" if c: "c \<in> row_families" for c
  proof -
    have "vr_id r0 = ?i" if "R ?i = Some r0" for r0 using v that unfolding own_ids_def by blast
    from upsert_replaces [OF c this, of "R ?i"]
    have "family_rows (record_rows S analyze fs c) (apply_view ?b (apply_view (tx_batch tx) (get_cf db)) c) (R(?i \<mapsto> r))"
      by (intro family_replaced [OF _ _ _ own]) (use v c in auto)
    then show ?thesis using s by simp
  qed
  have rest: "apply_view (tx_batch tx') (get_cf db) c k = get_cf db c k" if "c \<in> other_families" for c k
    using other_kept [OF upsert_family_ops(9) [OF that [unfolded other_families_def]]] v that s by simp
  have "unat (tx_total_tokens tx') = token_total analyze (R(?i \<mapsto> r))"
    using tokens_step [where t = "tx_total_tokens tx" and R = R and n = "Some r" and i = ?i and analyze = analyze] v room s by simp
  moreover have "df_value (tx_shapes tx') k = of_nat (shape_count (R(?i \<mapsto> r)) k)" for k
    using census_step(2) [where m = "tx_shapes tx" and R = R and i = ?i and analyze = analyze and k = k and r = r] v room(2) s by simp
  moreover have "finite (dom (R(?i \<mapsto> r)))" using fin by simp
  ultimately show ?thesis using own fam rest unfolding records_inv_def by blast
qed

text \<open>The records after an upsert.\<close>

definition add_records :: "vector_record list \<Rightarrow> records \<Rightarrow> records" where
  "add_records rs R = fold (\<lambda>r R. R(vr_id r \<mapsto> r)) rs R"

lemma add_records_simps [simp]: "add_records [] R = R" "add_records (r # rs) R = add_records rs (R(vr_id r \<mapsto> r))"
  by (simp_all add: add_records_def)

lemma upsert_records_rows:
  assumes "records_inv S analyze fs db R tx" "upsert_records S analyze now fs db rs (tx, df) = Inr (tx', df')"
    "docs_of S (get_cf db) D0" "\<forall>r \<in> set rs. D0 (vr_id r) = map_option (stored_of analyze) (R (vr_id r))"
    "distinct (map vr_id rs)" "\<forall>r \<in> set rs. SEP \<notin> set (vr_id r)"
    "token_total analyze R + sum_list (map (record_tokens analyze) rs) < 2 ^ 64" "card (dom R) + length rs < 2 ^ 64"
  shows "records_inv S analyze fs db (add_records rs R) tx'"
  using assms(1,2,4-)
proof (induction rs arbitrary: R tx df)
  case (Cons r rs)
  let ?R = "R(vr_id r \<mapsto> r)"
  from Cons.prems(2) obtain tx1 df1 where u: "upsert_record S analyze now fs db r (tx, df) = Inr (tx1, df1)"
    and us: "upsert_records S analyze now fs db rs (tx1, df1) = Inr (tx', df')" by (auto simp: bind_result_Inr_iff)
  have fin: "finite (dom R)" using Cons.prems(1) by (simp add: records_inv_def)
  have inv: "records_inv S analyze fs db ?R tx1"
    by (rule records_inv_step [OF Cons.prems(1) u assms(3)]) (use Cons.prems in auto)
  have "vr_id x \<noteq> vr_id r" if "x \<in> set rs" for x using Cons.prems(4) that by (auto simp: image_iff)
  then have a: "\<forall>x \<in> set rs. D0 (vr_id x) = map_option (stored_of analyze) (?R (vr_id x))" using Cons.prems(3) by simp
  have b: "distinct (map vr_id rs)" "\<forall>r \<in> set rs. SEP \<notin> set (vr_id r)" using Cons.prems by simp_all
  have "token_total analyze ?R \<le> token_total analyze R + record_tokens analyze r"
    using token_total_update [OF fin, of analyze "vr_id r" "Some r"] by simp
  then have c: "token_total analyze ?R + sum_list (map (record_tokens analyze) rs) < 2 ^ 64" using Cons.prems(6) by simp
  have "card (dom ?R) \<le> Suc (card (dom R))" using fin by (simp add: card_insert_if)
  then have d: "card (dom ?R) + length rs < 2 ^ 64" using Cons.prems(7) by simp
  show ?case unfolding add_records_simps by (rule Cons.IH [OF inv us a b c d])
qed simp

section \<open>The contract\<close>

definition stored_docs :: "(bytes \<Rightarrow> bytes list) \<Rightarrow> records \<Rightarrow> docs" where
  "stored_docs analyze R = (\<lambda>i. map_option (stored_of analyze) (R i))"

definition embeddings :: "records \<Rightarrow> bytes \<rightharpoonup> vec" where
  "embeddings R = (\<lambda>i. map_option vr_embedding (R i))"

definition reads_shapes :: "serde \<Rightarrow> bool" where
  "reads_shapes S \<longleftrightarrow> (\<forall>m. js_shapes_of S (js_shapes S m) = Some m)"

definition records_of :: "serde \<Rightarrow> (bytes \<Rightarrow> bytes list) \<Rightarrow> bytes list \<Rightarrow> db \<Rightarrow> records \<Rightarrow> change list \<Rightarrow> bool" where
  "records_of S analyze fs db R cs \<longleftrightarrow>
     leads S analyze fs db (stored_docs analyze R) (embeddings R) cs \<and> own_ids R \<and>
     (\<forall>c \<in> row_families. family_rows (record_rows S analyze fs c) (get_cf db c) R) \<and>
     unat (get_u64 db META_TOTAL_TOKENS) = token_total analyze R \<and>
     (\<exists>m. shapes S db = Inr m \<and> (\<forall>k. df_value m k = of_nat (shape_count R k)))"

lemma stored_docs_add: "stored_docs analyze (add_records rs R) = add_docs analyze rs (stored_docs analyze R)"
proof (induction rs arbitrary: R)
  case (Cons r rs)
  have "stored_docs analyze (R(vr_id r \<mapsto> r)) = (stored_docs analyze R)(vr_id r \<mapsto> stored_of analyze r)"
    by (simp add: stored_docs_def fun_eq_iff)
  then show ?case using Cons.IH by (simp add: add_docs_def)
qed (simp add: add_docs_def)

lemma embeddings_add: "embeddings (add_records rs R) = add_vecs rs (embeddings R)"
proof (induction rs arbitrary: R)
  case (Cons r rs)
  have "embeddings (R(vr_id r \<mapsto> r)) = (embeddings R)(vr_id r \<mapsto> vr_embedding r)"
    by (simp add: embeddings_def fun_eq_iff)
  then show ?case using Cons.IH by (simp add: add_vecs_def)
qed (simp add: add_vecs_def)

lemma dom_stored [simp]: "dom (stored_docs analyze R) = dom R"
  by (auto simp: stored_docs_def)

lemma stored_docs_delete: "stored_docs analyze (R(i := None)) = (stored_docs analyze R)(i := None)"
  "embeddings (R(i := None)) = (embeddings R)(i := None)"
  by (simp_all add: stored_docs_def embeddings_def fun_eq_iff)

lemma records_dom:
  assumes "records_of S analyze fs db R cs"
  shows "finite (dom R)" "card (dom R) \<le> length cs" "db_ok db" "estate_of S analyze fs db (stored_docs analyze R)"
    "docs_of S (get_cf db) (stored_docs analyze R)" "length cs < 2 ^ 64"
proof -
  have l: "leads S analyze fs db (stored_docs analyze R) (embeddings R) cs" using assms by (simp add: records_of_def)
  then show "finite (dom R)" "db_ok db" "estate_of S analyze fs db (stored_docs analyze R)"
    "docs_of S (get_cf db) (stored_docs analyze R)" "length cs < 2 ^ 64"
    by (simp_all add: leads_def estate_of_def view_of_def)
  show "card (dom R) \<le> length cs" using l card_log_docs [of cs] by (simp add: leads_def)
qed

lemma records_begin:
  assumes rec: "records_of S analyze fs db R cs" and tx0: "tx_begin S db = Inr tx0" and same: "same_but_declared db dbm"
  shows "records_inv S analyze fs dbm R (touch_counters tx0)"
proof -
  have ok: "db_ok db" using records_dom [OF rec] by blast
  then have g: "get_cf dbm c k = get_cf db c k" if "c \<noteq> CfMeta" for c k using same that by (simp add: same_but_declared_def)
  obtain s where s: "get_json (js_shapes_of S) db CfMeta META_SHAPES = Inr s" "tx_shapes tx0 = (case s of None \<Rightarrow> [] | Some m \<Rightarrow> m)"
    using tx_begin_sel(7) [OF tx0] by blast
  have "shapes S db = Inr (tx_shapes tx0)" by (simp add: shapes_def or_default_def s)
  then have "df_value (tx_shapes tx0) k = of_nat (shape_count R k)" for k using rec by (simp add: records_of_def)
  moreover have "family_rows (record_rows S analyze fs c) (get_cf dbm c) R" if "c \<in> row_families" for c
  proof -
    have "c \<noteq> CfMeta" using that by (auto simp: row_families_def)
    then have "get_cf dbm c = get_cf db c" using g by (simp add: fun_eq_iff)
    then show ?thesis using rec that by (simp add: records_of_def)
  qed
  ultimately show ?thesis using rec records_dom(1) [OF rec] tx_begin_sel [OF tx0] by (simp add: records_inv_def records_of_def)
qed

text \<open>After the commit, the database has the rows and counters the loop prepared.\<close>

lemma records_commit:
  fixes p :: "(bytes, vec) pstate"
  assumes inv: "records_inv S analyze fs dbm R' tx1" and ok: "db_ok dbm"
    and b: "list_all batch_op (tx_batch tx1)" "tx_dirty tx1" and df: "list_all batch_op df" "\<And>v. apply_view df v = v" and js: "reads_shapes S"
  defines "db' \<equiv> fst (tx_commit S (add_ops df tx1) (dbm, p))"
  shows "(\<forall>c \<in> row_families. family_rows (record_rows S analyze fs c) (get_cf db' c) R') \<and>
    untouched {} dbm db' \<and> unat (get_u64 db' META_TOTAL_TOKENS) = token_total analyze R' \<and>
    (\<exists>m. shapes S db' = Inr m \<and> (\<forall>k. df_value m k = of_nat (shape_count R' k)))"
proof -
  note v = inv [unfolded records_inv_def]
  have "list_all batch_op (tx_batch (add_ops df tx1))" "tx_dirty (add_ops df tx1)" using b df by (simp_all add: list_all_append)
  note c = commit_get [OF ok this, where S = S]
  have g: "get_cf db' c = apply_view (tx_batch tx1) (get_cf dbm) c" if "c \<noteq> CfMeta" "c \<noteq> CfTdf" for c
    using c(2) [OF that] df(2) by (simp add: db'_def tx_commit_def fun_eq_iff)
  have "c \<noteq> CfMeta \<and> c \<noteq> CfTdf" if "c \<in> row_families \<union> other_families" for c
    using that by (auto simp: row_families_def other_families_def)
  with g have "get_cf db' c = apply_view (tx_batch tx1) (get_cf dbm) c" if "c \<in> row_families \<union> other_families" for c
    using that by blast
  moreover have "apply_view (tx_batch tx1) (get_cf dbm) c = get_cf dbm c" if "c \<in> other_families" for c
    using v that by (simp add: fun_eq_iff)
  moreover have "get_cf db' CfMeta k = get_cf dbm CfMeta k" if "k \<notin> {META_DOC_COUNT, META_TOTAL_TOKENS, META_SHAPES, META_FEED_SEQ}" for k
    using c(8) [OF that] by (simp add: db'_def tx_commit_def)
  ultimately have "(\<forall>c \<in> row_families. family_rows (record_rows S analyze fs c) (get_cf db' c) R') \<and> untouched {} dbm db'"
    using v unfolding untouched_def by simp
  moreover have "get_u64 db' META_TOTAL_TOKENS = tx_total_tokens tx1" using c(9) by (simp add: db'_def tx_commit_def)
  moreover have "shapes S db' = Inr (tx_shapes tx1)"
    using c(7) js by (simp add: db'_def tx_commit_def shapes_def get_json_def or_default_def reads_shapes_def)
  ultimately show ?thesis using v by simp
qed

lemma upsert_keeps_records:
  assumes rec: "records_of S analyze fs db R cs"
    and run: "run_transaction S analyze now True [WUpsert rs] (db, p) = Some ((db', p'), None)"
    and rs: "distinct (map vr_id rs)"
      "\<forall>r \<in> set rs. SEP \<notin> set (vr_id r) \<and> js_doc_of S (js_doc S (stored_of analyze r)) = Some (stored_of analyze r)"
    and js: "reads_changes S" "reads_shapes S"
    and room: "length cs + length rs < 2 ^ 64" "token_total analyze R + sum_list (map (record_tokens analyze) rs) < 2 ^ 64"
  shows "records_of S analyze fs db' (add_records rs R) (log_upserts now rs cs) \<and> untouched {META_ESTATE, META_COLLECTIONS} db db'"
proof -
  note d = records_dom [OF rec]
  have lead: "leads S analyze fs db (stored_docs analyze R) (embeddings R) cs" using rec by (simp add: records_of_def)
  have lead': "leads S analyze fs db' (stored_docs analyze (add_records rs R)) (embeddings (add_records rs R)) (log_upserts now rs cs)"
    unfolding stored_docs_add embeddings_add by (rule upsert_leads [OF lead run rs js(1) room(1)])
  obtain tx0 dbm tx where tx0: "tx_begin S db = Inr tx0"
    and u: "upsert_into S analyze now True rs db tx0 = Some (dbm, Inr tx)" and c: "(db', p') = tx_commit S tx (dbm, p)"
    by (rule run_upsert [OF run])
  have "indexed_fields S db = Inr fs" using d(4) by (simp add: estate_of_def)
  with upsert_into_result [OF u] d(3) obtain tx1 df where same: "same_but_declared db dbm" and tx: "tx = add_ops (df_ops True df) tx1"
    and ups: "upsert_records S analyze now fs dbm rs (touch_counters tx0, []) = Inr (tx1, df)" by auto
  have okm: "db_ok dbm" using same d(3) by (simp add: same_but_declared_def)
  have lm: "leads S analyze fs dbm (stored_docs analyze R) (embeddings R) cs" by (rule leads_same [OF lead same])
  then have docs: "docs_of S (get_cf dbm) (stored_docs analyze R)" by (simp add: leads_def estate_of_def view_of_def)
  have inv: "records_inv S analyze fs dbm (add_records rs R) tx1"
    by (rule upsert_records_rows [OF records_begin [OF rec tx0 same] ups docs _ rs(1) _ room(2)])
      (use rs(2) room(1) d(2) in \<open>auto simp: stored_docs_def\<close>)
  have "log_inv S dbm (embeddings R) cs (touch_counters tx0)"
    using lm tx_begin_sel [OF tx0] lead by (simp add: log_inv_def leads_def)
  from upsert_records_log [OF ups docs this js(1) room(1)]
  have "list_all batch_op (tx_batch tx1)" "tx_dirty tx1" by (auto simp: log_inv_def intro: batch_op_plain)
  note res = records_commit [OF inv okm this df_ops_batch apply_df_ops js(2), of True df p]
  have db': "db' = fst (tx_commit S (add_ops (df_ops True df) tx1) (dbm, p))" using c tx by (metis fst_conv)
  have "own_ids (add_records rs R)" using inv by (simp add: records_inv_def)
  moreover have "untouched {META_ESTATE, META_COLLECTIONS} db db'"
  proof -
    have "get_cf dbm c = get_cf db c" if "c \<in> other_families" for c
      using same d(3) that by (auto simp: same_but_declared_def other_families_def fun_eq_iff)
    moreover have "get_cf dbm CfMeta k = get_cf db CfMeta k" if "k \<noteq> META_ESTATE" "k \<noteq> META_COLLECTIONS" for k
      using same d(3) that by (simp add: same_but_declared_def)
    ultimately show ?thesis using res unfolding db' [symmetric] untouched_def by simp
  qed
  ultimately show ?thesis using lead' res unfolding db' [symmetric] records_of_def by simp
qed

lemma remove_keeps_records:
  assumes rec: "records_of S analyze fs db R cs"
    and run: "run_transaction S analyze now True [WRemove i] (db, p) = Some ((db', p'), None)"
    and js: "reads_changes S" "reads_shapes S" and room: "length cs + 1 < 2 ^ 64"
  shows "records_of S analyze fs db' (R(i := None)) (if R i = None then cs else log_change now ChRemove i cs) \<and> untouched {} db db'"
proof (cases "R i")
  case None
  then have "stored_docs analyze R i = None" by (simp add: stored_docs_def)
  from run_remove_none [OF records_dom(4) [OF rec] this run] have "db' = db" by blast
  then show ?thesis using rec None by (simp add: fun_upd_idem untouched_def)
next
  case (Some r)
  note d = records_dom [OF rec] and v = rec [unfolded records_of_def]
  have old: "stored_docs analyze R i = Some (stored_of analyze r)" by (simp add: stored_docs_def Some)
  have lead: "leads S analyze fs db (stored_docs analyze R) (embeddings R) cs" using rec by (simp add: records_of_def)
  have lead': "leads S analyze fs db' (stored_docs analyze (R(i := None))) (embeddings (R(i := None))) (log_change now ChRemove i cs)"
    using remove_leads [OF lead run js(1) room] old unfolding stored_docs_delete by simp
  let ?b = "remove_ops S analyze True fs i (stored_of analyze r) @ [feed_op S now ChRemove i (get_u64 db META_FEED_SEQ)]"
  obtain tx where c: "(db', p') = tx_commit S tx (db, p)" and b: "tx_batch tx = ?b" "tx_dirty tx"
    and cnt: "tx_total_tokens tx = sat_sub (get_u64 db META_TOTAL_TOKENS) (ucast (sd_token_len (stored_of analyze r)))"
      "\<exists>s. get_json (js_shapes_of S) db CfMeta META_SHAPES = Inr s \<and>
        tx_shapes tx = census_out (shape_key (sd_shape (stored_of analyze r))) (case s of None \<Rightarrow> [] | Some m \<Rightarrow> m)"
    by (rule run_remove_some [OF d(4) old run])
  obtain m where m: "shapes S db = Inr m" "\<And>k. df_value m k = of_nat (shape_count R k)" using v by blast
  have sh: "tx_shapes tx = census_out (shape_key (sd_shape (stored_of analyze r))) m"
    using cnt(2) m(1) by (auto simp: shapes_def or_default_def)
  have own: "own_ids (R(i := None))" using v own_ids_delete by blast
  have i: "vr_id r = i" using v Some unfolding own_ids_def by blast
  have fam: "family_rows (record_rows S analyze fs c) (apply_view ?b (get_cf db) c) (R(i := None))" if "c \<in> row_families" for c
    by (rule family_replaced [OF _ _ _ own]) (use remove_replaces [OF that i] Some v that in auto)
  have rest: "apply_view ?b (get_cf db) c k = get_cf db c k" if "c \<in> other_families" for c k
    by (rule other_kept) (rule remove_family_ops(9) [OF that [unfolded other_families_def]])
  have "token_total analyze R < 2 ^ 64" using v unat64_bound [of "get_u64 db META_TOTAL_TOKENS"] by simp
  then have "unat (tx_total_tokens tx) = token_total analyze (R(i := None))"
    using tokens_step [where t = "get_u64 db META_TOTAL_TOKENS" and R = R and n = None and i = i and analyze = analyze] v d(1) Some cnt(1) by simp
  moreover have "df_value (tx_shapes tx) k = of_nat (shape_count (R(i := None)) k)" for k
    using census_step(1) [where m = m and R = R and i = i and analyze = analyze and k = k] m(2) d(1,2,6) Some sh by simp
  moreover have "finite (dom (R(i := None)))" using d(1) by simp
  ultimately have inv: "records_inv S analyze fs db (R(i := None)) tx"
    using own fam rest b(1) unfolding records_inv_def by (simp only:) blast
  have "list_all batch_op (tx_batch tx)" unfolding b(1) by (rule remove_batch)
  note res = records_commit [OF inv d(3) this b(2) _ apply_view_Nil js(2), of p]
  have "add_ops [] tx = tx" by (simp add: add_ops_def)
  then have "db' = fst (tx_commit S (add_ops [] tx) (db, p))" using c by (metis fst_conv)
  then show ?thesis using res lead' own Some unfolding records_of_def by simp
qed

section \<open>The refinements\<close>

text \<open>C1: a successful batch of upserts with distinct ids refines the map update.  From a database that
  holds exactly the records \<open>R\<close> and the changes \<open>cs\<close>, the transaction leads to one that holds exactly
  \<open>R\<close> with the records added and \<open>cs\<close> with an upsert of each: every row of the term, sparse, named
  vector, token vector, collection, payload index, document and vector families with its value, the
  document count, the document frequencies, the token total, the shape census and the feed.  The
  families of tags, relations, connectors, nodes, trends and graphs keep their rows, and so do the
  blobs other than the counters and the two declarations, of the dimension and of the collections;
  the graph operations are queued in the order of the records.\<close>

theorem upsert_refines:
  assumes "records_of S analyze fs db R cs"
    "run_transaction S analyze now True [WUpsert rs] (db, p) = Some ((db', p'), None)"
    "distinct (map vr_id rs)"
    "\<forall>r \<in> set rs. SEP \<notin> set (vr_id r) \<and> js_doc_of S (js_doc S (stored_of analyze r)) = Some (stored_of analyze r)"
    "reads_changes S" "reads_shapes S"
    "length cs + length rs < 2 ^ 64" "token_total analyze R + sum_list (map (record_tokens analyze) rs) < 2 ^ 64"
  shows "records_of S analyze fs db' (add_records rs R) (log_upserts now rs cs) \<and>
    untouched {META_ESTATE, META_COLLECTIONS} db db' \<and>
    p' = fold (\<lambda>r. push_op (vr_id r) (Some (vr_embedding r))) rs p"
proof -
  note d = records_dom [OF assms(1)]
  have "card (dom (stored_docs analyze R)) + length rs < 2 ^ 64" using d(2) assms(7) by simp
  from run_upsert_estate [OF d(4) assms(2-4) this] upsert_keeps_records [OF assms] show ?thesis by blast
qed

text \<open>C11: a removal refines deletion from the map.  From a database that holds exactly the records \<open>R\<close>,
  it leads to one that holds exactly \<open>R\<close> without the id: no row, vector, count, frequency, token or
  shape of the document stays in those families, the feed has a removal, the graph removal is queued,
  and every other family, tags included, and every other blob keeps its rows; removing an id without a document changes
  nothing.\<close>

theorem remove_refines:
  assumes "records_of S analyze fs db R cs"
    "run_transaction S analyze now True [WRemove i] (db, p) = Some ((db', p'), None)"
    "reads_changes S" "reads_shapes S" "length cs + 1 < 2 ^ 64"
  shows "records_of S analyze fs db' (R(i := None)) (if R i = None then cs else log_change now ChRemove i cs) \<and>
    untouched {} db db' \<and>
    p' = (if R i = None then p else push_remove i p) \<and> (R i = None \<longrightarrow> db' = db)"
proof -
  have est: "estate_of S analyze fs db (stored_docs analyze R)" by (rule records_dom(4) [OF assms(1)])
  have none: "stored_docs analyze R i = None \<longleftrightarrow> R i = None" by (simp add: stored_docs_def)
  from run_remove_estate [OF est assms(2)] run_remove_none [OF est _ assms(2)] remove_keeps_records [OF assms]
  show ?thesis unfolding none by blast
qed

text \<open>A serializer whose shape census reads back: each key byte after a one, a zero, the count.\<close>

definition census_text :: "(bytes \<times> 64 word) list \<Rightarrow> bytes" where
  "census_text m = concat (map (\<lambda>(k, n). concat (map (\<lambda>c. [CHR 0x01, c]) k) @ CHR 0x00 # u64_le n) m)"

fun census_read :: "nat \<Rightarrow> bytes \<Rightarrow> bytes \<Rightarrow> (bytes \<times> 64 word) list option" where
  "census_read 0 k b = None"
| "census_read (Suc fuel) k [] = Some []"
| "census_read (Suc fuel) k (t # b) =
     (if t = CHR 0x01 then (case b of [] \<Rightarrow> None | c # r \<Rightarrow> census_read fuel (k @ [c]) r)
      else map_option (Cons (k, of_nat (of_le (take 8 b)))) (census_read fuel [] (drop 8 b)))"

lemma census_read_key:
  "census_read (length k + fuel) p (concat (map (\<lambda>c. [CHR 0x01, c]) k) @ b) = census_read fuel (p @ k) b"
  by (induction k arbitrary: p) simp_all

lemma census_read_text: "length (census_text m) < fuel \<Longrightarrow> census_read fuel [] (census_text m) = Some m"
proof (induction m arbitrary: fuel)
  case Nil
  then show ?case by (cases fuel) (simp_all add: census_text_def)
next
  case (Cons x m)
  obtain k w where x: "x = (k, w)" by (cases x)
  have w: "length (u64_le w) = 8" by (simp add: u64_le_def)
  have k: "length (concat (map (\<lambda>c. [CHR 0x01, c]) k)) = 2 * length k" by (induction k) simp_all
  have "2 * length k + 9 + length (census_text m) < fuel" using Cons.prems w k by (simp add: census_text_def x)
  then have f: "fuel = length k + Suc (fuel - length k - 1)" "length (census_text m) < fuel - length k - 1" by linarith+
  show ?case
    using Cons.IH [OF f(2)] census_read_key [of k "Suc (fuel - length k - 1)" "[]" "CHR 0x00 # u64_le w @ census_text m"] w of_u64_le [of w]
    by (subst f(1)) (simp add: census_text_def x)
qed

definition census_serde :: serde where
  "census_serde = log_serde\<lparr>js_shapes := census_text, js_shapes_of := \<lambda>b. census_read (Suc (length b)) [] b\<rparr>"

lemma census_serde_sel [simp]:
  "js_doc census_serde = js_doc sample_serde" "js_doc_of census_serde = js_doc_of sample_serde"
  "js_info census_serde = js_info sample_serde" "js_info_of census_serde = js_info_of sample_serde"
  "js_names census_serde = js_names sample_serde" "js_names_of census_serde = js_names_of sample_serde"
  "js_value census_serde = js_value sample_serde" "js_schema_of census_serde = js_schema_of sample_serde"
  "js_change census_serde = js_change log_serde" "js_change_of census_serde = js_change_of log_serde"
  by (simp_all add: census_serde_def log_serde_def)

lemma census_reads: "reads_changes census_serde" "reads_shapes census_serde" "codec_ok census_serde 2"
proof -
  show s: "reads_shapes census_serde" by (simp add: reads_shapes_def census_serde_def census_read_text)
  show "reads_changes census_serde" using log_codec by (simp add: codec_ok_def reads_changes_def)
  then show "codec_ok census_serde 2" using s log_codec by (auto simp: codec_ok_def reads_shapes_def log_serde_def)
qed

lemma plain_records: "records_of census_serde sample_words [] plain_db Map.empty []" "accepts census_serde 2 plain_db"
proof -
  have "leads census_serde sample_words [] plain_db Map.empty Map.empty []"
    by (simp add: leads_def feed_view_def vecs_view_def log_docs_def plain_get get_u64_def estate_of_def view_of_def docs_of_def
        ids_clean_def family_of_def meta_key_defs indexed_fields_def get_json_def counter_of_def doc_freq_def)
  moreover have "stored_docs sample_words Map.empty = Map.empty" "embeddings Map.empty = Map.empty"
    by (simp_all add: stored_docs_def embeddings_def)
  moreover have "family_rows rows (get_cf plain_db c) Map.empty" if "c \<in> row_families" for c rows
    using that by (auto simp: family_rows_def plain_get row_families_def)
  moreover have "get_u64 plain_db META_TOTAL_TOKENS = 0" "shapes census_serde plain_db = Inr []"
    by (simp_all add: get_u64_def plain_get meta_key_defs shapes_def get_json_def or_default_def)
  ultimately show "records_of census_serde sample_words [] plain_db Map.empty []"
    by (simp add: records_of_def own_ids_def token_total_def shape_count_def df_value_def)
  show "accepts census_serde 2 plain_db"
    by (simp add: accepts_def plain_get get_json_def meta_key_defs) (simp add: sample_serde_def)
qed

lemma census_sample:
  "plain_record 2 sample_record" "readable census_serde (stored_of sample_words sample_record)"
  "\<forall>r \<in> set [sample_record]. SEP \<notin> set (vr_id r) \<and>
     js_doc_of census_serde (js_doc census_serde (stored_of sample_words r)) = Some (stored_of sample_words r)"
  "token_total sample_words Map.empty + sum_list (map (record_tokens sample_words) [sample_record]) < 2 ^ 64"
proof -
  show "plain_record 2 sample_record" "readable census_serde (stored_of sample_words sample_record)"
    using sample_plain by (simp_all add: readable_def)
  show "\<forall>r \<in> set [sample_record]. SEP \<notin> set (vr_id r) \<and>
     js_doc_of census_serde (js_doc census_serde (stored_of sample_words r)) = Some (stored_of sample_words r)"
    using sample_records by simp
  have "record_tokens sample_words sample_record < 2 ^ 64"
    using unsigned_less [of "of_nat (length (sample_words (vr_text sample_record))) :: 32 word", where 'a = nat] by (simp add: record_tokens_def)
  then show "token_total sample_words Map.empty + sum_list (map (record_tokens sample_words) [sample_record]) < 2 ^ 64"
    by (simp add: token_total_def)
qed

theorem upsert_refines_witness:
  "\<exists>db' p'. run_transaction census_serde sample_words 7 True [WUpsert [sample_record]] (plain_db, pending_new) = Some ((db', p'), None) \<and>
     records_of census_serde sample_words [] db' [''a'' \<mapsto> sample_record] (log_change 7 ChUpsert ''a'' [])"
proof -
  have lead: "leads census_serde sample_words [] plain_db (stored_docs sample_words Map.empty) (embeddings Map.empty) []"
    using plain_records(1) by (simp add: records_of_def)
  obtain db' p' where run: "run_transaction census_serde sample_words 7 True [WUpsert [sample_record]] (plain_db, pending_new) = Some ((db', p'), None)"
    using upsert_runs [OF plain_records(2) census_reads(3) census_sample(1) lead census_sample(2), of 7 pending_new] by auto
  have id: "vr_id sample_record = ''a''" by (simp add: sample_record_def vector_record_new_def)
  from upsert_refines [OF plain_records(1) run _ census_sample(3) census_reads(1,2) _ census_sample(4)] run
  show ?thesis by (auto simp: id)
qed

lemma census_after: "\<exists>db. records_of census_serde sample_words [] db [''a'' \<mapsto> sample_record] (log_change 7 ChUpsert ''a'' []) \<and> accepts census_serde 2 db"
proof -
  have lead: "leads census_serde sample_words [] plain_db (stored_docs sample_words Map.empty) (embeddings Map.empty) []"
    using plain_records(1) by (simp add: records_of_def)
  obtain db' p' where run: "run_transaction census_serde sample_words 7 True [WUpsert [sample_record]] (plain_db, pending_new) = Some ((db', p'), None)"
    and acc: "accepts census_serde 2 db'"
    using upsert_runs [OF plain_records(2) census_reads(3) census_sample(1) lead census_sample(2), of 7 pending_new] by auto
  have id: "vr_id sample_record = ''a''" by (simp add: sample_record_def vector_record_new_def)
  from upsert_keeps_records [OF plain_records(1) run _ census_sample(3) census_reads(1,2) _ census_sample(4)] acc
  show ?thesis by (auto simp: id)
qed

theorem remove_refines_witness:
  "\<exists>db (p :: (bytes, vec) pstate) db' p'. records_of census_serde sample_words [] db [''a'' \<mapsto> sample_record] (log_change 7 ChUpsert ''a'' []) \<and>
     run_transaction census_serde sample_words 8 True [WRemove ''a''] (db, p) = Some ((db', p'), None) \<and>
     records_of census_serde sample_words [] db' Map.empty (log_change 8 ChRemove ''a'' (log_change 7 ChUpsert ''a'' []))"
proof -
  obtain db where rec: "records_of census_serde sample_words [] db [''a'' \<mapsto> sample_record] (log_change 7 ChUpsert ''a'' [])"
    and acc: "accepts census_serde 2 db" using census_after by blast
  have lead: "leads census_serde sample_words [] db (stored_docs sample_words [''a'' \<mapsto> sample_record])
      (embeddings [''a'' \<mapsto> sample_record]) (log_change 7 ChUpsert ''a'' [])"
    using rec by (simp add: records_of_def)
  obtain db' p' where run: "run_transaction census_serde sample_words 8 True [WRemove ''a''] (db, pending_new) = Some ((db', p'), None)"
    using remove_runs [OF acc census_reads(3) lead, where p = pending_new and now = 8 and i = "''a''"] by (auto simp: recall_remove_def)
  have "[''a'' \<mapsto> sample_record](''a'' := None) = Map.empty" by (simp add: fun_eq_iff)
  with remove_refines [OF rec run census_reads(1,2)] rec run show ?thesis by fastforce
qed

end
