(* ===== verification/Sql.thy ===== *)
theory Sql
  imports Lower Rels Estate
begin

text \<open>
  The executor of RRQL statements against an estate, \<open>crates/rro-engine/src/sql.rs\<close>: every statement
  but \<open>SELECT\<close> and \<open>LIVE\<close>, which are refused, is a call of an operation of the estate.  The estate
  keeps the description it was opened with (\<open>es_info\<close>) beside its database and pending queue.
  \<open>None\<close> is a panic of the store.
\<close>

record estate =
  es_info :: estate_info
  es_store :: "db \<times> (bytes, vec) pstate"

definition with_db :: "estate \<Rightarrow> db \<Rightarrow> estate" where
  "with_db es db = es\<lparr>es_store := (db, snd (es_store es))\<rparr>"

datatype sql_outcome =
    Defined bytes
  | Removed bytes "64 word option"
  | Updated bytes bool
  | Deleted bytes bool
  | Related bytes
  | Traversed "bytes list"
  | Catalog estate_info

text \<open>An operation that returns the whole database or an error.\<close>

definition ran :: "estate \<Rightarrow> sql_outcome \<Rightarrow> store_error + db \<Rightarrow> (estate \<times> (store_error + sql_outcome)) option" where
  "ran es out r = Some (case r of Inl e \<Rightarrow> (es, Inl e) | Inr db \<Rightarrow> (with_db es db, Inr out))"

definition set_metadata :: "(bytes \<times> ql_value) list \<Rightarrow> metadata" where
  "set_metadata kvs = fold (\<lambda>(k, v). meta_insert k (value_to_json v)) kvs []"

definition traverse_spec :: "traverse_stmt \<Rightarrow> traversal_spec" where
  "traverse_spec t =
     \<lparr>ts_verbs = trv_verbs t, ts_outbound = (trv_dir t \<in> {DirOut, DirBoth}), ts_inbound = (trv_dir t \<in> {DirIn, DirBoth}),
      ts_depth = min (case trv_depth t of None \<Rightarrow> ts_depth default_traversal | Some n \<Rightarrow> n) 64,
      ts_limit = min (case trv_limit t of None \<Rightarrow> ts_limit default_traversal | Some n \<Rightarrow> n) 10000\<rparr>"

definition apply_define :: "serde \<Rightarrow> define_stmt \<Rightarrow> estate \<Rightarrow> (estate \<times> (store_error + sql_outcome)) option" where
  "apply_define S d es =
     (let db = fst (es_store es) in
      case d of
        DIndex field \<Rightarrow>
          Some (case create_payload_index S field db of
                  (db', Some e) \<Rightarrow> (with_db es db', Inl e)
                | (db', None) \<Rightarrow> (with_db es db', Inr (Defined (''index '' @ field))))
      | DAlias alias coll \<Rightarrow> ran es (Defined (''alias '' @ alias @ '' -> '' @ coll)) (create_alias S alias coll db)
      | DField field coll ty \<Rightarrow>
          ran es (Defined (''field '' @ coll @ ''.'' @ field @ '' type '' @ field_type_as_str ty))
            (define_field S coll field (field_type_as_str ty) db))"

definition apply_remove ::
  "serde \<Rightarrow> (bytes \<Rightarrow> bytes list) \<Rightarrow> epoch_ms \<Rightarrow> bool \<Rightarrow> remove_stmt \<Rightarrow> estate \<Rightarrow> (estate \<times> (store_error + sql_outcome)) option" where
  "apply_remove S analyze now stats r es =
     (case r of
        RmField field coll \<Rightarrow>
          ran es (Removed (''field '' @ coll @ ''.'' @ field) None) (remove_field S coll field (fst (es_store es)))
      | RmAlias alias \<Rightarrow> ran es (Removed (''alias '' @ alias) None) (delete_alias S alias (fst (es_store es)))
      | RmCollection name \<Rightarrow>
          Some (case drop_collection S analyze now stats name (es_store es) of
                  (st, Inl e) \<Rightarrow> (es\<lparr>es_store := st\<rparr>, Inl e)
                | (st, Inr n) \<Rightarrow> (es\<lparr>es_store := st\<rparr>, Inr (Removed (''collection '' @ name) (Some n)))))"

definition apply_update :: "serde \<Rightarrow> epoch_ms \<Rightarrow> update_stmt \<Rightarrow> estate \<Rightarrow> (estate \<times> (store_error + sql_outcome)) option" where
  "apply_update S now u es =
     ran es (Updated (upd_id u) (upd_replace u))
       (mutate_payload S now (upd_id u)
          (if upd_replace u then overwrite_payload (set_metadata (upd_set u)) else set_payload (set_metadata (upd_set u)))
          (fst (es_store es)))"

definition apply_delete ::
  "serde \<Rightarrow> (bytes \<Rightarrow> bytes list) \<Rightarrow> epoch_ms \<Rightarrow> bool \<Rightarrow> delete_stmt \<Rightarrow> estate \<Rightarrow> (estate \<times> (store_error + sql_outcome)) option" where
  "apply_delete S analyze now stats d es =
     (let out = Deleted (del_id d) (del_payload_only d) in
      if \<not> del_payload_only d then
        (case recall_remove S analyze now stats (del_id d) (es_store es) of
           None \<Rightarrow> None
         | Some (st, Some e) \<Rightarrow> Some (es\<lparr>es_store := st\<rparr>, Inl e)
         | Some (st, None) \<Rightarrow> Some (es\<lparr>es_store := st\<rparr>, Inr out))
      else ran es out
        (mutate_payload S now (del_id d)
           (if del_keys d = [] then clear_payload else delete_payload_keys (del_keys d)) (fst (es_store es))))"

definition apply_stmt ::
  "serde \<Rightarrow> (bytes \<Rightarrow> bytes list) \<Rightarrow> epoch_ms \<Rightarrow> bool \<Rightarrow> statement \<Rightarrow> estate \<Rightarrow> (estate \<times> (store_error + sql_outcome)) option" where
  "apply_stmt S analyze now stats stmt es =
     (case stmt of
        SSelect _ \<Rightarrow> Some (es, Inl (Rejected ''SELECT''))
      | SDefine d \<Rightarrow> apply_define S d es
      | SRemove r \<Rightarrow> apply_remove S analyze now stats r es
      | SUpdate u \<Rightarrow> apply_update S now u es
      | SDelete d \<Rightarrow> apply_delete S analyze now stats d es
      | SRelate r \<Rightarrow>
          Some (with_db es (relate (fst (es_store es)) (relate_stmt.rel_from r) (relate_stmt.rel_verb r) (relate_stmt.rel_to r)),
            Inr (Related (relate_stmt.rel_from r @ '' -'' @ relate_stmt.rel_verb r @ ''-> '' @ relate_stmt.rel_to r)))
      | STraverse t \<Rightarrow> Some (es, Inr (Traversed (traverse (fst (es_store es)) (trv_start t) (traverse_spec t))))
      | SInfo \<Rightarrow> Some (es, Inr (Catalog (es_info es)))
      | SLive _ \<Rightarrow> Some (es, Inl (Rejected ''LIVE'')))"

text \<open>The classification the read-only surfaces gate on is right: a statement that is not a write leaves
  the estate as it was.\<close>

lemma read_keeps_estate:
  "\<not> is_write stmt \<Longrightarrow> apply_stmt S analyze now stats stmt es = Some (es', r) \<Longrightarrow> es' = es"
  by (cases stmt) (simp_all add: apply_stmt_def)

end
