(* ===== verification/Node.thy ===== *)
theory Node
  imports Sql Auth Replica
begin

text \<open>
  The message handler of a node, \<open>FlowNode::handle\<close> of \<open>crates/rro-engine/src/handler.rs\<close>: the gate,
  then one branch per verb.  The verbs of the estate are modelled; those that run the flow and its
  models, report health or do the storage's own maintenance (\<open>flow_verbs\<close>) are a parameter, \<open>other\<close>,
  which returns the node after them.  Further parameters: \<open>embedded\<close>, the documents of an upsert read
  and embedded, and \<open>select\<close>, the answer to a \<open>SELECT\<close>.  Replies are typed values before their JSON.
  A handler error closes the call (\<open>Inl\<close>); \<open>None\<close> is a panic.
\<close>

section \<open>Messages, nodes, replies\<close>

record message =
  ms_from :: bytes
  ms_verb :: bytes
  ms_token :: "bytes option"
  ms_body :: json

record node =
  fn_gate :: node_gate
  fn_estate :: "estate option"
  fn_cluster :: "cluster option"

datatype reply =
    RpUnauthorized
  | RpError bytes
  | RpFail store_error
  | RpPong
  | RpOk
  | RpChanges "change list" "64 word"
  | RpEntries "repl_entry list" "64 word"
  | RpOutcome sql_outcome
  | RpSelected bytes
  | RpRelated
  | RpIds "bytes list"
  | RpDocs "stored_doc list"
  | RpCollections "(bytes \<times> 64 word) list"
  | RpAliases "(bytes \<times> bytes) list"
  | RpDropped "64 word"
  | RpCommitted nat
  | RpQuorum nat "64 word"
  | RpAwaits nat "64 word"
  | RpOther bytes

type_synonym handled = "(node \<times> (store_error + reply)) option"

section \<open>Reading the body\<close>

definition body_str :: "message \<Rightarrow> bytes \<Rightarrow> bytes option" where
  "body_str m k = Option.bind (json_get k (ms_body m)) as_str"

definition as_u64 :: "json \<Rightarrow> 64 word option" where
  "as_u64 v = (case v of JNum (PosInt n) \<Rightarrow> Some n | _ \<Rightarrow> None)"

definition body_u64 :: "message \<Rightarrow> bytes \<Rightarrow> 64 word \<Rightarrow> 64 word" where
  "body_u64 m k d = (case Option.bind (json_get k (ms_body m)) as_u64 of None \<Rightarrow> d | Some n \<Rightarrow> n)"

definition body_bool :: "message \<Rightarrow> bytes \<Rightarrow> bool \<Rightarrow> bool" where
  "body_bool m k d = (case json_get k (ms_body m) of Some (JBool b) \<Rightarrow> b | _ \<Rightarrow> d)"

text \<open>The strings of an array; anything that is not an array has none.\<close>

definition body_strings :: "message \<Rightarrow> bytes \<Rightarrow> bytes list" where
  "body_strings m k = (case json_get k (ms_body m) of Some (JArr vs) \<Rightarrow> List.map_filter as_str vs | _ \<Rightarrow> [])"

definition body_metadata :: "message \<Rightarrow> store_error + metadata" where
  "body_metadata m = (case json_get ''metadata'' (ms_body m) of None \<Rightarrow> Inr [] | Some (JObj kvs) \<Rightarrow> Inr kvs | Some _ \<Rightarrow> Inl BadJson)"

definition no_estate :: reply where
  "no_estate = RpError ''no estate attached to this node''"

definition with_estate :: "node \<Rightarrow> estate \<Rightarrow> node" where
  "with_estate n es = n\<lparr>fn_estate := Some es\<rparr>"

section \<open>Reading verbs\<close>

definition next_seq :: "64 word \<Rightarrow> 64 word list \<Rightarrow> 64 word" where
  "next_seq since seqs = (if seqs = [] then since else last seqs + 1)"

definition changes_verb :: "serde \<Rightarrow> message \<Rightarrow> estate \<Rightarrow> store_error + reply" where
  "changes_verb S m es =
     (let since = body_u64 m ''since_seq'' 0; limit = min (unat (body_u64 m ''limit'' 256)) 4096 in
      bind_result (changes S since limit (fst (es_store es))) (\<lambda>cs. Inr (RpChanges cs (next_seq since (map ch_seq cs)))))"

text \<open>A poll of the stream: its cursor is recorded as the sender's before anything is read.\<close>

definition replicate_step :: "serde \<Rightarrow> message \<Rightarrow> estate \<Rightarrow> node \<Rightarrow> node \<times> reply" where
  "replicate_step S m es n =
     (let since = body_u64 m ''since_seq'' 0;
          n' = (case fn_cluster n of None \<Rightarrow> n | Some c \<Rightarrow> n\<lparr>fn_cluster := Some (snd (observe (ms_from m) since c))\<rparr>) in
      (n', case replicate_verb S since (unat (body_u64 m ''limit'' 256)) (fst (es_store es)) of
             Inl e \<Rightarrow> RpFail e
           | Inr entries \<Rightarrow> RpEntries entries (next_seq since (map re_seq entries))))"

definition verb_traversal :: "message \<Rightarrow> traversal_spec" where
  "verb_traversal m =
     \<lparr>ts_verbs = body_strings m ''verbs'', ts_outbound = body_bool m ''outbound'' (ts_outbound default_traversal),
      ts_inbound = body_bool m ''inbound'' (ts_inbound default_traversal),
      ts_depth = min (unat (body_u64 m ''depth'' (of_nat (ts_depth default_traversal)))) 64,
      ts_limit = min (unat (body_u64 m ''limit'' (of_nat (ts_limit default_traversal)))) 10000\<rparr>"

definition traverse_verb :: "message \<Rightarrow> estate \<Rightarrow> reply" where
  "traverse_verb m es =
     (let start = body_strings m ''start'' in
      if start = [] then RpError ''traverse needs a non-empty `start`''
      else RpIds (traverse (fst (es_store es)) start (verb_traversal m)))"

definition sample_verb :: "serde \<Rightarrow> message \<Rightarrow> estate \<Rightarrow> store_error + reply" where
  "sample_verb S m es =
     bind_result (sample_docs S (min (unat (body_u64 m ''n'' 10)) 4096) (body_u64 m ''seed'' 0) (fst (es_store es))) (\<lambda>ds. Inr (RpDocs ds))"

section \<open>Writing verbs\<close>

definition relate_verb :: "message \<Rightarrow> estate \<Rightarrow> node \<Rightarrow> node \<times> reply" where
  "relate_verb m es n =
     (case (body_str m ''from'', body_str m ''verb'', body_str m ''to'') of
        (Some a, Some v, Some b) \<Rightarrow> (with_estate n (with_db es (relate (fst (es_store es)) a v b)), RpRelated)
      | _ \<Rightarrow> (n, RpError ''relate needs `from`, `verb`, `to`''))"

text \<open>The payload verbs reply with the store's error; a body that is not metadata is a handler error.\<close>

definition payload_change :: "message \<Rightarrow> store_error + (metadata \<Rightarrow> metadata)" where
  "payload_change m =
     (if ms_verb m = ''set_payload'' then bind_result (body_metadata m) (\<lambda>d. Inr (set_payload d))
      else if ms_verb m = ''overwrite_payload'' then bind_result (body_metadata m) (\<lambda>d. Inr (overwrite_payload d))
      else if ms_verb m = ''delete_payload_keys'' then Inr (delete_payload_keys (body_strings m ''keys''))
      else Inr clear_payload)"

definition or_empty :: "bytes option \<Rightarrow> bytes" where
  "or_empty s = (case s of None \<Rightarrow> [] | Some x \<Rightarrow> x)"

definition payload_verb :: "serde \<Rightarrow> epoch_ms \<Rightarrow> message \<Rightarrow> estate \<Rightarrow> node \<Rightarrow> node \<times> (store_error + reply)" where
  "payload_verb S now m es n =
     (case payload_change m of
        Inl e \<Rightarrow> (n, Inl e)
      | Inr f \<Rightarrow>
          (case mutate_payload S now (or_empty (body_str m ''id'')) f (fst (es_store es)) of
             Inl e \<Rightarrow> (n, Inr (RpFail e))
           | Inr db \<Rightarrow> (with_estate n (with_db es db), Inr RpOk)))"

definition alias_verb :: "serde \<Rightarrow> message \<Rightarrow> estate \<Rightarrow> node \<Rightarrow> node \<times> (store_error + reply)" where
  "alias_verb S m es n =
     (case (if ms_verb m = ''create_alias''
            then create_alias S (or_empty (body_str m ''alias'')) (or_empty (body_str m ''collection'')) (fst (es_store es))
            else delete_alias S (or_empty (body_str m ''alias'')) (fst (es_store es))) of
        Inl e \<Rightarrow> (n, Inl e)
      | Inr db \<Rightarrow> (with_estate n (with_db es db), Inr RpOk))"

definition drop_verb ::
  "serde \<Rightarrow> (bytes \<Rightarrow> bytes list) \<Rightarrow> epoch_ms \<Rightarrow> bool \<Rightarrow> message \<Rightarrow> estate \<Rightarrow> node \<Rightarrow> node \<times> (store_error + reply)" where
  "drop_verb S analyze now stats m es n =
     (case drop_collection S analyze now stats (or_empty (body_str m ''name'')) (es_store es) of
        (st, Inl e) \<Rightarrow> (with_estate n (es\<lparr>es_store := st\<rparr>), Inl e)
      | (st, Inr k) \<Rightarrow> (with_estate n (es\<lparr>es_store := st\<rparr>), Inr (RpDropped k)))"

text \<open>The operations of a transaction, in order; \<open>embedded\<close> reads and embeds the documents of one.\<close>

fun tx_ops :: "(json \<Rightarrow> store_error + vector_record list) \<Rightarrow> json list \<Rightarrow> store_error + write_op list" where
  "tx_ops embedded [] = Inr []"
| "tx_ops embedded (v # vs) =
     bind_result
       (case json_get ''upsert'' v of
          Some docs \<Rightarrow> bind_result (embedded docs) (\<lambda>rs. Inr (WUpsert rs))
        | None \<Rightarrow>
            (case Option.bind (json_get ''remove'' v) as_str of
               Some i \<Rightarrow> Inr (WRemove i)
             | None \<Rightarrow> Inl (Rejected ''tx op'')))
       (\<lambda>w. bind_result (tx_ops embedded vs) (\<lambda>ws. Inr (w # ws)))"

text \<open>
  The acknowledgement: plain, or after the wait for a quorum at the feed's head.  A target that is
  committed already is acknowledged at once; otherwise the reply waits (\<open>RpAwaits\<close>) for
  \<open>is_committed\<close> or the timeout.
\<close>

definition tx_ack :: "message \<Rightarrow> nat \<Rightarrow> estate \<Rightarrow> node \<Rightarrow> reply" where
  "tx_ack m k es n =
     (if body_str m ''durability'' \<noteq> Some ''quorum'' then RpCommitted k
      else (case fn_cluster n of
              None \<Rightarrow> RpError ''durability quorum requested but this node is not a cluster leader''
            | Some c \<Rightarrow>
                (let target = fst_next_seq (feed_stats_of (fst (es_store es))) in
                 if is_committed target c then RpQuorum k target else RpAwaits k target)))"

definition tx_verb ::
  "serde \<Rightarrow> (bytes \<Rightarrow> bytes list) \<Rightarrow> epoch_ms \<Rightarrow> bool \<Rightarrow> (json \<Rightarrow> store_error + vector_record list) \<Rightarrow> message \<Rightarrow> estate \<Rightarrow> node \<Rightarrow> handled" where
  "tx_verb S analyze now stats embedded m es n =
     (case json_get ''ops'' (ms_body m) of
        Some (JArr vs) \<Rightarrow>
          (case tx_ops embedded vs of
             Inl e \<Rightarrow> Some (n, Inl e)
           | Inr ops \<Rightarrow>
               (case run_transaction S analyze now stats ops (es_store es) of
                  None \<Rightarrow> None
                | Some (st, Some e) \<Rightarrow> Some (with_estate n (es\<lparr>es_store := st\<rparr>), Inl e)
                | Some (st, None) \<Rightarrow>
                    (let es' = es\<lparr>es_store := st\<rparr> in Some (with_estate n es', Inr (tx_ack m (length ops) es' n)))))
      | _ \<Rightarrow> Some (n, Inl (Rejected ''tx body'')))"

section \<open>Statements\<close>

text \<open>A reader's write is unauthorized; a write under \<open>read_only\<close> is refused; a \<open>SELECT\<close> goes to the flow.\<close>

definition sql_verb ::
  "serde \<Rightarrow> (bytes \<Rightarrow> bytes list) \<Rightarrow> epoch_ms \<Rightarrow> bool \<Rightarrow> (bytes \<Rightarrow> estate \<Rightarrow> bytes) \<Rightarrow> role option \<Rightarrow> message \<Rightarrow> estate \<Rightarrow> node \<Rightarrow> handled" where
  "sql_verb S analyze now stats select r m es n =
     (case body_str m ''sql'' of
        None \<Rightarrow> Some (n, Inr (RpError ''sql needs a `sql` string''))
      | Some src \<Rightarrow>
          (case parse src of
             Inl QlPanic \<Rightarrow> None
           | Inl _ \<Rightarrow> Some (n, Inr (RpError ''syntax''))
           | Inr stmt \<Rightarrow>
               if r = Some Reader \<and> is_write stmt then Some (n, Inr RpUnauthorized)
               else if body_bool m ''read_only'' False \<and> is_write stmt then Some (n, Inr (RpError (keyword stmt)))
               else (case stmt of
                       SSelect _ \<Rightarrow> Some (n, Inr (RpSelected (select src es)))
                     | _ \<Rightarrow>
                         (case apply_stmt S analyze now stats stmt es of
                            None \<Rightarrow> None
                          | Some (es', Inl e) \<Rightarrow> Some (with_estate n es', Inr (RpFail e))
                          | Some (es', Inr out) \<Rightarrow> Some (with_estate n es', Inr (RpOutcome out))))))"

section \<open>The handler\<close>

definition flow_verbs :: "bytes set" where
  "flow_verbs = {''ask'', ''recall'', ''map'', ''query'', ''recommend'', ''discover'', ''index'', ''graphql'', ''health'',
     ''info'', ''flush'', ''compact'', ''matrix''}"

definition estate_verb ::
  "serde \<Rightarrow> (bytes \<Rightarrow> bytes list) \<Rightarrow> epoch_ms \<Rightarrow> bool \<Rightarrow> (json \<Rightarrow> store_error + vector_record list) \<Rightarrow> (bytes \<Rightarrow> estate \<Rightarrow> bytes) \<Rightarrow>
   role option \<Rightarrow> message \<Rightarrow> estate \<Rightarrow> node \<Rightarrow> handled" where
  "estate_verb S analyze now stats embedded select r m es n =
     (let v = ms_verb m in
      if v = ''changes'' then Some (n, changes_verb S m es)
      else if v = ''replicate'' then (case replicate_step S m es n of (n', rp) \<Rightarrow> Some (n', Inr rp))
      else if v = ''sql'' then sql_verb S analyze now stats select r m es n
      else if v = ''relate'' then (case relate_verb m es n of (n', rp) \<Rightarrow> Some (n', Inr rp))
      else if v = ''traverse'' then Some (n, Inr (traverse_verb m es))
      else if v = ''tx'' then tx_verb S analyze now stats embedded m es n
      else if v = ''sample'' then Some (n, sample_verb S m es)
      else if v = ''collections'' then Some (n, bind_result (collections S (fst (es_store es))) (\<lambda>c. Inr (RpCollections c)))
      else if v = ''aliases'' then Some (n, bind_result (aliases S (fst (es_store es))) (\<lambda>a. Inr (RpAliases a)))
      else if v = ''drop_collection'' then Some (drop_verb S analyze now stats m es n)
      else if v \<in> {''create_alias'', ''delete_alias''} then Some (alias_verb S m es n)
      else if v \<in> {''set_payload'', ''overwrite_payload'', ''delete_payload_keys'', ''clear_payload''} then
        Some (payload_verb S now m es n)
      else Some (n, Inr (RpError (''unknown verb: '' @ v))))"

definition estate_verbs :: "bytes set" where
  "estate_verbs = {''changes'', ''replicate'', ''sql'', ''relate'', ''traverse'', ''tx'', ''sample'', ''collections'', ''aliases'',
     ''drop_collection'', ''create_alias'', ''delete_alias'', ''set_payload'', ''overwrite_payload'', ''delete_payload_keys'',
     ''clear_payload''}"

definition handle ::
  "serde \<Rightarrow> (bytes \<Rightarrow> bytes list) \<Rightarrow> epoch_ms \<Rightarrow> bool \<Rightarrow> (json \<Rightarrow> store_error + vector_record list) \<Rightarrow> (bytes \<Rightarrow> estate \<Rightarrow> bytes) \<Rightarrow>
   (message \<Rightarrow> node \<Rightarrow> node \<times> bytes) \<Rightarrow> (bytes \<Rightarrow> claims option) \<Rightarrow> 64 word \<Rightarrow> message \<Rightarrow> node \<Rightarrow> handled" where
  "handle S analyze now stats embedded select other claims_of clock m n =
     (case node_authorize claims_of clock (fn_gate n) (ms_token m) (ms_verb m) of
        Inl _ \<Rightarrow> Some (n, Inr RpUnauthorized)
      | Inr r \<Rightarrow>
          if ms_verb m = ''ping'' then Some (n, Inr RpPong)
          else if ms_verb m \<in> flow_verbs then (case other m n of (n', b) \<Rightarrow> Some (n', Inr (RpOther b)))
          else if ms_verb m \<notin> estate_verbs then Some (n, Inr (RpError (''unknown verb: '' @ ms_verb m)))
          else (case fn_estate n of
                  None \<Rightarrow> Some (n, Inr no_estate)
                | Some es \<Rightarrow> estate_verb S analyze now stats embedded select r m es n))"

section \<open>What a role may do\<close>



lemma handle_cases:
  assumes "handle S analyze now stats embedded select other claims_of clock m n = Some (n', rp)"
  obtains (refused) "n' = n" "rp = Inr RpUnauthorized"
    | (simple) r b where "node_authorize claims_of clock (fn_gate n) (ms_token m) (ms_verb m) = Inr r" "n' = n" "rp \<in> {Inr RpPong, Inr (RpError b), Inr no_estate}"
    | (flow) r b where "node_authorize claims_of clock (fn_gate n) (ms_token m) (ms_verb m) = Inr r" "ms_verb m \<in> flow_verbs" "rp = Inr (RpOther b)"
    | (verb) r es where "node_authorize claims_of clock (fn_gate n) (ms_token m) (ms_verb m) = Inr r" "fn_estate n = Some es"
        "estate_verb S analyze now stats embedded select r m es n = Some (n', rp)"
  using assms by (auto simp: handle_def split: sum.splits if_splits option.splits prod.splits)


section \<open>Quorum acknowledgements\<close>

text \<open>Only a transaction waits for a quorum, and only for a target the cluster does not count as committed.\<close>

lemma no_wait:
  "changes_verb S m es \<noteq> Inr (RpAwaits k t)" "replicate_step S m es n \<noteq> (n', RpAwaits k t)" "relate_verb m es n \<noteq> (n', RpAwaits k t)"
  "traverse_verb m es \<noteq> RpAwaits k t" "sample_verb S m es \<noteq> Inr (RpAwaits k t)"
  "drop_verb S analyze now stats m es n \<noteq> (n', Inr (RpAwaits k t))" "alias_verb S m es n \<noteq> (n', Inr (RpAwaits k t))"
  "payload_verb S now m es n \<noteq> (n', Inr (RpAwaits k t))"
  "sql_verb S analyze now stats select r m es n \<noteq> Some (n', Inr (RpAwaits k t))"
  by (auto simp: changes_verb_def replicate_step_def relate_verb_def traverse_verb_def sample_verb_def drop_verb_def alias_verb_def
      payload_verb_def sql_verb_def Let_def bind_result_Inr_iff
      split: option.splits sum.splits if_splits prod.splits ql_fail.splits statement.splits)

lemma tx_waits:
  assumes "tx_verb S analyze now stats embedded m es n = Some (n', Inr (RpAwaits k t))"
  shows "\<exists>c. fn_cluster n = Some c \<and> \<not> is_committed t c"
  using assms by (auto simp: tx_verb_def tx_ack_def Let_def
      split: option.splits json.splits sum.splits prod.splits if_splits)

lemma awaits_uncommitted:
  assumes "handle S analyze now stats embedded select other claims_of clock m n = Some (n', Inr (RpAwaits k t))"
  shows "\<exists>c. fn_cluster n = Some c \<and> \<not> is_committed t c"
  using assms
proof (cases rule: handle_cases)
  case (verb r es)
  have "tx_verb S analyze now stats embedded m es n = Some (n', Inr (RpAwaits k t))"
    using verb(3) by (auto simp: estate_verb_def Let_def bind_result_Inr_iff no_wait split: if_splits prod.splits)
  then show ?thesis by (rule tx_waits)
qed (auto simp: no_estate_def)

lemma observe_committed:
  assumes "c_quorum c \<le> 2"
  shows "is_committed t (snd (observe follower (- 1) c))"
proof -
  let ?fs = "c_followers (snd (observe follower (- 1) c))"
  have top: "t \<le> - 1" for t :: "64 word" by (simp add: word_order.extremum)
  have "(follower, - 1) \<in> set ?fs"
  proof (cases "(case map_of (c_followers c) follower of Some x \<Rightarrow> x | None \<Rightarrow> 0) < - 1")
    case True
    then show ?thesis using map_of_SomeD [of "AList.update follower (- 1) (c_followers c)"]
      by (simp add: observe_def Let_def update_Some_unfold)
  next
    case False
    then have "(case map_of (c_followers c) follower of Some x \<Rightarrow> x | None \<Rightarrow> 0) = - 1"
      using top [of "case map_of (c_followers c) follower of Some x \<Rightarrow> x | None \<Rightarrow> 0"] by (simp add: not_less order.antisym)
    then show ?thesis using map_of_SomeD [of "AList.update follower (- 1) (c_followers c)"]
      by (simp add: observe_def Let_def update_Some_unfold)
  qed
  then have "(follower, - 1) \<in> set (filter (\<lambda>(_, x). t \<le> x) ?fs)" using top by simp
  then have "0 < length (filter (\<lambda>(_, x). t \<le> x) ?fs)" by (rule length_pos_if_in_set)
  moreover have "c_quorum (snd (observe follower (- 1) c)) = c_quorum c" by (simp add: observe_def Let_def)
  ultimately show ?thesis using assms unfolding is_committed_def holders_def by linarith
qed

text \<open>C23: one poll defeats the quorum.  When a node that leads a cluster with a quorum of at most two
  handles a \<open>replicate\<close> message of a reader whose \<open>since_seq\<close> is the largest number, from whatever
  sender name, it counts every target as committed, and no transaction it handles next waits for a
  quorum any more, though nobody holds what it writes.\<close>

theorem forged_poll_commits:
  assumes "node_authorize claims_of clock (fn_gate n) (ms_token m) (ms_verb m) = Inr (Some Reader)"
    "ms_verb m = ''replicate''" "json_get ''since_seq'' (ms_body m) = Some (JNum (PosInt (- 1)))"
    "fn_estate n = Some es" "fn_cluster n = Some c" "c_quorum c \<le> 2"
  shows "\<exists>n' rp. handle S analyze now stats embedded select other claims_of clock m n = Some (n', Inr rp) \<and>
    (\<forall>t. is_committed t (the (fn_cluster n'))) \<and>
    (\<forall>m' n'' k t. handle S analyze now stats embedded select other claims_of clock m' n' \<noteq> Some (n'', Inr (RpAwaits k t)))"
proof -
  let ?c = "snd (observe (ms_from m) (- 1) c)"
  have since: "body_u64 m ''since_seq'' 0 = - 1" using assms(3) by (simp add: body_u64_def as_u64_def)
  obtain rp where step: "replicate_step S m es n = (n\<lparr>fn_cluster := Some ?c\<rparr>, rp)"
    using assms(5) since by (cases "replicate_step S m es n") (auto simp: replicate_step_def Let_def)
  have "handle S analyze now stats embedded select other claims_of clock m n = Some (n\<lparr>fn_cluster := Some ?c\<rparr>, Inr rp)"
    using assms(1,2,4) step by (simp add: handle_def estate_verb_def flow_verbs_def estate_verbs_def)
  moreover have "is_committed t (the (fn_cluster (n\<lparr>fn_cluster := Some ?c\<rparr>)))" for t
    using observe_committed [OF assms(6)] by simp
  moreover have "handle S analyze now stats embedded select other claims_of clock m' (n\<lparr>fn_cluster := Some ?c\<rparr>) \<noteq> Some (n'', Inr (RpAwaits k t))"
    for m' n'' k t
    using awaits_uncommitted [of S analyze now stats embedded select other claims_of clock m' "n\<lparr>fn_cluster := Some ?c\<rparr>" n'' k t]
      observe_committed [OF assms(6), of t] by auto
  ultimately show ?thesis by blast
qed


text \<open>A reader of a node with a policy, for the witnesses.\<close>

definition reader_claims :: claims where
  "reader_claims = \<lparr>cl_sub = ''u'', cl_role = Reader, cl_ns = None, cl_iat = 0, cl_exp = 9\<rparr>"

definition claims_codec :: "bytes \<Rightarrow> claims option" where
  "claims_codec b = (if b = ''{}'' then Some reader_claims else None)"

definition reader_message :: "bytes \<Rightarrow> json \<Rightarrow> message" where
  "reader_message v body = \<lparr>ms_from = ''x'', ms_verb = v, ms_token = Some (issue (\<lambda>_. ''{}'') (policy_new ''k'') reader_claims), ms_body = body\<rparr>"

definition leader_node :: "db \<Rightarrow> node" where
  "leader_node db =
     \<lparr>fn_gate = \<lparr>ng_auth = Some (policy_new ''k''), ng_token = None\<rparr>,
      fn_estate = Some \<lparr>es_info = \<lparr>ei_id = ''e'', ei_name = ''e'', ei_created_at = 0, ei_dim = None, ei_named_dims = []\<rparr>, es_store = (db, pending_new)\<rparr>,
      fn_cluster = Some (cluster_new 2)\<rparr>"

lemma reader_admitted:
  assumes "v \<in> {''replicate'', ''sql''}"
  shows "node_authorize claims_codec 3 (fn_gate (leader_node db)) (ms_token (reader_message v body)) (ms_verb (reader_message v body)) = Inr (Some Reader)"
proof -
  have min: "min_role v = Reader" "v \<noteq> ''ping''" using assms by (auto simp: min_role_def)
  have "authorize claims_codec 3 (policy_new ''k'') (Some (issue (\<lambda>_. ''{}'') (policy_new ''k'') reader_claims)) v = Inr Reader"
    unfolding authorize_alt issue_def verify_signed
    by (simp add: claims_codec_def allows_def min) (simp add: reader_claims_def policy_new_def ns_compatible_def)
  then show ?thesis using min by (simp add: node_authorize_def leader_node_def reader_message_def)
qed

theorem forged_poll_commits_witness:
  "\<exists>n' rp. handle sample_serde sample_words 7 True (\<lambda>_. Inr []) (\<lambda>_ _. []) (\<lambda>_ n. (n, [])) claims_codec 3
      (reader_message ''replicate'' (JObj [(''since_seq'', JNum (PosInt (- 1)))])) (leader_node sample_db) = Some (n', Inr rp) \<and>
    is_committed 5 (the (fn_cluster n'))"
proof -
  let ?m = "reader_message ''replicate'' (JObj [(''since_seq'', JNum (PosInt (- 1)))])" and ?n = "leader_node sample_db"
  have auth: "node_authorize claims_codec 3 (fn_gate ?n) (ms_token ?m) (ms_verb ?m) = Inr (Some Reader)" by (rule reader_admitted) simp
  have m: "ms_verb ?m = ''replicate''" "json_get ''since_seq'' (ms_body ?m) = Some (JNum (PosInt (- 1)))"
    by (simp_all add: reader_message_def json_get_def)
  obtain es where es: "fn_estate ?n = Some es" by (simp add: leader_node_def)
  have c: "fn_cluster ?n = Some (cluster_new 2)" "c_quorum (cluster_new 2) \<le> 2" by (simp_all add: leader_node_def cluster_new_def)
  show ?thesis
    using forged_poll_commits [OF auth m es c, of sample_serde sample_words 7 True "\<lambda>_. Inr []" "\<lambda>_ _. []" "\<lambda>_ n. (n, [])"] by blast
qed


text \<open>A writer may not send \<open>drop_collection\<close>, but its \<open>REMOVE COLLECTION\<close> statement does the same.\<close>

lemma writer_drops_by_statement:
  assumes auth: "node_authorize claims_of clock (fn_gate n) (ms_token m) (ms_verb m) = Inr (Some Writer)" "ms_verb m = ''sql''"
    and body: "body_str m ''sql'' = Some src" "parse src = Inr (SRemove (RmCollection name))" "\<not> body_bool m ''read_only'' False"
    and es: "fn_estate n = Some es"
  shows "\<exists>n' rp. handle S analyze now stats embedded select other claims_of clock m n = Some (n', Inr rp) \<and>
      fn_estate n' = Some (es\<lparr>es_store := fst (drop_collection S analyze now stats name (es_store es))\<rparr>)"
    and "handle S analyze now stats embedded select other claims_of clock (m\<lparr>ms_verb := ''drop_collection''\<rparr>) n = Some (n, Inr RpUnauthorized)"
proof -
  show "\<exists>n' rp. handle S analyze now stats embedded select other claims_of clock m n = Some (n', Inr rp) \<and>
      fn_estate n' = Some (es\<lparr>es_store := fst (drop_collection S analyze now stats name (es_store es))\<rparr>)"
    using assms by (cases "drop_collection S analyze now stats name (es_store es)"; cases "snd (drop_collection S analyze now stats name (es_store es))")
      (simp_all add: handle_def estate_verb_def flow_verbs_def estate_verbs_def sql_verb_def apply_stmt_def apply_remove_def with_estate_def)
  obtain p where p: "ng_auth (fn_gate n) = Some p" "authorize claims_of clock p (ms_token m) ''sql'' = Inr Writer"
    using auth by (auto simp: node_authorize_def split: if_splits option.splits sum.splits)
  then obtain t where "ms_token m = Some t" by (cases "ms_token m") (auto simp: authorize_def)
  then have "authorize claims_of clock p (ms_token m) ''drop_collection'' = Inl Forbidden"
    using p(2) by (auto simp: authorize_alt bind_result_Inr_iff allows_def min_role_def less_eq_role_def role_rank_def split: if_splits)
  then show "handle S analyze now stats embedded select other claims_of clock (m\<lparr>ms_verb := ''drop_collection''\<rparr>) n = Some (n, Inr RpUnauthorized)"
    using p(1) by (simp add: handle_def node_authorize_def)
qed

end
