(* ===== verification/Spec2Isabelle.thy ===== *)
theory Spec2Isabelle
  imports LexerSafe ParserRoundTrip Lower Rels Pending Auth KeysProps StoreRuns TagProps ReplicaProps SearchProps GraphFileProps
    Records Node
begin

text \<open>
  A model of \<open>rro\<close>, a retrieval engine over an embedded estate, and the theorems that make its core
  correct.  Paths are under \<open>src/crates\<close>.

  \<^bold>\<open>The program.\<close>  A statement of the query language (\<open>rro-ql\<close>) is lexed, parsed and lowered to the
  request the engine runs (\<open>rro-core/src/query.rs\<close>).  The estate (\<open>connxism\<close>) keeps documents, vectors
  and their index rows in the families of one sorted key-value store; writes go through transactions
  that own the counters, and the vector graph is brought up to date behind the writer by a queue that
  searches read through.  The engine (\<open>rro-engine\<close>) authorizes verbs and coordinates leaders and
  followers.

  \<^bold>\<open>Theories.\<close>
  \<^item> \<open>Prelude\<close>: errors as sums, bytes and UTF-8, scans over byte strings.  \<open>Bytes\<close>: big and little endian
    encodings.  \<open>Float64\<close>: the comparison of binary64 patterns and the conversions from integers, by their
    bits.
  \<^item> \<open>Lexer\<close>, \<open>LexerSafe\<close>: \<open>rro-ql/src/lexer.rs\<close> over the bytes of the source, slicing at a byte that is no
    character boundary being the panic it is in the code; \<open>caret\<close> of \<open>error.rs\<close>.
  \<^item> \<open>Ast\<close>, \<open>Parser\<close>, \<open>ParserProps\<close>, \<open>ParserRoundTrip\<close>: \<open>ast.rs\<close> and \<open>parser.rs\<close>.  The expression parser
    recurses with fuel six times the tokens plus four, which \<open>parse_total\<close> shows is never used up.
  \<^item> \<open>Json\<close>, \<open>Time\<close>, \<open>Query\<close>, \<open>Lower\<close>: metadata values, \<open>rro-core/src/time.rs\<close>, the filters of \<open>query.rs\<close>
    and \<open>rro-ql/src/lower.rs\<close>.
  \<^item> \<open>Geo\<close>, \<open>Keys\<close>, \<open>KeysProps\<close>: the Morton codes of \<open>geo.rs\<close> and every key of \<open>connxism/src/keys.rs\<close>.
  \<^item> \<open>Kv\<close>: the store of \<open>kv/fjall.rs\<close> as a sorted row list per family, behind the locale \<open>ordered_rows\<close>,
    with the atomic batch and its counter merges.
  \<^item> \<open>Model\<close>, \<open>Store\<close>, \<open>StoreProps\<close>, \<open>StoreRuns\<close>: the stored forms of \<open>model.rs\<close>, the transactions of
    \<open>txn.rs\<close>, and the upserts, removals, quotas and payload mutations of \<open>store.rs\<close>.  \<open>Records\<close>: the
    full contract of the write path, every row with its value, over the locale \<open>row_family\<close>.
  \<^item> \<open>FilterIndex\<close>, \<open>FilterProps\<close>: the index-first execution of filters, \<open>filter.rs\<close>.  \<open>Estate\<close>, \<open>EstateProps\<close>,
    \<open>TagProps\<close>: the registries of \<open>estate.rs\<close> (payload indexes, collections, aliases, tags, counts).
  \<^item> \<open>Feed\<close>, \<open>Replica\<close>, \<open>ReplicaProps\<close>: the change feed, payload mutations and the follower of
    \<open>rro-engine/src/replica.rs\<close>.
  \<^item> \<open>Float32\<close>: binary32 addition, multiplication, division, square root and comparison on bit patterns,
    rounding to nearest even.  \<open>Fusion\<close>: cosine, MaxSim, BM25 and rank fusion, \<open>index.rs\<close>, \<open>simd.rs\<close>.
    \<open>Votes\<close>, \<open>Search\<close>, \<open>LexicalProps\<close>: the searches of \<open>store.rs\<close> and the exactness of lexical pruning.
    \<open>Quant\<close>, \<open>VecStore\<close>: the vector codes of \<open>recall/src/quant.rs\<close> and the paged vector storage of
    \<open>recall/src/ann.rs\<close>.  \<open>Heap\<close>: the binary heap of the standard library, behind the locale \<open>max_queue\<close>.
    \<open>Graph\<close>, \<open>BeamProps\<close>, \<open>GraphProps\<close>, \<open>GraphRefine\<close>: the layered vector graph of \<open>ann.rs\<close>, its beam, its
    invariant and its refinement of a map; \<open>GraphFile\<close>, \<open>GraphFileProps\<close>: its binary form.
    \<open>QueryPlane\<close>, \<open>SearchProps\<close>: query execution, \<open>query.rs\<close>, and what a query promises of its answer.
  \<^item> \<open>Rels\<close>: relations and traversal, \<open>rels.rs\<close>.  \<open>Pending\<close>: the queue of graph operations, \<open>pending.rs\<close>, as
    a step relation over all interleavings of writers and applier.
  \<^item> \<open>Cluster\<close>, \<open>Sha\<close>, \<open>Auth\<close>: quorum, lease and election of \<open>rro-engine/src/cluster.rs\<close>, the digests and
    tokens of \<open>auth.rs\<close> and the gate of \<open>handler.rs\<close>.  \<open>Sql\<close>: the executor of statements, \<open>sql.rs\<close>.
    \<open>Node\<close>: the message handler of \<open>handler.rs\<close>, a step of a node per verb of the estate.

  \<^bold>\<open>Correspondence.\<close>  A \<open>Vec<u8>\<close> or \<open>String\<close> is a list of characters, each a byte; integers that the
  code wraps, saturates or encodes are words of their width; hash maps are association lists in the
  order of first insertion where their order cannot be observed; \<open>Result\<close> is a sum with the error on
  the left, and \<open>None\<close> outside it is a panic where a definition says so.  Blocking calls, the runtime
  and the locks are sequential calls, except in \<open>Pending\<close> and \<open>Cluster\<close>, whose step relations have the
  interleavings.

  \<^bold>\<open>Parameters.\<close>  The serializer of stored values (the record \<open>serde\<close>), the text analyzer, the clock,
  the natural logarithm, platform trigonometry and the decimal text of numbers are arguments of the
  definitions that use them; what a theorem needs of them (a stored document is read back as written)
  is a hypothesis of it.

  \<^bold>\<open>What the theorems show.\<close>  Statements: the lexer never panics, every token list the printer gives is
  parsed back, parsing ends on every text, and lowering keeps the meaning of the expression when it
  has at most one OR.  Storage: encoded keys sort as their values and split back, a commit is the last
  write of each key plus the sum of each counter's deltas.  Estate: an upsert of distinct ids is a map
  update and a removal a deletion (\<open>upsert_refines\<close>, \<open>remove_refines\<close>).  Their abstraction \<open>records_of\<close>
  fixes every row of the term, sparse, named, token vector, collection, payload index, document and
  vector families with its value, the feed, the document count, the document frequencies, the token
  total and the shape census; \<open>untouched\<close> says what else stays, the tags of a removed document
  included.  \<open>estate_of\<close>, which leaves the posting values, vectors, tokens, shapes and feed open, is the
  weaker abstraction of the registries and the filters.  A failed transaction leaves only
  declarations; relations refine a set of edges and traversal is a bounded breadth-first search; a search
  always sees the last operation queued for an id; the index-first answer to a filter is exactly the
  documents its index reading accepts, which need not be those the filter itself accepts
  (\<open>index_changes_answer\<close>); a payload index created or rebuilt keeps the abstraction.
  Queries: lexical pruning returns the page of the exhaustive search, and every answer lies in the
  scope, the collection, the filter and the threshold of the query; the vector graph never panics, refines
  the map from ids to vectors (\<open>graph_refines_map\<close>), and its searches answer live ids nearest first
  (\<open>graph_search_answers\<close>), which is what the queries assume of it (\<open>graph_view_allowed\<close>), and a persisted
  graph is read back with the same answers (\<open>graph_persists\<close>).  Replication: a follower at the head
  mirrors every document.  Cluster: an acknowledged write survives the
  election, and a node admits only signed, unexpired tokens of its namespace and role, and lets no reader change its
  estate; yet one forged poll of a reader makes a quorum of two count every write as committed
  (\<open>forged_poll_commits\<close>).

  \<^bold>\<open>Not modelled.\<close>  Model runners and the network, the command line, the GraphQL surface, the verbs that run
  the flow or do maintenance, the push streams, the evaluation and benchmark programs.  Capacity reserved
  ahead of time (\<open>Vec::with_capacity\<close> in the readers of token vectors and graphs and in the sampler) is
  not modelled: it can fail only for want of memory, since the readers' counts are 32 bits wide and the
  handler caps a sample at 4096.  The analyzer an estate records in its description is a parameter.
  Error texts are constructors without their wording.
\<close>

end
